(* ===== verification/C_Prelude.thy ===== *)
theory C_Prelude
  imports Main "HOL-Library.Word" "HOL-Library.Signed_Division"
begin

text \<open>
  What every component of the development shares: the C values the programs compute with
  (fixed-width words, \<open>int\<close>s with their range, NUL-terminated strings), the faults a C program
  can run into as values of a datatype, byte-addressed buffers with bounds-checked accesses,
  the byte order conversions of \<^verbatim>\<open><arpa/inet.h>\<close>, and the parts of the standard library
  (\<^verbatim>\<open>printf\<close> conversions, \<^verbatim>\<open>atoi\<close>, \<^verbatim>\<open>memcpy\<close>, \<^verbatim>\<open>memset\<close>) the sources
  call. The machine is the one the programs are built for: x86-64 Linux, so little-endian,
  with 32-bit \<open>int\<close> and 64-bit \<open>long\<close>.
\<close>

unbundle bit_operations_syntax

named_theorems cres_simps \<open>evaluation of computations that may fault\<close>
named_theorems mem_simps \<open>reads and writes of byte buffers\<close>

section \<open>Types\<close>

type_synonym u8 = "8 word"
type_synonym u16 = "16 word"
type_synonym u32 = "32 word"
type_synonym u64 = "64 word"
type_synonym bytes = "u8 list"

section \<open>Faults\<close>

text \<open>
  A fault is a point where the C program has no defined behaviour any more (or ends the
  process): the model stops there with the fault as its value instead of continuing with an
  unspecified one.
\<close>

datatype fault =
    OutOfBounds        \<comment> \<open>an access outside the allocated or captured bytes\<close>
  | UninitRead         \<comment> \<open>a read of memory nothing was written to\<close>
  | NullDeref          \<comment> \<open>a use of a null pointer\<close>
  | DanglingPtr        \<comment> \<open>a use of a pointer to a released object\<close>
  | DivByZero
  | SignedOverflow
  | BadShift           \<comment> \<open>a shift by the width of the type or more\<close>
  | NoReturn           \<comment> \<open>a loop that does not end\<close>
  | ExitProcess int    \<comment> \<open>\<^verbatim>\<open>exit(code)\<close>\<close>

type_synonym 'a cres = "fault + 'a"

definition bindE :: "'a cres \<Rightarrow> ('a \<Rightarrow> 'b cres) \<Rightarrow> 'b cres" where
  "bindE m f = (case m of Inl e \<Rightarrow> Inl e | Inr x \<Rightarrow> f x)"

lemma bindE_Inl [simp, cres_simps]: "bindE (Inl e) f = Inl e"
  by (simp add: bindE_def)

lemma bindE_Inr [simp, cres_simps]: "bindE (Inr x) f = f x"
  by (simp add: bindE_def)

lemma bindE_assoc: "bindE (bindE m f) g = bindE m (\<lambda>x. bindE (f x) g)"
  by (simp add: bindE_def split: sum.splits)

lemma bindE_eq_Inr: "bindE m f = Inr y \<longleftrightarrow> (\<exists>x. m = Inr x \<and> f x = Inr y)"
  by (cases m) auto

lemma bindE_cong [fundef_cong]:
  "m = m' \<Longrightarrow> (\<And>x. m' = Inr x \<Longrightarrow> f x = f' x) \<Longrightarrow> bindE m f = bindE m' f'"
  by (cases m') auto

text \<open>A loop over a list that stops at the first fault, and its threaded version.\<close>

fun mapE :: "('a \<Rightarrow> 'b cres) \<Rightarrow> 'a list \<Rightarrow> 'b list cres" where
  "mapE f [] = Inr []"
| "mapE f (x # xs) = bindE (f x) (\<lambda>y. bindE (mapE f xs) (\<lambda>ys. Inr (y # ys)))"

fun foldE :: "('a \<Rightarrow> 's \<Rightarrow> 's cres) \<Rightarrow> 'a list \<Rightarrow> 's \<Rightarrow> 's cres" where
  "foldE f [] s = Inr s"
| "foldE f (x # xs) s = bindE (f x s) (foldE f xs)"

lemma mapE_Inr: "(\<And>x. x \<in> set xs \<Longrightarrow> f x = Inr (g x)) \<Longrightarrow> mapE f xs = Inr (map g xs)"
  by (induction xs) auto

lemma mapE_append: "mapE f (xs @ ys) = bindE (mapE f xs) (\<lambda>a. bindE (mapE f ys) (\<lambda>b. Inr (a @ b)))"
  by (induction xs) (auto simp: bindE_def split: sum.splits)

lemma foldE_append: "foldE f (xs @ ys) s = bindE (foldE f xs s) (foldE f ys)"
  by (induction xs arbitrary: s) (auto simp: bindE_def split: sum.splits)

lemma foldE_range:
  assumes "\<And>k s. lo \<le> k \<Longrightarrow> k < hi \<Longrightarrow> P k s \<Longrightarrow> \<exists>s'. f k s = Inr s' \<and> P (Suc k) s'" and "P lo s" and "lo \<le> hi"
  shows "\<exists>s'. foldE f [lo..<hi] s = Inr s' \<and> P hi s'"
  using assms(3,1)
proof (induction hi rule: dec_induct)
  case base
  then show ?case using assms(2) by simp
next
  case (step n)
  then obtain s1 where s1: "foldE f [lo..<n] s = Inr s1" "P n s1" using less_SucI by blast
  obtain s2 where "f n s1 = Inr s2" "P (Suc n) s2" using step.prems [OF step.hyps(1) lessI s1(2)] by blast
  then show ?case using s1(1) step.hyps(1) by (simp add: foldE_append)
qed

section \<open>Integers of type int\<close>

definition INT_MAX :: int where "INT_MAX = 2147483647"
definition INT_MIN :: int where "INT_MIN = -2147483648"

definition in_int :: "int \<Rightarrow> bool" where
  "in_int x \<longleftrightarrow> INT_MIN \<le> x \<and> x \<le> INT_MAX"

definition c_add :: "int \<Rightarrow> int \<Rightarrow> int cres" where
  "c_add a b = (if in_int (a + b) then Inr (a + b) else Inl SignedOverflow)"

definition c_sub :: "int \<Rightarrow> int \<Rightarrow> int cres" where
  "c_sub a b = (if in_int (a - b) then Inr (a - b) else Inl SignedOverflow)"

definition c_mul :: "int \<Rightarrow> int \<Rightarrow> int cres" where
  "c_mul a b = (if in_int (a * b) then Inr (a * b) else Inl SignedOverflow)"

text \<open>\<open>%\<close> of C truncates towards zero, as \<open>/\<close> does; a zero divisor is a fault.\<close>

definition c_mod :: "int \<Rightarrow> int \<Rightarrow> int cres" where
  "c_mod a b = (if b = 0 then Inl DivByZero else Inr (a smod b))"

definition c_div :: "int \<Rightarrow> int \<Rightarrow> int cres" where
  "c_div a b = (if b = 0 then Inl DivByZero else if in_int (a sdiv b) then Inr (a sdiv b) else Inl SignedOverflow)"

lemma smod_nonneg: "0 \<le> a \<Longrightarrow> 0 \<le> b \<Longrightarrow> (a::int) smod b = a mod b"
  by (cases "b = 0") (auto simp: signed_modulo_int_def sgn_if)

lemma sdiv_nonneg: "0 \<le> a \<Longrightarrow> 0 \<le> b \<Longrightarrow> (a::int) sdiv b = a div b"
  by (cases "a = 0") (auto simp: signed_divide_int_def sgn_if)

lemmas c_int_defs = c_add_def c_sub_def c_mul_def c_mod_def c_div_def in_int_def INT_MAX_def INT_MIN_def

section \<open>Arrays and byte buffers\<close>

definition rd :: "'a list \<Rightarrow> int \<Rightarrow> 'a cres" where
  "rd xs i = (if 0 \<le> i \<and> i < int (length xs) then Inr (xs ! nat i) else Inl OutOfBounds)"

definition wr :: "'a list \<Rightarrow> int \<Rightarrow> 'a \<Rightarrow> 'a list cres" where
  "wr xs i v = (if 0 \<le> i \<and> i < int (length xs) then Inr (xs[nat i := v]) else Inl OutOfBounds)"

lemma rd_in [mem_simps]: "0 \<le> i \<Longrightarrow> i < int (length xs) \<Longrightarrow> rd xs i = Inr (xs ! nat i)"
  by (simp add: rd_def)

lemma wr_in [mem_simps]: "0 \<le> i \<Longrightarrow> i < int (length xs) \<Longrightarrow> wr xs i v = Inr (xs[nat i := v])"
  by (simp add: wr_def)

lemma rd_nat: "i < length xs \<Longrightarrow> rd xs (int i) = Inr (xs ! i)"
  by (simp add: rd_def)

lemma wr_nat: "i < length xs \<Longrightarrow> wr xs (int i) v = Inr (xs[i := v])"
  by (simp add: wr_def)

lemma rd_out: "int (length xs) \<le> i \<Longrightarrow> rd xs i = Inl OutOfBounds"
  by (simp add: rd_def)

text \<open>A run of bytes: what \<^verbatim>\<open>memcpy\<close> reads and writes.\<close>

definition rd_slice :: "'a list \<Rightarrow> nat \<Rightarrow> nat \<Rightarrow> 'a list cres" where
  "rd_slice buf off n =
     (if off + n \<le> length buf then Inr (take n (drop off buf)) else Inl OutOfBounds)"

definition wr_slice :: "'a list \<Rightarrow> nat \<Rightarrow> 'a list \<Rightarrow> 'a list cres" where
  "wr_slice buf off bs =
     (if off + length bs \<le> length buf
      then Inr (take off buf @ bs @ drop (off + length bs) buf) else Inl OutOfBounds)"

text \<open>The same write without the bounds check, for statements about its effect.\<close>

definition put :: "'a list \<Rightarrow> nat \<Rightarrow> 'a list \<Rightarrow> 'a list" where
  "put buf off bs = take off buf @ bs @ drop (off + length bs) buf"

lemma wr_slice_in [mem_simps]: "off + length bs \<le> length buf \<Longrightarrow> wr_slice buf off bs = Inr (put buf off bs)"
  by (simp add: wr_slice_def put_def)

lemma rd_slice_in [mem_simps]: "off + n \<le> length buf \<Longrightarrow> rd_slice buf off n = Inr (take n (drop off buf))"
  by (simp add: rd_slice_def)

lemma length_put [simp, mem_simps]: "off + length bs \<le> length buf \<Longrightarrow> length (put buf off bs) = length buf"
  by (simp add: put_def)

lemma nth_put [mem_simps]:
  "off + length bs \<le> length buf \<Longrightarrow> i < length buf \<Longrightarrow>
   put buf off bs ! i = (if off \<le> i \<and> i < off + length bs then bs ! (i - off) else buf ! i)"
  by (auto simp: put_def nth_append nth_drop min_def)

lemma take_drop_put_same [mem_simps]:
  "off + length bs \<le> length buf \<Longrightarrow> n = length bs \<Longrightarrow> take n (drop off (put buf off bs)) = bs"
  by (simp add: put_def)

lemma take_drop_put_other [mem_simps]:
  assumes "off + length bs \<le> length buf" and "o2 + n \<le> off \<or> off + length bs \<le> o2"
  shows "take n (drop o2 (put buf off bs)) = take n (drop o2 buf)"
proof (rule nth_equalityI)
  show "length (take n (drop o2 (put buf off bs))) = length (take n (drop o2 buf))"
    using assms(1) by simp
next
  fix i assume "i < length (take n (drop o2 (put buf off bs)))"
  then show "take n (drop o2 (put buf off bs)) ! i = take n (drop o2 buf) ! i"
    using assms by (auto simp: nth_put)
qed

lemma take_drop_put_within:
  assumes "k + length bs \<le> n" "p + n \<le> length buf"
  shows "take n (drop p (put buf (p + k) bs)) = put (take n (drop p buf)) k bs"
proof (rule nth_equalityI)
  fix i assume "i < length (take n (drop p (put buf (p + k) bs)))"
  then have "i < n" "p + i < length buf" using assms by auto
  then show "take n (drop p (put buf (p + k) bs)) ! i = put (take n (drop p buf)) k bs ! i"
    using assms by (auto simp: nth_put)
qed (use assms in simp)

section \<open>Byte order\<close>

fun le_bytes :: "nat \<Rightarrow> nat \<Rightarrow> bytes" where
  "le_bytes 0 v = []"
| "le_bytes (Suc n) v = of_nat (v mod 256) # le_bytes n (v div 256)"

fun le_val :: "bytes \<Rightarrow> nat" where
  "le_val [] = 0"
| "le_val (b # bs) = unat b + 256 * le_val bs"

lemma length_le_bytes [simp]: "length (le_bytes n v) = n"
  by (induction n arbitrary: v) auto

lemma unat_u8_less: "unat (b :: u8) < 256"
  using unsigned_less [of b] by simp

lemma unat_u16_less: "unat (w :: u16) < 65536"
  using unsigned_less [of w] by simp

lemma unat_u32_of_nat: "n < 2 ^ 32 \<Longrightarrow> unat (of_nat n :: u32) = n"
  by (simp add: unat_of_nat)

lemma unat_u32_less: "unat (w :: u32) < 4294967296"
  using unsigned_less [of w] by simp

lemma le_bytes_2: "le_bytes 2 v = [of_nat (v mod 256), of_nat (v div 256 mod 256)]"
proof -
  have "(2 :: nat) = Suc (Suc 0)" by simp
  then show ?thesis by (simp only: le_bytes.simps)
qed

lemma le_bytes_4:
  "le_bytes 4 v = [of_nat (v mod 256), of_nat (v div 256 mod 256),
     of_nat (v div 65536 mod 256), of_nat (v div 16777216 mod 256)]"
proof -
  have "(4 :: nat) = Suc (Suc (Suc (Suc 0)))" by simp
  then have "le_bytes 4 v = [of_nat (v mod 256), of_nat (v div 256 mod 256),
     of_nat (v div 256 div 256 mod 256), of_nat (v div 256 div 256 div 256 mod 256)]"
    by (simp only: le_bytes.simps)
  then show ?thesis by (simp flip: div_mult2_eq)
qed

lemma le_val_le_bytes: "le_val (le_bytes n v) = v mod 256 ^ n"
proof (induction n arbitrary: v)
  case 0
  then show ?case by simp
next
  case (Suc n)
  have "unat (of_nat (v mod 256) :: u8) = v mod 256"
    by (simp add: unat_of_nat)
  then show ?case
    by (simp add: Suc.IH mod_mult2_eq)
qed

lemma le_bytes_le_val: "le_bytes (length bs) (le_val bs) = bs"
  by (induction bs) (simp_all add: unat_u8_less)

lemma le_val_less: "le_val bs < 256 ^ length bs"
proof (induction bs)
  case Nil
  then show ?case by simp
next
  case (Cons b bs)
  have "unat b + 256 * le_val bs < 256 * (le_val bs + 1)"
    using unat_u8_less [of b] by (simp add: distrib_left)
  also have "\<dots> \<le> 256 * 256 ^ length bs"
    using Cons.IH by (intro mult_le_mono2) simp
  finally show ?case by simp
qed

definition be_bytes :: "nat \<Rightarrow> nat \<Rightarrow> bytes" where
  "be_bytes n v = rev (le_bytes n v)"

definition be_val :: "bytes \<Rightarrow> nat" where
  "be_val bs = le_val (rev bs)"

lemma length_be_bytes [simp]: "length (be_bytes n v) = n"
  by (simp add: be_bytes_def)

lemma be_val_be_bytes: "be_val (be_bytes n v) = v mod 256 ^ n"
  by (simp add: be_val_def be_bytes_def le_val_le_bytes)

text \<open>
  A field of a packed header is read and written in host (little-endian) order;
  \<^verbatim>\<open>htons\<close> and \<^verbatim>\<open>htonl\<close> swap the bytes of the value.
\<close>

definition rd_u16 :: "bytes \<Rightarrow> nat \<Rightarrow> u16 cres" where
  "rd_u16 buf off = bindE (rd_slice buf off 2) (\<lambda>bs. Inr (of_nat (le_val bs)))"

lemma rd_u16_in [mem_simps]:
  "Suc p < length buf \<Longrightarrow> rd_u16 buf p = Inr (of_nat (unat (buf ! p) + 256 * unat (buf ! Suc p)))"
proof -
  assume p: "Suc p < length buf"
  then have "take 2 (drop p buf) = [buf ! p, buf ! Suc p]"
    by (simp add: take_Suc_conv_app_nth numeral_2_eq_2)
  with p show ?thesis by (simp add: rd_u16_def rd_slice_def)
qed

lemma unat_word16: "unat (of_nat (unat (a :: u8) + 256 * unat (b :: u8)) :: u16) = unat a + 256 * unat b"
  using unat_u8_less [of a] unat_u8_less [of b] by (simp add: unat_of_nat del: of_nat_add of_nat_mult)

lemma of_nat_mod_u16: "(of_nat (n mod 65536) :: u16) = of_nat n"
  by (simp add: word_of_nat_eq_iff take_bit_eq_mod)

lemma unat_not_u16: "unat (NOT (w :: u16)) = 65535 - unat w"
proof -
  have "NOT w = -1 - w" by (simp add: not_eq_complement)
  moreover have "unat (-1 - w) = unat (-1 :: u16) - unat w"
    by (rule unat_sub) (rule word_order.extremum)
  moreover have "unat (-1 :: u16) = 65535" by (simp add: unsigned_minus_1_eq_mask mask_eq_exp_minus_1)
  ultimately show ?thesis by simp
qed

definition wr_u16 :: "bytes \<Rightarrow> nat \<Rightarrow> u16 \<Rightarrow> bytes cres" where
  "wr_u16 buf off w = wr_slice buf off (le_bytes 2 (unat w))"

definition rd_u32 :: "bytes \<Rightarrow> nat \<Rightarrow> u32 cres" where
  "rd_u32 buf off = bindE (rd_slice buf off 4) (\<lambda>bs. Inr (of_nat (le_val bs)))"

definition wr_u32 :: "bytes \<Rightarrow> nat \<Rightarrow> u32 \<Rightarrow> bytes cres" where
  "wr_u32 buf off w = wr_slice buf off (le_bytes 4 (unat w))"

definition htons :: "u16 \<Rightarrow> u16" where
  "htons w = of_nat (le_val (be_bytes 2 (unat w)))"

definition htonl :: "u32 \<Rightarrow> u32" where
  "htonl w = of_nat (le_val (be_bytes 4 (unat w)))"

lemma le_bytes_htons: "le_bytes 2 (unat (htons w)) = be_bytes 2 (unat w)"
proof -
  have "le_val (be_bytes 2 (unat w)) < 65536"
    using le_val_less [of "be_bytes 2 (unat w)"] by simp
  then have "unat (htons w) = le_val (be_bytes 2 (unat w))"
    by (simp add: htons_def unat_of_nat)
  then show ?thesis
    using le_bytes_le_val [of "be_bytes 2 (unat w)"] by simp
qed

lemma le_bytes_htonl: "le_bytes 4 (unat (htonl w)) = be_bytes 4 (unat w)"
proof -
  have "le_val (be_bytes 4 (unat w)) < 4294967296"
    using le_val_less [of "be_bytes 4 (unat w)"] by simp
  then have "unat (htonl w) = le_val (be_bytes 4 (unat w))"
    by (simp add: htonl_def unat_of_nat)
  then show ?thesis
    using le_bytes_le_val [of "be_bytes 4 (unat w)"] by simp
qed

lemma htons_htons [simp]: "htons (htons w) = w"
proof -
  have "be_bytes 2 (unat (htons w)) = le_bytes 2 (unat w)"
    by (simp add: be_bytes_def le_bytes_htons)
  then have "htons (htons w) = of_nat (le_val (le_bytes 2 (unat w)))"
    by (simp add: htons_def [of "htons w"])
  then show ?thesis by (simp add: le_val_le_bytes unat_u16_less)
qed

end
