(* ===== verification/C_Text.thy ===== *)
theory C_Text
  imports C_Prelude
begin

text \<open>
  The character functions, \<^verbatim>\<open>printf\<close> conversions and string functions of the C library
  that the programs call, as functions on strings (character lists, the terminating NUL left
  out). The round trip of \<^verbatim>\<open>atoi\<close> with \<^verbatim>\<open>%d\<close> is used wherever a program prints a
  number into a string that another part parses back.
\<close>

section \<open>Characters\<close>

definition c_isdigit :: "char \<Rightarrow> bool" where
  "c_isdigit c \<longleftrightarrow> 48 \<le> (of_char c :: nat) \<and> (of_char c :: nat) \<le> 57"

definition c_isspace :: "char \<Rightarrow> bool" where
  "c_isspace c \<longleftrightarrow> (of_char c :: nat) = 32 \<or> (9 \<le> (of_char c :: nat) \<and> (of_char c :: nat) \<le> 13)"

text \<open>\<^verbatim>\<open>isprint\<close> of the C locale.\<close>

definition c_isprint :: "u8 \<Rightarrow> bool" where
  "c_isprint b \<longleftrightarrow> 32 \<le> unat b \<and> unat b \<le> 126"

definition char_of_byte :: "u8 \<Rightarrow> char" where
  "char_of_byte b = char_of (unat b)"

definition newline :: char where
  "newline = char_of (10 :: nat)"

text \<open>The two output streams, and a line of output with its newline.\<close>

datatype stream = Stdout | Stderr

definition line :: "string \<Rightarrow> string" where
  "line s = s @ [newline]"

section \<open>Number conversions of printf\<close>

definition digit_char :: "nat \<Rightarrow> char" where
  "digit_char d = char_of (48 + d)"

fun dec_nat :: "nat \<Rightarrow> string" where
  "dec_nat n = (if n < 10 then [digit_char n] else dec_nat (n div 10) @ [digit_char (n mod 10)])"

declare dec_nat.simps [simp del]

definition dec_int :: "int \<Rightarrow> string" where
  "dec_int i = (if i < 0 then CHR ''-'' # dec_nat (nat (- i)) else dec_nat (nat i))"

text \<open>\<^verbatim>\<open>%0nd\<close> of a value that is not negative.\<close>

definition pad_zero :: "nat \<Rightarrow> string \<Rightarrow> string" where
  "pad_zero n s = replicate (n - length s) (CHR ''0'') @ s"

text \<open>\<^verbatim>\<open>%nd\<close> and \<^verbatim>\<open>%ns\<close>, and the left-aligned \<^verbatim>\<open>%-ns\<close>.\<close>

definition pad_left :: "nat \<Rightarrow> string \<Rightarrow> string" where
  "pad_left n s = replicate (n - length s) (CHR '' '') @ s"

definition pad_right :: "nat \<Rightarrow> string \<Rightarrow> string" where
  "pad_right n s = s @ replicate (n - length s) (CHR '' '')"

definition hex_char :: "nat \<Rightarrow> char" where
  "hex_char d = (if d < 10 then char_of (48 + d) else char_of (87 + d))"

definition hex2 :: "u8 \<Rightarrow> string" where
  "hex2 b = [hex_char (unat b div 16), hex_char (unat b mod 16)]"

lemma length_hex2 [simp]: "length (hex2 b) = 2"
  by (simp add: hex2_def)

lemma length_pad_zero: "length s \<le> n \<Longrightarrow> length (pad_zero n s) = n"
  by (simp add: pad_zero_def)

lemma length_dec_nat: "n < 10 ^ k \<Longrightarrow> 0 < k \<Longrightarrow> length (dec_nat n) \<le> k"
proof (induction k arbitrary: n)
  case (Suc k)
  show ?case
  proof (cases "n < 10")
    case True
    then show ?thesis by (simp add: dec_nat.simps [of n])
  next
    case False
    then have "0 < k" using Suc.prems(1) by (cases k) auto
    then show ?thesis using Suc.IH [of "n div 10"] Suc.prems(1) False by (simp add: dec_nat.simps [of n])
  qed
qed simp

section \<open>atoi\<close>

definition digit_val :: "char \<Rightarrow> int" where
  "digit_val c = int (of_char c) - 48"

fun digits_from :: "int \<Rightarrow> string \<Rightarrow> int" where
  "digits_from acc [] = acc"
| "digits_from acc (c # cs) =
     (if c_isdigit c then digits_from (10 * acc + digit_val c) cs else acc)"

text \<open>
  Leading white space, an optional sign, then the longest run of digits; a value that is no
  \<open>int\<close> is undefined (C11 7.22.1), which the model reports as an overflow.
\<close>

definition atoi :: "string \<Rightarrow> int cres" where
  "atoi s =
     (let t = dropWhile c_isspace s;
          v = (case t of [] \<Rightarrow> 0
               | c # cs \<Rightarrow> if c = CHR ''-'' then - digits_from 0 cs
                          else if c = CHR ''+'' then digits_from 0 cs
                          else digits_from 0 t)
      in if in_int v then Inr v else Inl SignedOverflow)"

lemma of_char_digit: "d < 10 \<Longrightarrow> (of_char (digit_char d) :: nat) = 48 + d"
  by (simp add: digit_char_def)

lemma isdigit_digit_char [simp]: "d < 10 \<Longrightarrow> c_isdigit (digit_char d)"
  by (simp add: c_isdigit_def of_char_digit)

lemma digit_val_digit_char [simp]: "d < 10 \<Longrightarrow> digit_val (digit_char d) = int d"
  by (simp add: digit_val_def of_char_digit)

lemma dec_nat_digits: "\<forall>c \<in> set (dec_nat n). c_isdigit c"
proof (induction n rule: dec_nat.induct)
  case (1 n)
  then show ?case by (cases "n < 10") (auto simp: dec_nat.simps [of n])
qed

lemma dec_nat_nonempty: "dec_nat n \<noteq> []"
  by (subst dec_nat.simps) simp

lemma digits_from_append:
  "\<forall>c \<in> set xs. c_isdigit c \<Longrightarrow> digits_from acc (xs @ ys) = digits_from (digits_from acc xs) ys"
  by (induction xs arbitrary: acc) auto

lemma digits_from_stop: "ys = [] \<or> \<not> c_isdigit (hd ys) \<Longrightarrow> digits_from acc ys = acc"
  by (cases ys) auto

lemma digits_from_dec_nat: "digits_from acc (dec_nat n) = acc * 10 ^ length (dec_nat n) + int n"
proof (induction n arbitrary: acc rule: dec_nat.induct)
  case (1 n)
  show ?case
  proof (cases "n < 10")
    case True
    then show ?thesis by (simp add: dec_nat.simps [of n])
  next
    case False
    have dig: "\<forall>c \<in> set (dec_nat (n div 10)). c_isdigit c" by (rule dec_nat_digits)
    have "digits_from acc (dec_nat n) = 10 * digits_from acc (dec_nat (n div 10)) + int (n mod 10)"
      using False dig by (simp add: dec_nat.simps [of n] digits_from_append)
    also have "\<dots> = acc * 10 ^ length (dec_nat n) + int n"
      using False by (simp add: "1.IH" dec_nat.simps [of n] algebra_simps zmod_int zdiv_int)
    finally show ?thesis .
  qed
qed

lemma c_isspace_not_digit: "c_isdigit c \<Longrightarrow> \<not> c_isspace c"
  by (auto simp: c_isdigit_def c_isspace_def)

lemma of_char_signs: "(of_char (CHR ''-'') :: nat) = 45" "(of_char (CHR ''+'') :: nat) = 43"
  by simp_all

lemma atoi_dec_int:
  assumes "in_int i" and "rest = [] \<or> \<not> c_isdigit (hd rest)"
  shows "atoi (dec_int i @ rest) = Inr i"
proof -
  have val: "digits_from 0 (dec_nat n @ rest) = int n" for n
    using assms(2) by (simp add: digits_from_append dec_nat_digits digits_from_stop digits_from_dec_nat)
  show ?thesis
  proof (cases "i < 0")
    case True
    have "\<not> c_isspace (CHR ''-'')" by (simp add: c_isspace_def)
    then show ?thesis
      using True assms(1) by (simp add: atoi_def dec_int_def val)
  next
    case False
    obtain c cs where dn: "dec_nat (nat i) = c # cs"
      using dec_nat_nonempty by (cases "dec_nat (nat i)") auto
    have c: "c_isdigit c" using dec_nat_digits [of "nat i"] dn by simp
    then have "c \<noteq> CHR ''-''" "c \<noteq> CHR ''+''" "\<not> c_isspace c"
      by (auto simp: c_isdigit_def c_isspace_not_digit)
    moreover have "digits_from 0 (c # cs @ rest) = i"
      using val [of "nat i"] dn False by simp
    ultimately show ?thesis
      using False assms(1) dn by (simp add: atoi_def dec_int_def del: digits_from.simps)
  qed
qed

end
