(* ===== verification/Ring_Buffer.thy ===== *)
theory Ring_Buffer
  imports C_Text
begin

text \<open>
  The ring buffer of \<^verbatim>\<open>ring_buffer/\<close>: the queue of \<^verbatim>\<open>ring_buffer.c\<close>, its test driver
  \<^verbatim>\<open>main.c\<close>, the interface of a bounded first-in first-out queue as a locale, and the
  interpretation of that locale on the C operations. The pointers stored in the buffer are
  values of an arbitrary type; the slots are the memory \<^verbatim>\<open>NewRingBuffer\<close> allocates, so a
  store beyond them is a fault of the model.
\<close>

section \<open>The interface: a bounded queue\<close>

datatype 'a qop = Enq 'a | Deq
datatype 'a qout = Code int | Elem 'a

text \<open>The abstract queue: a list and a capacity. A refused element leaves it unchanged.\<close>

fun queue_step :: "nat \<Rightarrow> int \<Rightarrow> 'a \<Rightarrow> 'a qop \<Rightarrow> 'a list \<Rightarrow> 'a qout \<times> 'a list" where
  "queue_step cap full none (Enq x) q =
     (if length q < cap then (Code 0, q @ [x]) else (Code full, q))"
| "queue_step cap full none Deq q = (case q of [] \<Rightarrow> (Elem none, []) | x # xs \<Rightarrow> (Elem x, xs))"

fun queue_run :: "nat \<Rightarrow> int \<Rightarrow> 'a \<Rightarrow> 'a qop list \<Rightarrow> 'a list \<Rightarrow> 'a qout list \<times> 'a list" where
  "queue_run cap full none [] q = ([], q)"
| "queue_run cap full none (p # ps) q =
     (let (r, q') = queue_step cap full none p q; (rs, q'') = queue_run cap full none ps q'
      in (r # rs, q''))"

text \<open>The same operations on an implementation that may fault.\<close>

fun impl_step :: "('a \<Rightarrow> 'q \<Rightarrow> (int \<times> 'q) cres) \<Rightarrow> ('q \<Rightarrow> ('a \<times> 'q) cres) \<Rightarrow>
    'a qop \<Rightarrow> 'q \<Rightarrow> ('a qout \<times> 'q) cres" where
  "impl_step enq deq (Enq x) q = bindE (enq x q) (\<lambda>(r, q'). Inr (Code r, q'))"
| "impl_step enq deq Deq q = bindE (deq q) (\<lambda>(x, q'). Inr (Elem x, q'))"

fun impl_run :: "('a \<Rightarrow> 'q \<Rightarrow> (int \<times> 'q) cres) \<Rightarrow> ('q \<Rightarrow> ('a \<times> 'q) cres) \<Rightarrow>
    'a qop list \<Rightarrow> 'q \<Rightarrow> ('a qout list \<times> 'q) cres" where
  "impl_run enq deq [] q = Inr ([], q)"
| "impl_run enq deq (p # ps) q =
     bindE (impl_step enq deq p q) (\<lambda>(r, q').
     bindE (impl_run enq deq ps q') (\<lambda>(rs, q''). Inr (r # rs, q'')))"

locale bounded_queue =
  fixes enq :: "'a \<Rightarrow> 'q \<Rightarrow> (int \<times> 'q) cres"
    and deq :: "'q \<Rightarrow> ('a \<times> 'q) cres"
    and contents :: "'q \<Rightarrow> 'a list"
    and capacity :: "'q \<Rightarrow> nat"
    and inv :: "'q \<Rightarrow> bool"
    and full :: int
    and none :: 'a
  assumes enq_room: "inv q \<Longrightarrow> length (contents q) < capacity q \<Longrightarrow>
      \<exists>q'. enq x q = Inr (0, q') \<and> inv q' \<and> contents q' = contents q @ [x] \<and> capacity q' = capacity q"
    and enq_full: "inv q \<Longrightarrow> \<not> length (contents q) < capacity q \<Longrightarrow> enq x q = Inr (full, q)"
    and deq_none: "inv q \<Longrightarrow> contents q = [] \<Longrightarrow> deq q = Inr (none, q)"
    and deq_some: "inv q \<Longrightarrow> contents q = x # xs \<Longrightarrow>
      \<exists>q'. deq q = Inr (x, q') \<and> inv q' \<and> contents q' = xs \<and> capacity q' = capacity q"
begin

lemma step_refines:
  assumes "inv q"
  shows "\<exists>q'. impl_step enq deq p q = Inr (fst (queue_step (capacity q) full none p (contents q)), q') \<and>
     inv q' \<and> capacity q' = capacity q \<and>
     contents q' = snd (queue_step (capacity q) full none p (contents q))"
proof (cases p)
  case (Enq x)
  then show ?thesis
    using assms enq_room [of q x] enq_full [of q x]
    by (cases "length (contents q) < capacity q") auto
next
  case Deq
  then show ?thesis
    using assms deq_none [of q] deq_some [of q]
    by (cases "contents q") fastforce+
qed

lemma run_refines:
  assumes "inv q"
  shows "\<exists>q'. impl_run enq deq ps q = Inr (fst (queue_run (capacity q) full none ps (contents q)), q') \<and>
     inv q' \<and> capacity q' = capacity q \<and>
     contents q' = snd (queue_run (capacity q) full none ps (contents q))"
  using assms
proof (induction ps arbitrary: q)
  case Nil
  then show ?case by simp
next
  case (Cons p ps)
  obtain q1 where q1: "impl_step enq deq p q = Inr (fst (queue_step (capacity q) full none p (contents q)), q1)"
      "inv q1" "capacity q1 = capacity q" "contents q1 = snd (queue_step (capacity q) full none p (contents q))"
    using step_refines [OF Cons.prems] by blast
  show ?case
    using Cons.IH [OF q1(2)] q1 by (auto simp: split_beta)
qed

text \<open>What goes in comes out in the same order, as long as it fits.\<close>

lemma run_fifo:
  assumes "inv q" "contents q = []" "length xs \<le> capacity q"
  shows "\<exists>q'. impl_run enq deq (map Enq xs @ replicate (length xs) Deq) q =
     Inr (replicate (length xs) (Code 0) @ map Elem xs, q') \<and> inv q' \<and> contents q' = []"
proof -
  have deqs: "queue_run c full none (replicate (length ys) Deq) (ys :: 'a list) = (map Elem ys, [])" for c ys
    by (induction ys) auto
  have enqs: "length ys + length zs \<le> c \<Longrightarrow>
      queue_run c full none (map Enq ys @ ps) zs =
      (let (rs, z) = queue_run c full none ps (zs @ ys) in (replicate (length ys) (Code 0) @ rs, z))"
    for c and ys zs :: "'a list" and ps
    by (induction ys arbitrary: zs) (auto simp: split_beta Let_def)
  show ?thesis
    using run_refines [OF assms(1), of "map Enq xs @ replicate (length xs) Deq"] assms(2,3)
    by (auto simp: enqs deqs)
qed

end

section \<open>ring_buffer.c\<close>

datatype 'p ptr = NULL | Ptr 'p

text \<open>A slot of the array \<^verbatim>\<open>void **ring\<close>; freshly allocated memory holds no pointer yet.\<close>

datatype 'p slot = Uninit | Slot "'p ptr"

record 'p ringbuf_t =
  ring :: "'p slot list"
  rb_size :: int
  rb_start :: int
  rb_end :: int
  rb_active :: int

definition ERROR_BUFFER_FULL :: int where
  "ERROR_BUFFER_FULL = 1"

text \<open>
  The allocation is \<^verbatim>\<open>malloc(sizeof(void*))\<close>: room for one slot, whatever \<open>size\<close> is.
\<close>

definition NewRingBuffer :: "int \<Rightarrow> 'p ringbuf_t" where
  "NewRingBuffer n =
     \<lparr>ring = [Uninit], rb_size = n, rb_start = 0, rb_end = 0, rb_active = 0\<rparr>"

definition PushToQueue :: "'p ptr \<Rightarrow> 'p ringbuf_t \<Rightarrow> (int \<times> 'p ringbuf_t) cres" where
  "PushToQueue p buffer =
     (if rb_active buffer < rb_size buffer then
        bindE (wr (ring buffer) (rb_end buffer) (Slot p)) (\<lambda>r.
        bindE (c_add (rb_end buffer) 1) (\<lambda>e1.
        bindE (c_mod e1 (rb_size buffer)) (\<lambda>e.
        bindE (c_add (rb_active buffer) 1) (\<lambda>a.
        Inr (0, buffer\<lparr>ring := r, rb_end := e, rb_active := a\<rparr>)))))
      else Inr (ERROR_BUFFER_FULL, buffer))"

definition RetrieveFromQueue :: "'p ringbuf_t \<Rightarrow> ('p ptr \<times> 'p ringbuf_t) cres" where
  "RetrieveFromQueue buffer =
     (if rb_active buffer = 0 then Inr (NULL, buffer)
      else
        bindE (rd (ring buffer) (rb_start buffer)) (\<lambda>s. case s of Uninit \<Rightarrow> Inl UninitRead | Slot p \<Rightarrow>
        bindE (c_add (rb_start buffer) 1) (\<lambda>s1.
        bindE (c_mod s1 (rb_size buffer)) (\<lambda>st.
        bindE (c_sub (rb_active buffer) 1) (\<lambda>a.
        Inr (p, buffer\<lparr>rb_start := st, rb_active := a\<rparr>))))))"

text \<open>
  The printing loop, for the two element types the drivers store: \<open>mem\<close> gives the value a
  pointer points to, \<open>fmt\<close> prints it.
\<close>

definition print_slot :: "('p \<Rightarrow> 'v) \<Rightarrow> ('v \<Rightarrow> string) \<Rightarrow> 'p ringbuf_t \<Rightarrow> nat \<Rightarrow> string cres" where
  "print_slot mem fmt buffer i =
     bindE (c_add (rb_start buffer) (int i)) (\<lambda>k.
     bindE (c_mod k (rb_size buffer)) (\<lambda>idx.
     bindE (rd (ring buffer) idx) (\<lambda>s.
       case s of Uninit \<Rightarrow> Inl UninitRead
       | Slot NULL \<Rightarrow> Inl NullDeref
       | Slot (Ptr p) \<Rightarrow> Inr (CHR '' '' # fmt (mem p)))))"

definition PrintBuffer :: "('p \<Rightarrow> int) \<Rightarrow> 'p ringbuf_t \<Rightarrow> string cres" where
  "PrintBuffer mem buffer =
     bindE (mapE (print_slot mem dec_int buffer) [0..<nat (rb_active buffer)]) (\<lambda>ss.
     Inr (concat ss @ [newline]))"

text \<open>The blocks \<^verbatim>\<open>FreeRingBuffer\<close> releases, in order: the slots, then the structure.\<close>

datatype rb_block = RingArray | RingStruct

definition FreeRingBuffer :: "'p ringbuf_t \<Rightarrow> rb_block list" where
  "FreeRingBuffer buffer = [RingArray, RingStruct]"

section \<open>main.c\<close>

text \<open>
  The drivers store the addresses of array elements: the pointer \<^verbatim>\<open>&array[i]\<close> is the index
  \<open>i\<close>. \<open>push_loop\<close> is the filling loop with its \<^verbatim>\<open>break\<close>.
\<close>

fun push_loop :: "nat list \<Rightarrow> nat ringbuf_t \<Rightarrow> nat ringbuf_t cres" where
  "push_loop [] b = Inr b"
| "push_loop (i # is) b =
     bindE (PushToQueue (Ptr i) b) (\<lambda>(r, b'). if r \<noteq> 0 then Inr b' else push_loop is b')"

definition print_elem :: "(nat \<Rightarrow> string) \<Rightarrow> nat ptr \<Rightarrow> string" where
  "print_elem fmt el = (case el of NULL \<Rightarrow> [] | Ptr i \<Rightarrow> fmt i @ [newline])"

definition test_array :: "int list" where
  "test_array = [1, 2, 3, 4, 5, 6, 7, 8]"

text \<open>The body of \<^verbatim>\<open>test_ringbuf_int\<close> on a given buffer, and on the one it creates.\<close>

definition test_int_on :: "nat ringbuf_t \<Rightarrow> string cres" where
  "test_int_on buffer =
     (let mem = (\<lambda>i. test_array ! i); el = print_elem (\<lambda>i. dec_int (test_array ! i)) in
      bindE (push_loop [0..<8] buffer) (\<lambda>b.
      bindE (PrintBuffer mem b) (\<lambda>o1.
      bindE (PushToQueue (Ptr 3) b) (\<lambda>(_, b).
      bindE (PrintBuffer mem b) (\<lambda>o2.
      bindE (RetrieveFromQueue b) (\<lambda>(e1, b).
      bindE (PushToQueue (Ptr 3) b) (\<lambda>(_, b).
      bindE (PrintBuffer mem b) (\<lambda>o3.
      bindE (RetrieveFromQueue b) (\<lambda>(e2, b).
      bindE (PushToQueue (Ptr 7) b) (\<lambda>(_, b).
      bindE (PrintBuffer mem b) (\<lambda>o4.
      Inr (o1 @ o2 @ el e1 @ o3 @ el e2 @ o4))))))))))))"

definition test_ringbuf_int :: "string cres" where
  "test_ringbuf_int = test_int_on (NewRingBuffer 7)"

definition test_chars :: string where
  "test_chars = ''ABCDF''"

definition PrintCharBuffer :: "('p \<Rightarrow> char) \<Rightarrow> 'p ringbuf_t \<Rightarrow> string cres" where
  "PrintCharBuffer mem buffer =
     bindE (mapE (print_slot mem (\<lambda>c. [c]) buffer) [0..<nat (rb_active buffer)]) (\<lambda>ss.
     Inr (concat ss @ [newline]))"

definition test_char_on :: "nat ringbuf_t \<Rightarrow> string cres" where
  "test_char_on buffer =
     (let mem = (\<lambda>i. test_chars ! i); el = print_elem (\<lambda>i. [test_chars ! i]) in
      bindE (PushToQueue (Ptr 0) buffer) (\<lambda>(_, b).
      bindE (PrintCharBuffer mem b) (\<lambda>o1.
      bindE (PushToQueue (Ptr 1) b) (\<lambda>(_, b).
      bindE (PushToQueue (Ptr 2) b) (\<lambda>(_, b).
      bindE (PrintCharBuffer mem b) (\<lambda>o2.
      bindE (PushToQueue (Ptr 3) b) (\<lambda>(_, b).
      bindE (PrintCharBuffer mem b) (\<lambda>o3.
      bindE (RetrieveFromQueue b) (\<lambda>(e1, b).
      bindE (PushToQueue (Ptr 3) b) (\<lambda>(_, b).
      bindE (PrintCharBuffer mem b) (\<lambda>o4.
      bindE (RetrieveFromQueue b) (\<lambda>(e2, b).
      bindE (PushToQueue (Ptr 4) b) (\<lambda>(_, b).
      bindE (PrintCharBuffer mem b) (\<lambda>o5.
      Inr (o1 @ o2 @ o3 @ el e1 @ o4 @ el e2 @ o5)))))))))))))))"

definition test_ringbuf_char :: "string cres" where
  "test_ringbuf_char = test_char_on (NewRingBuffer 3)"

section \<open>The invariant of the buffer and its abstraction\<close>

text \<open>
  The slots in use are the \<open>rb_active\<close> ones from \<open>rb_start\<close> on, cyclically; all of them hold
  pointers and \<open>rb_end\<close> is the slot after the last. The array has a slot for each index
  below \<open>rb_size\<close>.
\<close>

definition slot_index :: "'p ringbuf_t \<Rightarrow> nat \<Rightarrow> nat" where
  "slot_index b i = nat ((rb_start b + int i) mod rb_size b)"

definition rb_inv :: "'p ringbuf_t \<Rightarrow> bool" where
  "rb_inv b \<longleftrightarrow> 0 \<le> rb_size b \<and> rb_size b \<le> int (length (ring b)) \<and> rb_size b \<le> INT_MAX \<and>
     0 \<le> rb_start b \<and> (0 < rb_size b \<longrightarrow> rb_start b < rb_size b) \<and>
     0 \<le> rb_active b \<and> rb_active b \<le> rb_size b \<and>
     rb_end b = (rb_start b + rb_active b) mod rb_size b \<and>
     (\<forall>i < nat (rb_active b). ring b ! slot_index b i \<noteq> Uninit)"

fun slot_ptr :: "'p slot \<Rightarrow> 'p ptr" where
  "slot_ptr Uninit = NULL"
| "slot_ptr (Slot p) = p"

definition rb_contents :: "'p ringbuf_t \<Rightarrow> 'p ptr list" where
  "rb_contents b = map (\<lambda>i. slot_ptr (ring b ! slot_index b i)) [0..<nat (rb_active b)]"

lemma length_rb_contents [simp]: "length (rb_contents b) = nat (rb_active b)"
  by (simp add: rb_contents_def)

lemma mod_shift_neq:
  fixes s n i j :: int
  assumes "0 \<le> i" "i < j" "j < n"
  shows "(s + i) mod n \<noteq> (s + j) mod n"
proof
  assume "(s + i) mod n = (s + j) mod n"
  then have "n dvd (s + j) - (s + i)" by (metis mod_eq_dvd_iff)
  then have "n dvd j - i" by (simp add: algebra_simps)
  then have "n \<le> j - i" using assms by (intro zdvd_imp_le) auto
  then show False using assms by linarith
qed

lemma slot_index_less: "0 < rb_size b \<Longrightarrow> rb_size b \<le> int (length (ring b)) \<Longrightarrow> slot_index b i < length (ring b)"
  using pos_mod_bound [of "rb_size b" "rb_start b + int i"]
  by (simp add: slot_index_def nat_less_iff del: pos_mod_bound)

lemma PushToQueue_room:
  fixes p :: "'p ptr" and b :: "'p ringbuf_t"
  assumes inv: "rb_inv b" and room: "rb_active b < rb_size b"
  defines "b' \<equiv> b\<lparr>ring := (ring b)[nat (rb_end b) := Slot p],
      rb_end := (rb_start b + (rb_active b + 1)) mod rb_size b, rb_active := rb_active b + 1\<rparr>"
  shows "PushToQueue p b = Inr (0, b')" and "rb_inv b'" and "rb_contents b' = rb_contents b @ [p]"
proof -
  let ?n = "rb_size b" and ?s = "rb_start b" and ?a = "rb_active b"
  have pos: "0 < ?n" and a0: "0 \<le> ?a" and len: "?n \<le> int (length (ring b))" and s: "0 \<le> ?s" "?s < ?n"
    and e: "rb_end b = (?s + ?a) mod ?n" and max: "?n \<le> INT_MAX"
    using inv room by (auto simp: rb_inv_def)
  have eb: "0 \<le> rb_end b" "rb_end b < ?n" using pos e by simp_all
  have e1: "(rb_end b + 1) smod ?n = (?s + (?a + 1)) mod ?n"
    using eb e pos by (simp add: smod_nonneg mod_simps add.assoc)
  show "PushToQueue p b = Inr (0, b')"
    using room eb len e1 max a0 unfolding PushToQueue_def b'_def
    by (simp add: mem_simps c_int_defs)
  have idx: "slot_index b' i = slot_index b i" for i
    by (simp add: slot_index_def b'_def)
  have eidx: "slot_index b (nat ?a) = nat (rb_end b)"
    using a0 e by (simp add: slot_index_def)
  have other: "slot_index b i \<noteq> nat (rb_end b)" if "i < nat ?a" for i
    using mod_shift_neq [of "int i" ?a ?n ?s] that room pos e
    by (simp add: slot_index_def eq_nat_nat_iff)
  have less: "nat (rb_end b) < length (ring b)" using eb len by linarith
  have read: "ring b' ! slot_index b' i = (if i = nat ?a then Slot p else ring b ! slot_index b i)"
    if "i < nat (?a + 1)" for i
  proof (cases "i = nat ?a")
    case True
    then show ?thesis using less by (simp add: idx eidx) (simp add: b'_def)
  next
    case False
    with that a0 have "i < nat ?a" by (simp add: nat_add_distrib)
    with other [of i] False show ?thesis by (simp add: idx) (simp add: b'_def)
  qed
  have full: "\<forall>i < nat ?a. ring b ! slot_index b i \<noteq> Uninit" using inv by (simp add: rb_inv_def)
  have fields: "rb_size b' = ?n" "rb_start b' = ?s" "rb_active b' = ?a + 1"
      "rb_end b' = (?s + (?a + 1)) mod ?n" "length (ring b') = length (ring b)"
    by (simp_all add: b'_def)
  have "ring b' ! slot_index b' i \<noteq> Uninit" if "i < nat (?a + 1)" for i
    using that full a0 by (auto simp: read nat_add_distrib less_Suc_eq)
  then show "rb_inv b'"
    using room a0 len s max pos by (simp add: rb_inv_def fields)
  have "[0..<nat (?a + 1)] = [0..<nat ?a] @ [nat ?a]"
    using a0 by (simp add: nat_add_distrib)
  then show "rb_contents b' = rb_contents b @ [p]"
    using a0 by (simp add: rb_contents_def read fields)
qed

lemma RetrieveFromQueue_some:
  assumes inv: "rb_inv b" and ne: "rb_active b \<noteq> 0"
  defines "b' \<equiv> b\<lparr>rb_start := (rb_start b + 1) mod rb_size b, rb_active := rb_active b - 1\<rparr>"
  shows "RetrieveFromQueue b = Inr (hd (rb_contents b), b')" and "rb_inv b'"
    and "rb_contents b' = tl (rb_contents b)"
proof -
  let ?n = "rb_size b" and ?s = "rb_start b" and ?a = "rb_active b"
  have pos: "0 < ?n" and a: "0 < ?a" "?a \<le> ?n" and len: "?n \<le> int (length (ring b))"
    and s: "0 \<le> ?s" "?s < ?n" and max: "?n \<le> INT_MAX"
    and e: "rb_end b = (?s + ?a) mod ?n"
    and full: "\<forall>i < nat ?a. ring b ! slot_index b i \<noteq> Uninit"
    using inv ne by (auto simp: rb_inv_def)
  have i0: "slot_index b 0 = nat ?s" using s by (simp add: slot_index_def)
  have "ring b ! nat ?s \<noteq> Uninit" using full a i0 by (metis zero_less_nat_eq)
  then obtain p where p: "ring b ! nat ?s = Slot p" by (cases "ring b ! nat ?s") auto
  have up: "[0..<nat ?a] = 0 # map Suc [0..<nat (?a - 1)]"
    using a by (simp add: map_Suc_upt upt_conv_Cons nat_diff_distrib)
  have sh: "slot_index b' i = slot_index b (Suc i)" for i
    by (simp add: slot_index_def b'_def mod_simps ac_simps)
  have cont: "rb_contents b = p # rb_contents b'"
    using p i0 by (simp add: rb_contents_def up comp_def sh) (simp add: b'_def)
  show "RetrieveFromQueue b = Inr (hd (rb_contents b), b')"
    using ne s len p max a cont unfolding RetrieveFromQueue_def b'_def
    by (simp add: mem_simps c_int_defs smod_nonneg)
  show "rb_contents b' = tl (rb_contents b)" by (simp add: cont)
  have "(?s + 1 + (?a - 1)) mod ?n = ((?s + 1) mod ?n + (?a - 1)) mod ?n"
    by (simp add: mod_add_left_eq)
  then show "rb_inv b'"
    using pos a len s max e full by (auto simp: rb_inv_def sh) (auto simp: b'_def)
qed

interpretation rbq: bounded_queue PushToQueue RetrieveFromQueue rb_contents
    "\<lambda>b. nat (rb_size b)" rb_inv ERROR_BUFFER_FULL NULL
proof unfold_locales
  fix q :: "'a ringbuf_t" and x
  assume "rb_inv q" "length (rb_contents q) < nat (rb_size q)"
  then show "\<exists>q'. PushToQueue x q = Inr (0, q') \<and> rb_inv q' \<and>
      rb_contents q' = rb_contents q @ [x] \<and> nat (rb_size q') = nat (rb_size q)"
    using PushToQueue_room [of q x] by (auto simp: rb_inv_def [of q])
next
  fix q :: "'a ringbuf_t" and x
  assume "rb_inv q" "\<not> length (rb_contents q) < nat (rb_size q)"
  then show "PushToQueue x q = Inr (ERROR_BUFFER_FULL, q)"
    by (auto simp: rb_inv_def PushToQueue_def)
next
  fix q :: "'a ringbuf_t"
  assume "rb_inv q" "rb_contents q = []"
  then show "RetrieveFromQueue q = Inr (NULL, q)"
    by (auto simp: rb_inv_def RetrieveFromQueue_def rb_contents_def)
next
  fix q :: "'a ringbuf_t" and x xs
  assume "rb_inv q" "rb_contents q = x # xs"
  moreover from this have "rb_active q \<noteq> 0" by (auto simp: rb_contents_def)
  ultimately show "\<exists>q'. RetrieveFromQueue q = Inr (x, q') \<and> rb_inv q' \<and> rb_contents q' = xs \<and>
      nat (rb_size q') = nat (rb_size q)"
    using RetrieveFromQueue_some [of q] by auto
qed

section \<open>Properties\<close>

text \<open>
  C4. Every sequence of pushes and retrievals on a buffer whose array has room for
  \<open>rb_size\<close> slots returns what a first-in first-out queue of that capacity returns (0 or
  \<^verbatim>\<open>ERROR_BUFFER_FULL\<close> for a push, the oldest pointer or \<^verbatim>\<open>NULL\<close> for a retrieval), runs into
  no fault, and leaves a buffer of which the same is true.
\<close>

theorem ring_buffer_refines_queue:
  assumes "rb_inv b"
  shows "\<exists>b'. impl_run PushToQueue RetrieveFromQueue ops b =
      Inr (fst (queue_run (nat (rb_size b)) ERROR_BUFFER_FULL NULL ops (rb_contents b)), b') \<and>
    rb_inv b' \<and> rb_size b' = rb_size b \<and>
    rb_contents b' = snd (queue_run (nat (rb_size b)) ERROR_BUFFER_FULL NULL ops (rb_contents b))"
  using rbq.run_refines [OF assms, of ops] assms by (force simp: rb_inv_def)

definition ring3 :: "nat ringbuf_t" where
  "ring3 = \<lparr>ring = [Uninit, Slot (Ptr 5), Slot (Ptr 6)], rb_size = 3, rb_start = 1, rb_end = 0, rb_active = 2\<rparr>"

lemma ring3_inv: "rb_inv ring3"
proof -
  have "P 0 \<Longrightarrow> P 1 \<Longrightarrow> i < 2 \<Longrightarrow> P i" for P and i :: nat
    by (cases "i = 0") (auto simp: less_2_cases_iff)
  from this [of "\<lambda>i. ring ring3 ! slot_index ring3 i \<noteq> Uninit"]
  have "ring ring3 ! slot_index ring3 i \<noteq> Uninit" if "i < 2" for i
    using that by (simp add: ring3_def slot_index_def)
  then show ?thesis
    by (simp add: rb_inv_def) (simp add: ring3_def INT_MAX_def)
qed

theorem ring_buffer_refines_queue_witness:
  "rb_inv ring3 \<and>
   (\<exists>b'. impl_run PushToQueue RetrieveFromQueue [Enq (Ptr 7), Enq (Ptr 8), Deq] ring3 =
     Inr ([Code 0, Code 1, Elem (Ptr 5)], b') \<and> rb_contents b' = [Ptr 6, Ptr 7])"
proof -
  have "rb_contents ring3 = [Ptr 5, Ptr 6]" "rb_size ring3 = 3"
    by (simp_all add: rb_contents_def ring3_def slot_index_def upt_rec numeral_2_eq_2)
  then show ?thesis
    using ring_buffer_refines_queue [OF ring3_inv, of "[Enq (Ptr 7), Enq (Ptr 8), Deq]"] ring3_inv
    by (auto simp: ERROR_BUFFER_FULL_def)
qed

text \<open>
  \<^verbatim>\<open>NewRingBuffer\<close> gives a buffer whose array fits its size only for sizes 0 and 1; for
  every larger size the second push writes outside the allocated array.
\<close>

theorem NewRingBuffer_allocates_one_slot:
  "rb_inv (NewRingBuffer n :: 'p ringbuf_t) = (n = 0 \<or> n = 1) \<and>
   (2 \<le> n \<longrightarrow> bindE (PushToQueue (p :: 'p ptr) (NewRingBuffer n)) (\<lambda>(r, b). PushToQueue q b) = Inl OutOfBounds)"
proof (intro conjI impI)
  show "rb_inv (NewRingBuffer n :: 'p ringbuf_t) = (n = 0 \<or> n = 1)"
    by (auto simp: rb_inv_def NewRingBuffer_def INT_MAX_def)
  assume n: "2 \<le> n"
  then have "(1 :: int) smod n = 1" by (simp add: smod_nonneg)
  with n show "bindE (PushToQueue p (NewRingBuffer n)) (\<lambda>(r, b). PushToQueue q b) = Inl OutOfBounds"
    by (simp add: PushToQueue_def NewRingBuffer_def wr_def c_int_defs)
qed

theorem NewRingBuffer_allocates_one_slot_witness:
  "(2 :: int) \<le> 7 \<and>
   bindE (PushToQueue NULL (NewRingBuffer 7)) (\<lambda>(r, b). PushToQueue (Ptr True) b) = Inl OutOfBounds"
  using NewRingBuffer_allocates_one_slot [of 7 NULL "Ptr True"] by simp

text \<open>
  \<^verbatim>\<open>test_ringbuf_int\<close>, the driver that \<^verbatim>\<open>main\<close> runs, writes outside the buffer's array.
\<close>

theorem test_ringbuf_int_out_of_bounds: "test_ringbuf_int = Inl OutOfBounds"
  by (simp add: test_ringbuf_int_def test_int_on_def NewRingBuffer_def PushToQueue_def wr_def
      c_int_defs smod_nonneg upt_rec)

text \<open>
  \<^verbatim>\<open>PrintBuffer\<close> prints the integers the queue holds, oldest first, each after a space, and
  a newline, as long as it holds no null pointer and its index sum stays an \<open>int\<close>.
\<close>

theorem PrintBuffer_prints_contents:
  assumes "rb_inv b" "rb_start b + rb_active b \<le> INT_MAX" "rb_contents b = map Ptr ps"
  shows "PrintBuffer mem b = Inr (concat (map (\<lambda>p. CHR '' '' # dec_int (mem p)) ps) @ [newline])"
proof -
  let ?a = "nat (rb_active b)"
  have a: "0 \<le> rb_active b" "rb_active b \<le> rb_size b" and s: "0 \<le> rb_start b"
    and len: "rb_size b \<le> int (length (ring b))"
    and full: "\<forall>i < ?a. ring b ! slot_index b i \<noteq> Uninit"
    using assms(1) by (auto simp: rb_inv_def)
  have lps: "length ps = ?a" using arg_cong [OF assms(3), of length] by simp
  have slot: "print_slot mem dec_int b i = Inr (CHR '' '' # dec_int (mem (ps ! i)))" if i: "i < ?a" for i
  proof -
    have pos: "0 < rb_size b" using i a by linarith
    have "slot_ptr (ring b ! slot_index b i) = Ptr (ps ! i)"
      using arg_cong [OF assms(3), of "\<lambda>l. l ! i"] i lps by (simp add: rb_contents_def)
    then have "ring b ! slot_index b i = Slot (Ptr (ps ! i))"
      using full i by (cases "ring b ! slot_index b i") auto
    then have "rd (ring b) ((rb_start b + int i) mod rb_size b) = Inr (Slot (Ptr (ps ! i)))"
      using pos slot_index_less [OF pos len, of i] by (simp add: rd_def slot_index_def nat_less_iff)
    moreover have "c_add (rb_start b) (int i) = Inr (rb_start b + int i)"
      using i a s assms(2) by (auto simp: c_int_defs)
    moreover have "c_mod (rb_start b + int i) (rb_size b) = Inr ((rb_start b + int i) mod rb_size b)"
      using pos s by (simp add: c_mod_def smod_nonneg)
    ultimately show ?thesis by (simp add: print_slot_def)
  qed
  have "mapE (print_slot mem dec_int b) [0..<?a] = Inr (map (\<lambda>i. CHR '' '' # dec_int (mem (ps ! i))) [0..<?a])"
    using slot by (intro mapE_Inr) simp
  also have "map (\<lambda>i. CHR '' '' # dec_int (mem (ps ! i))) [0..<?a] = map (\<lambda>p. CHR '' '' # dec_int (mem p)) ps"
    using lps by (simp add: list_eq_iff_nth_eq)
  finally show ?thesis by (simp add: PrintBuffer_def)
qed

theorem PrintBuffer_prints_contents_witness:
  "rb_inv ring3 \<and> PrintBuffer int ring3 = Inr ('' 5 6'' @ [newline])"
proof -
  have c: "rb_contents ring3 = map Ptr [5, 6]"
    by (simp add: rb_contents_def ring3_def slot_index_def upt_rec numeral_2_eq_2)
  have m: "rb_start ring3 + rb_active ring3 \<le> INT_MAX"
    by (simp add: ring3_def INT_MAX_def)
  have d: "dec_int 5 = ''5''" "dec_int 6 = ''6''" by code_simp+
  show ?thesis
    using PrintBuffer_prints_contents [OF ring3_inv m c, of int] ring3_inv
    by (simp add: d)
qed

end
