(* ===== verification/Merge_Sort.thy ===== *)
theory Merge_Sort
  imports C_Text "HOL-Library.Multiset"
begin

text \<open>
  \<^verbatim>\<open>sorts/mergeSort.c\<close>: the in-place merge sort of an \<open>int\<close> array and the program that sorts
  its arguments. The array is a list, every access is checked against its length, and the
  three loops of \<^verbatim>\<open>merge\<close> are functions with the same variables. They are related to a merge
  of lists, from which sortedness and the permutation property follow. The index variables are
  not bounded: in the program \<^verbatim>\<open>idx++\<close> overflows after the last element only for \<open>r = INT_MAX\<close>, which
  its \<^verbatim>\<open>main\<close>, with \<open>r = argc - 2\<close>, never passes.
\<close>

section \<open>The program\<close>

text \<open>The copying loops: \<^verbatim>\<open>dst[i] = arr[i + base]\<close> for \<open>i < n\<close>.\<close>

definition copy_from :: "int list \<Rightarrow> int \<Rightarrow> int \<Rightarrow> int list cres" where
  "copy_from arr base n = mapE (\<lambda>i. rd arr (int i + base)) [0..<nat n]"

text \<open>The first loop of the merge proper, then the two that copy what is left.\<close>

function merge_both :: "int list \<Rightarrow> int list \<Rightarrow> int list \<Rightarrow> int \<Rightarrow> int \<Rightarrow> int \<Rightarrow>
    (int list \<times> int \<times> int \<times> int) cres" where
  "merge_both left right arr i j idx =
     (if i < int (length left) \<and> j < int (length right) then
        bindE (rd left i) (\<lambda>x.
        bindE (rd right j) (\<lambda>y.
          if x < y
          then bindE (wr arr idx x) (\<lambda>arr'. merge_both left right arr' (i + 1) j (idx + 1))
          else bindE (wr arr idx y) (\<lambda>arr'. merge_both left right arr' i (j + 1) (idx + 1))))
      else Inr (arr, i, j, idx))"
  by pat_completeness auto
termination
  by (relation "measure (\<lambda>(left, right, arr, i, j, idx). nat (int (length left) - i) + nat (int (length right) - j))") auto

function copy_rest :: "int list \<Rightarrow> int list \<Rightarrow> int \<Rightarrow> int \<Rightarrow> (int list \<times> int) cres" where
  "copy_rest src arr i idx =
     (if i < int (length src) then
        bindE (rd src i) (\<lambda>x. bindE (wr arr idx x) (\<lambda>arr'. copy_rest src arr' (i + 1) (idx + 1)))
      else Inr (arr, idx))"
  by pat_completeness auto
termination
  by (relation "measure (\<lambda>(src, arr, i, idx). nat (int (length src) - i))") auto

declare merge_both.simps [simp del] copy_rest.simps [simp del]

definition merge :: "int list \<Rightarrow> int \<Rightarrow> int \<Rightarrow> int \<Rightarrow> int list cres" where
  "merge arr l m r =
     (let n1 = m - l + 1; n2 = r - m in
      bindE (copy_from arr l n1) (\<lambda>left.
      bindE (copy_from arr (m + 1) n2) (\<lambda>right.
      bindE (merge_both left right arr 0 0 l) (\<lambda>(arr, i, j, idx).
      bindE (copy_rest left arr i idx) (\<lambda>(arr, idx).
      bindE (copy_rest right arr j idx) (\<lambda>(arr, idx).
      Inr arr))))))"

function mergeSort :: "int list \<Rightarrow> int \<Rightarrow> int \<Rightarrow> int list cres" where
  "mergeSort arr l r =
     (if l \<ge> r then Inr arr
      else
        let m = l + (r - l) sdiv 2 in
        bindE (mergeSort arr l m) (\<lambda>arr.
        bindE (mergeSort arr (m + 1) r) (\<lambda>arr.
        merge arr l m r)))"
  by pat_completeness auto
termination
proof (relation "measure (\<lambda>(arr, l, r). nat (r - l))")
  show "wf (measure (\<lambda>(arr, l, r). nat (r - l)))" by simp
next
  fix arr :: "int list" and l r x :: int assume "\<not> r \<le> l" "x = l + (r - l) sdiv 2"
  then show "((arr, l, x), arr, l, r) \<in> measure (\<lambda>(arr, l, r). nat (r - l))"
    by (simp add: sdiv_nonneg)
next
  fix arr xa :: "int list" and l r x :: int assume "\<not> r \<le> l" "x = l + (r - l) sdiv 2"
  then show "((xa, x + 1, r), arr, l, r) \<in> measure (\<lambda>(arr, l, r). nat (r - l))"
    by (simp add: sdiv_nonneg)
qed

declare mergeSort.simps [simp del]

text \<open>\<^verbatim>\<open>main\<close>: the arguments after the program's name are parsed, sorted and printed.\<close>

definition mergesort_main :: "string list \<Rightarrow> string cres" where
  "mergesort_main args =
     (let sz = int (length args) in
      bindE (mapE atoi args) (\<lambda>arr.
      bindE (mergeSort arr 0 (sz - 1)) (\<lambda>arr.
      Inr (''Size of array '' @ dec_int sz @ [newline] @
           concat (map (\<lambda>x. dec_int x @ '' '') arr) @ [newline]))))"

section \<open>Merging lists\<close>

text \<open>The merge the loops perform, on lists: the right element comes first on a tie.\<close>

fun lmerge :: "int list \<Rightarrow> int list \<Rightarrow> int list" where
  "lmerge [] ys = ys"
| "lmerge xs [] = xs"
| "lmerge (x # xs) (y # ys) = (if x < y then x # lmerge xs (y # ys) else y # lmerge (x # xs) ys)"

lemma mset_lmerge [simp]: "mset (lmerge xs ys) = mset xs + mset ys"
  by (induction xs ys rule: lmerge.induct) auto

lemma set_lmerge [simp]: "set (lmerge xs ys) = set xs \<union> set ys"
  by (metis mset_lmerge set_mset_mset set_mset_union)

lemma length_lmerge [simp]: "length (lmerge xs ys) = length xs + length ys"
  by (metis mset_lmerge size_mset size_union)

lemma sorted_lmerge: "sorted xs \<Longrightarrow> sorted ys \<Longrightarrow> sorted (lmerge xs ys)"
  by (induction xs ys rule: lmerge.induct) auto

lemma lmerge_Nil2 [simp]: "lmerge xs [] = xs"
  by (cases xs) auto

section \<open>The loops compute the merge of lists\<close>

lemma wr_here: "wr (pre @ x # post) (int (length pre)) v = Inr (pre @ v # post)"
  by (simp add: wr_def)

lemma copy_rest_step:
  "i < length src \<Longrightarrow> copy_rest src (pre @ x # post) (int i) (int (length pre)) =
     copy_rest src ((pre @ [src ! i]) @ post) (int (Suc i)) (int (length (pre @ [src ! i])))"
  by (subst copy_rest.simps) (simp add: rd_nat wr_here add.commute)

lemma merge_both_step:
  "i < length left \<Longrightarrow> j < length right \<Longrightarrow>
   merge_both left right (pre @ x # post) (int i) (int j) (int (length pre)) =
     (if left ! i < right ! j
      then merge_both left right ((pre @ [left ! i]) @ post) (int (Suc i)) (int j) (int (length (pre @ [left ! i])))
      else merge_both left right ((pre @ [right ! j]) @ post) (int i) (int (Suc j)) (int (length (pre @ [right ! j]))))"
  by (subst merge_both.simps) (simp add: rd_nat wr_here add.commute)

lemma copy_rest_eq:
  "length mid = length src - i \<Longrightarrow> i \<le> length src \<Longrightarrow>
   copy_rest src (pre @ mid @ post) (int i) (int (length pre)) =
     Inr (pre @ drop i src @ post, int (length pre + (length src - i)))"
proof (induction "length src - i" arbitrary: i pre mid)
  case 0
  then show ?case by (simp add: copy_rest.simps)
next
  case (Suc n)
  then obtain x mid' where mid: "mid = x # mid'" by (cases mid) auto
  have i: "i < length src" using Suc.hyps(2) by simp
  have "copy_rest src ((pre @ [src ! i]) @ mid' @ post) (int (Suc i)) (int (length (pre @ [src ! i]))) =
      Inr ((pre @ [src ! i]) @ drop (Suc i) src @ post, int (length (pre @ [src ! i]) + (length src - Suc i)))"
    using Suc i mid by (intro Suc.hyps(1)) auto
  then show ?case
    using i copy_rest_step [of i src pre x "mid' @ post"]
    by (simp add: mid Cons_nth_drop_Suc [OF i, symmetric])
qed

text \<open>Once one side is used up, the rest of the other one is copied.\<close>

lemma merge_rest_eq:
  assumes "\<not> (i < length left \<and> j < length right)" "i \<le> length left" "j \<le> length right" "length mid = (length left - i) + (length right - j)"
  shows "bindE (merge_both left right (pre @ mid @ post) (int i) (int j) (int (length pre))) (\<lambda>(arr, i, j, idx).
   bindE (copy_rest left arr i idx) (\<lambda>(arr, idx).
   bindE (copy_rest right arr j idx) (\<lambda>(arr, idx). Inr arr))) =
     Inr (pre @ lmerge (drop i left) (drop j right) @ post)"
proof -
  let ?k = "length left - i"
  have exit: "merge_both left right (pre @ mid @ post) (int i) (int j) (int (length pre)) =
      Inr (pre @ mid @ post, int i, int j, int (length pre))"
    using assms(1) by (auto simp: merge_both.simps [of left right])
  have l: "copy_rest left (pre @ take ?k mid @ drop ?k mid @ post) (int i) (int (length pre)) =
      Inr (pre @ drop i left @ drop ?k mid @ post, int (length pre + ?k))"
    using assms by (intro copy_rest_eq) auto
  have r: "copy_rest right ((pre @ drop i left) @ drop ?k mid @ post) (int j) (int (length (pre @ drop i left))) =
      Inr ((pre @ drop i left) @ drop j right @ post, int (length (pre @ drop i left) + (length right - j)))"
    using assms by (intro copy_rest_eq) auto
  have mid: "take ?k mid @ drop ?k mid @ post = mid @ post"
    by (simp flip: append_assoc)
  have pos: "int (length pre + ?k) = int (length (pre @ drop i left))" by simp
  have "lmerge (drop i left) (drop j right) = drop i left @ drop j right"
    using assms(1) by auto
  then show ?thesis
    using l r by (simp add: exit mid pos del: length_append of_nat_add)
qed

lemma merge_loops_eq:
  "i \<le> length left \<Longrightarrow> j \<le> length right \<Longrightarrow>
   length mid = (length left - i) + (length right - j) \<Longrightarrow>
   bindE (merge_both left right (pre @ mid @ post) (int i) (int j) (int (length pre))) (\<lambda>(arr, i, j, idx).
   bindE (copy_rest left arr i idx) (\<lambda>(arr, idx).
   bindE (copy_rest right arr j idx) (\<lambda>(arr, idx). Inr arr))) =
     Inr (pre @ lmerge (drop i left) (drop j right) @ post)"
proof (induction "(length left - i) + (length right - j)" arbitrary: i j pre mid)
  case 0
  then show ?case
    by (simp add: merge_both.simps [of left right] copy_rest.simps)
next
  case (Suc n)
  show ?case
  proof (cases "i < length left \<and> j < length right")
    case True
    then have dl: "drop i left = left ! i # drop (Suc i) left"
      and dr: "drop j right = right ! j # drop (Suc j) right"
      by (simp_all add: Cons_nth_drop_Suc)
    obtain x mid' where mid: "mid = x # mid'" using Suc.prems(3) True by (cases mid) auto
    show ?thesis
    proof (cases "left ! i < right ! j")
      case less: True
      have "bindE (merge_both left right ((pre @ [left ! i]) @ mid' @ post) (int (Suc i)) (int j)
            (int (length (pre @ [left ! i])))) (\<lambda>(arr, i, j, idx).
          bindE (copy_rest left arr i idx) (\<lambda>(arr, idx). bindE (copy_rest right arr j idx) (\<lambda>(arr, idx). Inr arr))) =
          Inr ((pre @ [left ! i]) @ lmerge (drop (Suc i) left) (drop j right) @ post)"
        using Suc True mid by (intro Suc.hyps(1)) auto
      then show ?thesis
        using True less merge_both_step [of i left j right pre x "mid' @ post"] by (simp add: mid dl dr)
    next
      case False
      have "bindE (merge_both left right ((pre @ [right ! j]) @ mid' @ post) (int i) (int (Suc j))
            (int (length (pre @ [right ! j])))) (\<lambda>(arr, i, j, idx).
          bindE (copy_rest left arr i idx) (\<lambda>(arr, idx). bindE (copy_rest right arr j idx) (\<lambda>(arr, idx). Inr arr))) =
          Inr ((pre @ [right ! j]) @ lmerge (drop i left) (drop (Suc j) right) @ post)"
        using Suc True mid by (intro Suc.hyps(1)) auto
      then show ?thesis
        using True False merge_both_step [of i left j right pre x "mid' @ post"] by (simp add: mid dl dr)
    qed
  next
    case False
    then show ?thesis using Suc.prems by (rule merge_rest_eq)
  qed
qed

lemma copy_from_eq:
  assumes "b + n \<le> length arr"
  shows "copy_from arr (int b) (int n) = Inr (take n (drop b arr))"
proof -
  have "mapE (\<lambda>i. rd arr (int i + int b)) [0..<n] = Inr (map (\<lambda>i. arr ! (i + b)) [0..<n])"
    using assms by (intro mapE_Inr) (simp add: rd_def nat_add_distrib nat_int_add)
  also have "map (\<lambda>i. arr ! (i + b)) [0..<n] = take n (drop b arr)"
    using assms by (auto simp: list_eq_iff_nth_eq add.commute)
  finally show ?thesis by (simp add: copy_from_def)
qed

lemma merge_segments:
  "merge (pre @ xs @ ys @ post) (int (length pre)) (int (length pre + length xs) - 1)
     (int (length pre + length xs + length ys) - 1) = Inr (pre @ lmerge xs ys @ post)"
proof -
  let ?arr = "pre @ xs @ ys @ post"
  have "copy_from ?arr (int (length pre)) (int (length xs)) = Inr xs"
    using copy_from_eq [of "length pre" "length xs" ?arr] by simp
  moreover have "copy_from ?arr (int (length pre + length xs)) (int (length ys)) = Inr ys"
    using copy_from_eq [of "length pre + length xs" "length ys" ?arr] by simp
  moreover have "bindE (merge_both xs ys (pre @ (xs @ ys) @ post) (int 0) (int 0) (int (length pre))) (\<lambda>(arr, i, j, idx).
      bindE (copy_rest xs arr i idx) (\<lambda>(arr, idx). bindE (copy_rest ys arr j idx) (\<lambda>(arr, idx). Inr arr))) =
      Inr (pre @ lmerge (drop 0 xs) (drop 0 ys) @ post)"
    by (rule merge_loops_eq) auto
  ultimately show ?thesis by (simp add: merge_def)
qed

lemma sort_append_lmerge: "sort (xs @ ys) = lmerge (sort xs) (sort (ys :: int list))"
  by (rule sym, rule properties_for_sort [symmetric]) (simp_all add: sorted_lmerge)

lemma mergeSort_halves:
  "l < r \<Longrightarrow> l + (r - l) sdiv 2 = m \<Longrightarrow> mergeSort arr l m = Inr a1 \<Longrightarrow> mergeSort a1 (m + 1) r = Inr a2 \<Longrightarrow>
   mergeSort arr l r = merge a2 l m r"
  by (subst mergeSort.simps) simp

lemma mergeSort_segment:
  "mergeSort (pre @ xs @ post) (int (length pre)) (int (length pre + length xs) - 1) = Inr (pre @ sort xs @ post)"
proof (induction "length xs" arbitrary: pre xs post rule: less_induct)
  case less
  let ?l = "int (length pre)" and ?r = "int (length pre + length xs) - 1"
  show ?case
  proof (cases "length xs \<le> 1")
    case True
    then have "sort xs = xs" by (cases xs) auto
    with True show ?thesis by (simp add: mergeSort.simps)
  next
    case False
    let ?k = "(length xs - 1) div 2 + 1"
    define as bs where "as = take ?k xs" and "bs = drop ?k xs"
    have k: "?k < length xs" using False by linarith
    have xs: "xs = as @ bs" and la: "length as = ?k" and lb: "length bs = length xs - ?k"
      using k by (simp_all add: as_def bs_def)
    have m: "?l + (?r - ?l) sdiv 2 = int (length pre + length as) - 1"
      using False sdiv_nonneg [of "int (length xs) - 1" 2]
      by (cases "xs = []") (simp_all add: la zdiv_int of_nat_diff)
    have left: "mergeSort (pre @ as @ (bs @ post)) ?l (int (length pre + length as) - 1) = Inr (pre @ sort as @ (bs @ post))"
      using k la by (intro less) simp
    have "mergeSort ((pre @ sort as) @ bs @ post) (int (length (pre @ sort as)))
        (int (length (pre @ sort as) + length bs) - 1) = Inr ((pre @ sort as) @ sort bs @ post)"
      using k lb by (intro less) simp
    then have right: "mergeSort (pre @ sort as @ bs @ post) (int (length pre + length as)) ?r = Inr (pre @ sort as @ sort bs @ post)"
      by (simp add: xs add.assoc)
    have "merge (pre @ sort as @ sort bs @ post) ?l (int (length pre + length as) - 1) ?r = Inr (pre @ sort xs @ post)"
      using merge_segments [of pre "sort as" "sort bs" post] by (simp add: xs sort_append_lmerge add.assoc)
    moreover have "mergeSort (pre @ xs @ post) ?l ?r =
        merge (pre @ sort as @ sort bs @ post) ?l (int (length pre + length as) - 1) ?r"
      using False right left by (intro mergeSort_halves [OF _ m]) (simp_all add: xs)
    ultimately show ?thesis by simp
  qed
qed

section \<open>Properties\<close>

text \<open>
  C5. \<^verbatim>\<open>mergeSort(arr, l, r)\<close> terminates without an access outside the array and sorts exactly the
  elements from \<open>l\<close> to \<open>r\<close>: they become the sorted permutation of what they were, and every
  element before \<open>l\<close> and after \<open>r\<close> keeps its value.
\<close>

theorem mergeSort_sorts_segment:
  assumes "l \<le> r + 1" "r < length arr"
  shows "mergeSort arr (int l) (int r) =
    Inr (take l arr @ sort (take (r + 1 - l) (drop l arr)) @ drop (r + 1) arr)"
proof -
  have split: "arr = take l arr @ take (r + 1 - l) (drop l arr) @ drop (r + 1) arr"
    using assms by (metis add_diff_cancel_right' append_take_drop_id drop_drop le_add_diff_inverse2)
  have "length (take l arr) = l" "length (take (r + 1 - l) (drop l arr)) = r + 1 - l"
    using assms by auto
  then have "int (length (take l arr)) = int l"
      "int (length (take l arr) + length (take (r + 1 - l) (drop l arr))) - 1 = int r"
    using assms(1) by auto
  with mergeSort_segment [of "take l arr" "take (r + 1 - l) (drop l arr)" "drop (r + 1) arr"] split
  show ?thesis by metis
qed

theorem mergeSort_sorts_segment_witness:
  "mergeSort [9, 5, -2, 5, 0] (int 1) (int 3) = Inr [9, -2, 5, 5, 0]"
  using mergeSort_sorts_segment [of 1 3 "[9, 5, -2, 5, 0]"] by (simp add: numeral_3_eq_3)

text \<open>
  The program prints the number of its arguments and then their values in ascending order,
  for every list of arguments that are decimal numbers of type \<open>int\<close>.
\<close>

theorem mergesort_main_output:
  assumes "\<forall>v \<in> set vs. in_int v"
  shows "mergesort_main (map dec_int vs) =
    Inr (''Size of array '' @ dec_int (int (length vs)) @ [newline] @
         concat (map (\<lambda>x. dec_int x @ '' '') (sort vs)) @ [newline])"
proof -
  have "mapE atoi (map dec_int vs) = Inr (map (\<lambda>s. projr (atoi s)) (map dec_int vs))"
    using assms atoi_dec_int [where rest = "[]"] by (intro mapE_Inr) auto
  also have "map (\<lambda>s. projr (atoi s)) (map dec_int vs) = vs"
    using assms atoi_dec_int [where rest = "[]"] by (auto simp: list_eq_iff_nth_eq)
  finally show ?thesis
    using mergeSort_segment [of "[]" vs "[]"] by (simp add: mergesort_main_def)
qed

theorem mergesort_main_output_witness:
  "mergesort_main [''3'', ''-1''] = Inr (''Size of array 2'' @ [newline] @ ''-1 3 '' @ [newline])"
proof -
  have d: "dec_int 3 = ''3''" "dec_int (-1) = ''-1''" "dec_int 2 = ''2''" by code_simp+
  show ?thesis
    using mergesort_main_output [of "[3, -1]"] by (simp add: d c_int_defs)
qed

end
