(* ===== verification/Inet_Checksum.thy ===== *)
theory Inet_Checksum
  imports C_Text
begin

text \<open>
  The Internet checksum \<^verbatim>\<open>csum\<close> of \<^verbatim>\<open>checksum/main.c\<close> (and, word for word, of
  \<^verbatim>\<open>raw_socket/main.c\<close>), its relation to the one's complement sum of RFC 1071, and the law
  that makes it a checksum: storing it in a zeroed field makes the sum of the block vanish.
\<close>

section \<open>The program\<close>

text \<open>
  \<^verbatim>\<open>while(nbytes>1) { sum += *ptr++; nbytes -= 2; }\<close>: \<open>p\<close> is the position of \<^verbatim>\<open>ptr\<close> in
  the buffer. The \<^verbatim>\<open>long\<close> accumulates at most \<open>2\<^sup>3\<^sup>0\<close> sixteen-bit values and cannot overflow.
\<close>

function csum_loop :: "bytes \<Rightarrow> nat \<Rightarrow> int \<Rightarrow> int \<Rightarrow> (int \<times> nat \<times> int) cres" where
  "csum_loop buf p nbytes acc =
     (if nbytes > 1
      then bindE (rd_u16 buf p) (\<lambda>w. csum_loop buf (p + 2) (nbytes - 2) (acc + uint w))
      else Inr (acc, p, nbytes))"
  by pat_completeness auto
termination
  by (relation "measure (\<lambda>(buf, p, nbytes, acc). nat nbytes)") auto

declare csum_loop.simps [simp del]

definition csum :: "bytes \<Rightarrow> nat \<Rightarrow> int \<Rightarrow> u16 cres" where
  "csum buf p nbytes =
     bindE (csum_loop buf p nbytes 0) (\<lambda>(acc, p, nbytes).
     bindE (if nbytes = 1 then bindE (rd buf (int p)) (\<lambda>b. Inr (acc + uint b)) else Inr acc) (\<lambda>acc.
     let acc = drop_bit 16 acc + (acc AND 0xffff);
         acc = acc + drop_bit 16 acc
     in Inr (word_of_int (NOT acc))))"

section \<open>Sums of 16-bit words\<close>

text \<open>The little-endian 16-bit words of a block; a last odd byte is padded with a zero.\<close>

fun words16 :: "bytes \<Rightarrow> nat list" where
  "words16 [] = []"
| "words16 [a] = [unat a]"
| "words16 (a # b # bs) = (unat a + 256 * unat b) # words16 bs"

text \<open>RFC 1071: addition with the carry added back in.\<close>

definition ones_add :: "nat \<Rightarrow> nat \<Rightarrow> nat" where
  "ones_add a b = (a + b) mod 65536 + (a + b) div 65536"

fun ones_sum :: "nat list \<Rightarrow> nat" where
  "ones_sum [] = 0"
| "ones_sum (w # ws) = ones_add w (ones_sum ws)"

text \<open>The representative of a sum modulo 65535 that one's complement addition computes.\<close>

definition canon :: "nat \<Rightarrow> nat" where
  "canon s = (if s = 0 then 0 else (s - 1) mod 65535 + 1)"

lemma words16_bound: "w \<in> set (words16 bs) \<Longrightarrow> w \<le> 65535"
proof (induction bs rule: words16.induct)
  case (2 a)
  then show ?case using unat_u8_less [of a] by simp
next
  case (3 a b bs)
  then show ?case using unat_u8_less [of a] unat_u8_less [of b] by auto
qed simp

lemma length_words16: "length (words16 bs) = (length bs + 1) div 2"
  by (induction bs rule: words16.induct) auto

lemma sum_words16_bound: "sum_list (words16 bs) \<le> 65535 * ((length bs + 1) div 2)"
  using sum_list_mono [of "words16 bs" id "\<lambda>_. 65535"] words16_bound [of _ bs]
  by (simp add: length_words16 sum_list_triv mult.commute)

lemma words16_append: "even (length xs) \<Longrightarrow> words16 (xs @ ys) = words16 xs @ words16 ys"
  by (induction xs rule: words16.induct) auto

lemma canon_le: "canon s \<le> 65535"
  using mod_less_divisor [of 65535 "s - 1"] by (simp add: canon_def del: mod_less_divisor)

lemma canon_small: "s \<le> 65535 \<Longrightarrow> canon s = s"
  by (auto simp: canon_def)

lemma canon_add_65535: "0 < s \<Longrightarrow> canon (s + 65535 * k) = canon s"
proof -
  assume "0 < s"
  moreover have "(s + 65535 * k - 1) = (s - 1) + 65535 * k" using \<open>0 < s\<close> by simp
  ultimately show ?thesis unfolding canon_def by (metis add_is_0 mod_mult_self2 neq0_conv)
qed

lemma canon_decomp: "\<exists>k. s = canon s + 65535 * k"
proof (cases "s = 0")
  case True
  then show ?thesis by (intro exI [of _ 0]) (simp add: canon_def)
next
  case False
  then have "s = (s - 1) mod 65535 + 1 + 65535 * ((s - 1) div 65535)"
    by (metis (no_types, lifting) Suc_pred' add.commute add_Suc_right mod_mult_div_eq neq0_conv plus_1_eq_Suc)
  then show ?thesis using False unfolding canon_def by (intro exI [of _ "(s - 1) div 65535"]) simp
qed

lemma canon_zero_iff: "canon s = 0 \<longleftrightarrow> s = 0"
  by (simp add: canon_def)

lemma canon_add_canon: "canon (a + canon b) = canon (a + b)"
proof -
  obtain k where k: "b = canon b + 65535 * k" using canon_decomp by blast
  show ?thesis
  proof (cases "b = 0")
    case False
    then have "0 < a + canon b" using canon_zero_iff [of b] by simp
    then have "canon (a + canon b + 65535 * k) = canon (a + canon b)" by (rule canon_add_65535)
    then show ?thesis using k by (metis add.assoc)
  qed (simp add: canon_def)
qed

lemma ones_add_canon: "a \<le> 65535 \<Longrightarrow> b \<le> 65535 \<Longrightarrow> ones_add a b = canon (a + b)"
proof (cases "a + b \<le> 65535")
  case True
  then show ?thesis by (simp add: ones_add_def canon_small)
next
  case False
  assume ab: "a \<le> 65535" "b \<le> 65535"
  then have "(a + b) mod 65536 = a + b - 65536" "(a + b) div 65536 = 1"
    using False by (simp_all add: mod_if div_if)
  moreover have "canon (a + b) = a + b - 65535"
    using canon_add_65535 [of "a + b - 65535" 1] canon_small [of "a + b - 65535"] ab False by simp
  ultimately show ?thesis using False by (simp add: ones_add_def)
qed

lemma ones_sum_canon: "\<forall>w \<in> set ws. w \<le> 65535 \<Longrightarrow> ones_sum ws = canon (sum_list ws)"
proof (induction ws)
  case Nil
  then show ?case by (simp add: canon_def)
next
  case (Cons w ws)
  then show ?case by (simp add: ones_add_canon canon_le canon_add_canon)
qed

text \<open>The two folding steps of \<^verbatim>\<open>csum\<close> reach the representative for sums below \<open>2\<^sup>3\<^sup>2\<close>.\<close>

lemma fold_twice:
  fixes s :: nat
  assumes "s < 4294967296"
  defines "s1 \<equiv> s div 65536 + s mod 65536"
  shows "(s1 + s1 div 65536) mod 65536 = canon s"
proof -
  have q: "s div 65536 \<le> 65535" using assms(1) by (simp add: div_le_mono less_mult_imp_div_less)
  have s: "s = s1 + 65535 * (s div 65536)"
    using mult_div_mod_eq [of 65536 s] by (simp add: s1_def)
  have b: "s1 \<le> 131070" using q mod_less_divisor [of 65536 s] by (simp add: s1_def)
  show ?thesis
  proof (cases "s1 = 0")
    case True
    then have "s = 0" by (auto simp: s1_def div_eq_0_iff)
    then show ?thesis using True by (simp add: canon_def)
  next
    case False
    have "canon s = canon s1" using canon_add_65535 [of s1 "s div 65536"] False s by simp
    moreover have "(s1 + s1 div 65536) mod 65536 = canon s1"
    proof (cases "s1 \<le> 65535")
      case True
      then show ?thesis by (simp add: canon_small)
    next
      case g: False
      then have "s1 div 65536 = 1" using b by (simp add: div_if)
      moreover have "(s1 + 1) mod 65536 = s1 - 65535" using g b by (simp add: mod_if)
      moreover have "canon s1 = s1 - 65535"
        using canon_add_65535 [of "s1 - 65535" 1] canon_small [of "s1 - 65535"] g b by simp
      ultimately show ?thesis by simp
    qed
    ultimately show ?thesis by simp
  qed
qed

section \<open>What the loop computes\<close>

lemma csum_loop_eq:
  "p + n \<le> length buf \<Longrightarrow>
   bindE (csum_loop buf p (int n) s) (\<lambda>(acc, p, nbytes).
     if nbytes = 1 then bindE (rd buf (int p)) (\<lambda>b. Inr (acc + uint b)) else Inr acc) =
   Inr (s + int (sum_list (words16 (take n (drop p buf)))))"
proof (induction n arbitrary: p s rule: less_induct)
  case (less n)
  consider "n = 0" | "n = 1" | k where "n = k + 2" by (metis One_nat_def add_2_eq_Suc' not0_implies_Suc)
  then show ?case
  proof cases
    case 1
    then show ?thesis by (simp add: csum_loop.simps)
  next
    case 2
    then have "take n (drop p buf) = [buf ! p]"
      using less.prems by (simp add: take_Suc hd_drop_conv_nth)
    with 2 less.prems show ?thesis by (simp add: csum_loop.simps rd_def)
  next
    case 3
    let ?a = "buf ! p" and ?b = "buf ! Suc p"
    have dr: "drop p buf = ?a # ?b # drop (p + 2) buf"
      using 3 less.prems by (simp add: Cons_nth_drop_Suc)
    have "rd_u16 buf p = Inr (of_nat (unat ?a + 256 * unat ?b))"
      using 3 less.prems by (intro rd_u16_in) simp
    moreover have u: "uint (of_nat (unat ?a + 256 * unat ?b) :: u16) = int (unat ?a + 256 * unat ?b)"
      by (simp only: uint_nat unat_word16)
    moreover have "int n - 2 = int k" "int n > 1" using 3 by simp_all
    ultimately show ?thesis
      using less.IH [of k "p + 2" "s + int (unat ?a + 256 * unat ?b)"] 3 less.prems
      by (simp add: csum_loop.simps [of buf p] dr u del: of_nat_add of_nat_mult)
  qed
qed

lemma int_fold: "drop_bit 16 (int s) + (int s AND 0xffff) = int (s div 65536 + s mod 65536)"
proof -
  have "int s AND 0xffff = int s mod 65536"
    using take_bit_eq_mask [of 16 "int s"] by (simp add: mask_numeral take_bit_eq_mod)
  then show ?thesis by (simp add: drop_bit_eq_div zdiv_int zmod_int)
qed

lemma not_word_of_int: "word_of_int (NOT (int s)) = (NOT (of_nat s) :: u16)"
  by (simp add: of_int_not_eq)

lemma csum_canon:
  assumes "p + n \<le> length buf" "n \<le> 131074"
  shows "csum buf p (int n) = Inr (NOT (of_nat (canon (sum_list (words16 (take n (drop p buf)))))))"
proof -
  let ?s = "sum_list (words16 (take n (drop p buf)))"
  let ?s1 = "?s div 65536 + ?s mod 65536"
  have "?s \<le> 65535 * ((n + 1) div 2)"
    using sum_words16_bound [of "take n (drop p buf)"] assms(1) by (simp add: min_absorb2)
  also have "\<dots> \<le> 65535 * 65537" using assms(2) by (intro mult_le_mono2) auto
  finally have small: "?s < 4294967296" by simp
  have "csum buf p (int n) =
      bindE (bindE (csum_loop buf p (int n) 0) (\<lambda>(acc, p, nbytes).
        if nbytes = 1 then bindE (rd buf (int p)) (\<lambda>b. Inr (acc + uint b)) else Inr acc))
      (\<lambda>acc. let acc = drop_bit 16 acc + (acc AND 0xffff); acc = acc + drop_bit 16 acc
        in Inr (word_of_int (NOT acc)))"
    by (cases "csum_loop buf p (int n) 0") (auto simp: csum_def)
  also have "\<dots> = Inr (word_of_int (NOT (int (?s1 + ?s1 div 65536))))"
    using csum_loop_eq [OF assms(1), of 0]
    by (simp add: int_fold Let_def del: of_nat_add) (simp add: drop_bit_eq_div zdiv_int)
  also have "\<dots> = Inr (NOT (of_nat (?s1 + ?s1 div 65536)))"
    by (simp only: not_word_of_int)
  also have "(of_nat (?s1 + ?s1 div 65536) :: u16) = of_nat ((?s1 + ?s1 div 65536) mod 65536)"
    by (rule of_nat_mod_u16 [symmetric])
  finally show ?thesis by (simp only: fold_twice [OF small])
qed

lemma csum_loop_out:
  "length buf < p + n \<Longrightarrow> p \<le> length buf \<Longrightarrow>
   csum_loop buf p (int n) s = Inl OutOfBounds \<or>
   (\<exists>s'. csum_loop buf p (int n) s = Inr (s', length buf, 1))"
proof (induction n arbitrary: p s rule: less_induct)
  case (less n)
  show ?case
  proof (cases "n \<le> 1")
    case True
    then show ?thesis using less.prems by (auto simp: csum_loop.simps)
  next
    case False
    show ?thesis
    proof (cases "p + 2 \<le> length buf")
      case True
      have "int n - 2 = int (n - 2)" using False by simp
      then show ?thesis
        using False True less.prems less.IH [of "n - 2" "p + 2"]
        by (simp add: csum_loop.simps [of buf p] rd_u16_in)
    next
      case out: False
      then show ?thesis
        using False by (simp add: csum_loop.simps [of buf p] rd_u16_def rd_slice_def)
    qed
  qed
qed

section \<open>Properties\<close>

text \<open>
  C7. For a block of up to 131074 bytes inside the buffer, \<^verbatim>\<open>csum\<close> is the complement of the
  one's complement sum (RFC 1071) of its little-endian 16-bit words, an odd last byte padded
  with zero: the two folding steps are enough for these sizes. A block that reaches beyond
  the buffer makes it read out of bounds.
\<close>

theorem csum_rfc1071:
  "p + n \<le> length buf \<Longrightarrow> n \<le> 131074 \<Longrightarrow>
     csum buf p (int n) = Inr (NOT (of_nat (ones_sum (words16 (take n (drop p buf))))))"
  by (simp add: csum_canon ones_sum_canon words16_bound)

theorem csum_rfc1071_witness:
  "csum [0x45, 0x00, 0xff, 0xff, 0x01] 0 (int 5) = Inr 0xFFB9"
  using csum_rfc1071 [of 0 5 "[0x45, 0x00, 0xff, 0xff, 0x01]"]
  by (simp add: ones_add_def)

text \<open>
  A block reaching beyond the end of the buffer makes \<^verbatim>\<open>csum\<close> read out of bounds.
\<close>

theorem csum_out_of_bounds:
  assumes "p \<le> length buf" "length buf < p + n"
  shows "csum buf p (int n) = Inl OutOfBounds"
  using csum_loop_out [OF assms(2,1), of 0] by (auto simp: csum_def rd_def)

theorem csum_out_of_bounds_witness: "csum [1, 2, 3] 1 (int 3) = Inl OutOfBounds"
  by (rule csum_out_of_bounds) simp_all

text \<open>
  C34. The checksum law: if a 16-bit field of a block at an even offset is zero, then storing
  the block's checksum there makes the checksum of the block zero, which is how a receiver
  recognises an intact block.
\<close>

theorem csum_self_verifies:
  assumes "p + n \<le> length buf" "n \<le> 131074" "even k" "k + 2 \<le> n"
    and zero: "take 2 (drop (p + k) buf) = [0, 0]"
    and c: "csum buf p (int n) = Inr c"
  shows "bindE (wr_u16 buf (p + k) c) (\<lambda>buf'. csum buf' p (int n)) = Inr 0"
proof -
  let ?bs = "take n (drop p buf)" and ?c = "le_bytes 2 (unat c)"
  define as cs where "as = take k ?bs" and "cs = drop (k + 2) ?bs"
  have la: "length as = k" using assms by (simp add: as_def)
  have mid: "take 2 (drop k ?bs) = [0, 0]"
    using zero assms(4) by (simp add: drop_take min_def add.commute)
  have "?bs = as @ take 2 (drop k ?bs) @ drop 2 (drop k ?bs)"
    by (simp only: as_def append_take_drop_id)
  then have bs: "?bs = as @ [0, 0] @ cs" by (simp only: mid) (simp add: cs_def add.commute)
  define s where "s = sum_list (words16 as) + sum_list (words16 cs)"
  have s: "sum_list (words16 ?bs) = s"
    by (simp add: bs words16_append la assms(3) s_def)
  have cval: "unat c = 65535 - canon s"
  proof -
    have "c = NOT (of_nat (canon s))" using c csum_canon [OF assms(1,2)] s by simp
    then show ?thesis using canon_le [of s] by (simp add: unat_not_u16 unat_of_nat)
  qed
  let ?buf = "put buf (p + k) ?c"
  have "take n (drop p ?buf) = as @ ?c @ cs"
    using assms(1,4) by (simp add: take_drop_put_within) (simp add: put_def as_def cs_def)
  moreover have "words16 (?c @ cs) = unat c # words16 cs"
    using unat_u16_less [of c] by (simp add: numeral_2_eq_2 unat_of_nat)
  ultimately have "sum_list (words16 (take n (drop p ?buf))) = s + unat c"
    by (simp add: words16_append la assms(3) s_def)
  moreover obtain m where "s = canon s + 65535 * m" using canon_decomp by blast
  then have "s + unat c = 65535 + 65535 * m" using cval canon_le [of s] by linarith
  ultimately have "canon (sum_list (words16 (take n (drop p ?buf)))) = 65535"
    using canon_add_65535 [of 65535 m] by (simp add: canon_small)
  moreover have "p + n \<le> length ?buf" using assms by simp
  ultimately have "csum ?buf p (int n) = Inr (NOT 65535)"
    using csum_canon [of p n ?buf] assms(2) by simp
  then show ?thesis using assms by (simp add: wr_u16_def wr_slice_in)
qed

theorem csum_self_verifies_witness:
  "csum [0x12, 0, 0, 0, 0x34] 0 (int 5) = Inr 0xFFB9 \<and>
   bindE (wr_u16 [0x12, 0, 0, 0, 0x34] (0 + 2) 0xFFB9) (\<lambda>buf'. csum buf' 0 (int 5)) = Inr 0"
proof -
  let ?b = "[0x12, 0, 0, 0, 0x34] :: bytes"
  have c: "csum ?b 0 (int 5) = Inr 0xFFB9"
    using csum_canon [of 0 5 ?b] by (simp add: canon_def)
  show ?thesis
    using csum_self_verifies [of 0 5 ?b 2, OF _ _ _ _ _ c] c by (simp add: numeral_2_eq_2)
qed

end
