(* ===== verification/Raw_Socket.thy ===== *)
theory Raw_Socket
  imports Inet_Checksum
begin

text \<open>
  The raw-socket sender of \<^verbatim>\<open>checksum/main.c\<close> and \<^verbatim>\<open>raw_socket/main.c\<close> (the two files
  differ only in the size of the datagram buffer): the header that \<^verbatim>\<open>init_rawsock\<close> writes, the
  packet that \<^verbatim>\<open>paxos_send\<close> hands to the kernel, and the main programs. Headers are the
  packed structures of \<^verbatim>\<open><netinet/ip.h>\<close> and \<^verbatim>\<open><netinet/udp.h>\<close> laid over the byte buffer;
  \<^verbatim>\<open>socket\<close>, \<^verbatim>\<open>sendto\<close> and \<^verbatim>\<open>inet_addr\<close> are parameters.
\<close>

section \<open>The program\<close>

record sockaddr_in =
  sin_family :: u16
  sin_port :: u16   \<comment> \<open>in network byte order\<close>
  s_addr :: u32     \<comment> \<open>in network byte order\<close>

record proposer_state =
  rawsock :: int
  datagram :: bytes
  dest :: sockaddr_in

text \<open>What a run shows: packets handed to \<^verbatim>\<open>sendto\<close>, lines printed, errors reported.\<close>

datatype io = SendTo bytes | Printf string | Perror string

definition PAXOS_LEN :: nat where "PAXOS_LEN = 102"
definition IPPROTO_UDP :: u8 where "IPPROTO_UDP = 17"
definition AF_INET :: u16 where "AF_INET = 2"

definition create_rawsock :: "int \<Rightarrow> int cres" where
  "create_rawsock s = (if s = -1 then Inl (ExitProcess 1) else Inr s)"

definition upd8 :: "bytes \<Rightarrow> int \<Rightarrow> (u8 \<Rightarrow> u8) \<Rightarrow> bytes cres" where
  "upd8 buf i f = bindE (rd buf i) (\<lambda>b. wr buf i (f b))"

text \<open>
  The assignments of \<^verbatim>\<open>init_rawsock\<close> in order. \<^verbatim>\<open>ihl\<close> and \<^verbatim>\<open>version\<close> are the low and the
  high half of the first byte; \<^verbatim>\<open>iph->id = htonl(54321)\<close> keeps the low 16 bits.
\<close>

definition init_rawsock :: "proposer_state \<Rightarrow> sockaddr_in \<Rightarrow> sockaddr_in \<Rightarrow> proposer_state cres" where
  "init_rawsock ctx mine dst =
     bindE (wr_slice (datagram ctx) 0 (replicate PAXOS_LEN 0)) (\<lambda>b.
     bindE (upd8 b 0 (\<lambda>x. (x AND 0xF0) OR 5)) (\<lambda>b.
     bindE (upd8 b 0 (\<lambda>x. (x AND 0x0F) OR 0x40)) (\<lambda>b.
     bindE (wr b 1 0) (\<lambda>b.
     bindE (wr_u16 b 4 (ucast (htonl 54321))) (\<lambda>b.
     bindE (wr_u16 b 6 0) (\<lambda>b.
     bindE (wr b 8 255) (\<lambda>b.
     bindE (wr b 9 IPPROTO_UDP) (\<lambda>b.
     bindE (wr_u16 b 10 0) (\<lambda>b.
     bindE (wr_u32 b 12 (s_addr mine)) (\<lambda>b.
     bindE (wr_u32 b 16 (s_addr dst)) (\<lambda>b.
     bindE (wr_u16 b 20 (sin_port mine)) (\<lambda>b.
     bindE (wr_u16 b 22 (sin_port dst)) (\<lambda>b.
     bindE (wr_u16 b 26 0) (\<lambda>b.
     Inr (ctx\<lparr>datagram := b\<rparr>)))))))))))))))"

definition paxos_send :: "(int \<Rightarrow> bytes \<Rightarrow> sockaddr_in \<Rightarrow> int) \<Rightarrow> proposer_state \<Rightarrow> bytes \<Rightarrow> nat \<Rightarrow>
    (int \<times> proposer_state \<times> io list) cres" where
  "paxos_send sendto ctx msg msglen =
     bindE (rd_slice msg 0 msglen) (\<lambda>data.
     bindE (wr_slice (datagram ctx) 28 data) (\<lambda>b.
     bindE (rd_u16 b 2) (\<lambda>tot_len.
     bindE (csum b 0 (uint tot_len)) (\<lambda>check.
     bindE (wr_u16 b 10 check) (\<lambda>b.
     bindE (wr_u16 b 2 (of_nat (20 + 8 + msglen))) (\<lambda>b.
     bindE (wr_u16 b 24 (htons (of_nat (8 + msglen)))) (\<lambda>b.
     bindE (wr_u16 b 26 0) (\<lambda>b.
     bindE (rd_u16 b 2) (\<lambda>tot_len.
     bindE (rd_slice b 0 (unat tot_len)) (\<lambda>packet.
     let ctx' = ctx\<lparr>datagram := b\<rparr> in
     if sendto (rawsock ctx) packet (dest ctx) < 0
     then Inr (0, ctx', [SendTo packet, Perror ''sendto failed''])
     else Inr (0, ctx', [SendTo packet,
            Printf (''Packet Send. Length : '' @ dec_nat (unat tot_len) @ '' '' @ [newline])])))))))))))"

definition ascii :: "string \<Rightarrow> bytes" where
  "ascii s = map (\<lambda>c. of_nat (of_char c)) s"

text \<open>
  \<^verbatim>\<open>main\<close> of either file, with a datagram buffer of \<open>sz\<close> bytes; \<open>junk\<close> is what the
  freshly allocated buffer holds.
\<close>

definition send_main :: "nat \<Rightarrow> int \<Rightarrow> (string \<Rightarrow> u32) \<Rightarrow> (int \<Rightarrow> bytes \<Rightarrow> sockaddr_in \<Rightarrow> int) \<Rightarrow>
    (nat \<Rightarrow> u8) \<Rightarrow> (int \<times> io list) cres" where
  "send_main sz sock inet_addr sendto junk =
     (let msg = ascii ''ABC123456789'';
          mine = \<lparr>sin_family = AF_INET, sin_port = htons 12345, s_addr = inet_addr ''192.168.4.97''\<rparr>;
          dst = \<lparr>sin_family = AF_INET, sin_port = htons 34952, s_addr = inet_addr ''224.3.29.73''\<rparr>
      in bindE (create_rawsock sock) (\<lambda>s.
         bindE (init_rawsock \<lparr>rawsock = s, datagram = map junk [0..<sz], dest = dst\<rparr> mine dst) (\<lambda>ctx.
         bindE (paxos_send sendto ctx msg (length msg)) (\<lambda>(_, _, out).
         Inr (0, out)))))"

definition checksum_main :: "int \<Rightarrow> (string \<Rightarrow> u32) \<Rightarrow> (int \<Rightarrow> bytes \<Rightarrow> sockaddr_in \<Rightarrow> int) \<Rightarrow>
    (nat \<Rightarrow> u8) \<Rightarrow> (int \<times> io list) cres" where
  "checksum_main = send_main 1500"

definition raw_socket_main :: "int \<Rightarrow> (string \<Rightarrow> u32) \<Rightarrow> (int \<Rightarrow> bytes \<Rightarrow> sockaddr_in \<Rightarrow> int) \<Rightarrow>
    (nat \<Rightarrow> u8) \<Rightarrow> (int \<times> io list) cres" where
  "raw_socket_main = send_main PAXOS_LEN"

section \<open>The header after initialisation\<close>

definition ip_header :: "u16 \<Rightarrow> u16 \<Rightarrow> u32 \<Rightarrow> u32 \<Rightarrow> bytes" where
  "ip_header tot_len check saddr daddr =
     [0x45, 0] @ le_bytes 2 (unat tot_len) @ [0, 0, 0, 0, 255, 17] @ le_bytes 2 (unat check) @
     le_bytes 4 (unat saddr) @ le_bytes 4 (unat daddr)"

definition udp_header :: "u16 \<Rightarrow> u16 \<Rightarrow> u16 \<Rightarrow> bytes" where
  "udp_header sport dport len =
     le_bytes 2 (unat sport) @ le_bytes 2 (unat dport) @ le_bytes 2 (unat len) @ [0, 0]"

lemma length_headers [simp]: "length (ip_header t c s d) = 20" "length (udp_header s' d' l) = 8"
  by (simp_all add: ip_header_def udp_header_def)

lemma zeros_split: "replicate 102 (0 :: u8) = [0,0,0,0,0,0,0,0,0,0,0,0,0,0,0,0,0,0,0,0,0,0,0,0,0,0,0,0] @ replicate 74 0"
  by (simp add: numeral_eq_Suc)

lemma htonl_id: "ucast (htonl 54321) = (0 :: u16)"
proof -
  have "htonl 54321 = 0x31D40000"
    by (simp add: htonl_def be_bytes_def le_bytes_4)
  then show ?thesis by simp
qed

lemma init_rawsock_eq:
  assumes "102 \<le> length (datagram ctx)"
  shows "init_rawsock ctx mine dst = Inr (ctx\<lparr>datagram :=
     ip_header 0 0 (s_addr mine) (s_addr dst) @ udp_header (sin_port mine) (sin_port dst) 0 @
     replicate 74 0 @ drop 102 (datagram ctx)\<rparr>)"
proof -
  define t where "t = replicate 74 (0 :: u8) @ drop 102 (datagram ctx)"
  have b0: "wr_slice (datagram ctx) 0 (replicate PAXOS_LEN 0) =
     Inr ([0,0,0,0,0,0,0,0,0,0,0,0,0,0,0,0,0,0,0,0,0,0,0,0,0,0,0,0] @ t)"
    using assms by (simp add: wr_slice_def PAXOS_LEN_def zeros_split t_def)
  have l2: "le_bytes 2 0 = [0, 0]" by (simp add: le_bytes_2)
  show ?thesis
    unfolding init_rawsock_def b0 
    by (simp add: upd8_def rd_def wr_def wr_u16_def wr_u32_def wr_slice_def htonl_id IPPROTO_UDP_def
        l2 ip_header_def udp_header_def t_def [symmetric])
qed

lemma paxos_send_first:
  assumes dg: "datagram ctx = ip_header 0 0 sa da @ udp_header sp dp 0 @ body"
    and fits: "length msg \<le> length body" "28 + length msg < 65536"
  defines "packet \<equiv> ip_header (of_nat (28 + length msg)) 0xFFFF sa da @
      udp_header sp dp (htons (of_nat (8 + length msg))) @ msg"
  shows "paxos_send sendto ctx msg (length msg) =
    Inr (0, ctx\<lparr>datagram := packet @ drop (length msg) body\<rparr>,
      SendTo packet # (if sendto (rawsock ctx) packet (dest ctx) < 0 then [Perror ''sendto failed'']
        else [Printf (''Packet Send. Length : '' @ dec_nat (28 + length msg) @ '' '' @ [newline])]))"
proof -
  have l2: "le_bytes 2 0 = [0, 0]" by (simp add: le_bytes_2)
  let ?b = "ip_header 0 0 sa da @ udp_header sp dp 0 @ msg @ drop (length msg) body"
  have w: "wr_slice (datagram ctx) 28 msg = Inr ?b"
    using fits by (simp add: wr_slice_def dg)
  have tl: "rd_u16 ?b 2 = Inr 0"
    by (simp add: rd_u16_def rd_slice_def ip_header_def l2)
  have cs: "csum ?b 0 0 = Inr 0xFFFF"
    using csum_canon [of 0 0 ?b] by (simp add: canon_def)
  have u: "unat (of_nat (28 + length msg) :: u16) = 28 + length msg"
    using fits(2) by (simp add: unat_of_nat del: of_nat_add)
  have v: "of_nat (le_val (le_bytes 2 (28 + length msg))) = (of_nat (28 + length msg) :: u16)"
    using fits(2) by (simp add: le_val_le_bytes)
  let ?fin = "packet @ drop (length msg) body"
  have fin: "bindE (wr_u16 ?b 10 0xFFFF) (\<lambda>b. bindE (wr_u16 b 2 (of_nat (20 + 8 + length msg))) (\<lambda>b.
      bindE (wr_u16 b 24 (htons (of_nat (8 + length msg)))) (\<lambda>b. wr_u16 b 26 0))) = Inr ?fin"
    by (simp add: wr_u16_def wr_slice_def ip_header_def udp_header_def packet_def l2)
  have tl': "rd_u16 ?fin 2 = Inr (of_nat (28 + length msg))"
    using v u by (simp add: rd_u16_def rd_slice_def packet_def ip_header_def)
  have pk: "rd_slice ?fin 0 (28 + length msg) = Inr packet"
    by (simp add: rd_slice_def packet_def)
  have msg: "rd_slice msg 0 (length msg) = Inr msg" by (simp add: rd_slice_def)
  show ?thesis
    using fin unfolding paxos_send_def
    by (auto simp: msg w tl cs bindE_eq_Inr tl' u pk Let_def simp del: of_nat_add)
qed

section \<open>Properties\<close>

text \<open>
  The first packet: after \<^verbatim>\<open>init_rawsock\<close> on a buffer of at least 102 bytes, sending a message
  that fits the buffer hands the kernel the 28 header bytes followed by the message, with the UDP
  length in network byte order and the total length in host byte order. The identification field
  is zero (\<^verbatim>\<open>htonl(54321)\<close> loses its value in 16 bits) and the header checksum is \<open>0xFFFF\<close>, the
  checksum of no bytes, because \<^verbatim>\<open>tot_len\<close> is still zero when it is computed.
\<close>

theorem first_packet:
  assumes "102 \<le> length (datagram ctx)" "28 + length msg \<le> length (datagram ctx)" "28 + length msg < 65536"
  shows "\<exists>ctx' out. bindE (init_rawsock ctx mine dst) (\<lambda>c. paxos_send sendto c msg (length msg)) =
    Inr (0, ctx', SendTo (ip_header (of_nat (28 + length msg)) 0xFFFF (s_addr mine) (s_addr dst) @
      udp_header (sin_port mine) (sin_port dst) (htons (of_nat (8 + length msg))) @ msg) # out)"
proof -
  let ?ctx = "ctx\<lparr>datagram := ip_header 0 0 (s_addr mine) (s_addr dst) @
     udp_header (sin_port mine) (sin_port dst) 0 @ replicate 74 0 @ drop 102 (datagram ctx)\<rparr>"
  have "length msg \<le> length (replicate 74 (0 :: u8) @ drop 102 (datagram ctx))"
    using assms by simp
  from paxos_send_first [of ?ctx _ _ _ _ _ msg sendto, OF _ this assms(3)]
  show ?thesis using assms by (simp add: init_rawsock_eq)
qed

definition any_addr :: sockaddr_in where
  "any_addr = \<lparr>sin_family = 2, sin_port = 0x3930, s_addr = 0x6104A8C0\<rparr>"

theorem first_packet_witness:
  "\<exists>ctx' out. bindE (init_rawsock \<lparr>rawsock = 3, datagram = replicate 102 7, dest = any_addr\<rparr> any_addr any_addr)
       (\<lambda>c. paxos_send (\<lambda>_ _ _. 30) c [1, 2] (length [1, 2 :: u8])) =
    Inr (0, ctx', SendTo ([0x45, 0, 30, 0, 0, 0, 0, 0, 255, 17, 0xFF, 0xFF,
      0xC0, 0xA8, 4, 0x61, 0xC0, 0xA8, 4, 0x61, 0x30, 0x39, 0x30, 0x39, 0, 10, 0, 0, 1, 2]) # out)"
  using first_packet [of "\<lparr>rawsock = 3, datagram = replicate 102 7, dest = any_addr\<rparr>" "[1, 2]" any_addr any_addr "\<lambda>_ _ _. 30"]
  by (simp add: ip_header_def udp_header_def any_addr_def le_bytes_2 le_bytes_4 htons_def be_bytes_def)

text \<open>
  A message longer than the buffer's room behind the 28 header bytes overruns it: \<^verbatim>\<open>paxos_send\<close>
  does not check the length it copies.
\<close>

theorem paxos_send_overrun:
  assumes "length (datagram ctx) < 28 + msglen" "msglen \<le> length msg"
  shows "paxos_send sendto ctx msg msglen = Inl OutOfBounds"
  using assms by (simp add: paxos_send_def rd_slice_def wr_slice_def)

theorem paxos_send_overrun_witness:
  "paxos_send (\<lambda>_ _ _. 0) \<lparr>rawsock = 3, datagram = replicate 102 0, dest = any_addr\<rparr> (replicate 75 1) 75 = Inl OutOfBounds"
  by (rule paxos_send_overrun) simp_all

text \<open>
  The program of \<^verbatim>\<open>checksum/main.c\<close> sends a 40-byte packet whose IP header does not verify: the
  checksum of the 20 header bytes, which a correct header makes 0, is \<open>0x96D1\<close>.
\<close>

theorem checksum_main_header_invalid:
  assumes "inet_addr ''192.168.4.97'' = 0x6104A8C0" "inet_addr ''224.3.29.73'' = 0x491D03E0" "sock \<noteq> -1"
  shows "\<exists>packet out. checksum_main sock inet_addr sendto junk = Inr (0, SendTo packet # out) \<and>
    length packet = 40 \<and> csum packet 0 20 = Inr 0x96D1"
proof -
  let ?msg = "ascii ''ABC123456789''"
  let ?m = "\<lparr>sin_family = AF_INET, sin_port = htons 12345, s_addr = 0x6104A8C0\<rparr>"
  let ?d = "\<lparr>sin_family = AF_INET, sin_port = htons 34952, s_addr = 0x491D03E0\<rparr>"
  let ?ctx = "\<lparr>rawsock = sock, datagram = map junk [0..<1500], dest = ?d\<rparr>"
  have len: "length ?msg = 12" by (simp add: ascii_def)
  let ?p = "ip_header 40 0xFFFF 0x6104A8C0 0x491D03E0 @ udp_header (htons 12345) (htons 34952) (htons 20) @ ?msg"
  obtain ctx' out where run: "bindE (init_rawsock ?ctx ?m ?d) (\<lambda>c. paxos_send sendto c ?msg 12) =
      Inr (0, ctx', SendTo ?p # out)"
    using first_packet [of ?ctx ?msg ?m ?d sendto] by (auto simp: len)
  then have "checksum_main sock inet_addr sendto junk = Inr (0, SendTo ?p # out)"
    using assms by (auto simp: checksum_main_def send_main_def create_rawsock_def len bindE_eq_Inr)
  moreover have "csum ?p 0 (int 20) = Inr 0x96D1"
    by (subst csum_canon) (simp_all add: len ip_header_def le_bytes_2 le_bytes_4 canon_def)
  ultimately show ?thesis by (intro exI [of _ ?p] exI [of _ out]) (simp add: len)
qed

theorem checksum_main_header_invalid_witness:
  "\<exists>packet out. checksum_main 3 (\<lambda>s. if s = ''192.168.4.97'' then 0x6104A8C0 else 0x491D03E0) (\<lambda>_ _ _. 40) (\<lambda>_. 0) =
      Inr (0, SendTo packet # out) \<and> length packet = 40 \<and> csum packet 0 20 = Inr 0x96D1"
  by (rule checksum_main_header_invalid) simp_all

end
