(* ===== verification/Rocks_Store.thy ===== *)
theory Rocks_Store
  imports C_Text
begin

text \<open>
  \<^verbatim>\<open>rocksdb_playground/src/datastore.c\<close>: the handlers of the shell over the global
  \<^verbatim>\<open>struct rocksdb_params rocks\<close>. RocksDB itself is not part of the repository: the calls of its C
  interface are the fields of a record of functions over an arbitrary world, with handles as
  numbers, \<^verbatim>\<open>NULL\<close> as \<open>None\<close> and \<^verbatim>\<open>char **errptr\<close> as an optional message. What the
  handlers print is collected in the state.
\<close>

section \<open>The RocksDB interface and the state\<close>

record rocksdb_options =
  parallelism :: int
  level_style_budget :: nat
  create_if_missing :: bool

record rocksdb_writeoptions =
  disable_WAL :: bool
  wo_sync :: bool

record 'w rocksdb =
  rocksdb_open :: "rocksdb_options \<Rightarrow> string \<Rightarrow> 'w \<Rightarrow> nat option \<times> string option \<times> 'w"
  rocksdb_close :: "nat \<Rightarrow> 'w \<Rightarrow> 'w"
  rocksdb_get :: "nat \<Rightarrow> string \<Rightarrow> 'w \<Rightarrow> string option \<times> string option \<times> 'w"
  rocksdb_put :: "nat \<Rightarrow> rocksdb_writeoptions \<Rightarrow> string \<Rightarrow> string \<Rightarrow> 'w \<Rightarrow> string option \<times> 'w"
  rocksdb_delete :: "nat \<Rightarrow> rocksdb_writeoptions \<Rightarrow> string \<Rightarrow> 'w \<Rightarrow> string option \<times> 'w"
  rocksdb_iterate :: "nat \<Rightarrow> 'w \<Rightarrow> (string \<times> string) list option \<times> 'w"
    \<comment> \<open>the pairs an iterator yields from \<^verbatim>\<open>seek_to_first\<close> on; \<open>None\<close> if none could be created\<close>
  rocksdb_checkpoint_object_create :: "nat \<Rightarrow> 'w \<Rightarrow> nat option \<times> string option \<times> 'w"
  rocksdb_checkpoint_create :: "nat \<Rightarrow> string \<Rightarrow> nat \<Rightarrow> 'w \<Rightarrow> string option \<times> 'w"
  rocksdb_checkpoint_object_destroy :: "nat \<Rightarrow> 'w \<Rightarrow> 'w"
  rocksdb_writebatch_create :: "'w \<Rightarrow> nat option \<times> 'w"
  rocksdb_writebatch_put :: "nat \<Rightarrow> string \<Rightarrow> string \<Rightarrow> 'w \<Rightarrow> 'w"
  rocksdb_write :: "nat \<Rightarrow> rocksdb_writeoptions \<Rightarrow> nat \<Rightarrow> 'w \<Rightarrow> string option \<times> 'w"
  rocksdb_writebatch_destroy :: "nat option \<Rightarrow> 'w \<Rightarrow> 'w"

record 'w rocksdb_params =
  db :: "nat option"
  options :: rocksdb_options
  writeoptions :: rocksdb_writeoptions
  cp :: "nat option"
  wr_batch :: "nat option"
  world :: 'w
  out :: "(stream \<times> string) list"

definition say :: "stream \<Rightarrow> string \<Rightarrow> 'w rocksdb_params \<Rightarrow> 'w rocksdb_params" where
  "say c s st = st\<lparr>out := out st @ [(c, s)]\<rparr>"

definition NUL :: char where
  "NUL = CHR 0x00"

text \<open>What \<^verbatim>\<open>%s\<close> prints for a byte block: up to its first NUL, a fault if it has none.\<close>

definition percent_s :: "string \<Rightarrow> string cres" where
  "percent_s s = (if NUL \<in> set s then Inr (takeWhile (\<lambda>c. c \<noteq> NUL) s) else Inl OutOfBounds)"

section \<open>The handlers\<close>

definition init_rocksdb :: "int \<Rightarrow> 'w rocksdb_params \<Rightarrow> 'w rocksdb_params" where
  "init_rocksdb cpus st = st\<lparr>
     options := \<lparr>parallelism = cpus, level_style_budget = 1048576, create_if_missing = True\<rparr>,
     writeoptions := \<lparr>disable_WAL = True, wo_sync = False\<rparr>\<rparr>"

definition is_open :: "'w rocksdb_params \<Rightarrow> bool \<times> 'w rocksdb_params" where
  "is_open st =
     (if db st = None then (False, say Stderr (line ''DB is not openned'') st) else (True, st))"

definition create_checkpoint_object :: "'w rocksdb \<Rightarrow> 'w rocksdb_params \<Rightarrow> (int \<times> 'w rocksdb_params) cres" where
  "create_checkpoint_object api st =
     (case db st of None \<Rightarrow> Inl NullDeref
      | Some d \<Rightarrow>
          let (c, err, w) = rocksdb_checkpoint_object_create api d (world st);
              st = st\<lparr>cp := c, world := w\<rparr>
          in (case err of
                Some e \<Rightarrow> Inr (-2, say Stdout (line (''Cannot create checkpoint object: '' @ e)) st)
              | None \<Rightarrow> Inr (0, st)))"

definition open_db :: "'w rocksdb \<Rightarrow> string \<Rightarrow> 'w rocksdb_params \<Rightarrow> (int \<times> 'w rocksdb_params) cres" where
  "open_db api db_path st =
     (let (d, err, w) = rocksdb_open api (options st) db_path (world st);
          st = st\<lparr>db := d, world := w\<rparr>
      in case err of
           Some e \<Rightarrow> Inr (-1, say Stdout (line (''Cannot open DB: '' @ e)) st)
         | None \<Rightarrow> Inr (0, st))"

definition close_db :: "'w rocksdb \<Rightarrow> 'w rocksdb_params \<Rightarrow> (int \<times> 'w rocksdb_params) cres" where
  "close_db api st =
     (let (opened, st) = is_open st in
      case db st of
        None \<Rightarrow> Inr (0, st)
      | Some d \<Rightarrow> Inr (0, st\<lparr>world := rocksdb_close api d (world st), db := None\<rparr>))"

definition deconstruct :: "'w rocksdb \<Rightarrow> 'w rocksdb_params \<Rightarrow> int \<times> 'w rocksdb_params" where
  "deconstruct api st =
     (let st = (case cp st of None \<Rightarrow> st
                | Some c \<Rightarrow> st\<lparr>world := rocksdb_checkpoint_object_destroy api c (world st)\<rparr>);
          st = (case db st of None \<Rightarrow> st | Some d \<Rightarrow> st\<lparr>world := rocksdb_close api d (world st)\<rparr>)
      in (0, st))"

definition handle_read :: "'w rocksdb \<Rightarrow> string \<Rightarrow> 'w rocksdb_params \<Rightarrow> (int \<times> 'w rocksdb_params) cres" where
  "handle_read api key st =
     (let (opened, st) = is_open st in
      case db st of
        None \<Rightarrow> Inr (-1, st)
      | Some d \<Rightarrow>
          let (val, err, w) = rocksdb_get api d key (world st);
              st = st\<lparr>world := w\<rparr>
          in (case err of
                Some e \<Rightarrow> Inr (-1, say Stdout (line (''Read Error: '' @ e)) st)
              | None \<Rightarrow>
                 (case val of
                    None \<Rightarrow> Inr (0, say Stdout (line (''Value was not found for key '' @ key)) st)
                  | Some v \<Rightarrow>
                      bindE (percent_s v) (\<lambda>s.
                      Inr (0, say Stdout (line (''Found value '' @ s @ '', vallen '' @ dec_nat (length v) @
                               '' for key '' @ key)) st)))))"

definition cut_at_nul :: "string \<Rightarrow> string" where
  "cut_at_nul s = takeWhile (\<lambda>c. c \<noteq> NUL) s"

definition list_row :: "string \<times> string \<Rightarrow> string" where
  "list_row kv = line (pad_right 20 (cut_at_nul (fst kv)) @ '' | '' @ pad_right 20 (cut_at_nul (snd kv)))"

definition handle_list :: "'w rocksdb \<Rightarrow> 'w rocksdb_params \<Rightarrow> (int \<times> 'w rocksdb_params) cres" where
  "handle_list api st =
     (let (opened, st) = is_open st in
      case db st of
        None \<Rightarrow> Inr (-1, st)
      | Some d \<Rightarrow>
          let (it, w) = rocksdb_iterate api d (world st);
              st = st\<lparr>world := w\<rparr>
          in (case it of
                None \<Rightarrow> Inr (-1, say Stderr (line ''Create Iterator has an error'') st)
              | Some kvs \<Rightarrow>
                  Inr (0, st\<lparr>out := out st @ map (Pair Stdout)
                    (line (pad_right 20 ''Key'' @ '' | '' @ pad_right 20 ''Value'') #
                     line (replicate 48 (CHR ''-'')) # map list_row kvs)\<rparr>)))"

definition handle_delete :: "'w rocksdb \<Rightarrow> string \<Rightarrow> 'w rocksdb_params \<Rightarrow> (int \<times> 'w rocksdb_params) cres" where
  "handle_delete api key st =
     (let (opened, st) = is_open st in
      case db st of
        None \<Rightarrow> Inr (-1, st)
      | Some d \<Rightarrow>
          let (err, w) = rocksdb_delete api d (writeoptions st) key (world st);
              st = st\<lparr>world := w\<rparr>
          in (case err of
                Some e \<Rightarrow> Inr (-1, say Stdout (line (''Delete Error: '' @ e)) st)
              | None \<Rightarrow> Inr (0, say Stdout (line (''Deleted key '' @ key)) st)))"

text \<open>\<open>val\<close> is the block of \<^verbatim>\<open>vallen\<close> bytes, with the NUL the caller includes in its length.\<close>

definition handle_write :: "'w rocksdb \<Rightarrow> string \<Rightarrow> string \<Rightarrow> 'w rocksdb_params \<Rightarrow> (int \<times> 'w rocksdb_params) cres" where
  "handle_write api key val st =
     (let (opened, st) = is_open st in
      case db st of
        None \<Rightarrow> Inr (-1, st)
      | Some d \<Rightarrow>
         (case wr_batch st of
            Some b \<Rightarrow> Inr (0, st\<lparr>world := rocksdb_writebatch_put api b key val (world st)\<rparr>)
          | None \<Rightarrow>
             (let (err, w) = rocksdb_put api d (writeoptions st) key val (world st);
                  st = st\<lparr>world := w\<rparr>
              in case err of
                   Some e \<Rightarrow> Inr (-1, say Stdout (line (''Write Error: '' @ e)) st)
                 | None \<Rightarrow> Inr (0, say Stdout (line (''Write <'' @ key @ '','' @ cut_at_nul val @ ''> OK'')) st))))"

definition handle_checkpoint :: "'w rocksdb \<Rightarrow> string \<Rightarrow> 'w rocksdb_params \<Rightarrow> (int \<times> 'w rocksdb_params) cres" where
  "handle_checkpoint api checkpoint_dir st =
     (let (opened, st) = is_open st in
      if db st = None then Inr (-1, st)
      else
        bindE (if cp st = None then bindE (create_checkpoint_object api st) (\<lambda>(r, st). Inr st) else Inr st) (\<lambda>st.
        case cp st of
          None \<Rightarrow> Inl NullDeref
        | Some c \<Rightarrow>
            let (err, w) = rocksdb_checkpoint_create api c checkpoint_dir 8192 (world st);
                st = st\<lparr>world := w\<rparr>
            in (case err of
                  Some e \<Rightarrow> Inr (-1, say Stdout (line (''Checkpoint Error: '' @ e)) st)
                | None \<Rightarrow> Inr (0, say Stdout (line ''Checkpoint OK'') st))))"

definition create_writebatch :: "'w rocksdb \<Rightarrow> 'w rocksdb_params \<Rightarrow> (int \<times> 'w rocksdb_params) cres" where
  "create_writebatch api st =
     (let (b, w) = rocksdb_writebatch_create api (world st);
          st = st\<lparr>wr_batch := b, world := w\<rparr>
      in if b = None then Inr (-1, say Stderr (line ''Create WriteBach had problems'') st) else Inr (0, st))"

definition destroy_writebatch :: "'w rocksdb \<Rightarrow> 'w rocksdb_params \<Rightarrow> (int \<times> 'w rocksdb_params) cres" where
  "destroy_writebatch api st =
     bindE (case wr_batch st of
              None \<Rightarrow> Inr (None, st)
            | Some b \<Rightarrow>
               (case db st of
                  None \<Rightarrow> Inl NullDeref
                | Some d \<Rightarrow>
                    let (err, w) = rocksdb_write api d (writeoptions st) b (world st)
                    in Inr (err, st\<lparr>world := w\<rparr>))) (\<lambda>(err, st).
     case err of
       Some e \<Rightarrow> Inr (-1, say Stdout (line (''WriteBatch Error: '' @ e)) st)
     | None \<Rightarrow> Inr (0, st\<lparr>world := rocksdb_writebatch_destroy api (wr_batch st) (world st), wr_batch := None\<rparr>))"

section \<open>What the handlers rely on\<close>

text \<open>
  The documented behaviour of the calls, over a reading of the world: \<open>view w d\<close> is the
  contents of the database behind handle \<open>d\<close>, \<open>pend w b\<close> the updates queued in batch \<open>b\<close>.
  Each law speaks of a call that reported no error.
\<close>

definition apply_puts :: "(string \<times> string) list \<Rightarrow> (string \<rightharpoonup> string) \<Rightarrow> (string \<rightharpoonup> string)" where
  "apply_puts kvs m = foldl (\<lambda>m (k, v). m(k \<mapsto> v)) m kvs"

definition get_law :: "'w rocksdb \<Rightarrow> ('w \<Rightarrow> nat \<Rightarrow> string \<rightharpoonup> string) \<Rightarrow> bool" where
  "get_law api view \<longleftrightarrow> (\<forall>d k w v w'. rocksdb_get api d k w = (v, None, w') \<longrightarrow> v = view w d k \<and> view w' = view w)"

definition put_law :: "'w rocksdb \<Rightarrow> ('w \<Rightarrow> nat \<Rightarrow> string \<rightharpoonup> string) \<Rightarrow> bool" where
  "put_law api view \<longleftrightarrow> (\<forall>d wo k v w w'. rocksdb_put api d wo k v w = (None, w') \<longrightarrow> view w' d = (view w d)(k \<mapsto> v))"

definition delete_law :: "'w rocksdb \<Rightarrow> ('w \<Rightarrow> nat \<Rightarrow> string \<rightharpoonup> string) \<Rightarrow> bool" where
  "delete_law api view \<longleftrightarrow> (\<forall>d wo k w w'. rocksdb_delete api d wo k w = (None, w') \<longrightarrow> view w' d = (view w d)(k := None))"

definition batch_laws ::
  "'w rocksdb \<Rightarrow> ('w \<Rightarrow> nat \<Rightarrow> string \<rightharpoonup> string) \<Rightarrow> ('w \<Rightarrow> nat \<Rightarrow> (string \<times> string) list) \<Rightarrow> bool" where
  "batch_laws api view pend \<longleftrightarrow>
     (\<forall>w b w'. rocksdb_writebatch_create api w = (Some b, w') \<longrightarrow> view w' = view w \<and> pend w' b = []) \<and>
     (\<forall>b k v w. view (rocksdb_writebatch_put api b k v w) = view w \<and>
                pend (rocksdb_writebatch_put api b k v w) b = pend w b @ [(k, v)]) \<and>
     (\<forall>d wo b w w'. rocksdb_write api d wo b w = (None, w') \<longrightarrow> view w' d = apply_puts (pend w b) (view w d)) \<and>
     (\<forall>b w. view (rocksdb_writebatch_destroy api b w) = view w)"

section \<open>A closed database\<close>

lemma is_open_simps [simp]:
  "db st = None \<Longrightarrow> is_open st = (False, say Stderr (line ''DB is not openned'') st)"
  "db st = Some d \<Longrightarrow> is_open st = (True, st)"
  by (simp_all add: is_open_def)

lemma say_simps [simp]:
  "db (say c s st) = db st" "cp (say c s st) = cp st" "wr_batch (say c s st) = wr_batch st"
  "world (say c s st) = world st" "out (say c s st) = out st @ [(c, s)]"
  "options (say c s st) = options st" "writeoptions (say c s st) = writeoptions st"
  by (simp_all add: say_def)

lemmas handler_defs = handle_read_def handle_list_def handle_delete_def handle_write_def
  handle_checkpoint_def close_db_def

text \<open>
  While no database is open, reading, listing, deleting, writing and taking a checkpoint all
  return -1, and closing returns 0; each of them only prints the same message on standard error
  and calls nothing of RocksDB, whatever RocksDB would do.
\<close>

theorem closed_db_handlers:
  assumes "db st = None"
  shows "(let st' = st\<lparr>out := out st @ [(Stderr, line ''DB is not openned'')]\<rparr> in
          handle_read api key st = Inr (-1, st') \<and> handle_list api st = Inr (-1, st') \<and>
          handle_delete api key st = Inr (-1, st') \<and> handle_write api key val st = Inr (-1, st') \<and>
          handle_checkpoint api dir st = Inr (-1, st') \<and> close_db api st = Inr (0, st'))"
  using assms by (simp add: handler_defs say_def)

section \<open>Writing and reading back\<close>

lemma handle_write_put:
  assumes "db st = Some d" "wr_batch st = None" "put_law api view"
    and "handle_write api key val st = Inr (0, st')"
  shows "db st' = Some d \<and> view (world st') d = (view (world st) d)(key \<mapsto> val)"
  using assms by (auto simp: handle_write_def put_law_def Let_def split: prod.splits option.splits)

lemma handle_delete_view:
  assumes "db st = Some d" "delete_law api view"
    and "handle_delete api key st = Inr (0, st')"
  shows "db st' = Some d \<and> view (world st') d = (view (world st) d)(key := None)"
  using assms by (auto simp: handle_delete_def delete_law_def Let_def split: prod.splits option.splits)

lemma handle_read_some:
  assumes "db st = Some d" "get_law api view" "view (world st) d key = Some (v @ [NUL])" "NUL \<notin> set v"
    and "handle_read api key st = Inr (0, st')"
  shows "out st' = out st @ [(Stdout, line (''Found value '' @ v @ '', vallen '' @
           dec_nat (length v + 1) @ '' for key '' @ key))]"
proof -
  obtain val w where get: "rocksdb_get api d key (world st) = (val, None, w)"
    using assms(1,5) by (auto simp: handle_read_def Let_def split: prod.splits option.splits)
  then have "val = Some (v @ [NUL])" using assms(2,3) unfolding get_law_def by metis
  moreover have "takeWhile (\<lambda>c. c \<noteq> NUL) (v @ [NUL]) = v"
    using assms(4) by (subst takeWhile_append2) auto
  ultimately show ?thesis
    using assms(1,5) get by (auto simp: handle_read_def percent_s_def)
qed

lemma handle_read_none:
  assumes "db st = Some d" "get_law api view" "view (world st) d key = None"
    and "handle_read api key st = Inr (0, st')"
  shows "out st' = out st @ [(Stdout, line (''Value was not found for key '' @ key))]"
proof -
  obtain val w where get: "rocksdb_get api d key (world st) = (val, None, w)"
    using assms(1,4) by (auto simp: handle_read_def Let_def split: prod.splits option.splits)
  then have "val = None" using assms(2,3) unfolding get_law_def by metis
  then show ?thesis using assms(1,4) get by (auto simp: handle_read_def)
qed

section \<open>Write batches\<close>

text \<open>A run of \<^verbatim>\<open>write\<close> commands.\<close>

fun write_all :: "'w rocksdb \<Rightarrow> (string \<times> string) list \<Rightarrow> 'w rocksdb_params \<Rightarrow> 'w rocksdb_params cres" where
  "write_all api [] st = Inr st"
| "write_all api ((k, v) # kvs) st = bindE (handle_write api k v st) (\<lambda>(r, st). write_all api kvs st)"

lemma write_all_batched:
  assumes "batch_laws api view pend" "db st = Some d" "wr_batch st = Some b"
  shows "\<exists>st'. write_all api kvs st = Inr st' \<and> db st' = Some d \<and> wr_batch st' = Some b \<and>
           out st' = out st \<and> view (world st') = view (world st) \<and> pend (world st') b = pend (world st) b @ kvs"
  using assms
proof (induction kvs arbitrary: st)
  case (Cons kv kvs)
  obtain k v where kv: "kv = (k, v)" by force
  let ?st = "st\<lparr>world := rocksdb_writebatch_put api b k v (world st)\<rparr>"
  obtain st' where "write_all api kvs ?st = Inr st'" "db st' = Some d" "wr_batch st' = Some b"
    "out st' = out ?st" "view (world st') = view (world ?st)" "pend (world st') b = pend (world ?st) b @ kvs"
    using Cons.IH [of ?st] Cons.prems by auto
  then show ?case
    using Cons.prems by (auto simp: kv handle_write_def batch_laws_def)
qed simp

lemma create_writebatch_fresh:
  assumes "batch_laws api view pend" "create_writebatch api st = Inr (0, st')"
  shows "db st' = db st \<and> view (world st') = view (world st) \<and>
         (\<exists>b. wr_batch st' = Some b \<and> pend (world st') b = [])"
proof -
  obtain b w where "rocksdb_writebatch_create api (world st) = (Some b, w)"
    "st' = st\<lparr>wr_batch := Some b, world := w\<rparr>"
    using assms(2) by (auto simp: create_writebatch_def Let_def split: prod.splits if_splits)
  then show ?thesis using assms(1) by (auto simp: batch_laws_def)
qed

text \<open>
  C15. A write batch is atomic and ordered: after \<^verbatim>\<open>wb_create\<close> any number of writes leave the
  contents of the open database as they were and print nothing, and a \<^verbatim>\<open>wb_destroy\<close> that
  returns 0 then applies them all, in the order they were given, and ends the batch.
\<close>

theorem batch_is_atomic:
  assumes "batch_laws api view pend" and "db st = Some d"
    and "create_writebatch api st = Inr (0, st1)"
  shows "\<exists>st2. write_all api kvs st1 = Inr st2 \<and> view (world st2) = view (world st) \<and> out st2 = out st1 \<and>
          (\<forall>st3. destroy_writebatch api st2 = Inr (0, st3) \<longrightarrow>
             wr_batch st3 = None \<and> view (world st3) d = apply_puts kvs (view (world st) d))"
proof -
  obtain b where st1: "db st1 = Some d" "view (world st1) = view (world st)" "wr_batch st1 = Some b"
    "pend (world st1) b = []"
    using create_writebatch_fresh [OF assms(1,3)] assms(2) by auto
  obtain st2 where st2: "write_all api kvs st1 = Inr st2" "db st2 = Some d" "wr_batch st2 = Some b"
    "out st2 = out st1" "view (world st2) = view (world st)" "pend (world st2) b = kvs"
    using write_all_batched [OF assms(1) st1(1,3), of kvs] st1 by auto
  moreover have "wr_batch st3 = None \<and> view (world st3) d = apply_puts kvs (view (world st) d)"
    if dest: "destroy_writebatch api st2 = Inr (0, st3)" for st3
  proof -
    obtain w where w: "rocksdb_write api d (writeoptions st2) b (world st2) = (None, w)"
      "st3 = st2\<lparr>world := rocksdb_writebatch_destroy api (Some b) w, wr_batch := None\<rparr>"
      using dest st2(2,3)
      by (cases "rocksdb_write api d (writeoptions st2) b (world st2)")
        (auto simp: destroy_writebatch_def split: option.splits)
    have "view w d = apply_puts (pend (world st2) b) (view (world st2) d)"
      using assms(1) w(1) unfolding batch_laws_def by blast
    then show ?thesis
      using assms(1) w(2) st2(5,6) by (simp add: batch_laws_def)
  qed
  ultimately show ?thesis by blast
qed

text \<open>
  The batch outlives the database: after \<^verbatim>\<open>close\<close>, \<^verbatim>\<open>wb_destroy\<close> passes the null
  handle of the closed database to \<^verbatim>\<open>rocksdb_write\<close>; and leaving the shell with a batch
  pending never hands it to RocksDB, the final clean-up touches only the checkpoint object and the
  database.
\<close>

theorem pending_batch_lost:
  assumes "db st = Some d" and "wr_batch st = Some b"
  shows "bindE (close_db api st) (\<lambda>(r, st). destroy_writebatch api st) = Inl NullDeref \<and>
         wr_batch (snd (deconstruct api st)) = Some b \<and>
         world (snd (deconstruct api st)) =
           rocksdb_close api d (case cp st of None \<Rightarrow> world st
             | Some c \<Rightarrow> rocksdb_checkpoint_object_destroy api c (world st))"
  using assms
  by (simp add: close_db_def destroy_writebatch_def deconstruct_def Let_def split: option.split)

text \<open>
  A failure to create the checkpoint object is not noticed: \<^verbatim>\<open>ckpt\<close> then passes the null
  object to \<^verbatim>\<open>rocksdb_checkpoint_create\<close>.
\<close>

theorem checkpoint_object_failure:
  assumes "db st = Some d" "cp st = None"
    and "rocksdb_checkpoint_object_create api d (world st) = (None, Some e, w)"
  shows "handle_checkpoint api dir st = Inl NullDeref"
  using assms by (simp add: handle_checkpoint_def create_checkpoint_object_def)

text \<open>An in-memory store that meets the laws: databases and batches by handle.\<close>

definition mem_rocksdb :: "((nat \<Rightarrow> string \<rightharpoonup> string) \<times> (nat \<Rightarrow> (string \<times> string) list)) rocksdb" where
  "mem_rocksdb = \<lparr>
     rocksdb_open = (\<lambda>opts path w. (Some 0, None, w)),
     rocksdb_close = (\<lambda>d w. w),
     rocksdb_get = (\<lambda>d k w. (fst w d k, None, w)),
     rocksdb_put = (\<lambda>d wo k v w. (None, ((fst w)(d := (fst w d)(k \<mapsto> v)), snd w))),
     rocksdb_delete = (\<lambda>d wo k w. (None, ((fst w)(d := (fst w d)(k := None)), snd w))),
     rocksdb_iterate = (\<lambda>d w. (None, w)),
     rocksdb_checkpoint_object_create = (\<lambda>d w. (None, Some ''IO error'', w)),
     rocksdb_checkpoint_create = (\<lambda>c dir n w. (None, w)),
     rocksdb_checkpoint_object_destroy = (\<lambda>c w. w),
     rocksdb_writebatch_create = (\<lambda>w. (Some 7, (fst w, (snd w)(7 := [])))),
     rocksdb_writebatch_put = (\<lambda>b k v w. (fst w, (snd w)(b := snd w b @ [(k, v)]))),
     rocksdb_write = (\<lambda>d wo b w. (None, ((fst w)(d := apply_puts (snd w b) (fst w d)), snd w))),
     rocksdb_writebatch_destroy = (\<lambda>b w. w)\<rparr>"

definition empty_world :: "(nat \<Rightarrow> string \<rightharpoonup> string) \<times> (nat \<Rightarrow> (string \<times> string) list)" where
  "empty_world = ((\<lambda>d k. None), (\<lambda>b. []))"

definition fresh_params :: "((nat \<Rightarrow> string \<rightharpoonup> string) \<times> (nat \<Rightarrow> (string \<times> string) list)) rocksdb_params" where
  "fresh_params = \<lparr>db = None, options = \<lparr>parallelism = 4, level_style_budget = 1048576, create_if_missing = True\<rparr>,
     writeoptions = \<lparr>disable_WAL = True, wo_sync = False\<rparr>, cp = None, wr_batch = None,
     world = empty_world, out = []\<rparr>"

lemma mem_rocksdb_laws:
  "get_law mem_rocksdb fst" "put_law mem_rocksdb fst" "delete_law mem_rocksdb fst" "batch_laws mem_rocksdb fst snd"
  by (auto simp: get_law_def put_law_def delete_law_def batch_laws_def mem_rocksdb_def)

theorem closed_db_handlers_witness:
  "handle_read mem_rocksdb ''k'' fresh_params =
     Inr (-1, fresh_params\<lparr>out := [(Stderr, line ''DB is not openned'')]\<rparr>)"
proof -
  have "db fresh_params = None" "out fresh_params = []" by (simp_all add: fresh_params_def)
  then show ?thesis
    using closed_db_handlers [of fresh_params mem_rocksdb "''k''" "''v''" "''d''"] by (simp add: Let_def)
qed

theorem batch_is_atomic_witness:
  "\<exists>st1 st2. create_writebatch mem_rocksdb (fresh_params\<lparr>db := Some 0\<rparr>) = Inr (0, st1) \<and>
     write_all mem_rocksdb [(''a'', ''1''), (''a'', ''2'')] st1 = Inr st2 \<and> fst (world st2) 0 ''a'' = None"
proof -
  let ?st1 = "fresh_params\<lparr>db := Some 0, wr_batch := Some 7, world := (fst empty_world, (snd empty_world)(7 := []))\<rparr>"
  have "create_writebatch mem_rocksdb (fresh_params\<lparr>db := Some 0\<rparr>) = Inr (0, ?st1)"
    by (simp add: create_writebatch_def mem_rocksdb_def fresh_params_def)
  moreover from this obtain st2 where "write_all mem_rocksdb [(''a'', ''1''), (''a'', ''2'')] ?st1 = Inr st2"
    "fst (world st2) = fst (world (fresh_params\<lparr>db := Some 0\<rparr>))"
    using batch_is_atomic [OF mem_rocksdb_laws(4), of "fresh_params\<lparr>db := Some 0\<rparr>" 0 ?st1 "[(''a'', ''1''), (''a'', ''2'')]"]
    by auto
  ultimately show ?thesis by (auto simp: fresh_params_def empty_world_def)
qed

theorem pending_batch_lost_witness:
  "bindE (close_db mem_rocksdb (fresh_params\<lparr>db := Some 0, wr_batch := Some 7\<rparr>))
     (\<lambda>(r, st). destroy_writebatch mem_rocksdb st) = Inl NullDeref"
  using pending_batch_lost [of "fresh_params\<lparr>db := Some 0, wr_batch := Some 7\<rparr>" 0 7 mem_rocksdb] by simp

theorem checkpoint_object_failure_witness:
  "handle_checkpoint mem_rocksdb ''/tmp/c'' (fresh_params\<lparr>db := Some 0\<rparr>) = Inl NullDeref"
  using checkpoint_object_failure [of "fresh_params\<lparr>db := Some 0\<rparr>" 0 mem_rocksdb "''IO error''" empty_world "''/tmp/c''"]
  by (simp add: fresh_params_def mem_rocksdb_def)

end
