(* ===== verification/Rocks_Shell.thy ===== *)
theory Rocks_Shell
  imports Rocks_Store "HOL-Library.Sublist"
begin

text \<open>
  \<^verbatim>\<open>rocksdb_playground/src/main.c\<close>: the command table, the parsing of a line, the commands,
  the completion generator and the read loop of the shell. Lines come from \<^verbatim>\<open>readline\<close> as a
  list of strings (its end is the end of file); a C string is the list of its characters, without
  the final NUL, which no character of it is. The proofs show how a line is parsed, which lines
  are run, what \<^verbatim>\<open>help\<close> and completion list, and that a value written by one line is what a
  later line reads.
\<close>

section \<open>The shell\<close>

datatype comfunc = Com_open | Com_write | Com_wb_create | Com_wb_destroy | Com_read | Com_delete
  | Com_checkpoint | Com_list | Com_help | Com_close | Com_quit

record COMMAND =
  name :: string
  func :: comfunc
  doc :: string

definition commands :: "COMMAND list" where
  "commands = [
     \<lparr>name = ''open'', func = Com_open, doc = ''Open a database''\<rparr>,
     \<lparr>name = ''write'', func = Com_write, doc = ''Write a (key,value) pair''\<rparr>,
     \<lparr>name = ''wb_create'', func = Com_wb_create, doc = ''Create a writebatch''\<rparr>,
     \<lparr>name = ''wb_destroy'', func = Com_wb_destroy, doc = ''Destroy the writebatch''\<rparr>,
     \<lparr>name = ''read'', func = Com_read, doc = ''Read the value associated with a key''\<rparr>,
     \<lparr>name = ''delete'', func = Com_delete, doc = ''Delete a key''\<rparr>,
     \<lparr>name = ''ckpt'', func = Com_checkpoint, doc = ''Create a checkpoint''\<rparr>,
     \<lparr>name = ''list'', func = Com_list, doc = ''List all keys and values''\<rparr>,
     \<lparr>name = ''help'', func = Com_help, doc = ''Display this text''\<rparr>,
     \<lparr>name = ''?'', func = Com_help, doc = ''Synonym for `help'' @ [char_of (39 :: nat)]\<rparr>,
     \<lparr>name = ''close'', func = Com_close, doc = ''Close the opened database''\<rparr>,
     \<lparr>name = ''quit'', func = Com_quit, doc = ''Quit using rocks''\<rparr>,
     \<lparr>name = ''exit'', func = Com_quit, doc = ''Synonym for `quit'' @ [char_of (39 :: nat)]\<rparr>]"

record 'w shell =
  rocks :: "'w rocksdb_params"
  finished :: bool          \<comment> \<open>\<^verbatim>\<open>int done\<close>\<close>
  past :: "string list"     \<comment> \<open>the lines \<^verbatim>\<open>add_history\<close> was called with\<close>

definition tab :: char where
  "tab = CHR 0x09"

text \<open>\<^verbatim>\<open>whitespace\<close> is a macro of readline, a parameter; it is documented to hold of a blank and of a tab only, so not of the final NUL.\<close>

definition whitespace_law :: "(char \<Rightarrow> bool) \<Rightarrow> bool" where
  "whitespace_law whitespace \<longleftrightarrow> (\<forall>c. whitespace c \<longleftrightarrow> c = CHR '' '' \<or> c = tab)"

definition shout :: "stream \<Rightarrow> string \<Rightarrow> 'w shell \<Rightarrow> 'w shell" where
  "shout c s sh = sh\<lparr>rocks := say c s (rocks sh)\<rparr>"

text \<open>A handler of the data store run on the state inside the shell.\<close>

definition lift :: "('w rocksdb_params \<Rightarrow> (int \<times> 'w rocksdb_params) cres) \<Rightarrow> 'w shell \<Rightarrow> (int \<times> 'w shell) cres" where
  "lift f sh = bindE (f (rocks sh)) (\<lambda>(r, st). Inr (r, sh\<lparr>rocks := st\<rparr>))"

text \<open>\<^verbatim>\<open>t > s\<close> stops the backward loop at the first character, which is no blank.\<close>

definition stripwhite :: "(char \<Rightarrow> bool) \<Rightarrow> string \<Rightarrow> string" where
  "stripwhite whitespace s =
     (case dropWhile whitespace s of
        [] \<Rightarrow> []
      | c # cs \<Rightarrow> c # rev (dropWhile whitespace (rev cs)))"

fun find_command_in :: "COMMAND list \<Rightarrow> string \<Rightarrow> COMMAND option" where
  "find_command_in [] n = None"
| "find_command_in (c # cs) n = (if n = name c then Some c else find_command_in cs n)"

definition find_command :: "string \<Rightarrow> COMMAND option" where
  "find_command n = find_command_in commands n"

definition invalid_argument :: "string \<Rightarrow> string \<Rightarrow> 'w shell \<Rightarrow> bool \<times> 'w shell" where
  "invalid_argument caller arg sh =
     (if arg = [] then (True, shout Stderr (line (caller @ '': Argument required.'')) sh) else (False, sh))"

definition com_open :: "'w rocksdb \<Rightarrow> string \<Rightarrow> 'w shell \<Rightarrow> (int \<times> 'w shell) cres" where
  "com_open api arg sh =
     (let (bad, sh) = invalid_argument ''open'' arg sh in
      if bad then Inr (-1, sh) else lift (open_db api arg) sh)"

definition com_read :: "'w rocksdb \<Rightarrow> string \<Rightarrow> 'w shell \<Rightarrow> (int \<times> 'w shell) cres" where
  "com_read api arg sh =
     (let (bad, sh) = invalid_argument ''read'' arg sh in
      if bad then Inr (-1, sh) else lift (handle_read api arg) sh)"

text \<open>\<^verbatim>\<open>strtok\<close> with the one delimiter blank: the next token and what follows its end.\<close>

definition strtok :: "string \<Rightarrow> (string \<times> string) option" where
  "strtok s =
     (let t = dropWhile (\<lambda>c. c = CHR '' '') s in
      if t = [] then None
      else Some (takeWhile (\<lambda>c. c \<noteq> CHR '' '') t, drop 1 (dropWhile (\<lambda>c. c \<noteq> CHR '' '') t)))"

definition com_write :: "'w rocksdb \<Rightarrow> string \<Rightarrow> 'w shell \<Rightarrow> (int \<times> 'w shell) cres" where
  "com_write api arg sh =
     (let (bad, sh) = invalid_argument ''write'' arg sh in
      if bad then Inr (-1, sh) else
      case strtok arg of
        None \<Rightarrow> Inr (-1, shout Stderr (line ''Key is empty'') sh)
      | Some (key, rest) \<Rightarrow>
         (case strtok rest of
            None \<Rightarrow> Inr (-1, shout Stderr (line ''Value is empty'') sh)
          | Some (val, rest) \<Rightarrow> lift (handle_write api key (val @ [NUL])) sh))"

definition com_delete :: "'w rocksdb \<Rightarrow> string \<Rightarrow> 'w shell \<Rightarrow> (int \<times> 'w shell) cres" where
  "com_delete api arg sh =
     (let (bad, sh) = invalid_argument ''delete'' arg sh in
      if bad then Inr (-1, sh) else lift (handle_delete api arg) sh)"

definition com_checkpoint :: "'w rocksdb \<Rightarrow> string \<Rightarrow> 'w shell \<Rightarrow> (int \<times> 'w shell) cres" where
  "com_checkpoint api arg sh =
     (let (bad, sh) = invalid_argument ''checkpoint'' arg sh in
      if bad then Inr (-1, sh) else lift (handle_checkpoint api arg) sh)"

text \<open>The second loop of \<^verbatim>\<open>com_help\<close>: the names, with a newline before every seventh; the
  pieces printed and the final count.\<close>

fun help_columns :: "nat \<Rightarrow> COMMAND list \<Rightarrow> string list \<times> nat" where
  "help_columns printed [] = ([], printed)"
| "help_columns printed (c # cs) =
     (let (nl, printed) = (if printed = 6 then ([[newline]], 0) else ([], printed));
          (rest, n) = help_columns (printed + 1) cs
      in (nl @ (name c @ [tab]) # rest, n))"

definition com_help :: "string \<Rightarrow> 'w shell \<Rightarrow> (int \<times> 'w shell) cres" where
  "com_help arg sh =
     (let rows = [line (name c @ [tab, tab] @ doc c @ ''.''). c \<leftarrow> commands, arg = [] \<or> arg = name c];
          texts = (if rows \<noteq> [] then rows
                   else let (cols, printed) = help_columns 0 commands in
                        line (''No commands match `'' @ arg @ [char_of (39 :: nat)] @ ''.  Possibilties are:'') #
                        cols @ (if printed \<noteq> 0 then [[newline]] else []))
      in Inr (0, foldl (\<lambda>sh t. shout Stdout t sh) sh texts))"

definition com_list :: "'w rocksdb \<Rightarrow> string \<Rightarrow> 'w shell \<Rightarrow> (int \<times> 'w shell) cres" where
  "com_list api arg sh = lift (handle_list api) sh"

definition com_close :: "'w rocksdb \<Rightarrow> string \<Rightarrow> 'w shell \<Rightarrow> (int \<times> 'w shell) cres" where
  "com_close api arg sh = lift (close_db api) sh"

definition com_wb_create :: "'w rocksdb \<Rightarrow> string \<Rightarrow> 'w shell \<Rightarrow> (int \<times> 'w shell) cres" where
  "com_wb_create api arg sh = lift (create_writebatch api) sh"

definition com_wb_destroy :: "'w rocksdb \<Rightarrow> string \<Rightarrow> 'w shell \<Rightarrow> (int \<times> 'w shell) cres" where
  "com_wb_destroy api arg sh = lift (destroy_writebatch api) sh"

definition com_quit :: "string \<Rightarrow> 'w shell \<Rightarrow> (int \<times> 'w shell) cres" where
  "com_quit arg sh = Inr (0, sh\<lparr>finished := True\<rparr>)"

fun call :: "comfunc \<Rightarrow> 'w rocksdb \<Rightarrow> string \<Rightarrow> 'w shell \<Rightarrow> (int \<times> 'w shell) cres" where
  "call Com_open api = com_open api"
| "call Com_write api = com_write api"
| "call Com_wb_create api = com_wb_create api"
| "call Com_wb_destroy api = com_wb_destroy api"
| "call Com_read api = com_read api"
| "call Com_delete api = com_delete api"
| "call Com_checkpoint api = com_checkpoint api"
| "call Com_list api = com_list api"
| "call Com_help api = com_help"
| "call Com_close api = com_close api"
| "call Com_quit api = com_quit"

definition execute_line :: "(char \<Rightarrow> bool) \<Rightarrow> 'w rocksdb \<Rightarrow> string \<Rightarrow> 'w shell \<Rightarrow> (int \<times> 'w shell) cres" where
  "execute_line whitespace api s sh =
     (let s = dropWhile whitespace s;
          word = takeWhile (\<lambda>c. \<not> whitespace c) s;
          rest = drop 1 (dropWhile (\<lambda>c. \<not> whitespace c) s)
      in case find_command word of
           None \<Rightarrow> Inr (-1, shout Stderr (line (word @ '' No such command.'')) sh)
         | Some c \<Rightarrow> call (func c) api (dropWhile whitespace rest) sh)"

fun read_loop :: "(char \<Rightarrow> bool) \<Rightarrow> 'w rocksdb \<Rightarrow> string list \<Rightarrow> 'w shell \<Rightarrow> 'w shell cres" where
  "read_loop whitespace api [] sh = Inr sh"
| "read_loop whitespace api (l # ls) sh =
     (if finished sh then Inr sh else
      let s = stripwhite whitespace l in
      if s = [] then read_loop whitespace api ls sh
      else bindE (execute_line whitespace api s (sh\<lparr>past := past sh @ [s]\<rparr>)) (\<lambda>(r, sh). read_loop whitespace api ls sh))"

definition shell_main :: "(char \<Rightarrow> bool) \<Rightarrow> 'w rocksdb \<Rightarrow> int \<Rightarrow> string list \<Rightarrow> 'w shell \<Rightarrow> (int \<times> 'w shell) cres" where
  "shell_main whitespace api cpus ls sh =
     bindE (read_loop whitespace api ls (sh\<lparr>rocks := init_rocksdb cpus (rocks sh)\<rparr>)) (\<lambda>sh.
     Inr (0, sh\<lparr>rocks := snd (deconstruct api (rocks sh))\<rparr>))"

section \<open>Completion\<close>

text \<open>The generator with its static \<^verbatim>\<open>list_index\<close> and \<^verbatim>\<open>len\<close>; \<^verbatim>\<open>strncmp(name, text, len)\<close>
  is 0 when the first \<open>len\<close> characters agree.\<close>

fun generate_from :: "COMMAND list \<Rightarrow> nat \<Rightarrow> string \<Rightarrow> nat \<Rightarrow> string option \<times> nat" where
  "generate_from [] i text len = (None, i)"
| "generate_from (c # cs) i text len =
     (if take len (name c) = take len text then (Some (name c), i + 1) else generate_from cs (i + 1) text len)"

definition command_generator :: "string \<Rightarrow> nat \<Rightarrow> nat \<times> nat \<Rightarrow> string option \<times> (nat \<times> nat)" where
  "command_generator text state st =
     (let (list_index, len) = (if state = 0 then (0, length text) else st);
          (r, list_index) = generate_from (drop list_index commands) list_index text len
      in (r, (list_index, len)))"

text \<open>\<^verbatim>\<open>rl_completion_matches\<close> calls the generator until it returns null; the fuel bounds the
  number of calls, and one more than the length of the table is enough.\<close>

fun completion_matches :: "nat \<Rightarrow> string \<Rightarrow> nat \<Rightarrow> nat \<times> nat \<Rightarrow> string list" where
  "completion_matches 0 text state st = []"
| "completion_matches (Suc fuel) text state st =
     (case command_generator text state st of
        (None, st) \<Rightarrow> []
      | (Some m, st) \<Rightarrow> m # completion_matches fuel text (state + 1) st)"

definition rocks_completion :: "string \<Rightarrow> nat \<Rightarrow> nat \<Rightarrow> nat \<times> nat \<Rightarrow> string list" where
  "rocks_completion text start stop st =
     (if start = 0 then completion_matches (length commands + 1) text 0 st else [])"

section \<open>Parsing\<close>

definition blank :: "(char \<Rightarrow> bool) \<Rightarrow> string \<Rightarrow> bool" where
  "blank whitespace s \<longleftrightarrow> (\<forall>c \<in> set s. whitespace c)"

definition solid :: "(char \<Rightarrow> bool) \<Rightarrow> string \<Rightarrow> bool" where
  "solid whitespace s \<longleftrightarrow> (\<forall>c \<in> set s. \<not> whitespace c)"

lemma dropWhile_blank [simp]: "blank whitespace b \<Longrightarrow> dropWhile whitespace (b @ s) = dropWhile whitespace s"
  by (simp add: blank_def dropWhile_append2)

lemma dropWhile_blank_all [simp]: "blank whitespace b \<Longrightarrow> dropWhile whitespace b = []"
  by (simp add: blank_def)

lemma dropWhile_hd: "s \<noteq> [] \<Longrightarrow> \<not> P (hd s) \<Longrightarrow> dropWhile P s = s"
  by (cases s) auto

lemma stripwhite_trim:
  assumes "blank whitespace a" "blank whitespace b" "s = [] \<or> \<not> whitespace (hd s) \<and> \<not> whitespace (last s)"
  shows "stripwhite whitespace (a @ s @ b) = s"
proof (cases s)
  case Nil
  then show ?thesis using assms by (simp add: stripwhite_def)
next
  case (Cons c cs)
  have "blank whitespace (rev b)" using assms(2) by (simp add: blank_def)
  moreover have "dropWhile whitespace (rev cs) = rev cs"
    using assms(3) Cons by (cases "cs = []") (auto simp: hd_rev intro!: dropWhile_hd)
  ultimately show ?thesis
    using assms Cons by (simp add: stripwhite_def)
qed

lemma word_split:
  assumes "\<forall>c \<in> set w. P c" "r = [] \<or> \<not> P (hd r)"
  shows "takeWhile P (w @ r) = w" "dropWhile P (w @ r) = r"
  using assms by (cases r; simp)+

lemma execute_line_split:
  assumes "w \<noteq> []" "solid whitespace w" "blank whitespace b" "b \<noteq> [] \<or> arg = []" "arg = [] \<or> \<not> whitespace (hd arg)"
  shows "execute_line whitespace api (w @ b @ arg) sh =
     (case find_command w of
        None \<Rightarrow> Inr (-1, shout Stderr (line (w @ '' No such command.'')) sh)
      | Some c \<Rightarrow> call (func c) api arg sh)"
proof -
  have "dropWhile whitespace (w @ b @ arg) = w @ b @ arg"
    using assms(1,2) by (cases w) (auto simp: solid_def)
  moreover have "b @ arg = [] \<or> whitespace (hd (b @ arg))"
    using assms(3,4) by (cases b) (auto simp: blank_def)
  then have "takeWhile (\<lambda>c. \<not> whitespace c) (w @ b @ arg) = w"
    "dropWhile (\<lambda>c. \<not> whitespace c) (w @ b @ arg) = b @ arg"
    using assms(2) word_split [of w "\<lambda>c. \<not> whitespace c" "b @ arg"] by (simp_all add: solid_def)
  moreover have "dropWhile whitespace (drop 1 (b @ arg)) = arg"
  proof (cases b)
    case Nil
    then show ?thesis using assms(4) by simp
  next
    case (Cons c b')
    then have "blank whitespace b'" using assms(3) by (simp add: blank_def)
    moreover have "dropWhile whitespace arg = arg"
      using assms(5) by (cases arg) auto
    ultimately show ?thesis using Cons by simp
  qed
  ultimately show ?thesis by (simp only: execute_line_def Let_def)
qed

text \<open>
  A line made of a word, blanks or tabs, and an argument, with any blanks and tabs around it,
  calls the command of that name with exactly the argument; an unknown word prints
  \<^verbatim>\<open>No such command\<close> and returns -1.
\<close>

theorem line_is_parsed:
  assumes "w \<noteq> []" "solid whitespace w" "blank whitespace a" "blank whitespace b" "blank whitespace c" "b \<noteq> [] \<or> arg = []"
    and "arg = [] \<or> \<not> whitespace (hd arg) \<and> \<not> whitespace (last arg)"
  shows "execute_line whitespace api (stripwhite whitespace (a @ w @ b @ arg @ c)) sh =
     (case find_command w of
        None \<Rightarrow> Inr (-1, shout Stderr (line (w @ '' No such command.'')) sh)
      | Some cmd \<Rightarrow> call (func cmd) api arg sh)"
proof (cases "arg = []")
  case True
  have "stripwhite whitespace (a @ w @ (b @ c)) = w"
    using assms by (intro stripwhite_trim) (auto simp: blank_def solid_def)
  then show ?thesis
    using True assms execute_line_split [of w whitespace "[]" "[]" api sh] by (simp add: blank_def split: option.split)
next
  case False
  have "\<not> whitespace (hd (w @ b @ arg)) \<and> \<not> whitespace (last (w @ b @ arg))"
    using False assms by (auto simp: solid_def)
  then have "stripwhite whitespace (a @ (w @ b @ arg) @ c) = w @ b @ arg"
    using assms by (intro stripwhite_trim) auto
  then show ?thesis
    using False assms execute_line_split [of w whitespace b arg api sh] by simp
qed

section \<open>A session\<close>

lemma com_write_two_words:
  assumes "CHR '' '' \<notin> set k" "CHR '' '' \<notin> set v" "k \<noteq> []" "v \<noteq> []"
  shows "com_write api (k @ '' '' @ v) sh = lift (handle_write api k (v @ [NUL])) sh"
proof -
  have tok: "strtok (t @ r) = Some (t, drop 1 r)"
    if "CHR '' '' \<notin> set t" "t \<noteq> []" "r = [] \<or> hd r = CHR '' ''" for t r
  proof -
    have "dropWhile (\<lambda>c. c = CHR '' '') (t @ r) = t @ r" using that by (cases t) auto
    moreover have "\<forall>c \<in> set t. c \<noteq> CHR '' ''" using that(1) by metis
    then have "takeWhile (\<lambda>c. c \<noteq> CHR '' '') (t @ r) = t" "dropWhile (\<lambda>c. c \<noteq> CHR '' '') (t @ r) = r"
      using that(3) word_split [of t "\<lambda>c. c \<noteq> CHR '' ''" r] by auto
    ultimately show ?thesis using that(2) by (simp only: strtok_def Let_def append_is_Nil_conv) simp
  qed
  show ?thesis
    using assms tok [of k "'' '' @ v"] tok [of v "[]"] by (simp add: com_write_def invalid_argument_def)
qed

definition command_func :: "string \<Rightarrow> comfunc option" where
  "command_func w = map_option func (find_command w)"

lemma find_command_names [simp]:
  "command_func ''write'' = Some Com_write"
  "command_func ''read'' = Some Com_read"
  "command_func ''quit'' = Some Com_quit"
  "command_func ''exit'' = Some Com_quit"
  by (simp_all add: command_func_def find_command_def commands_def)

lemma call_found:
  assumes "command_func w = Some f" "w \<noteq> []" "solid whitespace w" "arg = [] \<or> \<not> whitespace (hd arg)" "whitespace_law whitespace"
  shows "execute_line whitespace api (w @ '' '' @ arg) sh = call f api arg sh"
  using assms execute_line_split [of w whitespace "'' ''" arg api sh]
  by (auto simp: command_func_def blank_def whitespace_law_def split: option.splits)

lemma lift_InrD: "lift f sh = Inr (r, sh') \<Longrightarrow> f (rocks sh) = Inr (r, rocks sh')"
  by (auto simp: lift_def bindE_eq_Inr)

text \<open>
  C14. With a database open and no batch, if the line \<^verbatim>\<open>write k v\<close> and then the line
  \<^verbatim>\<open>read k\<close> both return 0, the second prints the value that was written, with its length (the
  terminating NUL is stored too and counted).
\<close>

theorem write_then_read:
  assumes "get_law api view" "put_law api view"
    and "db (rocks sh) = Some d" "wr_batch (rocks sh) = None"
    and "solid whitespace k" "k \<noteq> []" "solid whitespace v" "v \<noteq> []" "NUL \<notin> set v"
    and wr: "execute_line whitespace api (''write '' @ k @ '' '' @ v) sh = Inr (0, sh1)"
    and re: "execute_line whitespace api (''read '' @ k) sh1 = Inr (0, sh2)"
    and ws: "whitespace_law whitespace"
  shows "out (rocks sh2) = out (rocks sh1) @ [(Stdout, line (''Found value '' @ v @ '', vallen '' @
           dec_nat (length v + 1) @ '' for key '' @ k))]"
proof -
  note whitespace_def = ws [unfolded whitespace_law_def, rule_format]
  have sp: "CHR '' '' \<notin> set k" "CHR '' '' \<notin> set v"
    using assms(5,7) by (auto simp: solid_def whitespace_def)
  have hd: "\<not> whitespace (hd k)" "solid whitespace ''write''" "solid whitespace ''read''"
    using assms(5,6) by (auto simp: solid_def whitespace_def tab_def)
  have "com_write api (k @ '' '' @ v) sh = Inr (0, sh1)"
    using wr call_found [OF _ _ _ _ ws, of "''write''" Com_write "k @ '' '' @ v" api sh] hd assms(6) by simp
  then have "handle_write api k (v @ [NUL]) (rocks sh) = Inr (0, rocks sh1)"
    using com_write_two_words [OF sp assms(6,8)] lift_InrD by metis
  then have view: "db (rocks sh1) = Some d" "view (world (rocks sh1)) d k = Some (v @ [NUL])"
    using handle_write_put [OF assms(3,4,2)] by auto
  have "com_read api k sh1 = Inr (0, sh2)"
    using re call_found [OF _ _ _ _ ws, of "''read''" Com_read k api sh1] hd by simp
  then have "handle_read api k (rocks sh1) = Inr (0, rocks sh2)"
    using assms(6) by (simp add: com_read_def invalid_argument_def lift_InrD)
  then show ?thesis
    using handle_read_some [OF view(1) assms(1) view(2) assms(9)] by simp
qed

lemma read_loop_finished: "finished sh \<Longrightarrow> read_loop whitespace api ls sh = Inr sh"
  by (cases ls) auto

lemma read_loop_append: "read_loop whitespace api (ls @ ls') sh = bindE (read_loop whitespace api ls sh) (read_loop whitespace api ls')"
  by (induction ls arbitrary: sh) (auto simp: read_loop_finished bindE_def Let_def split: sum.split)

text \<open>
  \<^verbatim>\<open>quit\<close> and \<^verbatim>\<open>exit\<close> end the shell: no line after it is read, whatever the lines
  before it did, and \<^verbatim>\<open>main\<close> returns as it does at the end of the input.
\<close>

theorem quit_ends_shell:
  assumes "w = ''quit'' \<or> w = ''exit''" "whitespace_law whitespace"
  shows "shell_main whitespace api cpus (ls @ w # ls') sh = shell_main whitespace api cpus (ls @ [w]) sh"
proof -
  note ws = assms(2) [unfolded whitespace_law_def, rule_format]
  have q: "stripwhite whitespace w = w" "w \<noteq> []" "solid whitespace w" "command_func w = Some Com_quit"
    using assms(1) stripwhite_trim [of whitespace "[]" "[]" w] by (auto simp: blank_def solid_def ws tab_def)
  have "execute_line whitespace api w sh = Inr (0, sh\<lparr>finished := True\<rparr>)" for sh
    using q execute_line_split [of w whitespace "[]" "[]" api sh] by (auto simp: command_func_def blank_def com_quit_def)
  then have "read_loop whitespace api (w # ls') = read_loop whitespace api [w]"
    using q by (auto simp: read_loop_finished fun_eq_iff)
  then have "read_loop whitespace api (ls @ w # ls') s = read_loop whitespace api (ls @ [w]) s" for s
    by (simp only: read_loop_append)
  then show ?thesis by (simp add: shell_main_def)
qed

section \<open>Completion lists the commands with the prefix\<close>

lemma prefix_take: "take (length t) s = take (length t) t \<longleftrightarrow> prefix t s"
  by (metis append_take_drop_id prefixE prefixI take_all_iff append_eq_conv_conj order_refl)

lemma generate_from_skip:
  "\<forall>c \<in> set pre. \<not> prefix t (name c) \<Longrightarrow>
   generate_from (pre @ cs) i t (length t) = generate_from cs (i + length pre) t (length t)"
  by (induction pre arbitrary: i) (auto simp: prefix_take simp del: take_all_iff take_all)

lemma generate_from_hit:
  "prefix t (name c) \<Longrightarrow> generate_from (c # rest) i t (length t) = (Some (name c), i + 1)"
  by (simp add: prefix_take del: take_all_iff take_all)

lemma completion_matches_from:
  assumes "state = 0 \<longrightarrow> i = 0" "i \<le> length commands" "length commands - i < fuel"
  shows "completion_matches fuel t state (i, length t) =
           filter (prefix t) (map name (drop i commands))"
  using assms
proof (induction fuel arbitrary: state i)
  case (Suc fuel)
  have st: "(if state = 0 then (0, length t) else (i, length t)) = (i, length t)"
    using Suc.prems(1) by auto
  have gen: "command_generator t state (i, length t) =
     (let (r, j) = generate_from (drop i commands) i t (length t) in (r, (j, length t)))"
    unfolding command_generator_def st by simp
  define pre where "pre = takeWhile (\<lambda>c. \<not> prefix t (name c)) (drop i commands)"
  have pre: "\<forall>c \<in> set pre. \<not> prefix t (name c)" "filter (prefix t) (map name pre) = []"
    by (auto simp: pre_def filter_empty_conv dest: set_takeWhileD)
  show ?case
  proof (cases "dropWhile (\<lambda>c. \<not> prefix t (name c)) (drop i commands)")
    case Nil
    then have "drop i commands = pre @ []"
      unfolding pre_def by (metis takeWhile_dropWhile_id)
    then show ?thesis
      using generate_from_skip [OF pre(1), of "[]" i] pre(2) by (simp add: gen)
  next
    case (Cons c rest)
    then have eq: "drop i commands = pre @ c # rest"
      unfolding pre_def by (metis takeWhile_dropWhile_id)
    define j where "j = i + length pre + 1"
    have "length (drop i commands) = length pre + Suc (length rest)" by (simp add: eq)
    then have len: "length commands = i + length pre + Suc (length rest)"
      using Suc.prems(2) by simp
    have rest: "drop j commands = rest"
      using arg_cong [OF eq, of "drop (length pre + 1)"] by (simp add: j_def add.commute)
    have hit: "prefix t (name c)" using Cons by (metis hd_dropWhile list.discI list.sel(1))
    have "command_generator t state (i, length t) = (Some (name c), (j, length t))"
      using generate_from_skip [OF pre(1), of "c # rest" i] hit
      by (simp add: gen eq generate_from_hit j_def del: generate_from.simps)
    moreover have "completion_matches fuel t (state + 1) (j, length t) = filter (prefix t) (map name rest)"
      using Suc.IH [of "state + 1" j] Suc.prems len rest by (simp add: j_def)
    ultimately show ?thesis using pre(2) hit by (simp add: eq)
  qed
qed simp

text \<open>
  Completing the first word of a line offers exactly the command names that start with the
  text, in the order of the table; elsewhere it offers none, whatever an earlier completion left
  in the static variables of the generator.
\<close>

theorem completion_offers_prefixes:
  "rocks_completion t start stop st =
     (if start = 0 then filter (prefix t) (map name commands) else [])"
proof -
  have "completion_matches (Suc n) t 0 st = completion_matches (Suc n) t 0 (0, length t)" for n
    by (simp add: command_generator_def)
  then show ?thesis
    using completion_matches_from [of 0 0 "length commands + 1" t]
    by (simp add: rocks_completion_def del: completion_matches.simps)
qed

section \<open>Witnesses\<close>

definition fresh_shell :: "((nat \<Rightarrow> string \<rightharpoonup> string) \<times> (nat \<Rightarrow> (string \<times> string) list)) shell" where
  "fresh_shell = \<lparr>rocks = fresh_params\<lparr>db := Some 0\<rparr>, finished = False, past = []\<rparr>"

definition blank_or_tab :: "char \<Rightarrow> bool" where
  "blank_or_tab c \<longleftrightarrow> c = CHR '' '' \<or> c = tab"

lemma blank_or_tab_law: "whitespace_law blank_or_tab"
  by (simp add: whitespace_law_def blank_or_tab_def)

theorem line_is_parsed_witness:
  "execute_line blank_or_tab mem_rocksdb (stripwhite blank_or_tab ('' '' @ ''close'' @ '' '' @ ''it'' @ [])) fresh_shell =
     com_close mem_rocksdb ''it'' fresh_shell"
  by (subst line_is_parsed) (simp_all add: solid_def blank_def blank_or_tab_def tab_def find_command_def commands_def)

theorem write_then_read_witness:
  "\<exists>sh1 sh2. execute_line blank_or_tab mem_rocksdb (''write '' @ ''k'' @ '' '' @ ''v'') fresh_shell = Inr (0, sh1) \<and>
     execute_line blank_or_tab mem_rocksdb (''read '' @ ''k'') sh1 = Inr (0, sh2) \<and>
     out (rocks sh2) = out (rocks sh1) @ [(Stdout, line (''Found value '' @ ''v'' @ '', vallen '' @
           dec_nat (length ''v'' + 1) @ '' for key '' @ ''k''))]"
proof -
  note evals = execute_line_def find_command_def commands_def com_write_def com_read_def invalid_argument_def
    strtok_def lift_def handle_write_def handle_read_def mem_rocksdb_def fresh_shell_def fresh_params_def
    blank_or_tab_def tab_def percent_s_def NUL_def
  obtain sh1 where 1: "execute_line blank_or_tab mem_rocksdb (''write '' @ ''k'' @ '' '' @ ''v'') fresh_shell = Inr (0, sh1)"
    by (simp add: evals)
  obtain sh2 where 2: "execute_line blank_or_tab mem_rocksdb (''read '' @ ''k'') sh1 = Inr (0, sh2)"
    using 1 by (auto simp: evals)
  have "db (rocks fresh_shell) = Some 0" "wr_batch (rocks fresh_shell) = None"
    by (simp_all add: fresh_shell_def fresh_params_def)
  moreover have "solid blank_or_tab ''k''" "solid blank_or_tab ''v''" "NUL \<notin> set ''v''"
    by (simp_all add: solid_def blank_or_tab_def tab_def NUL_def)
  ultimately show ?thesis
    using 1 2 write_then_read [OF mem_rocksdb_laws(1,2), of fresh_shell 0 blank_or_tab "''k''" "''v''" sh1 sh2] blank_or_tab_law by blast
qed

theorem quit_ends_shell_witness:
  "shell_main blank_or_tab mem_rocksdb 4 ([''list''] @ ''quit'' # [''list'']) fresh_shell =
   shell_main blank_or_tab mem_rocksdb 4 ([''list''] @ [''quit'']) fresh_shell"
  by (rule quit_ends_shell) (simp_all add: blank_or_tab_law)

end
