(* ===== verification/Packet_Sniffer.thy ===== *)
theory Packet_Sniffer
  imports C_Text
begin

text \<open>
  \<^verbatim>\<open>libpcap/sniffex.c\<close>: the hex dump of a payload, the dissection of a captured packet and
  the main program. A pointer into a packet is the list of the captured bytes from it on, so that
  a read past the capture is a fault; libpcap is a record of the results of its calls. The proofs
  show that the dump is the rows of 16 bytes in order with aligned columns, that the dissector
  stays inside the capture exactly when the length field of the IP header does, and how many
  packets the program prints.
\<close>

section \<open>The hex dump\<close>

definition hex_cell :: "bytes \<Rightarrow> int \<Rightarrow> string cres" where
  "hex_cell payload i =
     bindE (rd payload i) (\<lambda>b. Inr (hex2 b @ '' '' @ (if i = 7 then '' '' else [])))"

definition ascii_cell :: "bytes \<Rightarrow> int \<Rightarrow> string cres" where
  "ascii_cell payload i =
     bindE (rd payload i) (\<lambda>b. Inr (if c_isprint b then [char_of_byte b] else ''.''))"

definition print_hex_ascii_line :: "bytes \<Rightarrow> int \<Rightarrow> int \<Rightarrow> string cres" where
  "print_hex_ascii_line payload len offset =
     bindE (mapE (hex_cell payload) [0..len - 1]) (\<lambda>hex.
     bindE (mapE (ascii_cell payload) [0..len - 1]) (\<lambda>ascii.
     Inr (pad_zero 5 (dec_int offset) @ ''   '' @ concat hex @
          (if len < 8 then '' '' else []) @
          (if len < 16 then concat (replicate (nat (16 - len)) ''   '') else []) @
          ''   '' @ concat ascii @ [newline])))"

lemma smod_16_nonneg: "0 \<le> (16::int) smod n"
  by (cases "n = 0") (simp_all add: signed_modulo_int_def)

lemma c_mod_16: "c_mod 16 n = Inr k \<Longrightarrow> 0 \<le> k \<and> (16 < n \<longrightarrow> k = 16)"
  by (auto simp: c_mod_def smod_16_nonneg smod_nonneg split: if_splits)

text \<open>The loop for a payload of several lines: \<open>ch\<close>, \<open>len_rem\<close> and \<open>offset\<close>.\<close>

function payload_lines :: "bytes \<Rightarrow> int \<Rightarrow> int \<Rightarrow> string cres" where
  "payload_lines ch len_rem offset =
     bindE (c_mod 16 len_rem) (\<lambda>line_len.
     bindE (print_hex_ascii_line ch line_len offset) (\<lambda>row.
     let len_rem = len_rem - line_len;
         ch = drop (nat line_len) ch;
         offset = offset + 16
     in if len_rem \<le> 16 then bindE (print_hex_ascii_line ch len_rem offset) (\<lambda>last_row. Inr (row @ last_row))
        else bindE (payload_lines ch len_rem offset) (\<lambda>rest. Inr (row @ rest))))"
  by pat_completeness auto

termination
proof (relation "measure (\<lambda>(ch, len_rem, offset). nat len_rem)")
  fix ch :: bytes and len_rem offset k :: int and row len' ch' offset'
  assume "c_mod 16 len_rem = Inr k" "print_hex_ascii_line ch k offset = Inr row"
    "len' = len_rem - k" "ch' = drop (nat k) ch" "offset' = offset + 16" "\<not> len' \<le> 16"
  then show "((ch', len', offset'), (ch, len_rem, offset)) \<in> measure (\<lambda>(ch, len_rem, offset). nat len_rem)"
    using c_mod_16 [of len_rem k] by auto
qed simp

declare payload_lines.simps [simp del]

definition print_payload :: "bytes \<Rightarrow> int \<Rightarrow> string cres" where
  "print_payload payload len =
     (if len \<le> 0 then Inr []
      else if len \<le> 16 then print_hex_ascii_line payload len 0
      else payload_lines payload len 0)"

section \<open>The dissector\<close>

definition SIZE_ETHERNET :: nat where "SIZE_ETHERNET = 14"

definition IP_HL :: "u8 \<Rightarrow> int" where "IP_HL vhl = int (unat (vhl AND 0x0f))"

definition TH_OFF :: "u8 \<Rightarrow> int" where "TH_OFF offx2 = int (unat (drop_bit 4 (offx2 AND 0xf0)))"

definition inet_ntoa :: "bytes \<Rightarrow> string" where
  "inet_ntoa bs = dec_nat (unat (bs ! 0)) @ ''.'' @ dec_nat (unat (bs ! 1)) @ ''.'' @
     dec_nat (unat (bs ! 2)) @ ''.'' @ dec_nat (unat (bs ! 3))"

text \<open>The TCP part, from the port lines on.\<close>

definition got_tcp :: "bytes \<Rightarrow> int \<Rightarrow> string cres" where
  "got_tcp packet size_ip =
     (let tcp = SIZE_ETHERNET + nat size_ip in
      bindE (rd packet (int tcp + 12)) (\<lambda>offx2.
      let size_tcp = TH_OFF offx2 * 4 in
      if size_tcp < 20 then Inr (line (''   * Invalid TCP header length: '' @ dec_int size_tcp @ '' bytes''))
      else
      bindE (rd_u16 packet tcp) (\<lambda>sport.
      bindE (rd_u16 packet (tcp + 2)) (\<lambda>dport.
      bindE (rd_u16 packet (SIZE_ETHERNET + 2)) (\<lambda>ip_len.
      let payload = drop (tcp + nat size_tcp) packet;
          size_payload = int (unat (htons ip_len)) - (size_ip + size_tcp);
          ports = line (''   Src port: '' @ dec_nat (unat (htons sport))) @
                  line (''   Dst port: '' @ dec_nat (unat (htons dport)))
      in if size_payload > 0
         then bindE (print_payload payload size_payload) (\<lambda>rows.
              Inr (ports @ line (''   Payload ('' @ dec_int size_payload @ '' bytes):'') @ rows))
         else Inr ports)))))"

definition packet_number :: "int \<Rightarrow> string" where
  "packet_number count = newline # line (''Packet number '' @ dec_int count @ '':'')"

definition got_packet :: "bytes \<Rightarrow> int \<Rightarrow> (string \<times> int) cres" where
  "got_packet packet count =
     bindE (rd packet (int SIZE_ETHERNET)) (\<lambda>vhl.
     let number = packet_number count;
         size_ip = IP_HL vhl * 4
     in if size_ip < 20
        then Inr (number @ line (''   * Invalid IP header length: '' @ dec_int size_ip @ '' bytes''), count + 1)
        else
        bindE (rd_slice packet (SIZE_ETHERNET + 12) 4) (\<lambda>src.
        bindE (rd_slice packet (SIZE_ETHERNET + 16) 4) (\<lambda>dst.
        bindE (rd packet (int SIZE_ETHERNET + 9)) (\<lambda>p.
        bindE (if p = 6 then bindE (got_tcp packet size_ip) (\<lambda>s. Inr (line ''   Protocol: TCP'' @ s))
               else if p = 17 then Inr (line ''   Protocol: UDP'')
               else if p = 1 then Inr (line ''   Protocol: ICMP'')
               else if p = 0 then Inr (line ''   Protocol: IP'')
               else Inr (line ''   Protocol: unknown'')) (\<lambda>s.
        Inr (number @ line (''       From: '' @ inet_ntoa src) @ line (''         To: '' @ inet_ntoa dst) @ s,
             count + 1))))))"

section \<open>The program\<close>

record pcap =
  pcap_lookupdev :: "string + string"                \<comment> \<open>\<open>Inl\<close> the text in \<^verbatim>\<open>errbuf\<close>\<close>
  pcap_lookupnet :: "string \<Rightarrow> string + u32 \<times> u32"
  pcap_open_live :: "string \<Rightarrow> int \<Rightarrow> int \<Rightarrow> int \<Rightarrow> string + nat"
  pcap_datalink :: "nat \<Rightarrow> int"
  pcap_compile :: "nat \<Rightarrow> string \<Rightarrow> int \<Rightarrow> u32 \<Rightarrow> string + nat"
  pcap_setfilter :: "nat \<Rightarrow> nat \<Rightarrow> string option"
  pcap_loop :: "nat \<Rightarrow> nat \<Rightarrow> bytes list"
    \<comment> \<open>the packets handed to the callback for a handle with a filter\<close>

definition SNAP_LEN :: int where "SNAP_LEN = 1518"
definition DLT_EN10MB :: int where "DLT_EN10MB = 1"

definition print_app_banner :: string where
  "print_app_banner = line ''sniffex - Sniffer example using libpcap'' @
     line ''Copyright (c) 2005 The Tcpdump Group'' @
     line ''THERE IS ABSOLUTELY NO WARRANTY FOR THIS PROGRAM.'' @ [newline]"

definition print_app_usage :: string where
  "print_app_usage = line ''Usage: sniffex [interface]'' @ [newline] @ line ''Options:'' @
     line ''    interface    Listen on <interface> for packets.'' @ [newline]"

fun got_packets :: "bytes list \<Rightarrow> int \<Rightarrow> string list cres" where
  "got_packets [] count = Inr []"
| "got_packets (p # ps) count =
     bindE (got_packet p count) (\<lambda>(s, count). bindE (got_packets ps count) (\<lambda>ss. Inr (s # ss)))"

type_synonym printed = "(stream \<times> string) list"

text \<open>The subnet lookup, with its warning, and the lines that describe the capture.\<close>

definition capture_info :: "pcap \<Rightarrow> string \<Rightarrow> printed \<times> u32" where
  "capture_info api dev =
     (let (warn, net) = (case pcap_lookupnet api dev of
            Inl e \<Rightarrow> ([(Stderr, line (''Couldn'' @ [char_of (39 :: nat)] @ ''t get netmask for device '' @ dev @ '': '' @ e))], 0)
          | Inr (net, netmask) \<Rightarrow> ([], net))
      in (warn @ [(Stdout, line (''Device: '' @ dev)), (Stdout, line ''Number of packets: 10''),
                  (Stdout, line ''Filter expression: ip'')], net))"

definition sniff_on :: "pcap \<Rightarrow> string \<Rightarrow> (printed \<times> int) cres" where
  "sniff_on api dev =
     (let (info, net) = capture_info api dev;
          fail = (\<lambda>msg. Inr (info @ [(Stderr, line msg)], 1))
      in case pcap_open_live api dev SNAP_LEN 1 1000 of
           Inl e \<Rightarrow> fail (''Couldn'' @ [char_of (39 :: nat)] @ ''t open device '' @ dev @ '': '' @ e)
         | Inr h \<Rightarrow>
             if pcap_datalink api h \<noteq> DLT_EN10MB then fail (dev @ '' is not an Ethernet'')
             else case pcap_compile api h ''ip'' 0 net of
               Inl e \<Rightarrow> fail (''Couldn'' @ [char_of (39 :: nat)] @ ''t parse filter ip: '' @ e)
             | Inr fp \<Rightarrow>
                (case pcap_setfilter api h fp of
                   Some e \<Rightarrow> fail (''Couldn'' @ [char_of (39 :: nat)] @ ''t install filter ip: '' @ e)
                 | None \<Rightarrow>
                     bindE (got_packets (take 10 (pcap_loop api h fp)) 1) (\<lambda>texts.
                     Inr (info @ map (Pair Stdout) texts @ [(Stdout, newline # line ''Capture complete.'')], 0))))"

definition sniffex_main :: "pcap \<Rightarrow> string list \<Rightarrow> (printed \<times> int) cres" where
  "sniffex_main api argv =
     (let banner = (Stdout, print_app_banner) in
      if length argv = 2 then bindE (sniff_on api (argv ! 1)) (\<lambda>(s, r). Inr (banner # s, r))
      else if length argv > 2
      then Inr ([banner, (Stderr, line ''error: unrecognized command-line options'' @ [newline]),
                 (Stdout, print_app_usage)], 1)
      else case pcap_lookupdev api of
             Inl e \<Rightarrow> Inr ([banner, (Stderr, line (''Couldn'' @ [char_of (39 :: nat)] @ ''t find default device: '' @ e))], 1)
           | Inr dev \<Rightarrow> bindE (sniff_on api dev) (\<lambda>(s, r). Inr (banner # s, r)))"

section \<open>The dump is made of rows\<close>

definition ascii_of :: "u8 \<Rightarrow> char" where
  "ascii_of b = (if c_isprint b then char_of_byte b else CHR ''.'')"

text \<open>A row as it should be: the offset, the bytes in hex with a gap after the eighth, blanks up
  to column 49 of that field, and the characters.\<close>

definition hex_field :: "bytes \<Rightarrow> string" where
  "hex_field bs = concat (map (\<lambda>b. hex2 b @ '' '') (take 8 bs)) @
     (if 8 \<le> length bs then '' '' else []) @ concat (map (\<lambda>b. hex2 b @ '' '') (drop 8 bs))"

definition dump_row :: "int \<Rightarrow> bytes \<Rightarrow> string" where
  "dump_row offset bs =
     pad_zero 5 (dec_int offset) @ ''   '' @ pad_right 49 (hex_field bs) @ ''   '' @ map ascii_of bs @ [newline]"

fun dump_rows :: "int \<Rightarrow> bytes \<Rightarrow> string" where
  "dump_rows offset bs =
     (if bs = [] then [] else dump_row offset (take 16 bs) @ dump_rows (offset + 16) (drop 16 bs))"

declare dump_rows.simps [simp del]

lemma dump_rows_Nil [simp]: "dump_rows offset [] = []"
  by (simp add: dump_rows.simps)

lemma dump_rows_one: "bs \<noteq> [] \<Longrightarrow> length bs \<le> 16 \<Longrightarrow> dump_rows offset bs = dump_row offset bs"
  by (subst dump_rows.simps) simp

lemma length_hex_cells [simp]: "length (concat (map (\<lambda>b. hex2 b @ '' '') bs)) = 3 * length bs"
  by (induction bs) auto

lemma length_hex_field: "length (hex_field bs) = 3 * length bs + (if 8 \<le> length bs then 1 else 0)"
  by (auto simp: hex_field_def min_def)

lemma upto_ints: "[0..int n - 1] = map int [0..<n]"
  by (induction n) (auto simp: upto_rec2)

lemma concat_blanks: "concat (replicate n ''   '') = replicate (3 * n) (CHR '' '')"
  by (induction n) (auto simp: numeral_3_eq_3)

definition hex_text :: "bytes \<Rightarrow> nat \<Rightarrow> string" where
  "hex_text bs i = hex2 (bs ! i) @ '' '' @ (if i = 7 then '' '' else [])"

lemma hex_cells:
  assumes "n \<le> length payload"
  shows "mapE (hex_cell payload) [0..int n - 1] = Inr (map (hex_text payload) [0..<n])"
  using assms unfolding upto_ints
  by (induction n) (auto simp: mapE_append hex_cell_def rd_nat hex_text_def)

lemma ascii_cells:
  assumes "n \<le> length payload"
  shows "mapE (ascii_cell payload) [0..int n - 1] = Inr (map (\<lambda>b. [ascii_of b]) (take n payload))"
  using assms unfolding upto_ints
  by (induction n) (auto simp: mapE_append ascii_cell_def rd_nat ascii_of_def take_Suc_conv_app_nth)

lemma hex_field_snoc:
  "length bs < 16 \<Longrightarrow> hex_field (bs @ [b]) = hex_field bs @ hex2 b @ '' '' @ (if length bs = 7 then '' '' else [])"
  by (auto simp: hex_field_def not_le split: if_splits)

lemma hex_cells_field:
  assumes "n \<le> length payload" "n \<le> 16"
  shows "concat (map (hex_text payload) [0..<n]) = hex_field (take n payload)"
  using assms
proof (induction n)
  case (Suc n)
  then show ?case
    using hex_field_snoc [of "take n payload" "payload ! n"] by (simp add: take_Suc_conv_app_nth hex_text_def)
qed (simp add: hex_field_def)

lemma print_hex_ascii_line_row:
  assumes "n \<le> length payload" "n \<le> 16"
  shows "print_hex_ascii_line payload (int n) offset = Inr (dump_row offset (take n payload))"
proof -
  have fill: "(if int n < 8 then '' '' else []) @
      (if int n < 16 then concat (replicate (nat (16 - int n)) ''   '') else []) @ rest
      = replicate (49 - length (hex_field (take n payload))) (CHR '' '') @ rest" for rest
  proof -
    have "nat (16 - int n) = 16 - n" by simp
    moreover have "CHR '' '' # replicate (3 * (16 - n)) (CHR '' '') = replicate (49 - 3 * n) (CHR '' '')"
      using assms(2) by (simp flip: replicate_Suc)
    ultimately show ?thesis
      using assms by (auto simp: length_hex_field concat_blanks diff_mult_distrib2)
  qed
  have ascii: "concat (map (\<lambda>b. [ascii_of b]) bs) = map ascii_of bs" for bs by (induction bs) auto
  show ?thesis
    unfolding print_hex_ascii_line_def hex_cells [OF assms(1)] ascii_cells [OF assms(1)] bindE_Inr
      hex_cells_field [OF assms] fill ascii
    by (simp add: dump_row_def pad_right_def)
qed

lemma payload_lines_rows:
  assumes "16 < n" "n \<le> length ch"
  shows "payload_lines ch (int n) offset = Inr (dump_rows offset (take n ch))"
  using assms
proof (induction n arbitrary: ch offset rule: less_induct)
  case (less n)
  have m: "c_mod 16 (int n) = Inr 16"
    using less.prems by (simp add: c_mod_def smod_nonneg)
  have row: "print_hex_ascii_line ch 16 offset = Inr (dump_row offset (take 16 ch))"
    using print_hex_ascii_line_row [of 16 ch offset] less.prems by simp
  have rows: "dump_rows offset (take n ch) = dump_row offset (take 16 ch) @ dump_rows (offset + 16) (take (n - 16) (drop 16 ch))"
    using less.prems by (subst dump_rows.simps) (auto simp: drop_take)
  show ?case
  proof (cases "n \<le> 32")
    case True
    have "print_hex_ascii_line (drop 16 ch) (int (n - 16)) (offset + 16) =
        Inr (dump_rows (offset + 16) (take (n - 16) (drop 16 ch)))"
      using print_hex_ascii_line_row [of "n - 16" "drop 16 ch" "offset + 16"] less.prems True
      by (subst dump_rows_one) auto
    then show ?thesis
      using True less.prems by (subst payload_lines.simps) (simp add: Let_def m row rows of_nat_diff)
  next
    case False
    then have "payload_lines (drop 16 ch) (int (n - 16)) (offset + 16) =
        Inr (dump_rows (offset + 16) (take (n - 16) (drop 16 ch)))"
      using less.prems by (intro less.IH) auto
    then show ?thesis
      using False less.prems by (subst payload_lines.simps) (simp add: Let_def m row rows of_nat_diff)
  qed
qed

lemma print_payload_rows:
  assumes "n \<le> length payload"
  shows "print_payload payload (int n) = Inr (dump_rows 0 (take n payload))"
proof -
  consider "n = 0" | "0 < n" "n \<le> 16" | "16 < n" by linarith
  then show ?thesis
  proof cases
    case 1
    then show ?thesis by (simp add: print_payload_def dump_rows.simps)
  next
    case 2
    then show ?thesis
      using print_hex_ascii_line_row [of n payload 0] assms
      by (subst dump_rows_one) (auto simp: print_payload_def)
  next
    case 3
    then show ?thesis using payload_lines_rows [of n payload 0] assms by (simp add: print_payload_def)
  qed
qed

text \<open>
  C24. For a payload that was captured in full, the dump is the rows of its bytes, sixteen to a row
  with the offsets 0, 16, 32 and so on; no byte is missing, repeated or read outside the payload.
  In every row with a five-digit offset the characters start in the same column.
\<close>

theorem print_payload_dump:
  assumes "n \<le> length payload"
  shows "print_payload payload (int n) = Inr (dump_rows 0 (take n payload)) \<and>
    (\<forall>offset bs. offset < 100000 \<longrightarrow> length bs \<le> 16 \<longrightarrow>
       drop 60 (dump_row (int offset) bs) = map ascii_of bs @ [newline])"
proof -
  have "drop 60 (dump_row (int offset) bs) = map ascii_of bs @ [newline]"
    if "offset < 100000" "length bs \<le> 16" for offset bs
  proof -
    have "length (pad_zero 5 (dec_int (int offset))) = 5"
      using length_dec_nat [of offset 5] that(1) by (simp add: dec_int_def length_pad_zero)
    moreover have "length (pad_right 49 (hex_field bs)) = 49"
      using that(2) by (simp add: pad_right_def length_hex_field)
    ultimately show ?thesis by (simp add: dump_row_def)
  qed
  then show ?thesis using print_payload_rows [OF assms] by blast
qed

section \<open>The dissector and the length field\<close>

lemma print_hex_ascii_line_out:
  assumes "length payload < n"
  shows "print_hex_ascii_line payload (int n) offset = Inl OutOfBounds"
proof -
  have "[0..<n] = [0..<length payload] @ length payload # [Suc (length payload)..<n]"
    using assms upt_add_eq_append [of 0 "length payload" "n - length payload"] by (simp add: upt_conv_Cons)
  then have "[0..int n - 1] = [0..int (length payload) - 1] @ int (length payload) # map int [Suc (length payload)..<n]"
    unfolding upto_ints by simp
  moreover have "hex_cell payload (int (length payload)) = Inl OutOfBounds"
    by (simp add: hex_cell_def rd_out)
  ultimately show ?thesis
    by (simp add: print_hex_ascii_line_def mapE_append hex_cells)
qed

lemma payload_lines_out:
  assumes "16 < n" "length ch < n"
  shows "payload_lines ch (int n) offset = Inl OutOfBounds"
  using assms
proof (induction n arbitrary: ch offset rule: less_induct)
  case (less n)
  have m: "c_mod 16 (int n) = Inr 16"
    using less.prems by (simp add: c_mod_def smod_nonneg)
  show ?case
  proof (cases "length ch < 16")
    case True
    then have "print_hex_ascii_line ch 16 offset = Inl OutOfBounds"
      using print_hex_ascii_line_out [of ch 16 offset] by simp
    then show ?thesis by (subst payload_lines.simps) (simp add: m)
  next
    case False
    then have "print_hex_ascii_line ch 16 offset = Inr (dump_row offset (take 16 ch))"
      using print_hex_ascii_line_row [of 16 ch offset] by simp
    moreover have "print_hex_ascii_line (drop 16 ch) (int (n - 16)) (offset + 16) = Inl OutOfBounds"
      using less.prems False by (intro print_hex_ascii_line_out) auto
    moreover have "\<not> n \<le> 32 \<Longrightarrow> payload_lines (drop 16 ch) (int (n - 16)) (offset + 16) = Inl OutOfBounds"
      using less.prems False by (intro less.IH) auto
    ultimately show ?thesis
      using less.prems by (subst payload_lines.simps) (simp add: Let_def m of_nat_diff)
  qed
qed

lemma print_payload_out:
  assumes "length payload < n" shows "print_payload payload (int n) = Inl OutOfBounds"
  using assms print_hex_ascii_line_out [of payload n 0] payload_lines_out [of n payload 0]
  by (auto simp: print_payload_def)

text \<open>A captured TCP packet whose headers are complete, with the lengths its headers state.\<close>

definition tcp_packet :: "bytes \<Rightarrow> nat \<Rightarrow> nat \<Rightarrow> nat \<Rightarrow> bool" where
  "tcp_packet pkt hl tn tot \<longleftrightarrow>
     14 + hl + 20 \<le> length pkt \<and> 20 \<le> hl \<and> 20 \<le> tn \<and>
     IP_HL (pkt ! 14) * 4 = int hl \<and> pkt ! 23 = 6 \<and> TH_OFF (pkt ! (14 + hl + 12)) * 4 = int tn \<and>
     tot = 256 * unat (pkt ! 16) + unat (pkt ! 17)"

lemma htons_pair: "unat (htons (of_nat (unat (a :: u8) + 256 * unat (b :: u8)))) = 256 * unat a + unat b"
proof -
  have "le_bytes 2 (unat a + 256 * unat b) = [a, b]"
    using unat_u8_less [of a] unat_u8_less [of b] by (simp add: le_bytes_2)
  then have "be_bytes 2 (unat (of_nat (unat a + 256 * unat b) :: u16)) = [b, a]"
    by (simp add: be_bytes_def unat_word16 del: of_nat_add of_nat_mult)
  then have "htons (of_nat (unat a + 256 * unat b)) = of_nat (unat b + 256 * unat a)"
    by (simp add: htons_def del: of_nat_add of_nat_mult)
  then show ?thesis using unat_word16 [of b a] by simp
qed

lemma got_tcp_runs:
  assumes "tcp_packet pkt hl tn tot" "hl + tn < tot"
  shows "(\<exists>s. got_tcp pkt (int hl) = Inr s) \<longleftrightarrow> 14 + tot \<le> length pkt"
proof -
  let ?pay = "drop (14 + hl + tn) pkt"
  have off: "rd pkt (int (14 + hl) + 12) = Inr (pkt ! (14 + hl + 12))"
    using assms(1) rd_nat [of "14 + hl + 12" pkt] by (simp add: tcp_packet_def)
  have len: "rd_u16 pkt (14 + 2) = Inr (of_nat (unat (pkt ! 16) + 256 * unat (pkt ! 17)))"
    using assms(1) rd_u16_in [of 16 pkt] by (simp add: tcp_packet_def)
  obtain sp dp where ports: "rd_u16 pkt (14 + hl) = Inr sp" "rd_u16 pkt (14 + hl + 2) = Inr dp"
    using assms(1) rd_u16_in [of "14 + hl" pkt] rd_u16_in [of "14 + hl + 2" pkt] by (auto simp: tcp_packet_def)
  have tn: "TH_OFF (pkt ! (14 + hl + 12)) * 4 = int tn" "20 \<le> tn"
    "int (256 * unat (pkt ! 16) + unat (pkt ! 17)) - (int hl + int tn) = int (tot - (hl + tn))"
    using assms by (auto simp: tcp_packet_def)
  have "(\<exists>s. got_tcp pkt (int hl) = Inr s) \<longleftrightarrow> (\<exists>s. print_payload ?pay (int (tot - (hl + tn))) = Inr s)"
    using tn(2) assms(2) unfolding got_tcp_def SIZE_ETHERNET_def nat_int Let_def off bindE_Inr len ports tn(1) htons_pair tn(3)
    by (auto simp: bindE_eq_Inr)
  also have "\<dots> \<longleftrightarrow> tot - (hl + tn) \<le> length ?pay"
    using print_payload_rows [of "tot - (hl + tn)" ?pay] print_payload_out [of ?pay "tot - (hl + tn)"]
    by (cases "tot - (hl + tn) \<le> length ?pay") auto
  also have "\<dots> \<longleftrightarrow> 14 + tot \<le> length pkt" using assms(2) by auto
  finally show ?thesis .
qed

text \<open>
  C37. For a captured TCP packet with complete headers and a payload, the dissector runs to its end
  exactly when the total length the IP header states fits into the bytes that were captured: a
  length field that is larger makes the hex dump read past the capture, since nothing compares it
  with \<^verbatim>\<open>header->caplen\<close>.
\<close>

theorem got_packet_trusts_length:
  assumes "tcp_packet pkt hl tn tot" and "hl + tn < tot"
  shows "(\<exists>r. got_packet pkt count = Inr r) \<longleftrightarrow> 14 + tot \<le> length pkt"
proof -
  have rds: "rd pkt (int 14) = Inr (pkt ! 14)" "rd pkt (int 14 + 9) = Inr (6 :: u8)"
    "rd_slice pkt (14 + 12) 4 = Inr (take 4 (drop 26 pkt))" "rd_slice pkt (14 + 16) 4 = Inr (take 4 (drop 30 pkt))"
    using assms(1) rd_nat [of 14 pkt] rd_nat [of 23 pkt] by (auto simp: tcp_packet_def rd_slice_def)
  have hl: "IP_HL (pkt ! 14) * 4 = int hl" "\<not> int hl < 20"
    using assms(1) by (auto simp: tcp_packet_def)
  have "(\<exists>r. got_packet pkt count = Inr r) \<longleftrightarrow> (\<exists>s. got_tcp pkt (int hl) = Inr s)"
    unfolding got_packet_def SIZE_ETHERNET_def rds bindE_Inr Let_def hl(1)
    using hl(2) by (auto simp: bindE_eq_Inr)
  then show ?thesis using got_tcp_runs [OF assms] by simp
qed

lemma got_packet_shape: "got_packet p c = Inr r \<Longrightarrow> \<exists>rest. r = (packet_number c @ rest, c + 1)"
  by (auto simp: got_packet_def bindE_eq_Inr Let_def split: if_splits)

lemma got_packets_numbered:
  assumes "\<forall>p \<in> set pkts. 34 \<le> length p \<and> p ! 23 \<noteq> 6"
  shows "\<exists>texts. got_packets pkts count = Inr texts \<and> length texts = length pkts \<and>
     (\<forall>i < length pkts. \<exists>rest. texts ! i =
        packet_number (count + int i) @ rest)"
  using assms
proof (induction pkts arbitrary: count)
  case (Cons p ps)
  have rds: "rd p (int 14) = Inr (p ! 14)" "rd p (int 14 + 9) = Inr (p ! 23)"
    "rd_slice p (14 + 12) 4 = Inr (take 4 (drop 26 p))" "rd_slice p (14 + 16) 4 = Inr (take 4 (drop 30 p))"
    using Cons.prems rd_nat [of 14 p] rd_nat [of 23 p] by (auto simp: rd_slice_def)
  have "\<exists>r. got_packet p count = Inr r"
    using Cons.prems unfolding got_packet_def SIZE_ETHERNET_def rds bindE_Inr Let_def by simp
  then obtain rest where p: "got_packet p count = Inr (packet_number count @ rest, count + 1)"
    using got_packet_shape by blast
  obtain texts where ts: "got_packets ps (count + 1) = Inr texts" "length texts = length ps"
    "\<forall>i < length ps. \<exists>rest. texts ! i =
        packet_number (count + 1 + int i) @ rest"
    using Cons.IH [of "count + 1"] Cons.prems by auto
  have "\<exists>r. ((packet_number count @ rest) # texts) ! i = packet_number (count + int i) @ r"
    if "i < length (p # ps)" for i
    using ts(3) that by (cases i) (auto simp: add.assoc)
  then show ?case using p ts(1,2) by auto
qed simp

text \<open>
  Once the device is open, is an Ethernet device and the filter is installed, the program
  prints the first ten packets that are delivered (fewer if fewer come), numbered from 1 in the
  order of capture, ends with the closing line and exits with 0, provided that they are not TCP
  packets and their IP headers were captured.
\<close>

theorem sniff_prints_ten:
  assumes "pcap_open_live api dev 1518 1 1000 = Inr h" "pcap_datalink api h = 1"
    and "\<forall>net. pcap_compile api h ''ip'' 0 net = Inr fp" "pcap_setfilter api h fp = None"
    and "\<forall>p \<in> set (take 10 (pcap_loop api h fp)). 34 \<le> length p \<and> p ! 23 \<noteq> 6"
  shows "\<exists>info texts. sniff_on api dev =
      Inr (info @ map (Pair Stdout) texts @ [(Stdout, newline # line ''Capture complete.'')], 0) \<and>
      length texts = min 10 (length (pcap_loop api h fp)) \<and>
      (\<forall>i < length texts. \<exists>rest. texts ! i =
         packet_number (1 + int i) @ rest)"
proof -
  obtain texts where "got_packets (take 10 (pcap_loop api h fp)) 1 = Inr texts"
    "length texts = length (take 10 (pcap_loop api h fp))"
    "\<forall>i < length (take 10 (pcap_loop api h fp)). \<exists>rest. texts ! i =
       packet_number (1 + int i) @ rest"
    using got_packets_numbered [OF assms(5), of 1] by blast
  moreover from this(1) have "sniff_on api dev = Inr (fst (capture_info api dev) @ map (Pair Stdout) texts @
      [(Stdout, newline # line ''Capture complete.'')], 0)"
    using assms(1-4) by (simp add: sniff_on_def SNAP_LEN_def DLT_EN10MB_def split_beta)
  ultimately show ?thesis
    by (intro exI [of _ "fst (capture_info api dev)"] exI [of _ texts]) (simp add: min.commute)
qed

section \<open>Witnesses\<close>

theorem print_payload_dump_witness:
  "print_payload [0x47, 0x45, 0x0a] 2 = Inr (dump_rows 0 [0x47, 0x45])"
  using print_payload_dump [of 2 "[0x47, 0x45, 0x0a]"] by simp

text \<open>A packet of 55 bytes whose headers state an IP length of 41 bytes, and the same packet cut
  to 54 bytes.\<close>

definition sample_packet :: bytes where
  "sample_packet = replicate 14 0 @ [0x45, 0, 0, 41, 0, 0, 0, 0, 64, 6] @ replicate 10 0 @
     replicate 12 0 @ [0x50] @ replicate 7 0 @ [0x41]"

theorem got_packet_trusts_length_witness:
  "(\<exists>r. got_packet sample_packet 1 = Inr r) \<and> \<not> (\<exists>r. got_packet (take 54 sample_packet) 1 = Inr r)"
proof -
  have "tcp_packet sample_packet 20 20 41" "tcp_packet (take 54 sample_packet) 20 20 41"
    by code_simp+
  moreover have "length sample_packet = 55" by code_simp
  ultimately show ?thesis
    using got_packet_trusts_length [of sample_packet 20 20 41 1]
      got_packet_trusts_length [of "take 54 sample_packet" 20 20 41 1] by simp
qed

definition sample_pcap :: pcap where
  "sample_pcap = \<lparr>pcap_lookupdev = Inr ''eth0'', pcap_lookupnet = (\<lambda>d. Inr (0, 0)),
     pcap_open_live = (\<lambda>d n p t. Inr 3), pcap_datalink = (\<lambda>h. 1), pcap_compile = (\<lambda>h f o' n. Inr 5),
     pcap_setfilter = (\<lambda>h f. None), pcap_loop = (\<lambda>h f. replicate 12 (replicate 34 0))\<rparr>"

theorem sniff_prints_ten_witness:
  "\<exists>info texts. sniff_on sample_pcap ''eth0'' =
      Inr (info @ map (Pair Stdout) texts @ [(Stdout, newline # line ''Capture complete.'')], 0) \<and> length texts = 10"
  using sniff_prints_ten [of sample_pcap "''eth0''" 3 5] by (fastforce simp: sample_pcap_def)

end
