(* ===== verification/Count_Threads.thy ===== *)
theory Count_Threads
  imports C_Text
begin

text \<open>
  \<^verbatim>\<open>pthread_wait/main.c\<close>: two threads that count under a mutex and one that waits on a
  condition variable. A state has the shared variables, the program counter of every thread and
  of \<^verbatim>\<open>main\<close>, and what was printed; each thread is a function that takes its next atomic step
  or is blocked, and the step relation interleaves them in any order, with the spurious wake-ups
  POSIX allows. The proofs give the invariant of all reachable states (mutual exclusion, the value
  of the counter, no lost wake-up), that no reachable state is stuck, that every schedule ends,
  and the two values the counter can end with.
\<close>

section \<open>The threads\<close>

datatype inc_id = T2 | T3

instantiation inc_id :: enum
begin

definition "enum_inc_id = [T2, T3]"
definition "enum_all_inc_id P \<longleftrightarrow> P T2 \<and> P T3"
definition "enum_ex_inc_id P \<longleftrightarrow> P T2 \<or> P T3"

instance
proof
  show univ: "(UNIV :: inc_id set) = set enum_class.enum"
    using inc_id.exhaust by (auto simp: enum_inc_id_def)
  show "distinct (enum_class.enum :: inc_id list)" by (simp add: enum_inc_id_def)
  fix P :: "inc_id \<Rightarrow> bool"
  show "enum_class.enum_all P \<longleftrightarrow> Ball UNIV P"
    unfolding univ by (simp add: enum_inc_id_def enum_all_inc_id_def)
  show "enum_class.enum_ex P \<longleftrightarrow> Bex UNIV P"
    unfolding univ by (simp add: enum_inc_id_def enum_ex_inc_id_def)
qed

end

datatype thread = Watch | Inc inc_id

datatype wpc =
    W_none | W_start | W_lock
  | W_test     \<comment> \<open>at the loop condition, holding the mutex\<close>
  | W_wait     \<comment> \<open>blocked in \<^verbatim>\<open>pthread_cond_wait\<close>, the mutex released\<close>
  | W_relock   \<comment> \<open>woken, the mutex not yet taken again\<close>
  | W_woken | W_unlock | W_exit

datatype ipc = I_none | I_for | I_lock | I_incr | I_check | I_unlock | I_sleep | I_exit

datatype mpc = M_create nat | M_join nat | M_exit

record cstate =
  count :: int
  mutex :: "thread option"
  wpc :: wpc
  ipc :: "inc_id \<Rightarrow> ipc"
  idx :: "inc_id \<Rightarrow> int"
  mpc :: mpc
  out :: "string list"

definition NUM_THREADS :: nat where "NUM_THREADS = 3"
definition TCOUNT :: int where "TCOUNT = 10"
definition COUNT_LIMIT :: int where "COUNT_LIMIT = 12"

definition my_id :: "thread \<Rightarrow> int" where
  "my_id t = (case t of Watch \<Rightarrow> 1 | Inc T2 \<Rightarrow> 2 | Inc T3 \<Rightarrow> 3)"

definition init_state :: cstate where
  "init_state = \<lparr>count = 0, mutex = None, wpc = W_none, ipc = (\<lambda>_. I_none), idx = (\<lambda>_. 0),
     mpc = M_create 0, out = []\<rparr>"

definition pthread_cond_signal :: "cstate \<Rightarrow> cstate" where
  "pthread_cond_signal s = (if wpc s = W_wait then s\<lparr>wpc := W_relock\<rparr> else s)"

text \<open>\<^verbatim>\<open>pthread_mutex_lock\<close> followed by the update \<open>f\<close>: blocked while the mutex is held.\<close>

definition locking :: "thread \<Rightarrow> (cstate \<Rightarrow> cstate) \<Rightarrow> cstate \<Rightarrow> cstate option" where
  "locking t f s = (if mutex s = None then Some (f (s\<lparr>mutex := Some t\<rparr>)) else None)"

definition inc_count :: "inc_id \<Rightarrow> cstate \<Rightarrow> cstate option" where
  "inc_count t s =
     (let goto = (\<lambda>p s. s\<lparr>ipc := (ipc s)(t := p)\<rparr>);
          text = (\<lambda>rest. ''inc_count(): thread '' @ dec_int (my_id (Inc t)) @ '', count = '' @ dec_int (count s) @ rest)
      in case ipc s t of
           I_none \<Rightarrow> None
         | I_for \<Rightarrow> Some (if idx s t < TCOUNT then goto I_lock s else goto I_exit s)
         | I_lock \<Rightarrow> locking (Inc t) (goto I_incr) s
         | I_incr \<Rightarrow> Some (goto I_check (s\<lparr>count := count s + 1\<rparr>))
         | I_check \<Rightarrow> Some (goto I_unlock
             (if count s = COUNT_LIMIT
              then (pthread_cond_signal s)\<lparr>out := out s @ [text ''  Threshold reached.'']\<rparr> else s))
         | I_unlock \<Rightarrow> Some (goto I_sleep (s\<lparr>out := out s @ [text '', unlocking mutex''], mutex := None\<rparr>))
         | I_sleep \<Rightarrow> Some (goto I_for (s\<lparr>idx := (idx s)(t := idx s t + 1)\<rparr>))
         | I_exit \<Rightarrow> None)"

definition watch_count :: "cstate \<Rightarrow> cstate option" where
  "watch_count s =
     (case wpc s of
        W_none \<Rightarrow> None
      | W_start \<Rightarrow> Some (s\<lparr>wpc := W_lock, out := out s @ [''Starting watch_count(): thread '' @ dec_int (my_id Watch)]\<rparr>)
      | W_lock \<Rightarrow> locking Watch (\<lambda>s. s\<lparr>wpc := W_test\<rparr>) s
      | W_test \<Rightarrow> Some (if count s < COUNT_LIMIT then s\<lparr>wpc := W_wait, mutex := None\<rparr> else s\<lparr>wpc := W_unlock\<rparr>)
      | W_wait \<Rightarrow> None
      | W_relock \<Rightarrow> locking Watch (\<lambda>s. s\<lparr>wpc := W_woken\<rparr>) s
      | W_woken \<Rightarrow> Some (s\<lparr>wpc := W_test, count := count s + 125,
          out := out s @ [''watch_count(): thread '' @ dec_int (my_id Watch) @ '' Condition signal received.'',
            ''watch_count(): thread '' @ dec_int (my_id Watch) @ '' count now = '' @ dec_int (count s + 125) @ ''.'']\<rparr>)
      | W_unlock \<Rightarrow> Some (s\<lparr>wpc := W_exit, mutex := None\<rparr>)
      | W_exit \<Rightarrow> None)"

definition exited :: "cstate \<Rightarrow> nat \<Rightarrow> bool" where
  "exited s i \<longleftrightarrow> (if i = 0 then wpc s = W_exit else if i = 1 then ipc s T2 = I_exit else ipc s T3 = I_exit)"

definition main_thread :: "cstate \<Rightarrow> cstate option" where
  "main_thread s =
     (case mpc s of
        M_create i \<Rightarrow>
          if i = 0 then Some (s\<lparr>wpc := W_start, mpc := M_create 1\<rparr>)
          else if i = 1 then Some (s\<lparr>ipc := (ipc s)(T2 := I_for), mpc := M_create 2\<rparr>)
          else Some (s\<lparr>ipc := (ipc s)(T3 := I_for), mpc := M_join 0\<rparr>)
      | M_join i \<Rightarrow>
          if i < NUM_THREADS then if exited s i then Some (s\<lparr>mpc := M_join (i + 1)\<rparr>) else None
          else Some (s\<lparr>mpc := M_exit, out := out s @ [''Main(): Waited on 3  threads. Done.'']\<rparr>)
      | M_exit \<Rightarrow> None)"

definition spurious_wakeup :: "cstate \<Rightarrow> cstate option" where
  "spurious_wakeup s = (if wpc s = W_wait then Some (s\<lparr>wpc := W_relock\<rparr>) else None)"

inductive step :: "cstate \<Rightarrow> cstate \<Rightarrow> bool" where
  main: "main_thread s = Some s' \<Longrightarrow> step s s'"
| watch: "watch_count s = Some s' \<Longrightarrow> step s s'"
| inc: "inc_count t s = Some s' \<Longrightarrow> step s s'"
| spurious: "spurious_wakeup s = Some s' \<Longrightarrow> step s s'"

inductive reachable :: "nat \<Rightarrow> cstate \<Rightarrow> bool" where
  init: "reachable 0 init_state"
| step: "reachable n s \<Longrightarrow> step s s' \<Longrightarrow> reachable (Suc n) s'"

inductive_cases reachable_SucE: "reachable (Suc n) s"

section \<open>The invariant\<close>

fun w_critical :: "wpc \<Rightarrow> bool" where
  "w_critical W_test = True" | "w_critical W_woken = True" | "w_critical W_unlock = True" | "w_critical _ = False"

fun i_critical :: "ipc \<Rightarrow> bool" where
  "i_critical I_incr = True" | "i_critical I_check = True" | "i_critical I_unlock = True" | "i_critical _ = False"

text \<open>The increments a counting thread has made, and all of them.\<close>

fun pending :: "ipc \<Rightarrow> int" where
  "pending I_check = 1" | "pending I_unlock = 1" | "pending I_sleep = 1" | "pending _ = 0"

definition made :: "cstate \<Rightarrow> inc_id \<Rightarrow> int" where
  "made s t = idx s t + pending (ipc s t)"

definition increments :: "cstate \<Rightarrow> int" where
  "increments s = made s T2 + made s T3"

fun idx_ok :: "ipc \<Rightarrow> int \<Rightarrow> bool" where
  "idx_ok I_none i \<longleftrightarrow> i = 0"
| "idx_ok I_for i \<longleftrightarrow> 0 \<le> i \<and> i \<le> 10"
| "idx_ok I_exit i \<longleftrightarrow> i = 10"
| "idx_ok _ i \<longleftrightarrow> 0 \<le> i \<and> i < 10"

definition inc_ok :: "cstate \<Rightarrow> inc_id \<Rightarrow> bool" where
  "inc_ok s t \<longleftrightarrow> idx_ok (ipc s t) (idx s t) \<and> (mutex s = Some (Inc t) \<longleftrightarrow> i_critical (ipc s t))"

text \<open>The counter \<open>c\<close> against the increments \<open>n\<close>, by the position of the watcher; \<open>sig\<close> says
  that a counting thread is about to test for the limit.\<close>

fun count_ok :: "wpc \<Rightarrow> int \<Rightarrow> int \<Rightarrow> bool \<Rightarrow> bool" where
  "count_ok W_test c n sig \<longleftrightarrow> c = n \<or> c = n + 125"
| "count_ok W_wait c n sig \<longleftrightarrow> c = n \<and> (n < 12 \<or> n = 12 \<and> sig)"
| "count_ok W_unlock c n sig \<longleftrightarrow> (c = n \<or> c = n + 125) \<and> 12 \<le> c"
| "count_ok W_exit c n sig \<longleftrightarrow> (c = n \<or> c = n + 125) \<and> 12 \<le> c"
| "count_ok _ c n sig \<longleftrightarrow> c = n"

definition watch_ok :: "cstate \<Rightarrow> bool" where
  "watch_ok s \<longleftrightarrow> (mutex s = Some Watch \<longleftrightarrow> w_critical (wpc s)) \<and>
     count_ok (wpc s) (count s) (increments s) (ipc s T2 = I_check \<or> ipc s T3 = I_check)"

definition main_ok :: "cstate \<Rightarrow> bool" where
  "main_ok s \<longleftrightarrow>
     (case mpc s of
        M_create i \<Rightarrow> i \<le> 2 \<and> (wpc s = W_none \<longleftrightarrow> i = 0) \<and> (ipc s T2 = I_none \<longleftrightarrow> i \<le> 1) \<and> ipc s T3 = I_none
      | M_join i \<Rightarrow> i \<le> NUM_THREADS \<and> wpc s \<noteq> W_none \<and> ipc s T2 \<noteq> I_none \<and> ipc s T3 \<noteq> I_none \<and> (\<forall>j < i. exited s j)
      | M_exit \<Rightarrow> wpc s \<noteq> W_none \<and> ipc s T2 \<noteq> I_none \<and> ipc s T3 \<noteq> I_none \<and> (\<forall>j < NUM_THREADS. exited s j))"

definition thread_inv :: "cstate \<Rightarrow> bool" where
  "thread_inv s \<longleftrightarrow> inc_ok s T2 \<and> inc_ok s T3 \<and> watch_ok s \<and> main_ok s"

lemmas const_defs = TCOUNT_def COUNT_LIMIT_def NUM_THREADS_def
lemmas inv_defs = thread_inv_def inc_ok_def watch_ok_def increments_def made_def const_defs
lemmas thread_defs = inc_count_def watch_count_def locking_def pthread_cond_signal_def spurious_wakeup_def

lemma init_inv: "thread_inv init_state"
  by (simp add: inv_defs main_ok_def init_state_def)

lemma count_ok_signal: "count_ok p c n sig \<Longrightarrow> c \<noteq> 12 \<or> p \<noteq> W_wait \<Longrightarrow> count_ok p c n False"
  by (cases p) auto

lemma count_ok_incr: "count_ok p c n False \<Longrightarrow> \<not> w_critical p \<Longrightarrow> count_ok p (1 + c) (1 + n) True"
  by (cases p) auto

lemma inc_count_inc:
  assumes "inc_count t s = Some s'" "inc_ok s t"
  shows "inc_ok s' t"
  using assms
  by (cases "ipc s t") (auto simp: inc_ok_def thread_defs Let_def const_defs split: if_splits)

lemma inc_count_other:
  assumes "inc_count t s = Some s'" "inc_ok s t" "inc_ok s u" "u \<noteq> t"
  shows "inc_ok s' u"
  using assms
  by (cases "ipc s t") (auto simp: inc_ok_def thread_defs Let_def const_defs split: if_splits)

fun other :: "inc_id \<Rightarrow> inc_id" where
  "other T2 = T3" | "other T3 = T2"

lemma other_neq [simp]: "other t \<noteq> t" "t \<noteq> other t"
  by (cases t; simp)+

text \<open>The watcher's part of the invariant, seen from either counting thread.\<close>

lemma watch_ok_from:
  "watch_ok s \<longleftrightarrow> (mutex s = Some Watch \<longleftrightarrow> w_critical (wpc s)) \<and>
     count_ok (wpc s) (count s) (idx s t + pending (ipc s t) + (idx s (other t) + pending (ipc s (other t))))
       (ipc s t = I_check \<or> ipc s (other t) = I_check)"
  by (cases t) (auto simp: watch_ok_def increments_def made_def add.commute disj_commute)

lemma exclusive:
  assumes "inc_ok s t" "inc_ok s (other t)" "watch_ok s" "i_critical (ipc s t)"
  shows "\<not> i_critical (ipc s (other t))" "\<not> w_critical (wpc s)" "ipc s (other t) \<noteq> I_check"
  using assms by (auto simp: inc_ok_def watch_ok_def)

lemma inc_count_watch:
  assumes "inc_count t s = Some s'" "inc_ok s t" "inc_ok s (other t)" "watch_ok s"
  shows "watch_ok s'"
proof (cases "ipc s t")
  case I_incr
  then have "\<not> w_critical (wpc s)" "ipc s (other t) \<noteq> I_check"
    using assms exclusive [of s t] by auto
  then show ?thesis
    using assms I_incr
      count_ok_incr [of "wpc s" "count s" "idx s t + (idx s (other t) + pending (ipc s (other t)))"]
    unfolding watch_ok_from [of _ t] by (auto simp: inc_ok_def thread_defs ac_simps)
next
  case I_check
  then have "\<not> w_critical (wpc s)" "ipc s (other t) \<noteq> I_check"
    using assms exclusive [of s t] by auto
  then show ?thesis
    using assms I_check count_ok_signal unfolding watch_ok_from [of _ t]
    by (cases "wpc s = W_wait") (auto simp: inc_ok_def thread_defs const_defs split: if_splits)
qed (use assms in \<open>auto simp: watch_ok_from [of _ t] inc_ok_def thread_defs Let_def split: if_splits\<close>)

lemma watch_count_inc:
  assumes "watch_count s = Some s'" "watch_ok s" "inc_ok s t"
  shows "inc_ok s' t"
  using assms
  by (cases "wpc s") (auto simp: inc_ok_def watch_ok_def thread_defs split: if_splits)

lemma idx_ok_range: "idx_ok p i \<Longrightarrow> 0 \<le> i + pending p \<and> i + pending p \<le> 10"
  by (cases p) auto

lemma increments_range: "inc_ok s T2 \<Longrightarrow> inc_ok s T3 \<Longrightarrow> 0 \<le> increments s \<and> increments s \<le> 20"
  using idx_ok_range [of "ipc s T2" "idx s T2"] idx_ok_range [of "ipc s T3" "idx s T3"]
  by (simp add: inc_ok_def increments_def made_def)

lemma watch_count_watch:
  assumes "watch_count s = Some s'" "watch_ok s" "0 \<le> increments s"
  shows "watch_ok s'"
proof -
  have "increments s' = increments s" "ipc s' = ipc s"
    using assms(1) by (cases "wpc s"; auto simp: increments_def made_def thread_defs split: if_splits)+
  then show ?thesis
    using assms
    by (cases "wpc s") (auto simp: watch_ok_def thread_defs const_defs split: if_splits)
qed

lemma spurious_ok:
  assumes "spurious_wakeup s = Some s'" "watch_ok s" "inc_ok s T2" "inc_ok s T3"
  shows "watch_ok s'" "inc_ok s' T2" "inc_ok s' T3"
  using assms by (auto simp: inv_defs thread_defs split: if_splits)

lemma main_thread_threads:
  assumes "main_thread s = Some s'" "inc_ok s T2" "inc_ok s T3" "watch_ok s" "main_ok s"
  shows "watch_ok s' \<and> inc_ok s' T2 \<and> inc_ok s' T3"
  using assms
  by (cases "mpc s")
    (auto simp: inc_ok_def watch_ok_def increments_def made_def main_thread_def main_ok_def split: if_splits)

lemma exited_upd [simp]: "exited (s\<lparr>mpc := m\<rparr>) i = exited s i" "exited (s\<lparr>mpc := m, out := o'\<rparr>) i = exited s i"
  by (simp_all add: exited_def)

lemma main_thread_main: "main_thread s = Some s' \<Longrightarrow> main_ok s \<Longrightarrow> main_ok s'"
  by (cases "mpc s") (auto simp: main_thread_def main_ok_def less_Suc_eq const_defs split: if_splits)

text \<open>Neither creates nor revives a thread: what \<^verbatim>\<open>main\<close> relies on.\<close>

definition keeps :: "cstate \<Rightarrow> cstate \<Rightarrow> bool" where
  "keeps s s' \<longleftrightarrow> mpc s' = mpc s \<and> (wpc s' = W_none \<longleftrightarrow> wpc s = W_none) \<and>
     (\<forall>t. ipc s' t = I_none \<longleftrightarrow> ipc s t = I_none) \<and> (\<forall>i. exited s i \<longrightarrow> exited s' i)"

lemma keeps_main_ok: "keeps s s' \<Longrightarrow> main_ok s \<Longrightarrow> main_ok s'"
  by (auto simp: keeps_def main_ok_def split: mpc.splits)

lemma watch_count_keeps: "watch_count s = Some s' \<Longrightarrow> keeps s s'"
  by (cases "wpc s") (auto simp: keeps_def exited_def thread_defs split: if_splits)

lemma spurious_keeps: "spurious_wakeup s = Some s' \<Longrightarrow> keeps s s'"
  by (auto simp: keeps_def exited_def thread_defs split: if_splits)

lemma inc_count_keeps: "inc_count t s = Some s' \<Longrightarrow> keeps s s'"
  by (cases "ipc s t") (auto simp: keeps_def exited_def thread_defs Let_def split: if_splits)

lemma step_inv: "step s s' \<Longrightarrow> thread_inv s \<Longrightarrow> thread_inv s'"
proof (induction rule: step.induct)
  case (main s s')
  then show ?case using main_thread_threads main_thread_main unfolding thread_inv_def by blast
next
  case (watch s s')
  then show ?case using watch_count_watch watch_count_inc increments_range watch_count_keeps keeps_main_ok unfolding thread_inv_def by blast
next
  case (inc t s s')
  then have oks: "inc_ok s t" "inc_ok s (other t)" by (cases t; simp add: thread_inv_def)+
  then have "inc_ok s' t" "inc_ok s' (other t)" "watch_ok s'"
    using inc inc_count_inc inc_count_other [of t s s' "other t"] inc_count_watch
    by (auto simp: thread_inv_def)
  then show ?case
    using inc keeps_main_ok [OF inc_count_keeps [OF inc.hyps]] by (cases t) (auto simp: thread_inv_def)
next
  case (spurious s s')
  then show ?case using spurious_ok spurious_keeps keeps_main_ok unfolding thread_inv_def by blast
qed

lemma reachable_inv: "reachable n s \<Longrightarrow> thread_inv s"
  by (induction rule: reachable.induct) (auto intro: init_inv step_inv)

section \<open>Progress and termination\<close>

lemma inc_count_runs:
  assumes "mutex s = None \<or> mutex s = Some (Inc t)" "inc_ok s t" "ipc s t \<noteq> I_none" "ipc s t \<noteq> I_exit"
  shows "\<exists>s'. inc_count t s = Some s'"
  using assms by (cases "ipc s t") (auto simp: inc_ok_def thread_defs)

lemma watch_count_runs:
  assumes "mutex s = None \<or> mutex s = Some Watch" "watch_ok s" "wpc s \<notin> {W_none, W_wait, W_exit}"
  shows "\<exists>s'. watch_count s = Some s'"
  using assms by (cases "wpc s") (auto simp: watch_ok_def thread_defs)

lemma main_thread_runs:
  assumes "mpc s \<noteq> M_exit" "\<forall>i. (\<exists>k. mpc s = M_create k) \<or> exited s i"
  shows "\<exists>s'. main_thread s = Some s'"
  using assms by (cases "mpc s") (auto simp: main_thread_def)

lemma watcher_not_left:
  assumes "thread_inv s" "ipc s T2 = I_exit" "ipc s T3 = I_exit"
  shows "wpc s \<noteq> W_wait"
  using assms by (auto simp: inv_defs)

lemma inv_progress:
  assumes inv: "thread_inv s" and run: "mpc s \<noteq> M_exit"
  shows "\<exists>s'. main_thread s = Some s' \<or> watch_count s = Some s' \<or> (\<exists>t. inc_count t s = Some s')"
proof (cases "mutex s")
  case (Some t)
  then show ?thesis
  proof (cases t)
    case Watch
    then have "w_critical (wpc s)" using inv Some by (simp add: thread_inv_def watch_ok_def)
    then have "wpc s \<notin> {W_none, W_wait, W_exit}" by auto
    then show ?thesis using watch_count_runs [of s] inv Some Watch by (auto simp: thread_inv_def)
  next
    case (Inc u)
    have "inc_ok s u" using inv by (cases u) (auto simp: thread_inv_def)
    moreover from this have "i_critical (ipc s u)" using Some Inc by (simp add: inc_ok_def)
    moreover from this have "ipc s u \<noteq> I_none" "ipc s u \<noteq> I_exit" by auto
    ultimately show ?thesis using inc_count_runs [of s u] Some Inc by auto
  qed
next
  case None
  show ?thesis
  proof (cases "(\<exists>k. mpc s = M_create k) \<or> (ipc s T2 = I_exit \<and> ipc s T3 = I_exit \<and> wpc s = W_exit)")
    case True
    then have "\<forall>i. (\<exists>k. mpc s = M_create k) \<or> exited s i" by (auto simp: exited_def)
    then show ?thesis using main_thread_runs [of s] run by blast
  next
    case False
    then have created: "wpc s \<noteq> W_none" "ipc s T2 \<noteq> I_none" "ipc s T3 \<noteq> I_none"
      using inv by (auto simp: thread_inv_def main_ok_def split: mpc.splits)
    then show ?thesis
      using False None inv watcher_not_left [OF inv] watch_count_runs [of s] inc_count_runs [of s T2]
        inc_count_runs [of s T3]
      by (auto simp: thread_inv_def)
  qed
qed

fun rank_w :: "wpc \<Rightarrow> int \<Rightarrow> nat" where
  "rank_w W_none c = 9" | "rank_w W_start c = 8" | "rank_w W_lock c = 7"
| "rank_w W_test c = (if c < 12 then 6 else 2)"
| "rank_w W_wait c = 5" | "rank_w W_relock c = 4" | "rank_w W_woken c = 3" | "rank_w W_unlock c = 1" | "rank_w W_exit c = 0"

fun rank_i :: "ipc \<Rightarrow> int \<Rightarrow> nat" where
  "rank_i I_none i = 62" | "rank_i I_for i = nat (61 - 6 * i)" | "rank_i I_lock i = nat (60 - 6 * i)"
| "rank_i I_incr i = nat (59 - 6 * i)" | "rank_i I_check i = nat (58 - 6 * i)" | "rank_i I_unlock i = nat (57 - 6 * i)"
| "rank_i I_sleep i = nat (56 - 6 * i)" | "rank_i I_exit i = 0"

fun rank_m :: "mpc \<Rightarrow> nat" where
  "rank_m (M_create i) = 7 - i" | "rank_m (M_join i) = 4 - i" | "rank_m M_exit = 0"

definition rank :: "cstate \<Rightarrow> nat" where
  "rank s = rank_m (mpc s) + rank_w (wpc s) (count s) + rank_i (ipc s T2) (idx s T2) + rank_i (ipc s T3) (idx s T3)"

lemma inc_count_rank:
  assumes "inc_count t s = Some s'" "inc_ok s t"
  shows "rank_i (ipc s' t) (idx s' t) < rank_i (ipc s t) (idx s t) \<and>
    ipc s' (other t) = ipc s (other t) \<and> idx s' (other t) = idx s (other t) \<and> mpc s' = mpc s \<and>
    rank_w (wpc s') (count s') \<le> rank_w (wpc s) (count s)"
  using assms
  by (cases "ipc s t"; cases "wpc s") (auto simp: inc_ok_def thread_defs Let_def const_defs split: if_splits)

lemma watch_count_rank:
  assumes "watch_count s = Some s'" "watch_ok s" "0 \<le> increments s"
  shows "rank s' < rank s"
  using assms by (cases "wpc s") (auto simp: watch_ok_def rank_def thread_defs const_defs split: if_splits)

lemma main_thread_rank: "main_thread s = Some s' \<Longrightarrow> thread_inv s \<Longrightarrow> rank s' < rank s"
  by (cases "mpc s") (auto simp: thread_inv_def inc_ok_def main_ok_def rank_def main_thread_def const_defs split: if_splits)

lemma step_rank: "step s s' \<Longrightarrow> thread_inv s \<Longrightarrow> rank s' < rank s"
proof (induction rule: step.induct)
  case (inc t s s')
  then have "inc_ok s t" by (cases t) (auto simp: thread_inv_def)
  then show ?case using inc_count_rank [OF inc.hyps] by (cases t) (auto simp: rank_def)
next
  case (watch s s')
  then show ?case using watch_count_rank increments_range by (auto simp: thread_inv_def)
next
  case (main s s')
  then show ?case by (rule main_thread_rank)
qed (auto simp: spurious_wakeup_def rank_def split: if_splits)

lemma reachable_rank: "reachable n s \<Longrightarrow> n + rank s \<le> 140"
proof (induction rule: reachable.induct)
  case init
  then show ?case by (simp add: rank_def init_state_def)
next
  case (step n s s')
  then show ?case using step_rank [of s s'] reachable_inv [of n s] by simp
qed

section \<open>The properties\<close>

text \<open>
  C6. Mutual exclusion: in every state that any interleaving of the three threads, with any
  spurious wake-ups, can reach, at most one thread is between its lock and its unlock.
\<close>

theorem mutual_exclusion:
  assumes "reachable n s"
  shows "\<not> (i_critical (ipc s T2) \<and> i_critical (ipc s T3)) \<and>
    (w_critical (wpc s) \<longrightarrow> \<not> i_critical (ipc s T2) \<and> \<not> i_critical (ipc s T3))"
  using reachable_inv [OF assms] exclusive(1,2) [of s T2] exclusive(2) [of s T3] by (auto simp: thread_inv_def)

text \<open>
  C22. No wake-up is lost: whenever the watcher is blocked on the condition variable, either the
  counter is still below the limit, or it just reached it and a counting thread is about to signal
  while it still holds the mutex.
\<close>

theorem no_lost_wakeup:
  assumes "reachable n s" and "wpc s = W_wait"
  shows "count s < COUNT_LIMIT \<or> (count s = COUNT_LIMIT \<and>
    (\<exists>t. ipc s t = I_check \<and> mutex s = Some (Inc t) \<and>
         (\<forall>s'. inc_count t s = Some s' \<longrightarrow> wpc s' = W_relock)))"
proof -
  have inv: "thread_inv s" by (rule reachable_inv [OF assms(1)])
  then have c: "count_ok W_wait (count s) (increments s) (ipc s T2 = I_check \<or> ipc s T3 = I_check)"
    using assms(2) by (auto simp: thread_inv_def watch_ok_def)
  have "mutex s = Some (Inc t) \<and> (\<forall>s'. inc_count t s = Some s' \<longrightarrow> wpc s' = W_relock)"
    if "ipc s t = I_check" "count s = 12" for t
  proof -
    have "inc_ok s t" using inv by (cases t) (auto simp: thread_inv_def)
    then show ?thesis using that assms(2) by (auto simp: inc_ok_def thread_defs const_defs)
  qed
  then show ?thesis using c by (auto simp: const_defs)
qed

text \<open>
  C21. No deadlock: as long as \<^verbatim>\<open>main\<close> has not returned from its joins, some thread can take a
  step, without relying on a spurious wake-up.
\<close>

theorem no_deadlock:
  assumes "reachable n s" and "mpc s \<noteq> M_exit"
  shows "\<exists>s'. main_thread s = Some s' \<or> watch_count s = Some s' \<or> (\<exists>t. inc_count t s = Some s')"
  using inv_progress [OF reachable_inv [OF assms(1)] assms(2)] .

text \<open>
  C23. Every schedule ends: no execution takes more than 140 steps, and one that can take no more has
  \<^verbatim>\<open>main\<close> past its joins, all threads exited, and the counter at 20 (the watcher came too late
  to wait) or at 145 (it waited and added 125 once).
\<close>

theorem schedules_end:
  assumes "reachable n s"
  shows "n \<le> 140 \<and> ((\<forall>s'. \<not> step s s') \<longrightarrow>
    mpc s = M_exit \<and> wpc s = W_exit \<and> (\<forall>t. ipc s t = I_exit) \<and> count s \<in> {20, 145})"
proof -
  have inv: "thread_inv s" by (rule reachable_inv [OF assms])
  have "mpc s = M_exit \<and> wpc s = W_exit \<and> (\<forall>t. ipc s t = I_exit) \<and> count s \<in> {20, 145}"
    if stop: "\<forall>s'. \<not> step s s'"
  proof -
    have m: "mpc s = M_exit" using inv_progress [OF inv] stop step.intros by blast
    then have ex: "\<forall>j < 3. exited s j" using inv by (simp add: thread_inv_def main_ok_def const_defs)
    have "wpc s = W_exit" "ipc s T2 = I_exit" "ipc s T3 = I_exit"
      using ex [rule_format, of 0] ex [rule_format, of 1] ex [rule_format, of 2] by (simp_all add: exited_def)
    moreover from this have "count s \<in> {20, 145}" using inv by (auto simp: inv_defs)
    ultimately show ?thesis using m inc_id.exhaust by metis
  qed
  then show ?thesis using reachable_rank [OF assms] by auto
qed

section \<open>Schedules that reach both results\<close>

datatype tick = Main | Run thread | Spurious

fun take_tick :: "tick \<Rightarrow> cstate \<Rightarrow> cstate option" where
  "take_tick Main s = main_thread s"
| "take_tick (Run Watch) s = watch_count s"
| "take_tick (Run (Inc t)) s = inc_count t s"
| "take_tick Spurious s = spurious_wakeup s"

fun run_schedule :: "tick list \<Rightarrow> cstate \<Rightarrow> cstate option" where
  "run_schedule [] s = Some s"
| "run_schedule (t # ts) s = (case take_tick t s of None \<Rightarrow> None | Some s' \<Rightarrow> run_schedule ts s')"

lemma tick_step: "take_tick t s = Some s' \<Longrightarrow> step s s'"
  by (induction t s rule: take_tick.induct) (auto intro: step.intros)

lemma run_schedule_reachable:
  "run_schedule ts s = Some s' \<Longrightarrow> reachable n s \<Longrightarrow> reachable (n + length ts) s'"
proof (induction ts arbitrary: n s)
  case (Cons t ts)
  then obtain s1 where s1: "take_tick t s = Some s1" "run_schedule ts s1 = Some s'"
    by (auto split: option.splits)
  then have "reachable (Suc n) s1" using Cons.prems(2) reachable.step tick_step by blast
  then show ?case using Cons.IH [OF s1(2)] by fastforce
qed simp

lemma run_schedule_append:
  "run_schedule (ts @ us) s = (case run_schedule ts s of None \<Rightarrow> None | Some s' \<Rightarrow> run_schedule us s')"
  by (induction ts arbitrary: s) (auto split: option.splits)

lemma replicate_6: "replicate 6 x = [x, x, x, x, x, x]"
  by (simp add: eval_nat_numeral)

text \<open>A thread that runs its loop \<open>k\<close> times with nobody in its way, and then to its exit.\<close>

definition rounds :: "inc_id \<Rightarrow> nat \<Rightarrow> tick list" where
  "rounds t k = concat (replicate k (replicate 6 (Run (Inc t))))"

lemma one_round:
  assumes "ipc s t = I_for" "idx s t < 10" "mutex s = None"
  shows "\<exists>s'. run_schedule (replicate 6 (Run (Inc t))) s = Some s' \<and> count s' = count s + 1 \<and>
    idx s' t = idx s t + 1 \<and> (\<forall>u. u \<noteq> t \<longrightarrow> idx s' u = idx s u) \<and> ipc s' = ipc s \<and> mutex s' = None \<and> mpc s' = mpc s \<and>
    wpc s' = (if count s = 11 \<and> wpc s = W_wait then W_relock else wpc s)"
  using assms by (auto simp: replicate_6 inc_count_def locking_def pthread_cond_signal_def const_defs fun_upd_idem)

lemma many_rounds:
  assumes "ipc s t = I_for" "idx s t + int k \<le> 10" "mutex s = None"
  shows "\<exists>s'. run_schedule (rounds t k) s = Some s' \<and> count s' = count s + int k \<and>
    idx s' t = idx s t + int k \<and> (\<forall>u. u \<noteq> t \<longrightarrow> idx s' u = idx s u) \<and> ipc s' = ipc s \<and> mutex s' = None \<and> mpc s' = mpc s \<and>
    wpc s' = (if wpc s = W_wait \<and> count s \<le> 11 \<and> 12 \<le> count s + int k then W_relock else wpc s)"
  using assms
proof (induction k arbitrary: s)
  case (Suc k)
  obtain s1 where s1: "run_schedule (replicate 6 (Run (Inc t))) s = Some s1" "count s1 = count s + 1"
    "idx s1 t = idx s t + 1" "\<forall>u. u \<noteq> t \<longrightarrow> idx s1 u = idx s u" "ipc s1 = ipc s" "mutex s1 = None" "mpc s1 = mpc s"
    "wpc s1 = (if count s = 11 \<and> wpc s = W_wait then W_relock else wpc s)"
    using one_round [of s t] Suc.prems by auto
  obtain s2 where "run_schedule (rounds t k) s1 = Some s2" "count s2 = count s1 + int k"
    "idx s2 t = idx s1 t + int k" "\<forall>u. u \<noteq> t \<longrightarrow> idx s2 u = idx s1 u" "ipc s2 = ipc s1" "mutex s2 = None" "mpc s2 = mpc s1"
    "wpc s2 = (if wpc s1 = W_wait \<and> count s1 \<le> 11 \<and> 12 \<le> count s1 + int k then W_relock else wpc s1)"
    using Suc.IH [of s1] Suc.prems s1 by auto
  then show ?case using s1 by (auto simp: rounds_def run_schedule_append)
qed (auto simp: rounds_def fun_upd_idem)

definition counting :: "inc_id \<Rightarrow> tick list" where
  "counting t = rounds t 10 @ [Run (Inc t)]"

lemma counting_runs:
  assumes "ipc s t = I_for" "idx s t = 0" "mutex s = None"
  shows "\<exists>s'. run_schedule (counting t) s = Some s' \<and> count s' = count s + 10 \<and> mutex s' = None \<and>
    (\<forall>u. u \<noteq> t \<longrightarrow> idx s' u = idx s u) \<and> ipc s' = (ipc s)(t := I_exit) \<and> mpc s' = mpc s \<and>
    wpc s' = (if wpc s = W_wait \<and> count s \<le> 11 \<and> 2 \<le> count s then W_relock else wpc s)"
  using many_rounds [of s t 10] assms
  by (auto simp: counting_def run_schedule_append inc_count_def const_defs)

lemma both_count:
  assumes "ipc s T2 = I_for" "ipc s T3 = I_for" "idx s = (\<lambda>_. 0)" "mutex s = None" "count s = 0"
  shows "\<exists>s'. run_schedule (counting T2 @ counting T3) s = Some s' \<and> count s' = 20 \<and> mutex s' = None \<and>
    (\<forall>t. ipc s' t = I_exit) \<and> mpc s' = mpc s \<and> wpc s' = (if wpc s = W_wait then W_relock else wpc s)"
proof -
  obtain s1 where s1: "run_schedule (counting T2) s = Some s1" "count s1 = 10" "mutex s1 = None"
    "idx s1 T3 = idx s T3" "ipc s1 = (ipc s)(T2 := I_exit)" "mpc s1 = mpc s" "wpc s1 = wpc s"
    using counting_runs [of s T2] assms by auto
  obtain s2 where s2: "run_schedule (counting T3) s1 = Some s2" "count s2 = 20" "mutex s2 = None"
    "ipc s2 = (ipc s1)(T3 := I_exit)" "mpc s2 = mpc s1" "wpc s2 = (if wpc s1 = W_wait then W_relock else wpc s1)"
    using counting_runs [of s1 T3] assms s1 by auto
  have "ipc s2 t = I_exit" for t using s1(5) s2(4) by (cases t) auto
  then show ?thesis using s1 s2 by (auto simp: run_schedule_append)
qed

text \<open>The watcher waits first, or starts only when all counting is done.\<close>

definition watch_first :: "tick list" where
  "watch_first = [Main, Main, Main, Run Watch, Run Watch, Run Watch] @ (counting T2 @ counting T3) @
     [Run Watch, Run Watch, Run Watch, Run Watch, Main, Main, Main, Main]"

definition watch_last :: "tick list" where
  "watch_last = [Main, Main, Main] @ (counting T2 @ counting T3) @
     [Run Watch, Run Watch, Run Watch, Run Watch, Main, Main, Main, Main]"

lemmas tick_defs = main_thread_def watch_count_def locking_def exited_def const_defs

lemma watch_first_result:
  "\<exists>s. run_schedule watch_first init_state = Some s \<and> count s = 145 \<and> mpc s = M_exit"
proof -
  obtain s1 where s1: "run_schedule [Main, Main, Main, Run Watch, Run Watch, Run Watch] init_state = Some s1"
    "ipc s1 T2 = I_for" "ipc s1 T3 = I_for" "idx s1 = (\<lambda>_. 0)" "mutex s1 = None" "count s1 = 0"
    "wpc s1 = W_wait" "mpc s1 = M_join 0"
    by (simp add: init_state_def tick_defs)
  then obtain s2 where "run_schedule (counting T2 @ counting T3) s1 = Some s2" "count s2 = 20" "mutex s2 = None"
    "\<forall>t. ipc s2 t = I_exit" "mpc s2 = M_join 0" "wpc s2 = W_relock"
    using both_count [of s1] by auto
  moreover from this(1) s1(1) have "run_schedule watch_first init_state =
      run_schedule [Run Watch, Run Watch, Run Watch, Run Watch, Main, Main, Main, Main] s2"
    by (simp only: watch_first_def run_schedule_append option.case)
  ultimately show ?thesis by (simp add: tick_defs)
qed

lemma watch_last_result:
  "\<exists>s. run_schedule watch_last init_state = Some s \<and> count s = 20 \<and> mpc s = M_exit"
proof -
  obtain s1 where s1: "run_schedule [Main, Main, Main] init_state = Some s1"
    "ipc s1 T2 = I_for" "ipc s1 T3 = I_for" "idx s1 = (\<lambda>_. 0)" "mutex s1 = None" "count s1 = 0"
    "wpc s1 = W_start" "mpc s1 = M_join 0"
    by (simp add: init_state_def tick_defs)
  then obtain s2 where "run_schedule (counting T2 @ counting T3) s1 = Some s2" "count s2 = 20" "mutex s2 = None"
    "\<forall>t. ipc s2 t = I_exit" "mpc s2 = M_join 0" "wpc s2 = W_start"
    using both_count [of s1] by auto
  moreover from this(1) s1(1) have "run_schedule watch_last init_state =
      run_schedule [Run Watch, Run Watch, Run Watch, Run Watch, Main, Main, Main, Main] s2"
    by (simp only: watch_last_def run_schedule_append option.case)
  ultimately show ?thesis by (simp add: tick_defs)
qed

text \<open>
  Both results occur: a schedule in which the watcher waits before any counting ends with the
  counter at 145, one in which it is run last ends with 20, although every thread does the same
  work in both.
\<close>

theorem both_results_occur:
  "(\<exists>n s. reachable n s \<and> mpc s = M_exit \<and> count s = 145) \<and>
   (\<exists>n s. reachable n s \<and> mpc s = M_exit \<and> count s = 20)"
  using watch_first_result watch_last_result run_schedule_reachable [OF _ reachable.init] by blast

definition waiting_state :: cstate where
  "waiting_state = the (run_schedule (replicate 3 Main @ replicate 3 (Run Watch)) init_state)"

lemma waiting_state_reachable:
  "reachable 6 waiting_state" "wpc waiting_state = W_wait" "mpc waiting_state = M_join 0"
proof -
  have "(run_schedule (replicate 3 Main @ replicate 3 (Run Watch)) init_state) \<noteq> None" by code_simp
  then show "reachable 6 waiting_state"
    using run_schedule_reachable [of "replicate 3 Main @ replicate 3 (Run Watch)" init_state waiting_state 0]
      reachable.init by (simp add: waiting_state_def)
  show "wpc waiting_state = W_wait" by code_simp
  show "mpc waiting_state = M_join 0" by code_simp
qed

theorem mutual_exclusion_witness:
  "reachable 6 waiting_state \<and> \<not> (i_critical (ipc waiting_state T2) \<and> i_critical (ipc waiting_state T3))"
  using mutual_exclusion [OF waiting_state_reachable(1)] waiting_state_reachable(1) by blast

theorem no_lost_wakeup_witness:
  "wpc waiting_state = W_wait \<and>
   (count waiting_state < COUNT_LIMIT \<or> (\<exists>t. mutex waiting_state = Some (Inc t)))"
  using no_lost_wakeup [OF waiting_state_reachable(1,2)] waiting_state_reachable(2) by auto

theorem no_deadlock_witness:
  "\<exists>s'. main_thread waiting_state = Some s' \<or> watch_count waiting_state = Some s' \<or>
     (\<exists>t. inc_count t waiting_state = Some s')"
proof -
  have "mpc waiting_state \<noteq> M_exit" by (simp add: waiting_state_reachable(3))
  then show ?thesis by (rule no_deadlock [OF waiting_state_reachable(1)])
qed

lemma main_exit_stuck:
  assumes "thread_inv s" "mpc s = M_exit"
  shows "\<not> step s s'"
proof -
  have ex: "\<forall>j < 3. exited s j" using assms by (simp add: thread_inv_def main_ok_def const_defs)
  have "wpc s = W_exit" "ipc s T2 = I_exit" "ipc s T3 = I_exit"
    using ex [rule_format, of 0] ex [rule_format, of 1] ex [rule_format, of 2] by (simp_all add: exited_def)
  moreover from this have "ipc s t = I_exit" for t by (cases t) auto
  ultimately show ?thesis
    using assms(2) by (auto simp: step.simps main_thread_def thread_defs)
qed

theorem schedules_end_witness:
  "\<exists>n s. reachable n s \<and> n \<le> 140 \<and> wpc s = W_exit \<and> count s \<in> {20, 145}"
proof -
  obtain s where s: "run_schedule watch_first init_state = Some s" "mpc s = M_exit"
    using watch_first_result by blast
  then have r: "reachable (0 + length watch_first) s"
    using run_schedule_reachable [OF _ reachable.init] by blast
  then have "\<forall>s'. \<not> step s s'" using main_exit_stuck [OF reachable_inv [OF r] s(2)] by blast
  then show ?thesis using schedules_end [OF r] r by blast
qed

end
