(* ===== verification/Event_Loop.thy ===== *)
theory Event_Loop
  imports C_Text
begin

text \<open>
  What the five client/server pairs of the repository share. Each of them registers callbacks
  with libevent and then lets \<^verbatim>\<open>event_base_dispatch\<close> call them. libevent is not modelled: an
  execution is a list of the events it delivers, in any order, with what the system calls of
  the callback returned; signals that no callback is registered for end the process, as is their
  default action. The locale \<open>rate_counter\<close> is the contract of the messages-per-second counter
  every server keeps, proved once and interpreted by each server. The clients all measure round
  trips with the same \<^verbatim>\<open>timespec_diff\<close>.
\<close>

section \<open>Time stamps\<close>

record timespec =
  tv_sec :: int
  tv_nsec :: int

definition BILLION :: int where "BILLION = 1000000000"

definition in_long :: "int \<Rightarrow> bool" where
  "in_long x \<longleftrightarrow> -9223372036854775808 \<le> x \<and> x \<le> 9223372036854775807"

definition l_sub :: "int \<Rightarrow> int \<Rightarrow> int cres" where
  "l_sub a b = (if in_long (a - b) then Inr (a - b) else Inl SignedOverflow)"

definition l_add :: "int \<Rightarrow> int \<Rightarrow> int cres" where
  "l_add a b = (if in_long (a + b) then Inr (a + b) else Inl SignedOverflow)"

text \<open>The result of \<^verbatim>\<open>timespec_diff\<close>: the returned flag and \<^verbatim>\<open>*result\<close>.\<close>

definition timespec_diff :: "timespec \<Rightarrow> timespec \<Rightarrow> (int \<times> timespec) cres" where
  "timespec_diff stop start =
     bindE (if tv_nsec stop < tv_nsec start then
              bindE (l_add BILLION (tv_nsec stop)) (\<lambda>n. bindE (l_sub n (tv_nsec start)) (\<lambda>n.
              bindE (l_sub (tv_sec stop) (tv_sec start)) (\<lambda>s. bindE (l_sub s 1) (\<lambda>s.
              Inr \<lparr>tv_sec = s, tv_nsec = n\<rparr>))))
            else
              bindE (l_sub (tv_nsec stop) (tv_nsec start)) (\<lambda>n.
              bindE (l_sub (tv_sec stop) (tv_sec start)) (\<lambda>s.
              Inr \<lparr>tv_sec = s, tv_nsec = n\<rparr>))) (\<lambda>result.
     Inr (if tv_sec stop < tv_sec start then 1 else 0, result))"

text \<open>\<^verbatim>\<open>struct timespec\<close> in memory: two little-endian 64-bit words.\<close>

definition long_bytes :: "int \<Rightarrow> bytes" where
  "long_bytes x = le_bytes 8 (unat (word_of_int x :: u64))"

definition bytes_long :: "bytes \<Rightarrow> int" where
  "bytes_long bs = sint (of_nat (le_val bs) :: u64)"

definition timespec_bytes :: "timespec \<Rightarrow> bytes" where
  "timespec_bytes t = long_bytes (tv_sec t) @ long_bytes (tv_nsec t)"

definition bytes_timespec :: "bytes \<Rightarrow> timespec" where
  "bytes_timespec bs = \<lparr>tv_sec = bytes_long (take 8 bs), tv_nsec = bytes_long (take 8 (drop 8 bs))\<rparr>"

text \<open>What \<^verbatim>\<open>clock_gettime\<close> yields: nanoseconds below a second, and a second that is far from
  the ends of the 64-bit range.\<close>

definition clock_value :: "timespec \<Rightarrow> bool" where
  "clock_value t \<longleftrightarrow> 0 \<le> tv_nsec t \<and> tv_nsec t < BILLION \<and>
     -4611686018427387904 \<le> tv_sec t \<and> tv_sec t < 4611686018427387904"

definition nanos :: "timespec \<Rightarrow> int" where
  "nanos t = tv_sec t * BILLION + tv_nsec t"

lemma length_long_bytes [simp]: "length (long_bytes x) = 8"
  by (simp add: long_bytes_def)

lemma length_timespec_bytes [simp]: "length (timespec_bytes t) = 16"
  by (simp add: timespec_bytes_def)

lemma bytes_long_long_bytes:
  assumes "in_long x" shows "bytes_long (long_bytes x) = x"
proof -
  have "unat (word_of_int x :: u64) < 256 ^ 8"
    using unsigned_less [of "word_of_int x :: u64"] by simp
  then have "le_val (long_bytes x) = unat (word_of_int x :: u64)"
    by (simp add: long_bytes_def le_val_le_bytes)
  then have "bytes_long (long_bytes x) = sint (word_of_int x :: u64)"
    by (simp add: bytes_long_def)
  also have "\<dots> = x"
    using assms by (simp add: sint_sbintrunc' signed_take_bit_int_eq_self in_long_def)
  finally show ?thesis .
qed

lemma clock_value_in_long: "clock_value t \<Longrightarrow> in_long (tv_sec t) \<and> in_long (tv_nsec t)"
  by (auto simp: clock_value_def in_long_def BILLION_def)

lemma bytes_timespec_bytes: "clock_value t \<Longrightarrow> bytes_timespec (timespec_bytes t) = t"
  using clock_value_in_long [of t] by (simp add: bytes_timespec_def timespec_bytes_def bytes_long_long_bytes)

lemma timespec_diff_value:
  assumes "clock_value stop" "clock_value start"
  shows "\<exists>r. timespec_diff stop start = Inr (if tv_sec stop < tv_sec start then 1 else 0, r) \<and>
     nanos r = nanos stop - nanos start \<and> 0 \<le> tv_nsec r \<and> tv_nsec r < BILLION"
  using assms
  by (auto simp: timespec_diff_def l_sub_def l_add_def in_long_def clock_value_def nanos_def BILLION_def algebra_simps)

text \<open>
  For two clock values the result is their exact difference in nanoseconds, with the
  nanosecond field in range. The flag that the comment calls \<^verbatim>\<open>1 if result is negative\<close> is 1
  exactly when the difference is negative and the seconds differ: for two times in the same second
  it is 0 even when the difference is negative.
\<close>

theorem timespec_diff_correct:
  assumes "clock_value stop" "clock_value start"
  shows "\<exists>flag r. timespec_diff stop start = Inr (flag, r) \<and>
     nanos r = nanos stop - nanos start \<and> 0 \<le> tv_nsec r \<and> tv_nsec r < BILLION \<and>
     (flag = 1 \<longleftrightarrow> nanos r < 0 \<and> tv_sec stop \<noteq> tv_sec start) \<and> (flag = 0 \<or> flag = 1)"
proof -
  obtain r where r: "timespec_diff stop start = Inr (if tv_sec stop < tv_sec start then 1 else 0, r)"
    "nanos r = nanos stop - nanos start" "0 \<le> tv_nsec r" "tv_nsec r < BILLION"
    using timespec_diff_value [OF assms] by blast
  have "tv_sec stop < tv_sec start \<longleftrightarrow> nanos r < 0 \<and> tv_sec stop \<noteq> tv_sec start"
    using r(2) assms by (auto simp: nanos_def clock_value_def BILLION_def)
  then show ?thesis using r by auto
qed

theorem timespec_diff_correct_witness:
  "\<exists>r. timespec_diff \<lparr>tv_sec = 5, tv_nsec = 1\<rparr> \<lparr>tv_sec = 5, tv_nsec = 3\<rparr> = Inr (0, r) \<and> nanos r = -2"
proof -
  have "clock_value \<lparr>tv_sec = 5, tv_nsec = 1\<rparr>" "clock_value \<lparr>tv_sec = 5, tv_nsec = 3\<rparr>"
    by (simp_all add: clock_value_def BILLION_def)
  then show ?thesis using timespec_diff_correct by (fastforce simp: nanos_def)
qed

section \<open>Delivery of events\<close>

definition SIGINT :: int where "SIGINT = 2"
definition SIGTERM :: int where "SIGTERM = 15"

datatype 'e event = Fire 'e | Signal int

text \<open>How \<^verbatim>\<open>event_base_dispatch\<close> came to its end: a callback broke the loop, a signal without
  a callback ended the process, or the delivered events are used up.\<close>

datatype stop = Broken | Killed int | Idle

datatype 's reply = Continue 's | Break 's

text \<open>\<open>sigs\<close> are the signals with a callback; \<open>on_sig\<close> and \<open>handle\<close> are the callbacks.\<close>

fun dispatch :: "int list \<Rightarrow> (int \<Rightarrow> 's \<Rightarrow> 's) \<Rightarrow> ('e \<Rightarrow> 's \<Rightarrow> 's reply cres) \<Rightarrow> 'e event list \<Rightarrow> 's \<Rightarrow> (stop \<times> 's) cres" where
  "dispatch sigs on_sig handle [] s = Inr (Idle, s)"
| "dispatch sigs on_sig handle (Signal n # es) s =
     (if n \<in> set sigs then Inr (Broken, on_sig n s) else Inr (Killed n, s))"
| "dispatch sigs on_sig handle (Fire e # es) s =
     bindE (handle e s) (\<lambda>r. case r of Continue s \<Rightarrow> dispatch sigs on_sig handle es s | Break s \<Rightarrow> Inr (Broken, s))"

text \<open>The same for \<^verbatim>\<open>main\<close>, which returns 0 after its clean-up when the loop was broken.\<close>

datatype ending = Returned int | Killed_by int | Waiting

fun main_ending :: "stop \<Rightarrow> ending" where
  "main_ending Broken = Returned 0" | "main_ending (Killed n) = Killed_by n" | "main_ending Idle = Waiting"

section \<open>The contract of the rate counters\<close>

text \<open>
  \<open>pps\<close> and \<open>sec\<close> read the counters of a server state, \<open>count k\<close> records \<open>k\<close> messages and
  \<open>tick\<close> is the callback of the one-second timer, which prints the second and the count.
\<close>

locale rate_counter =
  fixes pps :: "'s \<Rightarrow> int" and sec :: "'s \<Rightarrow> int" and printed :: "'s \<Rightarrow> (int \<times> int) list"
    and count :: "int \<Rightarrow> 's \<Rightarrow> 's" and tick :: "'s \<Rightarrow> 's"
  assumes count_pps: "pps (count k s) = pps s + k"
    and count_sec: "sec (count k s) = sec s"
    and count_printed: "printed (count k s) = printed s"
    and tick_pps: "pps (tick s) = 0"
    and tick_sec: "sec (tick s) = sec s + 1"
    and tick_printed: "printed (tick s) = printed s @ [(sec s, pps s)]"
begin

lemmas counter_laws = count_pps count_sec count_printed tick_pps tick_sec tick_printed

text \<open>A history of counted messages (\<open>Some k\<close>) and timer ticks (\<open>None\<close>).\<close>

fun play :: "int option list \<Rightarrow> 's \<Rightarrow> 's" where
  "play [] s = s"
| "play (Some k # h) s = play h (count k s)"
| "play (None # h) s = play h (tick s)"

lemma play_conserves:
  "sum_list (map snd (printed (play h s))) + pps (play h s) =
   sum_list (map snd (printed s)) + pps s + sum_list (map (\<lambda>e. case e of None \<Rightarrow> 0 | Some k \<Rightarrow> k) h)"
  by (induction h s rule: play.induct) (simp_all add: counter_laws)

lemma play_seconds:
  "map fst (printed (play h s)) = map fst (printed s) @ [sec s..sec (play h s) - 1] \<and> sec s \<le> sec (play h s)"
proof (induction h s rule: play.induct)
  case (3 h s)
  then show ?case
    by (auto simp: counter_laws upto_rec1 [of "sec s" "sec (play h (tick s)) - 1"])
qed (simp_all add: counter_laws)

text \<open>The counters after a history depend on the counters before it alone.\<close>

lemma play_cong:
  "pps s = pps t \<Longrightarrow> sec s = sec t \<Longrightarrow> printed s = printed t \<Longrightarrow>
   pps (play h s) = pps (play h t) \<and> sec (play h s) = sec (play h t) \<and> printed (play h s) = printed (play h t)"
proof (induction h arbitrary: s t)
  case (Cons e h)
  then show ?case by (cases e) (simp_all add: counter_laws)
qed simp

lemma play_append: "play (h @ h') s = play h' (play h s)"
  by (induction h s rule: play.induct) simp_all

end

lemma dispatch_fires_signal:
  assumes "dispatch sigs on_sig handle (map Fire es) s = Inr (Idle, s')"
  shows "dispatch sigs on_sig handle (map Fire es @ Signal n # rest) s =
    Inr (if n \<in> set sigs then (Broken, on_sig n s') else (Killed n, s'))"
  using assms
proof (induction es arbitrary: s)
  case (Cons e es)
  then show ?case by (cases "handle e s") (auto split: reply.splits)
qed simp

end
