(* ===== verification/Udp_Echo.thy ===== *)
theory Udp_Echo
  imports Event_Loop
begin

text \<open>
  The datagram programs: \<^verbatim>\<open>client_server/udp\<close> (a client that measures round trips one by
  one and an echo server) and \<^verbatim>\<open>client_server/msg_hdr\<close> (a client that averages, and a server
  that receives and answers up to 32 datagrams in one system call). The results of the system
  calls are arguments of the callbacks. The servers' counters meet the contract \<open>rate_counter\<close>;
  the servers echo, and the batch server answers with the whole of its buffer.
\<close>

section \<open>The UDP server\<close>

type_synonym addr = "u32 \<times> u16"

text \<open>What \<^verbatim>\<open>recvfrom\<close> met: an error, or a datagram and its sender.\<close>

datatype recv = Recv_err | Recv bytes addr

record server_context =
  at_second :: int
  message_per_second :: int
  printed :: "(int \<times> int) list"
  replies :: "(bytes \<times> addr) list"
  errors :: "string list"

definition server_start :: server_context where
  "server_start = \<lparr>at_second = 0, message_per_second = 0, printed = [], replies = [], errors = []\<rparr>"

definition perror :: "string \<Rightarrow> server_context \<Rightarrow> server_context" where
  "perror s ctx = ctx\<lparr>errors := errors ctx @ [s]\<rparr>"

definition on_perf :: "server_context \<Rightarrow> server_context" where
  "on_perf ctx = ctx\<lparr>printed := printed ctx @ [(at_second ctx, message_per_second ctx)],
     at_second := at_second ctx + 1, message_per_second := 0\<rparr>"

definition perf_text :: "int \<times> int \<Rightarrow> string" where
  "perf_text p = line (pad_left 4 (dec_int (fst p)) @ '' '' @ pad_left 8 (dec_int (snd p)))"

definition count_messages :: "int \<Rightarrow> server_context \<Rightarrow> server_context" where
  "count_messages k ctx = ctx\<lparr>message_per_second := message_per_second ctx + k\<rparr>"

text \<open>\<open>sent\<close> says whether \<^verbatim>\<open>sendto\<close> succeeded; the buffer holds 1024 bytes of a datagram.\<close>

definition on_read :: "recv \<Rightarrow> bool \<Rightarrow> server_context \<Rightarrow> server_context" where
  "on_read r sent ctx =
     (case r of
        Recv_err \<Rightarrow> perror ''recvfrom'' ctx
      | Recv bs remote \<Rightarrow>
          let buf = take 1024 bs;
              ctx = count_messages 1 ctx
          in if sent then ctx\<lparr>replies := replies ctx @ [(buf, remote)]\<rparr> else perror ''sendto'' ctx)"

record socket_env =
  new_socket :: int                       \<comment> \<open>the result of \<^verbatim>\<open>socket\<close>\<close>
  bind_result :: "addr \<Rightarrow> int"
  inet_addr :: "string \<Rightarrow> u32"            \<comment> \<open>in network byte order, as a little-endian word\<close>
  add_membership :: "u32 \<Rightarrow> int"

definition create_server_socket :: "socket_env \<Rightarrow> u16 \<Rightarrow> server_context \<Rightarrow> int \<times> server_context" where
  "create_server_socket env port ctx =
     (let s = new_socket env;
          ctx = (if s < 0 then perror ''create socket server'' ctx else ctx);
          res = bind_result env (htonl 0, htons port);
          ctx = (if res < 0 then perror ''bind socket'' ctx else ctx)
      in (s, ctx))"

definition subcribe_to_multicast_group :: "socket_env \<Rightarrow> string \<Rightarrow> server_context \<Rightarrow> server_context cres" where
  "subcribe_to_multicast_group env grp ctx =
     (if add_membership env (inet_addr env grp) < 0 then Inl (ExitProcess 1) else Inr ctx)"

definition net_ip__is_multicast_ip :: "socket_env \<Rightarrow> string \<Rightarrow> bool" where
  "net_ip__is_multicast_ip env ip_address =
     (let i = int (unat (inet_addr env ip_address AND 0xFF)) in i \<ge> 224 \<and> i \<le> 239)"

datatype server_event = Readable recv bool | One_second

fun server_callback :: "server_event \<Rightarrow> server_context \<Rightarrow> server_context reply cres" where
  "server_callback (Readable r sent) ctx = Inr (Continue (on_read r sent ctx))"
| "server_callback One_second ctx = Inr (Continue (on_perf ctx))"

definition handle_signal :: "int \<Rightarrow> 's \<Rightarrow> 's" where
  "handle_signal n s = s"

text \<open>Both servers register their one signal callback for \<^verbatim>\<open>SIGINT|SIGTERM\<close>.\<close>

definition registered_signals :: "int list" where
  "registered_signals = [SIGINT OR SIGTERM]"

definition udp_server_main :: "socket_env \<Rightarrow> string list \<Rightarrow> server_event event list \<Rightarrow> (ending \<times> server_context) cres" where
  "udp_server_main env argv evs =
     (let (s, ctx) = create_server_socket env 12345 server_start in
      bindE (if length argv > 1 \<and> net_ip__is_multicast_ip env (argv ! 1)
             then subcribe_to_multicast_group env (argv ! 1) ctx else Inr ctx) (\<lambda>ctx.
      bindE (dispatch registered_signals handle_signal server_callback evs ctx) (\<lambda>(stop, ctx).
      Inr (main_ending stop, ctx))))"

section \<open>The UDP client\<close>

record client_context =
  server_addr :: addr
  sent :: "bytes list"
  latencies :: "string list"
  client_errors :: "string list"

text \<open>\<open>ts\<close> is what \<^verbatim>\<open>clock_gettime\<close> yields, \<open>ok\<close> whether \<^verbatim>\<open>sendto\<close> succeeds.\<close>

definition send_to_addr :: "timespec \<Rightarrow> bool \<Rightarrow> client_context \<Rightarrow> client_context" where
  "send_to_addr ts ok ctx =
     (if ok then ctx\<lparr>sent := sent ctx @ [timespec_bytes ts]\<rparr>
      else ctx\<lparr>client_errors := client_errors ctx @ [''sendto'']\<rparr>)"

definition latency_text :: "timespec \<Rightarrow> string" where
  "latency_text r = line (dec_int (tv_sec r) @ ''.'' @ pad_zero 9 (dec_int (tv_nsec r)))"

text \<open>\<^verbatim>\<open>start\<close> is a local variable: what \<^verbatim>\<open>recvfrom\<close> does not fill is not initialised.\<close>

definition received_stamp :: "recv \<Rightarrow> timespec cres" where
  "received_stamp r =
     (case r of
        Recv_err \<Rightarrow> Inl UninitRead
      | Recv bs remote \<Rightarrow> if length bs < 16 then Inl UninitRead else Inr (bytes_timespec (take 16 bs)))"

definition client_on_read :: "recv \<Rightarrow> timespec \<Rightarrow> timespec \<Rightarrow> bool \<Rightarrow> client_context \<Rightarrow> client_context cres" where
  "client_on_read r now ts ok ctx =
     bindE (received_stamp r) (\<lambda>start.
     bindE (timespec_diff now start) (\<lambda>(flag, result).
     let ctx = (if flag < 1 then ctx\<lparr>latencies := latencies ctx @ [latency_text result]\<rparr> else ctx)
     in Inr (send_to_addr ts ok ctx)))"

definition new_dgram_socket :: "int \<Rightarrow> int \<times> string list" where
  "new_dgram_socket s = (if s < 0 then (-1, [''New DGRAM socket'']) else (s, []))"

record client_env =
  gethostbyname :: "string \<Rightarrow> u32 option"
  client_socket :: int
  first_clock :: timespec
  first_send :: bool

datatype client_event = Answer recv timespec timespec bool

fun client_callback :: "client_event \<Rightarrow> client_context \<Rightarrow> client_context reply cres" where
  "client_callback (Answer r now ts ok) ctx = bindE (client_on_read r now ts ok ctx) (\<lambda>ctx. Inr (Continue ctx))"

text \<open>\<^verbatim>\<open>argv[1]\<close> is not checked: without an argument it is the null pointer.\<close>

definition udp_client_main :: "client_env \<Rightarrow> string list \<Rightarrow> client_event event list \<Rightarrow> (ending \<times> client_context) cres" where
  "udp_client_main env argv evs =
     (if length argv < 2 then Inl NullDeref
      else case gethostbyname env (argv ! 1) of
        None \<Rightarrow> Inr (Returned 1, \<lparr>server_addr = (0, 0), sent = [], latencies = [],
                  client_errors = [''ERROR, no such host as '' @ argv ! 1]\<rparr>)
      | Some ip \<Rightarrow>
          let (s, errs) = new_dgram_socket (client_socket env);
              ctx = send_to_addr (first_clock env) (first_send env)
                \<lparr>server_addr = (ip, htons 12345), sent = [], latencies = [], client_errors = errs\<rparr>
          in bindE (dispatch registered_signals handle_signal client_callback evs ctx) (\<lambda>(stop, ctx).
             Inr (main_ending stop, ctx)))"

section \<open>The batch server\<close>

definition VLEN :: nat where "VLEN = 32"
definition BUFSIZE :: nat where "BUFSIZE = 128"

text \<open>The static arrays: for each of the 32 messages its 129-byte buffer, the length \<^verbatim>\<open>iov_len\<close>
  that was set for it, the address and \<^verbatim>\<open>msg_len\<close>; and the counters of the context.\<close>

record batch_state =
  bufs :: "bytes list"
  iov_lens :: "nat list"
  remotes :: "addr list"
  msg_lens :: "nat list"
  bctx :: server_context

definition init_msghdr :: "batch_state \<Rightarrow> batch_state" where
  "init_msghdr s = s\<lparr>msg_lens := replicate VLEN 0, remotes := replicate VLEN (0, 0),
     iov_lens := replicate VLEN BUFSIZE\<rparr>"

text \<open>\<^verbatim>\<open>recvmmsg\<close>: the \<open>i\<close>-th datagram that was waiting is stored in the \<open>i\<close>-th buffer, cut to
  \<^verbatim>\<open>iov_len\<close>.\<close>

fun recvmmsg :: "nat \<Rightarrow> (bytes \<times> addr) list \<Rightarrow> batch_state \<Rightarrow> batch_state cres" where
  "recvmmsg i [] s = Inr s"
| "recvmmsg i ((d, from) # ds) s =
     (if i < VLEN then
        let d = take (iov_lens s ! i) d in
        bindE (rd (bufs s) (int i)) (\<lambda>buf.
        bindE (wr_slice buf 0 d) (\<lambda>buf.
        recvmmsg (i + 1) ds (s\<lparr>bufs := (bufs s)[i := buf], remotes := (remotes s)[i := from],
          msg_lens := (msg_lens s)[i := length d]\<rparr>)))
      else Inr s)"

text \<open>The loop that ends the received data with a zero byte.\<close>

fun terminate_bufs :: "nat \<Rightarrow> nat \<Rightarrow> batch_state \<Rightarrow> batch_state cres" where
  "terminate_bufs i 0 s = Inr s"
| "terminate_bufs i (Suc n) s =
     bindE (rd (bufs s) (int i)) (\<lambda>buf.
     bindE (rd (msg_lens s) (int i)) (\<lambda>len.
     bindE (wr buf (int len) 0) (\<lambda>buf.
     terminate_bufs (i + 1) n (s\<lparr>bufs := (bufs s)[i := buf]\<rparr>))))"

text \<open>\<^verbatim>\<open>sendmmsg\<close> sends the \<^verbatim>\<open>iov_len\<close> bytes of each of the first messages.\<close>

definition respond :: "nat \<Rightarrow> bool \<Rightarrow> batch_state \<Rightarrow> batch_state" where
  "respond n ok s =
     (if ok then s\<lparr>bctx := (bctx s)\<lparr>replies := replies (bctx s) @
        map (\<lambda>i. (take (iov_lens s ! i) (bufs s ! i), remotes s ! i)) [0..<n]\<rparr>\<rparr>
      else s\<lparr>bctx := perror ''sendmmsg()'' (bctx s)\<rparr>)"

definition batch_count :: "int \<Rightarrow> batch_state \<Rightarrow> batch_state" where
  "batch_count k s = s\<lparr>bctx := count_messages k (bctx s)\<rparr>"

text \<open>\<open>None\<close> is an error of \<^verbatim>\<open>recvmmsg\<close>; otherwise the datagrams that were waiting.\<close>

definition batch_on_read :: "(bytes \<times> addr) list option \<Rightarrow> bool \<Rightarrow> batch_state \<Rightarrow> batch_state cres" where
  "batch_on_read r ok s =
     (case r of
        None \<Rightarrow> Inl (ExitProcess 1)
      | Some ds \<Rightarrow>
          let retval = min VLEN (length ds) in
          bindE (recvmmsg 0 ds s) (\<lambda>s.
          bindE (terminate_bufs 0 retval s) (\<lambda>s.
          Inr (batch_count (int retval) (respond retval ok s)))))"

definition batch_on_perf :: "batch_state \<Rightarrow> batch_state" where
  "batch_on_perf s = s\<lparr>bctx := on_perf (bctx s)\<rparr>"

datatype batch_event = Batch_readable "(bytes \<times> addr) list option" bool | Batch_second

fun batch_callback :: "batch_event \<Rightarrow> batch_state \<Rightarrow> batch_state reply cres" where
  "batch_callback (Batch_readable r ok) s = bindE (batch_on_read r ok s) (\<lambda>s. Inr (Continue s))"
| "batch_callback Batch_second s = Inr (Continue (batch_on_perf s))"

text \<open>Static storage starts as zeros.\<close>

definition batch_start :: "server_context \<Rightarrow> batch_state" where
  "batch_start c = \<lparr>bufs = replicate VLEN (replicate (BUFSIZE + 1) 0), iov_lens = replicate VLEN 0,
     remotes = replicate VLEN (0, 0), msg_lens = replicate VLEN 0, bctx = c\<rparr>"

definition msg_server_main :: "socket_env \<Rightarrow> string list \<Rightarrow> batch_event event list \<Rightarrow> (ending \<times> batch_state) cres" where
  "msg_server_main env argv evs =
     (let (s, c) = create_server_socket env 12345 server_start in
      bindE (if length argv > 1 \<and> net_ip__is_multicast_ip env (argv ! 1)
             then subcribe_to_multicast_group env (argv ! 1) c else Inr c) (\<lambda>c.
      bindE (dispatch registered_signals handle_signal batch_callback evs (init_msghdr (batch_start c))) (\<lambda>(stop, s).
      Inr (main_ending stop, s))))"

section \<open>The averaging client\<close>

record avg_client =
  latency :: u64
  nb_packets :: u64
  averages :: "(u64 \<times> u64) list"   \<comment> \<open>latency and packets of each printed average\<close>
  base_ctx :: client_context

definition avg_on_perf :: "avg_client \<Rightarrow> avg_client" where
  "avg_on_perf c = c\<lparr>averages := averages c @ [(latency c, nb_packets c)], latency := 0, nb_packets := 0\<rparr>"

definition l_mul :: "int \<Rightarrow> int \<Rightarrow> int cres" where
  "l_mul a b = (if in_long (a * b) then Inr (a * b) else Inl SignedOverflow)"

definition avg_on_read :: "recv \<Rightarrow> timespec \<Rightarrow> timespec \<Rightarrow> bool \<Rightarrow> avg_client \<Rightarrow> avg_client cres" where
  "avg_on_read r now ts ok c =
     bindE (received_stamp r) (\<lambda>start.
     bindE (timespec_diff now start) (\<lambda>(flag, result).
     bindE (if flag < 1 then
              bindE (l_mul (tv_sec result) BILLION) (\<lambda>n. bindE (l_add n (tv_nsec result)) (\<lambda>n.
              Inr (c\<lparr>latency := latency c + word_of_int n, nb_packets := nb_packets c + 1\<rparr>)))
            else Inr c) (\<lambda>c.
     Inr (c\<lparr>base_ctx := send_to_addr ts ok (base_ctx c)\<rparr>))))"

datatype avg_event = Avg_answer recv timespec timespec bool | Avg_second

fun avg_callback :: "avg_event \<Rightarrow> avg_client \<Rightarrow> avg_client reply cres" where
  "avg_callback (Avg_answer r now ts ok) c = bindE (avg_on_read r now ts ok c) (\<lambda>c. Inr (Continue c))"
| "avg_callback Avg_second c = Inr (Continue (avg_on_perf c))"

definition msg_client_main :: "client_env \<Rightarrow> string list \<Rightarrow> avg_event event list \<Rightarrow> (ending \<times> avg_client) cres" where
  "msg_client_main env argv evs =
     (let start = (\<lambda>b. \<lparr>latency = 0, nb_packets = 0, averages = [], base_ctx = b\<rparr>) in
      if length argv < 2 then Inl NullDeref
      else case gethostbyname env (argv ! 1) of
        None \<Rightarrow> Inr (Returned 1, start \<lparr>server_addr = (0, 0), sent = [], latencies = [],
                  client_errors = [''ERROR, no such host as '' @ argv ! 1]\<rparr>)
      | Some ip \<Rightarrow>
          let (s, errs) = new_dgram_socket (client_socket env);
              c = send_to_addr (first_clock env) (first_send env)
                \<lparr>server_addr = (ip, htons 12345), sent = [], latencies = [], client_errors = errs\<rparr>
          in bindE (dispatch registered_signals handle_signal avg_callback evs (start c)) (\<lambda>(stop, c).
             Inr (main_ending stop, c)))"

section \<open>The counters\<close>

interpretation udp_rate: rate_counter message_per_second at_second printed count_messages on_perf
  by unfold_locales (simp_all add: count_messages_def on_perf_def)

interpretation batch_rate: rate_counter "\<lambda>s. message_per_second (bctx s)" "\<lambda>s. at_second (bctx s)"
  "\<lambda>s. printed (bctx s)" batch_count batch_on_perf
  by unfold_locales (simp_all add: batch_count_def batch_on_perf_def count_messages_def on_perf_def)

text \<open>The history of counted messages and ticks behind a list of events.\<close>

fun history :: "server_event list \<Rightarrow> int option list" where
  "history [] = []"
| "history (Readable (Recv bs a) ok # es) = Some 1 # history es"
| "history (Readable Recv_err ok # es) = history es"
| "history (One_second # es) = None # history es"

fun received :: "server_event list \<Rightarrow> nat" where
  "received [] = 0"
| "received (Readable (Recv bs a) ok # es) = Suc (received es)"
| "received (e # es) = received es"

lemma history_count:
  "sum_list (map (\<lambda>e. case e of None \<Rightarrow> 0 | Some k \<Rightarrow> k) (history es)) = int (received es)"
  by (induction es rule: history.induct) auto

lemma server_dispatch:
  "\<exists>c'. dispatch sigs on_sig server_callback (map Fire es) c = Inr (Idle, c') \<and>
    message_per_second c' = message_per_second (udp_rate.play (history es) c) \<and>
    at_second c' = at_second (udp_rate.play (history es) c) \<and> printed c' = printed (udp_rate.play (history es) c)"
proof (induction es arbitrary: c rule: history.induct)
  case (2 bs a ok es)
  obtain c' where c': "dispatch sigs on_sig server_callback (map Fire es) (on_read (Recv bs a) ok c) = Inr (Idle, c')"
    "message_per_second c' = message_per_second (udp_rate.play (history es) (on_read (Recv bs a) ok c))"
    "at_second c' = at_second (udp_rate.play (history es) (on_read (Recv bs a) ok c))"
    "printed c' = printed (udp_rate.play (history es) (on_read (Recv bs a) ok c))"
    using 2 by blast
  moreover have "message_per_second (on_read (Recv bs a) ok c) = message_per_second (count_messages 1 c)"
    "at_second (on_read (Recv bs a) ok c) = at_second (count_messages 1 c)"
    "printed (on_read (Recv bs a) ok c) = printed (count_messages 1 c)"
    by (simp_all add: on_read_def perror_def Let_def)
  ultimately show ?case
    using udp_rate.play_cong [of "on_read (Recv bs a) ok c" "count_messages 1 c" "history es"] by simp
next
  case (3 ok es)
  obtain c' where c': "dispatch sigs on_sig server_callback (map Fire es) (on_read Recv_err ok c) = Inr (Idle, c')"
    "message_per_second c' = message_per_second (udp_rate.play (history es) (on_read Recv_err ok c))"
    "at_second c' = at_second (udp_rate.play (history es) (on_read Recv_err ok c))"
    "printed c' = printed (udp_rate.play (history es) (on_read Recv_err ok c))"
    using 3 by blast
  then show ?case
    using udp_rate.play_cong [of "on_read Recv_err ok c" c] by (simp add: on_read_def perror_def)
qed auto

lemma start_counters:
  "message_per_second (snd (create_server_socket env p server_start)) = 0"
  "at_second (snd (create_server_socket env p server_start)) = 0"
  "printed (snd (create_server_socket env p server_start)) = []"
  by (simp_all add: create_server_socket_def server_start_def perror_def Let_def)

text \<open>
  Whatever datagrams, receive errors and timer ticks arrive in whatever order, the lines the
  UDP server printed and its current count account for every received datagram exactly once, and
  the printed seconds count up from 0 without a gap.
\<close>

theorem udp_server_counts:
  assumes "udp_server_main env [prog] (map Fire es) = Inr (r, c)"
  shows "r = Waiting \<and> sum_list (map snd (printed c)) + message_per_second c = int (received es) \<and>
    map fst (printed c) = [0..at_second c - 1]"
proof -
  define c0 where "c0 = snd (create_server_socket env 12345 server_start)"
  obtain c' where c': "dispatch registered_signals handle_signal server_callback (map Fire es) c0 = Inr (Idle, c')"
    "message_per_second c' = message_per_second (udp_rate.play (history es) c0)"
    "at_second c' = at_second (udp_rate.play (history es) c0)" "printed c' = printed (udp_rate.play (history es) c0)"
    using server_dispatch by blast
  have "r = Waiting" "c' = c"
    using assms c'(1) by (simp_all add: udp_server_main_def c0_def split_beta)
  then show ?thesis
    using c' udp_rate.play_conserves [of "history es" c0] udp_rate.play_seconds [of "history es" c0]
    by (simp add: history_count c0_def start_counters)
qed

section \<open>Signals\<close>

lemma registered: "registered_signals = [15]"
  by (simp add: registered_signals_def SIGINT_def SIGTERM_def)

text \<open>
  The UDP server registers its signal callback for \<^verbatim>\<open>SIGINT|SIGTERM\<close>, which is the number
  15: after any events \<^verbatim>\<open>SIGTERM\<close> ends the loop and \<^verbatim>\<open>main\<close> returns 0, but \<^verbatim>\<open>SIGINT\<close>
  kills the process without the clean-up.
\<close>

theorem sigint_not_handled:
  assumes "udp_server_main env [prog] (map Fire es) = Inr (r, c)"
  shows "udp_server_main env [prog] (map Fire es @ [Signal SIGTERM]) = Inr (Returned 0, c) \<and>
    udp_server_main env [prog] (map Fire es @ [Signal SIGINT]) = Inr (Killed_by SIGINT, c)"
proof -
  define c0 where "c0 = snd (create_server_socket env 12345 server_start)"
  obtain c' where c': "dispatch registered_signals handle_signal server_callback (map Fire es) c0 = Inr (Idle, c')"
    using server_dispatch by blast
  then have "c' = c" using assms by (simp add: udp_server_main_def c0_def split_beta)
  then show ?thesis
    using dispatch_fires_signal [OF c']
    by (simp add: udp_server_main_def c0_def split_beta registered SIGINT_def SIGTERM_def handle_signal_def)
qed

section \<open>Round trips\<close>

text \<open>
  A round trip through the echo server: the datagram the client sends at \<open>t1\<close> comes back
  unchanged to the client's address, and when its answer is handled at \<open>t2\<close>, not before
  \<open>t1\<close>, the client prints exactly \<open>t2\<close> minus \<open>t1\<close> and sends the next request.
\<close>

theorem udp_round_trip:
  assumes "clock_value t1" "clock_value t2" "nanos t1 \<le> nanos t2"
  shows "sent (send_to_addr t1 True cl) = sent cl @ [timespec_bytes t1] \<and>
    replies (on_read (Recv (timespec_bytes t1) a) True srv) = replies srv @ [(timespec_bytes t1, a)] \<and>
    (\<exists>r cl'. client_on_read (Recv (timespec_bytes t1) b) t2 t3 True cl = Inr cl' \<and>
       latencies cl' = latencies cl @ [latency_text r] \<and> nanos r = nanos t2 - nanos t1 \<and>
       0 \<le> tv_nsec r \<and> tv_nsec r < BILLION \<and> sent cl' = sent cl @ [timespec_bytes t3])"
proof -
  obtain r where r: "timespec_diff t2 t1 = Inr (if tv_sec t2 < tv_sec t1 then 1 else 0, r)"
    "nanos r = nanos t2 - nanos t1" "0 \<le> tv_nsec r" "tv_nsec r < BILLION"
    using timespec_diff_value [OF assms(2,1)] by blast
  have "\<not> tv_sec t2 < tv_sec t1"
    using assms by (auto simp: nanos_def clock_value_def BILLION_def)
  then have "client_on_read (Recv (timespec_bytes t1) b) t2 t3 True cl =
      Inr (send_to_addr t3 True (cl\<lparr>latencies := latencies cl @ [latency_text r]\<rparr>))"
    using r(1) assms(1) by (simp add: client_on_read_def received_stamp_def bytes_timespec_bytes)
  then show ?thesis
    using r(2-4) by (auto simp: send_to_addr_def on_read_def count_messages_def)
qed

section \<open>The batch server answers with whole buffers\<close>

definition batch_inv :: "batch_state \<Rightarrow> bool" where
  "batch_inv s \<longleftrightarrow> length (bufs s) = VLEN \<and> (\<forall>b \<in> set (bufs s). length b = BUFSIZE + 1) \<and>
     iov_lens s = replicate VLEN BUFSIZE \<and> length (remotes s) = VLEN \<and> length (msg_lens s) = VLEN"

lemma batch_inv_start: "batch_inv (init_msghdr (batch_start c))"
  by (simp add: batch_inv_def init_msghdr_def batch_start_def)

lemma batch_inv_buf: "batch_inv s \<Longrightarrow> i < VLEN \<Longrightarrow> length (bufs s ! i) = 129"
  by (simp add: batch_inv_def BUFSIZE_def)

lemma batch_inv_put:
  assumes "batch_inv s" "i < VLEN" "length b = 129"
  shows "batch_inv (s\<lparr>bufs := (bufs s)[i := b]\<rparr>)"
    "batch_inv (s\<lparr>bufs := (bufs s)[i := b], remotes := (remotes s)[i := a], msg_lens := (msg_lens s)[i := n]\<rparr>)"
  using assms set_update_subset_insert [of "bufs s" i b] by (auto simp: batch_inv_def BUFSIZE_def)

text \<open>The contents of buffer \<open>j\<close> after the datagrams \<open>ds\<close> were stored from buffer \<open>i\<close> on.\<close>

lemma recvmmsg_stores:
  assumes "batch_inv s" "i + length ds \<le> VLEN"
  shows "\<exists>s'. recvmmsg i ds s = Inr s' \<and> batch_inv s' \<and> bctx s' = bctx s \<and>
    (\<forall>j < VLEN. i \<le> j \<and> j < i + length ds \<longrightarrow>
       bufs s' ! j = put (bufs s ! j) 0 (take 128 (fst (ds ! (j - i)))) \<and>
       remotes s' ! j = snd (ds ! (j - i)) \<and> msg_lens s' ! j = length (take 128 (fst (ds ! (j - i))))) \<and>
    (\<forall>j < VLEN. j < i \<longrightarrow> bufs s' ! j = bufs s ! j \<and> remotes s' ! j = remotes s ! j \<and> msg_lens s' ! j = msg_lens s ! j)"
  using assms
proof (induction ds arbitrary: i s)
  case (Cons d ds)
  obtain dat a where d: "d = (dat, a)" by (cases d)
  let ?x = "take 128 dat"
  let ?s = "s\<lparr>bufs := (bufs s)[i := put (bufs s ! i) 0 ?x], remotes := (remotes s)[i := a],
             msg_lens := (msg_lens s)[i := length ?x]\<rparr>"
  have i: "i < VLEN" and len: "length (bufs s ! i) = 129" "length (put (bufs s ! i) 0 ?x) = 129"
    using Cons.prems batch_inv_buf [of s i] by auto
  have st: "recvmmsg i (d # ds) s = recvmmsg (i + 1) ds ?s"
    using i len Cons.prems(1) by (simp add: d batch_inv_def BUFSIZE_def rd_nat wr_slice_in)
  obtain s' where s': "recvmmsg (i + 1) ds ?s = Inr s'" "batch_inv s'" "bctx s' = bctx s"
    "\<forall>j < VLEN. i + 1 \<le> j \<and> j < i + 1 + length ds \<longrightarrow>
       bufs s' ! j = put (bufs ?s ! j) 0 (take 128 (fst (ds ! (j - (i + 1))))) \<and>
       remotes s' ! j = snd (ds ! (j - (i + 1))) \<and> msg_lens s' ! j = length (take 128 (fst (ds ! (j - (i + 1)))))"
    "\<forall>j < VLEN. j < i + 1 \<longrightarrow> bufs s' ! j = bufs ?s ! j \<and> remotes s' ! j = remotes ?s ! j \<and> msg_lens s' ! j = msg_lens ?s ! j"
    using Cons.IH [of ?s "i + 1"] batch_inv_put(2) [OF Cons.prems(1) i len(2)] Cons.prems(2) by auto
  have "bufs s' ! j = put (bufs s ! j) 0 (take 128 (fst ((d # ds) ! (j - i)))) \<and>
       remotes s' ! j = snd ((d # ds) ! (j - i)) \<and> msg_lens s' ! j = length (take 128 (fst ((d # ds) ! (j - i))))"
    if j: "j < VLEN" "i \<le> j" "j < i + length (d # ds)" for j
  proof (cases "j = i")
    case True
    then show ?thesis using s'(5) j Cons.prems(1) i by (simp add: d batch_inv_def)
  next
    case False
    then have "j - i = Suc (j - (i + 1))" using j by simp
    then show ?thesis using s'(4) j False by simp
  qed
  then show ?case using s' st by (intro exI [of _ s']) auto
qed auto

lemma terminate_bufs_zero:
  assumes "batch_inv s" "i + n \<le> VLEN" "\<forall>j < VLEN. i \<le> j \<and> j < i + n \<longrightarrow> msg_lens s ! j \<le> 128"
  shows "\<exists>s'. terminate_bufs i n s = Inr s' \<and> batch_inv s' \<and> bctx s' = bctx s \<and> remotes s' = remotes s \<and>
    (\<forall>j < VLEN. i \<le> j \<and> j < i + n \<longrightarrow> bufs s' ! j = (bufs s ! j)[msg_lens s ! j := 0]) \<and>
    (\<forall>j < VLEN. j < i \<longrightarrow> bufs s' ! j = bufs s ! j)"
  using assms
proof (induction n arbitrary: i s)
  case (Suc n)
  let ?b = "(bufs s ! i)[msg_lens s ! i := 0]"
  let ?s = "s\<lparr>bufs := (bufs s)[i := ?b]\<rparr>"
  have i: "i < VLEN" using Suc.prems by simp
  have b: "length (bufs s ! i) = 129" "length ?b = 129" using batch_inv_buf [OF Suc.prems(1) i] by auto
  have "rd (msg_lens s) (int i) = Inr (msg_lens s ! i)" "rd (bufs s) (int i) = Inr (bufs s ! i)"
    using Suc.prems(1) i by (simp_all add: batch_inv_def rd_nat)
  moreover have "wr (bufs s ! i) (int (msg_lens s ! i)) 0 = Inr ?b"
    using Suc.prems(3) [rule_format, of i] i b(1) by (intro wr_nat) simp
  ultimately have st: "terminate_bufs i (Suc n) s = terminate_bufs (i + 1) n ?s" by simp
  obtain s' where s': "terminate_bufs (i + 1) n ?s = Inr s'" "batch_inv s'" "bctx s' = bctx s" "remotes s' = remotes s"
    "\<forall>j < VLEN. i + 1 \<le> j \<and> j < i + 1 + n \<longrightarrow> bufs s' ! j = (bufs ?s ! j)[msg_lens s ! j := 0]"
    "\<forall>j < VLEN. j < i + 1 \<longrightarrow> bufs s' ! j = bufs ?s ! j"
    using Suc.IH [of ?s "i + 1"] batch_inv_put(1) [OF Suc.prems(1) i b(2)] Suc.prems by auto
  have "bufs s' ! j = (bufs s ! j)[msg_lens s ! j := 0]" if "j < VLEN" "i \<le> j" "j < i + Suc n" for j
    using s'(5,6) that Suc.prems(1) by (cases "j = i") (auto simp: batch_inv_def)
  then show ?case using s' st by (intro exI [of _ s']) auto
qed auto

lemma reply_bytes:
  assumes "length b = 129" "length x \<le> 128"
  shows "take 128 ((put b 0 x)[length x := 0]) =
    take 128 (x @ 0 # drop (length x + 1) b)"
proof (rule nth_equalityI)
  fix i assume "i < length (take 128 ((put b 0 x)[length x := 0]))"
  then have i: "i < 128" using assms by simp
  then show "take 128 ((put b 0 x)[length x := 0]) ! i = take 128 (x @ 0 # drop (length x + 1) b) ! i"
    using assms
    by (auto simp: nth_list_update nth_put nth_append nth_Cons split: nat.split intro!: arg_cong [of _ _ "nth b"])
qed (use assms in auto)

text \<open>
  The batch server stays inside its buffers, counts every datagram and answers each one to its
  sender in order; but an answer is always 128 bytes long: the received bytes, a zero, and then
  what an earlier datagram left in the buffer, since \<^verbatim>\<open>iov_len\<close> is never set to the length
  that was received.
\<close>

theorem batch_replies:
  assumes "batch_inv s" and "length ds \<le> VLEN"
  shows "\<exists>s'. batch_on_read (Some ds) True s = Inr s' \<and> batch_inv s' \<and>
    message_per_second (bctx s') = message_per_second (bctx s) + int (length ds) \<and>
    replies (bctx s') = replies (bctx s) @ map (\<lambda>i.
      (let x = take 128 (fst (ds ! i)) in take 128 (x @ 0 # drop (length x + 1) (bufs s ! i)), snd (ds ! i)))
      [0..<length ds]"
proof -
  obtain s1 where s1: "recvmmsg 0 ds s = Inr s1" "batch_inv s1" "bctx s1 = bctx s"
    "\<forall>j < VLEN. j < length ds \<longrightarrow>
       bufs s1 ! j = put (bufs s ! j) 0 (take 128 (fst (ds ! j))) \<and>
       remotes s1 ! j = snd (ds ! j) \<and> msg_lens s1 ! j = length (take 128 (fst (ds ! j)))"
    using recvmmsg_stores [OF assms(1), of 0 ds] assms(2) by auto
  obtain s2 where s2: "terminate_bufs 0 (length ds) s1 = Inr s2" "batch_inv s2" "bctx s2 = bctx s" "remotes s2 = remotes s1"
    "\<forall>j < VLEN. j < length ds \<longrightarrow> bufs s2 ! j = (bufs s1 ! j)[msg_lens s1 ! j := 0]"
    using terminate_bufs_zero [OF s1(2), of 0 "length ds"] s1(3,4) assms(2) by auto
  have reply: "take (iov_lens s2 ! j) (bufs s2 ! j) =
      (let x = take 128 (fst (ds ! j)) in take 128 (x @ 0 # drop (length x + 1) (bufs s ! j)))"
    "remotes s2 ! j = snd (ds ! j)" if "j < length ds" for j
  proof -
    have j: "j < VLEN" using that assms(2) by simp
    then have "iov_lens s2 ! j = 128" using s2(2) by (simp add: batch_inv_def BUFSIZE_def)
    then show "take (iov_lens s2 ! j) (bufs s2 ! j) =
      (let x = take 128 (fst (ds ! j)) in take 128 (x @ 0 # drop (length x + 1) (bufs s ! j)))"
      using s1(4) s2(5) j that reply_bytes [OF batch_inv_buf [OF assms(1) j], of "take 128 (fst (ds ! j))"]
      by (simp add: Let_def)
    show "remotes s2 ! j = snd (ds ! j)" using s1(4) s2(4) j that by simp
  qed
  define s' where "s' = batch_count (int (length ds)) (respond (length ds) True s2)"
  have "batch_on_read (Some ds) True s = Inr s'"
    using min.absorb2 [OF assms(2)] s1(1) s2(1) by (simp add: batch_on_read_def s'_def Let_def)
  moreover have "batch_inv s'"
    using s2(2) by (simp add: s'_def batch_inv_def batch_count_def respond_def)
  moreover have "message_per_second (bctx s') = message_per_second (bctx s) + int (length ds)"
    using s2(3) by (simp add: s'_def batch_count_def respond_def count_messages_def)
  moreover have "replies (bctx s') = replies (bctx s) @ map (\<lambda>i. (let x = take 128 (fst (ds ! i)) in
      take 128 (x @ 0 # drop (length x + 1) (bufs s ! i)), snd (ds ! i))) [0..<length ds]"
    using s2(3) reply by (simp add: s'_def batch_count_def respond_def count_messages_def Let_def cong: map_cong)
  ultimately show ?thesis by blast
qed

section \<open>Witnesses\<close>

definition sample_env :: socket_env where
  "sample_env = \<lparr>new_socket = 3, bind_result = (\<lambda>a. 0), inet_addr = (\<lambda>s. 0), add_membership = (\<lambda>w. 0)\<rparr>"

definition sample_events :: "server_event list" where
  "sample_events = [Readable (Recv [1, 2] (7, 9)) True, One_second, Readable Recv_err True, Readable (Recv [3] (7, 9)) False]"

lemma sample_run: "\<exists>r c. udp_server_main sample_env [''server''] (map Fire sample_events) = Inr (r, c)"
  using server_dispatch [of registered_signals handle_signal sample_events
      "snd (create_server_socket sample_env 12345 server_start)"]
  by (auto simp: udp_server_main_def split_beta)

theorem udp_server_counts_witness:
  "\<exists>r c. udp_server_main sample_env [''server''] (map Fire sample_events) = Inr (r, c) \<and>
     sum_list (map snd (printed c)) + message_per_second c = 2"
proof -
  obtain r c where "udp_server_main sample_env [''server''] (map Fire sample_events) = Inr (r, c)"
    using sample_run by blast
  moreover have "received sample_events = 2" by (simp add: sample_events_def)
  ultimately show ?thesis using udp_server_counts [of sample_env "''server''" sample_events r c] by auto
qed

theorem sigint_not_handled_witness:
  "\<exists>c. udp_server_main sample_env [''server''] (map Fire sample_events @ [Signal SIGINT]) = Inr (Killed_by SIGINT, c)"
  using sample_run sigint_not_handled [of sample_env "''server''" sample_events] by blast

theorem udp_round_trip_witness:
  "\<exists>r cl'. client_on_read (Recv (timespec_bytes \<lparr>tv_sec = 1, tv_nsec = 999999999\<rparr>) (0, 0)) \<lparr>tv_sec = 2, tv_nsec = 4\<rparr>
      \<lparr>tv_sec = 3, tv_nsec = 0\<rparr> True \<lparr>server_addr = (0, 0), sent = [], latencies = [], client_errors = []\<rparr> = Inr cl' \<and>
    latencies cl' = [latency_text r] \<and> nanos r = 5"
proof -
  have "clock_value \<lparr>tv_sec = 1, tv_nsec = 999999999\<rparr>" "clock_value \<lparr>tv_sec = 2, tv_nsec = 4\<rparr>"
    "nanos \<lparr>tv_sec = 1, tv_nsec = 999999999\<rparr> \<le> nanos \<lparr>tv_sec = 2, tv_nsec = 4\<rparr>"
    by (simp_all add: clock_value_def nanos_def BILLION_def)
  from udp_round_trip [OF this, of "\<lparr>server_addr = (0, 0), sent = [], latencies = [], client_errors = []\<rparr>"
      "(0, 0)" server_start "(0, 0)" "\<lparr>tv_sec = 3, tv_nsec = 0\<rparr>"]
  show ?thesis by (auto simp: nanos_def BILLION_def)
qed

theorem batch_replies_witness:
  "\<exists>s'. batch_on_read (Some [([1, 2], (7, 9))]) True (init_msghdr (batch_start server_start)) = Inr s' \<and>
     message_per_second (bctx s') = 1"
proof -
  have "message_per_second (bctx (init_msghdr (batch_start server_start))) = 0"
    by (simp add: init_msghdr_def batch_start_def server_start_def)
  moreover have "length [([1, 2 :: u8], (7 :: u32, 9 :: u16))] \<le> VLEN" by (simp add: VLEN_def)
  ultimately show ?thesis
    using batch_replies [OF batch_inv_start, of "[([1, 2], (7, 9))]" server_start] by auto
qed

end
