(* ===== verification/Tcp_Echo.thy ===== *)
theory Tcp_Echo
  imports Event_Loop
begin

text \<open>
  The stream programs: \<^verbatim>\<open>client_server/tcp\<close> (echo server and latency client) and
  \<^verbatim>\<open>client_server/uthash\<close> (the same client with a server that keeps every request in a hash
  table until it is answered). A connection of a server has an input and an output buffer; libevent delivers events for connections in any order, and what its
  functions do to the buffers is a parameter. The hash table
  of uthash is an association list with the newest entry first, which is how its buckets are
  searched; \<open>Uthash_Proxy\<close> has the same server with the real table. The proofs show that the two servers do the same to every connection, that
  the counters meet the contract of the event loop, that no request stays in the table, and, for buffers that behave as libevent documents them, that every byte is echoed in order.
\<close>

section \<open>Connections and the set-up of a server\<close>

record conn =
  inbuf :: bytes
  outbuf :: bytes

text \<open>What libevent does to the buffers: the input buffer after bytes were read from the socket, and the functions on
  \<^verbatim>\<open>struct evbuffer\<close>. \<^verbatim>\<open>evbuffer_add_buffer\<close> gives both buffers, \<^verbatim>\<open>evbuffer_remove\<close> its result, what was copied out and what is left.\<close>

record libevent =
  socket_read :: "bytes \<Rightarrow> bytes \<Rightarrow> bytes"
  evbuffer_add_buffer :: "bytes \<Rightarrow> bytes \<Rightarrow> bytes \<times> bytes"
  evbuffer_remove :: "bytes \<Rightarrow> nat \<Rightarrow> int \<times> bytes \<times> bytes"
  evbuffer_add :: "bytes \<Rightarrow> bytes \<Rightarrow> int \<times> bytes"

record listen_env =
  base_ok :: bool                  \<comment> \<open>whether \<^verbatim>\<open>event_base_new\<close> succeeds\<close>
  listener_ok :: "u32 \<Rightarrow> u16 \<Rightarrow> bool"  \<comment> \<open>whether \<^verbatim>\<open>evconnlistener_new_bind\<close> does, for an address and port\<close>

text \<open>The part of \<^verbatim>\<open>main\<close> up to the listener, the same in all stream servers: a message if
  the program gives up with exit code 1, or the port in network order.\<close>

definition server_port :: "string list \<Rightarrow> int cres" where
  "server_port argv = (if length argv > 1 then atoi (argv ! 1) else Inr 9876)"

definition open_listener :: "listen_env \<Rightarrow> string list \<Rightarrow> (string + u16) cres" where
  "open_listener env argv =
     bindE (server_port argv) (\<lambda>port.
     Inr (if port \<le> 0 \<or> port > 65535 then Inl ''Invalid port''
          else if \<not> base_ok env then Inl (''Couldn'' @ [char_of (39 :: nat)] @ ''t open event base'')
          else if \<not> listener_ok env (htonl 0) (htons (word_of_int port))
          then Inl (''Couldn'' @ [char_of (39 :: nat)] @ ''t create listener'')
          else Inr (htons (word_of_int port))))"

datatype tcp_event =
    Accept nat                \<comment> \<open>a connection with this descriptor\<close>
  | Accept_error int string
  | Data nat bytes            \<comment> \<open>bytes arrived, and the read callback is run\<close>
  | Conn_event nat bool bool  \<comment> \<open>the flags for an error and for the end of file\<close>
  | One_second

section \<open>The TCP server\<close>

record stat =
  pps :: int
  ts :: int
  printed :: "(int \<times> int) list"
  conns :: "nat \<Rightarrow> conn option"
  log :: "string list"

definition stat_start :: stat where
  "stat_start = \<lparr>pps = 0, ts = 0, printed = [], conns = (\<lambda>_. None), log = []\<rparr>"

definition on_stats :: "stat \<Rightarrow> stat" where
  "on_stats s = s\<lparr>printed := printed s @ [(ts s, pps s)], pps := 0, ts := ts s + 1\<rparr>"

definition count_read :: "int \<Rightarrow> stat \<Rightarrow> stat" where
  "count_read k s = s\<lparr>pps := pps s + k\<rparr>"

text \<open>\<^verbatim>\<open>evbuffer_add_buffer(output, input)\<close> on the buffers of a connection.\<close>

definition echo_conn :: "libevent \<Rightarrow> conn \<Rightarrow> conn" where
  "echo_conn ev c = (let (output, input) = evbuffer_add_buffer ev (outbuf c) (inbuf c) in c\<lparr>outbuf := output, inbuf := input\<rparr>)"

definition echo_read_cb :: "libevent \<Rightarrow> nat \<Rightarrow> stat \<Rightarrow> stat cres" where
  "echo_read_cb ev fd s =
     (case conns s fd of
        None \<Rightarrow> Inl DanglingPtr
      | Some c \<Rightarrow> Inr (count_read 1 (s\<lparr>conns := (conns s)(fd \<mapsto> echo_conn ev c)\<rparr>)))"

definition echo_event_cb :: "nat \<Rightarrow> bool \<Rightarrow> bool \<Rightarrow> stat \<Rightarrow> stat" where
  "echo_event_cb fd err eof s =
     (let s = (if err then s\<lparr>log := log s @ [''Error from bufferevent'']\<rparr> else s)
      in if eof \<or> err then s\<lparr>conns := (conns s)(fd := None)\<rparr> else s)"

definition accept_conn_cb :: "nat \<Rightarrow> stat \<Rightarrow> stat" where
  "accept_conn_cb fd s = s\<lparr>conns := (conns s)(fd \<mapsto> \<lparr>inbuf = [], outbuf = []\<rparr>)\<rparr>"

definition accept_error_cb :: "int \<Rightarrow> string \<Rightarrow> stat \<Rightarrow> stat" where
  "accept_error_cb err msg s = s\<lparr>log := log s @ [''Got an error '' @ dec_int err @ '' ('' @ msg @
     '') on the listener. Shutting down.'']\<rparr>"

definition handle_SIG :: "int \<Rightarrow> stat \<Rightarrow> stat" where
  "handle_SIG sig s = s\<lparr>log := log s @ [(if sig = SIGTERM then ''Caught SIGTERM '' else ''Caught SIGINT '') @ dec_int sig]\<rparr>"

text \<open>The callback that each event runs, as \<^verbatim>\<open>main\<close> and \<^verbatim>\<open>accept_conn_cb\<close> register them. A connection that was freed gets no events.\<close>

definition arrive :: "libevent \<Rightarrow> bytes \<Rightarrow> conn \<Rightarrow> conn" where
  "arrive ev bs c = c\<lparr>inbuf := socket_read ev (inbuf c) bs\<rparr>"

fun tcp_callback :: "libevent \<Rightarrow> tcp_event \<Rightarrow> stat \<Rightarrow> stat reply cres" where
  "tcp_callback ev (Accept fd) s = Inr (Continue (accept_conn_cb fd s))"
| "tcp_callback ev (Accept_error err msg) s = Inr (Break (accept_error_cb err msg s))"
| "tcp_callback ev (Data fd bs) s =
     (case conns s fd of
        None \<Rightarrow> Inr (Continue s)
      | Some c \<Rightarrow> bindE (echo_read_cb ev fd (s\<lparr>conns := (conns s)(fd \<mapsto> arrive ev bs c)\<rparr>)) (\<lambda>s. Inr (Continue s)))"
| "tcp_callback ev (Conn_event fd err eof) s =
     Inr (Continue (if conns s fd = None then s else echo_event_cb fd err eof s))"
| "tcp_callback ev One_second s = Inr (Continue (on_stats s))"

definition tcp_server_main :: "libevent \<Rightarrow> listen_env \<Rightarrow> string list \<Rightarrow> tcp_event event list \<Rightarrow> (ending \<times> stat) cres" where
  "tcp_server_main ev env argv evs =
     bindE (open_listener env argv) (\<lambda>l.
     case l of
       Inl msg \<Rightarrow> Inr (Returned 1, stat_start\<lparr>log := [msg]\<rparr>)
     | Inr port \<Rightarrow>
         bindE (dispatch [SIGTERM, SIGINT] handle_SIG (tcp_callback ev) evs stat_start) (\<lambda>(stop, s).
         Inr (main_ending stop, s)))"

section \<open>The latency client\<close>

text \<open>The client's connection is there until it is freed; \<open>sent\<close> has the bytes of each \<^verbatim>\<open>bufferevent_write\<close>.\<close>

record tcp_client =
  server_conn :: bool
  sent :: "bytes list"
  client_log :: "string list"

definition send_request :: "timespec \<Rightarrow> tcp_client \<Rightarrow> tcp_client cres" where
  "send_request now cl =
     (if \<not> server_conn cl then Inl DanglingPtr else Inr (cl\<lparr>sent := sent cl @ [timespec_bytes now]\<rparr>))"

definition latency_line :: "timespec \<Rightarrow> string" where
  "latency_line r = line (dec_int (tv_sec r) @ ''.'' @ pad_zero 9 (dec_int (tv_nsec r)))"

text \<open>\<open>n\<close> and \<open>response\<close> are what \<^verbatim>\<open>evbuffer_remove\<close> returns and stores, at most 16 bytes.\<close>

definition readcb :: "int \<Rightarrow> bytes \<Rightarrow> timespec \<Rightarrow> timespec \<Rightarrow> tcp_client \<Rightarrow> tcp_client cres" where
  "readcb n response now next cl =
     (if \<not> server_conn cl then Inl DanglingPtr
      else if n < 0 then Inr cl
      else if length response < 16 then Inl UninitRead
      else bindE (timespec_diff now (bytes_timespec response)) (\<lambda>(flag, result).
           send_request next (cl\<lparr>client_log := client_log cl @ [latency_line result]\<rparr>)))"

text \<open>\<open>dns\<close> is the text of a name resolution error, if there was one.\<close>

definition eventcb :: "bool \<Rightarrow> bool \<Rightarrow> bool \<Rightarrow> string option \<Rightarrow> tcp_client \<Rightarrow> tcp_client reply" where
  "eventcb connected err eof dns cl =
     (if connected then Continue cl
      else if err \<or> eof then
        let cl = (if err then (case dns of None \<Rightarrow> cl | Some e \<Rightarrow> cl\<lparr>client_log := client_log cl @ [line (''DNS error: '' @ e)]\<rparr>) else cl)
        in Break (cl\<lparr>server_conn := False\<rparr>)
      else Continue cl)"

datatype client_event = Answer int bytes timespec timespec | Conn_state bool bool bool "string option"

fun tcp_client_callback :: "client_event \<Rightarrow> tcp_client \<Rightarrow> tcp_client reply cres" where
  "tcp_client_callback (Answer n response now next) cl =
     (if \<not> server_conn cl then Inr (Continue cl)
      else bindE (readcb n response now next cl) (\<lambda>cl. Inr (Continue cl)))"
| "tcp_client_callback (Conn_state connected err eof dns) cl =
     (if \<not> server_conn cl then Inr (Continue cl) else Inr (eventcb connected err eof dns cl))"

definition client_usage :: "string \<Rightarrow> string" where
  "client_usage prog = line (''Syntax: '' @ prog @ '' [hostname] [port]'') @ line (''Example: '' @ prog @ '' 192.168.1.110 9876'')"

definition tcp_client_main :: "timespec \<Rightarrow> string list \<Rightarrow> client_event event list \<Rightarrow> (ending \<times> tcp_client) cres" where
  "tcp_client_main now argv evs =
     (if length argv \<noteq> 3 then Inr (Returned 1, \<lparr>server_conn = False, sent = [], client_log = [client_usage (argv ! 0)]\<rparr>)
      else
        bindE (send_request now \<lparr>server_conn = True, sent = [], client_log = []\<rparr>) (\<lambda>cl.
        bindE (atoi (argv ! 2)) (\<lambda>port.
        bindE (dispatch [SIGINT OR SIGTERM] (\<lambda>n s. s) tcp_client_callback evs cl) (\<lambda>(stop, cl).
        Inr (main_ending stop, cl)))))"

text \<open>\<^verbatim>\<open>uthash/src/client.c\<close> is the same program.\<close>

definition uthash_client_main :: "timespec \<Rightarrow> string list \<Rightarrow> client_event event list \<Rightarrow> (ending \<times> tcp_client) cres" where
  "uthash_client_main = tcp_client_main"

section \<open>The proxy server\<close>

record request_entry =
  request_id :: int
  bev :: nat

record proxy_server =
  proxy_id :: int
  current_request_id :: int
  at_second :: int
  message_per_second :: int
  request_table :: "request_entry list"
  proxy_printed :: "(int \<times> int) list"
  proxy_conns :: "nat \<Rightarrow> conn option"
  proxy_log :: "string list"

definition proxy_start :: proxy_server where
  "proxy_start = \<lparr>proxy_id = 0, current_request_id = 0, at_second = 0, message_per_second = 0,
     request_table = [], proxy_printed = [], proxy_conns = (\<lambda>_. None), proxy_log = []\<rparr>"

definition proxy_on_stats :: "proxy_server \<Rightarrow> proxy_server" where
  "proxy_on_stats p = p\<lparr>proxy_printed := proxy_printed p @ [(at_second p, message_per_second p)],
     message_per_second := 0, at_second := at_second p + 1\<rparr>"

definition HASH_FIND_INT :: "request_entry list \<Rightarrow> int \<Rightarrow> request_entry option" where
  "HASH_FIND_INT tab k = find (\<lambda>e. request_id e = k) tab"

text \<open>\<^verbatim>\<open>HASH_DEL\<close> takes out the given entry; the entry found is the first with its key.\<close>

fun HASH_DEL :: "request_entry list \<Rightarrow> request_entry \<Rightarrow> request_entry list" where
  "HASH_DEL [] e = []"
| "HASH_DEL (x # xs) e = (if x = e then xs else x # HASH_DEL xs e)"

definition respond_cb :: "libevent \<Rightarrow> int \<Rightarrow> proxy_server \<Rightarrow> proxy_server cres" where
  "respond_cb ev req_id p =
     (case HASH_FIND_INT (request_table p) req_id of
        None \<Rightarrow> Inr p
      | Some s \<Rightarrow>
         (case proxy_conns p (bev s) of
            None \<Rightarrow> Inl DanglingPtr
          | Some c \<Rightarrow>
              let (output, input) = evbuffer_add_buffer ev (outbuf c) (inbuf c) in
              Inr (p\<lparr>proxy_conns := (proxy_conns p)(bev s \<mapsto> c\<lparr>outbuf := output, inbuf := input\<rparr>),
                     request_table := HASH_DEL (request_table p) s\<rparr>)))"

definition proxy_count :: "int \<Rightarrow> proxy_server \<Rightarrow> proxy_server" where
  "proxy_count k p = p\<lparr>message_per_second := message_per_second p + k\<rparr>"

definition proxy_read_cb :: "libevent \<Rightarrow> nat \<Rightarrow> proxy_server \<Rightarrow> proxy_server cres" where
  "proxy_read_cb ev fd p =
     (let s = \<lparr>request_id = current_request_id p, bev = fd\<rparr>;
          p = p\<lparr>request_table := s # request_table p\<rparr>
      in bindE (respond_cb ev (current_request_id p) p) (\<lambda>p.
         bindE (c_add (current_request_id p) 1) (\<lambda>n.
         Inr ((proxy_count 1 p)\<lparr>current_request_id := n\<rparr>))))"

definition proxy_event_cb :: "nat \<Rightarrow> bool \<Rightarrow> bool \<Rightarrow> proxy_server \<Rightarrow> proxy_server" where
  "proxy_event_cb fd err eof p =
     (let p = (if err then p\<lparr>proxy_log := proxy_log p @ [''Error from bufferevent'']\<rparr> else p)
      in if eof \<or> err then p\<lparr>proxy_conns := (proxy_conns p)(fd := None)\<rparr> else p)"

definition proxy_accept_cb :: "nat \<Rightarrow> proxy_server \<Rightarrow> proxy_server" where
  "proxy_accept_cb fd p = p\<lparr>proxy_conns := (proxy_conns p)(fd \<mapsto> \<lparr>inbuf = [], outbuf = []\<rparr>)\<rparr>"

definition proxy_accept_error_cb :: "int \<Rightarrow> string \<Rightarrow> proxy_server \<Rightarrow> proxy_server" where
  "proxy_accept_error_cb err msg p = p\<lparr>proxy_log := proxy_log p @ [''Got an error '' @ dec_int err @ '' ('' @ msg @
     '') on the listener. Shutting down.'']\<rparr>"

definition proxy_handle_SIG :: "int \<Rightarrow> proxy_server \<Rightarrow> proxy_server" where
  "proxy_handle_SIG sig p = p\<lparr>proxy_log := proxy_log p @
     [(if sig = SIGTERM then ''Caught SIGTERM '' else ''Caught SIGINT '') @ dec_int sig]\<rparr>"

definition proxy_free :: "proxy_server \<Rightarrow> proxy_server" where
  "proxy_free p = p\<lparr>request_table := foldl HASH_DEL (request_table p) (request_table p)\<rparr>"

fun proxy_callback :: "libevent \<Rightarrow> tcp_event \<Rightarrow> proxy_server \<Rightarrow> proxy_server reply cres" where
  "proxy_callback ev (Accept fd) p = Inr (Continue (proxy_accept_cb fd p))"
| "proxy_callback ev (Accept_error err msg) p = Inr (Break (proxy_accept_error_cb err msg p))"
| "proxy_callback ev (Data fd bs) p =
     (case proxy_conns p fd of
        None \<Rightarrow> Inr (Continue p)
      | Some c \<Rightarrow> bindE (proxy_read_cb ev fd (p\<lparr>proxy_conns := (proxy_conns p)(fd \<mapsto> arrive ev bs c)\<rparr>)) (\<lambda>p. Inr (Continue p)))"
| "proxy_callback ev (Conn_event fd err eof) p =
     Inr (Continue (if proxy_conns p fd = None then p else proxy_event_cb fd err eof p))"
| "proxy_callback ev One_second p = Inr (Continue (proxy_on_stats p))"

definition proxy_main :: "libevent \<Rightarrow> listen_env \<Rightarrow> string list \<Rightarrow> tcp_event event list \<Rightarrow> (ending \<times> proxy_server) cres" where
  "proxy_main ev env argv evs =
     bindE (open_listener env argv) (\<lambda>l.
     case l of
       Inl msg \<Rightarrow> Inr (Returned 1, proxy_start\<lparr>proxy_log := [msg]\<rparr>)
     | Inr port \<Rightarrow>
         bindE (dispatch [SIGTERM, SIGINT] proxy_handle_SIG (proxy_callback ev) evs proxy_start) (\<lambda>(stop, p).
         Inr (main_ending stop, if stop = Broken then proxy_free p else p)))"

section \<open>The counters\<close>

interpretation tcp_rate: rate_counter pps ts printed count_read on_stats
  by unfold_locales (simp_all add: count_read_def on_stats_def)

interpretation proxy_rate: rate_counter message_per_second at_second proxy_printed proxy_count proxy_on_stats
  by unfold_locales (simp_all add: proxy_count_def proxy_on_stats_def)

section \<open>The TCP server echoes\<close>

text \<open>The bytes that arrived for a connection, and events that do not open or close it.\<close>

fun arrived :: "nat \<Rightarrow> tcp_event list \<Rightarrow> bytes" where
  "arrived fd [] = []"
| "arrived fd (Data g bs # es) = (if g = fd then bs @ arrived fd es else arrived fd es)"
| "arrived fd (e # es) = arrived fd es"

fun leaves_open :: "nat \<Rightarrow> tcp_event \<Rightarrow> bool" where
  "leaves_open fd (Accept g) \<longleftrightarrow> g \<noteq> fd"
| "leaves_open fd (Accept_error err msg) \<longleftrightarrow> False"
| "leaves_open fd (Data g bs) \<longleftrightarrow> True"
| "leaves_open fd (Conn_event g err eof) \<longleftrightarrow> g \<noteq> fd \<or> \<not> err \<and> \<not> eof"
| "leaves_open fd One_second \<longleftrightarrow> True"

text \<open>What libevent documents: bytes that were read are added to the end of the input buffer, and \<^verbatim>\<open>evbuffer_add_buffer\<close> moves all data of one buffer to the
  end of the other.\<close>

definition buffers_documented :: "libevent \<Rightarrow> bool" where
  "buffers_documented ev \<longleftrightarrow> (\<forall>buf bs. socket_read ev buf bs = buf @ bs \<and> evbuffer_add_buffer ev buf bs = (buf @ bs, []))"

lemma tcp_callback_conn:
  assumes "leaves_open fd e" "conns s fd = Some c" "inbuf c = []" "buffers_documented ev"
  shows "\<exists>s' c'. tcp_callback ev e s = Inr (Continue s') \<and> conns s' fd = Some c' \<and> inbuf c' = [] \<and>
    outbuf c' = outbuf c @ arrived fd [e]"
  using assms
  by (cases e) (auto simp: accept_conn_cb_def echo_event_cb_def on_stats_def echo_read_cb_def echo_conn_def
      count_read_def arrive_def buffers_documented_def Let_def split: option.splits)

lemma arrived_Cons: "arrived fd (e # es) = arrived fd [e] @ arrived fd es"
  by (cases e) auto

text \<open>
  The TCP server echoes, with buffers as libevent documents them: whatever else happens on other connections, and however the bytes are
  split over read callbacks, the bytes written to a connection while it stays open are exactly the
  bytes that arrived on it, in order, and none is left unread.
\<close>

theorem tcp_echoes:
  assumes "\<forall>e \<in> set es. leaves_open fd e" "conns s fd = Some c" "inbuf c = []" "buffers_documented ev"
  shows "\<exists>s' c'. dispatch [SIGTERM, SIGINT] handle_SIG (tcp_callback ev) (map Fire es) s = Inr (Idle, s') \<and>
    conns s' fd = Some c' \<and> inbuf c' = [] \<and> outbuf c' = outbuf c @ arrived fd es"
  using assms
proof (induction es arbitrary: s c)
  case (Cons e es)
  obtain s1 c1 where s1: "tcp_callback ev e s = Inr (Continue s1)" "conns s1 fd = Some c1" "inbuf c1 = []"
    "outbuf c1 = outbuf c @ arrived fd [e]"
    using tcp_callback_conn [of fd e s c ev] Cons.prems by auto
  then obtain s' c' where "dispatch [SIGTERM, SIGINT] handle_SIG (tcp_callback ev) (map Fire es) s1 = Inr (Idle, s')"
    "conns s' fd = Some c'" "inbuf c' = []" "outbuf c' = outbuf c1 @ arrived fd es"
    using Cons.IH [of s1 c1] Cons.prems by auto
  then show ?case using s1 by (auto simp: arrived_Cons [of fd e es])
qed simp

section \<open>The proxy refines the echo server\<close>

definition proxy_abs :: "proxy_server \<Rightarrow> stat" where
  "proxy_abs p = \<lparr>pps = message_per_second p, ts = at_second p, printed = proxy_printed p,
     conns = proxy_conns p, log = proxy_log p\<rparr>"

fun reply_abs :: "proxy_server reply \<Rightarrow> stat reply" where
  "reply_abs (Continue p) = Continue (proxy_abs p)" | "reply_abs (Break p) = Break (proxy_abs p)"

fun reply_state :: "'s reply \<Rightarrow> 's" where
  "reply_state (Continue s) = s" | "reply_state (Break s) = s"

lemma proxy_read_cb_echoes:
  assumes "request_table p = []" "0 \<le> current_request_id p" "current_request_id p < INT_MAX" "proxy_conns p fd = Some c"
  shows "proxy_read_cb ev fd p = Inr (p\<lparr>proxy_conns := (proxy_conns p)(fd \<mapsto> echo_conn ev c),
    message_per_second := message_per_second p + 1, current_request_id := current_request_id p + 1\<rparr>)"
  using assms
  by (cases "evbuffer_add_buffer ev (outbuf c) (inbuf c)") (simp add: echo_conn_def proxy_read_cb_def respond_cb_def HASH_FIND_INT_def proxy_count_def c_int_defs Let_def)

lemma proxy_callback_refines:
  assumes "request_table p = []" "0 \<le> current_request_id p" "current_request_id p < INT_MAX"
  shows "\<exists>r. proxy_callback ev e p = Inr r \<and> tcp_callback ev e (proxy_abs p) = Inr (reply_abs r) \<and>
    request_table (reply_state r) = [] \<and> current_request_id p \<le> current_request_id (reply_state r) \<and>
    current_request_id (reply_state r) \<le> current_request_id p + 1"
proof (cases e)
  case (Data fd bs)
  show ?thesis
  proof (cases "proxy_conns p fd")
    case None
    then show ?thesis using Data assms by (simp add: proxy_abs_def)
  next
    case (Some c)
    then show ?thesis
      using Data assms proxy_read_cb_echoes [of "p\<lparr>proxy_conns := (proxy_conns p)(fd \<mapsto> arrive ev bs c)\<rparr>" fd _ ev]
      by (simp add: proxy_abs_def echo_read_cb_def count_read_def)
  qed
qed (use assms in \<open>auto simp: proxy_abs_def accept_conn_cb_def proxy_accept_cb_def accept_error_cb_def
      proxy_accept_error_cb_def echo_event_cb_def proxy_event_cb_def on_stats_def proxy_on_stats_def Let_def\<close>)

lemma proxy_dispatch_refines:
  assumes "request_table p = []" "0 \<le> current_request_id p" "current_request_id p + int (length evs) \<le> INT_MAX"
  shows "\<exists>stop p'. dispatch sigs proxy_handle_SIG (proxy_callback ev) evs p = Inr (stop, p') \<and>
    dispatch sigs handle_SIG (tcp_callback ev) evs (proxy_abs p) = Inr (stop, proxy_abs p') \<and> request_table p' = []"
  using assms
proof (induction evs arbitrary: p)
  case (Cons x evs)
  show ?case
  proof (cases x)
    case (Signal n)
    then show ?thesis
      using Cons.prems(1) by (auto simp: proxy_handle_SIG_def handle_SIG_def proxy_abs_def)
  next
    case (Fire e)
    obtain r where r: "proxy_callback ev e p = Inr r" "tcp_callback ev e (proxy_abs p) = Inr (reply_abs r)"
      "request_table (reply_state r) = []" "current_request_id p \<le> current_request_id (reply_state r)"
      "current_request_id (reply_state r) \<le> current_request_id p + 1"
      using proxy_callback_refines [of p ev e] Cons.prems by auto
    show ?thesis
    proof (cases r)
      case (Continue q)
      then show ?thesis using Cons.IH [of q] Cons.prems r Fire by auto
    next
      case (Break q)
      then show ?thesis using r Fire by auto
    qed
  qed
qed simp

text \<open>
  The server with the hash table refines the plain echo server, whatever libevent does to the buffers: on every list of events (fewer
  than the request counter can number) it runs without a fault, ends in the same way, prints the
  same counts and messages and writes the same bytes to every connection; and its table is empty
  at the end, so no request is left unanswered or leaked.
\<close>

theorem proxy_refines_echo:
  assumes "open_listener env argv = Inr (Inr port)" and "int (length evs) \<le> INT_MAX"
  shows "\<exists>r p. proxy_main ev env argv evs = Inr (r, p) \<and> tcp_server_main ev env argv evs = Inr (r, proxy_abs p) \<and>
    request_table p = []"
proof -
  have start: "request_table proxy_start = []" "current_request_id proxy_start = 0" "proxy_abs proxy_start = stat_start"
    by (simp_all add: proxy_start_def proxy_abs_def stat_start_def)
  obtain stop p where p: "dispatch [SIGTERM, SIGINT] proxy_handle_SIG (proxy_callback ev) evs proxy_start = Inr (stop, p)"
    "dispatch [SIGTERM, SIGINT] handle_SIG (tcp_callback ev) evs stat_start = Inr (stop, proxy_abs p)" "request_table p = []"
    using proxy_dispatch_refines [of proxy_start evs "[SIGTERM, SIGINT]" ev] assms(2) start by auto
  have "proxy_free p = p" using p(3) by (simp add: proxy_free_def)
  then show ?thesis using p assms(1) by (simp add: proxy_main_def tcp_server_main_def)
qed

section \<open>Witnesses\<close>

definition sample_ev :: libevent where
  "sample_ev = \<lparr>socket_read = (@), evbuffer_add_buffer = (\<lambda>out inp. (out @ inp, [])), evbuffer_remove = (\<lambda>inp n. (int (min n (length inp)), take n inp, drop n inp)),
     evbuffer_add = (\<lambda>out bs. (0, out @ bs))\<rparr>"

theorem tcp_echoes_witness:
  "\<exists>s' c'. dispatch [SIGTERM, SIGINT] handle_SIG (tcp_callback sample_ev) (map Fire [Data 5 [1, 2], One_second, Data 6 [9], Data 5 [3]])
      (stat_start\<lparr>conns := [5 \<mapsto> \<lparr>inbuf = [], outbuf = []\<rparr>]\<rparr>) = Inr (Idle, s') \<and>
    conns s' 5 = Some c' \<and> outbuf c' = [1, 2, 3]"
proof -
  have "\<forall>e \<in> set [Data 5 [1, 2], One_second, Data 6 [9], Data 5 [3]]. leaves_open 5 e"
    "conns (stat_start\<lparr>conns := [5 \<mapsto> \<lparr>inbuf = [], outbuf = []\<rparr>]\<rparr>) 5 = Some \<lparr>inbuf = [], outbuf = []\<rparr>"
    "inbuf \<lparr>inbuf = [], outbuf = []\<rparr> = []" "buffers_documented sample_ev"
    by (simp_all add: buffers_documented_def sample_ev_def)
  from tcp_echoes [OF this] show ?thesis by auto
qed

theorem proxy_refines_echo_witness:
  "\<exists>r p. proxy_main sample_ev \<lparr>base_ok = True, listener_ok = (\<lambda>a p. True)\<rparr> [''server''] [Fire (Accept 5), Fire (Data 5 [1])] = Inr (r, p) \<and>
     request_table p = []"
proof -
  have "open_listener \<lparr>base_ok = True, listener_ok = (\<lambda>a p. True)\<rparr> [''server''] = Inr (Inr (htons 9876))"
    by (simp add: open_listener_def server_port_def)
  moreover have "int (length [Fire (Accept 5), Fire (Data 5 [1])]) \<le> INT_MAX" by (simp add: INT_MAX_def)
  ultimately show ?thesis
    using proxy_refines_echo by blast
qed

end
