(* ===== verification/Struct_Message.thy ===== *)
theory Struct_Message
  imports Tcp_Echo
begin

text \<open>
  \<^verbatim>\<open>struct_serialization\<close>: a client that sends a variable-length \<^verbatim>\<open>struct client_request\<close>
  as it lies in memory, and the echo server for it. On x86-64 the structure has its
  \<^verbatim>\<open>length\<close> at offset 0, the time stamp at 8 and \<^verbatim>\<open>content\<close> at 24, and its size is 32. A byte
  of a fresh allocation is \<open>None\<close> until something is stored in it. The proofs show the layout
  of a request, that its length can be read back, which of the bytes sent were never written, and
  when the allocation is too small.
\<close>

section \<open>Messages\<close>

definition sizeof_request :: nat where "sizeof_request = 32"
definition content_offset :: nat where "content_offset = 24"
definition ts_offset :: nat where "ts_offset = 8"

type_synonym memory = "u8 option list"

definition rd_init :: "memory \<Rightarrow> nat \<Rightarrow> nat \<Rightarrow> bytes cres" where
  "rd_init mem off n = bindE (rd_slice mem off n) (mapE (\<lambda>b. case b of None \<Rightarrow> Inl UninitRead | Some v \<Rightarrow> Inr v))"

definition message_length :: "memory \<Rightarrow> u32 cres" where
  "message_length request =
     bindE (rd_init request 0 4) (\<lambda>bs. Inr (of_nat (le_val bs) - (of_nat sizeof_request - 1)))"

definition create_client_request :: "bytes \<Rightarrow> u32 \<Rightarrow> memory cres" where
  "create_client_request dat data_size =
     (let message_size = of_nat sizeof_request + data_size - 1;
          request = replicate (unat message_size) None
      in bindE (wr_slice request 0 (map Some (le_bytes 4 (unat message_size)))) (\<lambda>request.
         bindE (rd_slice dat 0 (unat data_size)) (\<lambda>bs.
         wr_slice request content_offset (map Some bs))))"

section \<open>The client\<close>

definition alphanum :: string where
  "alphanum = ''0123456789abcdefghijklmnopqrstuvwxyz''"

definition DATA_SIZE :: nat where "DATA_SIZE = 16"

text \<open>\<open>rand i\<close> is the \<open>i\<close>-th result of \<^verbatim>\<open>rand()\<close>, which is not negative.\<close>

definition random_string :: "(nat \<Rightarrow> nat) \<Rightarrow> nat \<Rightarrow> bytes" where
  "random_string rand len = map (\<lambda>i. of_char (alphanum ! (rand i mod 36))) [0..<len - 1] @ [0]"

definition make_request :: "(nat \<Rightarrow> nat) \<Rightarrow> timespec \<Rightarrow> memory cres" where
  "make_request rand now =
     bindE (create_client_request (random_string rand DATA_SIZE) (of_nat DATA_SIZE)) (\<lambda>request.
     wr_slice request ts_offset (map Some (timespec_bytes now)))"

text \<open>The bytes handed to \<^verbatim>\<open>bufferevent_write\<close>: the first \<^verbatim>\<open>length\<close> bytes of the request.\<close>

definition request_bytes :: "(nat \<Rightarrow> nat) \<Rightarrow> timespec \<Rightarrow> memory cres" where
  "request_bytes rand now =
     bindE (make_request rand now) (\<lambda>request.
     bindE (rd_init request 0 4) (\<lambda>len. rd_slice request 0 (le_val len)))"

text \<open>\<^verbatim>\<open>%s\<close> of the bytes from a position of a buffer on.\<close>

definition c_string :: "bytes \<Rightarrow> string cres" where
  "c_string bs = (if 0 \<in> set bs then Inr (map char_of_byte (takeWhile (\<lambda>b. b \<noteq> 0) bs)) else Inl OutOfBounds)"

text \<open>An answer in the zeroed 128-byte buffer, into which \<^verbatim>\<open>evbuffer_remove\<close> has stored \<open>stored\<close>: what is printed.\<close>

definition client_read :: "bytes \<Rightarrow> timespec \<Rightarrow> string list cres" where
  "client_read stored now =
     (let buffer = put (replicate 128 0) 0 stored in
      bindE (c_string (drop content_offset buffer)) (\<lambda>content.
      bindE (message_length (map Some buffer)) (\<lambda>len.
      bindE (timespec_diff now (bytes_timespec (take 16 (drop ts_offset buffer)))) (\<lambda>(flag, result).
      Inr [line (''content: '' @ content @ '' -- size: '' @ dec_int (sint len)), latency_line result]))))"

text \<open>The connection is there until it is freed; \<open>msg_sent\<close> has the bytes of each \<^verbatim>\<open>bufferevent_write\<close>.\<close>

record msg_client =
  msg_conn :: bool
  msg_sent :: "memory list"
  msg_out :: "string list"

definition msg_send :: "(nat \<Rightarrow> nat) \<Rightarrow> timespec \<Rightarrow> msg_client \<Rightarrow> msg_client cres" where
  "msg_send rand now cl =
     (if \<not> msg_conn cl then Inl DanglingPtr
      else bindE (request_bytes rand now) (\<lambda>bs. Inr (cl\<lparr>msg_sent := msg_sent cl @ [bs]\<rparr>)))"

definition msg_readcb :: "int \<Rightarrow> bytes \<Rightarrow> (nat \<Rightarrow> nat) \<Rightarrow> timespec \<Rightarrow> timespec \<Rightarrow> msg_client \<Rightarrow> msg_client cres" where
  "msg_readcb n stored rand now next cl =
     (if \<not> msg_conn cl then Inl DanglingPtr
      else if n < 0 then Inr cl
      else bindE (client_read stored now) (\<lambda>texts. msg_send rand next (cl\<lparr>msg_out := msg_out cl @ texts\<rparr>)))"

definition msg_eventcb :: "bool \<Rightarrow> bool \<Rightarrow> bool \<Rightarrow> string option \<Rightarrow> msg_client \<Rightarrow> msg_client reply" where
  "msg_eventcb connected err eof dns cl =
     (if connected then Continue cl
      else if err \<or> eof then
        let cl = (if err then (case dns of None \<Rightarrow> cl | Some e \<Rightarrow> cl\<lparr>msg_out := msg_out cl @ [line (''DNS error: '' @ e)]\<rparr>) else cl)
        in Break (cl\<lparr>msg_conn := False\<rparr>)
      else Continue cl)"

datatype msg_client_event = Msg_answer int bytes "nat \<Rightarrow> nat" timespec timespec | Msg_state bool bool bool "string option"

fun msg_client_callback :: "msg_client_event \<Rightarrow> msg_client \<Rightarrow> msg_client reply cres" where
  "msg_client_callback (Msg_answer n stored rand now next) cl =
     (if \<not> msg_conn cl then Inr (Continue cl)
      else bindE (msg_readcb n stored rand now next cl) (\<lambda>cl. Inr (Continue cl)))"
| "msg_client_callback (Msg_state connected err eof dns) cl =
     (if \<not> msg_conn cl then Inr (Continue cl) else Inr (msg_eventcb connected err eof dns cl))"

definition struct_client_main :: "(nat \<Rightarrow> nat) \<Rightarrow> timespec \<Rightarrow> string list \<Rightarrow> msg_client_event event list \<Rightarrow> (ending \<times> msg_client) cres" where
  "struct_client_main rand now argv evs =
     (if length argv \<noteq> 3 then Inr (Returned 1, \<lparr>msg_conn = False, msg_sent = [], msg_out = [client_usage (argv ! 0)]\<rparr>)
      else
        bindE (msg_send rand now \<lparr>msg_conn = True, msg_sent = [], msg_out = []\<rparr>) (\<lambda>cl.
        bindE (atoi (argv ! 2)) (\<lambda>port.
        bindE (dispatch [SIGINT OR SIGTERM] (\<lambda>n s. s) msg_client_callback evs cl) (\<lambda>(stop, cl).
        Inr (main_ending stop, cl)))))"

section \<open>The server\<close>

text \<open>The counters, connections and messages are those of the TCP server; the read callback takes
  at most 128 bytes into an uninitialised buffer, prints the content as a string and writes the bytes back.\<close>

definition struct_read_cb :: "libevent \<Rightarrow> nat \<Rightarrow> stat \<Rightarrow> stat cres" where
  "struct_read_cb ev fd s =
     (case conns s fd of
        None \<Rightarrow> Inl DanglingPtr
      | Some c \<Rightarrow>
          let (n, buffer, input) = evbuffer_remove ev (inbuf c) 128;
              s = s\<lparr>conns := (conns s)(fd \<mapsto> c\<lparr>inbuf := input\<rparr>)\<rparr> in
          if n < 0 then Inr s
          else
            bindE (if 0 \<in> set (drop content_offset buffer) then c_string (drop content_offset buffer)
                   else if n < 128 then Inl UninitRead else Inl OutOfBounds) (\<lambda>content.
            let (n, output) = evbuffer_add ev (outbuf c) buffer;
                s = s\<lparr>log := log s @ [line (''content '' @ content)] @ (if n < 0 then [''evbuffer_add''] else []),
                      conns := (conns s)(fd \<mapsto> \<lparr>inbuf = input, outbuf = output\<rparr>)\<rparr>
            in Inr (count_read 1 s)))"

fun struct_callback :: "libevent \<Rightarrow> tcp_event \<Rightarrow> stat \<Rightarrow> stat reply cres" where
  "struct_callback ev (Accept fd) s = Inr (Continue (accept_conn_cb fd s))"
| "struct_callback ev (Accept_error err msg) s = Inr (Break (accept_error_cb err msg s))"
| "struct_callback ev (Data fd bs) s =
     (case conns s fd of
        None \<Rightarrow> Inr (Continue s)
      | Some c \<Rightarrow> bindE (struct_read_cb ev fd (s\<lparr>conns := (conns s)(fd \<mapsto> arrive ev bs c)\<rparr>)) (\<lambda>s. Inr (Continue s)))"
| "struct_callback ev (Conn_event fd err eof) s =
     Inr (Continue (if conns s fd = None then s else echo_event_cb fd err eof s))"
| "struct_callback ev One_second s = Inr (Continue (on_stats s))"

definition struct_server_main :: "libevent \<Rightarrow> listen_env \<Rightarrow> string list \<Rightarrow> tcp_event event list \<Rightarrow> (ending \<times> stat) cres" where
  "struct_server_main ev env argv evs =
     bindE (open_listener env argv) (\<lambda>l.
     case l of
       Inl msg \<Rightarrow> Inr (Returned 1, stat_start\<lparr>log := [msg]\<rparr>)
     | Inr port \<Rightarrow>
         bindE (dispatch [SIGTERM, SIGINT] handle_SIG (struct_callback ev) evs stat_start) (\<lambda>(stop, s).
         Inr (main_ending stop, s)))"

section \<open>Layout and round trip\<close>

lemma unat_size:
  assumes "unat n < 4294967296 - 31"
  shows "unat (of_nat sizeof_request + (n :: u32) - 1) = 31 + unat n"
proof -
  have "of_nat sizeof_request + n - 1 = of_nat (31 + unat n)"
    by (simp add: sizeof_request_def)
  then have "unat (of_nat sizeof_request + n - 1) = unat (of_nat (31 + unat n) :: u32)" by simp
  also have "\<dots> = 31 + unat n" using assms by (simp add: unat_of_nat del: of_nat_add)
  finally show ?thesis .
qed

lemma mapE_Some: "mapE (\<lambda>b. case b of None \<Rightarrow> Inl UninitRead | Some v \<Rightarrow> Inr v) (map Some bs) = Inr bs"
  by (induction bs) auto

lemma create_layout:
  assumes "unat n = length dat" "unat (n :: u32) < 4294967296 - 31"
  shows "create_client_request dat n =
    Inr (map Some (le_bytes 4 (31 + unat n)) @ replicate 20 None @ map Some dat @ replicate 7 None)"
proof -
  let ?m = "31 + unat n"
  have "put (put (replicate ?m None) 0 (map Some (le_bytes 4 ?m))) 24 (map Some dat) =
      map Some (le_bytes 4 ?m) @ replicate 20 None @ map Some dat @ replicate 7 None"
    using assms(1) by (simp add: put_def)
  then show ?thesis
    using assms unat_size [OF assms(2)]
    by (simp add: create_client_request_def Let_def wr_slice_in rd_slice_in content_offset_def)
qed

lemma message_length_read:
  assumes "unat (n :: u32) < 4294967296 - 31"
  shows "message_length (map Some (le_bytes 4 (31 + unat n)) @ rest) = Inr n"
proof -
  have "le_val (le_bytes 4 (31 + unat n)) = 31 + unat n"
    using assms by (simp add: le_val_le_bytes)
  then show ?thesis
    by (simp add: message_length_def rd_init_def rd_slice_in mapE_Some sizeof_request_def)
qed

text \<open>
  C27. For every data block that \<^verbatim>\<open>create_client_request\<close> can give a size to, the request is 31
  bytes longer than the data, holds the data at offset 24, and \<^verbatim>\<open>message_length\<close> reads back the
  size of the data. A size within 31 of the largest \<^verbatim>\<open>unsigned\<close> wraps around instead and the
  data is copied outside the allocation.
\<close>

theorem message_round_trip:
  fixes n :: u32
  assumes "unat n = length dat"
  shows "(unat n < 4294967296 - 31 \<longrightarrow>
      (\<exists>request. create_client_request dat n = Inr request \<and> length request = 31 + length dat \<and>
        message_length request = Inr n \<and> rd_init request content_offset (length dat) = Inr dat)) \<and>
    (unat n \<ge> 4294967296 - 31 \<longrightarrow> create_client_request dat n = Inl OutOfBounds)"
proof (intro conjI impI)
  assume n: "unat n < 4294967296 - 31"
  let ?r = "map Some (le_bytes 4 (31 + unat n)) @ replicate 20 None @ map Some dat @ replicate 7 None"
  have "rd_init ?r content_offset (length dat) = Inr dat"
    by (simp add: rd_init_def rd_slice_in content_offset_def mapE_Some)
  then show "\<exists>request. create_client_request dat n = Inr request \<and> length request = 31 + length dat \<and>
      message_length request = Inr n \<and> rd_init request content_offset (length dat) = Inr dat"
    using create_layout [OF assms n] message_length_read [OF n] assms by auto
next
  assume n: "unat n \<ge> 4294967296 - 31"
  define m where "m = of_nat sizeof_request + n - 1"
  have "m = of_nat (31 + unat n)" by (simp add: m_def sizeof_request_def)
  then have "unat m = (31 + unat n) mod 4294967296" by (simp add: unat_of_nat del: of_nat_add)
  then have m: "unat m = unat n - (4294967296 - 31)"
    using n unat_u32_less [of n] by (simp add: mod_if)
  then have "unat m < 24 + length dat" using assms n by simp
  then show "create_client_request dat n = Inl OutOfBounds"
    using assms
    by (auto simp: create_client_request_def Let_def m_def [symmetric] wr_slice_def rd_slice_in content_offset_def bindE_def)
qed

text \<open>
  Every request the client sends is 47 bytes long: the length 47, the time stamp at offset 8
  and 15 letters or digits with a final zero at offset 24; the four bytes after the length and the
  last seven were never written and go out as they were found in the heap.
\<close>

theorem request_on_the_wire:
  "request_bytes rand now = Inr (map Some (le_bytes 4 47) @ replicate 4 None @ map Some (timespec_bytes now) @
     map Some (random_string rand DATA_SIZE) @ replicate 7 None) \<and>
   length (random_string rand DATA_SIZE) = 16 \<and>
   (\<forall>i < 15. random_string rand DATA_SIZE ! i \<in> set (map of_char alphanum)) \<and> random_string rand DATA_SIZE ! 15 = 0"
proof -
  have len: "length (random_string rand DATA_SIZE) = 16"
    by (simp add: random_string_def DATA_SIZE_def)
  have u: "unat (of_nat DATA_SIZE :: u32) = 16" by (simp add: DATA_SIZE_def)
  then have created: "create_client_request (random_string rand DATA_SIZE) (of_nat DATA_SIZE) =
      Inr (map Some (le_bytes 4 47) @ replicate 20 None @ map Some (random_string rand DATA_SIZE) @ replicate 7 None)"
    using create_layout [of "of_nat DATA_SIZE" "random_string rand DATA_SIZE"] len by simp
  have twenty: "replicate 20 (None :: u8 option) = replicate 4 None @ replicate 16 None"
    by (simp flip: replicate_add)
  let ?m = "map Some (le_bytes 4 47) @ replicate 4 None @ map Some (timespec_bytes now) @
      map Some (random_string rand DATA_SIZE) @ replicate 7 None"
  have "make_request rand now = Inr ?m"
    using len unfolding make_request_def created twenty
    by (simp add: wr_slice_def ts_offset_def)
  moreover have "rd_init ?m 0 4 = Inr (le_bytes 4 47)"
    by (simp add: rd_init_def rd_slice_in mapE_Some)
  moreover have "le_val (le_bytes 4 47) = 47" by (simp add: le_val_le_bytes)
  ultimately have "request_bytes rand now = Inr ?m"
    using len by (simp add: request_bytes_def rd_slice_in)
  moreover have "random_string rand DATA_SIZE ! i \<in> set (map of_char alphanum)" if "i < 15" for i
  proof -
    have "random_string rand DATA_SIZE ! i = of_char (alphanum ! (rand i mod 36))"
      using that by (simp add: random_string_def DATA_SIZE_def nth_append)
    moreover have "alphanum ! (rand i mod 36) \<in> set alphanum"
      by (rule nth_mem) (simp add: alphanum_def)
    ultimately show ?thesis by simp
  qed
  ultimately show ?thesis using len by (simp add: random_string_def DATA_SIZE_def nth_append)
qed

theorem message_round_trip_witness:
  "\<exists>request. create_client_request [104, 105, 0] 3 = Inr request \<and> length request = 34 \<and> message_length request = Inr 3"
  using message_round_trip [of 3 "[104, 105, 0]"] by auto

theorem request_on_the_wire_witness:
  "request_bytes (\<lambda>i. i) \<lparr>tv_sec = 1, tv_nsec = 2\<rparr> = Inr (map Some (le_bytes 4 47) @ replicate 4 None @
     map Some (timespec_bytes \<lparr>tv_sec = 1, tv_nsec = 2\<rparr>) @ map Some (random_string (\<lambda>i. i) DATA_SIZE) @ replicate 7 None) \<and>
   random_string (\<lambda>i. i) DATA_SIZE ! 3 \<in> set (map of_char alphanum)"
  using request_on_the_wire [of "\<lambda>i. i" "\<lparr>tv_sec = 1, tv_nsec = 2\<rparr>"] by simp

end
