(* ===== verification/Net_Addr.thy ===== *)
theory Net_Addr
  imports C_Text
begin

text \<open>
  \<^verbatim>\<open>fast_leveldb/src/net.c\<close> (\<^verbatim>\<open>how-to-receive-a-million-packets/net.c\<close> is the same file):
  parsing of \<^verbatim>\<open>host:port\<close>, printing of addresses, and the socket set-up of the senders and
  receivers. \<^verbatim>\<open>FATAL\<close> and \<^verbatim>\<open>PFATAL\<close> print and exit with code 1. The conversions
  \<^verbatim>\<open>inet_pton\<close> and \<^verbatim>\<open>inet_ntop\<close> and the results of the system calls are fields of a record.
\<close>

section \<open>Addresses\<close>

datatype which_addr = Null_addr | Sin4 | Sin6

record net_addr =
  ipver :: int
  sin4_family :: int
  sin4_port :: u16
  sin4_addr :: bytes
  sin6_family :: int
  sin6_port :: u16
  sin6_addr :: bytes
  sockaddr :: which_addr
  sockaddr_len :: nat

definition AF_INET :: int where "AF_INET = 2"
definition AF_INET6 :: int where "AF_INET6 = 10"
definition sizeof_sin4 :: nat where "sizeof_sin4 = 16"
definition sizeof_sin6 :: nat where "sizeof_sin6 = 28"

definition zero_addr :: net_addr where
  "zero_addr = \<lparr>ipver = 0, sin4_family = 0, sin4_port = 0, sin4_addr = replicate 4 0,
     sin6_family = 0, sin6_port = 0, sin6_addr = replicate 16 0, sockaddr = Null_addr, sockaddr_len = 0\<rparr>"

record inet =
  pton4 :: "string \<Rightarrow> bytes option"
  pton6 :: "string \<Rightarrow> bytes option"
  ntop4 :: "bytes \<Rightarrow> string"
  ntop6 :: "bytes \<Rightarrow> string"

definition FATAL :: "'a cres" where "FATAL = Inl (ExitProcess 1)"

text \<open>The static buffer has 1024 bytes and the precision is 1020, so nothing is cut by
  \<^verbatim>\<open>snprintf\<close>.\<close>

definition str_quote :: "string \<Rightarrow> string" where
  "str_quote s = (let full = ''\"'' @ take 1020 s @ ''\"'' in take 1023 full)"

definition net_gethostbyname :: "inet \<Rightarrow> string \<Rightarrow> int \<Rightarrow> net_addr cres" where
  "net_gethostbyname lib host port =
     (case pton4 lib host of
        Some a \<Rightarrow> Inr (zero_addr\<lparr>ipver := 4, sockaddr := Sin4, sockaddr_len := sizeof_sin4,
          sin4_family := AF_INET, sin4_port := htons (word_of_int port), sin4_addr := a\<rparr>)
      | None \<Rightarrow>
         (case pton6 lib host of
            Some a \<Rightarrow> Inr (zero_addr\<lparr>ipver := 6, sockaddr := Sin6, sockaddr_len := sizeof_sin4,
              sin6_family := AF_INET6, sin6_port := htons (word_of_int port), sin6_addr := a\<rparr>)
          | None \<Rightarrow> FATAL))"

text \<open>The position of the last occurrence of a character.\<close>

fun strrchr :: "string \<Rightarrow> char \<Rightarrow> nat option" where
  "strrchr [] c = None"
| "strrchr (x # xs) c =
     (case strrchr xs c of Some i \<Rightarrow> Some (Suc i) | None \<Rightarrow> if x = c then Some 0 else None)"

definition parse_addr :: "inet \<Rightarrow> string \<Rightarrow> net_addr cres" where
  "parse_addr lib addr =
     (case strrchr addr (CHR '':'') of
        None \<Rightarrow> FATAL
      | Some colon \<Rightarrow>
          bindE (atoi (drop (colon + 1) addr)) (\<lambda>port.
          if port < 0 \<or> port > 65535 then FATAL
          else let addr_len = (if colon > 254 then 254 else colon)
               in net_gethostbyname lib (take addr_len addr) port))"

definition addr_to_str :: "inet \<Rightarrow> net_addr \<Rightarrow> string" where
  "addr_to_str lib addr =
     (let (dst, port) =
        (if ipver addr = 4 then (ntop4 lib (sin4_addr addr), int (unat (htons (sin4_port addr))))
         else if ipver addr = 16 then (ntop6 lib (sin6_addr addr), int (unat (htons (sin6_port addr))))
         else (''?'', 0))
      in take 254 (dst @ '':'' @ dec_int port))"

section \<open>Sockets\<close>

record sys =
  new_socket :: int
  reuseaddr :: "int \<Rightarrow> int"             \<comment> \<open>the results of \<^verbatim>\<open>setsockopt\<close> for a descriptor\<close>
  reuseport_opt :: "int \<Rightarrow> int"
  bind_call :: "int \<Rightarrow> net_addr \<Rightarrow> int"
  connect_call :: "int \<Rightarrow> net_addr \<Rightarrow> int"
  connect_in_progress :: bool           \<comment> \<open>\<^verbatim>\<open>errno\<close> is \<^verbatim>\<open>EINPROGRESS\<close> after a failed connect\<close>
  getbuf :: "int \<Rightarrow> bool \<Rightarrow> int option"   \<comment> \<open>\<^verbatim>\<open>SO_SNDBUF\<close> or \<^verbatim>\<open>SO_RCVBUF\<close>; \<open>None\<close> on failure\<close>
  setbuf :: "int \<Rightarrow> bool \<Rightarrow> int \<Rightarrow> bool"
  pthread_create :: int
  sigmask :: int

text \<open>The loop of \<^verbatim>\<open>net_set_buffer_size\<close>: the \<^verbatim>\<open>size\<close> of its condition is the outer variable,
  which the body does not change. The result is the list of sizes that were set.\<close>

function set_buffer_loop :: "sys \<Rightarrow> int \<Rightarrow> int \<Rightarrow> bool \<Rightarrow> nat \<Rightarrow> int \<Rightarrow> int list cres" where
  "set_buffer_loop os cd max_size send i outer_size =
     (if i < 10 \<and> outer_size \<noteq> 0 then
        case getbuf os cd send of
          None \<Rightarrow> FATAL
        | Some bef \<Rightarrow>
            if bef \<ge> max_size then Inr []
            else if \<not> setbuf os cd send (bef * 2) then Inr []
            else bindE (set_buffer_loop os cd max_size send (i + 1) outer_size) (\<lambda>l. Inr (bef * 2 # l))
      else Inr [])"
  by pat_completeness auto

termination by (relation "measure (\<lambda>(os, cd, m, send, i, sz). 10 - i)") auto

declare set_buffer_loop.simps [simp del]

definition net_set_buffer_size :: "sys \<Rightarrow> int \<Rightarrow> int \<Rightarrow> bool \<Rightarrow> int list cres" where
  "net_set_buffer_size os cd max_size send = set_buffer_loop os cd max_size send 0 0"

text \<open>After the second \<^verbatim>\<open>setsockopt\<close> it is the result of the first one that is tested again.\<close>

definition net_bind_udp :: "sys \<Rightarrow> net_addr \<Rightarrow> bool \<Rightarrow> int cres" where
  "net_bind_udp os shost reuseport =
     (let sd = new_socket os in
      if sd < 0 then FATAL
      else let r = reuseaddr os sd in
      if r < 0 then FATAL
      else if reuseport \<and> (let ignored = reuseport_opt os sd in r < 0) then FATAL
      else if bind_call os sd shost < 0 then FATAL
      else Inr sd)"

definition net_connect_udp :: "inet \<Rightarrow> sys \<Rightarrow> net_addr \<Rightarrow> int \<Rightarrow> int cres" where
  "net_connect_udp lib os shost src_port =
     (let sd = new_socket os in
      if sd < 0 then FATAL
      else if reuseaddr os sd < 0 then FATAL
      else
        bindE (if src_port > 1 \<and> src_port < 65536
               then bindE (parse_addr lib (''0.0.0.0:'' @ dec_int src_port)) (\<lambda>src.
                    if bind_call os sd src < 0 then FATAL else Inr ())
               else Inr ()) (\<lambda>_.
        if connect_call os sd shost = -1 \<and> \<not> connect_in_progress os then FATAL
        else Inr sd))"

definition thread_start :: "sys \<Rightarrow> ('u \<Rightarrow> 'r cres) \<Rightarrow> 'u \<Rightarrow> 'r cres" where
  "thread_start os callback userdata = (if sigmask os \<noteq> 0 then FATAL else callback userdata)"

definition thread_spawn :: "sys \<Rightarrow> ('u \<Rightarrow> 'r cres) \<Rightarrow> 'u \<Rightarrow> 'r cres cres" where
  "thread_spawn os callback userdata =
     (if pthread_create os \<noteq> 0 then FATAL else Inr (thread_start os callback userdata))"

section \<open>Parsing and printing\<close>

lemma strrchr_none: "c \<notin> set s \<Longrightarrow> strrchr s c = None"
  by (induction s) auto

lemma strrchr_last: "c \<notin> set t \<Longrightarrow> strrchr (s @ c # t) c = Some (length s)"
  by (induction s) (auto simp: strrchr_none)

lemma colon_not_in_dec: "CHR '':'' \<notin> set (dec_nat n)"
proof
  assume "CHR '':'' \<in> set (dec_nat n)"
  then have "c_isdigit (CHR '':'')" using dec_nat_digits [of n] by blast
  then show False by (simp add: c_isdigit_def)
qed

lemma colon_not_in_port: "0 \<le> p \<Longrightarrow> CHR '':'' \<notin> set (dec_int p)"
  by (simp add: dec_int_def colon_not_in_dec)

lemma parse_addr_host_port:
  assumes "length host \<le> 254" "0 \<le> p" "p \<le> 65535"
  shows "parse_addr lib (host @ '':'' @ dec_int p) = net_gethostbyname lib host p"
proof -
  have "strrchr (host @ '':'' @ dec_int p) (CHR '':'') = Some (length host)"
    using strrchr_last [OF colon_not_in_port [OF assms(2)], of host] by simp
  moreover have "atoi (dec_int p) = Inr p"
    using assms atoi_dec_int [of p "[]"] by (simp add: in_int_def INT_MAX_def INT_MIN_def)
  ultimately show ?thesis using assms by (simp add: parse_addr_def)
qed

lemma unat_port: "0 \<le> p \<Longrightarrow> p \<le> 65535 \<Longrightarrow> int (unat (word_of_int p :: u16)) = p"
  by (simp add: unsigned_of_int take_bit_int_eq_self)

text \<open>
  C28. Parsing and printing an IPv4 address are inverse: for a host in the form \<^verbatim>\<open>inet_ntop\<close>
  prints, the text \<^verbatim>\<open>host:port\<close> is read into an address with that port in network order and
  printed as the same text. An IPv6 address is read, but with the length of an IPv4 socket
  address, and always printed as \<^verbatim>\<open>?:0\<close>.
\<close>

theorem addr_round_trip:
  assumes "length host \<le> 200" "0 \<le> p" "p \<le> 65535"
  shows "(\<forall>a. pton4 lib host = Some a \<longrightarrow> ntop4 lib a = host \<longrightarrow>
      (\<exists>na. parse_addr lib (host @ '':'' @ dec_int p) = Inr na \<and> sockaddr na = Sin4 \<and> sockaddr_len na = sizeof_sin4 \<and>
        sin4_addr na = a \<and> int (unat (htons (sin4_port na))) = p \<and> addr_to_str lib na = host @ '':'' @ dec_int p)) \<and>
    (\<forall>a. pton4 lib host = None \<longrightarrow> pton6 lib host = Some a \<longrightarrow>
      (\<exists>na. parse_addr lib (host @ '':'' @ dec_int p) = Inr na \<and> sockaddr na = Sin6 \<and> sockaddr_len na = 16 \<and>
        sin6_addr na = a \<and> addr_to_str lib na = ''?:0''))"
proof -
  have "length (dec_int p) \<le> 5"
    using assms length_dec_nat [of "nat p" 5] by (simp add: dec_int_def)
  then have cut: "take 254 (host @ '':'' @ dec_int p) = host @ '':'' @ dec_int p"
    using assms(1) by simp
  have zero: "dec_int 0 = ''0''" by code_simp
  have parse: "parse_addr lib (host @ '':'' @ dec_int p) = net_gethostbyname lib host p"
    using assms by (intro parse_addr_host_port) auto
  show ?thesis
  proof (intro conjI allI impI)
    fix a assume a: "pton4 lib host = Some a" "ntop4 lib a = host"
    let ?na = "zero_addr\<lparr>ipver := 4, sockaddr := Sin4, sockaddr_len := sizeof_sin4,
      sin4_family := AF_INET, sin4_port := htons (word_of_int p), sin4_addr := a\<rparr>"
    have "addr_to_str lib ?na = host @ '':'' @ dec_int p"
      unfolding addr_to_str_def using a(2) cut unat_port [OF assms(2,3)] by simp
    then show "\<exists>na. parse_addr lib (host @ '':'' @ dec_int p) = Inr na \<and> sockaddr na = Sin4 \<and>
        sockaddr_len na = sizeof_sin4 \<and> sin4_addr na = a \<and> int (unat (htons (sin4_port na))) = p \<and>
        addr_to_str lib na = host @ '':'' @ dec_int p"
      using a(1) unat_port [OF assms(2,3)] unfolding parse
      by (intro exI [of _ ?na]) (simp add: net_gethostbyname_def)
  next
    fix a assume a: "pton4 lib host = None" "pton6 lib host = Some a"
    then show "\<exists>na. parse_addr lib (host @ '':'' @ dec_int p) = Inr na \<and> sockaddr na = Sin6 \<and>
        sockaddr_len na = 16 \<and> sin6_addr na = a \<and> addr_to_str lib na = ''?:0''"
      unfolding parse by (simp add: net_gethostbyname_def sizeof_sin4_def addr_to_str_def zero)
  qed
qed

text \<open>
  \<^verbatim>\<open>net_set_buffer_size\<close> changes nothing: the loop condition tests a variable that is 0,
  so the buffer size is never read or set, whatever the requested size is.
\<close>

theorem set_buffer_size_idle: "net_set_buffer_size os cd max_size send = Inr []"
  by (simp add: net_set_buffer_size_def set_buffer_loop.simps)

theorem addr_round_trip_witness:
  "\<exists>na. parse_addr \<lparr>pton4 = (\<lambda>s. if s = ''10.0.0.1'' then Some [10, 0, 0, 1] else None), pton6 = (\<lambda>s. None),
       ntop4 = (\<lambda>a. ''10.0.0.1''), ntop6 = (\<lambda>a. [])\<rparr> (''10.0.0.1'' @ '':'' @ dec_int 80) = Inr na \<and>
     addr_to_str \<lparr>pton4 = (\<lambda>s. if s = ''10.0.0.1'' then Some [10, 0, 0, 1] else None), pton6 = (\<lambda>s. None),
       ntop4 = (\<lambda>a. ''10.0.0.1''), ntop6 = (\<lambda>a. [])\<rparr> na = ''10.0.0.1'' @ '':'' @ dec_int 80"
  using addr_round_trip [of "''10.0.0.1''" 80 "\<lparr>pton4 = (\<lambda>s. if s = ''10.0.0.1'' then Some [10, 0, 0, 1] else None),
      pton6 = (\<lambda>s. None), ntop4 = (\<lambda>a. ''10.0.0.1''), ntop6 = (\<lambda>a. [])\<rparr>"]
  by auto

end
