(* ===== verification/Leveldb_Receiver.thy ===== *)
theory Leveldb_Receiver
  imports Net_Addr
begin

text \<open>
  \<^verbatim>\<open>fast_leveldb/src/udpreceiver.c\<close> and \<^verbatim>\<open>udpsender.c\<close>: datagrams with PUT, GET and DELETE
  requests, received up to 512 at a time and applied to a LevelDB database. LevelDB is a record of
  functions over a world; each receiver thread has its 512 buffers of 1920 bytes, which start as
  zeros (\<^verbatim>\<open>calloc\<close>) and are never cleared. The receiver of
  \<^verbatim>\<open>how-to-receive-a-million-packets\<close> is the same loop without the database.
\<close>

section \<open>The state\<close>

definition MTU_SIZE :: nat where "MTU_SIZE = 2048 - 64 * 2"
definition MAX_MSG :: nat where "MAX_MSG = 512"

datatype return_code = SUCCESS | GOT_VALUE | NOT_FOUND | INVALID_OP | FAILED

definition PUT :: int where "PUT = 1"
definition GET :: int where "GET = 2"
definition DELETE :: int where "DELETE = 3"

record 'w leveldb =
  leveldb_open :: "string \<Rightarrow> 'w \<Rightarrow> bool \<times> 'w"                       \<comment> \<open>whether there was an error\<close>
  leveldb_put :: "bytes \<Rightarrow> bytes \<Rightarrow> 'w \<Rightarrow> bool \<times> 'w"
  leveldb_get :: "bytes \<Rightarrow> 'w \<Rightarrow> bytes option \<times> bool \<times> 'w"
  leveldb_delete :: "bytes \<Rightarrow> 'w \<Rightarrow> bool \<times> 'w"

record state =
  fd :: int
  bps :: u64
  pps :: u64
  buffers :: "bytes list"
  iov_len :: "nat list"

definition calloc_state :: state where
  "calloc_state = \<lparr>fd = 0, bps = 0, pps = 0, buffers = replicate MAX_MSG (replicate MTU_SIZE 0), iov_len = replicate MAX_MSG 0\<rparr>"

definition init_iovecs :: "state \<Rightarrow> state" where
  "init_iovecs s = s\<lparr>iov_len := replicate MAX_MSG MTU_SIZE\<rparr>"

definition state_init :: "'w leveldb \<Rightarrow> state \<Rightarrow> 'w \<Rightarrow> (state \<times> 'w) cres" where
  "state_init api s w =
     (let (err, w) = leveldb_open api ''/tmp/testdb'' w
      in if err then Inl (ExitProcess 1) else Inr (init_iovecs s, w))"

section \<open>Requests\<close>

text \<open>\<^verbatim>\<open>request[0]\<close> is a signed \<^verbatim>\<open>char\<close>; the sizes are unsigned. The result is the return code,
  the value of a GET, and the database afterwards.\<close>

definition deliver :: "'w leveldb \<Rightarrow> bytes \<Rightarrow> 'w \<Rightarrow> (return_code \<times> bytes option \<times> 'w) cres" where
  "deliver api request w =
     bindE (rd request 0) (\<lambda>op.
     if op = 0 then Inr (FAILED, None, w)
     else if sint op = PUT then
       bindE (rd request 1) (\<lambda>ksize.
       bindE (rd request 2) (\<lambda>vsize.
       bindE (rd_slice request 3 (unat ksize)) (\<lambda>key.
       bindE (rd_slice request (3 + unat ksize) (unat vsize)) (\<lambda>val.
       let (err, w) = leveldb_put api key val w
       in Inr (if err then FAILED else SUCCESS, None, w)))))
     else if sint op = GET then
       bindE (rd request 1) (\<lambda>ksize.
       bindE (rd_slice request 3 (unat ksize)) (\<lambda>key.
       let (val, err, w) = leveldb_get api key w
       in Inr (if err then FAILED else if val \<noteq> None then GOT_VALUE else NOT_FOUND, val, w)))
     else if sint op = DELETE then
       bindE (rd request 1) (\<lambda>ksize.
       bindE (rd_slice request 3 (unat ksize)) (\<lambda>key.
       let (err, w) = leveldb_delete api key w
       in Inr (if err then FAILED else SUCCESS, None, w)))
     else Inr (INVALID_OP, None, w))"

text \<open>\<^verbatim>\<open>recvmmsg\<close> stores the \<open>i\<close>-th waiting datagram at the start of the \<open>i\<close>-th buffer.\<close>

fun store_datagrams :: "nat \<Rightarrow> bytes list \<Rightarrow> state \<Rightarrow> state" where
  "store_datagrams i [] s = s"
| "store_datagrams i (d # ds) s =
     store_datagrams (i + 1) ds (s\<lparr>buffers := (buffers s)[i := put (buffers s ! i) 0 (take (iov_len s ! i) d)]\<rparr>)"

fun deliver_all :: "'w leveldb \<Rightarrow> state \<Rightarrow> nat \<Rightarrow> nat list \<Rightarrow> 'w \<Rightarrow> (int \<times> 'w) cres" where
  "deliver_all api s i [] w = Inr (0, w)"
| "deliver_all api s i (len # lens) w =
     bindE (rd (buffers s) (int i)) (\<lambda>buf.
     bindE (deliver api buf w) (\<lambda>(code, val, w).
     bindE (deliver_all api s (i + 1) lens w) (\<lambda>(bytes, w).
     bindE (c_add bytes (int len)) (\<lambda>bytes. Inr (bytes, w)))))"

definition receive_round :: "'w leveldb \<Rightarrow> bytes list \<Rightarrow> state \<times> 'w \<Rightarrow> (state \<times> 'w) cres" where
  "receive_round api ds sw =
     (let (s, w) = sw;
          ds = take MAX_MSG ds;
          s = store_datagrams 0 ds s
      in bindE (deliver_all api s 0 (map (\<lambda>d. length (take MTU_SIZE d)) ds) w) (\<lambda>(bytes, w).
         Inr (s\<lparr>pps := pps s + of_nat (length ds), bps := bps s + word_of_int bytes\<rparr>, w)))"

datatype receive = Would_block | Recv_failed | Datagrams "bytes list"

text \<open>The loop of a receiver thread over what its calls of \<^verbatim>\<open>recvmmsg\<close> return; it ends only
  with the process.\<close>

fun thread_loop :: "'w leveldb \<Rightarrow> receive list \<Rightarrow> state \<times> 'w \<Rightarrow> (state \<times> 'w) cres" where
  "thread_loop api [] sw = Inr sw"
| "thread_loop api (Would_block # rs) sw = thread_loop api rs sw"
| "thread_loop api (Recv_failed # rs) sw = FATAL"
| "thread_loop api (Datagrams ds # rs) sw = bindE (receive_round api ds sw) (thread_loop api rs)"

section \<open>The program\<close>

record options =
  listen_addr_str :: string
  thread_num :: int
  reuseport :: int

definition receiver_args :: "string list \<Rightarrow> options cres" where
  "receiver_args argv =
     (let def = \<lparr>listen_addr_str = ''0.0.0.0:4321'', thread_num = 1, reuseport = 0\<rparr> in
      if length argv = 1 then Inr def
      else if length argv = 2 then Inr (def\<lparr>listen_addr_str := argv ! 1\<rparr>)
      else if length argv = 3 then
        bindE (atoi (argv ! 2)) (\<lambda>n. Inr (def\<lparr>thread_num := n, listen_addr_str := argv ! 1\<rparr>))
      else if length argv = 4 then
        bindE (atoi (argv ! 3)) (\<lambda>r. bindE (atoi (argv ! 2)) (\<lambda>n.
        Inr (def\<lparr>reuseport := r, thread_num := n, listen_addr_str := argv ! 1\<rparr>)))
      else FATAL)"

text \<open>The loop that starts the threads: the states they run on.\<close>

fun start_threads :: "'w leveldb \<Rightarrow> sys \<Rightarrow> net_addr \<Rightarrow> bool \<Rightarrow> int \<Rightarrow> nat \<Rightarrow> 'w \<Rightarrow> (state list \<times> 'w) cres" where
  "start_threads api os addr reuse main_fd 0 w = Inr ([], w)"
| "start_threads api os addr reuse main_fd (Suc n) w =
     bindE (state_init api calloc_state w) (\<lambda>(s, w).
     bindE (if reuse then bindE (net_bind_udp os addr True) (\<lambda>sd.
              bindE (net_set_buffer_size os sd (4 * 1024) False) (\<lambda>_. Inr sd))
            else Inr main_fd) (\<lambda>sd.
     bindE (start_threads api os addr reuse main_fd n w) (\<lambda>(ss, w).
     Inr (s\<lparr>fd := sd\<rparr> # ss, w))))"

definition receiver_main :: "'w leveldb \<Rightarrow> inet \<Rightarrow> sys \<Rightarrow> string list \<Rightarrow> 'w \<Rightarrow> (state list \<times> 'w) cres" where
  "receiver_main api lib os argv w =
     bindE (receiver_args argv) (\<lambda>o'.
     bindE (parse_addr lib (listen_addr_str o')) (\<lambda>addr.
     bindE (if reuseport o' = 0 then bindE (net_bind_udp os addr False) (\<lambda>sd.
              bindE (net_set_buffer_size os sd (4 * 1024) False) (\<lambda>_. Inr sd))
            else Inr (-1)) (\<lambda>main_fd.
     start_threads api os addr (reuseport o' \<noteq> 0) main_fd (nat (thread_num o')) w)))"

text \<open>The conversion of \<^verbatim>\<open>uint64_t\<close> to \<^verbatim>\<open>double\<close>: rounding to 53 bits, to the nearest value and to the even one of two. \<open>excess\<close> is the number of bits dropped.\<close>

fun excess :: "nat \<Rightarrow> nat" where
  "excess n = (if n < 2 ^ 53 then 0 else Suc (excess (n div 2)))"

declare excess.simps [simp del]

definition to_double :: "u64 \<Rightarrow> nat" where
  "to_double w =
     (let n = unat w; k = excess n; q = n div 2 ^ k; r = n mod 2 ^ k
      in (if 2 * r > 2 ^ k \<or> 2 * r = 2 ^ k \<and> odd q then q + 1 else q) * 2 ^ k)"

text \<open>One report: the new totals, and the packets and bytes since the last one as \<^verbatim>\<open>delta_pps\<close> and \<^verbatim>\<open>delta_bps\<close> hold them. The division into millions
  and the formatting are left out.\<close>

definition report :: "state list \<Rightarrow> u64 \<times> u64 \<Rightarrow> (u64 \<times> u64) \<times> (nat \<times> nat)" where
  "report ss last_totals =
     (let now_pps = foldl (\<lambda>a s. a + pps s) 0 ss;
          now_bps = foldl (\<lambda>a s. a + bps s) 0 ss
      in ((now_pps, now_bps), (to_double (now_pps - fst last_totals), to_double (now_bps - snd last_totals))))"

section \<open>The sender\<close>

text \<open>The payload array; the 32nd byte is sent too but never written.\<close>

definition sender_key :: bytes where "sender_key = map of_char ''abcde123456789''"
definition sender_values :: bytes where "sender_values = map of_char ''zxcvbnmasdfghj''"

definition sender_payload :: "(u8 option list \<times> int) cres" where
  "sender_payload =
     bindE (wr_slice (replicate 32 None) 0 [Some 2, Some 14, Some 14]) (\<lambda>p.
     bindE (wr_slice p 3 (map Some (take 14 sender_key))) (\<lambda>p.
     bindE (wr_slice p (3 + 14) (map Some (take 14 sender_values))) (\<lambda>p.
     Inr (p, 14 + 14 + 4))))"

definition sender_targets :: "inet \<Rightarrow> string list \<Rightarrow> (net_addr list \<times> string list) cres" where
  "sender_targets lib argv =
     (if length argv = 1 then FATAL
      else bindE (mapE (parse_addr lib) (drop 1 argv)) (\<lambda>addrs.
           Inr (addrs, map (\<lambda>a. line (''[*] Sending to '' @ addr_to_str lib a @ '', send buffer 1024 packets'')) addrs)))"

definition sender_thread :: "inet \<Rightarrow> sys \<Rightarrow> net_addr \<Rightarrow> (int \<times> nat) cres" where
  "sender_thread lib os target =
     bindE (net_connect_udp lib os target 11404) (\<lambda>sd.
     bindE sender_payload (\<lambda>(p, sz). Inr (sd, nat sz)))"

datatype send_result = Send_retry | Send_failed | Sent "nat list"

text \<open>The sending loop over the results of \<^verbatim>\<open>sendmmsg\<close>: the bytes counted in each round.\<close>

fun sender_loop :: "send_result list \<Rightarrow> int list cres" where
  "sender_loop [] = Inr []"
| "sender_loop (Send_retry # rs) = sender_loop rs"
| "sender_loop (Send_failed # rs) = FATAL"
| "sender_loop (Sent lens # rs) =
     bindE (foldE (\<lambda>len b. c_add b (int len)) lens 0) (\<lambda>b. bindE (sender_loop rs) (\<lambda>bs. Inr (b # bs)))"

definition sender_main :: "inet \<Rightarrow> sys \<Rightarrow> string list \<Rightarrow> ((int \<times> nat) list \<times> string list) cres" where
  "sender_main lib os argv =
     bindE (sender_targets lib argv) (\<lambda>(addrs, texts).
     bindE (mapE (\<lambda>a. bindE (thread_spawn os (sender_thread lib os) a) (\<lambda>r. r)) addrs) (\<lambda>ts.
     Inr (ts, texts)))"

text \<open>\<^verbatim>\<open>how-to-receive-a-million-packets/udpsender.c\<close>: the same program with a payload of 32 zero bytes.\<close>

definition plain_payload :: "bytes \<times> int" where
  "plain_payload = (replicate 32 0, 32)"

definition plain_sender_thread :: "inet \<Rightarrow> sys \<Rightarrow> net_addr \<Rightarrow> (int \<times> bytes) cres" where
  "plain_sender_thread lib os target =
     bindE (net_connect_udp lib os target 11404) (\<lambda>sd.
     let (p, sz) = plain_payload in bindE (rd_slice p 0 (nat sz)) (\<lambda>b. Inr (sd, b)))"

definition plain_sender_main :: "inet \<Rightarrow> sys \<Rightarrow> string list \<Rightarrow> ((int \<times> bytes) list \<times> string list) cres" where
  "plain_sender_main lib os argv =
     bindE (sender_targets lib argv) (\<lambda>(addrs, texts).
     bindE (mapE (\<lambda>a. bindE (thread_spawn os (plain_sender_thread lib os) a) (\<lambda>r. r)) addrs) (\<lambda>ts.
     Inr (ts, texts)))"

section \<open>The receiver without a database\<close>

definition plain_round :: "bytes list \<Rightarrow> state \<Rightarrow> state cres" where
  "plain_round ds s =
     (let ds = take MAX_MSG ds; s = store_datagrams 0 ds s in
      bindE (foldE (\<lambda>d b. c_add b (int (length (take MTU_SIZE d)))) ds 0) (\<lambda>bytes.
      Inr (s\<lparr>pps := pps s + of_nat (length ds), bps := bps s + word_of_int bytes\<rparr>)))"

fun plain_loop :: "receive list \<Rightarrow> state \<Rightarrow> state cres" where
  "plain_loop [] s = Inr s"
| "plain_loop (Would_block # rs) s = plain_loop rs s"
| "plain_loop (Recv_failed # rs) s = FATAL"
| "plain_loop (Datagrams ds # rs) s = bindE (plain_round ds s) (plain_loop rs)"

fun plain_threads :: "sys \<Rightarrow> net_addr \<Rightarrow> bool \<Rightarrow> int \<Rightarrow> nat \<Rightarrow> state list cres" where
  "plain_threads os addr reuse main_fd 0 = Inr []"
| "plain_threads os addr reuse main_fd (Suc n) =
     bindE (if reuse then bindE (net_bind_udp os addr True) (\<lambda>sd.
              bindE (net_set_buffer_size os sd (4 * 1024) False) (\<lambda>_. Inr sd))
            else Inr main_fd) (\<lambda>sd.
     bindE (plain_threads os addr reuse main_fd n) (\<lambda>ss.
     Inr ((init_iovecs calloc_state)\<lparr>fd := sd\<rparr> # ss)))"

definition plain_receiver_main :: "inet \<Rightarrow> sys \<Rightarrow> string list \<Rightarrow> state list cres" where
  "plain_receiver_main lib os argv =
     bindE (receiver_args argv) (\<lambda>o'.
     bindE (parse_addr lib (listen_addr_str o')) (\<lambda>addr.
     bindE (if reuseport o' = 0 then bindE (net_bind_udp os addr False) (\<lambda>sd.
              bindE (net_set_buffer_size os sd (4 * 1024) False) (\<lambda>_. Inr sd))
            else Inr (-1)) (\<lambda>main_fd.
     plain_threads os addr (reuseport o' \<noteq> 0) main_fd (nat (thread_num o')))))"

section \<open>Requests are delivered inside the buffer\<close>

definition request_bytes :: "u8 \<Rightarrow> bytes \<Rightarrow> bytes \<Rightarrow> bytes" where
  "request_bytes op key val = [op, of_nat (length key), of_nat (length val)] @ key @ val"

text \<open>The documented behaviour of LevelDB for calls that report no error, over the contents
  \<open>view w\<close> of the database.\<close>

definition db_laws :: "'w leveldb \<Rightarrow> ('w \<Rightarrow> bytes \<rightharpoonup> bytes) \<Rightarrow> bool" where
  "db_laws api view \<longleftrightarrow>
     (\<forall>k v w w'. leveldb_put api k v w = (False, w') \<longrightarrow> view w' = (view w)(k \<mapsto> v)) \<and>
     (\<forall>k r w w'. leveldb_get api k w = (r, False, w') \<longrightarrow> r = view w k \<and> view w' = view w) \<and>
     (\<forall>k w w'. leveldb_delete api k w = (False, w') \<longrightarrow> view w' = (view w)(k := None))"

lemma deliver_in_bounds:
  assumes "length buf = MTU_SIZE"
  shows "\<exists>r. deliver api buf w = Inr r"
proof -
  have "3 + unat (buf ! 1) + unat (buf ! 2) \<le> 1920"
    using unat_u8_less [of "buf ! 1"] unat_u8_less [of "buf ! 2"] by simp
  then show ?thesis
    using assms by (auto simp: deliver_def MTU_SIZE_def rd_in rd_slice_in split_beta Let_def)
qed

lemma op_codes: "sint (1 :: u8) = 1" "sint (2 :: u8) = 2" "sint (3 :: u8) = 3"
  by simp_all

lemma deliver_request:
  assumes "length key < 256" "length val < 256"
  shows "deliver api (request_bytes 1 key val @ rest) w =
      (let (err, w) = leveldb_put api key val w in Inr (if err then FAILED else SUCCESS, None, w))"
    and "deliver api (request_bytes 2 key val @ rest) w =
      (let (v, err, w) = leveldb_get api key w in
       Inr (if err then FAILED else if v \<noteq> None then GOT_VALUE else NOT_FOUND, v, w))"
    and "deliver api (request_bytes 3 key val @ rest) w =
      (let (err, w) = leveldb_delete api key w in Inr (if err then FAILED else SUCCESS, None, w))"
proof -
  let ?b = "\<lambda>op. request_bytes op key val @ rest"
  have sizes: "rd (?b op) 0 = Inr op" "rd (?b op) 1 = Inr (of_nat (length key))" "rd (?b op) 2 = Inr (of_nat (length val))" for op
    by (simp_all add: request_bytes_def rd_def)
  have lens: "unat (of_nat (length key) :: u8) = length key" "unat (of_nat (length val) :: u8) = length val"
    using assms by (simp_all add: unat_of_nat)
  have keys: "rd_slice (?b op) 3 (length key) = Inr key" "rd_slice (?b op) (3 + length key) (length val) = Inr val" for op
    by (simp_all add: request_bytes_def rd_slice_def numeral_3_eq_3)
  show "deliver api (request_bytes 1 key val @ rest) w =
      (let (err, w) = leveldb_put api key val w in Inr (if err then FAILED else SUCCESS, None, w))"
    unfolding deliver_def sizes bindE_Inr op_codes by (simp add: PUT_def lens keys)
  show "deliver api (request_bytes 2 key val @ rest) w =
      (let (v, err, w) = leveldb_get api key w in
       Inr (if err then FAILED else if v \<noteq> None then GOT_VALUE else NOT_FOUND, v, w))"
    unfolding deliver_def sizes bindE_Inr op_codes by (simp add: PUT_def GET_def lens keys)
  show "deliver api (request_bytes 3 key val @ rest) w =
      (let (err, w) = leveldb_delete api key w in Inr (if err then FAILED else SUCCESS, None, w))"
    unfolding deliver_def sizes bindE_Inr op_codes by (simp add: PUT_def GET_def DELETE_def lens keys)
qed

text \<open>
  C16. Delivering a request never reads outside the 1920-byte buffer, whatever its bytes are. After
  a PUT that returns \<^verbatim>\<open>SUCCESS\<close>, a GET of the same key that does not fail returns
  \<^verbatim>\<open>GOT_VALUE\<close> with exactly the value that was put; after a DELETE it returns
  \<^verbatim>\<open>NOT_FOUND\<close>.
\<close>

theorem deliver_put_get:
  assumes "db_laws api view" "length key < 256" "length val < 256" "length any < 256"
  shows "(\<forall>buf w. length buf = MTU_SIZE \<longrightarrow> (\<exists>r. deliver api buf w = Inr r)) \<and>
    (\<forall>r1 r2 r3 w w1 w2 v c.
       deliver api (request_bytes 1 key val @ r1) w = Inr (SUCCESS, v, w1) \<longrightarrow>
       deliver api (request_bytes 2 key any @ r2) w1 = Inr (c, r3, w2) \<longrightarrow> c \<noteq> FAILED \<longrightarrow>
       c = GOT_VALUE \<and> r3 = Some val) \<and>
    (\<forall>r1 r2 r3 w w1 w2 v c.
       deliver api (request_bytes 3 key any @ r1) w = Inr (SUCCESS, v, w1) \<longrightarrow>
       deliver api (request_bytes 2 key any @ r2) w1 = Inr (c, r3, w2) \<longrightarrow> c \<noteq> FAILED \<longrightarrow> c = NOT_FOUND)"
proof (intro conjI allI impI)
  show "\<exists>r. deliver api buf w = Inr r" if "length buf = MTU_SIZE" for buf w
    using deliver_in_bounds [OF that] .
next
  fix r1 r2 r3 w w1 w2 v c
  assume p: "deliver api (request_bytes 1 key val @ r1) w = Inr (SUCCESS, v, w1)"
    and g: "deliver api (request_bytes 2 key any @ r2) w1 = Inr (c, r3, w2)" and c: "c \<noteq> FAILED"
  have "view w1 key = Some val"
    using p assms(1) deliver_request(1) [OF assms(2,3), of api r1 w] by (auto simp: db_laws_def split: if_splits prod.splits)
  moreover have got: "leveldb_get api key w1 = (r3, False, w2)" "c = (if r3 \<noteq> None then GOT_VALUE else NOT_FOUND)"
    using g c deliver_request(2) [OF assms(2,4), of api r2 w1] by (auto split: if_splits prod.splits)
  moreover have "r3 = view w1 key" using assms(1) got(1) unfolding db_laws_def by blast
  ultimately show "c = GOT_VALUE" "r3 = Some val" by simp_all
next
  fix r1 r2 r3 w w1 w2 v c
  assume d: "deliver api (request_bytes 3 key any @ r1) w = Inr (SUCCESS, v, w1)"
    and g: "deliver api (request_bytes 2 key any @ r2) w1 = Inr (c, r3, w2)" and c: "c \<noteq> FAILED"
  have "view w1 key = None"
    using d assms(1) deliver_request(3) [OF assms(2,4), of api r1 w] by (auto simp: db_laws_def split: if_splits prod.splits)
  moreover have got: "leveldb_get api key w1 = (r3, False, w2)" "c = (if r3 \<noteq> None then GOT_VALUE else NOT_FOUND)"
    using g c deliver_request(2) [OF assms(2,4), of api r2 w1] by (auto split: if_splits prod.splits)
  moreover have "r3 = view w1 key" using assms(1) got(1) unfolding db_laws_def by blast
  ultimately show "c = NOT_FOUND" by simp
qed

section \<open>What the length of a datagram is not used for\<close>

definition receiver_inv :: "state \<Rightarrow> bool" where
  "receiver_inv s \<longleftrightarrow> length (buffers s) = MAX_MSG \<and> (\<forall>b \<in> set (buffers s). length b = MTU_SIZE) \<and>
     iov_len s = replicate MAX_MSG MTU_SIZE"

lemma receiver_inv_init: "receiver_inv (init_iovecs calloc_state)"
  by (simp add: receiver_inv_def init_iovecs_def calloc_state_def)

text \<open>
  The receiver ignores how long a datagram was: an empty datagram makes it carry out the
  request that the buffer still holds from the previous datagram once more, and a datagram that
  announces more than it contains is completed with the bytes of the previous one.
\<close>

theorem stale_request_delivered:
  assumes "receiver_inv s" and "length d \<le> MTU_SIZE"
  shows "\<exists>code v w' s'. deliver api (d @ drop (length d) (buffers s ! 0)) w = Inr (code, v, w') \<and>
    receive_round api [d] (s, w) = Inr (s', w') \<and> receiver_inv s' \<and>
    buffers s' ! 0 = d @ drop (length d) (buffers s ! 0)"
proof -
  let ?b = "d @ drop (length d) (buffers s ! 0)"
  have zero: "0 < length (buffers s)" "iov_len s ! 0 = MTU_SIZE"
    using assms(1) by (simp_all add: receiver_inv_def MAX_MSG_def)
  have len: "length (buffers s ! 0) = MTU_SIZE"
    using assms(1) zero(1) nth_mem by (auto simp: receiver_inv_def)
  have put: "put (buffers s ! 0) 0 (take (iov_len s ! 0) d) = ?b"
    using assms(2) zero(2) by (simp add: put_def)
  then have "length ?b = MTU_SIZE" using len assms(2) by simp
  then obtain code v w' where del: "deliver api ?b w = Inr (code, v, w')"
    using deliver_in_bounds [of ?b api w] by auto
  define s1 where "s1 = s\<lparr>buffers := (buffers s)[0 := ?b]\<rparr>"
  have s1: "store_datagrams 0 [d] s = s1" using put by (simp add: s1_def)
  have "rd (buffers s1) 0 = Inr ?b" using zero(1) by (simp add: s1_def rd_def)
  moreover have "c_add 0 (int (length d)) = Inr (int (length d))"
    using assms(2) by (simp add: c_int_defs MTU_SIZE_def)
  ultimately have "deliver_all api s1 0 [length d] w = Inr (int (length d), w')" using del by simp
  moreover have "take MAX_MSG [d] = [d]" "length (take MTU_SIZE d) = length d"
    using assms(2) by (simp_all add: MAX_MSG_def)
  ultimately have "receive_round api [d] (s, w) =
      Inr (s1\<lparr>pps := pps s1 + 1, bps := bps s1 + word_of_int (int (length d))\<rparr>, w')"
    using s1 unfolding receive_round_def
    by (simp add: Let_def del: store_datagrams.simps deliver_all.simps)
  moreover have "receiver_inv (s1\<lparr>pps := p, bps := q\<rparr>)" for p q
    using assms(1) \<open>length ?b = MTU_SIZE\<close> set_update_subset_insert [of "buffers s" 0 ?b]
    by (auto simp: receiver_inv_def s1_def)
  ultimately show ?thesis using del zero(1) by (intro exI conjI) (auto simp: s1_def)
qed

section \<open>More than one thread\<close>

text \<open>LevelDB locks a database: opening one that is already open fails.\<close>

definition open_law :: "'w leveldb \<Rightarrow> bool" where
  "open_law api \<longleftrightarrow> (\<forall>path w w'. leveldb_open api path w = (False, w') \<longrightarrow> (\<nexists>w2. leveldb_open api path w' = (False, w2)))"

text \<open>
  The receiver cannot run with more than one thread: each thread opens the same database, so
  the second \<^verbatim>\<open>state_init\<close> exits the process and \<^verbatim>\<open>main\<close> never reaches its report loop.
\<close>

theorem second_thread_exits:
  assumes "open_law api" and "receiver_args argv = Inr o'" and "thread_num o' \<ge> 2"
  shows "\<nexists>r. receiver_main api lib os argv w = Inr r"
proof -
  have no_start: "\<nexists>r. start_threads api os addr reuse main_fd (Suc (Suc n)) w = Inr r" for addr reuse main_fd n w
    using assms(1) by (auto simp: state_init_def open_law_def bindE_eq_Inr split: prod.splits if_splits)
  define n where "n = nat (thread_num o') - 2"
  have n: "nat (thread_num o') = Suc (Suc n)" using assms(3) by (simp add: n_def)
  show ?thesis
    using no_start unfolding receiver_main_def assms(2) bindE_Inr n by (auto simp: bindE_eq_Inr simp del: start_threads.simps)
qed

section \<open>Witnesses\<close>

text \<open>A store of one database with its lock.\<close>

definition mem_leveldb :: "((bytes \<rightharpoonup> bytes) \<times> bool) leveldb" where
  "mem_leveldb = \<lparr>leveldb_open = (\<lambda>path w. (snd w, (fst w, True))),
     leveldb_put = (\<lambda>k v w. (False, ((fst w)(k \<mapsto> v), snd w))),
     leveldb_get = (\<lambda>k w. (fst w k, False, w)),
     leveldb_delete = (\<lambda>k w. (False, ((fst w)(k := None), snd w)))\<rparr>"

lemma mem_leveldb_laws: "db_laws mem_leveldb fst" "open_law mem_leveldb"
  by (auto simp: db_laws_def open_law_def mem_leveldb_def)

theorem deliver_put_get_witness:
  "\<exists>w1 w2. deliver mem_leveldb (request_bytes 1 [7] [8, 9] @ []) (Map.empty, True) = Inr (SUCCESS, None, w1) \<and>
     deliver mem_leveldb (request_bytes 2 [7] [] @ []) w1 = Inr (GOT_VALUE, Some [8, 9], w2)"
proof -
  have 1: "deliver mem_leveldb (request_bytes 1 [7] [8, 9] @ []) (Map.empty, True) = Inr (SUCCESS, None, [[7] \<mapsto> [8, 9]], True)"
    by (subst deliver_request(1)) (simp_all add: mem_leveldb_def)
  have 2: "deliver mem_leveldb (request_bytes 2 [7] [] @ []) ([[7] \<mapsto> [8, 9]], True) = Inr (GOT_VALUE, Some [8, 9], [[7] \<mapsto> [8, 9]], True)"
    by (subst deliver_request(2)) (simp_all add: mem_leveldb_def)
  have "length [7 :: u8] < 256" "length [8, 9 :: u8] < 256" "length ([] :: bytes) < 256" by simp_all
  from deliver_put_get [OF mem_leveldb_laws(1) this] 1 2 show ?thesis by blast
qed

theorem stale_request_delivered_witness:
  "\<exists>code v w' s'. deliver mem_leveldb ([] @ drop (length []) (buffers (init_iovecs calloc_state) ! 0)) (Map.empty, True) = Inr (code, v, w') \<and>
     receive_round mem_leveldb [[]] (init_iovecs calloc_state, (Map.empty, True)) = Inr (s', w')"
  using stale_request_delivered [OF receiver_inv_init, of "[]" mem_leveldb "(Map.empty, True)"] by auto

theorem second_thread_exits_witness:
  "\<forall>lib os. \<nexists>r. receiver_main mem_leveldb lib os [''recv'', ''0.0.0.0:4321'', ''2''] (Map.empty, False) = Inr r"
proof -
  have "receiver_args [''recv'', ''0.0.0.0:4321'', ''2''] = Inr \<lparr>listen_addr_str = ''0.0.0.0:4321'', thread_num = 2, reuseport = 0\<rparr>"
    by code_simp
  from second_thread_exits [OF mem_leveldb_laws(2) this] show ?thesis by simp
qed

end
