(* ===== verification/Dpdk_Responder.thy ===== *)
theory Dpdk_Responder
  imports Inet_Checksum "HOL-Library.Multiset"
begin

text \<open>
  \<^verbatim>\<open>client_server/dpdk/src/basicfwd.c\<close>: a DPDK program that is meant to answer ARP requests for
  its address and ICMP echo requests, and sends every received packet back out of its port. A
  packet is the memory of its mbuf from the Ethernet header on; the port's hardware address, what the program
  uses of DPDK's headers and the results of the DPDK calls are parameters, and the debugging hex dump is left out. The proofs
  give the exact effect on ARP packets (the address is compared in the wrong byte order), that
  the updated ICMP checksum is never valid, and that every received buffer is sent or freed.
\<close>

section \<open>Packets\<close>

definition ETHER_TYPE_ARP :: u16 where "ETHER_TYPE_ARP = 0x0806"
definition ETHER_TYPE_IPv4 :: u16 where "ETHER_TYPE_IPv4 = 0x0800"
definition ARP_OP_REQUEST :: u16 where "ARP_OP_REQUEST = 1"
definition ARP_OP_REPLY :: u16 where "ARP_OP_REPLY = 2"
definition IP_ICMP_ECHO_REQUEST :: int where "IP_ICMP_ECHO_REQUEST = 8"
definition IP_ICMP_ECHO_REPLY :: int where "IP_ICMP_ECHO_REPLY = 0"
definition BURST_SIZE :: nat where "BURST_SIZE = 32"

text \<open>
  What the program uses of DPDK's headers, as parameters: the macro \<^verbatim>\<open>IPv4(a,b,c,d)\<close>, documented to give the address in host byte order, and \<^verbatim>\<open>ether_addr_copy\<close>
  between two places of the packet, documented to copy the six bytes of a hardware address.
\<close>

record rte_headers =
  IPv4 :: "nat \<Rightarrow> nat \<Rightarrow> nat \<Rightarrow> nat \<Rightarrow> u32"
  ether_addr_copy :: "bytes \<Rightarrow> nat \<Rightarrow> nat \<Rightarrow> bytes cres"

definition ipv4_law :: "rte_headers \<Rightarrow> bool" where
  "ipv4_law rte \<longleftrightarrow> IPv4 rte 192 168 10 97 = 0xC0A80A61"

definition copy_law :: "rte_headers \<Rightarrow> bool" where
  "copy_law rte \<longleftrightarrow> (\<forall>mem src dst. ether_addr_copy rte mem src dst = bindE (rd_slice mem src 6) (wr_slice mem dst))"

definition my_ip :: "rte_headers \<Rightarrow> u32" where
  "my_ip rte = IPv4 rte 192 168 10 97"

text \<open>The Ethernet header is at 0 (destination, source, type), the ARP header at 14: operation at
  20, sender addresses at 22 and 28, target addresses at 32 and 38.\<close>

definition arp_reply :: "rte_headers \<Rightarrow> bytes \<Rightarrow> bytes \<Rightarrow> bytes cres" where
  "arp_reply rte mac mem =
     bindE (wr_u16 mem 20 (htons ARP_OP_REPLY)) (\<lambda>mem.
     bindE (ether_addr_copy rte mem 6 0) (\<lambda>mem.
     bindE (wr_slice mem 6 mac) (\<lambda>mem.
     bindE (ether_addr_copy rte mem 22 32) (\<lambda>mem.
     bindE (rd_u32 mem 28) (\<lambda>sip.
     bindE (wr_u32 mem 38 sip) (\<lambda>mem.
     bindE (wr_slice mem 22 mac) (\<lambda>mem.
     wr_u32 mem 28 (my_ip rte))))))))"

text \<open>The ICMP header is taken to follow an IP header of 20 bytes.\<close>

definition icmp_reply :: "bytes \<Rightarrow> bytes cres" where
  "icmp_reply mem =
     bindE (rd mem 34) (\<lambda>t.
     if uint t = IP_ICMP_ECHO_REQUEST then
       bindE (wr mem 34 (word_of_int IP_ICMP_ECHO_REPLY)) (\<lambda>mem.
       bindE (rd_u16 mem 36) (\<lambda>cksum.
       wr_u16 mem 36 (word_of_int (uint cksum + push_bit 8 IP_ICMP_ECHO_REQUEST + NOT (push_bit 8 IP_ICMP_ECHO_REPLY)))))
     else Inr mem)"

definition packet_handler :: "rte_headers \<Rightarrow> bytes \<Rightarrow> bytes \<Rightarrow> bytes cres" where
  "packet_handler rte mac mem =
     bindE (rd_u16 mem 12) (\<lambda>ether_type.
     if htons ether_type = ETHER_TYPE_ARP then
       bindE (rd_u32 mem 38) (\<lambda>tip.
       if tip = my_ip rte then
         bindE (rd_u16 mem 20) (\<lambda>op. if op = htons ARP_OP_REQUEST then arp_reply rte mac mem else Inr mem)
       else Inr mem)
     else if htons ether_type = ETHER_TYPE_IPv4 then
       bindE (rd mem 23) (\<lambda>proto. if proto = 1 then icmp_reply mem else Inr mem)
     else Inr mem)"

definition rx_handler :: "rte_headers \<Rightarrow> bytes \<Rightarrow> bytes list \<Rightarrow> bytes list cres" where
  "rx_handler rte mac bufs = mapE (packet_handler rte mac) bufs"

section \<open>The forwarding loop\<close>

record burst =
  from_port :: nat
  received :: "bytes list"     \<comment> \<open>what \<^verbatim>\<open>rte_eth_rx_burst\<close> yields, cut to 32\<close>
  taken :: nat                 \<comment> \<open>how many of them \<^verbatim>\<open>rte_eth_tx_burst\<close> accepts\<close>

record port_log =
  sent :: "(nat \<times> bytes) list"
  freed :: "bytes list"

definition forward_burst :: "rte_headers \<Rightarrow> (nat \<Rightarrow> bytes) \<Rightarrow> burst \<Rightarrow> port_log \<Rightarrow> port_log cres" where
  "forward_burst rte macs b log =
     bindE (rx_handler rte (macs (from_port b)) (take BURST_SIZE (received b))) (\<lambda>bufs.
     let nb_rx = length bufs in
     if nb_rx = 0 then Inr log
     else let nb_tx = min (taken b) nb_rx in
       Inr \<lparr>sent = sent log @ map (Pair (from_port b)) (take nb_tx bufs),
            freed = freed log @ (if nb_tx < nb_rx then drop nb_tx bufs else [])\<rparr>)"

definition lcore_loop :: "rte_headers \<Rightarrow> (nat \<Rightarrow> bytes) \<Rightarrow> burst list \<Rightarrow> port_log \<Rightarrow> port_log cres" where
  "lcore_loop rte macs bs log = foldE (forward_burst rte macs) bs log"

section \<open>Set-up\<close>

record dpdk =
  headers :: rte_headers
  eal_init :: int
  nb_ports :: nat
  pool_created :: bool
  valid_port :: "nat \<Rightarrow> bool"
  dev_configure :: "nat \<Rightarrow> bool \<Rightarrow> int"    \<comment> \<open>with or without the fast-free offload\<close>
  fast_free_capable :: "nat \<Rightarrow> bool"
  adjust_desc :: "nat \<Rightarrow> int"
  rx_queue_setup :: "nat \<Rightarrow> int"
  tx_queue_setup :: "nat \<Rightarrow> bool \<Rightarrow> int"
  dev_start :: "nat \<Rightarrow> int"
  macaddr :: "nat \<Rightarrow> bytes"
  socket_of :: "nat \<Rightarrow> int"
  my_socket :: int
  lcore_id :: nat
  lcore_count :: nat

datatype port_event = Printed string | Promiscuous nat

definition mac_text :: "nat \<Rightarrow> bytes \<Rightarrow> string" where
  "mac_text port mac = line (''Port '' @ dec_nat port @ '' MAC:'' @ concat (map (\<lambda>b. '' '' @ hex2 b) (take 6 mac)))"

text \<open>The return value, what is printed, and that the port is put into promiscuous mode.\<close>

definition port_init :: "dpdk \<Rightarrow> nat \<Rightarrow> int \<times> port_event list" where
  "port_init api port =
     (if \<not> valid_port api port then (-1, [])
      else let offload = fast_free_capable api port;
               retval = dev_configure api port offload in
      if retval \<noteq> 0 then (retval, [])
      else let retval = adjust_desc api port in
      if retval \<noteq> 0 then (retval, [])
      else let retval = rx_queue_setup api port in
      if retval < 0 then (retval, [])
      else let retval = tx_queue_setup api port offload in
      if retval < 0 then (retval, [])
      else let retval = dev_start api port in
      if retval < 0 then (retval, [])
      else (0, [Printed (mac_text port (macaddr api port)), Promiscuous port]))"

fun init_ports :: "dpdk \<Rightarrow> nat list \<Rightarrow> port_event list cres" where
  "init_ports api [] = Inr []"
| "init_ports api (p # ps) =
     (let (r, evs) = port_init api p in
      if r \<noteq> 0 then Inl (ExitProcess 1) else bindE (init_ports api ps) (\<lambda>rest. Inr (evs @ rest)))"

definition lcore_main :: "dpdk \<Rightarrow> burst list \<Rightarrow> (port_event list \<times> port_log) cres" where
  "lcore_main api bs =
     (let warnings = [Printed (line (''WARNING, port '' @ dec_nat p @ '' is on remote NUMA node to polling thread.'' @ newline # CHR 0x09 # ''Performance will not be optimal.''))
                      . p \<leftarrow> [0..<nb_ports api], socket_of api p > 0 \<and> socket_of api p \<noteq> my_socket api]
      in bindE (lcore_loop (headers api) (macaddr api) bs \<lparr>sent = [], freed = []\<rparr>) (\<lambda>log.
         Inr (warnings @ [Printed (newline # line (''Core '' @ dec_nat (lcore_id api) @ '' forwarding packets. [Ctrl+C to quit]''))], log)))"

definition responder_main :: "dpdk \<Rightarrow> burst list \<Rightarrow> (port_event list \<times> port_log) cres" where
  "responder_main api bs =
     (if eal_init api < 0 then Inl (ExitProcess 1)
      else if nb_ports api < 1 then Inl (ExitProcess 1)
      else if \<not> pool_created api then Inl (ExitProcess 1)
      else bindE (init_ports api [0..<nb_ports api]) (\<lambda>evs.
           bindE (lcore_main api bs) (\<lambda>(out, log).
           Inr (evs @ (if lcore_count api > 1 then [Printed (newline # line ''WARNING: Too many lcores enabled. Only 1 used.'')] else []) @ out, log))))"

section \<open>ARP\<close>

lemma my_ip_bytes: "ipv4_law rte \<Longrightarrow> le_bytes 4 (unat (my_ip rte)) = [97, 10, 168, 192]"
  by (simp add: ipv4_law_def my_ip_def le_bytes_4)

lemma rd_u16_app: "length pre = n \<Longrightarrow> rd_u16 (pre @ a # b # rest) n = Inr (of_nat (unat a + 256 * unat b))"
  by (subst rd_u16_in) (auto simp: nth_append)

lemma rd_slice_app: "length pre = n \<Longrightarrow> length xs = k \<Longrightarrow> rd_slice (pre @ xs @ rest) n k = Inr xs"
  by (simp add: rd_slice_def)

lemma wr_slice_app: "length pre = n \<Longrightarrow> length xs = length ys \<Longrightarrow> wr_slice (pre @ xs @ rest) n ys = Inr (pre @ ys @ rest)"
  by (simp add: wr_slice_def)

lemma rd_u32_app: "length pre = n \<Longrightarrow> length xs = 4 \<Longrightarrow> rd_u32 (pre @ xs @ rest) n = Inr (of_nat (le_val xs))"
  by (simp add: rd_u32_def rd_slice_app)

lemma le_bytes_of_val4: "length xs = 4 \<Longrightarrow> le_bytes 4 (unat (of_nat (le_val xs) :: u32)) = xs"
  using le_val_less [of xs] le_bytes_le_val [of xs] by (simp add: unat_of_nat)

lemma tip_is:
  assumes "length tip = 4"
  shows "of_nat (le_val tip) = (ip :: u32) \<longleftrightarrow> tip = le_bytes 4 (unat ip)"
proof -
  have "unat ip < 4294967296" using unsigned_less [of ip, where 'a = nat] by simp
  then have "le_val (le_bytes 4 (unat ip)) = unat ip" by (simp add: le_val_le_bytes)
  then show ?thesis using le_bytes_of_val4 [OF assms] by auto
qed

text \<open>An Ethernet frame with an ARP packet, field by field.\<close>

definition arp_frame :: "bytes \<Rightarrow> bytes \<Rightarrow> bytes \<Rightarrow> u8 \<Rightarrow> u8 \<Rightarrow> bytes \<Rightarrow> bytes \<Rightarrow> bytes \<Rightarrow> bytes \<Rightarrow> bytes \<Rightarrow> bytes" where
  "arp_frame dmac smac fixed hi op sha sip tha tip rest =
     dmac @ smac @ [8, 6] @ fixed @ [hi, op] @ sha @ sip @ tha @ tip @ rest"

definition arp_lengths :: "bytes \<Rightarrow> bytes \<Rightarrow> bytes \<Rightarrow> bytes \<Rightarrow> bytes \<Rightarrow> bytes \<Rightarrow> bytes \<Rightarrow> bool" where
  "arp_lengths dmac smac fixed sha sip tha tip \<longleftrightarrow>
     length dmac = 6 \<and> length smac = 6 \<and> length fixed = 6 \<and> length sha = 6 \<and> length sip = 4 \<and> length tha = 6 \<and> length tip = 4"

lemma htons_8_6: "htons (of_nat (unat (8 :: u8) + 256 * unat (6 :: u8))) = 0x0806"
  by (simp add: htons_def be_bytes_def le_bytes_2)

lemma arp_op_word: "of_nat (unat (hi :: u8) + 256 * unat (op :: u8)) = htons ARP_OP_REQUEST \<longleftrightarrow> hi = 0 \<and> op = 1"
proof -
  have "unat (htons ARP_OP_REQUEST) = 256"
    by (simp add: ARP_OP_REQUEST_def htons_def be_bytes_def le_bytes_2)
  moreover have "unat (of_nat (unat hi + 256 * unat op) :: u16) = unat hi + 256 * unat op"
    using unat_word16 [of hi op] by simp
  ultimately have "of_nat (unat hi + 256 * unat op) = htons ARP_OP_REQUEST \<longleftrightarrow> unat hi + 256 * unat op = 256"
    by (simp add: word_unat_eq_iff del: of_nat_add of_nat_mult)
  also have "\<dots> \<longleftrightarrow> unat hi = unat (0 :: u8) \<and> unat op = unat (1 :: u8)" using unsigned_less [of hi, where 'a = nat] by auto presburger+
  finally show ?thesis by (simp add: word_unat_eq_iff del: of_nat_add of_nat_mult)
qed

lemma arp_reply_frame:
  assumes "arp_lengths dmac smac fixed sha sip tha tip" "length mac = 6" "ipv4_law rte" "copy_law rte"
  shows "arp_reply rte mac (arp_frame dmac smac fixed hi op sha sip tha tip rest) =
    Inr (arp_frame smac mac fixed 0 2 mac [97, 10, 168, 192] sha sip rest)"
proof -
  have l: "length dmac = 6" "length smac = 6" "length fixed = 6" "length sha = 6" "length sip = 4" "length tha = 6" "length tip = 4"
    using assms(1) by (simp_all add: arp_lengths_def)
  note copy = assms(4) [unfolded copy_law_def, rule_format]
  have op: "le_bytes 2 (unat (htons ARP_OP_REPLY)) = [0, 2]"
    by (simp only: le_bytes_htons) (simp add: ARP_OP_REPLY_def be_bytes_def le_bytes_2)
  have 1: "wr_u16 (arp_frame dmac smac fixed hi op sha sip tha tip rest) 20 (htons ARP_OP_REPLY) =
      Inr (arp_frame dmac smac fixed 0 2 sha sip tha tip rest)"
    using wr_slice_app [of "dmac @ smac @ [8, 6] @ fixed" 20 "[hi, op]" "[0, 2]" "sha @ sip @ tha @ tip @ rest"] l
    by (simp add: wr_u16_def op arp_frame_def)
  have 2: "ether_addr_copy rte (arp_frame dmac smac fixed 0 2 sha sip tha tip rest) 6 0 =
      Inr (arp_frame smac smac fixed 0 2 sha sip tha tip rest)"
    using rd_slice_app [of dmac 6 smac 6] wr_slice_app [of "[]" 0 dmac smac] l
    by (simp add: copy arp_frame_def)
  have 3: "wr_slice (arp_frame smac smac fixed 0 2 sha sip tha tip rest) 6 mac =
      Inr (arp_frame smac mac fixed 0 2 sha sip tha tip rest)"
    using wr_slice_app [of smac 6 smac mac] l assms(2) by (simp add: arp_frame_def)
  have 4: "ether_addr_copy rte (arp_frame smac mac fixed 0 2 sha sip tha tip rest) 22 32 =
      Inr (arp_frame smac mac fixed 0 2 sha sip sha tip rest)"
    using rd_slice_app [of "smac @ mac @ [8, 6] @ fixed @ [0, 2]" 22 sha 6 "sip @ tha @ tip @ rest"]
      wr_slice_app [of "smac @ mac @ [8, 6] @ fixed @ [0, 2] @ sha @ sip" 32 tha sha "tip @ rest"] l assms(2)
    by (simp add: copy arp_frame_def)
  have 5: "rd_u32 (arp_frame smac mac fixed 0 2 sha sip sha tip rest) 28 = Inr (of_nat (le_val sip))"
    using rd_u32_app [of "smac @ mac @ [8, 6] @ fixed @ [0, 2] @ sha" 28 sip "sha @ tip @ rest"] l assms(2)
    by (simp add: arp_frame_def)
  have 6: "wr_u32 (arp_frame smac mac fixed 0 2 sha sip sha tip rest) 38 (of_nat (le_val sip)) =
      Inr (arp_frame smac mac fixed 0 2 sha sip sha sip rest)"
    using wr_slice_app [of "smac @ mac @ [8, 6] @ fixed @ [0, 2] @ sha @ sip @ sha" 38 tip sip rest] l assms(2)
    by (simp add: wr_u32_def le_bytes_of_val4 arp_frame_def)
  have 7: "wr_slice (arp_frame smac mac fixed 0 2 sha sip sha sip rest) 22 mac =
      Inr (arp_frame smac mac fixed 0 2 mac sip sha sip rest)"
    using wr_slice_app [of "smac @ mac @ [8, 6] @ fixed @ [0, 2]" 22 sha mac "sip @ sha @ sip @ rest"] l assms(2)
    by (simp add: arp_frame_def)
  have 8: "wr_u32 (arp_frame smac mac fixed 0 2 mac sip sha sip rest) 28 (my_ip rte) =
      Inr (arp_frame smac mac fixed 0 2 mac [97, 10, 168, 192] sha sip rest)"
    using wr_slice_app [of "smac @ mac @ [8, 6] @ fixed @ [0, 2] @ mac" 28 sip "[97, 10, 168, 192]" "sha @ sip @ rest"] l assms(2)
    by (simp add: wr_u32_def my_ip_bytes [of rte, OF assms(3)] arp_frame_def)
  show ?thesis unfolding arp_reply_def by (simp only: 1 2 3 4 5 6 7 8 bindE_Inr)
qed

text \<open>
  C26. What the program does with an ARP packet, byte for byte: a request is turned into a correct
  reply, with the port's hardware address and sender and target exchanged, exactly when the target
  address is 97.10.168.192, the program's own address 192.168.10.97 with its bytes reversed; every
  other ARP packet, a request for 192.168.10.97 among them, is left as it was.
\<close>

theorem arp_handled:
  assumes "arp_lengths dmac smac fixed sha sip tha tip" "length mac = 6" "ipv4_law rte" "copy_law rte"
  shows "packet_handler rte mac (arp_frame dmac smac fixed hi op sha sip tha tip rest) =
    Inr (if hi = 0 \<and> op = 1 \<and> tip = [97, 10, 168, 192]
         then arp_frame smac mac fixed 0 2 mac tip sha sip rest
         else arp_frame dmac smac fixed hi op sha sip tha tip rest)"
proof -
  let ?f = "arp_frame dmac smac fixed hi op sha sip tha tip rest"
  have l: "length dmac = 6" "length smac = 6" "length fixed = 6" "length sha = 6" "length sip = 4" "length tha = 6" "length tip = 4"
    using assms(1) by (simp_all add: arp_lengths_def)
  have et: "rd_u16 ?f 12 = Inr (of_nat (unat (8 :: u8) + 256 * unat (6 :: u8)))"
    using rd_u16_app [of "dmac @ smac" 12 8 6] l by (simp add: arp_frame_def)
  have tip: "rd_u32 ?f 38 = Inr (of_nat (le_val tip))"
    using rd_u32_app [of "dmac @ smac @ [8, 6] @ fixed @ [hi, op] @ sha @ sip @ tha" 38 tip rest] l
    by (simp add: arp_frame_def)
  have op: "rd_u16 ?f 20 = Inr (of_nat (unat hi + 256 * unat op))"
    using rd_u16_app [of "dmac @ smac @ [8, 6] @ fixed" 20 hi op] l by (simp add: arp_frame_def)
  show ?thesis
    unfolding packet_handler_def et bindE_Inr htons_8_6 tip op tip_is [OF l(7)] my_ip_bytes [of rte, OF assms(3)] arp_op_word
    using arp_reply_frame [OF assms] by (auto simp: ETHER_TYPE_ARP_def)
qed

section \<open>ICMP\<close>

text \<open>A frame with an IPv4 packet and an ICMP echo request: 12 bytes of addresses, the type, nine
  bytes of the IP header, the protocol, ten more bytes, and the message.\<close>

definition echo_frame :: "bytes \<Rightarrow> bytes \<Rightarrow> bytes \<Rightarrow> u8 \<Rightarrow> u8 \<Rightarrow> u8 \<Rightarrow> u8 \<Rightarrow> bytes \<Rightarrow> bytes" where
  "echo_frame macs ip1 ip2 t code c0 c1 rest = macs @ [8, 0] @ ip1 @ [1] @ ip2 @ [t, code, c0, c1] @ rest"

definition cksum_bytes :: "u8 \<Rightarrow> u8 \<Rightarrow> nat" where
  "cksum_bytes c0 c1 = (unat c0 + 256 * unat c1 + 2047) mod 65536"

lemma echo_update:
  "word_of_int (uint (of_nat (unat (c0 :: u8) + 256 * unat (c1 :: u8)) :: u16) + push_bit 8 IP_ICMP_ECHO_REQUEST
     + NOT (push_bit 8 IP_ICMP_ECHO_REPLY)) = (of_nat (cksum_bytes c0 c1) :: u16)"
proof -
  have "uint (of_nat (unat c0 + 256 * unat c1) :: u16) = int (unat c0 + 256 * unat c1)"
    using unat_word16 [of c0 c1] by (metis uint_nat)
  then have "word_of_int (uint (of_nat (unat c0 + 256 * unat c1) :: u16) + push_bit 8 IP_ICMP_ECHO_REQUEST
     + NOT (push_bit 8 IP_ICMP_ECHO_REPLY)) = (of_nat (unat c0 + 256 * unat c1 + 2047) :: u16)"
    by (simp add: IP_ICMP_ECHO_REQUEST_def IP_ICMP_ECHO_REPLY_def push_bit_eq_mult)
  then show ?thesis by (simp add: cksum_bytes_def of_nat_mod_u16 del: of_nat_add of_nat_mult)
qed

lemma echo_handled:
  assumes "length macs = 12" "length ip1 = 9" "length ip2 = 10"
  shows "packet_handler rte mac (echo_frame macs ip1 ip2 8 code c0 c1 rest) =
    Inr (macs @ [8, 0] @ ip1 @ [1] @ ip2 @ [0, code] @ le_bytes 2 (cksum_bytes c0 c1) @ rest)"
proof -
  let ?f = "echo_frame macs ip1 ip2 8 code c0 c1 rest"
  let ?pre = "macs @ [8, 0] @ ip1 @ [1] @ ip2"
  have et: "rd_u16 ?f 12 = Inr 8"
    using rd_u16_app [of macs 12 8 0] assms by (simp add: echo_frame_def)
  have types: "htons 8 = ETHER_TYPE_IPv4" "ETHER_TYPE_IPv4 \<noteq> ETHER_TYPE_ARP"
    by (simp_all add: ETHER_TYPE_IPv4_def ETHER_TYPE_ARP_def htons_def be_bytes_def le_bytes_2)
  have proto: "rd ?f 23 = Inr 1" using assms rd_nat [of 23 ?f] by (simp add: echo_frame_def nth_append)
  have 1: "rd ?f 34 = Inr 8" using assms rd_nat [of 34 ?f] by (simp add: echo_frame_def nth_append)
  have 2: "wr ?f 34 (word_of_int IP_ICMP_ECHO_REPLY) = Inr (?pre @ [0, code] @ [c0, c1] @ rest)"
    using assms wr_nat [of 34 ?f 0] by (simp add: echo_frame_def list_update_append IP_ICMP_ECHO_REPLY_def)
  have 3: "rd_u16 (?pre @ [0, code] @ [c0, c1] @ rest) 36 = Inr (of_nat (unat c0 + 256 * unat c1))"
    using rd_u16_app [of "?pre @ [0, code]" 36 c0 c1 rest] assms by simp
  have "unat (of_nat (cksum_bytes c0 c1) :: u16) = cksum_bytes c0 c1" by (simp add: unat_of_nat cksum_bytes_def)
  then have 4: "wr_u16 (?pre @ [0, code] @ [c0, c1] @ rest) 36 (of_nat (cksum_bytes c0 c1)) =
      Inr (?pre @ [0, code] @ le_bytes 2 (cksum_bytes c0 c1) @ rest)"
    using wr_slice_app [of "?pre @ [0, code]" 36 "[c0, c1]" "le_bytes 2 (cksum_bytes c0 c1)" rest] assms
    by (simp add: wr_u16_def)
  have "uint (8 :: u8) = IP_ICMP_ECHO_REQUEST" by (simp add: IP_ICMP_ECHO_REQUEST_def)
  then have "icmp_reply ?f = Inr (?pre @ [0, code] @ le_bytes 2 (cksum_bytes c0 c1) @ rest)"
    by (simp only: icmp_reply_def 1 2 3 echo_update 4 bindE_Inr if_True simp_thms)
  then show ?thesis
    unfolding packet_handler_def et bindE_Inr by (simp add: types proto)
qed

lemma canon_top: "canon s = 65535 \<longleftrightarrow> 0 < s \<and> 65535 dvd s"
proof -
  obtain k where k: "s = canon s + 65535 * k" using canon_decomp by blast
  have "65535 dvd s \<longleftrightarrow> 65535 dvd canon s" by (subst k) (simp add: dvd_add_left_iff)
  moreover have "65535 dvd canon s \<longleftrightarrow> canon s = 0 \<or> canon s = 65535"
    using canon_le [of s] by (auto dest: dvd_imp_le)
  ultimately show ?thesis using canon_zero_iff [of s] by auto
qed

lemma csum_zero_iff:
  assumes "p + n \<le> length buf" "n \<le> 131074"
  shows "csum buf p (int n) = Inr 0 \<longleftrightarrow> 0 < sum_list (words16 (take n (drop p buf))) \<and> 65535 dvd sum_list (words16 (take n (drop p buf)))"
proof -
  let ?c = "canon (sum_list (words16 (take n (drop p buf))))"
  have "unat (of_nat ?c :: u16) = ?c" using canon_le [of "sum_list (words16 (take n (drop p buf)))"] by (simp add: unat_of_nat)
  then have "unat (NOT (of_nat ?c :: u16)) = 65535 - ?c" by (simp add: unat_not_u16)
  then have "NOT (of_nat ?c :: u16) = 0 \<longleftrightarrow> ?c = 65535"
    using canon_le [of "sum_list (words16 (take n (drop p buf)))"] by (auto simp: word_unat_eq_iff)
  then show ?thesis using csum_canon [OF assms] canon_top by simp
qed

lemma cksum_bytes_misses:
  assumes "65535 dvd 8 + s + (unat c0 + 256 * unat c1)"
  shows "\<not> 65535 dvd s + cksum_bytes c0 c1"
proof
  assume "65535 dvd s + cksum_bytes c0 c1"
  then obtain m' where m': "s + cksum_bytes c0 c1 = 65535 * m'" by blast
  obtain m where m: "8 + s + (unat c0 + 256 * unat c1) = 65535 * m" using assms by blast
  define q where "q = (if unat c0 + 256 * unat c1 + 2047 < 65536 then 0 else 65536 :: nat)"
  have "cksum_bytes c0 c1 + q = unat c0 + 256 * unat c1 + 2047"
    using unat_u8_less [of c0] unat_u8_less [of c1] by (auto simp: cksum_bytes_def q_def mod_if)
  then have "65535 * int m' + int q = 65535 * int m + 2039" using m m' by linarith
  then have "65535 * (int m' - int m) = 2039 - int q" by (simp add: algebra_simps)
  then have "65535 dvd 2039 - int q" by (metis dvd_triv_left)
  then show False by (auto simp: q_def split: if_splits)
qed

text \<open>
  An ICMP echo request is answered with the type and the checksum field changed and everything
  else, the addresses too, as it came; and when the request's checksum was right, the checksum of
  the answer is wrong: the update is made for a big-endian word, but the field is added as a
  little-endian one.
\<close>

theorem echo_reply_invalid:
  assumes "length macs = 12" "length ip1 = 9" "length ip2 = 10" "length rest \<le> 1500"
    and "csum (echo_frame macs ip1 ip2 8 code c0 c1 rest) 34 (int (4 + length rest)) = Inr 0"
  shows "\<exists>mem. packet_handler rte mac (echo_frame macs ip1 ip2 8 code c0 c1 rest) = Inr mem \<and>
    take 34 mem = take 34 (echo_frame macs ip1 ip2 8 code c0 c1 rest) \<and> drop 38 mem = rest \<and>
    csum mem 34 (int (4 + length rest)) \<noteq> Inr 0"
proof -
  let ?pre = "macs @ [8, 0] @ ip1 @ [1] @ ip2"
  let ?k = "cksum_bytes c0 c1"
  let ?mem = "?pre @ [0, code] @ le_bytes 2 ?k @ rest"
  let ?R = "sum_list (words16 rest)"
  have len: "length ?pre = 34" using assms(1-3) by simp
  then have skip: "drop 34 (?pre @ ys) = ys" for ys by (metis append_eq_conv_conj)
  have k: "?k div 256 mod 256 = ?k div 256" "?k < 65536"
    by (auto simp: cksum_bytes_def)
  have before: "words16 (take (4 + length rest) (drop 34 (echo_frame macs ip1 ip2 8 code c0 c1 rest))) =
      (8 + 256 * unat code) # (unat c0 + 256 * unat c1) # words16 rest"
    using skip [of "[8, code, c0, c1] @ rest"] by (simp add: echo_frame_def)
  have "drop 34 ?mem = [0, code] @ le_bytes 2 ?k @ rest" by (rule skip)
  moreover have "unat (of_nat (?k mod 256) :: u8) + 256 * unat (of_nat (?k div 256 mod 256) :: u8) = ?k"
    using k by (simp add: unat_of_nat)
  ultimately have after: "words16 (take (4 + length rest) (drop 34 ?mem)) = (256 * unat code) # ?k # words16 rest"
    by (simp add: le_bytes_2)
  have "65535 dvd 8 + 256 * unat code + (unat c0 + 256 * unat c1 + ?R)"
    using assms(4,5) csum_zero_iff [of 34 "4 + length rest" "echo_frame macs ip1 ip2 8 code c0 c1 rest"] len before
    by (simp add: echo_frame_def add.assoc)
  then have "65535 dvd 8 + (256 * unat code + ?R) + (unat c0 + 256 * unat c1)" by (simp add: ac_simps)
  from cksum_bytes_misses [OF this] have "\<not> 65535 dvd 256 * unat code + (?k + ?R)" by (simp add: ac_simps)
  then have "csum ?mem 34 (int (4 + length rest)) \<noteq> Inr 0"
    using assms(4) csum_zero_iff [of 34 "4 + length rest" ?mem] len after by simp
  moreover have "packet_handler rte mac (echo_frame macs ip1 ip2 8 code c0 c1 rest) = Inr ?mem"
    using echo_handled [OF assms(1-3)] by simp
  moreover have "take 34 ?mem = take 34 (echo_frame macs ip1 ip2 8 code c0 c1 rest)"
    using assms(1-3) by (simp add: echo_frame_def)
  moreover have "drop 38 ?mem = rest" using assms(1-3) by (simp add: le_bytes_2)
  ultimately show ?thesis by blast
qed

section \<open>Every buffer is sent or freed\<close>

text \<open>42 bytes, an Ethernet and an ARP header, are all the handler looks at.\<close>

definition fits :: "nat \<Rightarrow> bytes cres \<Rightarrow> bool" where
  "fits n r \<longleftrightarrow> (\<exists>m. r = Inr m \<and> length m = n)"

lemma fits_bind: "fits n r \<Longrightarrow> (\<And>m. length m = n \<Longrightarrow> fits n (f m)) \<Longrightarrow> fits n (bindE r f)"
  by (auto simp: fits_def)

lemma fits_rd_slice: "off + k \<le> length m \<Longrightarrow> (\<And>a. length a = k \<Longrightarrow> fits n (f a)) \<Longrightarrow> fits n (bindE (rd_slice m off k) f)"
  by (simp add: rd_slice_in)

lemma fits_rd_u16: "off + 2 \<le> length m \<Longrightarrow> (\<And>a. fits n (f a)) \<Longrightarrow> fits n (bindE (rd_u16 m off) f)"
  by (simp add: rd_u16_in)

lemma fits_rd_u32: "off + 4 \<le> length m \<Longrightarrow> (\<And>a. fits n (f a)) \<Longrightarrow> fits n (bindE (rd_u32 m off) f)"
  by (simp add: rd_u32_def rd_slice_in)

lemma fits_rd: "0 \<le> i \<Longrightarrow> i < int (length m) \<Longrightarrow> (\<And>a. fits n (f a)) \<Longrightarrow> fits n (bindE (rd m i) f)"
  by (simp add: rd_in)

lemma fits_wr: "0 \<le> i \<Longrightarrow> i < int n \<Longrightarrow> length m = n \<Longrightarrow> fits n (wr m i v)"
  by (simp add: fits_def wr_in)

lemma fits_wr_slice: "length m = n \<Longrightarrow> off + length bs \<le> n \<Longrightarrow> fits n (wr_slice m off bs)"
  by (auto simp: fits_def wr_slice_in)

lemma fits_wr_u16: "length m = n \<Longrightarrow> off + 2 \<le> n \<Longrightarrow> fits n (wr_u16 m off v)"
  by (simp add: wr_u16_def fits_wr_slice)

lemma fits_wr_u32: "length m = n \<Longrightarrow> off + 4 \<le> n \<Longrightarrow> fits n (wr_u32 m off v)"
  by (simp add: wr_u32_def fits_wr_slice)

lemma fits_ether_addr_copy: "copy_law rte \<Longrightarrow> length m = n \<Longrightarrow> src + 6 \<le> n \<Longrightarrow> dst + 6 \<le> n \<Longrightarrow> fits n (ether_addr_copy rte m src dst)"
  unfolding copy_law_def by (simp, rule fits_rd_slice) (auto intro: fits_wr_slice)

lemmas fits_reads = fits_rd_u16 fits_rd_u32 fits_rd
lemmas fits_writes = fits_wr fits_wr_slice fits_wr_u16 fits_wr_u32 fits_ether_addr_copy

lemma fits_Inr: "length m = n \<Longrightarrow> fits n (Inr m)"
  by (simp add: fits_def)

lemma arp_reply_fits:
  assumes "42 \<le> length mem" "length mac = 6" "copy_law rte"
  shows "fits (length mem) (arp_reply rte mac mem)"
  unfolding arp_reply_def using assms by (intro fits_reads fits_bind fits_writes) simp_all

lemma packet_handler_fits:
  assumes "42 \<le> length mem" "length mac = 6" "copy_law rte"
  shows "fits (length mem) (packet_handler rte mac mem)"
proof -
  have "fits (length mem) (icmp_reply mem)"
    unfolding icmp_reply_def using assms(1)
    by (intro fits_rd; simp add: fits_Inr) (intro impI fits_rd_u16 fits_bind fits_writes; simp)
  then show ?thesis
    unfolding packet_handler_def using assms arp_reply_fits [OF assms]
    by (intro fits_rd_u16) (auto intro!: fits_rd_u32 fits_rd_u16 fits_rd simp: fits_Inr)
qed

lemma rx_handler_total:
  assumes "\<forall>m \<in> set bufs. 42 \<le> length m" "length mac = 6" "copy_law rte"
  shows "\<exists>out. rx_handler rte mac bufs = Inr out"
  using assms(1)
proof (induction bufs)
  case (Cons m bufs)
  then show ?case using packet_handler_fits [of m mac rte] assms(2,3) by (auto simp: rx_handler_def fits_def)
qed (simp add: rx_handler_def)

lemma forward_burst_conserves:
  assumes "rx_handler rte (macs (from_port b)) (take BURST_SIZE (received b)) = Inr bufs"
  shows "\<exists>log'. forward_burst rte macs b log = Inr log' \<and>
    mset (map snd (sent log')) + mset (freed log') = mset (map snd (sent log)) + mset (freed log) + mset bufs"
proof -
  have "mset (take (taken b) bufs) + mset (drop (taken b) bufs) = mset bufs"
    by (simp flip: mset_append)
  moreover have "image_mset snd (image_mset (Pair (from_port b)) M) = M" for M :: "bytes multiset"
    by (simp add: multiset.map_comp comp_def)
  ultimately show ?thesis using assms
    by (cases "bufs = []") (simp_all add: forward_burst_def Let_def add.assoc)
qed

text \<open>
  C32. The forwarding loop runs without a fault on any sequence of bursts whose buffers have at least
  the 42 bytes of an Ethernet and an ARP header, and it neither loses a packet nor sends or frees
  one twice: what was sent and what was freed are together exactly the handled packets of all
  bursts, each burst cut to 32 packets.
\<close>

theorem forward_conserves:
  assumes "\<forall>b \<in> set bs. \<forall>m \<in> set (received b). 42 \<le> length m" "\<forall>p. length (macs p) = 6" "copy_law rte"
  shows "\<exists>log' handled. lcore_loop rte macs bs log = Inr log' \<and>
    mapE (\<lambda>b. rx_handler rte (macs (from_port b)) (take BURST_SIZE (received b))) bs = Inr handled \<and>
    mset (map snd (sent log')) + mset (freed log') = mset (map snd (sent log)) + mset (freed log) + mset (concat handled)"
  using assms(1) unfolding lcore_loop_def
proof (induction bs arbitrary: log)
  case (Cons b bs)
  have "\<forall>m \<in> set (take BURST_SIZE (received b)). 42 \<le> length m" using Cons.prems by (auto dest: in_set_takeD)
  with assms(2,3) obtain bufs where bufs: "rx_handler rte (macs (from_port b)) (take BURST_SIZE (received b)) = Inr bufs"
    using rx_handler_total by blast
  from forward_burst_conserves [of rte macs b bufs log, OF this] obtain log1 where l1: "forward_burst rte macs b log = Inr log1"
    "mset (map snd (sent log1)) + mset (freed log1) = mset (map snd (sent log)) + mset (freed log) + mset bufs" by blast
  from Cons.IH [of log1] Cons.prems obtain log' handled where
    "foldE (forward_burst rte macs) bs log1 = Inr log'"
    "mapE (\<lambda>b. rx_handler rte (macs (from_port b)) (take BURST_SIZE (received b))) bs = Inr handled"
    "mset (map snd (sent log')) + mset (freed log') = mset (map snd (sent log1)) + mset (freed log1) + mset (concat handled)"
    by auto
  then show ?case using bufs l1 by (intro exI [of _ log'] exI [of _ "bufs # handled"]) (simp add: ac_simps)
qed simp

section \<open>Witnesses\<close>

definition sample_rte :: rte_headers where
  "sample_rte = \<lparr>IPv4 = \<lambda>a b c d. of_nat (((a * 256 + b) * 256 + c) * 256 + d), ether_addr_copy = \<lambda>mem src dst. bindE (rd_slice mem src 6) (wr_slice mem dst)\<rparr>"

lemma sample_rte_laws: "ipv4_law sample_rte" "copy_law sample_rte"
  by (simp_all add: ipv4_law_def copy_law_def sample_rte_def)

theorem arp_handled_witness:
  "packet_handler sample_rte [1, 2, 3, 4, 5, 6] (arp_frame (replicate 6 255) (replicate 6 7) [0, 1, 8, 0, 6, 4] 0 1 (replicate 6 7)
      [10, 0, 0, 1] (replicate 6 0) [192, 168, 10, 97] []) =
    Inr (arp_frame (replicate 6 255) (replicate 6 7) [0, 1, 8, 0, 6, 4] 0 1 (replicate 6 7) [10, 0, 0, 1] (replicate 6 0) [192, 168, 10, 97] [])"
  by (subst arp_handled) (simp_all add: arp_lengths_def sample_rte_laws)

theorem echo_reply_invalid_witness:
  "\<exists>mem. packet_handler sample_rte [] (echo_frame (replicate 12 0) (replicate 9 0) (replicate 10 0) 8 0 247 255 []) = Inr mem \<and>
     csum mem 34 4 \<noteq> Inr 0"
proof -
  have "csum (echo_frame (replicate 12 0) (replicate 9 0) (replicate 10 0) 8 0 247 255 []) 34 (int (4 + length ([] :: bytes))) = Inr 0"
    by (subst csum_zero_iff) (simp_all add: echo_frame_def)
  from echo_reply_invalid [OF _ _ _ _ this] show ?thesis by auto
qed

theorem forward_conserves_witness:
  "\<exists>log'. lcore_loop sample_rte (\<lambda>p. replicate 6 0) [\<lparr>from_port = 0, received = [replicate 60 0, replicate 60 0], taken = 1\<rparr>]
       \<lparr>sent = [], freed = []\<rparr> = Inr log' \<and>
     mset (map snd (sent log')) + mset (freed log') = {#replicate 60 0, replicate 60 0#}"
proof -
  have p: "packet_handler sample_rte (replicate 6 0) (replicate 60 0) = Inr (replicate 60 0)"
    by (simp add: packet_handler_def rd_u16_in ETHER_TYPE_ARP_def ETHER_TYPE_IPv4_def htons_def be_bytes_def le_bytes_2)
  show ?thesis
    using forward_conserves [of "[\<lparr>from_port = 0, received = [replicate 60 0, replicate 60 0], taken = 1\<rparr>]" "\<lambda>p. replicate 6 0"
        sample_rte "\<lparr>sent = [], freed = []\<rparr>"]
    sample_rte_laws
    by (auto simp: rx_handler_def BURST_SIZE_def p)
qed

end
