(* ===== verification/Dpdk_Generator.thy ===== *)
theory Dpdk_Generator
  imports Dpdk_Responder
begin

text \<open>
  \<^verbatim>\<open>dpdk/gen_packet/main.c\<close>: a DPDK program that fills 32 buffers with the same UDP packet and sends
  them in a loop, with a timer that prints the rate. The DPDK calls are parameters. Buffers handed
  to the driver by \<^verbatim>\<open>rte_eth_tx_burst\<close> belong to it afterwards, as DPDK documents, and using one of
  them is a fault. The proofs give the crafted packet byte for byte, with the pseudo-header checksum that DPDK computes for its header and the UDP length that does
  not count its header, and show that the loop uses buffers it has given away as soon as the driver
  has accepted one.
\<close>

section \<open>Packets\<close>

record mbuf =
  data :: bytes
  data_len :: u16
  pkt_len :: u32
  l2_len :: nat
  l3_len :: nat
  l4_len :: nat
  ol_flags :: u64
  given :: bool    \<comment> \<open>the buffer belongs to the driver\<close>

record dpdk_net =
  ip_macro :: "nat \<Rightarrow> nat \<Rightarrow> nat \<Rightarrow> nat \<Rightarrow> u32"
  ipv4_phdr_cksum :: "bytes \<Rightarrow> u64 \<Rightarrow> u16"
  ipv6_phdr_cksum :: "bytes \<Rightarrow> u64 \<Rightarrow> u16"
  PKT_TX_IPV4 :: u64
  PKT_TX_IP_CKSUM :: u64
  PKT_TX_UDP_CKSUM :: u64
  port_mac :: bytes

definition sizeof_ether :: nat where "sizeof_ether = 14"
definition sizeof_ipv4 :: nat where "sizeof_ipv4 = 20"
definition sizeof_ipv6 :: nat where "sizeof_ipv6 = 40"
definition sizeof_udp :: nat where "sizeof_udp = 8"

text \<open>\<^verbatim>\<open>struct paxos_message\<close>: two bytes, two bytes of padding, four bytes.\<close>

definition sizeof_paxos :: nat where "sizeof_paxos = 8"

definition paxos_bytes :: "u16 \<Rightarrow> bytes \<Rightarrow> u32 \<Rightarrow> bytes" where
  "paxos_bytes msgtype padding inst = le_bytes 2 (unat msgtype) @ padding @ le_bytes 4 (unat inst)"

text \<open>DPDK's functions get the header that the pointer is cast to.\<close>

definition get_psd_sum :: "dpdk_net \<Rightarrow> bytes \<Rightarrow> u16 \<Rightarrow> u64 \<Rightarrow> u16" where
  "get_psd_sum net l3_hdr ethertype flags =
     (if ethertype = ETHER_TYPE_IPv4 then ipv4_phdr_cksum net (take sizeof_ipv4 l3_hdr) flags
      else ipv6_phdr_cksum net (take sizeof_ipv6 l3_hdr) flags)"

text \<open>The Ethernet header is at 0, the IP header at 14, the UDP header at 34.\<close>

definition craft_headers :: "dpdk_net \<Rightarrow> u32 \<Rightarrow> u32 \<Rightarrow> u16 \<Rightarrow> u16 \<Rightarrow> bytes \<Rightarrow> bytes cres" where
  "craft_headers net srcIP dstIP sport dport mem =
     bindE (wr_slice mem 6 (port_mac net)) (\<lambda>mem.
     bindE (wr_u16 mem 12 (htons ETHER_TYPE_IPv4)) (\<lambda>mem.
     bindE (wr_u32 mem 26 (htonl srcIP)) (\<lambda>mem.
     bindE (wr_u32 mem 30 (htonl dstIP)) (\<lambda>mem.
     bindE (wr mem 14 0x45) (\<lambda>mem.
     bindE (wr_u16 mem 24 0) (\<lambda>mem.
     bindE (wr_u16 mem 16 (htons (of_nat (sizeof_ipv4 + sizeof_udp + sizeof_paxos)))) (\<lambda>mem.
     bindE (wr mem 23 17) (\<lambda>mem.
     bindE (wr_u16 mem 34 (htons sport)) (\<lambda>mem.
     wr_u16 mem 36 (htons dport))))))))))"

definition tx_flags :: "dpdk_net \<Rightarrow> u64" where
  "tx_flags net = PKT_TX_IPV4 net OR PKT_TX_IP_CKSUM net OR PKT_TX_UDP_CKSUM net"

definition craft_new_packet :: "dpdk_net \<Rightarrow> mbuf \<Rightarrow> u32 \<Rightarrow> u32 \<Rightarrow> u16 \<Rightarrow> u16 \<Rightarrow> nat \<Rightarrow> (u64 \<times> mbuf) cres" where
  "craft_new_packet net pkt srcIP dstIP sport dport data_size =
     (let pkt_size = sizeof_ether + sizeof_ipv4 + sizeof_udp + data_size;
          pkt = pkt\<lparr>data_len := of_nat pkt_size, pkt_len := of_nat pkt_size\<rparr> in
      bindE (craft_headers net srcIP dstIP sport dport (data pkt)) (\<lambda>mem.
      bindE (wr_u16 mem 40 (get_psd_sum net (drop 14 mem) ETHER_TYPE_IPv4 (tx_flags net))) (\<lambda>mem.
      bindE (wr_u16 mem 38 (htons (of_nat data_size))) (\<lambda>mem.
      Inr (tx_flags net, pkt\<lparr>data := mem\<rparr>)))))"

definition add_paxos_message :: "dpdk_net \<Rightarrow> bytes \<Rightarrow> mbuf \<Rightarrow> mbuf cres" where
  "add_paxos_message net pm pkt =
     (if given pkt then Inl DanglingPtr
      else let pkt = pkt\<lparr>l2_len := sizeof_ether, l3_len := sizeof_ipv4, l4_len := sizeof_udp + sizeof_paxos\<rparr> in
      bindE (craft_new_packet net pkt (ip_macro net 192 168 4 95) (ip_macro net 239 3 29 73) 34567 45678 sizeof_paxos) (\<lambda>(flags, pkt).
      bindE (wr_slice (data pkt) (sizeof_ether + sizeof_ipv4 + sizeof_udp) pm) (\<lambda>mem.
      Inr (pkt\<lparr>data := mem, ol_flags := flags\<rparr>))))"

section \<open>Sending\<close>

record generator =
  bufs :: "mbuf list"
  counter :: u32
  wire :: "bytes list"

text \<open>\<^verbatim>\<open>rte_eth_tx_burst\<close>: the number of packets it accepts, and the buffers afterwards.\<close>

type_synonym tx = "mbuf list \<Rightarrow> nat \<times> mbuf list"

text \<open>The list has the \<^verbatim>\<open>rte_eth_tx_burst\<close> of each call; where it ends the run is no longer observed.\<close>

primrec send_batch :: "tx list \<Rightarrow> generator \<Rightarrow> (tx list \<times> generator) cres" where
  "send_batch [] g = Inr ([], g)"
| "send_batch (tx_burst # rest) g =
     (if \<exists>b \<in> set (bufs g). given b then Inl DanglingPtr
      else let (nb_tx, bs) = tx_burst (bufs g); count = length (bufs g);
               g = g\<lparr>bufs := bs, wire := wire g @ map data (take nb_tx (bufs g)), counter := counter g + of_nat nb_tx\<rparr> in
      if nb_tx = count then send_batch rest g else Inr (rest, g))"

primrec generate_rounds :: "dpdk_net \<Rightarrow> bytes \<Rightarrow> nat \<Rightarrow> tx list \<Rightarrow> generator \<Rightarrow> generator cres" where
  "generate_rounds net pm 0 accepts g = Inr g"
| "generate_rounds net pm (Suc n) accepts g =
     bindE (mapE (add_paxos_message net pm) (bufs g)) (\<lambda>bs.
     bindE (send_batch accepts (g\<lparr>bufs := bs\<rparr>)) (\<lambda>(accepts, g). generate_rounds net pm n accepts g))"

text \<open>The result of the allocation is not looked at: without buffers the pointers are uninitialised.\<close>

definition generate_packets :: "dpdk_net \<Rightarrow> bytes \<Rightarrow> mbuf list option \<Rightarrow> nat \<Rightarrow> tx list \<Rightarrow> u32 \<Rightarrow> generator cres" where
  "generate_packets net padding alloc n accepts sent_before =
     (let pm = paxos_bytes 1 padding 1 in
      case alloc of
        None \<Rightarrow> Inl UninitRead
      | Some bs \<Rightarrow> generate_rounds net pm n accepts \<lparr>bufs = take BURST_SIZE bs, counter = sent_before, wire = []\<rparr>)"

section \<open>The other threads\<close>

definition TIMER_RESOLUTION_CYCLES :: u64 where "TIMER_RESOLUTION_CYCLES = 20000000"

definition report_stat :: "nat \<Rightarrow> bool \<Rightarrow> u32 \<Rightarrow> string list \<times> u32 \<times> bool" where
  "report_stat core force_quit packets =
     ([line (''report_stat on core '' @ dec_nat core), line (''Tput: '' @ pad_left 8 (dec_nat (unat packets)))], 0, force_quit)"

text \<open>One turn of the timer loop: whether the timers are run, and the time kept.\<close>

definition mainloop_turn :: "u64 \<Rightarrow> u64 \<Rightarrow> bool \<times> u64" where
  "mainloop_turn cur_tsc prev_tsc =
     (let diff_tsc = cur_tsc - prev_tsc in
      if diff_tsc > TIMER_RESOLUTION_CYCLES then (True, cur_tsc) else (False, prev_tsc))"

definition gen_signal_handler :: "int \<Rightarrow> bool \<Rightarrow> bool" where
  "gen_signal_handler signum force_quit = (if signum = 2 \<or> signum = 15 then True else force_quit)"

text \<open>The receiving loop frees everything until it is told to quit: for each turn, whether
  \<^verbatim>\<open>force_quit\<close> is set and what was received.\<close>

fun drain :: "(bool \<times> bytes list) list \<Rightarrow> bytes list \<Rightarrow> bytes list" where
  "drain [] freed' = freed'"
| "drain ((quit, pkts) # turns) freed' =
     (if quit then freed' else drain turns (freed' @ take BURST_SIZE pkts))"

definition gen_lcore_main :: "dpdk \<Rightarrow> (bool \<times> bytes list) list \<Rightarrow> port_event list \<times> bytes list" where
  "gen_lcore_main api turns =
     ((if socket_of api 0 > 0 \<and> socket_of api 0 \<noteq> my_socket api
       then [Printed (line (''WARNING, port 0 is on remote NUMA node to polling thread.'' @ newline # CHR 0x09 # ''Performance will not be optimal.''))]
       else []) @ [Printed (newline # line (''Core '' @ dec_nat (lcore_id api) @ '' forwarding packets. [Ctrl+C to quit]''))],
      drain turns [])"

definition gen_port_init :: "dpdk \<Rightarrow> nat \<Rightarrow> int \<times> port_event list" where
  "gen_port_init api port =
     (if port \<ge> nb_ports api then (-1, [])
      else let retval = dev_configure api port False in
      if retval \<noteq> 0 then (retval, [])
      else let retval = rx_queue_setup api port in
      if retval < 0 then (retval, [])
      else let retval = tx_queue_setup api port False in
      if retval < 0 then (retval, [])
      else let retval = dev_start api port in
      if retval < 0 then (retval, [])
      else (0, [Promiscuous port]))"

definition gen_main :: "dpdk \<Rightarrow> (bool \<times> bytes list) list \<Rightarrow> (port_event list \<times> bytes list) cres" where
  "gen_main api turns =
     (if eal_init api < 0 then Inl (ExitProcess 1)
      else if \<not> pool_created api then Inl (ExitProcess 1)
      else let (r, evs) = gen_port_init api 0 in
      if r \<noteq> 0 then Inl (ExitProcess 1)
      else let (out, freed') = gen_lcore_main api turns in Inr (evs @ out, freed'))"

section \<open>The crafted packet\<close>

definition frame :: "bytes \<Rightarrow> bytes \<Rightarrow> bytes \<Rightarrow> bytes \<Rightarrow> bytes \<Rightarrow> bytes \<Rightarrow> bytes \<Rightarrow> bytes \<Rightarrow> bytes \<Rightarrow> bytes \<Rightarrow>
    bytes \<Rightarrow> bytes \<Rightarrow> bytes \<Rightarrow> bytes \<Rightarrow> bytes" where
  "frame dmac smac type vt len idf tp ck addrs ports ulen uck pm rest =
     dmac @ smac @ type @ vt @ len @ idf @ tp @ ck @ addrs @ ports @ ulen @ uck @ pm @ rest"

definition frame_lengths :: "bytes \<Rightarrow> bytes \<Rightarrow> bytes \<Rightarrow> bytes \<Rightarrow> bytes \<Rightarrow> bytes \<Rightarrow> bytes \<Rightarrow> bytes \<Rightarrow> bytes \<Rightarrow> bytes \<Rightarrow> bytes \<Rightarrow> bool" where
  "frame_lengths dmac smac type len idf ck addrs ports ulen uck pm \<longleftrightarrow>
     length dmac = 6 \<and> length smac = 6 \<and> length type = 2 \<and> length len = 2 \<and> length idf = 4 \<and> length ck = 2 \<and>
     length addrs = 8 \<and> length ports = 4 \<and> length ulen = 2 \<and> length uck = 2 \<and> length pm = 8"

lemma craft_headers_frame:
  assumes l: "frame_lengths dmac smac type len idf ck addrs ports ulen uck pm" and m: "length (port_mac net) = 6"
  shows "craft_headers net a b sp dp (frame dmac smac type [v, tos] len idf [ttl, proto] ck addrs ports ulen uck pm rest) =
    Inr (frame dmac (port_mac net) [8, 0] [0x45, tos] [0, 36] idf [ttl, 17] [0, 0] (be_bytes 4 (unat a) @ be_bytes 4 (unat b))
      (be_bytes 2 (unat sp) @ be_bytes 2 (unat dp)) ulen uck pm rest)"
proof -
  note L = l [unfolded frame_lengths_def] m
  obtain a0 a1 a2 a3 b0 b1 b2 b3 where addrs: "addrs = [a0, a1, a2, a3, b0, b1, b2, b3]"
    using L by (auto simp: length_Suc_conv eval_nat_numeral)
  obtain p0 p1 p2 p3 where ports: "ports = [p0, p1, p2, p3]" using L by (auto simp: length_Suc_conv eval_nat_numeral)
  have ty: "be_bytes 2 (unat ETHER_TYPE_IPv4) = [8, 0]" by (simp add: ETHER_TYPE_IPv4_def be_bytes_def le_bytes_2)
  have tl: "be_bytes 2 (unat (of_nat (sizeof_ipv4 + sizeof_udp + sizeof_paxos) :: u16)) = [0, 36]"
    by (simp add: sizeof_ipv4_def sizeof_udp_def sizeof_paxos_def be_bytes_def le_bytes_2)
  have z: "le_bytes 2 (unat (0 :: u16)) = [0, 0]" by (simp add: le_bytes_2)
  show ?thesis
    unfolding craft_headers_def wr_u16_def wr_u32_def le_bytes_htons le_bytes_htonl ty tl z frame_def addrs ports
    using L by (simp add: wr_slice_def wr_def list_update_append numeral_eq_Suc)
qed

text \<open>The IP header of the packet, in which three fields are what the buffer held.\<close>

definition crafted_ip :: "u8 \<Rightarrow> bytes \<Rightarrow> u8 \<Rightarrow> bytes" where
  "crafted_ip tos idf ttl = [0x45, tos, 0, 36] @ idf @ [ttl, 17, 0, 0, 192, 168, 4, 95, 239, 3, 29, 73]"

text \<open>
  C33. The packet byte for byte. A buffer of at least 50 bytes gets the port's address as its source,
  an IP header of total length 36 with protocol UDP and the addresses 192.168.4.95 and 239.3.29.73,
  the ports 34567 and 45678, and the message; the UDP checksum is what \<^verbatim>\<open>rte_ipv4_phdr_cksum\<close> gives for that IP header and the offload flags, in the order of the machine; the UDP length
  says 8, the size of the message, where
  the datagram with its header has 16 bytes; destination address, type of service, identification,
  fragment offset and time to live stay what the buffer happened to hold. The lengths and offload flags of the mbuf are set for a packet of 50 bytes.
\<close>

theorem crafted_packet:
  assumes "frame_lengths dmac smac type len idf ck addrs ports ulen uck old" "length (port_mac net) = 6" "length pm = 8"
    and "ip_macro net 192 168 4 95 = 0xC0A8045F" "ip_macro net 239 3 29 73 = 0xEF031D49"
    and "\<not> given pkt" "data pkt = frame dmac smac type [v, tos] len idf [ttl, proto] ck addrs ports ulen uck old rest"
  defines "flags \<equiv> PKT_TX_IPV4 net OR PKT_TX_IP_CKSUM net OR PKT_TX_UDP_CKSUM net"
  shows "add_paxos_message net pm pkt = Inr (pkt\<lparr>
      data := dmac @ port_mac net @ [8, 0] @ crafted_ip tos idf ttl @
        [0x87, 0x07, 0xB2, 0x6E, 0, 8] @ le_bytes 2 (unat (ipv4_phdr_cksum net (crafted_ip tos idf ttl) flags)) @ pm @ rest,
      data_len := 50, pkt_len := 50, l2_len := 14, l3_len := 20, l4_len := 16, ol_flags := flags\<rparr>)"
proof -
  let ?src = "be_bytes 4 (unat (0xC0A8045F :: u32)) @ be_bytes 4 (unat (0xEF031D49 :: u32))"
  let ?ports = "be_bytes 2 (unat (34567 :: u16)) @ be_bytes 2 (unat (45678 :: u16))"
  define f where "f = (\<lambda>ulen uck pm. frame dmac (port_mac net) [8, 0] [0x45, tos] [0, 36] idf [ttl, 17] [0, 0] ?src ?ports ulen uck pm rest)"
  define cksum where "cksum = le_bytes 2 (unat (ipv4_phdr_cksum net (crafted_ip tos idf ttl) flags))"
  note L = assms(1) [unfolded frame_lengths_def] assms(2,3)
  have fl: "tx_flags net = flags" by (simp add: tx_flags_def flags_def)
  have bytes: "?src = [192, 168, 4, 95, 239, 3, 29, 73]" "?ports = [0x87, 0x07, 0xB2, 0x6E]"
    by (simp_all add: be_bytes_def le_bytes_4 le_bytes_2)
  have hdr: "take 20 (drop 14 (f ulen uck old)) = crafted_ip tos idf ttl" unfolding f_def bytes using L by (simp add: frame_def crafted_ip_def)
  have h: "craft_headers net (ip_macro net 192 168 4 95) (ip_macro net 239 3 29 73) 34567 45678 (data pkt) = Inr (f ulen uck old)"
    unfolding assms(4,5,7) f_def by (rule craft_headers_frame [OF assms(1,2)])
  have "le_bytes 2 (unat (get_psd_sum net (drop 14 (f ulen uck old)) ETHER_TYPE_IPv4 flags)) = cksum"
    by (simp add: get_psd_sum_def sizeof_ipv4_def hdr cksum_def)
  then have c: "wr_u16 (f ulen uck old) 40 (get_psd_sum net (drop 14 (f ulen uck old)) ETHER_TYPE_IPv4 flags) = Inr (f ulen cksum old)"
    unfolding wr_u16_def using L by (simp add: f_def frame_def wr_slice_def cksum_def)
  have "be_bytes 2 (unat (of_nat sizeof_paxos :: u16)) = [0, 8]" by (simp add: sizeof_paxos_def be_bytes_def le_bytes_2)
  then have u: "wr_u16 (f ulen cksum old) 38 (htons (of_nat sizeof_paxos)) = Inr (f [0, 8] cksum old)"
    unfolding wr_u16_def le_bytes_htons using L by (simp add: f_def frame_def wr_slice_def)
  have p: "wr_slice (f [0, 8] cksum old) (sizeof_ether + sizeof_ipv4 + sizeof_udp) pm = Inr (f [0, 8] cksum pm)"
    using L by (simp add: f_def frame_def wr_slice_def sizeof_ether_def sizeof_ipv4_def sizeof_udp_def cksum_def)
  have "add_paxos_message net pm pkt = Inr (pkt\<lparr>data := f [0, 8] cksum pm,
      data_len := 50, pkt_len := 50, l2_len := 14, l3_len := 20, l4_len := 16, ol_flags := flags\<rparr>)"
    using assms(6) h c u p by (simp add: add_paxos_message_def craft_new_packet_def fl sizeof_ether_def sizeof_ipv4_def sizeof_udp_def sizeof_paxos_def)
  then show ?thesis unfolding f_def bytes by (simp add: frame_def crafted_ip_def cksum_def)
qed

section \<open>Buffers that were given away\<close>

lemma add_keeps_given: "add_paxos_message net pm b = Inr b' \<Longrightarrow> \<not> given b \<and> \<not> given b'"
  by (auto simp: add_paxos_message_def craft_new_packet_def Let_def bindE_eq_Inr split: if_splits)

lemma mapE_Inr_set: "mapE f xs = Inr ys \<Longrightarrow> (\<And>x y. f x = Inr y \<Longrightarrow> P y) \<Longrightarrow> length ys = length xs \<and> (\<forall>y \<in> set ys. P y)"
  by (induction xs arbitrary: ys) (auto simp: bindE_eq_Inr)

lemma mapE_given: "b \<in> set bs \<Longrightarrow> given b \<Longrightarrow> mapE (add_paxos_message net pm) bs \<noteq> Inr ys"
  by (induction bs arbitrary: ys) (auto simp: bindE_eq_Inr dest: add_keeps_given)

text \<open>
  As soon as the driver has accepted a packet, the generator goes on with a buffer it no longer
  owns: it fills the buffers again or, when all of them were accepted, sends the same buffers once
  more. No run with a further burst or a further round after the first accepted packet is free of
  faults.
\<close>

text \<open>What DPDK documents of \<^verbatim>\<open>rte_eth_tx_burst\<close>, here for a call that accepts a packet: the accepted ones are the first, and belong to the driver.\<close>

definition accepts_some :: "tx \<Rightarrow> bool" where
  "accepts_some tx_burst \<longleftrightarrow> (\<forall>bs. bs \<noteq> [] \<longrightarrow> (let (n, bs') = tx_burst bs in
     0 < n \<and> n \<le> length bs \<and> length bs' = length bs \<and> (\<forall>i < length bs. given (bs' ! i) \<longleftrightarrow> i < n \<or> given (bs ! i))))"

theorem generator_reuses_buffers:
  assumes "bufs g \<noteq> []" "accepts_some a"
  shows "\<nexists>g'. generate_rounds net pm (Suc (Suc n)) (a # b # rest) g = Inr g'"
proof
  assume "\<exists>g'. generate_rounds net pm (Suc (Suc n)) (a # b # rest) g = Inr g'"
  then obtain bs accepts g1 bs2 where bs: "mapE (add_paxos_message net pm) (bufs g) = Inr bs"
    and s: "send_batch (a # b # rest) (g\<lparr>bufs := bs\<rparr>) = Inr (accepts, g1)"
    and again: "mapE (add_paxos_message net pm) (bufs g1) = Inr bs2"
    by (auto simp: bindE_eq_Inr simp del: send_batch.simps)
  have "length bs = length (bufs g) \<and> (\<forall>b \<in> set bs. \<not> given b)"
    by (rule mapE_Inr_set [OF bs]) (use add_keeps_given in blast)
  then have own: "bs \<noteq> []" "\<forall>b \<in> set bs. \<not> given b" using assms(1) by auto
  obtain nb bs' where a: "a bs = (nb, bs')" by (cases "a bs")
  then have nb: "0 < nb" "length bs' = length bs" "given (bs' ! 0)" using own(1) assms(2) by (auto simp: accepts_some_def)
  define g2 where "g2 = g\<lparr>bufs := bs', wire := wire g @ map data (take nb bs), counter := counter g + of_nat nb\<rparr>"
  have first: "bs' ! 0 \<in> set (bufs g2)" using nb(2) own(1) by (simp add: g2_def)
  have "send_batch (a # b # rest) (g\<lparr>bufs := bs\<rparr>) = (if nb = length bs then send_batch (b # rest) g2 else Inr (b # rest, g2))"
    using own(2) by (simp add: a g2_def del: send_batch.simps(2)) (simp add: a g2_def Let_def)
  moreover have "send_batch (b # rest) g2 = Inl DanglingPtr"
    using first nb(3) by auto
  ultimately have "g1 = g2" using s by (auto split: if_splits)
  then show False using again mapE_given [OF first nb(3)] by simp
qed

section \<open>Witnesses\<close>

text \<open>A checksum that depends on the header: its first byte and its length.\<close>

definition sample_net :: dpdk_net where
  "sample_net = \<lparr>ip_macro = (\<lambda>a b c d. if a = 192 then 0xC0A8045F else 0xEF031D49), ipv4_phdr_cksum = (\<lambda>h f. of_nat (256 * length h + unat (hd h))),
     ipv6_phdr_cksum = (\<lambda>h f. 0), PKT_TX_IPV4 = 4, PKT_TX_IP_CKSUM = 2, PKT_TX_UDP_CKSUM = 1, port_mac = [1, 2, 3, 4, 5, 6]\<rparr>"

definition sample_mbuf :: mbuf where
  "sample_mbuf = \<lparr>data = replicate 64 0, data_len = 0, pkt_len = 0, l2_len = 0, l3_len = 0, l4_len = 0, ol_flags = 0, given = False\<rparr>"

theorem crafted_packet_witness:
  "\<exists>pkt'. add_paxos_message sample_net (replicate 8 1) sample_mbuf = Inr pkt' \<and> take 4 (drop 38 (data pkt')) = [0, 8, 0x45, 20]"
proof -
  let ?z = "replicate 2 (0 :: u8)"
  have l: "frame_lengths (replicate 6 0) (replicate 6 0) ?z ?z (replicate 4 0) ?z (replicate 8 0) (replicate 4 0) ?z ?z (replicate 8 0)"
    by (simp add: frame_lengths_def)
  have d: "data sample_mbuf = frame (replicate 6 0) (replicate 6 0) ?z [0, 0] ?z (replicate 4 0) [0, 0] ?z (replicate 8 0) (replicate 4 0) ?z ?z
      (replicate 8 0) (replicate 14 0)"
    by (simp add: sample_mbuf_def frame_def eval_nat_numeral)
  have "length (port_mac sample_net) = 6" "length (replicate 8 1 :: bytes) = 8" "ip_macro sample_net 192 168 4 95 = 0xC0A8045F"
    "ip_macro sample_net 239 3 29 73 = 0xEF031D49" "\<not> given sample_mbuf" by (simp_all add: sample_net_def sample_mbuf_def)
  from crafted_packet [OF l this d] show ?thesis by (simp add: sample_net_def crafted_ip_def le_bytes_2)
qed

definition take_one :: tx where
  "take_one bs = (1, (hd bs\<lparr>given := True\<rparr>) # tl bs)"

theorem generator_reuses_buffers_witness:
  "\<nexists>g'. generate_rounds sample_net (replicate 8 1) 2 [take_one, take_one] \<lparr>bufs = [sample_mbuf], counter = 0, wire = []\<rparr> = Inr g'"
proof -
  have "accepts_some take_one" by (auto simp: accepts_some_def take_one_def Suc_le_eq nth_Cons' hd_conv_nth nth_tl)
  then show ?thesis
    using generator_reuses_buffers [of "\<lparr>bufs = [sample_mbuf], counter = 0, wire = []\<rparr>" take_one sample_net "replicate 8 1" 0 take_one "[]"]
    by (simp add: numeral_2_eq_2)
qed

end
