(* ===== verification/Khash_Bits.thy ===== *)
theory Khash_Bits
  imports C_Prelude
begin

text \<open>
  The arithmetic under \<^verbatim>\<open>hash_table/khash.h\<close>: the two flag bits of every bucket, packed sixteen
  buckets to a 32-bit word, the rounding \<^verbatim>\<open>kroundup32\<close> to a power of two, and the probe sequence
  with growing steps, which visits every bucket of a table whose size is a power of two.
\<close>

section \<open>Flags\<close>

definition ac_word :: "u32 \<Rightarrow> int" where "ac_word i = uint (drop_bit 4 i)"
definition ac_shift :: "u32 \<Rightarrow> nat" where "ac_shift i = unat (push_bit 1 (i AND 0xf))"

definition ac_isempty :: "u32 list \<Rightarrow> u32 \<Rightarrow> bool cres" where
  "ac_isempty flag i = bindE (rd flag (ac_word i)) (\<lambda>w. Inr (drop_bit (ac_shift i) w AND 2 \<noteq> 0))"

definition ac_isdel :: "u32 list \<Rightarrow> u32 \<Rightarrow> bool cres" where
  "ac_isdel flag i = bindE (rd flag (ac_word i)) (\<lambda>w. Inr (drop_bit (ac_shift i) w AND 1 \<noteq> 0))"

definition ac_iseither :: "u32 list \<Rightarrow> u32 \<Rightarrow> bool cres" where
  "ac_iseither flag i = bindE (rd flag (ac_word i)) (\<lambda>w. Inr (drop_bit (ac_shift i) w AND 3 \<noteq> 0))"

definition ac_set_isempty_false :: "u32 list \<Rightarrow> u32 \<Rightarrow> u32 list cres" where
  "ac_set_isempty_false flag i = bindE (rd flag (ac_word i)) (\<lambda>w. wr flag (ac_word i) (w AND NOT (push_bit (ac_shift i) 2)))"

definition ac_set_isboth_false :: "u32 list \<Rightarrow> u32 \<Rightarrow> u32 list cres" where
  "ac_set_isboth_false flag i = bindE (rd flag (ac_word i)) (\<lambda>w. wr flag (ac_word i) (w AND NOT (push_bit (ac_shift i) 3)))"

definition ac_set_isdel_true :: "u32 list \<Rightarrow> u32 \<Rightarrow> u32 list cres" where
  "ac_set_isdel_true flag i = bindE (rd flag (ac_word i)) (\<lambda>w. wr flag (ac_word i) (w OR push_bit (ac_shift i) 1))"

definition ac_fsize :: "u32 \<Rightarrow> u32" where
  "ac_fsize m = (if m < 16 then 1 else drop_bit 4 m)"

definition kroundup32 :: "u32 \<Rightarrow> u32" where
  "kroundup32 x =
     (let x = x - 1; x = x OR drop_bit 1 x; x = x OR drop_bit 2 x; x = x OR drop_bit 4 x;
          x = x OR drop_bit 8 x; x = x OR drop_bit 16 x in x + 1)"

text \<open>The bucket of a flag array as seen by the proofs.\<close>

definition emptyf :: "u32 list \<Rightarrow> nat \<Rightarrow> bool" where "emptyf fl i \<longleftrightarrow> bit (fl ! (i div 16)) (2 * (i mod 16) + 1)"
definition delf :: "u32 list \<Rightarrow> nat \<Rightarrow> bool" where "delf fl i \<longleftrightarrow> bit (fl ! (i div 16)) (2 * (i mod 16))"

lemma ac_word_nat: "ac_word i = int (unat i div 16)"
  by (simp add: ac_word_def drop_bit_eq_div uint_div_distrib of_nat_div)

lemma ac_shift_nat: "ac_shift i = 2 * (unat i mod 16)"
proof -
  have "(i AND 0xf) = take_bit 4 i" by (simp add: take_bit_eq_mask mask_numeral)
  then have "unat (i AND 0xf) = unat i mod 16" by (simp add: take_bit_eq_mod unat_mod_distrib)
  moreover have "unat (push_bit 1 (w :: u32)) = (2 * unat w) mod 2 ^ 32" for w
    by (simp add: push_bit_eq_mult unat_word_ariths mult.commute)
  ultimately show ?thesis unfolding ac_shift_def by (simp only:) simp
qed

lemma and_2_bit: "(w :: u32) AND 2 \<noteq> 0 \<longleftrightarrow> bit w 1"
  using and_exp_eq_0_iff_not_bit [of w 1] by simp

lemma and_1_bit: "(w :: u32) AND 1 \<noteq> 0 \<longleftrightarrow> bit w 0"
  using and_exp_eq_0_iff_not_bit [of w 0] by simp

lemma and_3_bit: "(w :: u32) AND 3 \<noteq> 0 \<longleftrightarrow> bit w 0 \<or> bit w 1"
proof -
  have "(3 :: u32) = 1 OR 2" by simp
  then have "w AND 3 = (w AND 1) OR (w AND 2)" by (simp only: bit.conj_disj_distrib)
  then show ?thesis using and_1_bit [of w] and_2_bit [of w] by (simp add: or_eq_0_iff)
qed

lemma flag_reads:
  assumes "unat i < 16 * length fl"
  shows "ac_isempty fl i = Inr (emptyf fl (unat i))" "ac_isdel fl i = Inr (delf fl (unat i))"
    "ac_iseither fl i = Inr (emptyf fl (unat i) \<or> delf fl (unat i))"
proof -
  have "unat i div 16 < length fl" using assms by (simp add: div_less_iff_less_mult mult.commute)
  then have r: "rd fl (ac_word i) = Inr (fl ! (unat i div 16))" by (simp add: ac_word_nat rd_nat)
  show "ac_isempty fl i = Inr (emptyf fl (unat i))" "ac_isdel fl i = Inr (delf fl (unat i))"
    "ac_iseither fl i = Inr (emptyf fl (unat i) \<or> delf fl (unat i))"
    unfolding ac_isempty_def ac_isdel_def ac_iseither_def r bindE_Inr and_1_bit and_2_bit and_3_bit
    by (auto simp: bit_drop_bit_eq ac_shift_nat emptyf_def delf_def)
qed

lemma same_bucket: "i div 16 = j div 16 \<Longrightarrow> i mod 16 = j mod 16 \<Longrightarrow> i = (j :: nat)"
  by (metis div_mult_mod_eq)

text \<open>What a write does to every bucket.\<close>

definition flags_upd :: "u32 list \<Rightarrow> nat \<Rightarrow> bool \<Rightarrow> bool \<Rightarrow> u32 list \<Rightarrow> bool" where
  "flags_upd fl i e d fl' \<longleftrightarrow> length fl' = length fl \<and>
     (\<forall>j. emptyf fl' j = (if j = i then e else emptyf fl j) \<and> delf fl' j = (if j = i then d else delf fl j))"

lemma flags_updI:
  assumes "i < 16 * length fl"
    and "\<And>b. b < 32 \<Longrightarrow> bit w b = (if b = 2 * (i mod 16) + 1 then e else if b = 2 * (i mod 16) then d else bit (fl ! (i div 16)) b)"
  shows "flags_upd fl i e d (fl[i div 16 := w])"
proof -
  have l: "i div 16 < length fl" using assms(1) by (simp add: div_less_iff_less_mult mult.commute)
  have b: "Suc (2 * (j mod 16)) < 32" "2 * (j mod 16) < 32" for j :: nat by auto
  have odd: "2 * x \<noteq> Suc (2 * y)" for x y by presburger
  have e: "bit w (Suc (2 * (j mod 16))) = (if j mod 16 = i mod 16 then e else bit (fl ! (i div 16)) (Suc (2 * (j mod 16))))" for j
    by (subst assms(2) [OF b(1)]) simp
  have d: "bit w (2 * (j mod 16)) = (if j mod 16 = i mod 16 then d else bit (fl ! (i div 16)) (2 * (j mod 16)))" for j
    by (subst assms(2) [OF b(2)]) (simp add: odd)
  show ?thesis
    using same_bucket [of _ i] l unfolding flags_upd_def emptyf_def delf_def nth_list_update [OF l]
    by (auto simp: e d)
qed

lemma flag_writes:
  assumes "unat i < 16 * length fl"
  shows "\<exists>fl'. ac_set_isempty_false fl i = Inr fl' \<and> flags_upd fl (unat i) False (delf fl (unat i)) fl'"
    "\<exists>fl'. ac_set_isboth_false fl i = Inr fl' \<and> flags_upd fl (unat i) False False fl'"
    "\<exists>fl'. ac_set_isdel_true fl i = Inr fl' \<and> flags_upd fl (unat i) (emptyf fl (unat i)) True fl'"
proof -
  have l: "unat i div 16 < length fl" using assms by (simp add: div_less_iff_less_mult mult.commute)
  then have r: "rd fl (ac_word i) = Inr (fl ! (unat i div 16))" "\<And>v. wr fl (ac_word i) v = Inr (fl[unat i div 16 := v])"
    by (simp_all add: ac_word_nat rd_nat wr_nat)
  have two: "bit (2 :: u32) n \<longleftrightarrow> n = 1" for n by (auto simp: bit_2_iff)
  have three: "bit (3 :: int) n \<longleftrightarrow> n = 0 \<or> n = 1" for n
  proof -
    have "(3 :: int) = mask 2" by (simp add: mask_numeral)
    then show ?thesis by (simp only: bit_mask_iff) auto
  qed
  show "\<exists>fl'. ac_set_isempty_false fl i = Inr fl' \<and> flags_upd fl (unat i) False (delf fl (unat i)) fl'"
    unfolding ac_set_isempty_false_def r bindE_Inr ac_shift_nat
    by (rule exI, rule conjI, rule refl, rule flags_updI [OF assms]) (auto simp: bit_simps two delf_def)
  show "\<exists>fl'. ac_set_isboth_false fl i = Inr fl' \<and> flags_upd fl (unat i) False False fl'"
    unfolding ac_set_isboth_false_def r bindE_Inr ac_shift_nat
    by (rule exI, rule conjI, rule refl, rule flags_updI [OF assms]) (auto simp: bit_simps three)
  show "\<exists>fl'. ac_set_isdel_true fl i = Inr fl' \<and> flags_upd fl (unat i) (emptyf fl (unat i)) True fl'"
    unfolding ac_set_isdel_true_def r bindE_Inr ac_shift_nat
    by (rule exI, rule conjI, rule refl, rule flags_updI [OF assms]) (auto simp: bit_simps emptyf_def)
qed

lemma unat_pow2: "m < 32 \<Longrightarrow> unat ((2 :: u32) ^ m) = 2 ^ m"
  using power_strict_increasing [of m 32 "2 :: nat"] unat_of_nat [of "2 ^ m", where 'a = 32] by (simp add: take_bit_eq_mod)

section \<open>Rounding up to a power of two\<close>

lemma smear_step:
  assumes "\<And>i. bit (y :: u32) i \<longleftrightarrow> (\<exists>d < n. bit x (i + d))"
  shows "bit (y OR drop_bit n y) i \<longleftrightarrow> (\<exists>d < n + n. bit x (i + d))"
proof -
  have "(\<exists>d < n + n. bit x (i + d)) \<longleftrightarrow> (\<exists>d < n. bit x (i + d)) \<or> (\<exists>d < n. bit x (n + i + d))"
  proof
    assume "\<exists>d < n + n. bit x (i + d)"
    then obtain d where d: "d < n + n" "bit x (i + d)" by blast
    show "(\<exists>d < n. bit x (i + d)) \<or> (\<exists>d < n. bit x (n + i + d))"
    proof (cases "d < n")
      case False
      then have "d - n < n" "n + i + (d - n) = i + d" using d(1) by auto
      then show ?thesis using d(2) by metis
    qed (use d in blast)
  qed (metis add.commute add.left_commute add_less_mono1 trans_less_add1)
  then show ?thesis by (simp add: bit_or_iff bit_drop_bit_eq assms)
qed

definition smear :: "u32 \<Rightarrow> u32" where
  "smear x = (let x = x OR drop_bit 1 x; x = x OR drop_bit 2 x; x = x OR drop_bit 4 x;
     x = x OR drop_bit 8 x in x OR drop_bit 16 x)"

lemma bit_smear: "bit (smear x) i \<longleftrightarrow> (\<exists>d < 32. bit x (i + d))"
proof -
  define y1 where "y1 = x OR drop_bit 1 x"
  define y2 where "y2 = y1 OR drop_bit 2 y1"
  define y3 where "y3 = y2 OR drop_bit 4 y2"
  define y4 where "y4 = y3 OR drop_bit 8 y3"
  have 1: "bit y1 i \<longleftrightarrow> (\<exists>d < 2. bit x (i + d))" for i using smear_step [of x 1 x i] by (simp add: y1_def numeral_2_eq_2)
  have 2: "bit y2 i \<longleftrightarrow> (\<exists>d < 4. bit x (i + d))" for i using smear_step [of y1 2 x i] 1 by (simp add: y2_def)
  have 3: "bit y3 i \<longleftrightarrow> (\<exists>d < 8. bit x (i + d))" for i using smear_step [of y2 4 x i] 2 by (simp add: y3_def)
  have 4: "bit y4 i \<longleftrightarrow> (\<exists>d < 16. bit x (i + d))" for i using smear_step [of y3 8 x i] 3 by (simp add: y4_def)
  have "bit (y4 OR drop_bit 16 y4) i \<longleftrightarrow> (\<exists>d < 32. bit x (i + d))" using smear_step [of y4 16 x i] 4 by simp
  moreover have "smear x = y4 OR drop_bit 16 y4" by (simp add: smear_def Let_def y1_def y2_def y3_def y4_def)
  ultimately show ?thesis by simp
qed

lemma top_bit:
  assumes "x \<noteq> (0 :: u32)"
  obtains t where "t < 32" "bit x t" "\<And>i. bit x i \<Longrightarrow> i \<le> t" "2 ^ t \<le> unat x" "unat x < 2 ^ Suc t"
proof -
  let ?B = "{i. bit x i}"
  have sub: "?B \<subseteq> {..<32}" using bit_imp_le_length [of x] by auto
  then have fin: "finite ?B" by (rule finite_subset) simp
  obtain b where "bit x b" using assms by (metis bit_eq_iff bit_0_eq bot_apply bot_bool_def)
  define t where "t = Max ?B"
  have t: "bit x t" "t < 32" using Max_in [OF fin] \<open>bit x b\<close> sub unfolding t_def by auto
  have max: "i \<le> t" if "bit x i" for i using Max_ge [OF fin] that by (simp add: t_def)
  have "bit (unat x) t" using t by (simp add: bit_unsigned_iff)
  then have "odd (unat x div 2 ^ t)" using bit_iff_odd by blast
  then have "2 ^ t \<le> unat x" by (cases "2 ^ t \<le> unat x") simp_all
  have "take_bit (Suc t) x = x" by (rule bit_eqI) (use max in \<open>auto simp: bit_take_bit_iff less_Suc_eq_le\<close>)
  then have "unat x = take_bit (Suc t) (unat x)" by (metis unsigned_take_bit_eq)
  then have "unat x < 2 ^ Suc t" by (metis take_bit_nat_less_exp)
  then show ?thesis using that t max \<open>2 ^ t \<le> unat x\<close> by blast
qed

lemma smear_mask:
  assumes "t < 32" "bit x t" "\<And>i. bit x i \<Longrightarrow> i \<le> t"
  shows "smear x = mask (Suc t)"
proof (rule bit_eqI)
  fix i
  have "(\<exists>d < 32. bit x (i + d)) \<longleftrightarrow> i \<le> t"
    using assms by (metis add_leD1 le_add_diff_inverse less_imp_diff_less)
  then show "bit (smear x) i \<longleftrightarrow> bit (mask (Suc t) :: u32) i"
    using assms(1) by (auto simp: bit_smear bit_mask_iff)
qed

text \<open>
  The least power of two that is not below the argument; 0, and with it everything above
  \<^verbatim>\<open>2^31\<close>, gives 0.
\<close>

lemma kroundup32_smear: "kroundup32 x = smear (x - 1) + 1"
  by (simp add: kroundup32_def smear_def Let_def)

lemma kroundup32_power:
  assumes "1 \<le> unat x" "unat x \<le> 2 ^ 31"
  shows "\<exists>m \<le> 31. unat (kroundup32 x) = 2 ^ m \<and> unat x \<le> 2 ^ m \<and> 2 ^ m < 2 * unat x"
proof (cases "x = 1")
  case True
  have "smear 0 = 0" by (simp add: smear_def)
  then show ?thesis using True by (intro exI [of _ 0]) (simp add: kroundup32_smear)
next
  case False
  then have u: "unat (x - 1) = unat x - 1" using assms(1) by (metis One_nat_def unat_0 unat_minus_one not_one_le_zero)
  have "x - 1 \<noteq> 0" using False by simp
  then obtain t where t: "t < 32" "bit (x - 1) t" "\<And>i. bit (x - 1) i \<Longrightarrow> i \<le> t" "2 ^ t \<le> unat (x - 1)" "unat (x - 1) < 2 ^ Suc t"
    by (rule top_bit) blast
  have "(2 :: nat) ^ t < 2 ^ 31" using t(4) u assms by linarith
  then have t31: "t < 31" by (rule power_less_imp_less_exp [rotated]) simp
  have "kroundup32 x = 2 ^ Suc t" by (simp add: kroundup32_smear smear_mask [OF t(1-3)] mask_eq_exp_minus_1)
  moreover have "unat ((2 :: u32) ^ Suc t) = 2 ^ Suc t" using t31 by (intro unat_pow2) simp
  ultimately show ?thesis using t31 t(4,5) u assms(1) by (intro exI [of _ "Suc t"]) auto
qed

lemma kroundup32_zero:
  assumes "unat x = 0 \<or> 2 ^ 31 < unat x"
  shows "kroundup32 x = 0"
proof -
  have "2 ^ 31 \<le> unat (x - 1)"
  proof (cases "x = 0")
    case False
    then have "unat (x - 1) = unat x - 1" by (metis unat_minus_one)
    then show ?thesis using assms False by (simp add: unat_eq_zero)
  qed (simp add: unsigned_minus_1_eq_mask mask_eq_exp_minus_1)
  then have "x - 1 \<noteq> 0" by auto
  then obtain t where t: "t < 32" "bit (x - 1) t" "\<And>i. bit (x - 1) i \<Longrightarrow> i \<le> t" "unat (x - 1) < 2 ^ Suc t"
    by (rule top_bit) blast
  have "(2 :: nat) ^ 31 < 2 ^ Suc t" using t(4) \<open>2 ^ 31 \<le> unat (x - 1)\<close> by linarith
  then have "31 < Suc t" by (rule power_less_imp_less_exp [rotated]) simp
  then have "t = 31" using t(1) by simp
  then show ?thesis by (simp add: kroundup32_smear smear_mask [OF t(1-3)] mask_eq_exp_minus_1)
qed

section \<open>Probing\<close>

definition tri :: "nat \<Rightarrow> nat" where "tri t = t * (t + 1) div 2"

definition probe :: "nat \<Rightarrow> nat \<Rightarrow> nat \<Rightarrow> nat" where "probe n s t = (s + tri t) mod n"

lemma tri_0 [simp]: "tri 0 = 0" by (simp add: tri_def)

lemma tri_Suc [simp]: "tri (Suc t) = tri t + Suc t"
  by (simp add: tri_def)

lemma tri_mono: "t \<le> u \<Longrightarrow> tri t \<le> tri u"
  by (induction u) (auto simp: le_Suc_eq)

lemma two_tri: "2 * tri t = t * (t + 1)"
  by (induction t) auto

lemma probe_0: "probe n s 0 = s mod n" by (simp add: probe_def)

lemma probe_Suc: "probe n s (Suc t) = (probe n s t + Suc t) mod n"
  by (simp only: probe_def tri_Suc add.assoc [symmetric] mod_add_left_eq)

lemma power_dvd_odd_mult:
  assumes "2 ^ k dvd a * b" "odd (a :: nat)"
  shows "2 ^ k dvd b"
  using assms by (metis coprime_dvd_mult_right_iff coprime_power_left_iff coprime_left_2_iff_odd)

lemma probe_differs:
  assumes "t' < t" "t + t' + 1 < 2 ^ Suc k"
  shows "probe (2 ^ k) s t \<noteq> probe (2 ^ k) s t'"
proof
  assume "probe (2 ^ k) s t = probe (2 ^ k) s t'"
  then have "(2 :: nat) ^ k dvd (s + tri t) - (s + tri t')"
    using assms(1) unfolding probe_def by (subst (asm) mod_eq_dvd_iff_nat) (auto intro: tri_mono)
  then have "(2 :: nat) ^ Suc k dvd 2 * (tri t - tri t')" by simp
  also have "2 * (tri t - tri t') = (t - t') * (t + t' + 1)"
  proof -
    obtain d where "t = t' + d" using assms(1) less_imp_add_positive by blast
    then have "2 * tri t = 2 * tri t' + (t - t') * (t + t' + 1)" unfolding two_tri by (simp add: algebra_simps)
    then show ?thesis by (simp add: diff_mult_distrib2)
  qed
  finally have d: "2 ^ Suc k dvd (t - t') * (t + t' + 1)" .
  have "odd ((t - t') + (t + t' + 1))" using assms(1) by simp
  then have "odd (t - t') \<or> odd (t + t' + 1)" by (metis even_add)
  then have "2 ^ Suc k dvd t + t' + 1 \<or> 2 ^ Suc k dvd t - t'"
    using power_dvd_odd_mult [of "Suc k" "t - t'" "t + t' + 1"] power_dvd_odd_mult [of "Suc k" "t + t' + 1" "t - t'"] d
    by (metis mult.commute)
  then show False using assms by (auto dest!: dvd_imp_le)
qed

lemma probe_all:
  assumes "i < 2 ^ k"
  shows "\<exists>t < 2 ^ k. probe (2 ^ k) s t = i"
proof -
  let ?n = "2 ^ k :: nat"
  have "inj_on (probe ?n s) {..<?n}"
  proof (rule linorder_inj_onI)
    show "probe ?n s x \<noteq> probe ?n s y" if "x < y" "x \<in> {..<?n}" "y \<in> {..<?n}" for x y
      using probe_differs [of x y k s] that by force
  qed (simp add: linear)
  moreover have "probe ?n s ` {..<?n} \<subseteq> {..<?n}" by (auto simp: probe_def)
  ultimately have "probe ?n s ` {..<?n} = {..<?n}" by (simp add: endo_inj_surj)
  then show ?thesis using assms by (metis imageE lessThan_iff)
qed

end
