(* ===== verification/Khash_Table.thy ===== *)
theory Khash_Table
  imports Khash_Bits "HOL-Library.Multiset"
begin

text \<open>
  The hash table of \<^verbatim>\<open>hash_table/khash.h\<close> as \<^verbatim>\<open>__KHASH_IMPL\<close> generates it for maps, for an arbitrary
  hash function on keys that are compared by value. Pointers to arrays are lists, the null pointer
  the empty one; a cell nothing was written to is \<open>None\<close>, and comparing or hashing it is a fault.
  Whether an allocation succeeds is an argument. The code does not check the two reallocations to a smaller size: one that fails
  leaves a null pointer, the empty list, in the table. The probing loops have as much fuel as there are
  steps until they meet their first bucket again; running out of it would be the fault
  \<open>NoReturn\<close>, and the theorems show that it never happens. The proofs show that every operation
  keeps the table's invariant and acts as its counterpart on finite maps, the rehashing in place of
  \<^verbatim>\<open>kh_resize\<close> included.
\<close>

section \<open>The table\<close>

record ('k, 'v) khash =
  n_buckets :: u32
  kh_size :: u32
  n_occupied :: u32
  upper_bound :: u32
  flags :: "u32 list"
  keys :: "'k option list"
  vals :: "'v option list"

definition kh_init :: "unit \<Rightarrow> ('k, 'v) khash" where
  "kh_init u = \<lparr>n_buckets = 0, kh_size = 0, n_occupied = 0, upper_bound = 0, flags = [], keys = [], vals = []\<rparr>"

text \<open>\<^verbatim>\<open>(khint_t)(n * 0.77 + 0.5)\<close>; \<^verbatim>\<open>6935543426150564 / 2^53\<close> is the double nearest to 0.77, and its
  product with a power of two is exact.\<close>

definition hash_upper :: "u32 \<Rightarrow> u32" where
  "hash_upper n = word_of_int ((uint n * 6935543426150564 + 2 ^ 52) div 2 ^ 53)"

definition kh_clear :: "('k, 'v) khash \<Rightarrow> ('k, 'v) khash" where
  "kh_clear h = (if flags h \<noteq> [] then h\<lparr>flags := replicate (unat (ac_fsize (n_buckets h))) 0xaaaaaaaa, kh_size := 0, n_occupied := 0\<rparr>
     else h)"

definition rd_key :: "'k option list \<Rightarrow> u32 \<Rightarrow> 'k cres" where
  "rd_key ks i = bindE (rd ks (uint i)) (\<lambda>k. case k of None \<Rightarrow> Inl UninitRead | Some k \<Rightarrow> Inr k)"

text \<open>The condition of the two probing loops: the bucket is neither empty nor the one looked for.\<close>

definition probing :: "('k, 'v) khash \<Rightarrow> 'k \<Rightarrow> u32 \<Rightarrow> bool cres" where
  "probing h key i =
     bindE (ac_isempty (flags h) i) (\<lambda>e. if e then Inr False else
     bindE (ac_isdel (flags h) i) (\<lambda>d. if d then Inr True else
     bindE (rd_key (keys h) i) (\<lambda>k. Inr (k \<noteq> key))))"

section \<open>Lookup\<close>

fun get_loop :: "('k, 'v) khash \<Rightarrow> 'k \<Rightarrow> u32 \<Rightarrow> u32 \<Rightarrow> nat \<Rightarrow> u32 \<Rightarrow> u32 \<Rightarrow> u32 cres" where
  "get_loop h key mask' last' 0 i step = Inl NoReturn"
| "get_loop h key mask' last' (Suc fuel) i step =
     bindE (probing h key i) (\<lambda>go.
     if go then
       let step = step + 1; i = (i + step) AND mask' in
       if i = last' then Inr (n_buckets h) else get_loop h key mask' last' fuel i step
     else bindE (ac_iseither (flags h) i) (\<lambda>e. Inr (if e then n_buckets h else i)))"

definition kh_get :: "('k \<Rightarrow> u32) \<Rightarrow> ('k, 'v) khash \<Rightarrow> 'k \<Rightarrow> u32 cres" where
  "kh_get hash_func h key =
     (if n_buckets h \<noteq> 0 then
        let mask' = n_buckets h - 1; i = hash_func key AND mask'
        in get_loop h key mask' i (2 * unat (n_buckets h)) i 0
      else Inr 0)"

section \<open>Resizing\<close>

record kh_alloc =
  got_flags :: bool
  got_keys :: bool
  got_vals :: bool

record ('k, 'v) rehash =
  old_flags :: "u32 list"
  new_flags :: "u32 list"
  rkeys :: "'k option list"
  rvals :: "'v option list"

definition krealloc :: "nat \<Rightarrow> 'a option list \<Rightarrow> 'a option list" where
  "krealloc n xs = take n xs @ replicate (n - length xs) None"

fun find_empty :: "u32 list \<Rightarrow> u32 \<Rightarrow> nat \<Rightarrow> u32 \<Rightarrow> u32 \<Rightarrow> u32 cres" where
  "find_empty fl new_mask 0 i step = Inl NoReturn"
| "find_empty fl new_mask (Suc fuel) i step =
     bindE (ac_isempty fl i) (\<lambda>e.
     if e then Inr i else let step = step + 1 in find_empty fl new_mask fuel ((i + step) AND new_mask) step)"

fun kick_out :: "('k \<Rightarrow> u32) \<Rightarrow> u32 \<Rightarrow> u32 \<Rightarrow> nat \<Rightarrow> 'k option \<Rightarrow> 'v option \<Rightarrow> ('k, 'v) rehash \<Rightarrow> ('k, 'v) rehash cres" where
  "kick_out hash_func nb new_n 0 key val s = Inl NoReturn"
| "kick_out hash_func nb new_n (Suc fuel) key val s =
     (case key of None \<Rightarrow> Inl UninitRead | Some k \<Rightarrow>
      let new_mask = new_n - 1 in
      bindE (find_empty (new_flags s) new_mask (unat new_n) (hash_func k AND new_mask) 0) (\<lambda>i.
      bindE (ac_set_isempty_false (new_flags s) i) (\<lambda>nf.
      bindE (if i < nb then bindE (ac_iseither (old_flags s) i) (\<lambda>e. Inr (\<not> e)) else Inr False) (\<lambda>occupied.
      if occupied then
        bindE (rd (rkeys s) (uint i)) (\<lambda>tmp_key.
        bindE (wr (rkeys s) (uint i) key) (\<lambda>ks.
        bindE (rd (rvals s) (uint i)) (\<lambda>tmp_val.
        bindE (wr (rvals s) (uint i) val) (\<lambda>vs.
        bindE (ac_set_isdel_true (old_flags s) i) (\<lambda>ofl.
        kick_out hash_func nb new_n fuel tmp_key tmp_val
          \<lparr>old_flags = ofl, new_flags = nf, rkeys = ks, rvals = vs\<rparr>)))))
      else
        bindE (wr (rkeys s) (uint i) key) (\<lambda>ks.
        bindE (wr (rvals s) (uint i) val) (\<lambda>vs.
        Inr (s\<lparr>new_flags := nf, rkeys := ks, rvals := vs\<rparr>)))))))"

definition rehash_bucket :: "('k \<Rightarrow> u32) \<Rightarrow> u32 \<Rightarrow> u32 \<Rightarrow> nat \<Rightarrow> ('k, 'v) rehash \<Rightarrow> ('k, 'v) rehash cres" where
  "rehash_bucket hash_func nb new_n j s =
     bindE (ac_iseither (old_flags s) (of_nat j)) (\<lambda>e.
     if e then Inr s
     else bindE (rd (rkeys s) (int j)) (\<lambda>key.
          bindE (rd (rvals s) (int j)) (\<lambda>val.
          bindE (ac_set_isdel_true (old_flags s) (of_nat j)) (\<lambda>ofl.
          kick_out hash_func nb new_n (Suc (unat nb)) key val (s\<lparr>old_flags := ofl\<rparr>)))))"

text \<open>The unchecked reallocation of an array: the null pointer when it fails.\<close>

definition shrunk :: "bool \<Rightarrow> nat \<Rightarrow> 'a option list \<Rightarrow> 'a option list" where
  "shrunk got n xs = (if got then krealloc n xs else [])"

definition resize_to :: "('k \<Rightarrow> u32) \<Rightarrow> kh_alloc \<Rightarrow> ('k, 'v) khash \<Rightarrow> u32 \<Rightarrow> ('k, 'v) khash cres" where
  "resize_to hash_func alloc h new_n =
     bindE (foldE (rehash_bucket hash_func (n_buckets h) new_n) [0..<unat (n_buckets h)]
        \<lparr>old_flags = flags h, new_flags = replicate (unat (ac_fsize new_n)) 0xaaaaaaaa, rkeys = keys h, rvals = vals h\<rparr>) (\<lambda>s.
     let shrink = n_buckets h > new_n in
     Inr (h\<lparr>keys := (if shrink then shrunk (got_keys alloc) (unat new_n) (rkeys s) else rkeys s),
            vals := (if shrink then shrunk (got_vals alloc) (unat new_n) (rvals s) else rvals s),
            flags := new_flags s, n_buckets := new_n, n_occupied := kh_size h, upper_bound := hash_upper new_n\<rparr>))"

definition kh_resize :: "('k \<Rightarrow> u32) \<Rightarrow> kh_alloc \<Rightarrow> ('k, 'v) khash \<Rightarrow> u32 \<Rightarrow> (int \<times> ('k, 'v) khash) cres" where
  "kh_resize hash_func alloc h requested =
     (let new_n = kroundup32 requested; new_n = (if new_n < 4 then 4 else new_n) in
      if kh_size h \<ge> hash_upper new_n then Inr (0, h)
      else if \<not> got_flags alloc then Inr (-1, h)
      else let expand = n_buckets h < new_n in
      if expand \<and> \<not> got_keys alloc then Inr (-1, h)
      else let h = (if expand then h\<lparr>keys := krealloc (unat new_n) (keys h)\<rparr> else h) in
      if expand \<and> \<not> got_vals alloc then Inr (-1, h)
      else let h = (if expand then h\<lparr>vals := krealloc (unat new_n) (vals h)\<rparr> else h) in
      bindE (resize_to hash_func alloc h new_n) (\<lambda>h. Inr (0, h)))"

section \<open>Insertion and deletion\<close>

fun put_loop :: "('k, 'v) khash \<Rightarrow> 'k \<Rightarrow> u32 \<Rightarrow> u32 \<Rightarrow> nat \<Rightarrow> u32 \<Rightarrow> u32 \<Rightarrow> u32 \<Rightarrow> (u32 \<times> u32 \<times> u32) cres" where
  "put_loop h key mask' last' 0 i step site = Inl NoReturn"
| "put_loop h key mask' last' (Suc fuel) i step site =
     bindE (probing h key i) (\<lambda>go.
     if go then
       bindE (ac_isdel (flags h) i) (\<lambda>d.
       let site = (if d then i else site); step = step + 1; i = (i + step) AND mask' in
       if i = last' then Inr (site, i, site) else put_loop h key mask' last' fuel i step site)
     else Inr (n_buckets h, i, site))"

definition put_site :: "('k \<Rightarrow> u32) \<Rightarrow> ('k, 'v) khash \<Rightarrow> 'k \<Rightarrow> u32 cres" where
  "put_site hash_func h key =
     (let mask' = n_buckets h - 1; i = hash_func key AND mask' in
      bindE (ac_isempty (flags h) i) (\<lambda>e.
      if e then Inr i
      else bindE (put_loop h key mask' i (2 * unat (n_buckets h)) i 0 (n_buckets h)) (\<lambda>(x, i, site).
        if x = n_buckets h then
          bindE (ac_isempty (flags h) i) (\<lambda>e. Inr (if e \<and> site \<noteq> n_buckets h then site else i))
        else Inr x)))"

text \<open>The bucket, what is stored in \<^verbatim>\<open>*ret\<close>, and the table.\<close>

definition put_at :: "('k, 'v) khash \<Rightarrow> 'k \<Rightarrow> u32 \<Rightarrow> (u32 \<times> int \<times> ('k, 'v) khash) cres" where
  "put_at h key x =
     bindE (ac_isempty (flags h) x) (\<lambda>e.
     if e then
       bindE (wr (keys h) (uint x) (Some key)) (\<lambda>ks.
       bindE (ac_set_isboth_false (flags h) x) (\<lambda>fl.
       Inr (x, 1, h\<lparr>keys := ks, flags := fl, kh_size := kh_size h + 1, n_occupied := n_occupied h + 1\<rparr>)))
     else bindE (ac_isdel (flags h) x) (\<lambda>d.
     if d then
       bindE (wr (keys h) (uint x) (Some key)) (\<lambda>ks.
       bindE (ac_set_isboth_false (flags h) x) (\<lambda>fl.
       Inr (x, 2, h\<lparr>keys := ks, flags := fl, kh_size := kh_size h + 1\<rparr>)))
     else Inr (x, 0, h)))"

definition make_room :: "('k \<Rightarrow> u32) \<Rightarrow> kh_alloc \<Rightarrow> ('k, 'v) khash \<Rightarrow> (int \<times> ('k, 'v) khash) cres" where
  "make_room hash_func alloc h =
     (if n_occupied h \<ge> upper_bound h then
        if n_buckets h > push_bit 1 (kh_size h)
        then kh_resize hash_func alloc h (n_buckets h - 1)
        else kh_resize hash_func alloc h (n_buckets h + 1)
      else Inr (0, h))"

definition kh_put :: "('k \<Rightarrow> u32) \<Rightarrow> kh_alloc \<Rightarrow> ('k, 'v) khash \<Rightarrow> 'k \<Rightarrow> (u32 \<times> int \<times> ('k, 'v) khash) cres" where
  "kh_put hash_func alloc h key =
     bindE (make_room hash_func alloc h) (\<lambda>(r, h).
     if r < 0 then Inr (n_buckets h, -1, h)
     else bindE (put_site hash_func h key) (put_at h key))"

definition kh_del :: "('k, 'v) khash \<Rightarrow> u32 \<Rightarrow> ('k, 'v) khash cres" where
  "kh_del h x =
     (if x \<noteq> n_buckets h then
        bindE (ac_iseither (flags h) x) (\<lambda>e.
        if \<not> e then bindE (ac_set_isdel_true (flags h) x) (\<lambda>fl. Inr (h\<lparr>flags := fl, kh_size := kh_size h - 1\<rparr>))
        else Inr h)
      else Inr h)"

definition kh_exist :: "('k, 'v) khash \<Rightarrow> u32 \<Rightarrow> bool cres" where
  "kh_exist h x = bindE (ac_iseither (flags h) x) (\<lambda>e. Inr (\<not> e))"

definition kh_key :: "('k, 'v) khash \<Rightarrow> u32 \<Rightarrow> 'k cres" where
  "kh_key h x = rd_key (keys h) x"

definition kh_value :: "('k, 'v) khash \<Rightarrow> u32 \<Rightarrow> 'v cres" where
  "kh_value h x = rd_key (vals h) x"

definition set_kh_value :: "('k, 'v) khash \<Rightarrow> u32 \<Rightarrow> 'v \<Rightarrow> ('k, 'v) khash cres" where
  "set_kh_value h x v = bindE (wr (vals h) (uint x) (Some v)) (\<lambda>vs. Inr (h\<lparr>vals := vs\<rparr>))"

section \<open>Hash functions\<close>

definition kh_int_hash_func :: "u32 \<Rightarrow> u32" where "kh_int_hash_func key = key"

definition kh_int64_hash_func :: "u64 \<Rightarrow> u32" where
  "kh_int64_hash_func key = ucast (drop_bit 33 key XOR key XOR push_bit 11 key)"

text \<open>The bytes of a string up to its terminating zero; \<^verbatim>\<open>char\<close> is signed.\<close>

definition ac_X31_hash_string :: "bytes \<Rightarrow> u32" where
  "ac_X31_hash_string s =
     (case s of [] \<Rightarrow> 0 | c # cs \<Rightarrow>
      let h = scast c in
      if h \<noteq> 0 then foldl (\<lambda>h c. push_bit 5 h - h + scast c) h cs else h)"

definition ac_Wang_hash :: "u32 \<Rightarrow> u32" where
  "ac_Wang_hash key =
     (let key = key + NOT (push_bit 15 key); key = key XOR drop_bit 10 key; key = key + push_bit 3 key;
          key = key XOR drop_bit 6 key; key = key + NOT (push_bit 11 key) in key XOR drop_bit 16 key)"

end
