(* ===== verification/Khash_Search.thy ===== *)
theory Khash_Search
  imports Khash_Table
begin

text \<open>
  The invariant of the hash table, the map it stands for, and the searches: a probe sequence always
  meets an empty bucket, and it meets the bucket of a key that is present before.
\<close>

section \<open>Invariant and abstraction\<close>

definition pow2_size :: "u32 \<Rightarrow> bool" where
  "pow2_size n \<longleftrightarrow> (\<exists>k. 2 \<le> k \<and> k \<le> 31 \<and> unat n = 2 ^ k)"

definition live :: "u32 list \<Rightarrow> nat \<Rightarrow> bool" where
  "live fl i \<longleftrightarrow> \<not> emptyf fl i \<and> \<not> delf fl i"

text \<open>A bucket can be found when no bucket before it on its key's way is empty.\<close>

definition reach :: "u32 list \<Rightarrow> nat \<Rightarrow> nat \<Rightarrow> nat \<Rightarrow> bool" where
  "reach fl n s i \<longleftrightarrow> (\<exists>t. probe n s t = i \<and> (\<forall>u < t. \<not> emptyf fl (probe n s u)))"

definition shape :: "u32 \<Rightarrow> u32 list \<Rightarrow> 'k option list \<Rightarrow> 'v option list \<Rightarrow> bool" where
  "shape n fl ks vs \<longleftrightarrow> pow2_size n \<and> length fl = unat (ac_fsize n) \<and> unat n \<le> length ks \<and> unat n \<le> length vs"

definition placed :: "('k \<Rightarrow> u32) \<Rightarrow> nat \<Rightarrow> u32 list \<Rightarrow> 'k option list \<Rightarrow> bool" where
  "placed hash_func n fl ks \<longleftrightarrow> (\<forall>i < n. live fl i \<longrightarrow> (\<exists>k. ks ! i = Some k \<and> reach fl n (unat (hash_func k)) i))"

definition lives :: "nat \<Rightarrow> u32 list \<Rightarrow> nat set" where
  "lives n fl = {i. i < n \<and> live fl i}"

definition used :: "nat \<Rightarrow> u32 list \<Rightarrow> nat set" where
  "used n fl = {i. i < n \<and> \<not> emptyf fl i}"

definition table_ok :: "('k \<Rightarrow> u32) \<Rightarrow> ('k, 'v) khash \<Rightarrow> bool" where
  "table_ok hash_func h \<longleftrightarrow>
     (let n = unat (n_buckets h) in
      shape (n_buckets h) (flags h) (keys h) (vals h) \<and> placed hash_func n (flags h) (keys h) \<and>
      inj_on (\<lambda>i. keys h ! i) (lives n (flags h)) \<and>
      unat (kh_size h) = card (lives n (flags h)) \<and> unat (n_occupied h) = card (used n (flags h)) \<and>
      upper_bound h = hash_upper (n_buckets h) \<and> n_occupied h \<le> upper_bound h)"

definition kh_inv :: "('k \<Rightarrow> u32) \<Rightarrow> ('k, 'v) khash \<Rightarrow> bool" where
  "kh_inv hash_func h \<longleftrightarrow>
     (if n_buckets h = 0 then kh_size h = 0 \<and> n_occupied h = 0 \<and> upper_bound h = 0 \<and> flags h = [] else table_ok hash_func h)"

text \<open>The map a table stands for; a value is \<open>None\<close> as long as nothing was written to it.\<close>

definition kh_map :: "('k, 'v) khash \<Rightarrow> 'k \<Rightarrow> 'v option option" where
  "kh_map h = map_of (map (\<lambda>i. (the (keys h ! i), vals h ! i)) (filter (live (flags h)) [0..<unat (n_buckets h)]))"

section \<open>Words\<close>

lemma pow2_pos: "pow2_size n \<Longrightarrow> 4 \<le> unat n \<and> unat n \<le> 2 ^ 31"
proof -
  assume "pow2_size n"
  then obtain k where k: "2 \<le> k" "k \<le> 31" "unat n = 2 ^ k" by (auto simp: pow2_size_def)
  then have "(2 :: nat) ^ 2 \<le> 2 ^ k" "(2 :: nat) ^ k \<le> 2 ^ 31" by (intro power_increasing; simp)+
  then show ?thesis using k(3) by simp
qed

lemma pow2_word: "unat (n :: u32) = 2 ^ k \<Longrightarrow> k \<le> 31 \<Longrightarrow> n - 1 = mask k"
proof -
  assume "unat n = 2 ^ k" "k \<le> 31"
  then have "n = 2 ^ k" using unat_pow2 [of k] by (simp add: word_unat_eq_iff)
  then show ?thesis by (simp add: mask_eq_exp_minus_1)
qed

lemma and_mask_mod:
  assumes "pow2_size n"
  shows "unat (w AND (n - 1)) = unat w mod unat n"
proof -
  obtain k where k: "k \<le> 31" "unat n = 2 ^ k" using assms by (auto simp: pow2_size_def)
  have "w AND (n - 1) = take_bit k w" by (simp add: pow2_word [OF k(2,1)] take_bit_eq_mask)
  then have "unat (w AND (n - 1)) = take_bit k (unat w)" by (simp only: unsigned_take_bit_eq)
  then show ?thesis by (simp add: take_bit_eq_mod k(2))
qed

lemma step_mod:
  assumes "pow2_size n"
  shows "unat ((i + d) AND (n - 1)) = (unat i + unat d) mod unat n"
proof -
  obtain k where k: "k \<le> 31" "unat n = 2 ^ k" using assms by (auto simp: pow2_size_def)
  have "(2 :: nat) ^ k dvd 2 ^ 32" using k(1) by (intro le_imp_power_dvd) simp
  then show ?thesis
    by (simp add: and_mask_mod [OF assms] unat_word_ariths k(2) mod_mod_cancel)
qed

lemma flags_cover: "shape n fl ks vs \<Longrightarrow> i < unat n \<Longrightarrow> i < 16 * length fl"
proof -
  assume s: "shape n fl ks vs" and i: "i < unat n"
  then obtain k where k: "unat n = 2 ^ k" by (auto simp: shape_def pow2_size_def)
  show "i < 16 * length fl"
  proof (cases "n < 16")
    case True
    then have "unat n < 16" by (simp add: word_less_nat_alt)
    then show ?thesis using s i True by (simp add: shape_def ac_fsize_def)
  next
    case False
    then have "(2 :: nat) ^ 4 \<le> 2 ^ k" using k by (simp add: word_less_nat_alt)
    then have "4 \<le> k" by (rule power_le_imp_le_exp [rotated]) simp
    then have "(16 :: nat) dvd unat n" using k le_imp_power_dvd [of 4 k "2 :: nat"] by simp
    moreover have "length fl = unat n div 16" using s False by (simp add: shape_def ac_fsize_def drop_bit_eq_div unat_div_distrib)
    ultimately show ?thesis using i by auto
  qed
qed

lemma finite_lives [simp]: "finite (lives n fl)" "finite (used n fl)"
  by (simp_all add: lives_def used_def)

lemma lives_used: "lives n fl \<subseteq> used n fl"
  by (auto simp: lives_def used_def live_def)

lemma card_used_le: "card (used n fl) \<le> n"
  using card_mono [of "{..<n}" "used n fl"] by (auto simp: used_def)

lemma hash_upper_bounds:
  assumes "pow2_size n"
  shows "unat (hash_upper n) < unat n" "unat n < 2 * unat (hash_upper n)"
proof -
  let ?v = "(uint n * 6935543426150564 + 2 ^ 52) div 2 ^ 53"
  have u: "uint w = int (unat w)" for w :: u32 by simp
  have n: "4 \<le> uint n" "uint n \<le> 2147483648" using pow2_pos [OF assms, simplified] unfolding u by linarith+
  have d: "?v * 2 ^ 53 + (uint n * 6935543426150564 + 2 ^ 52) mod 2 ^ 53 = uint n * 6935543426150564 + 2 ^ 52"
    by (rule div_mult_mod_eq)
  have m: "0 \<le> (uint n * 6935543426150564 + 2 ^ 52) mod 2 ^ 53" "(uint n * 6935543426150564 + 2 ^ 52) mod 2 ^ 53 < (2 :: int) ^ 53"
    by (rule pos_mod_sign, simp, rule pos_mod_bound, simp)
  have lin: "v < x" "x < 2 * v" if "v * 2 ^ 53 + r = x * 6935543426150564 + 2 ^ 52" "0 \<le> r" "r < 2 ^ 53" "4 \<le> x" for v r x :: int
    using that by simp_all
  have v: "?v < uint n" "uint n < 2 * ?v" using lin [OF d m n(1)] by simp_all
  then have "0 \<le> ?v" "?v < 2 ^ 32" using n by auto
  then have "uint (hash_upper n) = ?v" by (simp add: hash_upper_def uint_word_of_int)
  then show "unat (hash_upper n) < unat n" "unat n < 2 * unat (hash_upper n)" using v unfolding u by linarith+
qed

section \<open>Tables\<close>

lemma table_okD:
  assumes "table_ok hash_func h"
  shows "shape (n_buckets h) (flags h) (keys h) (vals h)" "pow2_size (n_buckets h)"
    "placed hash_func (unat (n_buckets h)) (flags h) (keys h)"
    "inj_on (\<lambda>i. keys h ! i) (lives (unat (n_buckets h)) (flags h))"
    "unat (kh_size h) = card (lives (unat (n_buckets h)) (flags h))"
    "unat (n_occupied h) = card (used (unat (n_buckets h)) (flags h))"
    "upper_bound h = hash_upper (n_buckets h)" "n_occupied h \<le> upper_bound h"
  using assms unfolding table_ok_def Let_def shape_def by auto

lemma exists_empty:
  assumes "card (used n fl) < n"
  shows "\<exists>i < n. emptyf fl i"
proof (rule ccontr)
  assume "\<not> (\<exists>i < n. emptyf fl i)"
  then have "used n fl = {..<n}" by (auto simp: used_def)
  then show False using assms by simp
qed

lemma table_has_empty:
  assumes "table_ok hash_func h"
  shows "\<exists>i < unat (n_buckets h). emptyf (flags h) i"
proof (rule exists_empty)
  have "unat (n_occupied h) \<le> unat (hash_upper (n_buckets h))"
    using table_okD(7,8) [OF assms] by (simp add: word_le_nat_alt)
  then show "card (used (unat (n_buckets h)) (flags h)) < unat (n_buckets h)"
    using table_okD(6) [OF assms] hash_upper_bounds(1) [OF table_okD(2) [OF assms]] by simp
qed

text \<open>The number of the probe on which a search ends: the first empty bucket or the key's own.\<close>

definition stops :: "('k, 'v) khash \<Rightarrow> 'k \<Rightarrow> nat \<Rightarrow> bool" where
  "stops h key i \<longleftrightarrow> emptyf (flags h) i \<or> (\<not> delf (flags h) i \<and> keys h ! i = Some key)"

definition ends_at :: "('k \<Rightarrow> u32) \<Rightarrow> ('k, 'v) khash \<Rightarrow> 'k \<Rightarrow> nat \<Rightarrow> bool" where
  "ends_at hash_func h key t \<longleftrightarrow>
     (let pr = probe (unat (n_buckets h)) (unat (hash_func key)) in
      t < unat (n_buckets h) \<and> stops h key (pr t) \<and> (\<forall>u < t. \<not> stops h key (pr u)))"

lemma search_ends:
  assumes "table_ok hash_func h"
  shows "\<exists>t. ends_at hash_func h key t"
proof -
  let ?n = "unat (n_buckets h)" and ?s = "unat (hash_func key)"
  obtain k where k: "?n = 2 ^ k" using table_okD(2) [OF assms] by (auto simp: pow2_size_def)
  obtain i where "i < ?n" "emptyf (flags h) i" using table_has_empty [OF assms] by blast
  then obtain t where t: "t < ?n" "stops h key (probe ?n ?s t)"
    using probe_all [of i k ?s] k by (auto simp: stops_def)
  define m where "m = (LEAST t. stops h key (probe ?n ?s t))"
  have "stops h key (probe ?n ?s m)" unfolding m_def using t(2) by (rule LeastI)
  moreover have "m \<le> t" unfolding m_def using t(2) by (rule Least_le)
  moreover have "\<not> stops h key (probe ?n ?s u)" if "u < m" for u using that unfolding m_def by (rule not_less_Least)
  ultimately show ?thesis using t(1) by (intro exI [of _ m]) (simp add: ends_at_def)
qed

lemma probing_eq:
  assumes "table_ok hash_func h" "unat i < unat (n_buckets h)"
  shows "probing h key i = Inr (\<not> stops h key (unat i))"
proof -
  have sh: "shape (n_buckets h) (flags h) (keys h) (vals h)" using table_okD(1) [OF assms(1)] .
  have fl: "unat i < 16 * length (flags h)" using flags_cover [OF sh assms(2)] .
  show ?thesis
  proof (cases "live (flags h) (unat i)")
    case True
    obtain k where k: "keys h ! unat i = Some k"
      using table_okD(3) [OF assms(1)] assms(2) True by (auto simp: placed_def)
    have "unat i < length (keys h)" using assms(2) sh by (simp add: shape_def)
    then have "rd (keys h) (uint i) = Inr (Some k)" using rd_nat [of "unat i" "keys h"] k by simp
    then show ?thesis using True k by (simp add: probing_def flag_reads [OF fl] rd_key_def stops_def live_def)
  next
    case False
    then show ?thesis by (auto simp: probing_def flag_reads [OF fl] stops_def live_def)
  qed
qed

lemma probe_less: "0 < n \<Longrightarrow> probe n s t < n"
  by (simp add: probe_def)

text \<open>One step of a probing loop, in words.\<close>

lemma probe_step:
  assumes "pow2_size n" "unat i = probe (unat n) s t" "unat step = t" "t < unat n"
  shows "unat (step + 1) = Suc t" "unat ((i + (step + 1)) AND (n - 1)) = probe (unat n) s (Suc t)"
proof -
  have "Suc t < 2 ^ 32" using assms(4) pow2_pos [OF assms(1)] by simp
  then show st: "unat (step + 1) = Suc t" using assms(3) by (simp add: unat_word_ariths)
  show "unat ((i + (step + 1)) AND (n - 1)) = probe (unat n) s (Suc t)"
    by (simp only: step_mod [OF assms(1)] st assms(2) probe_Suc)
qed

lemma not_first_again:
  assumes "pow2_size n" "0 < t" "t < unat n"
  shows "probe (unat n) s t \<noteq> probe (unat n) s 0"
proof -
  obtain k where k: "unat n = 2 ^ k" using assms(1) by (auto simp: pow2_size_def)
  then show ?thesis using probe_differs [of 0 t k s] assms(2,3) by simp
qed

lemma get_loop_ends:
  assumes ok: "table_ok hash_func h" and T: "ends_at hash_func h key T"
    and "unat i = probe (unat (n_buckets h)) (unat (hash_func key)) t" "unat step = t" "t \<le> T" "T - t < fuel"
    and l: "unat l = probe (unat (n_buckets h)) (unat (hash_func key)) 0"
  shows "\<exists>x. unat x = probe (unat (n_buckets h)) (unat (hash_func key)) T \<and>
    get_loop h key (n_buckets h - 1) l fuel i step = Inr (if live (flags h) (unat x) then x else n_buckets h)"
  using assms(3-6)
proof (induction "T - t" arbitrary: t i step fuel)
  case 0
  let ?n = "unat (n_buckets h)"
  have n: "0 < ?n" using pow2_pos [OF table_okD(2) [OF ok]] by simp
  have i: "unat i < ?n" using 0 n by (simp add: probe_less)
  have fl: "unat i < 16 * length (flags h)" using flags_cover [OF table_okD(1) [OF ok] i] .
  obtain f where f: "fuel = Suc f" using 0 by (cases fuel) auto
  have "stops h key (unat i)" using T 0 by (simp add: ends_at_def Let_def)
  then show ?case using 0
    by (intro exI [of _ i]) (simp add: f probing_eq [OF ok i] flag_reads [OF fl] live_def)
next
  case (Suc d)
  let ?n = "unat (n_buckets h)" and ?s = "unat (hash_func key)"
  have p2: "pow2_size (n_buckets h)" using table_okD(2) [OF ok] .
  have n: "0 < ?n" using pow2_pos [OF p2] by simp
  have i: "unat i < ?n" using Suc.prems n by (simp add: probe_less)
  obtain f where f: "fuel = Suc f" using Suc.prems by (cases fuel) auto
  have tT: "t < T" "T < ?n" using Suc.hyps(2) T by (auto simp: ends_at_def Let_def)
  then have go: "\<not> stops h key (unat i)" using T Suc.prems(1) by (simp add: ends_at_def Let_def)
  note st = probe_step [OF p2 Suc.prems(1,2)]
  have "(i + (step + 1)) AND (n_buckets h - 1) \<noteq> l"
    using st(2) l not_first_again [OF p2, of "Suc t" ?s] tT by auto
  moreover have "\<exists>x. unat x = probe ?n ?s T \<and>
      get_loop h key (n_buckets h - 1) l f ((i + (step + 1)) AND (n_buckets h - 1)) (step + 1) =
      Inr (if live (flags h) (unat x) then x else n_buckets h)"
    using Suc.hyps(2) Suc.prems(3,4) tT f st by (intro Suc.hyps(1)) auto
  ultimately show ?case using go by (simp add: f probing_eq [OF ok i] Let_def)
qed

lemma set_lives: "set (filter (live fl) [0..<n]) = lives n fl"
  by (auto simp: lives_def)

text \<open>The entries of a table with any number of buckets; the arrays may be longer than the table.\<close>

definition source_ok :: "('k \<Rightarrow> u32) \<Rightarrow> ('k, 'v) khash \<Rightarrow> bool" where
  "source_ok hash_func h \<longleftrightarrow>
     (\<forall>i < unat (n_buckets h). i < 16 * length (flags h)) \<and>
     (\<forall>i \<in> lives (unat (n_buckets h)) (flags h). keys h ! i \<noteq> None) \<and>
     inj_on (\<lambda>i. keys h ! i) (lives (unat (n_buckets h)) (flags h)) \<and>
     unat (kh_size h) = card (lives (unat (n_buckets h)) (flags h))"

lemma table_source:
  assumes "table_ok hash_func h"
  shows "source_ok hash_func h"
proof -
  have "keys h ! i \<noteq> None" if "i \<in> lives (unat (n_buckets h)) (flags h)" for i
    using table_okD(3) [OF assms] that by (auto simp: placed_def lives_def)
  then show ?thesis using table_okD(4,5) [OF assms] flags_cover [OF table_okD(1) [OF assms]] by (simp add: source_ok_def)
qed

lemma kh_map_entry:
  assumes "source_ok hash_func h"
  shows "kh_map h key = Some v \<longleftrightarrow> (\<exists>i \<in> lives (unat (n_buckets h)) (flags h). keys h ! i = Some key \<and> vals h ! i = v)"
proof -
  let ?L = "lives (unat (n_buckets h)) (flags h)"
  have key: "\<exists>k. keys h ! i = Some k" if "i \<in> ?L" for i using assms that by (auto simp: source_ok_def)
  have "inj_on (\<lambda>i. the (keys h ! i)) ?L"
  proof (rule inj_onI)
    fix i j assume ij: "i \<in> ?L" "j \<in> ?L" "the (keys h ! i) = the (keys h ! j)"
    then have "keys h ! i = keys h ! j" using key by (metis option.sel)
    moreover have "inj_on (\<lambda>i. keys h ! i) ?L" using assms by (simp add: source_ok_def)
    ultimately show "i = j" using ij by (metis inj_onD)
  qed
  then have "distinct (map fst (map (\<lambda>i. (the (keys h ! i), vals h ! i)) (filter (live (flags h)) [0..<unat (n_buckets h)])))"
    by (simp add: distinct_map comp_def set_lives del: set_filter)
  then have "kh_map h key = Some v \<longleftrightarrow> (key, v) \<in> (\<lambda>i. (the (keys h ! i), vals h ! i)) ` ?L"
    unfolding kh_map_def by (subst map_of_eq_Some_iff) (simp_all only: set_map set_lives)
  also have "\<dots> \<longleftrightarrow> (\<exists>i \<in> ?L. the (keys h ! i) = key \<and> vals h ! i = v)" by auto
  also have "\<dots> \<longleftrightarrow> (\<exists>i \<in> ?L. keys h ! i = Some key \<and> vals h ! i = v)"
  proof (rule bex_cong [OF refl])
    fix i assume "i \<in> ?L"
    from key [OF this] show "(the (keys h ! i) = key \<and> vals h ! i = v) = (keys h ! i = Some key \<and> vals h ! i = v)" by auto
  qed
  finally show ?thesis .
qed

lemmas kh_map_iff = kh_map_entry [OF table_source]

lemma kh_map_None_iff:
  assumes "table_ok hash_func h"
  shows "kh_map h key = None \<longleftrightarrow> (\<forall>i \<in> lives (unat (n_buckets h)) (flags h). keys h ! i \<noteq> Some key)"
proof -
  have "kh_map h key = None \<longleftrightarrow> (\<forall>v. kh_map h key \<noteq> Some v)" by (cases "kh_map h key") auto
  then show ?thesis unfolding kh_map_iff [OF assms] by blast
qed

lemma kh_map_empty: "n_buckets h = 0 \<Longrightarrow> kh_map h = Map.empty"
  by (simp add: kh_map_def)

text \<open>A search ends in the key's bucket when it has one, and in an empty bucket otherwise.\<close>

lemma search_finds:
  assumes ok: "table_ok hash_func h" and T: "ends_at hash_func h key T"
  defines "x \<equiv> probe (unat (n_buckets h)) (unat (hash_func key)) T"
  shows "x < unat (n_buckets h)" "live (flags h) x \<Longrightarrow> keys h ! x = Some key"
    "kh_map h key = Some v \<Longrightarrow> live (flags h) x \<and> vals h ! x = v" "kh_map h key = None \<Longrightarrow> emptyf (flags h) x"
proof -
  let ?n = "unat (n_buckets h)" and ?s = "unat (hash_func key)"
  show x: "x < ?n" using pow2_pos [OF table_okD(2) [OF ok]] unfolding x_def by (intro probe_less) simp
  have stop: "stops h key x" "\<And>u. u < T \<Longrightarrow> \<not> stops h key (probe ?n ?s u)"
    using T by (simp_all add: ends_at_def Let_def x_def)
  show key: "keys h ! x = Some key" if "live (flags h) x" using stop(1) that by (auto simp: stops_def live_def)
  show "live (flags h) x \<and> vals h ! x = v" if m: "kh_map h key = Some v"
  proof -
    obtain i where i: "i \<in> lives ?n (flags h)" "keys h ! i = Some key" "vals h ! i = v"
      using m unfolding kh_map_iff [OF ok] by blast
    obtain t where t: "probe ?n ?s t = i" "\<And>u. u < t \<Longrightarrow> \<not> emptyf (flags h) (probe ?n ?s u)"
      using table_okD(3) [OF ok] i by (auto simp: placed_def lives_def reach_def)
    have "stops h key i" using i by (simp add: stops_def lives_def live_def)
    then have "T \<le> t" using stop(2) t(1) by (metis not_le)
    then have "live (flags h) x"
      using stop(1) t i x by (cases "T = t") (auto simp: stops_def live_def lives_def x_def)
    then have "x \<in> lives ?n (flags h)" "keys h ! x = keys h ! i" using x key i(2) by (simp_all add: lives_def)
    then have "x = i" using table_okD(4) [OF ok] i(1) by (auto dest: inj_onD)
    then show ?thesis using \<open>live (flags h) x\<close> i(3) by simp
  qed
  show "emptyf (flags h) x" if "kh_map h key = None"
    using that stop(1) x by (auto simp: kh_map_None_iff [OF ok] stops_def lives_def live_def)
qed

lemma kh_get_finds:
  assumes "kh_inv hash_func h"
  shows "\<exists>x. kh_get hash_func h key = Inr x \<and>
    (case kh_map h key of None \<Rightarrow> x = n_buckets h
     | Some v \<Rightarrow> unat x < unat (n_buckets h) \<and> live (flags h) (unat x) \<and> keys h ! unat x = Some key \<and> vals h ! unat x = v)"
proof (cases "n_buckets h = 0")
  case True
  then show ?thesis by (simp add: kh_get_def kh_map_empty)
next
  case False
  then have ok: "table_ok hash_func h" using assms by (simp add: kh_inv_def)
  obtain T where T: "ends_at hash_func h key T" using search_ends [OF ok] by blast
  let ?i = "hash_func key AND (n_buckets h - 1)"
  have i: "unat ?i = probe (unat (n_buckets h)) (unat (hash_func key)) 0"
    using and_mask_mod [OF table_okD(2) [OF ok]] by (simp add: probe_0)
  have "T < 2 * unat (n_buckets h)" using T by (simp add: ends_at_def Let_def)
  then obtain x where x: "unat x = probe (unat (n_buckets h)) (unat (hash_func key)) T"
    "get_loop h key (n_buckets h - 1) ?i (2 * unat (n_buckets h)) ?i 0 = Inr (if live (flags h) (unat x) then x else n_buckets h)"
    using get_loop_ends [OF ok T i, of 0 "2 * unat (n_buckets h)" ?i] i by auto
  have "kh_get hash_func h key = Inr (if live (flags h) (unat x) then x else n_buckets h)"
    using False x(2) by (simp add: kh_get_def Let_def)
  then show ?thesis
    using search_finds [OF ok T] x(1) by (cases "kh_map h key") (auto simp: live_def)
qed

section \<open>Insertion\<close>

definition seen_deleted :: "('k \<Rightarrow> u32) \<Rightarrow> ('k, 'v) khash \<Rightarrow> 'k \<Rightarrow> nat \<Rightarrow> u32 \<Rightarrow> bool" where
  "seen_deleted hash_func h key t site \<longleftrightarrow> site = n_buckets h \<or>
     (\<exists>u < t. unat site = probe (unat (n_buckets h)) (unat (hash_func key)) u \<and> delf (flags h) (unat site))"

lemma put_loop_ends:
  assumes ok: "table_ok hash_func h" and T: "ends_at hash_func h key T"
    and "unat i = probe (unat (n_buckets h)) (unat (hash_func key)) t" "unat step = t" "t \<le> T" "T - t < fuel"
    and "seen_deleted hash_func h key t site"
    and l: "unat l = probe (unat (n_buckets h)) (unat (hash_func key)) 0"
  shows "\<exists>x site'. unat x = probe (unat (n_buckets h)) (unat (hash_func key)) T \<and>
    put_loop h key (n_buckets h - 1) l fuel i step site = Inr (n_buckets h, x, site') \<and> seen_deleted hash_func h key T site'"
  using assms(3-7)
proof (induction "T - t" arbitrary: t i step fuel site)
  case 0
  let ?n = "unat (n_buckets h)"
  have n: "0 < ?n" using pow2_pos [OF table_okD(2) [OF ok]] by simp
  have i: "unat i < ?n" using 0 n by (simp add: probe_less)
  obtain f where f: "fuel = Suc f" using 0 by (cases fuel) auto
  have "stops h key (unat i)" using T 0 by (simp add: ends_at_def Let_def)
  then show ?case using 0 by (intro exI [of _ i] exI [of _ site]) (simp add: f probing_eq [OF ok i])
next
  case (Suc d)
  let ?n = "unat (n_buckets h)" and ?s = "unat (hash_func key)"
  have p2: "pow2_size (n_buckets h)" using table_okD(2) [OF ok] .
  have n: "0 < ?n" using pow2_pos [OF p2] by simp
  have i: "unat i < ?n" using Suc.prems n by (simp add: probe_less)
  have fl: "unat i < 16 * length (flags h)" using flags_cover [OF table_okD(1) [OF ok] i] .
  obtain f where f: "fuel = Suc f" using Suc.prems by (cases fuel) auto
  have tT: "t < T" "T < ?n" using Suc.hyps(2) T by (auto simp: ends_at_def Let_def)
  then have go: "\<not> stops h key (unat i)" using T Suc.prems(1) by (simp add: ends_at_def Let_def)
  note st = probe_step [OF p2 Suc.prems(1,2)]
  let ?site = "if delf (flags h) (unat i) then i else site"
  have "seen_deleted hash_func h key (Suc t) ?site"
    using Suc.prems(1,5) by (auto simp: seen_deleted_def less_Suc_eq)
  moreover have "(i + (step + 1)) AND (n_buckets h - 1) \<noteq> l"
    using st(2) l not_first_again [OF p2, of "Suc t" ?s] tT by auto
  ultimately have "\<exists>x site'. unat x = probe ?n ?s T \<and>
      put_loop h key (n_buckets h - 1) l f ((i + (step + 1)) AND (n_buckets h - 1)) (step + 1) ?site =
      Inr (n_buckets h, x, site') \<and> seen_deleted hash_func h key T site'"
    using Suc.hyps(2) Suc.prems(3,4) tT f st by (intro Suc.hyps(1)) auto
  then show ?case using go \<open>(i + (step + 1)) AND (n_buckets h - 1) \<noteq> l\<close>
    by (simp add: f probing_eq [OF ok i] flag_reads [OF fl] Let_def)
qed

text \<open>A deleted bucket that was passed on the way is on the way.\<close>

lemma seen_site:
  assumes "seen_deleted hash_func h key T site" "site \<noteq> n_buckets h" "0 < unat (n_buckets h)" "\<And>u. u < T \<Longrightarrow> \<not> stops h key (probe (unat (n_buckets h)) (unat (hash_func key)) u)"
  shows "unat site < unat (n_buckets h)" "delf (flags h) (unat site)" "reach (flags h) (unat (n_buckets h)) (unat (hash_func key)) (unat site)"
proof -
  obtain u where u: "u < T" "unat site = probe (unat (n_buckets h)) (unat (hash_func key)) u" "delf (flags h) (unat site)"
    using assms(1,2) by (auto simp: seen_deleted_def)
  show "unat site < unat (n_buckets h)" "delf (flags h) (unat site)" using u(2,3) assms(3) by (simp_all add: probe_less)
  show "reach (flags h) (unat (n_buckets h)) (unat (hash_func key)) (unat site)"
    using u(1,2) assms(4) by (auto simp: reach_def stops_def intro!: exI [of _ u])
qed

lemma put_site_found:
  assumes ok: "table_ok hash_func h"
  shows "\<exists>x. put_site hash_func h key = Inr x \<and> unat x < unat (n_buckets h) \<and>
    (if kh_map h key = None then \<not> live (flags h) (unat x) \<and> reach (flags h) (unat (n_buckets h)) (unat (hash_func key)) (unat x)
     else live (flags h) (unat x) \<and> keys h ! unat x = Some key)"
proof -
  let ?n = "unat (n_buckets h)" and ?s = "unat (hash_func key)"
  let ?i = "hash_func key AND (n_buckets h - 1)"
  have p2: "pow2_size (n_buckets h)" using table_okD(2) [OF ok] .
  have n: "0 < ?n" using pow2_pos [OF p2] by simp
  obtain T where T: "ends_at hash_func h key T" using search_ends [OF ok] by blast
  have nostop: "\<not> stops h key (probe ?n ?s u)" if "u < T" for u using T that by (simp add: ends_at_def Let_def)
  have i: "unat ?i = probe ?n ?s 0" using and_mask_mod [OF p2] by (simp add: probe_0)
  then have "unat ?i < ?n" using n by (simp add: probe_less)
  then have fl: "unat ?i < 16 * length (flags h)" using flags_cover [OF table_okD(1) [OF ok]] by blast
  have "T < 2 * ?n" using T by (simp add: ends_at_def Let_def)
  then obtain y site where y: "unat y = probe ?n ?s T"
    "put_loop h key (n_buckets h - 1) ?i (2 * ?n) ?i 0 (n_buckets h) = Inr (n_buckets h, y, site)"
    "seen_deleted hash_func h key T site"
    using put_loop_ends [OF ok T i, of 0 "2 * ?n" "n_buckets h" ?i] i by (auto simp: seen_deleted_def)
  have yl: "unat y < ?n" using y(1) n by (simp add: probe_less)
  have yfl: "unat y < 16 * length (flags h)" using flags_cover [OF table_okD(1) [OF ok] yl] .
  have ry: "reach (flags h) ?n ?s (unat y)" using y(1) nostop by (auto simp: reach_def stops_def)
  note found = search_finds [OF ok T, folded y(1)]
  show ?thesis
  proof (cases "emptyf (flags h) (unat ?i)")
    case True
    then have "T = 0" using nostop [of 0] i by (auto simp: stops_def)
    then have "unat y = unat ?i" using y(1) i by simp
    then have eq: "y = ?i" by (simp add: word_unat_eq_iff)
    have "kh_map h key = None" using found(3) True eq by (cases "kh_map h key") (auto simp: live_def)
    then show ?thesis using True eq ry yl by (auto simp: put_site_def flag_reads [OF fl] live_def)
  next
    case False
    have p: "put_site hash_func h key = Inr (if emptyf (flags h) (unat y) \<and> site \<noteq> n_buckets h then site else y)"
      using False by (simp add: put_site_def flag_reads [OF fl] flag_reads [OF yfl] y(2))
    show ?thesis
    proof (cases "kh_map h key")
      case None
      then have e: "emptyf (flags h) (unat y)" using found(4) by blast
      show ?thesis
      proof (cases "site = n_buckets h")
        case True
        then show ?thesis using p None e ry yl by (auto simp: live_def)
      next
        case False
        then show ?thesis using p None e seen_site [OF y(3) _ n nostop] by (auto simp: live_def)
      qed
    next
      case (Some v)
      then have "live (flags h) (unat y)" "keys h ! unat y = Some key" using found(2,3) by blast+
      then show ?thesis using p Some yl by (auto simp: live_def)
    qed
  qed
qed

end
