(* ===== verification/Khash_Update.thy ===== *)
theory Khash_Update
  imports Khash_Search
begin

text \<open>
  Changes of one bucket: a new key, a deleted one, a new value. Each keeps the invariant of the table
  and changes its map at one key.
\<close>

section \<open>Changing one bucket\<close>

lemma flags_updD:
  assumes "flags_upd fl i e d fl'"
  shows "length fl' = length fl" "emptyf fl' j = (if j = i then e else emptyf fl j)"
    "delf fl' j = (if j = i then d else delf fl j)" "live fl' j = (if j = i then \<not> e \<and> \<not> d else live fl j)"
  using assms by (auto simp: flags_upd_def live_def)

lemma lives_upd:
  assumes "flags_upd fl i e d fl'" "i < n"
  shows "lives n fl' = (if \<not> e \<and> \<not> d then insert i (lives n fl) else lives n fl - {i})"
  using assms(2) by (auto simp: lives_def flags_updD [OF assms(1)])

lemma used_upd:
  assumes "flags_upd fl i e d fl'" "i < n"
  shows "used n fl' = (if e then used n fl - {i} else insert i (used n fl))"
  using assms(2) by (auto simp: used_def flags_updD [OF assms(1)])

lemma reach_mono: "(\<And>j. emptyf fl' j \<Longrightarrow> emptyf fl j) \<Longrightarrow> reach fl n s i \<Longrightarrow> reach fl' n s i"
  by (auto simp: reach_def)

lemma shape_upd:
  "shape n fl ks vs \<Longrightarrow> length fl' = length fl \<Longrightarrow> length ks' = length ks \<Longrightarrow> length vs' = length vs \<Longrightarrow> shape n fl' ks' vs'"
  by (simp add: shape_def)

lemma unat_inc: "unat (w :: u32) < 2 ^ 32 - 1 \<Longrightarrow> unat (w + 1) = Suc (unat w)"
  by (simp add: unat_word_ariths)

lemma same_key:
  "table_ok hash_func h \<Longrightarrow> i \<in> lives (unat (n_buckets h)) (flags h) \<Longrightarrow> j \<in> lives (unat (n_buckets h)) (flags h) \<Longrightarrow>
   keys h ! i = keys h ! j \<Longrightarrow> i = j"
  by (drule table_okD(4)) (rule inj_onD)

text \<open>A new key in a bucket that is not in use, on the way of the key.\<close>

lemma insert_placed:
  assumes "placed hash_func n fl0 ks" "x < length ks" "reach fl0 n (unat (hash_func key)) x" "flags_upd fl0 x False False fl"
  shows "placed hash_func n fl (ks[x := Some key])"
  unfolding placed_def
proof (intro allI impI)
  have mono: "reach fl0 n s i \<Longrightarrow> reach fl n s i" for s i
    by (rule reach_mono) (auto simp: flags_updD [OF assms(4)] split: if_splits)
  fix i assume i: "i < n" "live fl i"
  show "\<exists>k. ks[x := Some key] ! i = Some k \<and> reach fl n (unat (hash_func k)) i"
  proof (cases "i = x")
    case True
    then show ?thesis using assms(2) mono [OF assms(3)] by simp
  next
    case False
    then have "live fl0 i" using i(2) by (simp add: flags_updD [OF assms(4)])
    then show ?thesis using assms(1) i(1) False mono by (auto simp: placed_def)
  qed
qed

lemma insert_inj:
  assumes "inj_on (\<lambda>i. ks ! i) L" "x < length ks" "x \<notin> L" "\<And>i. i \<in> L \<Longrightarrow> ks ! i \<noteq> Some key"
  shows "inj_on (\<lambda>i. ks[x := Some key] ! i) (insert x L)"
proof -
  have keyI: "ks[x := Some key] ! i = ks ! i" if "i \<in> L" for i using that assms(3) by (metis nth_list_update_neq)
  have "inj_on (\<lambda>i. ks[x := Some key] ! i) L" using assms(1) by (subst inj_on_cong [where g = "\<lambda>i. ks ! i"]) (simp_all add: keyI)
  moreover have "ks[x := Some key] ! x \<notin> (\<lambda>i. ks[x := Some key] ! i) ` L" using assms(2,4) keyI by (auto simp: image_iff) (metis assms(4) keyI)
  ultimately show ?thesis using assms(3) by (simp add: inj_on_insert)
qed

lemma insert_ok:
  assumes ok: "table_ok hash_func h" and x: "x < unat (n_buckets h)" "\<not> live (flags h) x"
    and r: "reach (flags h) (unat (n_buckets h)) (unat (hash_func key)) x" and new: "kh_map h key = None"
    and fl: "flags_upd (flags h) x False False fl"
    and h': "h' = h\<lparr>keys := (keys h)[x := Some key], flags := fl, kh_size := kh_size h + 1, n_occupied := occ\<rparr>"
    and occ: "unat occ = card (insert x (used (unat (n_buckets h)) (flags h)))" "occ \<le> upper_bound h"
  shows "table_ok hash_func h'" "kh_map h' = (kh_map h)(key \<mapsto> vals h ! x)"
proof -
  let ?n = "unat (n_buckets h)"
  have sh: "shape (n_buckets h) (flags h) (keys h) (vals h)" using table_okD(1) [OF ok] .
  have xk: "x < length (keys h)" using sh x(1) by (simp add: shape_def)
  have lv: "lives ?n fl = insert x (lives ?n (flags h))" using lives_upd [OF fl x(1)] by simp
  have nx: "x \<notin> lives ?n (flags h)" using x(2) by (simp add: lives_def)
  have mono: "reach (flags h) ?n s i \<Longrightarrow> reach fl ?n s i" for s i
    by (rule reach_mono) (auto simp: flags_updD [OF fl] split: if_splits)
  have keyI: "(keys h)[x := Some key] ! i = keys h ! i" if "i \<in> lives ?n (flags h)" for i
    using that nx by (metis nth_list_update_neq)
  have absent: "keys h ! i \<noteq> Some key" if "i \<in> lives ?n (flags h)" for i
    using new that by (simp add: kh_map_None_iff [OF ok])
  have "placed hash_func ?n fl ((keys h)[x := Some key])" using insert_placed [OF table_okD(3) [OF ok] xk r fl] .
  moreover have "inj_on (\<lambda>i. (keys h)[x := Some key] ! i) (insert x (lives ?n (flags h)))"
    using table_okD(4) [OF ok] xk nx absent by (rule insert_inj)
  moreover have "unat (kh_size h + 1) = Suc (card (lives ?n (flags h)))"
  proof -
    have "card (lives ?n (flags h)) \<le> ?n" using card_mono [OF finite_lives(2) lives_used] card_used_le le_trans by blast
    then have "unat (kh_size h) < 2 ^ 32 - 1" using table_okD(5) [OF ok] pow2_pos [OF table_okD(2) [OF ok]] by simp
    then show ?thesis using unat_inc table_okD(5) [OF ok] by simp
  qed
  moreover have "used ?n fl = insert x (used ?n (flags h))" using used_upd [OF fl x(1)] by simp
  moreover have "shape (n_buckets h) fl ((keys h)[x := Some key]) (vals h)"
    by (rule shape_upd [OF sh]) (simp_all add: flags_updD(1) [OF fl])
  ultimately show ok': "table_ok hash_func h'"
    using occ table_okD(7,8) [OF ok] nx by (simp add: h' table_ok_def lv)
  show "kh_map h' = (kh_map h)(key \<mapsto> vals h ! x)"
  proof
    fix k
    have m: "kh_map h' k = Some v \<longleftrightarrow> (\<exists>i \<in> insert x (lives ?n (flags h)). (keys h)[x := Some key] ! i = Some k \<and> vals h ! i = v)" for v
      unfolding kh_map_iff [OF ok'] by (simp add: h' lv)
    have "kh_map h' k = Some v \<longleftrightarrow> ((kh_map h)(key \<mapsto> vals h ! x)) k = Some v" for v
      unfolding m using xk keyI absent nx by (auto simp: kh_map_iff [OF ok])
    then show "kh_map h' k = ((kh_map h)(key \<mapsto> vals h ! x)) k" by (metis not_None_eq)
  qed
qed

lemma put_at_ok:
  assumes ok: "table_ok hash_func h" and x: "unat x < unat (n_buckets h)" and room: "n_occupied h < upper_bound h"
    and site: "if kh_map h key = None then \<not> live (flags h) (unat x) \<and> reach (flags h) (unat (n_buckets h)) (unat (hash_func key)) (unat x)
      else live (flags h) (unat x) \<and> keys h ! unat x = Some key"
  shows "\<exists>r h'. put_at h key x = Inr (x, r, h') \<and> table_ok hash_func h' \<and> n_buckets h' = n_buckets h \<and> vals h' = vals h \<and>
    live (flags h') (unat x) \<and> keys h' ! unat x = Some key \<and> kh_map h' = (kh_map h)(key \<mapsto> vals h ! unat x) \<and>
    r = (if kh_map h key \<noteq> None then 0 else if emptyf (flags h) (unat x) then 1 else 2) \<and> (r = 0 \<longrightarrow> h' = h)"
proof -
  let ?n = "unat (n_buckets h)"
  have sh: "shape (n_buckets h) (flags h) (keys h) (vals h)" using table_okD(1) [OF ok] .
  have fl: "unat x < 16 * length (flags h)" using flags_cover [OF sh x] .
  have xk: "unat x < length (keys h)" using sh x by (simp add: shape_def)
  then have wr: "wr (keys h) (uint x) (Some key) = Inr ((keys h)[unat x := Some key])"
    using wr_nat [OF xk] by simp
  obtain fl' where fl': "ac_set_isboth_false (flags h) x = Inr fl'" "flags_upd (flags h) (unat x) False False fl'"
    using flag_writes(2) [OF fl] by blast
  show ?thesis
  proof (cases "kh_map h key = None")
    case True
    then have nl: "\<not> live (flags h) (unat x)" and r: "reach (flags h) ?n (unat (hash_func key)) (unat x)" using site by auto
    let ?occ = "if emptyf (flags h) (unat x) then n_occupied h + 1 else n_occupied h"
    define h' where "h' = h\<lparr>keys := (keys h)[unat x := Some key], flags := fl', kh_size := kh_size h + 1, n_occupied := ?occ\<rparr>"
    have inc: "unat (n_occupied h + 1) = Suc (unat (n_occupied h))"
      using room unat_inc [of "n_occupied h"] unsigned_less [of "upper_bound h", where 'a = nat] by (simp add: word_less_nat_alt)
    have "unat ?occ = card (insert (unat x) (used ?n (flags h)))"
    proof (cases "emptyf (flags h) (unat x)")
      case True
      then have "unat x \<notin> used ?n (flags h)" by (simp add: used_def)
      then show ?thesis using True inc table_okD(6) [OF ok] by simp
    next
      case False
      then have "unat x \<in> used ?n (flags h)" using x by (simp add: used_def)
      then show ?thesis using False table_okD(6) [OF ok] by (simp add: insert_absorb)
    qed
    moreover have "?occ \<le> upper_bound h" using room inc by (auto simp: word_le_nat_alt word_less_nat_alt)
    ultimately have h': "table_ok hash_func h'" "kh_map h' = (kh_map h)(key \<mapsto> vals h ! unat x)"
      using insert_ok [OF ok x nl r True fl'(2) h'_def] by blast+
    have "put_at h key x = Inr (x, if emptyf (flags h) (unat x) then 1 else 2, h')"
      using nl by (auto simp: put_at_def flag_reads [OF fl] wr fl' live_def h'_def)
    moreover have "live (flags h') (unat x)" "keys h' ! unat x = Some key"
      using xk by (simp_all add: h'_def flags_updD [OF fl'(2)])
    moreover have "n_buckets h' = n_buckets h" "vals h' = vals h" by (simp_all add: h'_def)
    ultimately show ?thesis using h' True
      by (intro exI [of _ "if emptyf (flags h) (unat x) then 1 else 2"] exI [of _ h']) simp
  next
    case False
    then have lv: "live (flags h) (unat x)" "keys h ! unat x = Some key" using site by auto
    then have "put_at h key x = Inr (x, 0, h)" by (simp add: put_at_def flag_reads [OF fl] live_def)
    moreover have "kh_map h key = Some (vals h ! unat x)"
      using lv x by (auto simp: kh_map_iff [OF ok] lives_def)
    ultimately show ?thesis using ok lv False by (intro exI [of _ 0] exI [of _ h]) (simp add: fun_upd_idem)
  qed
qed

section \<open>Deletion, values and clearing\<close>

lemma kh_del_ok:
  assumes ok: "table_ok hash_func h" and x: "unat x < unat (n_buckets h)" "live (flags h) (unat x)"
  shows "\<exists>h'. kh_del h x = Inr h' \<and> table_ok hash_func h' \<and> n_buckets h' = n_buckets h \<and>
    kh_map h' = (kh_map h)(the (keys h ! unat x) := None)"
proof -
  let ?n = "unat (n_buckets h)"
  have sh: "shape (n_buckets h) (flags h) (keys h) (vals h)" using table_okD(1) [OF ok] .
  have fl: "unat x < 16 * length (flags h)" using flags_cover [OF sh x(1)] .
  obtain fl' where fl': "ac_set_isdel_true (flags h) x = Inr fl'" "flags_upd (flags h) (unat x) (emptyf (flags h) (unat x)) True fl'"
    using flag_writes(3) [OF fl] by blast
  define h' where "h' = h\<lparr>flags := fl', kh_size := kh_size h - 1\<rparr>"
  have xl: "unat x \<in> lives ?n (flags h)" using x by (simp add: lives_def)
  have lv: "lives ?n fl' = lives ?n (flags h) - {unat x}" using lives_upd [OF fl'(2) x(1)] by simp
  have us: "used ?n fl' = used ?n (flags h)"
    using used_upd [OF fl'(2) x(1)] x by (auto simp: used_def live_def)
  have "unat (kh_size h) \<noteq> 0" using table_okD(5) [OF ok] xl by auto
  then have "unat (kh_size h - 1) = unat (kh_size h) - 1" by (metis unat_0 unat_minus_one)
  moreover have "placed hash_func ?n fl' (keys h)"
    unfolding placed_def
  proof (intro allI impI)
    fix i assume i: "i < ?n" "live fl' i"
    then have "live (flags h) i" using fl'(2) by (auto simp: flags_updD split: if_splits)
    then obtain k where "keys h ! i = Some k" "reach (flags h) ?n (unat (hash_func k)) i"
      using table_okD(3) [OF ok] i(1) by (auto simp: placed_def)
    moreover have "reach fl' ?n (unat (hash_func k)) i" if "reach (flags h) ?n (unat (hash_func k)) i"
      by (rule reach_mono [OF _ that]) (auto simp: flags_updD [OF fl'(2)] split: if_splits)
    ultimately show "\<exists>k. keys h ! i = Some k \<and> reach fl' ?n (unat (hash_func k)) i" by blast
  qed
  moreover have "inj_on (\<lambda>i. keys h ! i) (lives ?n fl')"
    using table_okD(4) [OF ok] lv by (auto intro: inj_on_subset)
  moreover have "shape (n_buckets h) fl' (keys h) (vals h)"
    by (rule shape_upd [OF sh]) (simp_all add: flags_updD(1) [OF fl'(2)])
  ultimately have ok': "table_ok hash_func h'"
    using table_okD(5-8) [OF ok] xl by (simp add: h'_def table_ok_def lv us)
  obtain k where k: "keys h ! unat x = Some k" using table_okD(3) [OF ok] x by (auto simp: placed_def)
  have uniq: "i = unat x" if "i \<in> lives ?n (flags h)" "keys h ! i = Some k" for i
    using same_key [OF ok that(1) xl] that(2) k by simp
  have "kh_map h' = (kh_map h)(k := None)"
  proof
    fix k'
    have m: "kh_map h' k' = Some v \<longleftrightarrow> (\<exists>i \<in> lives ?n (flags h) - {unat x}. keys h ! i = Some k' \<and> vals h ! i = v)" for v
      unfolding kh_map_iff [OF ok'] by (simp add: h'_def lv)
    have "kh_map h' k' = Some v \<longleftrightarrow> ((kh_map h)(k := None)) k' = Some v" for v
      unfolding m using k by (cases "k' = k") (auto simp: kh_map_iff [OF ok] dest: uniq)
    then show "kh_map h' k' = ((kh_map h)(k := None)) k'" by (metis not_None_eq)
  qed
  moreover have "kh_del h x = Inr h'"
    using x by (auto simp: kh_del_def flag_reads [OF fl] fl' live_def h'_def)
  ultimately show ?thesis using ok' k by (simp add: h'_def)
qed

lemma set_kh_value_ok:
  assumes ok: "table_ok hash_func h" and x: "unat x < unat (n_buckets h)" "live (flags h) (unat x)"
  shows "\<exists>h'. set_kh_value h x v = Inr h' \<and> table_ok hash_func h' \<and> n_buckets h' = n_buckets h \<and>
    kh_map h' = (kh_map h)(the (keys h ! unat x) \<mapsto> Some v)"
proof -
  let ?n = "unat (n_buckets h)"
  have sh: "shape (n_buckets h) (flags h) (keys h) (vals h)" using table_okD(1) [OF ok] .
  have xv: "unat x < length (vals h)" using sh x by (simp add: shape_def)
  define h' where "h' = h\<lparr>vals := (vals h)[unat x := Some v]\<rparr>"
  have ok': "table_ok hash_func h'" using ok by (simp add: h'_def table_ok_def shape_def)
  have xl: "unat x \<in> lives ?n (flags h)" using x by (simp add: lives_def)
  obtain k where k: "keys h ! unat x = Some k" using table_okD(3) [OF ok] x by (auto simp: placed_def)
  have uniq: "i = unat x" if "i \<in> lives ?n (flags h)" "keys h ! i = Some k" for i
    using same_key [OF ok that(1) xl] that(2) k by simp
  have "kh_map h' = (kh_map h)(k \<mapsto> Some v)"
  proof
    fix k'
    have m: "kh_map h' k' = Some w \<longleftrightarrow> (\<exists>i \<in> lives ?n (flags h). keys h ! i = Some k' \<and> (vals h)[unat x := Some v] ! i = w)" for w
      unfolding kh_map_iff [OF ok'] by (simp add: h'_def)
    have "kh_map h' k' = Some w \<longleftrightarrow> ((kh_map h)(k \<mapsto> Some v)) k' = Some w" for w
    proof (cases "k' = k")
      case True
      then have "kh_map h' k' = Some w \<longleftrightarrow> (vals h)[unat x := Some v] ! unat x = w" unfolding m using k xl uniq by blast
      then show ?thesis using True xv by auto
    next
      case False
      have "(vals h)[unat x := Some v] ! i = vals h ! i" if "keys h ! i = Some k'" for i
        using that False k by (metis nth_list_update_neq option.inject)
      then show ?thesis unfolding m using False by (auto simp: kh_map_iff [OF ok])
    qed
    then show "kh_map h' k' = ((kh_map h)(k \<mapsto> Some v)) k'" by (metis not_None_eq)
  qed
  moreover have "set_kh_value h x v = Inr h'" using wr_nat [OF xv] by (simp add: set_kh_value_def h'_def)
  ultimately show ?thesis using ok' k by (simp add: h'_def)
qed

lemma aa_flags:
  assumes "i < 16 * m"
  shows "emptyf (replicate m 0xaaaaaaaa) i" "\<not> delf (replicate m 0xaaaaaaaa) i"
proof -
  have m: "i div 16 < m" using assms by (simp add: div_less_iff_less_mult mult.commute)
  have "\<forall>b < 32. bit (0xaaaaaaaa :: u32) b \<longleftrightarrow> odd b" by code_simp
  then have "bit (0xaaaaaaaa :: u32) (2 * (i mod 16) + 1)" "\<not> bit (0xaaaaaaaa :: u32) (2 * (i mod 16))"
    by (auto simp del: bit_numeral_word_iff)
  then show "emptyf (replicate m 0xaaaaaaaa) i" "\<not> delf (replicate m 0xaaaaaaaa) i"
    unfolding emptyf_def delf_def nth_replicate [OF m] .
qed

end
