(* ===== verification/Khash_Rehash.thy ===== *)
theory Khash_Rehash
  imports Khash_Update
begin

text \<open>
  The rehashing in place of \<^verbatim>\<open>kh_resize\<close>. The entries still in the old table, those placed in the
  new one and the one being moved are together always the same multiset; every move of the
  kick-out loop takes one bucket out of the old table, so that the loop ends.
\<close>

section \<open>Entries\<close>

definition ents :: "nat set \<Rightarrow> 'k option list \<Rightarrow> 'v option list \<Rightarrow> ('k option \<times> 'v option) multiset" where
  "ents S ks vs = image_mset (\<lambda>i. (ks ! i, vs ! i)) (mset_set S)"

lemma ents_insert: "finite S \<Longrightarrow> i \<notin> S \<Longrightarrow> ents (insert i S) ks vs = add_mset (ks ! i, vs ! i) (ents S ks vs)"
  by (simp add: ents_def)

lemma ents_remove: "finite S \<Longrightarrow> i \<in> S \<Longrightarrow> ents S ks vs = add_mset (ks ! i, vs ! i) (ents (S - {i}) ks vs)"
  using ents_insert [of "S - {i}" i ks vs] by (simp add: insert_absorb)

lemma ents_cong: "(\<And>i. i \<in> S \<Longrightarrow> ks' ! i = ks ! i \<and> vs' ! i = vs ! i) \<Longrightarrow> finite S \<Longrightarrow> ents S ks' vs' = ents S ks vs"
  unfolding ents_def by (rule image_mset_cong) simp

lemma ents_upd: "finite S \<Longrightarrow> i \<notin> S \<Longrightarrow> ents S (ks[i := a]) (vs[i := b]) = ents S ks vs"
  by (rule ents_cong) (metis nth_list_update_neq)+

lemma set_ents: "finite S \<Longrightarrow> set_mset (ents S ks vs) = (\<lambda>i. (ks ! i, vs ! i)) ` S"
  by (simp add: ents_def)

lemma size_ents: "size (ents S ks vs) = card S"
  by (simp add: ents_def)

definition nodup :: "'a multiset \<Rightarrow> bool" where "nodup M \<longleftrightarrow> card (set_mset M) = size M"

lemma inj_on_mset: "finite S \<Longrightarrow> inj_on f S \<longleftrightarrow> nodup (image_mset f (mset_set S))"
  by (simp add: nodup_def inj_on_iff_eq_card)

lemma ents_keys: "image_mset fst (ents S ks vs) = image_mset (\<lambda>i. ks ! i) (mset_set S)"
  by (simp add: ents_def comp_def multiset.map_comp)

section \<open>An empty bucket\<close>

definition flags_ok :: "u32 \<Rightarrow> u32 list \<Rightarrow> bool" where
  "flags_ok n fl \<longleftrightarrow> pow2_size n \<and> length fl = unat (ac_fsize n)"

lemma flags_ok_cover: "flags_ok n fl \<Longrightarrow> i < unat n \<Longrightarrow> i < 16 * length fl"
  using flags_cover [of n fl "replicate (unat n) None" "replicate (unat n) None"] by (simp add: flags_ok_def shape_def)

lemma find_empty_ends:
  assumes ok: "flags_ok n fl" and T: "T < unat n" "emptyf fl (probe (unat n) s T)" "\<forall>u < T. \<not> emptyf fl (probe (unat n) s u)"
    and "unat i = probe (unat n) s t" "unat step = t" "t \<le> T" "T - t < fuel"
  shows "\<exists>x. unat x = probe (unat n) s T \<and> find_empty fl (n - 1) fuel i step = Inr x"
  using assms(5-8)
proof (induction "T - t" arbitrary: t i step fuel)
  case 0
  have n: "pow2_size n" "0 < unat n" using ok pow2_pos [of n] by (auto simp: flags_ok_def)
  have fl: "unat i < 16 * length fl" using 0 n probe_less by (intro flags_ok_cover [OF ok]) simp
  obtain f where f: "fuel = Suc f" using 0 by (cases fuel) auto
  show ?case using 0 T(2) by (intro exI [of _ i]) (simp add: f flag_reads [OF fl])
next
  case (Suc d)
  have n: "pow2_size n" "0 < unat n" using ok pow2_pos [of n] by (auto simp: flags_ok_def)
  have fl: "unat i < 16 * length fl" using Suc.prems n probe_less by (intro flags_ok_cover [OF ok]) simp
  obtain f where f: "fuel = Suc f" using Suc.prems by (cases fuel) auto
  have tT: "t < T" using Suc.hyps(2) by simp
  note st = probe_step [OF n(1) Suc.prems(1,2)]
  have "\<exists>x. unat x = probe (unat n) s T \<and> find_empty fl (n - 1) f ((i + (step + 1)) AND (n - 1)) (step + 1) = Inr x"
    using Suc.hyps(2) Suc.prems(3,4) tT T(1) f st by (intro Suc.hyps(1)) auto
  then show ?case using T(3) tT Suc.prems(1) by (simp add: f flag_reads [OF fl] Let_def)
qed

lemma find_empty_found:
  assumes ok: "flags_ok n fl" and room: "card (used (unat n) fl) < unat n"
  shows "\<exists>x. find_empty fl (n - 1) (unat n) (w AND (n - 1)) 0 = Inr x \<and> unat x < unat n \<and> emptyf fl (unat x) \<and>
    reach fl (unat n) (unat w) (unat x)"
proof -
  let ?n = "unat n" and ?s = "unat w"
  have p2: "pow2_size n" "0 < ?n" using ok pow2_pos [of n] by (auto simp: flags_ok_def)
  obtain k where k: "?n = 2 ^ k" using p2(1) by (auto simp: pow2_size_def)
  obtain i where i: "i < ?n" "emptyf fl i" using exists_empty [OF room] by blast
  then obtain t where t: "t < ?n" "emptyf fl (probe ?n ?s t)" using probe_all [of i k ?s] unfolding k by blast
  define T where "T = (LEAST t. emptyf fl (probe ?n ?s t))"
  have e: "emptyf fl (probe ?n ?s T)" unfolding T_def using t(2) by (rule LeastI)
  have "T \<le> t" unfolding T_def using t(2) by (rule Least_le)
  then have lt: "T < ?n" using t(1) by simp
  have ne: "\<forall>u < T. \<not> emptyf fl (probe ?n ?s u)" unfolding T_def using not_less_Least by blast
  have i0: "unat (w AND (n - 1)) = probe ?n ?s 0" using and_mask_mod [OF p2(1)] by (simp add: probe_0)
  obtain x where x: "unat x = probe ?n ?s T" "find_empty fl (n - 1) ?n (w AND (n - 1)) 0 = Inr x"
    using find_empty_ends [OF ok lt e ne i0, of 0 ?n] lt by auto
  then show ?thesis using e ne p2(2) by (auto simp: probe_less reach_def)
qed

section \<open>The kick-out loop\<close>

text \<open>
  Between two moves the entries are those still in the old table, those already placed in the new
  one and the one in hand; together they are always the same.
\<close>

definition rehash_inv ::
  "('k \<Rightarrow> u32) \<Rightarrow> u32 \<Rightarrow> u32 \<Rightarrow> ('k option \<times> 'v option) multiset \<Rightarrow> ('k option \<times> 'v option) multiset \<Rightarrow> ('k, 'v) rehash \<Rightarrow> bool" where
  "rehash_inv hash_func nb new_n M hand s \<longleftrightarrow>
     (let L = lives (unat nb) (old_flags s); P = used (unat new_n) (new_flags s) in
      (\<forall>i < unat nb. i < 16 * length (old_flags s)) \<and> flags_ok new_n (new_flags s) \<and>
      max (unat nb) (unat new_n) \<le> length (rkeys s) \<and> max (unat nb) (unat new_n) \<le> length (rvals s) \<and>
      (\<forall>i < unat new_n. \<not> delf (new_flags s) i) \<and> L \<inter> P = {} \<and>
      ents L (rkeys s) (rvals s) + ents P (rkeys s) (rvals s) + hand = M \<and>
      placed hash_func (unat new_n) (new_flags s) (rkeys s) \<and> size M < unat new_n \<and> None \<notin># image_mset fst M)"

lemma rehash_invD:
  assumes "rehash_inv hash_func nb new_n M hand s"
  shows "i < unat nb \<Longrightarrow> i < 16 * length (old_flags s)" "flags_ok new_n (new_flags s)"
    "max (unat nb) (unat new_n) \<le> length (rkeys s)" "max (unat nb) (unat new_n) \<le> length (rvals s)"
    "i < unat new_n \<Longrightarrow> \<not> delf (new_flags s) i" "lives (unat nb) (old_flags s) \<inter> used (unat new_n) (new_flags s) = {}"
    "ents (lives (unat nb) (old_flags s)) (rkeys s) (rvals s) + ents (used (unat new_n) (new_flags s)) (rkeys s) (rvals s) + hand = M"
    "placed hash_func (unat new_n) (new_flags s) (rkeys s)" "size M < unat new_n" "None \<notin># image_mset fst M"
  using assms unfolding rehash_inv_def Let_def by blast+

lemma placed_add:
  assumes "placed hash_func n fl ks" "flags_upd fl x False d fl'" "x < length ks" "reach fl n (unat (hash_func k)) x"
  shows "placed hash_func n fl' (ks[x := Some k])"
  unfolding placed_def
proof (intro allI impI)
  fix i assume i: "i < n" "live fl' i"
  have mono: "reach fl n s j \<Longrightarrow> reach fl' n s j" for s j
    by (rule reach_mono) (auto simp: flags_updD [OF assms(2)] split: if_splits)
  show "\<exists>k'. ks[x := Some k] ! i = Some k' \<and> reach fl' n (unat (hash_func k')) i"
  proof (cases "i = x")
    case True
    then show ?thesis using assms(3) mono [OF assms(4)] by simp
  next
    case False
    then have "live fl i" using i(2) by (simp add: flags_updD [OF assms(2)])
    then show ?thesis using assms(1) i(1) False mono by (auto simp: placed_def)
  qed
qed

text \<open>Placing the entry in hand: the bucket's old entry, if it still has one, comes into the hand.\<close>

lemma place_hand:
  assumes inv: "rehash_inv hash_func nb new_n M {#(Some k, v)#} s"
    and x: "x < unat new_n" "emptyf (new_flags s) x" "reach (new_flags s) (unat new_n) (unat (hash_func k)) x"
    and nf: "flags_upd (new_flags s) x False (delf (new_flags s) x) nf"
    and ofl: "if x \<in> lives (unat nb) (old_flags s) then flags_upd (old_flags s) x e True ofl else ofl = old_flags s"
    and s': "s' = \<lparr>old_flags = ofl, new_flags = nf, rkeys = (rkeys s)[x := Some k], rvals = (rvals s)[x := v]\<rparr>"
  shows "rehash_inv hash_func nb new_n M
      (if x \<in> lives (unat nb) (old_flags s) then {#(rkeys s ! x, rvals s ! x)#} else {#}) s'"
    "lives (unat nb) ofl = lives (unat nb) (old_flags s) - {x}" "length ofl = length (old_flags s)"
proof -
  let ?L = "lives (unat nb) (old_flags s)" and ?P = "used (unat new_n) (new_flags s)"
  let ?ks = "(rkeys s)[x := Some k]" and ?vs = "(rvals s)[x := v]"
  note D = rehash_invD [OF inv]
  show len: "length ofl = length (old_flags s)" using ofl by (auto simp: flags_updD split: if_splits)
  show L: "lives (unat nb) ofl = ?L - {x}"
    using ofl by (auto simp: lives_def flags_updD split: if_splits)
  have P: "used (unat new_n) nf = insert x ?P" using used_upd [OF nf x(1)] by simp
  have xP: "x \<notin> ?P" using x(2) by (simp add: used_def)
  have xl: "x < length (rkeys s)" "x < length (rvals s)" using D(3,4) x(1) by simp_all
  have eL: "ents (?L - {x}) ?ks ?vs = ents (?L - {x}) (rkeys s) (rvals s)" by (rule ents_upd) simp_all
  have eP: "ents (insert x ?P) ?ks ?vs = add_mset (Some k, v) (ents ?P (rkeys s) (rvals s))"
    using ents_insert [OF _ xP, of ?ks ?vs] ents_upd [OF _ xP, of "rkeys s" "Some k" "rvals s" v] xl by simp
  have sum: "ents (?L - {x}) ?ks ?vs + ents (insert x ?P) ?ks ?vs + (if x \<in> ?L then {#(rkeys s ! x, rvals s ! x)#} else {#}) = M"
  proof (cases "x \<in> ?L")
    case True
    then show ?thesis using D(7) ents_remove [of ?L x "rkeys s" "rvals s"] by (simp add: eL eP add_mset_commute)
  next
    case False
    then have "?L - {x} = ?L" by simp
    then show ?thesis using D(7) eL False by (simp add: eP)
  qed
  have del: "\<forall>i < unat new_n. \<not> delf nf i" using D(5) x(1) by (simp add: flags_updD [OF nf])
  have "flags_ok new_n nf" using D(2) by (simp add: flags_ok_def flags_updD [OF nf])
  moreover have "placed hash_func (unat new_n) nf ?ks" using placed_add [OF D(8) nf xl(1) x(3)] .
  moreover have "(?L - {x}) \<inter> insert x ?P = {}" using D(6) by blast
  ultimately show "rehash_inv hash_func nb new_n M (if x \<in> ?L then {#(rkeys s ! x, rvals s ! x)#} else {#}) s'"
    using D(1,3,4,9,10) del sum unfolding rehash_inv_def Let_def s' by (simp add: L P len)
qed

lemma hand_key:
  assumes "rehash_inv hash_func nb new_n M hand s" "(key, v) \<in># hand"
  shows "\<exists>k. key = Some k"
proof -
  have "(key, v) \<in># M" using rehash_invD(7) [OF assms(1)] assms(2) by auto
  then have "key \<in># image_mset fst M" by force
  then show ?thesis using rehash_invD(10) [OF assms(1)] by (cases key) auto
qed

lemma kick_out_places:
  assumes "rehash_inv hash_func nb new_n M {#(key, v)#} s" "card (lives (unat nb) (old_flags s)) < fuel"
  shows "\<exists>s'. kick_out hash_func nb new_n fuel key v s = Inr s' \<and> rehash_inv hash_func nb new_n M {#} s' \<and>
    lives (unat nb) (old_flags s') \<subseteq> lives (unat nb) (old_flags s)"
  using assms
proof (induction fuel arbitrary: key v s)
  case (Suc fuel)
  let ?L = "lives (unat nb) (old_flags s)" and ?P = "used (unat new_n) (new_flags s)"
  note inv = Suc.prems(1)
  note D = rehash_invD [OF inv]
  obtain k where k: "key = Some k" using hand_key [OF inv, of key v] by auto
  have "card ?P \<le> size M" using arg_cong [OF D(7), of size] by (simp add: size_ents)
  then have room: "card ?P < unat new_n" using D(9) by simp
  obtain x where x: "find_empty (new_flags s) (new_n - 1) (unat new_n) (hash_func k AND (new_n - 1)) 0 = Inr x"
    "unat x < unat new_n" "emptyf (new_flags s) (unat x)" "reach (new_flags s) (unat new_n) (unat (hash_func k)) (unat x)"
    using find_empty_found [OF D(2) room] by blast
  obtain nf where nf: "ac_set_isempty_false (new_flags s) x = Inr nf"
    "flags_upd (new_flags s) (unat x) False (delf (new_flags s) (unat x)) nf"
    using flag_writes(1) flags_ok_cover [OF D(2) x(2)] by blast
  have xl: "unat x < length (rkeys s)" "unat x < length (rvals s)" using D(3,4) x(2) by simp_all
  have io: "wr (rkeys s) (uint x) a = Inr ((rkeys s)[unat x := a])" "wr (rvals s) (uint x) b = Inr ((rvals s)[unat x := b])"
    "rd (rkeys s) (uint x) = Inr (rkeys s ! unat x)" "rd (rvals s) (uint x) = Inr (rvals s ! unat x)" for a b
    using wr_nat [OF xl(1)] wr_nat [OF xl(2)] rd_nat [OF xl(1)] rd_nat [OF xl(2)] by simp_all
  have occ: "(if x < nb then bindE (ac_iseither (old_flags s) x) (\<lambda>e. Inr (\<not> e)) else Inr False) = Inr (unat x \<in> ?L)"
    using D(1) by (auto simp: word_less_nat_alt flag_reads lives_def live_def)
  show ?case
  proof (cases "unat x \<in> ?L")
    case True
    then have "unat x < 16 * length (old_flags s)" using D(1) by (simp add: lives_def)
    then obtain ofl where ofl: "ac_set_isdel_true (old_flags s) x = Inr ofl"
      "flags_upd (old_flags s) (unat x) (emptyf (old_flags s) (unat x)) True ofl" using flag_writes(3) by blast
    let ?s = "\<lparr>old_flags = ofl, new_flags = nf, rkeys = (rkeys s)[unat x := Some k], rvals = (rvals s)[unat x := v]\<rparr>"
    have inv': "rehash_inv hash_func nb new_n M {#(rkeys s ! unat x, rvals s ! unat x)#} ?s"
      and L': "lives (unat nb) ofl = ?L - {unat x}"
      using place_hand [OF inv [unfolded k] x(2-4) nf(2) _ refl, of "emptyf (old_flags s) (unat x)" ofl] True ofl(2) by simp_all
    have "card (?L - {unat x}) < card ?L" using True by (intro card_Diff1_less) simp_all
    then have "card (lives (unat nb) (old_flags ?s)) < fuel" using Suc.prems(2) L' by simp
    then obtain s' where "kick_out hash_func nb new_n fuel (rkeys s ! unat x) (rvals s ! unat x) ?s = Inr s'"
      "rehash_inv hash_func nb new_n M {#} s'" "lives (unat nb) (old_flags s') \<subseteq> lives (unat nb) (old_flags ?s)"
      using Suc.IH [OF inv'] by blast
    then show ?thesis using L' True by (auto simp: k x(1) nf(1) occ io ofl(1) Let_def)
  next
    case False
    let ?s = "\<lparr>old_flags = old_flags s, new_flags = nf, rkeys = (rkeys s)[unat x := Some k], rvals = (rvals s)[unat x := v]\<rparr>"
    have "rehash_inv hash_func nb new_n M {#} ?s"
      using place_hand [OF inv [unfolded k] x(2-4) nf(2) _ refl, of _ "old_flags s"] False by simp
    also have "?s = s\<lparr>new_flags := nf, rkeys := (rkeys s)[unat x := Some k], rvals := (rvals s)[unat x := v]\<rparr>" by simp
    finally show ?thesis using False by (auto simp: k x(1) nf(1) occ io Let_def)
  qed
qed simp

lemma rehash_bucket_moves:
  assumes inv: "rehash_inv hash_func nb new_n M {#} s" and j: "j < unat nb"
  shows "\<exists>s'. rehash_bucket hash_func nb new_n j s = Inr s' \<and> rehash_inv hash_func nb new_n M {#} s' \<and>
    lives (unat nb) (old_flags s') \<subseteq> lives (unat nb) (old_flags s) - {j}"
proof -
  let ?L = "lives (unat nb) (old_flags s)"
  note D = rehash_invD [OF inv]
  have uj: "unat (of_nat j :: u32) = j" using j unsigned_less [of nb, where 'a = nat] by (simp add: unat_of_nat)
  have fl: "unat (of_nat j :: u32) < 16 * length (old_flags s)" using D(1) [OF j] uj by simp
  show ?thesis
  proof (cases "j \<in> ?L")
    case True
    then have live: "live (old_flags s) j" by (simp add: lives_def)
    obtain ofl where ofl: "ac_set_isdel_true (old_flags s) (of_nat j) = Inr ofl"
      "flags_upd (old_flags s) j (emptyf (old_flags s) j) True ofl" using flag_writes(3) [OF fl] uj by auto
    let ?s = "s\<lparr>old_flags := ofl\<rparr>"
    have L': "lives (unat nb) ofl = ?L - {j}" using lives_upd [OF ofl(2) j] by simp
    have e: "ents ?L (rkeys s) (rvals s) = add_mset (rkeys s ! j, rvals s ! j) (ents (?L - {j}) (rkeys s) (rvals s))"
      using True by (rule ents_remove [rotated]) simp
    have "rehash_inv hash_func nb new_n M {#(rkeys s ! j, rvals s ! j)#} ?s"
      using D e unfolding rehash_inv_def Let_def by (auto simp: L' flags_updD(1) [OF ofl(2)])
    moreover have "card (lives (unat nb) (old_flags ?s)) < Suc (unat nb)"
      using card_mono [of "{..<unat nb}" "lives (unat nb) ofl"] by (simp add: lives_def subset_eq)
    ultimately obtain s' where s': "kick_out hash_func nb new_n (Suc (unat nb)) (rkeys s ! j) (rvals s ! j) ?s = Inr s'"
      "rehash_inv hash_func nb new_n M {#} s'" "lives (unat nb) (old_flags s') \<subseteq> lives (unat nb) (old_flags ?s)"
      using kick_out_places by blast
    have "rd (rkeys s) (int j) = Inr (rkeys s ! j)" "rd (rvals s) (int j) = Inr (rvals s ! j)"
      using D(3,4) j by (simp_all add: rd_nat)
    then show ?thesis using s' L' live
      by (simp add: rehash_bucket_def flag_reads [OF fl] uj ofl(1) live_def del: kick_out.simps)
  next
    case False
    then have "\<not> live (old_flags s) j" using j by (simp add: lives_def)
    then show ?thesis using inv False
      by (auto simp: rehash_bucket_def flag_reads [OF fl] uj live_def)
  qed
qed

lemma rehash_all:
  assumes "rehash_inv hash_func nb new_n M {#} s" "set js \<subseteq> {..<unat nb}"
  shows "\<exists>s'. foldE (rehash_bucket hash_func nb new_n) js s = Inr s' \<and> rehash_inv hash_func nb new_n M {#} s' \<and>
    lives (unat nb) (old_flags s') \<subseteq> lives (unat nb) (old_flags s) - set js"
  using assms
proof (induction js arbitrary: s)
  case (Cons j js)
  obtain s1 where s1: "rehash_bucket hash_func nb new_n j s = Inr s1" "rehash_inv hash_func nb new_n M {#} s1"
    "lives (unat nb) (old_flags s1) \<subseteq> lives (unat nb) (old_flags s) - {j}"
    using rehash_bucket_moves [OF Cons.prems(1), of j] Cons.prems(2) by auto
  obtain s2 where s2: "foldE (rehash_bucket hash_func nb new_n) js s1 = Inr s2" "rehash_inv hash_func nb new_n M {#} s2"
    "lives (unat nb) (old_flags s2) \<subseteq> lives (unat nb) (old_flags s1) - set js"
    using Cons.IH [OF s1(2)] Cons.prems(2) by auto
  show ?case using s1 s2 by auto
qed simp

section \<open>Resizing\<close>

lemma flags_ok_new:
  assumes "pow2_size n"
  shows "flags_ok n (replicate (unat (ac_fsize n)) 0xaaaaaaaa)"
    "used (unat n) (replicate (unat (ac_fsize n)) 0xaaaaaaaa) = {}"
    "i < unat n \<Longrightarrow> \<not> delf (replicate (unat (ac_fsize n)) 0xaaaaaaaa) i"
proof -
  let ?fl = "replicate (unat (ac_fsize n)) 0xaaaaaaaa :: u32 list"
  show ok: "flags_ok n ?fl" using assms by (simp add: flags_ok_def)
  have "i < 16 * unat (ac_fsize n)" if "i < unat n" for i using flags_ok_cover [OF ok that] by simp
  then show "used (unat n) ?fl = {}" "i < unat n \<Longrightarrow> \<not> delf ?fl i" using aa_flags by (auto simp: used_def)
qed

lemma nth_krealloc: "i < n \<Longrightarrow> i < length xs \<Longrightarrow> krealloc n xs ! i = xs ! i"
  by (simp add: krealloc_def nth_append)

lemma length_krealloc: "length (krealloc n xs) = n"
  by (simp add: krealloc_def)

lemma kh_inv_source: "kh_inv hash_func h \<Longrightarrow> source_ok hash_func h"
  by (cases "n_buckets h = 0") (simp_all add: kh_inv_def table_source, simp add: source_ok_def lives_def)

lemma source_map_iff:
  assumes "source_ok hash_func h"
  shows "kh_map h key = Some v \<longleftrightarrow> (Some key, v) \<in># ents (lives (unat (n_buckets h)) (flags h)) (keys h) (vals h)"
  unfolding kh_map_entry [OF assms] set_ents [OF finite_lives(1)] by (auto simp: image_iff) force

text \<open>The new flags, all empty, and the arrays before the first bucket is moved.\<close>

definition rehash_start :: "('k, 'v) khash \<Rightarrow> u32 \<Rightarrow> ('k, 'v) rehash" where
  "rehash_start h new_n = \<lparr>old_flags = flags h, new_flags = replicate (unat (ac_fsize new_n)) 0xaaaaaaaa, rkeys = keys h, rvals = vals h\<rparr>"

definition kh_entries :: "('k, 'v) khash \<Rightarrow> ('k option \<times> 'v option) multiset" where
  "kh_entries h = ents (lives (unat (n_buckets h)) (flags h)) (keys h) (vals h)"

lemma rehash_moves_all:
  assumes src: "source_ok hash_func h" and p2: "pow2_size new_n" and fits: "kh_size h < hash_upper new_n"
    and arrays: "max (unat (n_buckets h)) (unat new_n) \<le> length (keys h)" "max (unat (n_buckets h)) (unat new_n) \<le> length (vals h)"
  shows "\<exists>s. foldE (rehash_bucket hash_func (n_buckets h) new_n) [0..<unat (n_buckets h)] (rehash_start h new_n) = Inr s \<and>
    rehash_inv hash_func (n_buckets h) new_n (kh_entries h) {#} s \<and> lives (unat (n_buckets h)) (old_flags s) = {}"
proof -
  let ?n = "unat (n_buckets h)" and ?n' = "unat new_n"
  let ?fl = "replicate (unat (ac_fsize new_n)) 0xaaaaaaaa :: u32 list"
  have "size (kh_entries h) < ?n'" using src fits hash_upper_bounds(1) [OF p2] by (simp add: kh_entries_def size_ents source_ok_def word_less_nat_alt)
  moreover have "None \<notin># image_mset fst (kh_entries h)" using src by (auto simp: kh_entries_def set_ents source_ok_def)
  moreover have "placed hash_func ?n' ?fl (keys h)"
    using flags_ok_new(2) [OF p2] by (auto simp: placed_def used_def live_def)
  ultimately have "rehash_inv hash_func (n_buckets h) new_n (kh_entries h) {#} (rehash_start h new_n)"
    using src arrays flags_ok_new [OF p2] by (simp add: rehash_inv_def source_ok_def kh_entries_def ents_def rehash_start_def)
  then obtain s where s: "foldE (rehash_bucket hash_func (n_buckets h) new_n) [0..<?n] (rehash_start h new_n) = Inr s"
    "rehash_inv hash_func (n_buckets h) new_n (kh_entries h) {#} s" "lives ?n (old_flags s) \<subseteq> lives ?n (flags h) - {..<?n}"
    using rehash_all [of hash_func "n_buckets h" new_n "kh_entries h" "rehash_start h new_n" "[0..<?n]"] by (auto simp: atLeast0LessThan rehash_start_def)
  moreover have "lives ?n (old_flags s) = {}" using s(3) by (auto simp: lives_def)
  ultimately show ?thesis by blast
qed

lemma resize_to_ok:
  assumes src: "source_ok hash_func h" and p2: "pow2_size new_n" and fits: "kh_size h < hash_upper new_n"
    and arrays: "max (unat (n_buckets h)) (unat new_n) \<le> length (keys h)" "max (unat (n_buckets h)) (unat new_n) \<le> length (vals h)"
    and got: "new_n < n_buckets h \<Longrightarrow> got_keys alloc \<and> got_vals alloc"
  shows "\<exists>h'. resize_to hash_func alloc h new_n = Inr h' \<and> table_ok hash_func h' \<and> kh_map h' = kh_map h \<and>
    n_buckets h' = new_n \<and> kh_size h' = kh_size h \<and> n_occupied h' = kh_size h"
proof -
  let ?n = "unat (n_buckets h)" and ?n' = "unat new_n"
  obtain s where s: "foldE (rehash_bucket hash_func (n_buckets h) new_n) [0..<?n] (rehash_start h new_n) = Inr s"
    "rehash_inv hash_func (n_buckets h) new_n (kh_entries h) {#} s" "lives ?n (old_flags s) = {}"
    using rehash_moves_all [OF assms(1-5)] by blast
  note D = rehash_invD [OF s(2)]
  let ?P = "used ?n' (new_flags s)"
  have P: "ents ?P (rkeys s) (rvals s) = kh_entries h" using D(7) s(3) by (simp add: ents_def)
  have lv: "lives ?n' (new_flags s) = ?P" using D(5) by (auto simp: lives_def used_def live_def)
  define ks where "ks = (if n_buckets h > new_n then krealloc ?n' (rkeys s) else rkeys s)"
  define vs where "vs = (if n_buckets h > new_n then krealloc ?n' (rvals s) else rvals s)"
  have len: "?n' \<le> length ks" "?n' \<le> length vs" using D(3,4) by (simp_all add: ks_def vs_def length_krealloc)
  have same: "ks ! i = rkeys s ! i" "vs ! i = rvals s ! i" if "i < ?n'" for i
    using that D(3,4) by (auto simp: ks_def vs_def nth_krealloc)
  have PM: "ents ?P ks vs = kh_entries h" using P ents_cong [of ?P ks "rkeys s" vs "rvals s"] same by (simp add: used_def)
  define h' where "h' = h\<lparr>keys := ks, vals := vs, flags := new_flags s, n_buckets := new_n, n_occupied := kh_size h,
      upper_bound := hash_upper new_n\<rparr>"
  have "placed hash_func ?n' (new_flags s) ks" using D(8) same by (auto simp: placed_def)
  moreover have "inj_on (\<lambda>i. ks ! i) ?P"
  proof -
    have "inj_on (\<lambda>i. keys h ! i) (lives ?n (flags h))" using src by (simp add: source_ok_def)
    then have "nodup (image_mset fst (kh_entries h))" unfolding kh_entries_def ents_keys by (rule iffD1 [OF inj_on_mset, rotated]) simp
    then show ?thesis unfolding PM [symmetric] ents_keys by (rule iffD2 [OF inj_on_mset, rotated]) simp
  qed
  moreover have "card ?P = unat (kh_size h)" using src arg_cong [OF PM, of size] by (simp add: size_ents kh_entries_def source_ok_def)
  moreover have "shape new_n (new_flags s) ks vs" using D(2) len by (simp add: shape_def flags_ok_def)
  ultimately have ok: "table_ok hash_func h'" using fits by (simp add: table_ok_def h'_def lv)
  have "kh_map h' k = Some v \<longleftrightarrow> kh_map h k = Some v" for k v
    unfolding source_map_iff [OF src] source_map_iff [OF table_source [OF ok]] by (simp add: h'_def lv PM kh_entries_def)
  then have "kh_map h' = kh_map h" by (metis ext not_None_eq)
  moreover have "resize_to hash_func alloc h new_n = Inr h'"
    using got s(1) by (simp add: resize_to_def h'_def ks_def vs_def shrunk_def rehash_start_def)
  moreover have "n_buckets h' = new_n" "kh_size h' = kh_size h" "n_occupied h' = kh_size h" by (simp_all add: h'_def)
  ultimately show ?thesis using ok by blast
qed

text \<open>When a reallocation to a smaller size fails, the table is left with a null pointer and the new number of buckets.\<close>

lemma resize_to_lost:
  assumes "source_ok hash_func h" "pow2_size new_n" "kh_size h < hash_upper new_n"
    "max (unat (n_buckets h)) (unat new_n) \<le> length (keys h)" "max (unat (n_buckets h)) (unat new_n) \<le> length (vals h)"
    and "new_n < n_buckets h"
  shows "\<exists>h'. resize_to hash_func alloc h new_n = Inr h' \<and> n_buckets h' = new_n \<and> kh_size h' = kh_size h \<and>
    (\<not> got_keys alloc \<longrightarrow> keys h' = []) \<and> (\<not> got_vals alloc \<longrightarrow> vals h' = [])"
  using rehash_moves_all [OF assms(1-5)] assms(6) by (auto simp: resize_to_def rehash_start_def shrunk_def)

end
