(* ===== verification/Khash_Map.thy ===== *)
theory Khash_Map
  imports Khash_Rehash
begin

text \<open>
  What the operations of the hash table promise to a client: \<^verbatim>\<open>kh_resize\<close> and \<^verbatim>\<open>kh_put\<close> for any
  outcome of the allocations, and \<^verbatim>\<open>kh_clear\<close>. The lemmas of \<open>Khash_Search\<close>, \<open>Khash_Update\<close> and
  \<open>Khash_Rehash\<close> are put together here.
\<close>

section \<open>Resizing\<close>

lemma arrays_upd:
  assumes "kh_inv hash_func h" "\<And>i. i < unat (n_buckets h) \<Longrightarrow> ks ! i = keys h ! i \<and> vs ! i = vals h ! i"
    "unat (n_buckets h) \<le> length ks" "unat (n_buckets h) \<le> length vs"
  shows "kh_inv hash_func (h\<lparr>keys := ks, vals := vs\<rparr>)" "kh_map (h\<lparr>keys := ks, vals := vs\<rparr>) = kh_map h"
proof -
  let ?n = "unat (n_buckets h)"
  have inj: "inj_on (\<lambda>i. ks ! i) (lives ?n (flags h)) \<longleftrightarrow> inj_on (\<lambda>i. keys h ! i) (lives ?n (flags h))"
    by (rule inj_on_cong) (use assms(2) in \<open>simp add: lives_def\<close>)
  have pl: "placed hash_func ?n (flags h) ks \<longleftrightarrow> placed hash_func ?n (flags h) (keys h)"
    using assms(2) by (auto simp: placed_def)
  show "kh_inv hash_func (h\<lparr>keys := ks, vals := vs\<rparr>)"
    using assms(1,3,4) inj pl by (cases "n_buckets h = 0") (auto simp: kh_inv_def table_ok_def shape_def Let_def)
  show "kh_map (h\<lparr>keys := ks, vals := vs\<rparr>) = kh_map h"
    using assms(2) unfolding kh_map_def by (intro arg_cong [of _ _ map_of] map_cong) auto
qed

definition rounded :: "u32 \<Rightarrow> u32" where
  "rounded n = (let r = kroundup32 n in if r < 4 then 4 else r)"

lemma pow2_size_I: "2 \<le> k \<Longrightarrow> k \<le> 31 \<Longrightarrow> unat n = 2 ^ k \<Longrightarrow> pow2_size n"
  by (auto simp: pow2_size_def)

lemma pow2_rounded: "pow2_size (rounded n)"
proof (cases "unat n = 0 \<or> 2 ^ 31 < unat n")
  case True
  then have "rounded n = 4" by (simp add: rounded_def kroundup32_zero)
  then show ?thesis by (intro pow2_size_I [of 2]) simp_all
next
  case False
  then obtain m where m: "m \<le> 31" "unat (kroundup32 n) = 2 ^ m" using kroundup32_power [of n] by auto
  show ?thesis
  proof (cases "kroundup32 n < 4")
    case True
    then show ?thesis by (intro pow2_size_I [of 2]) (simp_all add: rounded_def)
  next
    case f: False
    then have "(2 :: nat) ^ 2 \<le> 2 ^ m" using m(2) by (simp add: word_less_nat_alt)
    then have "2 \<le> m" by (rule power_le_imp_le_exp [rotated]) simp
    then show ?thesis using m f by (intro pow2_size_I [of m]) (simp_all add: rounded_def)
  qed
qed

lemma inv_fits_arrays:
  "kh_inv hash_func h \<Longrightarrow> n_buckets h \<noteq> 0 \<Longrightarrow> unat (n_buckets h) \<le> length (keys h) \<and> unat (n_buckets h) \<le> length (vals h)"
  using table_okD(1) [of hash_func h] by (simp add: kh_inv_def shape_def)

text \<open>Every resize keeps the map; one that runs leaves no deleted buckets behind.\<close>

lemma resize_to_inv:
  assumes "kh_inv hash_func h" "pow2_size n" "kh_size h < hash_upper n"
    "max (unat (n_buckets h)) (unat n) \<le> length (keys h)" "max (unat (n_buckets h)) (unat n) \<le> length (vals h)"
    "n < n_buckets h \<Longrightarrow> got_keys alloc \<and> got_vals alloc"
  shows "\<exists>h'. resize_to hash_func alloc h n = Inr h' \<and> kh_inv hash_func h' \<and> table_ok hash_func h' \<and> kh_map h' = kh_map h \<and> n_buckets h' = n \<and>
    kh_size h' = kh_size h \<and> n_occupied h' = kh_size h"
proof -
  obtain h' where h': "resize_to hash_func alloc h n = Inr h'" "table_ok hash_func h'" "kh_map h' = kh_map h" "n_buckets h' = n" "kh_size h' = kh_size h" "n_occupied h' = kh_size h"
    using resize_to_ok [OF kh_inv_source [OF assms(1)] assms(2-6)] by blast
  then show ?thesis using pow2_pos [OF assms(2)] by (auto simp: kh_inv_def)
qed

lemma not_all_got: "alloc \<noteq> \<lparr>got_flags = True, got_keys = True, got_vals = True\<rparr> \<longleftrightarrow> \<not> (got_flags alloc \<and> got_keys alloc \<and> got_vals alloc)"
  by (cases alloc) auto

text \<open>The reallocations of a smaller table are the ones whose result is not looked at.\<close>

definition shrinks :: "('k, 'v) khash \<Rightarrow> u32 \<Rightarrow> bool" where
  "shrinks h req \<longleftrightarrow> kh_size h < hash_upper (rounded req) \<and> rounded req < n_buckets h"

lemma kh_resize_cases:
  "kh_resize hash_func alloc h req =
     (let n = rounded req; ks = krealloc (unat n) (keys h); vs = krealloc (unat n) (vals h) in
      if kh_size h \<ge> hash_upper n then Inr (0, h)
      else if \<not> got_flags alloc then Inr (-1, h)
      else if n_buckets h < n then
        if \<not> got_keys alloc then Inr (-1, h)
        else if \<not> got_vals alloc then Inr (-1, h\<lparr>keys := ks\<rparr>)
        else bindE (resize_to hash_func alloc (h\<lparr>keys := ks, vals := vs\<rparr>) n) (\<lambda>h. Inr (0, h))
      else bindE (resize_to hash_func alloc h n) (\<lambda>h. Inr (0, h)))"
  by (simp add: kh_resize_def rounded_def Let_def)

lemma shrink_arrays:
  assumes "kh_inv hash_func h" "pow2_size n" "\<not> n_buckets h < n"
  shows "max (unat (n_buckets h)) (unat n) \<le> length (keys h)" "max (unat (n_buckets h)) (unat n) \<le> length (vals h)"
proof -
  have "unat n \<le> unat (n_buckets h)" using assms(3) by (simp add: word_less_nat_alt)
  moreover from this have "n_buckets h \<noteq> 0" using pow2_pos [OF assms(2)] by auto
  ultimately show "max (unat (n_buckets h)) (unat n) \<le> length (keys h)" "max (unat (n_buckets h)) (unat n) \<le> length (vals h)"
    using inv_fits_arrays [OF assms(1)] by auto
qed

lemma kh_resize_keeps:
  assumes inv: "kh_inv hash_func h" and got: "shrinks h req \<Longrightarrow> got_flags alloc \<Longrightarrow> got_keys alloc \<and> got_vals alloc"
  shows "\<exists>r h'. kh_resize hash_func alloc h req = Inr (r, h') \<and> kh_inv hash_func h' \<and> kh_map h' = kh_map h \<and> kh_size h' = kh_size h \<and>
    (if kh_size h < hash_upper (rounded req) \<and> (\<not> got_flags alloc \<or> n_buckets h < rounded req \<and> \<not> (got_keys alloc \<and> got_vals alloc))
     then r = -1 \<and> n_buckets h' = n_buckets h else r = 0) \<and>
    (r = 0 \<longrightarrow> kh_size h < hash_upper (rounded req) \<longrightarrow>
       n_buckets h' = rounded req \<and> table_ok hash_func h' \<and> n_occupied h' = kh_size h)"
proof -
  define n where "n = rounded req"
  have p2: "pow2_size n" unfolding n_def by (rule pow2_rounded)
  have n0: "n_buckets h = 0 \<Longrightarrow> unat (n_buckets h) = 0" by simp
  have ex: "n_buckets h < n \<longleftrightarrow> unat (n_buckets h) < unat n" by (simp add: word_less_nat_alt)
  have len: "n_buckets h \<noteq> 0 \<Longrightarrow> unat (n_buckets h) \<le> length (keys h) \<and> unat (n_buckets h) \<le> length (vals h)"
    using inv_fits_arrays [OF inv] .
  let ?ks = "krealloc (unat n) (keys h)" and ?vs = "krealloc (unat n) (vals h)"
  note r = kh_resize_cases [of hash_func alloc h req, folded n_def, unfolded Let_def]
  consider (big) "kh_size h \<ge> hash_upper n" | (expand) "kh_size h < hash_upper n" "n_buckets h < n" | (keep) "kh_size h < hash_upper n" "\<not> n_buckets h < n"
    by force
  then show ?thesis
  proof cases
    case big
    then show ?thesis using inv by (auto simp: r n_def [symmetric] not_less)
  next
    case expand
    have k: "unat (n_buckets h) \<le> unat n" using expand(2) ex by simp
    have same: "?ks ! i = keys h ! i \<and> ?vs ! i = vals h ! i" if "i < unat (n_buckets h)" for i
      using that k len n0 by (cases "n_buckets h = 0") (auto simp: nth_krealloc)
    have h1: "kh_inv hash_func (h\<lparr>keys := ?ks\<rparr>)" "kh_map (h\<lparr>keys := ?ks\<rparr>) = kh_map h"
      using arrays_upd [OF inv, of ?ks "vals h"] same k len by (cases "n_buckets h = 0"; simp add: length_krealloc kh_map_empty kh_inv_def)+
    have h2: "kh_inv hash_func (h\<lparr>keys := ?ks, vals := ?vs\<rparr>)" "kh_map (h\<lparr>keys := ?ks, vals := ?vs\<rparr>) = kh_map h"
      using arrays_upd [OF inv, of ?ks ?vs] same k by (simp_all add: length_krealloc)
    then obtain h' where "resize_to hash_func alloc (h\<lparr>keys := ?ks, vals := ?vs\<rparr>) n = Inr h'" "kh_inv hash_func h'" "table_ok hash_func h'"
      "kh_map h' = kh_map h" "n_buckets h' = n" "kh_size h' = kh_size h" "n_occupied h' = kh_size h"
      using resize_to_inv [where alloc = alloc, OF h2(1) p2] expand k order_less_asym [OF expand(2)] by (simp add: length_krealloc) blast
    then show ?thesis using expand h1 inv by (auto simp: r n_def [symmetric])
  next
    case keep
    show ?thesis
    proof (cases "got_flags alloc")
      case True
      then obtain h' where "resize_to hash_func alloc h n = Inr h'" "kh_inv hash_func h'" "table_ok hash_func h'"
        "kh_map h' = kh_map h" "n_buckets h' = n" "kh_size h' = kh_size h" "n_occupied h' = kh_size h"
        using resize_to_inv [OF inv p2 keep(1) shrink_arrays [OF inv p2 keep(2)]] got keep(1) by (auto simp: shrinks_def n_def)
      then show ?thesis using True keep by (auto simp: r n_def [symmetric])
    next
      case False
      then show ?thesis using keep inv by (auto simp: r n_def [symmetric])
    qed
  qed
qed

section \<open>Insertion\<close>

lemma rounded_pow2:
  assumes "unat n = 2 ^ k" "2 \<le> k" "k \<le> 31"
  shows "rounded (n - 1) = n" "k < 31 \<Longrightarrow> unat (rounded (n + 1)) = 2 * unat n"
proof -
  have ge: "4 \<le> unat n" using power_increasing [of 2 k "2 :: nat"] assms(1,2) by simp
  have le: "unat n \<le> 2 ^ 31" using power_increasing [of k 31 "2 :: nat"] assms(1,3) by simp
  have pow: "m = k" if "(2 :: nat) ^ m < 2 * 2 ^ k" "2 ^ k < 2 * (2 :: nat) ^ m" for m
  proof -
    have "m < Suc k" by (rule power_less_imp_less_exp [of "2 :: nat"]) (use that in simp_all)
    moreover have "k < Suc m" by (rule power_less_imp_less_exp [of "2 :: nat"]) (use that in simp_all)
    ultimately show ?thesis by simp
  qed
  have u: "unat (n - 1) = unat n - 1" using ge by (metis not_numeral_le_zero unat_0 unat_minus_one)
  have "1 \<le> unat (n - 1)" "unat (n - 1) \<le> 2 ^ 31" unfolding u using ge le by linarith+
  from kroundup32_power [OF this] obtain m where
    m: "unat (kroundup32 (n - 1)) = 2 ^ m" "unat (n - 1) \<le> 2 ^ m" "2 ^ m < 2 * unat (n - 1)" by blast
  have "m = k"
  proof (rule pow)
    show "(2 :: nat) ^ m < 2 * 2 ^ k" using m(3) u assms(1) by linarith
    show "(2 :: nat) ^ k < 2 * 2 ^ m" using m(2) u assms(1) ge by linarith
  qed
  then have "kroundup32 (n - 1) = n" using m(1) assms(1) by (simp add: word_unat_eq_iff)
  then show "rounded (n - 1) = n" using ge by (simp add: rounded_def word_less_nat_alt)
  assume "k < 31"
  then have lt: "2 * unat n \<le> 2 ^ 31" using power_increasing [of "Suc k" 31 "2 :: nat"] assms(1) by simp
  then have u1: "unat (n + 1) = unat n + 1" using unat_inc [of n] by simp
  have "1 \<le> unat (n + 1)" "unat (n + 1) \<le> 2 ^ 31" unfolding u1 using ge lt by linarith+
  from kroundup32_power [OF this] obtain m where
    m: "unat (kroundup32 (n + 1)) = 2 ^ m" "unat (n + 1) \<le> 2 ^ m" "2 ^ m < 2 * unat (n + 1)" by blast
  have "m = Suc k"
  proof -
    have "(2 :: nat) ^ k < 2 ^ m" using m(2) u1 assms(1) by linarith
    then have "k < m" by (rule power_less_imp_less_exp [rotated]) simp
    have "(2 :: nat) ^ m < 2 ^ Suc (Suc k)" using m(3) u1 assms(1) ge by simp
    then have "m < Suc (Suc k)" by (rule power_less_imp_less_exp [rotated]) simp
    then show ?thesis using \<open>k < m\<close> by simp
  qed
  then show "unat (rounded (n + 1)) = 2 * unat n" using m(1) assms(1) ge by (simp add: rounded_def word_less_nat_alt)
qed

lemma size_bounds:
  assumes ok: "table_ok hash_func h"
  shows "unat (kh_size h) \<le> unat (upper_bound h)" "unat (kh_size h) < unat (n_buckets h)"
    "unat (push_bit 1 (kh_size h)) = 2 * unat (kh_size h)"
proof -
  have "card (lives (unat (n_buckets h)) (flags h)) \<le> card (used (unat (n_buckets h)) (flags h))"
    by (intro card_mono lives_used) simp
  then show 1: "unat (kh_size h) \<le> unat (upper_bound h)"
    using table_okD(5,6,8) [OF ok] by (simp add: word_le_nat_alt)
  then show 2: "unat (kh_size h) < unat (n_buckets h)"
    using hash_upper_bounds(1) [OF table_okD(2) [OF ok]] table_okD(7) [OF ok] by simp
  then have "2 * unat (kh_size h) < 2 ^ 32" using pow2_pos [OF table_okD(2) [OF ok]] by simp
  then show "unat (push_bit 1 (kh_size h)) = 2 * unat (kh_size h)"
    by (simp add: push_bit_eq_mult unat_word_ariths mult.commute)
qed

text \<open>After \<^const>\<open>make_room\<close> there is room for one more; the table at most doubles, and only when
  it is at least half full.\<close>

lemma make_room_ok:
  assumes inv: "kh_inv hash_func h" and small: "unat (n_buckets h) < 2 ^ 31"
  shows "\<exists>r h'. make_room hash_func alloc h = Inr (r, h') \<and> kh_inv hash_func h' \<and> kh_map h' = kh_map h \<and> kh_size h' = kh_size h \<and>
    (r = 0 \<and> table_ok hash_func h' \<and> n_occupied h' < upper_bound h' \<and>
       unat (n_buckets h') \<le> max (unat (n_buckets h)) (4 * unat (kh_size h) + 4) \<or>
     r = -1 \<and> alloc \<noteq> \<lparr>got_flags = True, got_keys = True, got_vals = True\<rparr> \<and> n_buckets h' = n_buckets h)"
proof (cases "n_occupied h \<ge> upper_bound h")
  case False
  then have "n_buckets h \<noteq> 0" using inv by (auto simp: kh_inv_def)
  then show ?thesis using inv False by (auto simp: make_room_def kh_inv_def)
next
  case True
  define req where "req = (if n_buckets h > push_bit 1 (kh_size h) then n_buckets h - 1 else n_buckets h + 1)"
  have fits: "kh_size h < hash_upper (rounded req) \<and> unat (rounded req) \<le> max (unat (n_buckets h)) (4 * unat (kh_size h) + 4) \<and>
      \<not> rounded req < n_buckets h"
  proof (cases "n_buckets h = 0")
    case True
    then have "kh_size h = 0" using inv by (simp add: kh_inv_def)
    moreover have "rounded 1 = 4" using kroundup32_power [of 1] by (simp add: rounded_def kroundup32_def)
    moreover have "(0 :: u32) < hash_upper 4" by (simp add: hash_upper_def)
    ultimately show ?thesis using True by (simp add: req_def)
  next
    case False
    then have ok: "table_ok hash_func h" using inv by (simp add: kh_inv_def)
    note sb = size_bounds [OF ok]
    obtain k where k: "unat (n_buckets h) = 2 ^ k" "2 \<le> k" "k \<le> 31" using table_okD(2) [OF ok] by (auto simp: pow2_size_def)
    show ?thesis
    proof (cases "n_buckets h > push_bit 1 (kh_size h)")
      case True
      then have "2 * unat (kh_size h) < unat (n_buckets h)" using sb(3) by (simp add: word_less_nat_alt)
      then have "unat (kh_size h) < unat (hash_upper (n_buckets h))"
        using hash_upper_bounds(2) [OF table_okD(2) [OF ok]] by linarith
      then show ?thesis using True rounded_pow2(1) [OF k] by (simp add: req_def word_less_nat_alt)
    next
      case ge: False
      have "(2 :: nat) ^ k < 2 ^ 31" using small k(1) by simp
      then have "k < 31" by (rule power_less_imp_less_exp [rotated]) simp
      then have r: "unat (rounded (n_buckets h + 1)) = 2 * unat (n_buckets h)" using rounded_pow2(2) [OF k] by blast
      have "unat (n_buckets h) \<le> 2 * unat (kh_size h)" using ge sb(3) by (simp add: word_less_nat_alt)
      moreover have "unat (kh_size h) < unat (hash_upper (rounded (n_buckets h + 1)))"
        using hash_upper_bounds(2) [OF pow2_rounded [of "n_buckets h + 1"]] r sb(2) by linarith
      ultimately show ?thesis using ge r by (simp add: req_def word_less_nat_alt)
    qed
  qed
  have m: "make_room hash_func alloc h = kh_resize hash_func alloc h req" using True by (simp add: make_room_def req_def)
  obtain r h' where h': "kh_resize hash_func alloc h req = Inr (r, h')" "kh_inv hash_func h'" "kh_map h' = kh_map h" "kh_size h' = kh_size h"
    "r = 0 \<or> r = -1 \<and> alloc \<noteq> \<lparr>got_flags = True, got_keys = True, got_vals = True\<rparr> \<and> n_buckets h' = n_buckets h"
    "r = 0 \<Longrightarrow> n_buckets h' = rounded req \<and> table_ok hash_func h' \<and> n_occupied h' = kh_size h"
    using kh_resize_keeps [OF inv, of req alloc] fits unfolding not_all_got by (auto simp: shrinks_def split: if_splits)
  show ?thesis using h' m fits table_okD(7) [of hash_func h'] by (auto intro!: exI)
qed

text \<open>The code that the documentation of \<^verbatim>\<open>kh_put\<close> promises, for the table that is searched: 0 if the key is present, 1 if the bucket is
  empty (never used), 2 if its element has been deleted.\<close>

definition documented :: "('k, 'v) khash \<Rightarrow> 'k \<Rightarrow> u32 \<Rightarrow> int \<Rightarrow> bool" where
  "documented h key x r \<longleftrightarrow> r = (if kh_map h key \<noteq> None then 0 else if ac_isempty (flags h) x = Inr True then 1 else 2) \<and>
     (r = 2 \<longrightarrow> ac_isdel (flags h) x = Inr True)"

lemma kh_put_inserts:
  assumes inv: "kh_inv hash_func h" and small: "unat (n_buckets h) < 2 ^ 31"
  shows "\<exists>x r h'. kh_put hash_func alloc h key = Inr (x, r, h') \<and> kh_inv hash_func h' \<and>
    (r = -1 \<and> alloc \<noteq> \<lparr>got_flags = True, got_keys = True, got_vals = True\<rparr> \<and> x = n_buckets h' \<and> kh_map h' = kh_map h \<and>
       (\<exists>h1. make_room hash_func alloc h = Inr (-1, h1)) \<or>
     0 \<le> r \<and> (r = 0 \<longleftrightarrow> kh_map h key \<noteq> None) \<and> table_ok hash_func h' \<and> unat x < unat (n_buckets h') \<and> live (flags h') (unat x) \<and>
       keys h' ! unat x = Some key \<and> kh_map h' = (kh_map h)(key \<mapsto> vals h' ! unat x) \<and>
       (\<exists>h1. make_room hash_func alloc h = Inr (0, h1) \<and> kh_map h1 = kh_map h \<and> documented h1 key x r) \<and>
       unat (n_buckets h') \<le> max (unat (n_buckets h)) (4 * unat (kh_size h) + 4) \<and> (r = 0 \<longrightarrow> kh_map h' = kh_map h))"
proof -
  obtain r h1 where h1: "make_room hash_func alloc h = Inr (r, h1)" "kh_inv hash_func h1" "kh_map h1 = kh_map h"
    "r = 0 \<and> table_ok hash_func h1 \<and> n_occupied h1 < upper_bound h1 \<and>
       unat (n_buckets h1) \<le> max (unat (n_buckets h)) (4 * unat (kh_size h) + 4) \<or>
     r = -1 \<and> alloc \<noteq> \<lparr>got_flags = True, got_keys = True, got_vals = True\<rparr> \<and> n_buckets h1 = n_buckets h"
    using make_room_ok [OF inv small, of alloc] by blast
  from h1(4) show ?thesis
  proof
    assume r: "r = 0 \<and> table_ok hash_func h1 \<and> n_occupied h1 < upper_bound h1 \<and>
       unat (n_buckets h1) \<le> max (unat (n_buckets h)) (4 * unat (kh_size h) + 4)"
    then have ok: "table_ok hash_func h1" and room: "n_occupied h1 < upper_bound h1" by auto
    from put_site_found [OF ok, of key] obtain x where x: "put_site hash_func h1 key = Inr x" "unat x < unat (n_buckets h1)"
      "if kh_map h1 key = None then \<not> live (flags h1) (unat x) \<and> reach (flags h1) (unat (n_buckets h1)) (unat (hash_func key)) (unat x)
       else live (flags h1) (unat x) \<and> keys h1 ! unat x = Some key" by blast
    from put_at_ok [OF ok x(2) room x(3)] obtain r' h' where h': "put_at h1 key x = Inr (x, r', h')" "table_ok hash_func h'"
      "n_buckets h' = n_buckets h1" "vals h' = vals h1" "live (flags h') (unat x)" "keys h' ! unat x = Some key"
      "kh_map h' = (kh_map h1)(key \<mapsto> vals h1 ! unat x)" "r' = (if kh_map h1 key \<noteq> None then 0 else if emptyf (flags h1) (unat x) then 1 else 2)" "r' = 0 \<longrightarrow> h' = h1" by blast
    have code: "0 \<le> r'" "r' = 0 \<longleftrightarrow> kh_map h1 key \<noteq> None" "documented h1 key x r'"
      using h'(8) x(3) flag_reads [OF flags_cover [OF table_okD(1) [OF ok] x(2)]] by (auto simp: documented_def live_def split: if_splits)
    have "kh_inv hash_func h'" using h'(2) pow2_pos [OF table_okD(2) [OF h'(2)]] by (auto simp: kh_inv_def)
    moreover have "kh_put hash_func alloc h key = Inr (x, r', h')" using h1(1) r x(1) h'(1) by (simp add: kh_put_def)
    ultimately show ?thesis using h' code r x(2) h1(1,3) by (intro exI [of _ x] exI [of _ r'] exI [of _ h']) simp
  next
    assume r: "r = -1 \<and> alloc \<noteq> \<lparr>got_flags = True, got_keys = True, got_vals = True\<rparr> \<and> n_buckets h1 = n_buckets h"
    then have "kh_put hash_func alloc h key = Inr (n_buckets h1, -1, h1)" using h1(1) by (simp add: kh_put_def)
    then show ?thesis using h1(1-3) r by blast
  qed
qed

section \<open>Clearing\<close>

lemma kh_clear_empties:
  assumes inv: "kh_inv hash_func h"
  shows "kh_inv hash_func (kh_clear h)" "kh_map (kh_clear h) = Map.empty"
proof -
  have "kh_inv hash_func (kh_clear h) \<and> kh_map (kh_clear h) = Map.empty"
  proof (cases "n_buckets h = 0")
    case True
    then have "kh_clear h = h" using inv by (simp add: kh_clear_def kh_inv_def)
    then show ?thesis using inv True by (simp add: kh_map_empty)
  next
    case False
    then have ok: "table_ok hash_func h" using inv by (simp add: kh_inv_def)
    let ?n = "n_buckets h" and ?fl = "replicate (unat (ac_fsize (n_buckets h))) 0xaaaaaaaa :: u32 list"
    have sh: "shape ?n (flags h) (keys h) (vals h)" "pow2_size ?n" using table_okD(1,2) [OF ok] by auto
    then have "flags h \<noteq> []" using flags_cover [OF sh(1), of 0] pow2_pos [OF sh(2)] by auto
    then have c: "kh_clear h = h\<lparr>flags := ?fl, kh_size := 0, n_occupied := 0\<rparr>" by (simp add: kh_clear_def)
    have u: "used (unat ?n) ?fl = {}" using flags_ok_new(2) [OF sh(2)] .
    then have l: "lives (unat ?n) ?fl = {}" using lives_used by blast
    have "placed hash_func (unat ?n) ?fl (keys h)" using l by (auto simp: placed_def lives_def)
    then have ok': "table_ok hash_func (kh_clear h)"
      using table_okD(7) [OF ok] sh by (simp add: c table_ok_def shape_def l u)
    have "kh_map (kh_clear h) k = None" for k unfolding kh_map_None_iff [OF ok'] by (simp add: c l)
    then show ?thesis using ok' False by (auto simp: kh_inv_def c)
  qed
  then show "kh_inv hash_func (kh_clear h)" "kh_map (kh_clear h) = Map.empty" by auto
qed

section \<open>What the operations promise\<close>

text \<open>
  \<^verbatim>\<open>kroundup32\<close> computes the least power of two that is not below its argument, for arguments
  from 1 to 2^31; every other argument gives 0.
\<close>

theorem kroundup32_least:
  "unat (kroundup32 x) = (if 1 \<le> unat x \<and> unat x \<le> 2 ^ 31 then (LEAST p. \<exists>m. p = 2 ^ m \<and> unat x \<le> p) else 0)"
proof (cases "1 \<le> unat x \<and> unat x \<le> 2 ^ 31")
  case True
  then obtain m where m: "unat (kroundup32 x) = 2 ^ m" "unat x \<le> 2 ^ m" "2 ^ m < 2 * unat x"
    using kroundup32_power [of x] by auto
  have "(LEAST p. \<exists>m. p = 2 ^ m \<and> unat x \<le> p) = 2 ^ m"
  proof (rule Least_equality)
    fix p assume "\<exists>m. p = 2 ^ m \<and> unat x \<le> p"
    then obtain l where l: "p = 2 ^ l" "unat x \<le> 2 ^ l" by blast
    then have "(2 :: nat) ^ m < 2 ^ Suc l" using m(3) by simp
    then have "m < Suc l" by (rule power_less_imp_less_exp [rotated]) simp
    then show "2 ^ m \<le> p" using l(1) power_increasing [of m l "2 :: nat"] by simp
  qed (use m in blast)
  then show ?thesis using True m(1) by simp
next
  case False
  then have "kroundup32 x = 0" by (intro kroundup32_zero) auto
  then show ?thesis using False by (simp only: if_False unat_0)
qed

text \<open>
  C17. Resizing, for any requested size and any outcome of the allocations. The kick-out loop always ends. Unless a reallocation to a smaller
  size fails, the table keeps its invariant and its map; -1 is returned exactly when an allocation failed that the code checks, and when
  the entries fit into the requested number of buckets and 0 is returned, the table has that number afterwards and no deleted buckets any more. When an unchecked
  reallocation to a smaller size fails, 0 is returned all the same, and the table has the smaller number of buckets and a null pointer to its keys or values.
\<close>

theorem kh_resize_keeps_map:
  assumes "kh_inv hash_func h"
  shows "\<exists>r h'. kh_resize hash_func alloc h req = Inr (r, h') \<and>
    (let n = rounded req; fits = kh_size h < hash_upper n; got = got_keys alloc \<and> got_vals alloc in
     if fits \<and> n < n_buckets h \<and> got_flags alloc \<and> \<not> got
     then r = 0 \<and> n_buckets h' = n \<and> (\<not> got_keys alloc \<longrightarrow> keys h' = []) \<and> (\<not> got_vals alloc \<longrightarrow> vals h' = []) \<and> \<not> kh_inv hash_func h'
     else kh_inv hash_func h' \<and> kh_map h' = kh_map h \<and> r = (if fits \<and> (\<not> got_flags alloc \<or> n_buckets h < n \<and> \<not> got) then -1 else 0) \<and>
       (r = 0 \<and> fits \<longrightarrow> n_buckets h' = n \<and> n_occupied h' = kh_size h))"
proof (cases "shrinks h req \<and> got_flags alloc \<and> \<not> (got_keys alloc \<and> got_vals alloc)")
  case True
  let ?n = "rounded req"
  have n: "kh_size h < hash_upper ?n" "?n < n_buckets h" "\<not> n_buckets h < ?n" using True by (auto simp: shrinks_def)
  obtain h' where h': "resize_to hash_func alloc h ?n = Inr h'" "n_buckets h' = ?n" "\<not> got_keys alloc \<longrightarrow> keys h' = []" "\<not> got_vals alloc \<longrightarrow> vals h' = []"
    using resize_to_lost [OF kh_inv_source [OF assms] pow2_rounded n(1) shrink_arrays [OF assms pow2_rounded n(3)] n(2)] by blast
  have pos: "0 < unat ?n" using pow2_pos [OF pow2_rounded [of req]] by simp
  then have "?n \<noteq> 0" by auto
  then have "\<not> kh_inv hash_func h'" using pos h'(2-4) True inv_fits_arrays [of hash_func h'] by auto
  then show ?thesis using h' True n kh_resize_cases [of hash_func alloc h req] by (auto simp: Let_def)
next
  case False
  then show ?thesis using kh_resize_keeps [OF assms, of req alloc] by (auto simp: Let_def shrinks_def)
qed

text \<open>
  C20. \<^verbatim>\<open>kh_put\<close> on a table of fewer than 2^31 buckets returns and keeps the invariant. Either making room failed: then -1 is reported, an
  allocation failed, the map is as it was, and the bucket is the end of the table. Or the bucket holds the key, with the code of the documentation: 0 for a key that was
  there (whose value is untouched), 1 for a new key in a bucket that was never used, 2 for one in a bucket whose element was deleted; no other key changes.
\<close>

theorem kh_put_contract:
  assumes "kh_inv hash_func h" "unat (n_buckets h) < 2 ^ 31"
  shows "\<exists>q h1 x r h'. make_room hash_func alloc h = Inr (q, h1) \<and> kh_put hash_func alloc h key = Inr (x, r, h') \<and> kh_inv hash_func h' \<and>
    (if q < 0 then r = -1 \<and> x = n_buckets h' \<and> kh_map h' = kh_map h \<and> \<not> (got_flags alloc \<and> got_keys alloc \<and> got_vals alloc)
     else r = (if kh_map h key \<noteq> None then 0 else if ac_isempty (flags h1) x = Inr True then 1 else 2) \<and>
       (r = 2 \<longrightarrow> ac_isdel (flags h1) x = Inr True) \<and> kh_exist h' x = Inr True \<and> kh_key h' x = Inr key \<and>
       kh_map h' = (kh_map h)(key \<mapsto> vals h' ! unat x) \<and> (r = 0 \<longrightarrow> kh_map h' = kh_map h))"
proof -
  obtain x r h' where put: "kh_put hash_func alloc h key = Inr (x, r, h')" "kh_inv hash_func h'"
    and alt: "r = -1 \<and> \<not> (got_flags alloc \<and> got_keys alloc \<and> got_vals alloc) \<and> x = n_buckets h' \<and> kh_map h' = kh_map h \<and>
        (\<exists>h1. make_room hash_func alloc h = Inr (-1, h1)) \<or>
      table_ok hash_func h' \<and> unat x < unat (n_buckets h') \<and> live (flags h') (unat x) \<and>
      keys h' ! unat x = Some key \<and> kh_map h' = (kh_map h)(key \<mapsto> vals h' ! unat x) \<and>
      (\<exists>h1. make_room hash_func alloc h = Inr (0, h1) \<and> kh_map h1 = kh_map h \<and> documented h1 key x r) \<and> (r = 0 \<longrightarrow> kh_map h' = kh_map h)"
    using kh_put_inserts [OF assms, of alloc key] unfolding not_all_got by blast
  from alt show ?thesis
  proof (elim disjE conjE exE)
    fix h1 assume r: "table_ok hash_func h'" "unat x < unat (n_buckets h')" "live (flags h') (unat x)" "keys h' ! unat x = Some key"
      "kh_map h' = (kh_map h)(key \<mapsto> vals h' ! unat x)" "r = 0 \<longrightarrow> kh_map h' = kh_map h"
      and h1: "make_room hash_func alloc h = Inr (0, h1)" "kh_map h1 = kh_map h" "documented h1 key x r"
    note sh = table_okD(1) [OF r(1)]
    have "unat x < length (keys h')" using sh r(2) by (simp add: shape_def)
    then have "kh_key h' x = Inr key" using rd_nat [of "unat x" "keys h'"] r(4) by (simp add: kh_key_def rd_key_def)
    moreover have "kh_exist h' x = Inr True"
      using r(3) by (simp add: kh_exist_def flag_reads [OF flags_cover [OF sh r(2)]] live_def)
    ultimately show ?thesis using put r h1 unfolding documented_def
      by (intro exI [of _ 0] exI [of _ h1] exI [of _ x] exI [of _ r] exI [of _ h']) simp
  next
    fix h1 assume r: "r = -1" "\<not> (got_flags alloc \<and> got_keys alloc \<and> got_vals alloc)" "x = n_buckets h'" "kh_map h' = kh_map h"
      "make_room hash_func alloc h = Inr (-1, h1)"
    then show ?thesis using put by (intro exI [of _ "-1"] exI [of _ h1] exI [of _ x] exI [of _ r] exI [of _ h']) simp
  qed
qed

section \<open>Witnesses\<close>

lemma kh_init_inv: "kh_inv hash_func (kh_init ())" "kh_map (kh_init ()) = Map.empty"
  by (simp_all add: kh_inv_def kh_init_def kh_map_empty)

definition all_allocated :: kh_alloc where
  "all_allocated = \<lparr>got_flags = True, got_keys = True, got_vals = True\<rparr>"

theorem kh_resize_keeps_map_witness:
  "\<exists>h r h'. kh_resize kh_int_hash_func all_allocated (kh_init () :: (u32, int) khash) 5 = Inr (0, h) \<and> n_buckets h = 8 \<and>
     kh_resize kh_int_hash_func (all_allocated\<lparr>got_keys := False\<rparr>) h 4 = Inr (0, h') \<and> n_buckets h' = 4 \<and> keys h' = []"
proof -
  let ?h = "kh_init () :: (u32, int) khash"
  have c: "rounded 5 = 8" "rounded 4 = 4" "hash_upper 8 = 6" "hash_upper 4 = 3" "kh_size ?h = 0" "n_buckets ?h = 0"
    by (simp_all add: rounded_def kroundup32_def hash_upper_def kh_init_def)
  have i: "kh_inv kh_int_hash_func ?h" by (rule kh_init_inv(1))
  have "\<exists>h. kh_resize kh_int_hash_func all_allocated ?h 5 = Inr (0, h) \<and> kh_size h = 0"
    using kh_resize_keeps [OF i, of 5 all_allocated] c by (auto simp: all_allocated_def shrinks_def)
  then obtain h where h: "kh_resize kh_int_hash_func all_allocated ?h 5 = Inr (0, h)" "kh_size h = 0" "kh_inv kh_int_hash_func h" "n_buckets h = 8"
    using kh_resize_keeps_map [OF i, of all_allocated 5] c by (auto simp: all_allocated_def)
  then show ?thesis using kh_resize_keeps_map [OF h(3), of "all_allocated\<lparr>got_keys := False\<rparr>" 4] c by (auto simp: all_allocated_def)
qed

text \<open>A key is put, deleted, and put again: into its old bucket.\<close>

definition put_again :: "(u32 \<times> int \<times> (u32, int) khash) cres" where
  "put_again = bindE (kh_put kh_int_hash_func all_allocated (kh_init ()) 7) (\<lambda>(x, r, h). bindE (kh_del h x) (\<lambda>h. kh_put kh_int_hash_func all_allocated h 7))"

lemma put_again_value: "map_sum id (\<lambda>(x, r, h). (x, r, n_occupied h)) put_again = Inr (3, 2, 1)"
  by code_simp

theorem kh_put_contract_witness:
  "\<exists>x h'. put_again = Inr (x, 2, h') \<and> kh_key h' x = Inr 7 \<and> kh_inv kh_int_hash_func h'"
proof -
  let ?i = "kh_init () :: (u32, int) khash"
  have n: "unat (n_buckets ?i) < 2 ^ 31" "kh_inv kh_int_hash_func ?i" "kh_map ?i = Map.empty" by (simp_all add: kh_init_inv, simp add: kh_init_def)
  obtain x r h where h: "kh_put kh_int_hash_func all_allocated ?i 7 = Inr (x, r, h)" "table_ok kh_int_hash_func h" "unat x < unat (n_buckets h)"
      "live (flags h) (unat x)" "keys h ! unat x = Some 7" "unat (n_buckets h) \<le> 4"
    using kh_put_inserts [OF n(2,1), of all_allocated 7] by (auto simp: all_allocated_def kh_init_def)
  obtain h1 where h1: "kh_del h x = Inr h1" "table_ok kh_int_hash_func h1" "n_buckets h1 = n_buckets h" using kh_del_ok [OF h(2-4)] by blast
  have inv: "kh_inv kh_int_hash_func h1" "unat (n_buckets h1) < 2 ^ 31" using h1(2,3) h(6) pow2_pos [OF table_okD(2) [OF h1(2)]] by (auto simp: kh_inv_def)
  have p: "put_again = kh_put kh_int_hash_func all_allocated h1 7" using h(1) h1(1) by (simp add: put_again_def)
  obtain y r' h' where put: "put_again = Inr (y, r', h')" "kh_inv kh_int_hash_func h'" "r' = -1 \<or> kh_key h' y = Inr 7"
    using kh_put_contract [OF inv, of all_allocated 7] unfolding p by (auto split: if_splits)
  moreover have "r' = 2" using put_again_value unfolding put(1) by simp
  ultimately show ?thesis by auto
qed

end
