(* ===== verification/Khash_Example.thy ===== *)
theory Khash_Example
  imports Khash_Map C_Text
begin

text \<open>
  The map a client of \<^verbatim>\<open>khash.h\<close> sees, and \<^verbatim>\<open>hash_table/example.c\<close>. The locale \<open>checked_map\<close>
  is the contract of a map whose operations may fault; what it gives for every sequence of
  operations holds for the hash table by its interpretation.
\<close>

section \<open>The example program\<close>

definition put_pair :: "kh_alloc \<Rightarrow> nat \<Rightarrow> string list \<times> (u32, int) khash \<Rightarrow> (string list \<times> (u32, int) khash) cres" where
  "put_pair alloc i = (\<lambda>(out, h).
     bindE (kh_put kh_int_hash_func alloc h (of_nat i)) (\<lambda>(k, absent, h).
     if absent = 0 then
       bindE (kh_del h k) (\<lambda>h. Inr (out @ [line (''Key '' @ dec_nat i @ '' existed!'')], h))
     else
       bindE (set_kh_value h k (int i * int i)) (\<lambda>h.
       Inr (out @ [line (''put ('' @ dec_nat i @ '', '' @ dec_nat (i * i) @ '') pair'')], h))))"

definition show_bucket :: "(u32, int) khash \<Rightarrow> nat \<Rightarrow> string list cres" where
  "show_bucket h k =
     bindE (kh_exist h (of_nat k)) (\<lambda>e.
     if e then
       bindE (kh_key h (of_nat k)) (\<lambda>x.
       bindE (kh_value h (of_nat k)) (\<lambda>y.
       Inr [line ('' value for key '' @ dec_int (sint x) @ '' is '' @ dec_int y)]))
     else Inr [])"

definition example_main :: "kh_alloc \<Rightarrow> string list cres" where
  "example_main alloc =
     (let h = kh_init () in
      bindE (kh_put kh_int_hash_func alloc h 101) (\<lambda>(k, absent, h).
      bindE (set_kh_value h k 10) (\<lambda>h.
      bindE (foldE (put_pair alloc) [0..<20] ([], h)) (\<lambda>(out, h).
      bindE (kh_get kh_int_hash_func h 102) (\<lambda>k.
      let missing = (if k = n_buckets h then [line ''Key 102 does not existed!''] else []) in
      bindE (kh_get kh_int_hash_func h 5) (\<lambda>k.
      bindE (kh_value h k) (\<lambda>v.
      bindE (kh_del h k) (\<lambda>h.
      bindE (mapE (show_bucket h) [0..<unat (n_buckets h)]) (\<lambda>rows.
      Inr (out @ missing @ [line (''Value is '' @ dec_int v)] @ concat rows))))))))))"

section \<open>Maps whose operations may fault\<close>

datatype ('k, 'v) map_op = Insert 'k 'v | Remove 'k | Lookup 'k

fun run_map_ops :: "('k \<Rightarrow> 'v \<Rightarrow> 'm \<Rightarrow> 'm cres) \<Rightarrow> ('k \<Rightarrow> 'm \<Rightarrow> 'm cres) \<Rightarrow> ('k \<Rightarrow> 'm \<Rightarrow> 'v option cres) \<Rightarrow>
    ('k, 'v) map_op list \<Rightarrow> 'm \<Rightarrow> ('m \<times> 'v option list) cres" where
  "run_map_ops ins rem look [] m = Inr (m, [])"
| "run_map_ops ins rem look (Insert k v # ops) m = bindE (ins k v m) (run_map_ops ins rem look ops)"
| "run_map_ops ins rem look (Remove k # ops) m = bindE (rem k m) (run_map_ops ins rem look ops)"
| "run_map_ops ins rem look (Lookup k # ops) m =
     bindE (look k m) (\<lambda>r. bindE (run_map_ops ins rem look ops m) (\<lambda>(m, rs). Inr (m, r # rs)))"

text \<open>The same operations on a map.\<close>

fun spec_ops :: "('k, 'v) map_op list \<Rightarrow> ('k \<Rightarrow> 'v option) \<Rightarrow> ('k \<Rightarrow> 'v option) \<times> 'v option list" where
  "spec_ops [] f = (f, [])"
| "spec_ops (Insert k v # ops) f = spec_ops ops (f(k \<mapsto> v))"
| "spec_ops (Remove k # ops) f = spec_ops ops (f(k := None))"
| "spec_ops (Lookup k # ops) f = (let (f', rs) = spec_ops ops f in (f', f k # rs))"

fun inserts :: "('k, 'v) map_op list \<Rightarrow> nat" where
  "inserts [] = 0"
| "inserts (Insert k v # ops) = Suc (inserts ops)"
| "inserts (Remove k # ops) = inserts ops"
| "inserts (Lookup k # ops) = inserts ops"

text \<open>\<open>ok c m\<close>: the map is in order and at most \<open>c\<close> insertions were made; \<open>limit\<close> of them are promised to work.\<close>

locale checked_map =
  fixes ins :: "'k \<Rightarrow> 'v \<Rightarrow> 'm \<Rightarrow> 'm cres"
    and rem :: "'k \<Rightarrow> 'm \<Rightarrow> 'm cres"
    and look :: "'k \<Rightarrow> 'm \<Rightarrow> 'v option cres"
    and ok :: "nat \<Rightarrow> 'm \<Rightarrow> bool"
    and view :: "'m \<Rightarrow> 'k \<Rightarrow> 'v option"
    and limit :: nat
  assumes insert_law: "ok c m \<Longrightarrow> c < limit \<Longrightarrow> \<exists>m'. ins k v m = Inr m' \<and> ok (Suc c) m' \<and> view m' = (view m)(k \<mapsto> v)"
    and remove_law: "ok c m \<Longrightarrow> \<exists>m'. rem k m = Inr m' \<and> ok c m' \<and> view m' = (view m)(k := None)"
    and lookup_law: "ok c m \<Longrightarrow> look k m = Inr (view m k)"
begin

lemma run_refines:
  assumes "ok c m" "c + inserts ops \<le> limit"
  shows "\<exists>m' rs. run_map_ops ins rem look ops m = Inr (m', rs) \<and> ok (c + inserts ops) m' \<and> (view m', rs) = spec_ops ops (view m)"
  using assms
proof (induction ops arbitrary: c m rule: inserts.induct)
  case (2 k v ops)
  then obtain m1 where m1: "ins k v m = Inr m1" "ok (Suc c) m1" "view m1 = (view m)(k \<mapsto> v)"
    using insert_law [of c m k v] by auto
  then show ?case using "2.IH" [OF m1(2), unfolded m1(3)] "2.prems"(2) by (simp add: fun_upd_def)
next
  case (3 k ops)
  then obtain m1 where m1: "rem k m = Inr m1" "ok c m1" "view m1 = (view m)(k := None)"
    using remove_law [of c m k] by auto
  then show ?case using "3.IH" [OF m1(2), unfolded m1(3)] "3.prems"(2) by (simp add: fun_upd_def)
next
  case (4 k ops)
  then show ?case using "4.IH" [OF "4.prems"(1)] lookup_law [OF "4.prems"(1), of k] by (force simp: Let_def split: prod.splits)
qed simp

end

section \<open>The hash table as a map\<close>

text \<open>Insertion with a value, lookup of a value and deletion of a key as the example writes them. The result of \<^verbatim>\<open>kh_put\<close> is not looked at before the
  value is stored, so that the laws below are for allocations that succeed; \<open>example_out_of_memory\<close> shows the other case.\<close>

definition kh_insert :: "kh_alloc \<Rightarrow> ('k \<Rightarrow> u32) \<Rightarrow> 'k \<Rightarrow> 'v \<Rightarrow> ('k, 'v) khash \<Rightarrow> ('k, 'v) khash cres" where
  "kh_insert alloc hash_func key v h = bindE (kh_put hash_func alloc h key) (\<lambda>(k, absent, h). set_kh_value h k v)"

definition kh_remove :: "('k \<Rightarrow> u32) \<Rightarrow> 'k \<Rightarrow> ('k, 'v) khash \<Rightarrow> ('k, 'v) khash cres" where
  "kh_remove hash_func key h = bindE (kh_get hash_func h key) (kh_del h)"

definition kh_lookup :: "('k \<Rightarrow> u32) \<Rightarrow> 'k \<Rightarrow> ('k, 'v) khash \<Rightarrow> 'v option cres" where
  "kh_lookup hash_func key h =
     bindE (kh_get hash_func h key) (\<lambda>k. if k = n_buckets h then Inr None else bindE (kh_value h k) (\<lambda>v. Inr (Some v)))"

definition kh_view :: "('k, 'v) khash \<Rightarrow> 'k \<Rightarrow> 'v option" where
  "kh_view h k = (case kh_map h k of None \<Rightarrow> None | Some v \<Rightarrow> v)"

text \<open>All values are written, and the table has grown with the insertions only.\<close>

definition kh_ok :: "('k \<Rightarrow> u32) \<Rightarrow> nat \<Rightarrow> ('k, 'v) khash \<Rightarrow> bool" where
  "kh_ok hash_func c h \<longleftrightarrow> kh_inv hash_func h \<and> (\<forall>k. kh_map h k \<noteq> Some None) \<and>
     unat (n_buckets h) \<le> 4 * c + 4 \<and> unat (kh_size h) \<le> c"

definition kh_limit :: nat where "kh_limit = 2 ^ 28"

lemma kh_view_upd: "kh_map h' = (kh_map h)(k \<mapsto> Some v) \<Longrightarrow> kh_view h' = (kh_view h)(k \<mapsto> v)"
  by (auto simp: kh_view_def)

lemma kh_view_del: "kh_map h' = (kh_map h)(k := None) \<Longrightarrow> kh_view h' = (kh_view h)(k := None)"
  by (auto simp: kh_view_def)

lemma kh_inv_pos: "table_ok hash_func h \<Longrightarrow> kh_inv hash_func h"
  using pow2_pos [of "n_buckets h"] table_okD(2) [of hash_func h] by (auto simp: kh_inv_def)

lemma size_dom:
  assumes "kh_inv hash_func h"
  shows "unat (kh_size h) = card (dom (kh_map h))"
proof -
  let ?L = "lives (unat (n_buckets h)) (flags h)"
  have src: "source_ok hash_func h" using kh_inv_source [OF assms] .
  have key: "keys h ! i \<noteq> None" if "i \<in> ?L" for i using src that by (auto simp: source_ok_def)
  have "dom (kh_map h) = (\<lambda>i. the (keys h ! i)) ` ?L"
  proof -
    have "k \<in> dom (kh_map h) \<longleftrightarrow> (\<exists>i \<in> ?L. keys h ! i = Some k)" for k
      by (auto simp: dom_def kh_map_entry [OF src])
    then show ?thesis using key by (auto simp: image_iff) force+
  qed
  moreover have "inj_on (\<lambda>i. the (keys h ! i)) ?L"
  proof (rule inj_onI)
    fix i j assume ij: "i \<in> ?L" "j \<in> ?L" "the (keys h ! i) = the (keys h ! j)"
    then have "keys h ! i = keys h ! j" using key by (metis option.expand)
    then show "i = j" using ij src by (auto simp: source_ok_def inj_on_def)
  qed
  ultimately show ?thesis using src by (simp add: card_image source_ok_def)
qed

lemma put_size:
  assumes "kh_inv hash_func h" "kh_inv hash_func h'" "kh_map h' = (kh_map h)(k \<mapsto> v)"
  shows "unat (kh_size h') \<le> Suc (unat (kh_size h))"
proof -
  have "dom (kh_map h') = insert k (dom (kh_map h))" using assms(3) by auto
  then show ?thesis using size_dom [OF assms(1)] size_dom [OF assms(2)] card_insert_le_m1 [of "Suc (card (dom (kh_map h)))" "dom (kh_map h)" k] by simp
qed

lemma kh_insert_law:
  assumes ok: "kh_ok hash_func c h" and lim: "c < kh_limit"
  shows "\<exists>h'. kh_insert all_allocated hash_func key v h = Inr h' \<and> kh_ok hash_func (Suc c) h' \<and> kh_view h' = (kh_view h)(key \<mapsto> v)"
proof -
  have inv: "kh_inv hash_func h" and init: "\<forall>k. kh_map h k \<noteq> Some None" and n: "unat (n_buckets h) \<le> 4 * c + 4" "unat (kh_size h) \<le> c"
    using ok by (auto simp: kh_ok_def)
  have "unat (n_buckets h) < 2 ^ 31" using n(1) lim by (simp add: kh_limit_def)
  then obtain x r h1 where h1: "kh_put hash_func all_allocated h key = Inr (x, r, h1)" "table_ok hash_func h1"
    "unat x < unat (n_buckets h1)" "live (flags h1) (unat x)" "keys h1 ! unat x = Some key"
    "kh_map h1 = (kh_map h)(key \<mapsto> vals h1 ! unat x)" "unat (n_buckets h1) \<le> max (unat (n_buckets h)) (4 * unat (kh_size h) + 4)"
    using kh_put_inserts [OF inv, of all_allocated key] by (auto simp: all_allocated_def)
  from set_kh_value_ok [OF h1(2-4), of v] obtain h2 where
    h2: "set_kh_value h1 x v = Inr h2" "table_ok hash_func h2" "n_buckets h2 = n_buckets h1" "kh_map h2 = (kh_map h1)(key \<mapsto> Some v)"
    using h1(5) by auto
  have m: "kh_map h2 = (kh_map h)(key \<mapsto> Some v)" using h2(4) h1(6) by simp
  have "unat (kh_size h2) \<le> Suc c" using put_size [OF inv kh_inv_pos [OF h2(2)] m] n(2) by simp
  moreover have "unat (n_buckets h2) \<le> 4 * Suc c + 4" using h1(7) h2(3) n by simp
  ultimately have "kh_ok hash_func (Suc c) h2" using kh_inv_pos [OF h2(2)] init m by (simp add: kh_ok_def)
  then show ?thesis using h1(1) h2(1) kh_view_upd [OF m] by (simp add: kh_insert_def)
qed

lemma kh_remove_keeps:
  assumes inv: "kh_inv hash_func h"
  shows "\<exists>h'. kh_remove hash_func key h = Inr h' \<and> kh_inv hash_func h' \<and> n_buckets h' = n_buckets h \<and> unat (kh_size h') \<le> unat (kh_size h) \<and>
    kh_map h' = (kh_map h)(key := None)"
proof -
  obtain x where x: "kh_get hash_func h key = Inr x"
    "case kh_map h key of None \<Rightarrow> x = n_buckets h
     | Some v \<Rightarrow> unat x < unat (n_buckets h) \<and> live (flags h) (unat x) \<and> keys h ! unat x = Some key \<and> vals h ! unat x = v"
    using kh_get_finds [OF inv] by blast
  show ?thesis
  proof (cases "kh_map h key")
    case None
    then have "kh_remove hash_func key h = Inr h" using x by (simp add: kh_remove_def kh_del_def)
    then show ?thesis using inv None by (simp add: fun_upd_idem)
  next
    case (Some v)
    then have xs: "unat x < unat (n_buckets h)" "live (flags h) (unat x)" "keys h ! unat x = Some key" using x(2) by auto
    then have tok: "table_ok hash_func h" using inv by (auto simp: kh_inv_def split: if_splits)
    obtain h' where h': "kh_del h x = Inr h'" "table_ok hash_func h'" "n_buckets h' = n_buckets h" "kh_map h' = (kh_map h)(key := None)"
      using kh_del_ok [OF tok xs(1,2)] xs(3) by auto
    have "unat (kh_size h') \<le> unat (kh_size h)"
      using size_dom [OF inv] size_dom [OF kh_inv_pos [OF h'(2)]] h'(4) by (simp add: card_Diff1_le)
    then show ?thesis using x(1) h' kh_inv_pos [OF h'(2)] by (simp add: kh_remove_def)
  qed
qed

lemma kh_remove_law:
  assumes ok: "kh_ok hash_func c h"
  shows "\<exists>h'. kh_remove hash_func key h = Inr h' \<and> kh_ok hash_func c h' \<and> kh_view h' = (kh_view h)(key := None)"
proof -
  obtain h' where h': "kh_remove hash_func key h = Inr h'" "kh_inv hash_func h'" "n_buckets h' = n_buckets h" "unat (kh_size h') \<le> unat (kh_size h)" "kh_map h' = (kh_map h)(key := None)"
    using kh_remove_keeps [of hash_func h key] ok by (auto simp: kh_ok_def)
  then have "kh_ok hash_func c h'" using ok by (auto simp: kh_ok_def)
  then show ?thesis using h'(1) kh_view_del [OF h'(5)] by blast
qed

lemma kh_lookup_law:
  assumes ok: "kh_ok hash_func c h"
  shows "kh_lookup hash_func key h = Inr (kh_view h key)"
proof -
  have inv: "kh_inv hash_func h" using ok by (simp add: kh_ok_def)
  obtain x where x: "kh_get hash_func h key = Inr x"
    "case kh_map h key of None \<Rightarrow> x = n_buckets h
     | Some v \<Rightarrow> unat x < unat (n_buckets h) \<and> live (flags h) (unat x) \<and> keys h ! unat x = Some key \<and> vals h ! unat x = v"
    using kh_get_finds [OF inv] by blast
  show ?thesis
  proof (cases "kh_map h key")
    case None
    then show ?thesis using x by (simp add: kh_lookup_def kh_view_def)
  next
    case (Some v)
    then have xs: "unat x < unat (n_buckets h)" "vals h ! unat x = v" using x(2) by auto
    obtain w where w: "v = Some w" using ok Some by (cases v) (auto simp: kh_ok_def)
    have "n_buckets h \<noteq> 0" using xs(1) by auto
    then have "unat x < length (vals h)" using inv_fits_arrays [OF inv] xs(1) by simp
    then have "kh_value h x = Inr w" using rd_nat [of "unat x" "vals h"] xs(2) w by (simp add: kh_value_def rd_key_def)
    then show ?thesis using x(1) xs(1) Some w by (auto simp: kh_lookup_def kh_view_def)
  qed
qed

interpretation kh: checked_map "kh_insert all_allocated hash_func" "kh_remove hash_func" "kh_lookup hash_func" "kh_ok hash_func" kh_view kh_limit
  for hash_func :: "'k \<Rightarrow> u32"
  by unfold_locales (rule kh_insert_law kh_remove_law kh_lookup_law; assumption)+

lemma kh_ok_init: "kh_ok hash_func 0 (kh_init ())" "kh_view (kh_init ()) = Map.empty"
  by (auto simp: kh_ok_def kh_init_def kh_inv_def kh_view_def kh_map_empty)

text \<open>
  C1. The hash table is a map: for every hash function, any sequence of insertions, deletions and
  lookups on a new table, with up to 2^28 insertions among them and allocations that succeed, runs without a fault and without
  an endless probe, every lookup returns what the same operations on a map would, and the table
  ends up with the entries of that map.
\<close>

theorem khash_refines_map:
  assumes "inserts ops \<le> kh_limit"
  shows "\<exists>h rs. run_map_ops (kh_insert all_allocated hash_func) (kh_remove hash_func) (kh_lookup hash_func) ops (kh_init ()) = Inr (h, rs) \<and>
    (kh_view h, rs) = spec_ops ops Map.empty"
  using kh.run_refines [OF kh_ok_init(1), of ops hash_func] assms unfolding kh_ok_init(2) by auto

text \<open>The string hash is the polynomial in 31 over the (sign-extended) bytes.\<close>

lemma X31_polynomial:
  assumes "0 \<notin> set s"
  shows "ac_X31_hash_string s = (\<Sum>i<length s. scast (s ! i) * 31 ^ (length s - 1 - i))"
proof -
  have horner: "foldl (\<lambda>h c. push_bit 5 h - h + scast c) h cs =
      h * 31 ^ length cs + (\<Sum>i<length cs. scast (cs ! i) * 31 ^ (length cs - 1 - i))" for h :: u32 and cs :: bytes
  proof (induction cs rule: rev_induct)
    case (snoc c cs)
    have "push_bit 5 w - w = 31 * (w :: u32)" for w by (simp add: push_bit_eq_mult algebra_simps)
    moreover have "(\<Sum>i<length cs. scast ((cs @ [c]) ! i) * 31 ^ (length cs - i) :: u32) =
        31 * (\<Sum>i<length cs. scast (cs ! i) * 31 ^ (length cs - 1 - i))"
      unfolding sum_distrib_left
    proof (rule sum.cong [OF refl])
      fix i assume "i \<in> {..<length cs}"
      then have "length cs - i = Suc (length cs - 1 - i)" "i < length cs" by auto
      then show "(scast ((cs @ [c]) ! i) * 31 ^ (length cs - i) :: u32) = 31 * (scast (cs ! i) * 31 ^ (length cs - 1 - i))"
        by (simp add: nth_append)
    qed
    ultimately show ?case using snoc.IH by (simp add: algebra_simps)
  qed simp
  show ?thesis
  proof (cases s)
    case (Cons c cs)
    then have "c \<noteq> 0" using assms by auto
    have "(scast c :: u32) \<noteq> 0"
    proof
      assume z: "(scast c :: u32) = 0"
      have "\<not> bit c n" for n
      proof
        assume b: "bit c n"
        then have "n < 8" using bit_imp_le_length [OF b] by simp
        then have "bit (scast c :: u32) n" using b by (cases "n = 7") (simp_all add: bit_signed_iff min_def)
        then show False using z by simp
      qed
      then show False using \<open>c \<noteq> 0\<close> by (metis bit_eqI bit_0_eq bot_apply bot_bool_def)
    qed
    then have "ac_X31_hash_string s = scast c * 31 ^ length cs + (\<Sum>i<length cs. scast (cs ! i) * 31 ^ (length cs - 1 - i))"
      by (simp add: ac_X31_hash_string_def Cons horner)
    also have "\<dots> = (\<Sum>i<length s. scast (s ! i) * 31 ^ (length s - 1 - i))"
      by (simp add: Cons sum.lessThan_Suc_shift del: sum.lessThan_Suc)
    finally show ?thesis .
  qed (simp add: ac_X31_hash_string_def)
qed

text \<open>
  What the example prints when memory is available: the twenty pairs it stores, that key 102 is
  missing, the value 25 of key 5, and then, in the order of the buckets, every pair but the deleted
  one, with key 101 in the bucket that its hash value and key 5 share.
\<close>

theorem example_output:
  "example_main all_allocated = Inr
     (map (\<lambda>i. line (''put ('' @ dec_nat i @ '', '' @ dec_nat (i * i) @ '') pair'')) [0..<20] @
      [line ''Key 102 does not existed!'', line ''Value is 25''] @
      map (\<lambda>(k, v). line ('' value for key '' @ dec_nat k @ '' is '' @ dec_nat v))
        (map (\<lambda>i. if i = 5 then (101, 10) else (i, i * i)) [0..<20]))"
  by code_simp

text \<open>
  The example does not look at the result of an allocation: when the first one fails, it writes
  the value of key 101 through a null pointer.
\<close>

theorem example_out_of_memory:
  "example_main (all_allocated\<lparr>got_flags := False\<rparr>) = Inl OutOfBounds"
  by code_simp

section \<open>Witness\<close>

theorem khash_refines_map_witness:
  "\<exists>h rs. run_map_ops (kh_insert all_allocated kh_int_hash_func) (kh_remove kh_int_hash_func) (kh_lookup kh_int_hash_func)
      [Insert 5 10, Insert 37 (20 :: int), Remove 5, Lookup 37, Lookup 5] (kh_init ()) = Inr (h, rs) \<and> rs = [Some 20, None]"
  using khash_refines_map [of "[Insert 5 10, Insert 37 (20 :: int), Remove 5, Lookup 37, Lookup 5]" kh_int_hash_func]
  by (auto simp: kh_limit_def)

end
