(* ===== verification/Khash_Sets.thy ===== *)
theory Khash_Sets
  imports Khash_Example
begin

text \<open>
  The tables that \<^verbatim>\<open>__KHASH_IMPL\<close> generates with \<^verbatim>\<open>kh_is_map\<close> zero (\<^verbatim>\<open>KHASH_SET_INIT_INT\<close> and so on): there is no array of values, it is never allocated, read or
  written. \<^verbatim>\<open>kh_get\<close>, \<^verbatim>\<open>kh_del\<close> and \<^verbatim>\<open>kh_clear\<close> do not mention values, so that the definitions for maps serve here too; \<^verbatim>\<open>kh_resize\<close>
  and \<^verbatim>\<open>kh_put\<close> are defined again without them. A set runs as a map does whose values are forgotten, which gives it the properties of maps.
\<close>

section \<open>The operations\<close>

fun kick_out_set :: "('k \<Rightarrow> u32) \<Rightarrow> u32 \<Rightarrow> u32 \<Rightarrow> nat \<Rightarrow> 'k option \<Rightarrow> ('k, unit) rehash \<Rightarrow> ('k, unit) rehash cres" where
  "kick_out_set hash_func nb new_n 0 key s = Inl NoReturn"
| "kick_out_set hash_func nb new_n (Suc fuel) key s =
     (case key of None \<Rightarrow> Inl UninitRead | Some k \<Rightarrow>
      let new_mask = new_n - 1 in
      bindE (find_empty (new_flags s) new_mask (unat new_n) (hash_func k AND new_mask) 0) (\<lambda>i.
      bindE (ac_set_isempty_false (new_flags s) i) (\<lambda>nf.
      bindE (if i < nb then bindE (ac_iseither (old_flags s) i) (\<lambda>e. Inr (\<not> e)) else Inr False) (\<lambda>occupied.
      if occupied then
        bindE (rd (rkeys s) (uint i)) (\<lambda>tmp_key.
        bindE (wr (rkeys s) (uint i) key) (\<lambda>ks.
        bindE (ac_set_isdel_true (old_flags s) i) (\<lambda>ofl.
        kick_out_set hash_func nb new_n fuel tmp_key (s\<lparr>old_flags := ofl, new_flags := nf, rkeys := ks\<rparr>))))
      else
        bindE (wr (rkeys s) (uint i) key) (\<lambda>ks. Inr (s\<lparr>new_flags := nf, rkeys := ks\<rparr>))))))"

definition rehash_bucket_set :: "('k \<Rightarrow> u32) \<Rightarrow> u32 \<Rightarrow> u32 \<Rightarrow> nat \<Rightarrow> ('k, unit) rehash \<Rightarrow> ('k, unit) rehash cres" where
  "rehash_bucket_set hash_func nb new_n j s =
     bindE (ac_iseither (old_flags s) (of_nat j)) (\<lambda>e.
     if e then Inr s
     else bindE (rd (rkeys s) (int j)) (\<lambda>key.
          bindE (ac_set_isdel_true (old_flags s) (of_nat j)) (\<lambda>ofl.
          kick_out_set hash_func nb new_n (Suc (unat nb)) key (s\<lparr>old_flags := ofl\<rparr>))))"

definition resize_to_set :: "('k \<Rightarrow> u32) \<Rightarrow> kh_alloc \<Rightarrow> ('k, unit) khash \<Rightarrow> u32 \<Rightarrow> ('k, unit) khash cres" where
  "resize_to_set hash_func alloc h new_n =
     bindE (foldE (rehash_bucket_set hash_func (n_buckets h) new_n) [0..<unat (n_buckets h)]
        \<lparr>old_flags = flags h, new_flags = replicate (unat (ac_fsize new_n)) 0xaaaaaaaa, rkeys = keys h, rvals = []\<rparr>) (\<lambda>s.
     Inr (h\<lparr>keys := (if n_buckets h > new_n then shrunk (got_keys alloc) (unat new_n) (rkeys s) else rkeys s),
            flags := new_flags s, n_buckets := new_n, n_occupied := kh_size h, upper_bound := hash_upper new_n\<rparr>))"

definition kh_resize_set :: "('k \<Rightarrow> u32) \<Rightarrow> kh_alloc \<Rightarrow> ('k, unit) khash \<Rightarrow> u32 \<Rightarrow> (int \<times> ('k, unit) khash) cres" where
  "kh_resize_set hash_func alloc h requested =
     (let new_n = kroundup32 requested; new_n = (if new_n < 4 then 4 else new_n) in
      if kh_size h \<ge> hash_upper new_n then Inr (0, h)
      else if \<not> got_flags alloc then Inr (-1, h)
      else let expand = n_buckets h < new_n in
      if expand \<and> \<not> got_keys alloc then Inr (-1, h)
      else let h = (if expand then h\<lparr>keys := krealloc (unat new_n) (keys h)\<rparr> else h) in
      bindE (resize_to_set hash_func alloc h new_n) (\<lambda>h. Inr (0, h)))"

definition make_room_set :: "('k \<Rightarrow> u32) \<Rightarrow> kh_alloc \<Rightarrow> ('k, unit) khash \<Rightarrow> (int \<times> ('k, unit) khash) cres" where
  "make_room_set hash_func alloc h =
     (if n_occupied h \<ge> upper_bound h then
        if n_buckets h > push_bit 1 (kh_size h)
        then kh_resize_set hash_func alloc h (n_buckets h - 1)
        else kh_resize_set hash_func alloc h (n_buckets h + 1)
      else Inr (0, h))"

definition kh_put_set :: "('k \<Rightarrow> u32) \<Rightarrow> kh_alloc \<Rightarrow> ('k, unit) khash \<Rightarrow> 'k \<Rightarrow> (u32 \<times> int \<times> ('k, unit) khash) cres" where
  "kh_put_set hash_func alloc h key =
     bindE (make_room_set hash_func alloc h) (\<lambda>(r, h).
     if r < 0 then Inr (n_buckets h, -1, h)
     else bindE (put_site hash_func h key) (put_at h key))"

section \<open>A map without its values\<close>

lemma kick_out_forgets:
  "kick_out hash_func nb new_n fuel key val s = Inr s' \<Longrightarrow> kick_out_set hash_func nb new_n fuel key (s\<lparr>rvals := []\<rparr>) = Inr (s'\<lparr>rvals := []\<rparr>)"
proof (induction fuel arbitrary: key val s)
  case (Suc fuel)
  obtain k where k: "key = Some k" using Suc.prems by (cases key) auto
  obtain i nf occ where r: "find_empty (new_flags s) (new_n - 1) (unat new_n) (hash_func k AND (new_n - 1)) 0 = Inr i" "ac_set_isempty_false (new_flags s) i = Inr nf"
    "(if i < nb then bindE (ac_iseither (old_flags s) i) (\<lambda>e. Inr (\<not> e)) else Inr False) = Inr occ"
    using Suc.prems k by (auto simp: bindE_eq_Inr Let_def)
  show ?case
  proof (cases occ)
    case True
    then obtain tk ks tv vs ofl where o: "rd (rkeys s) (uint i) = Inr tk" "wr (rkeys s) (uint i) key = Inr ks" "ac_set_isdel_true (old_flags s) i = Inr ofl"
      "kick_out hash_func nb new_n fuel tk tv \<lparr>old_flags = ofl, new_flags = nf, rkeys = ks, rvals = vs\<rparr> = Inr s'"
      using Suc.prems k r by (auto simp: bindE_eq_Inr Let_def)
    have "s\<lparr>rvals := [], old_flags := ofl, new_flags := nf, rkeys := ks\<rparr> = \<lparr>old_flags = ofl, new_flags = nf, rkeys = ks, rvals = []\<rparr>" by (cases s) simp
    moreover have "i < nb" "ac_iseither (old_flags s) i = Inr False" using r(3) True by (auto simp: bindE_eq_Inr split: if_splits)
    ultimately show ?thesis using Suc.IH [OF o(4)] o(1-3) k r(1,2) by (cases s) (simp add: Let_def)
  next
    case False
    then consider "\<not> i < nb" | "i < nb" "ac_iseither (old_flags s) i = Inr True" using r(3) by (auto simp: bindE_eq_Inr split: if_splits)
    then have "\<exists>ks vs. wr (rkeys s) (uint i) key = Inr ks \<and> s' = s\<lparr>new_flags := nf, rkeys := ks, rvals := vs\<rparr> \<and>
      kick_out_set hash_func nb new_n (Suc fuel) key (s\<lparr>rvals := []\<rparr>) = Inr (s\<lparr>rvals := [], new_flags := nf, rkeys := ks\<rparr>)"
      by cases (use Suc.prems k r(1,2) in \<open>auto simp: bindE_eq_Inr Let_def\<close>)
    then show ?thesis by (cases s) auto
  qed
qed simp

lemma rehash_bucket_forgets:
  "rehash_bucket hash_func nb new_n j s = Inr s' \<Longrightarrow> rehash_bucket_set hash_func nb new_n j (s\<lparr>rvals := []\<rparr>) = Inr (s'\<lparr>rvals := []\<rparr>)"
proof -
  assume run: "rehash_bucket hash_func nb new_n j s = Inr s'"
  then obtain e where e: "ac_iseither (old_flags s) (of_nat j) = Inr e" by (auto simp: rehash_bucket_def bindE_eq_Inr)
  show ?thesis
  proof (cases e)
    case True
    then show ?thesis using run e by (simp add: rehash_bucket_def rehash_bucket_set_def)
  next
    case False
    then obtain key val ofl where o: "rd (rkeys s) (int j) = Inr key" "ac_set_isdel_true (old_flags s) (of_nat j) = Inr ofl"
      "kick_out hash_func nb new_n (Suc (unat nb)) key val (s\<lparr>old_flags := ofl\<rparr>) = Inr s'"
      using run e by (auto simp: rehash_bucket_def bindE_eq_Inr simp del: kick_out.simps)
    have eq: "s\<lparr>rvals := [], old_flags := ofl\<rparr> = s\<lparr>old_flags := ofl, rvals := []\<rparr>" by simp
    have "kick_out_set hash_func nb new_n (Suc (unat nb)) key (s\<lparr>rvals := [], old_flags := ofl\<rparr>) = Inr (s'\<lparr>rvals := []\<rparr>)"
      unfolding eq by (rule kick_out_forgets [OF o(3)])
    then show ?thesis using o(1,2) e False by (simp add: rehash_bucket_set_def del: kick_out_set.simps)
  qed
qed

lemma foldE_simulates:
  assumes "\<And>x s s'. f x s = Inr s' \<Longrightarrow> g x (e s) = Inr (e s')" "foldE f xs s = Inr s'"
  shows "foldE g xs (e s) = Inr (e s')"
  using assms(2) by (induction xs arbitrary: s) (auto simp: bindE_eq_Inr assms(1))

lemma resize_to_forgets:
  assumes "resize_to hash_func (alloc\<lparr>got_vals := True\<rparr>) h new_n = Inr h'"
  shows "resize_to_set hash_func alloc (h\<lparr>vals := []\<rparr>) new_n = Inr (h'\<lparr>vals := []\<rparr>)"
proof -
  let ?s = "\<lparr>old_flags = flags h, new_flags = replicate (unat (ac_fsize new_n)) 0xaaaaaaaa, rkeys = keys h, rvals = vals h\<rparr>"
  obtain s where s: "foldE (rehash_bucket hash_func (n_buckets h) new_n) [0..<unat (n_buckets h)] ?s = Inr s"
    "h' = h\<lparr>keys := (if n_buckets h > new_n then shrunk (got_keys alloc) (unat new_n) (rkeys s) else rkeys s), vals := (if n_buckets h > new_n then shrunk True (unat new_n) (rvals s) else rvals s),
            flags := new_flags s, n_buckets := new_n, n_occupied := kh_size h, upper_bound := hash_upper new_n\<rparr>"
    using assms by (auto simp: resize_to_def bindE_eq_Inr Let_def)
  have "foldE (rehash_bucket_set hash_func (n_buckets h) new_n) [0..<unat (n_buckets h)] (?s\<lparr>rvals := []\<rparr>) = Inr (s\<lparr>rvals := []\<rparr>)"
    using s(1) by (intro foldE_simulates [where e = "\<lambda>s. s\<lparr>rvals := []\<rparr>"] rehash_bucket_forgets)
  then show ?thesis unfolding s(2) by (simp add: resize_to_set_def)
qed

lemma kh_resize_forgets:
  assumes "kh_resize hash_func (alloc\<lparr>got_vals := True\<rparr>) h n = Inr (r, h')"
  shows "kh_resize_set hash_func alloc (h\<lparr>vals := []\<rparr>) n = Inr (r, h'\<lparr>vals := []\<rparr>)"
proof -
  define new_n where "new_n = (if kroundup32 n < 4 then 4 else kroundup32 n)"
  let ?h = "if n_buckets h < new_n then h\<lparr>keys := krealloc (unat new_n) (keys h), vals := krealloc (unat new_n) (vals h)\<rparr> else h"
  consider "kh_size h \<ge> hash_upper new_n \<or> \<not> got_flags alloc \<or> n_buckets h < new_n \<and> \<not> got_keys alloc"
    | "kh_size h < hash_upper new_n" "got_flags alloc" "n_buckets h < new_n \<longrightarrow> got_keys alloc" by fastforce
  then show ?thesis
  proof cases
    case 1
    then show ?thesis using assms by (auto simp: kh_resize_def kh_resize_set_def Let_def new_n_def [symmetric] split: if_splits)
  next
    case 2
    then have "resize_to hash_func (alloc\<lparr>got_vals := True\<rparr>) ?h new_n = Inr h'" "r = 0" using assms by (auto simp: kh_resize_def Let_def new_n_def [symmetric] bindE_eq_Inr split: if_splits)
    moreover have "h\<lparr>vals := [], keys := ks\<rparr> = h\<lparr>keys := ks, vals := []\<rparr>" for ks by simp
    ultimately have "resize_to_set hash_func alloc (if n_buckets h < new_n then h\<lparr>vals := [], keys := krealloc (unat new_n) (keys h)\<rparr> else h\<lparr>vals := []\<rparr>) new_n = Inr (h'\<lparr>vals := []\<rparr>)"
      using resize_to_forgets [of hash_func alloc ?h new_n h'] by (cases h) (simp split: if_splits)
    then show ?thesis using 2 \<open>r = 0\<close> by (cases "n_buckets h < new_n") (auto simp: kh_resize_set_def Let_def new_n_def [symmetric] not_le)
  qed
qed

lemma make_room_forgets:
  "make_room hash_func (alloc\<lparr>got_vals := True\<rparr>) h = Inr (r, h') \<Longrightarrow> make_room_set hash_func alloc (h\<lparr>vals := []\<rparr>) = Inr (r, h'\<lparr>vals := []\<rparr>)"
  by (auto simp: make_room_def make_room_set_def kh_resize_forgets split: if_splits)

lemma probing_forgets [simp]: "probing (h\<lparr>vals := []\<rparr>) key i = probing h key i"
  by (simp add: probing_def cong: if_cong)

lemma get_loop_forgets: "get_loop (h\<lparr>vals := []\<rparr>) key mask' last' fuel i step = get_loop h key mask' last' fuel i step"
  by (induction fuel arbitrary: i step) (simp_all add: Let_def cong: if_cong)

lemma put_loop_forgets: "put_loop (h\<lparr>vals := []\<rparr>) key mask' last' fuel i step site = put_loop h key mask' last' fuel i step site"
  by (induction fuel arbitrary: i step site) (simp_all add: Let_def cong: if_cong)

lemma kh_get_forgets: "kh_get hash_func (h\<lparr>vals := []\<rparr>) key = kh_get hash_func h key"
  by (simp add: kh_get_def Let_def get_loop_forgets cong: if_cong del: get_loop.simps)

lemma put_site_forgets: "put_site hash_func (h\<lparr>vals := []\<rparr>) key = put_site hash_func h key"
  by (simp add: put_site_def Let_def put_loop_forgets cong: if_cong del: put_loop.simps)

lemma put_at_forgets: "put_at (h\<lparr>vals := []\<rparr>) key x = bindE (put_at h key x) (\<lambda>(y, r, h'). Inr (y, r, h'\<lparr>vals := []\<rparr>))"
  by (simp add: put_at_def bindE_def split: sum.split)

lemma kh_put_forgets:
  assumes "kh_put hash_func (alloc\<lparr>got_vals := True\<rparr>) h key = Inr (x, r, h')"
  shows "kh_put_set hash_func alloc (h\<lparr>vals := []\<rparr>) key = Inr (x, r, h'\<lparr>vals := []\<rparr>)"
proof -
  obtain q h1 where q: "make_room hash_func (alloc\<lparr>got_vals := True\<rparr>) h = Inr (q, h1)" using assms by (auto simp: kh_put_def bindE_eq_Inr)
  show ?thesis using assms q make_room_forgets [OF q] by (cases "q < 0") (auto simp: kh_put_def kh_put_set_def put_site_forgets put_at_forgets bindE_eq_Inr)
qed

lemma kh_del_forgets: "kh_del (h\<lparr>vals := []\<rparr>) x = bindE (kh_del h x) (\<lambda>h'. Inr (h'\<lparr>vals := []\<rparr>))"
  by (simp add: kh_del_def bindE_def split: sum.split)

section \<open>Sets\<close>

text \<open>Insertion, deletion of a key and membership as a client writes them.\<close>

definition set_insert :: "kh_alloc \<Rightarrow> ('k \<Rightarrow> u32) \<Rightarrow> 'k \<Rightarrow> unit \<Rightarrow> ('k, unit) khash \<Rightarrow> ('k, unit) khash cres" where
  "set_insert alloc hash_func key u h = bindE (kh_put_set hash_func alloc h key) (\<lambda>(k, absent, h). Inr h)"

definition set_member :: "('k \<Rightarrow> u32) \<Rightarrow> 'k \<Rightarrow> ('k, unit) khash \<Rightarrow> unit option cres" where
  "set_member hash_func key h = bindE (kh_get hash_func h key) (\<lambda>k. Inr (if k = n_buckets h then None else Some ()))"

definition set_view :: "('k, unit) khash \<Rightarrow> 'k \<Rightarrow> unit option" where
  "set_view h k = (if \<exists>i \<in> lives (unat (n_buckets h)) (flags h). keys h ! i = Some k then Some () else None)"

definition set_ok :: "('k \<Rightarrow> u32) \<Rightarrow> nat \<Rightarrow> ('k, unit) khash \<Rightarrow> bool" where
  "set_ok hash_func c hs \<longleftrightarrow> (\<exists>h. hs = h\<lparr>vals := []\<rparr> \<and> kh_inv hash_func h \<and> unat (n_buckets h) \<le> 4 * c + 4 \<and> unat (kh_size h) \<le> c)"

lemma set_view_map:
  assumes "kh_inv hash_func h"
  shows "set_view (h\<lparr>vals := []\<rparr>) = (\<lambda>k. map_option (\<lambda>_. ()) (kh_map h k))"
proof
  fix k
  show "set_view (h\<lparr>vals := []\<rparr>) k = map_option (\<lambda>_. ()) (kh_map h k)"
    using kh_map_entry [OF kh_inv_source [OF assms], of k] by (cases "kh_map h k") (auto simp: set_view_def)
qed

lemma set_insert_law:
  assumes "set_ok hash_func c hs" "c < kh_limit"
  shows "\<exists>hs'. set_insert all_allocated hash_func key u hs = Inr hs' \<and> set_ok hash_func (Suc c) hs' \<and> set_view hs' = (set_view hs)(key \<mapsto> u)"
proof -
  obtain h where h: "hs = h\<lparr>vals := []\<rparr>" "kh_inv hash_func h" "unat (n_buckets h) \<le> 4 * c + 4" "unat (kh_size h) \<le> c" using assms(1) by (auto simp: set_ok_def)
  have all: "all_allocated\<lparr>got_vals := True\<rparr> = all_allocated" by (simp add: all_allocated_def)
  have "unat (n_buckets h) < 2 ^ 31" using h(3) assms(2) by (simp add: kh_limit_def)
  then obtain x r h1 where h1: "kh_put hash_func all_allocated h key = Inr (x, r, h1)" "kh_inv hash_func h1" "kh_map h1 = (kh_map h)(key \<mapsto> vals h1 ! unat x)"
    "unat (n_buckets h1) \<le> max (unat (n_buckets h)) (4 * unat (kh_size h) + 4)" using kh_put_inserts [OF h(2), of all_allocated key] by (auto simp: all_allocated_def)
  have "set_ok hash_func (Suc c) (h1\<lparr>vals := []\<rparr>)" using put_size [OF h(2) h1(2,3)] h(3,4) h1(2,4) by (auto simp: set_ok_def intro!: exI [of _ h1])
  moreover have "set_view (h1\<lparr>vals := []\<rparr>) = (set_view hs)(key \<mapsto> u)" using h1(3) by (auto simp: h(1) set_view_map [OF h(2)] set_view_map [OF h1(2)])
  moreover have "set_insert all_allocated hash_func key u hs = Inr (h1\<lparr>vals := []\<rparr>)" using kh_put_forgets [of hash_func all_allocated h key x r h1] h1(1) by (simp add: set_insert_def h(1) all)
  ultimately show ?thesis by blast
qed

lemma set_remove_law:
  assumes "set_ok hash_func c hs"
  shows "\<exists>hs'. kh_remove hash_func key hs = Inr hs' \<and> set_ok hash_func c hs' \<and> set_view hs' = (set_view hs)(key := None)"
proof -
  obtain h where h: "hs = h\<lparr>vals := []\<rparr>" "kh_inv hash_func h" "unat (n_buckets h) \<le> 4 * c + 4" "unat (kh_size h) \<le> c" using assms by (auto simp: set_ok_def)
  obtain h' where h': "kh_remove hash_func key h = Inr h'" "kh_inv hash_func h'" "n_buckets h' = n_buckets h" "unat (kh_size h') \<le> unat (kh_size h)" "kh_map h' = (kh_map h)(key := None)"
    using kh_remove_keeps [OF h(2)] by blast
  then obtain x where "kh_get hash_func h key = Inr x" "kh_del h x = Inr h'" by (auto simp: kh_remove_def bindE_eq_Inr)
  then have "kh_remove hash_func key hs = Inr (h'\<lparr>vals := []\<rparr>)" by (simp add: kh_remove_def h(1) kh_get_forgets kh_del_forgets)
  moreover have "set_ok hash_func c (h'\<lparr>vals := []\<rparr>)" using h(3,4) h'(2-4) by (auto simp: set_ok_def intro!: exI [of _ h'])
  moreover have "set_view (h'\<lparr>vals := []\<rparr>) = (set_view hs)(key := None)" using h'(5) by (auto simp: h(1) set_view_map [OF h(2)] set_view_map [OF h'(2)])
  ultimately show ?thesis by blast
qed

lemma set_member_law:
  assumes "set_ok hash_func c hs"
  shows "set_member hash_func key hs = Inr (set_view hs key)"
proof -
  obtain h where h: "hs = h\<lparr>vals := []\<rparr>" "kh_inv hash_func h" using assms by (auto simp: set_ok_def)
  obtain x where "kh_get hash_func h key = Inr x"
    "case kh_map h key of None \<Rightarrow> x = n_buckets h
     | Some v \<Rightarrow> unat x < unat (n_buckets h) \<and> live (flags h) (unat x) \<and> keys h ! unat x = Some key \<and> vals h ! unat x = v"
    using kh_get_finds [OF h(2)] by blast
  then show ?thesis by (auto simp: set_member_def h(1) kh_get_forgets set_view_map [OF h(2)] split: option.splits)
qed

interpretation ks: checked_map "set_insert all_allocated hash_func" "kh_remove hash_func" "set_member hash_func" "set_ok hash_func" set_view kh_limit
  for hash_func :: "'k \<Rightarrow> u32"
  by unfold_locales (rule set_insert_law set_remove_law set_member_law; assumption)+

lemma set_ok_init: "set_ok hash_func 0 (kh_init ())" "set_view (kh_init ()) = Map.empty"
  by (auto simp: set_ok_def set_view_def kh_init_def kh_inv_def lives_def intro!: exI [of _ "kh_init ()"])

text \<open>
  C11. The tables without values are sets: for every hash function, any sequence of insertions, deletions and membership tests on a new
  table, with up to 2^28 insertions among them and allocations that succeed, runs without a fault and answers every test as the same operations on a set (a map to the one value) would, and the
  table ends up with the members of that set. The array of values, which is not there, is never touched.
\<close>

theorem khash_refines_set:
  assumes "inserts ops \<le> kh_limit"
  shows "\<exists>h rs. run_map_ops (set_insert all_allocated hash_func) (kh_remove hash_func) (set_member hash_func) ops (kh_init ()) = Inr (h, rs) \<and>
    (set_view h, rs) = spec_ops ops Map.empty"
  using ks.run_refines [OF set_ok_init(1), of ops hash_func] assms unfolding set_ok_init(2) by auto

theorem khash_refines_set_witness:
  "\<exists>h. run_map_ops (set_insert all_allocated kh_int_hash_func) (kh_remove kh_int_hash_func) (set_member kh_int_hash_func)
      [Insert 5 (), Insert 9 (), Remove 5, Lookup 9, Lookup 5] (kh_init ()) = Inr (h, [Some (), None]) \<and> set_view h = [9 \<mapsto> ()]"
  using khash_refines_set [of "[Insert 5 (), Insert 9 (), Remove 5, Lookup 9, Lookup 5]" kh_int_hash_func] by (auto simp: kh_limit_def)

end
