(* ===== verification/Linked_Chains.thy ===== *)
theory Linked_Chains
  imports Main
begin

text \<open>
  Doubly linked lists in memory, for the structures that are chained by pointers in both directions.
  The next and previous pointers are functions on addresses; \<open>linked nx pv b xs q\<close> says that the
  addresses \<open>xs\<close> are linked in this order, the first one back to \<open>b\<close> and the last one on to \<open>q\<close>. The
  lemmas are those the operations on such lists need: splitting, changes elsewhere, adding at either
  end and taking out.
\<close>

type_synonym ptr = "nat option"

fun first :: "nat list \<Rightarrow> ptr \<Rightarrow> ptr" where
  "first [] q = q"
| "first (a # xs) q = Some a"

fun final :: "ptr \<Rightarrow> nat list \<Rightarrow> ptr" where
  "final b [] = b"
| "final b (a # xs) = final (Some a) xs"

fun linked :: "(nat \<Rightarrow> ptr) \<Rightarrow> (nat \<Rightarrow> ptr) \<Rightarrow> ptr \<Rightarrow> nat list \<Rightarrow> ptr \<Rightarrow> bool" where
  "linked nx pv b [] q \<longleftrightarrow> True"
| "linked nx pv b (a # xs) q \<longleftrightarrow> pv a = b \<and> nx a = first xs q \<and> linked nx pv (Some a) xs q"

lemma first_append [simp]: "first (xs @ ys) q = first xs (first ys q)"
  by (cases xs) auto

lemma final_append [simp]: "final b (xs @ ys) = final (final b xs) ys"
  by (induction xs arbitrary: b) auto

lemma first_None [simp]: "first xs None = None \<longleftrightarrow> xs = []"
  by (cases xs) auto

lemma final_last: "xs \<noteq> [] \<Longrightarrow> final b xs = Some (last xs)"
  by (induction xs arbitrary: b) auto

lemma final_Some [simp]: "final (Some a) xs \<noteq> None"
  by (induction xs arbitrary: a) auto

lemma final_None [simp]: "final None xs = None \<longleftrightarrow> xs = []"
  by (cases xs) (simp_all del: not_None_eq)

lemma final_mem: "final None xs = Some a \<Longrightarrow> a \<in> set xs"
  by (cases "xs = []") (auto simp: final_last)

lemma first_mem: "first xs None = Some a \<Longrightarrow> a \<in> set xs"
  by (cases xs) auto

lemma linked_append: "linked nx pv b (xs @ ys) q \<longleftrightarrow> linked nx pv b xs (first ys q) \<and> linked nx pv (final b xs) ys q"
  by (induction xs arbitrary: b) auto

lemma linked_cong:
  "(\<And>a. a \<in> set xs \<Longrightarrow> nx' a = nx a \<and> pv' a = pv a) \<Longrightarrow> linked nx' pv' b xs q \<longleftrightarrow> linked nx pv b xs q"
  by (induction xs arbitrary: b) auto

lemma linked_off [simp]:
  "a \<notin> set xs \<Longrightarrow> linked (nx(a := v)) pv b xs q \<longleftrightarrow> linked nx pv b xs q"
  "a \<notin> set xs \<Longrightarrow> linked nx (pv(a := v)) b xs q \<longleftrightarrow> linked nx pv b xs q"
  by (rule linked_cong; auto)+

text \<open>A new last element.\<close>

lemma linked_snoc:
  assumes "linked nx pv b xs None" "a \<notin> set xs" "distinct xs"
  shows "linked (case final None xs of None \<Rightarrow> nx(a := None) | Some z \<Rightarrow> (nx(a := None))(z := Some a)) (pv(a := final b xs)) b (xs @ [a]) None"
proof (cases xs rule: rev_cases)
  case (snoc ys z)
  then show ?thesis using assms by (auto simp: linked_append)
qed simp

text \<open>A new first element, and the new first element when the old one is to point back to it.\<close>

lemma linked_push:
  assumes "linked nx pv b xs None" "a \<notin> set xs" "distinct xs"
  shows "linked (nx(a := first xs None)) (case first xs None of None \<Rightarrow> pv(a := c) | Some z \<Rightarrow> (pv(a := c))(z := Some a)) c (a # xs) None"
  using assms by (cases xs) auto

text \<open>An element is taken out by changing one pointer of each neighbour.\<close>

lemma linked_remove:
  assumes "linked nx pv None (xs @ d # ys) None" "distinct (xs @ d # ys)"
  shows "linked (case pv d of None \<Rightarrow> nx | Some z \<Rightarrow> nx(z := nx d)) (case nx d of None \<Rightarrow> pv | Some z \<Rightarrow> pv(z := pv d)) None (xs @ ys) None"
proof -
  have d: "pv d = final None xs" "nx d = first ys None" using assms(1) by (auto simp: linked_append)
  let ?nx = "case pv d of None \<Rightarrow> nx | Some z \<Rightarrow> nx(z := nx d)" and ?pv = "case nx d of None \<Rightarrow> pv | Some z \<Rightarrow> pv(z := pv d)"
  have "linked ?nx ?pv None xs (first ys None)"
  proof (cases xs rule: rev_cases)
    case (snoc zs z)
    then show ?thesis using assms d by (cases ys) (auto simp: linked_append)
  qed simp
  moreover have "linked ?nx ?pv (final None xs) ys None"
    using assms d by (cases ys; cases xs rule: rev_cases) (auto simp: linked_append)
  ultimately show ?thesis by (simp add: linked_append)
qed

lemma first_remove:
  assumes "linked nx pv None (xs @ d # ys) None"
  shows "first (xs @ ys) None = (if pv d = None then nx d else first (xs @ d # ys) None)"
  using assms by (cases xs) (auto simp: linked_append simp del: not_None_eq)

end
