(* ===== verification/Uthash_Table.thy ===== *)
theory Uthash_Table
  imports C_Prelude Linked_Chains
begin

text \<open>
  \<^verbatim>\<open>client_server/uthash/src/uthash.h\<close>: the macros over \<^verbatim>\<open>UT_hash_handle\<close>, \<^verbatim>\<open>UT_hash_bucket\<close> and
  \<^verbatim>\<open>UT_hash_table\<close>, as they expand with the options the repository is built with (no Bloom filter, no
  \<^verbatim>\<open>HASH_DEBUG\<close>, no emitted keys, \<^verbatim>\<open>__typeof\<close> available). Every element has one handle, so that handles are
  named by the address of their element, and \<^verbatim>\<open>ELMT_FROM_HH\<close> and the additions of \<^verbatim>\<open>hho\<close> are the identity. The
  handles and the tables live in a memory; a pointer that was not set or was released is noticed when it is
  used. \<^verbatim>\<open>key\<close> stands for the bytes \<^verbatim>\<open>hh.key\<close> points to. The hash function \<^verbatim>\<open>HASH_FCN\<close> and the answers of \<^verbatim>\<open>malloc\<close>, by
  the number of bytes, are arguments. A walk along a chain that is longer than the number of items goes round in
  a circle, and does not return; while the buckets are expanded, one item more may be in a chain, since \<^verbatim>\<open>HASH_SELECT\<close> counts
  its items late.
\<close>

section \<open>Data\<close>

record UT_hash_handle =
  tbl :: ptr
  prev :: ptr
  next' :: ptr
  hh_prev :: ptr
  hh_next :: ptr
  key :: bytes
  keylen :: u32
  hashv :: u32

record UT_hash_bucket =
  hh_head :: ptr
  bkt_count :: u32
  expand_mult :: u32

record UT_hash_table =
  buckets :: "UT_hash_bucket list"
  num_buckets :: u32
  log2_num_buckets :: u32
  num_items :: u32
  tail :: ptr
  ideal_chain_maxlen :: u32
  nonideal_items :: u32
  ineff_expands :: u32
  noexpand :: u32
  signature :: u32

text \<open>The memory: handles, tables, and the address the next table gets.\<close>

record ut_mem =
  handles :: "nat \<Rightarrow> UT_hash_handle option"
  tables :: "nat \<Rightarrow> UT_hash_table option"
  tbl_brk :: nat

definition HASH_INITIAL_NUM_BUCKETS :: u32 where "HASH_INITIAL_NUM_BUCKETS = 32"
definition HASH_INITIAL_NUM_BUCKETS_LOG2 :: u32 where "HASH_INITIAL_NUM_BUCKETS_LOG2 = 5"
definition HASH_BKT_CAPACITY_THRESH :: u32 where "HASH_BKT_CAPACITY_THRESH = 10"
definition HASH_SIGNATURE :: u32 where "HASH_SIGNATURE = 0xa0111fe1"

definition sizeof_hash_handle :: nat where "sizeof_hash_handle = 56"
definition sizeof_hash_bucket :: nat where "sizeof_hash_bucket = 16"
definition sizeof_hash_table :: nat where "sizeof_hash_table = 64"

definition uthash_malloc :: "(nat \<Rightarrow> bool) \<Rightarrow> nat \<Rightarrow> unit cres" where
  "uthash_malloc malloc_ok sz = (if malloc_ok sz then Inr () else Inl (ExitProcess (-1)))"

definition zero_bucket :: UT_hash_bucket where
  "zero_bucket = \<lparr>hh_head = None, bkt_count = 0, expand_mult = 0\<rparr>"

section \<open>Accesses through pointers\<close>

definition deref_in :: "(nat \<Rightarrow> 'a option) \<Rightarrow> ptr \<Rightarrow> 'a cres" where
  "deref_in h p = (case p of None \<Rightarrow> Inl NullDeref | Some a \<Rightarrow> (case h a of None \<Rightarrow> Inl DanglingPtr | Some x \<Rightarrow> Inr x))"

definition hh_at :: "ut_mem \<Rightarrow> ptr \<Rightarrow> UT_hash_handle cres" where
  "hh_at m p = deref_in (handles m) p"

definition set_hh :: "nat \<Rightarrow> (UT_hash_handle \<Rightarrow> UT_hash_handle) \<Rightarrow> ut_mem \<Rightarrow> ut_mem" where
  "set_hh a f m = m\<lparr>handles := (handles m)(a := map_option f (handles m a))\<rparr>"

definition upd_hh :: "ptr \<Rightarrow> (UT_hash_handle \<Rightarrow> UT_hash_handle) \<Rightarrow> ut_mem \<Rightarrow> ut_mem cres" where
  "upd_hh p f m = bindE (hh_at m p) (\<lambda>h. Inr (set_hh (the p) f m))"

definition tbl_at :: "ut_mem \<Rightarrow> ptr \<Rightarrow> UT_hash_table cres" where
  "tbl_at m p = deref_in (tables m) p"

definition set_tbl :: "nat \<Rightarrow> (UT_hash_table \<Rightarrow> UT_hash_table) \<Rightarrow> ut_mem \<Rightarrow> ut_mem" where
  "set_tbl t f m = m\<lparr>tables := (tables m)(t := map_option f (tables m t))\<rparr>"

definition upd_tbl :: "ptr \<Rightarrow> (UT_hash_table \<Rightarrow> UT_hash_table) \<Rightarrow> ut_mem \<Rightarrow> ut_mem cres" where
  "upd_tbl p f m = bindE (tbl_at m p) (\<lambda>T. Inr (set_tbl (the p) f m))"

text \<open>\<^verbatim>\<open>(head)->hh.tbl\<close>, and a bucket of a table.\<close>

definition head_tbl :: "ut_mem \<Rightarrow> ptr \<Rightarrow> ptr cres" where
  "head_tbl m head = bindE (hh_at m head) (\<lambda>h. Inr (tbl h))"

definition bucket_at :: "ut_mem \<Rightarrow> ptr \<Rightarrow> u32 \<Rightarrow> UT_hash_bucket cres" where
  "bucket_at m t b = bindE (tbl_at m t) (\<lambda>T. rd (buckets T) (uint b))"

definition upd_bucket :: "ptr \<Rightarrow> u32 \<Rightarrow> (UT_hash_bucket \<Rightarrow> UT_hash_bucket) \<Rightarrow> ut_mem \<Rightarrow> ut_mem cres" where
  "upd_bucket t b f m =
     bindE (tbl_at m t) (\<lambda>T. bindE (rd (buckets T) (uint b)) (\<lambda>x. bindE (wr (buckets T) (uint b) (f x)) (\<lambda>bs.
     upd_tbl t (\<lambda>T. T\<lparr>buckets := bs\<rparr>) m)))"

section \<open>Searching\<close>

definition HASH_TO_BKT :: "u32 \<Rightarrow> u32 \<Rightarrow> u32" where
  "HASH_TO_BKT hv num_bkts = hv AND (num_bkts - 1)"

definition HASH_KEYCMP :: "bytes \<Rightarrow> bytes \<Rightarrow> u32 \<Rightarrow> bool cres" where
  "HASH_KEYCMP a b len = bindE (rd_slice a 0 (unat len)) (\<lambda>x. bindE (rd_slice b 0 (unat len)) (\<lambda>y. Inr (x = y)))"

fun HASH_FIND_IN_BKT :: "nat \<Rightarrow> ut_mem \<Rightarrow> bytes \<Rightarrow> ptr \<Rightarrow> ptr cres" where
  "HASH_FIND_IN_BKT 0 m keyptr out = Inl NoReturn"
| "HASH_FIND_IN_BKT (Suc fuel) m keyptr out =
     (if out = None then Inr None
      else bindE (hh_at m out) (\<lambda>h.
        bindE (if keylen h = of_nat (length keyptr) then HASH_KEYCMP (key h) keyptr (of_nat (length keyptr)) else Inr False) (\<lambda>same.
        if same then Inr out else HASH_FIND_IN_BKT fuel m keyptr (hh_next h))))"

definition HASH_FIND :: "(bytes \<Rightarrow> u32) \<Rightarrow> ut_mem \<Rightarrow> ptr \<Rightarrow> bytes \<Rightarrow> ptr cres" where
  "HASH_FIND fcn m head keyptr =
     (if head = None then Inr None
      else bindE (head_tbl m head) (\<lambda>t. bindE (tbl_at m t) (\<lambda>T.
        bindE (bucket_at m t (HASH_TO_BKT (fcn keyptr) (num_buckets T))) (\<lambda>b.
        HASH_FIND_IN_BKT (Suc (unat (num_items T))) m keyptr (hh_head b)))))"

section \<open>Expansion\<close>

text \<open>One item is moved to its new bucket. The state is the memory, the new buckets and \<^verbatim>\<open>nonideal_items\<close>.\<close>

definition move_item :: "u32 \<Rightarrow> u32 \<Rightarrow> nat \<Rightarrow> ut_mem \<times> UT_hash_bucket list \<times> u32 \<Rightarrow> (ut_mem \<times> UT_hash_bucket list \<times> u32) cres" where
  "move_item nb ideal thh = (\<lambda>(m, new_buckets, nonideal).
     bindE (hh_at m (Some thh)) (\<lambda>h.
     let bkt = HASH_TO_BKT (hashv h) (nb * 2) in
     bindE (rd new_buckets (uint bkt)) (\<lambda>newbkt.
     let newbkt = newbkt\<lparr>bkt_count := bkt_count newbkt + 1\<rparr>; crowded = bkt_count newbkt > ideal in
     bindE (if crowded \<and> ideal = 0 then Inl DivByZero else Inr ()) (\<lambda>_.
     let nonideal = (if crowded then nonideal + 1 else nonideal);
         newbkt = (if crowded then newbkt\<lparr>expand_mult := bkt_count newbkt div ideal\<rparr> else newbkt) in
     bindE (upd_hh (Some thh) (\<lambda>h. h\<lparr>hh_next := hh_head newbkt, hh_prev := None\<rparr>) m) (\<lambda>m.
     bindE (if hh_head newbkt \<noteq> None then upd_hh (hh_head newbkt) (\<lambda>h. h\<lparr>hh_prev := Some thh\<rparr>) m else Inr m) (\<lambda>m.
     bindE (wr new_buckets (uint bkt) (newbkt\<lparr>hh_head := Some thh\<rparr>)) (\<lambda>nbs.
     Inr (m, nbs, nonideal))))))))"

fun move_chain :: "nat \<Rightarrow> u32 \<Rightarrow> u32 \<Rightarrow> ptr \<Rightarrow> ut_mem \<times> UT_hash_bucket list \<times> u32 \<Rightarrow> (ut_mem \<times> UT_hash_bucket list \<times> u32) cres" where
  "move_chain 0 nb ideal thh s = Inl NoReturn"
| "move_chain (Suc fuel) nb ideal thh s =
     (case thh of None \<Rightarrow> Inr s
      | Some a \<Rightarrow> bindE (hh_at (fst s) thh) (\<lambda>h. bindE (move_item nb ideal a s) (move_chain fuel nb ideal (hh_next h))))"

definition HASH_EXPAND_BUCKETS :: "(nat \<Rightarrow> bool) \<Rightarrow> ptr \<Rightarrow> ut_mem \<Rightarrow> ut_mem cres" where
  "HASH_EXPAND_BUCKETS malloc_ok t m =
     bindE (tbl_at m t) (\<lambda>T.
     bindE (uthash_malloc malloc_ok (2 * unat (num_buckets T) * sizeof_hash_bucket)) (\<lambda>_.
     bindE (if log2_num_buckets T + 1 \<ge> 32 then Inl BadShift else Inr ()) (\<lambda>_.
     let nb = num_buckets T;
         ideal = drop_bit (unat (log2_num_buckets T + 1)) (num_items T) + (if num_items T AND (nb * 2 - 1) \<noteq> 0 then 1 else 0) in
     bindE (foldE (\<lambda>i s. bindE (bucket_at (fst s) t (of_nat i)) (\<lambda>b. move_chain (Suc (Suc (unat (num_items T)))) nb ideal (hh_head b) s))
        [0..<unat nb] (m, replicate (2 * unat nb) zero_bucket, 0)) (\<lambda>(m, nbs, nonideal).
     upd_tbl t (\<lambda>T. let ineff = (if nonideal > drop_bit 1 (num_items T) then ineff_expands T + 1 else 0) in
        T\<lparr>buckets := nbs, num_buckets := nb * 2, log2_num_buckets := log2_num_buckets T + 1, ideal_chain_maxlen := ideal,
          nonideal_items := nonideal, ineff_expands := ineff, noexpand := (if ineff > 1 then 1 else noexpand T)\<rparr>) m))))"

section \<open>Adding\<close>

definition HASH_ADD_TO_BKT :: "(nat \<Rightarrow> bool) \<Rightarrow> ptr \<Rightarrow> u32 \<Rightarrow> nat \<Rightarrow> ut_mem \<Rightarrow> ut_mem cres" where
  "HASH_ADD_TO_BKT malloc_ok t bkt addhh m =
     bindE (bucket_at m t bkt) (\<lambda>b.
     bindE (upd_hh (Some addhh) (\<lambda>h. h\<lparr>hh_next := hh_head b, hh_prev := None\<rparr>) m) (\<lambda>m.
     bindE (if hh_head b \<noteq> None then upd_hh (hh_head b) (\<lambda>h. h\<lparr>hh_prev := Some addhh\<rparr>) m else Inr m) (\<lambda>m.
     bindE (upd_bucket t bkt (\<lambda>b. b\<lparr>bkt_count := bkt_count b + 1, hh_head := Some addhh\<rparr>) m) (\<lambda>m.
     bindE (bucket_at m t bkt) (\<lambda>b. bindE (tbl_at m t) (\<lambda>T.
     if bkt_count b \<ge> (expand_mult b + 1) * HASH_BKT_CAPACITY_THRESH \<and> noexpand T \<noteq> 1
     then HASH_EXPAND_BUCKETS malloc_ok t m else Inr m))))))"

definition new_table :: "nat \<Rightarrow> UT_hash_table" where
  "new_table head = \<lparr>buckets = replicate (unat HASH_INITIAL_NUM_BUCKETS) zero_bucket, num_buckets = HASH_INITIAL_NUM_BUCKETS,
     log2_num_buckets = HASH_INITIAL_NUM_BUCKETS_LOG2, num_items = 0, tail = Some head, ideal_chain_maxlen = 0, nonideal_items = 0,
     ineff_expands = 0, noexpand = 0, signature = HASH_SIGNATURE\<rparr>"

definition HASH_MAKE_TABLE :: "(nat \<Rightarrow> bool) \<Rightarrow> nat \<Rightarrow> ut_mem \<Rightarrow> ut_mem cres" where
  "HASH_MAKE_TABLE malloc_ok head m =
     bindE (uthash_malloc malloc_ok sizeof_hash_table) (\<lambda>_.
     bindE (uthash_malloc malloc_ok (unat HASH_INITIAL_NUM_BUCKETS * sizeof_hash_bucket)) (\<lambda>_.
     upd_hh (Some head) (\<lambda>h. h\<lparr>tbl := Some (tbl_brk m)\<rparr>)
       (m\<lparr>tables := (tables m)(tbl_brk m \<mapsto> new_table head), tbl_brk := Suc (tbl_brk m)\<rparr>)))"

text \<open>The result is the new head and the memory.\<close>

definition HASH_ADD_KEYPTR :: "(bytes \<Rightarrow> u32) \<Rightarrow> (nat \<Rightarrow> bool) \<Rightarrow> bytes \<Rightarrow> nat \<Rightarrow> ptr \<Rightarrow> ut_mem \<Rightarrow> (ptr \<times> ut_mem) cres" where
  "HASH_ADD_KEYPTR fcn malloc_ok keyptr add head m =
     bindE (upd_hh (Some add) (\<lambda>h. h\<lparr>next' := None, key := keyptr, keylen := of_nat (length keyptr)\<rparr>) m) (\<lambda>m.
     bindE (if head = None
        then bindE (upd_hh (Some add) (\<lambda>h. h\<lparr>prev := None\<rparr>) m) (\<lambda>m. bindE (HASH_MAKE_TABLE malloc_ok add m) (\<lambda>m. Inr (Some add, m)))
        else bindE (head_tbl m head) (\<lambda>t. bindE (tbl_at m t) (\<lambda>T.
             bindE (upd_hh (tail T) (\<lambda>h. h\<lparr>next' := Some add\<rparr>) m) (\<lambda>m.
             bindE (upd_hh (Some add) (\<lambda>h. h\<lparr>prev := tail T\<rparr>) m) (\<lambda>m.
             bindE (upd_tbl t (\<lambda>T. T\<lparr>tail := Some add\<rparr>) m) (\<lambda>m. Inr (head, m))))))) (\<lambda>(head, m).
     bindE (head_tbl m head) (\<lambda>t.
     bindE (upd_tbl t (\<lambda>T. T\<lparr>num_items := num_items T + 1\<rparr>) m) (\<lambda>m.
     bindE (upd_hh (Some add) (\<lambda>h. h\<lparr>tbl := t, hashv := fcn keyptr\<rparr>) m) (\<lambda>m.
     bindE (tbl_at m t) (\<lambda>T.
     bindE (HASH_ADD_TO_BKT malloc_ok t (HASH_TO_BKT (fcn keyptr) (num_buckets T)) add m) (\<lambda>m.
     Inr (head, m))))))))"

section \<open>Deleting\<close>

definition HASH_DEL_IN_BKT :: "ptr \<Rightarrow> u32 \<Rightarrow> nat \<Rightarrow> ut_mem \<Rightarrow> ut_mem cres" where
  "HASH_DEL_IN_BKT t bkt hh_del m =
     bindE (hh_at m (Some hh_del)) (\<lambda>h.
     bindE (upd_bucket t bkt (\<lambda>b. b\<lparr>bkt_count := bkt_count b - 1,
        hh_head := (if hh_head b = Some hh_del then hh_next h else hh_head b)\<rparr>) m) (\<lambda>m.
     bindE (if hh_prev h \<noteq> None then upd_hh (hh_prev h) (\<lambda>x. x\<lparr>hh_next := hh_next h\<rparr>) m else Inr m) (\<lambda>m.
     if hh_next h \<noteq> None then upd_hh (hh_next h) (\<lambda>x. x\<lparr>hh_prev := hh_prev h\<rparr>) m else Inr m)))"

definition HASH_DELETE :: "nat \<Rightarrow> ptr \<Rightarrow> ut_mem \<Rightarrow> (ptr \<times> ut_mem) cres" where
  "HASH_DELETE delptr head m =
     bindE (hh_at m (Some delptr)) (\<lambda>d.
     if prev d = None \<and> next' d = None
     then bindE (head_tbl m head) (\<lambda>t. bindE (tbl_at m t) (\<lambda>T. Inr (None, m\<lparr>tables := (tables m)(the t := None)\<rparr>)))
     else
       bindE (head_tbl m head) (\<lambda>t.
       bindE (upd_tbl t (\<lambda>T. if tail T = Some delptr then T\<lparr>tail := prev d\<rparr> else T) m) (\<lambda>m.
       bindE (if prev d \<noteq> None then bindE (upd_hh (prev d) (\<lambda>h. h\<lparr>next' := next' d\<rparr>) m) (\<lambda>m. Inr (head, m))
              else Inr (next' d, m)) (\<lambda>(head, m).
       bindE (if next' d \<noteq> None then upd_hh (next' d) (\<lambda>h. h\<lparr>prev := prev d\<rparr>) m else Inr m) (\<lambda>m.
       bindE (head_tbl m head) (\<lambda>t. bindE (tbl_at m t) (\<lambda>T.
       bindE (HASH_DEL_IN_BKT t (HASH_TO_BKT (hashv d) (num_buckets T)) delptr m) (\<lambda>m.
       bindE (upd_tbl t (\<lambda>T. T\<lparr>num_items := num_items T - 1\<rparr>) m) (\<lambda>m. Inr (head, m))))))))))"

section \<open>The other operations\<close>

definition HASH_REPLACE :: "(bytes \<Rightarrow> u32) \<Rightarrow> (nat \<Rightarrow> bool) \<Rightarrow> bytes \<Rightarrow> nat \<Rightarrow> ptr \<Rightarrow> ut_mem \<Rightarrow> (ptr \<times> ptr \<times> ut_mem) cres" where
  "HASH_REPLACE fcn malloc_ok keyptr add head m =
     bindE (HASH_FIND fcn m head keyptr) (\<lambda>replaced.
     bindE (case replaced of None \<Rightarrow> Inr (head, m) | Some r \<Rightarrow> HASH_DELETE r head m) (\<lambda>(head, m).
     bindE (HASH_ADD_KEYPTR fcn malloc_ok keyptr add head m) (\<lambda>(head, m).
     Inr (replaced, head, m))))"

definition HASH_CLEAR :: "ptr \<Rightarrow> ut_mem \<Rightarrow> (ptr \<times> ut_mem) cres" where
  "HASH_CLEAR head m =
     (if head = None then Inr (head, m)
      else bindE (head_tbl m head) (\<lambda>t. bindE (tbl_at m t) (\<lambda>T. Inr (None, m\<lparr>tables := (tables m)(the t := None)\<rparr>))))"

definition HASH_COUNT :: "ut_mem \<Rightarrow> ptr \<Rightarrow> u32 cres" where
  "HASH_COUNT m head =
     (if head = None then Inr 0 else bindE (head_tbl m head) (\<lambda>t. bindE (tbl_at m t) (\<lambda>T. Inr (num_items T))))"

definition HASH_OVERHEAD :: "ut_mem \<Rightarrow> ptr \<Rightarrow> u64 cres" where
  "HASH_OVERHEAD m head =
     (if head = None then Inr 0
      else bindE (head_tbl m head) (\<lambda>t. bindE (tbl_at m t) (\<lambda>T.
        Inr (of_nat (unat (num_items T) * sizeof_hash_handle + unat (num_buckets T) * sizeof_hash_bucket + sizeof_hash_table)))))"

text \<open>\<^verbatim>\<open>HASH_ITER\<close>: the successor is read before the body runs, which may delete and release the element.\<close>

fun HASH_ITER :: "nat \<Rightarrow> (nat \<Rightarrow> 's \<Rightarrow> 's cres) \<Rightarrow> ('s \<Rightarrow> ut_mem) \<Rightarrow> ptr \<Rightarrow> ptr \<Rightarrow> 's \<Rightarrow> 's cres" where
  "HASH_ITER 0 body mem el tmp s = Inl NoReturn"
| "HASH_ITER (Suc fuel) body mem el tmp s =
     (case el of None \<Rightarrow> Inr s
      | Some a \<Rightarrow> bindE (body a s) (\<lambda>s.
          bindE (if tmp \<noteq> None then bindE (hh_at (mem s) tmp) (\<lambda>h. Inr (next' h)) else Inr None) (\<lambda>tmp'.
          HASH_ITER fuel body mem tmp tmp' s)))"

definition iterate :: "(nat \<Rightarrow> 's \<Rightarrow> 's cres) \<Rightarrow> ('s \<Rightarrow> ut_mem) \<Rightarrow> ptr \<Rightarrow> 's \<Rightarrow> 's cres" where
  "iterate body mem head s =
     bindE (HASH_COUNT (mem s) head) (\<lambda>n.
     bindE (if head \<noteq> None then bindE (hh_at (mem s) head) (\<lambda>h. Inr (next' h)) else Inr None) (\<lambda>tmp.
     HASH_ITER (Suc (unat n)) body mem head tmp s))"

section \<open>The integrity check\<close>

text \<open>\<^verbatim>\<open>HASH_FSCK\<close>, which a build with \<^verbatim>\<open>HASH_DEBUG\<close> runs after every change: \<^verbatim>\<open>HASH_OOPS\<close> ends the process.\<close>

definition HASH_OOPS :: "unit cres" where
  "HASH_OOPS = Inl (ExitProcess (-1))"

fun fsck_chain :: "nat \<Rightarrow> ut_mem \<Rightarrow> ptr \<Rightarrow> ptr \<Rightarrow> u32 \<Rightarrow> u32 cres" where
  "fsck_chain 0 m prv thh bkt_cnt = Inl NoReturn"
| "fsck_chain (Suc fuel) m prv thh bkt_cnt =
     (if thh = None then Inr bkt_cnt
      else bindE (hh_at m thh) (\<lambda>h.
        bindE (if prv \<noteq> hh_prev h then HASH_OOPS else Inr ()) (\<lambda>_. fsck_chain fuel m thh (hh_next h) (bkt_cnt + 1))))"

definition fsck_bucket :: "ut_mem \<Rightarrow> ptr \<Rightarrow> nat \<Rightarrow> nat \<Rightarrow> u32 \<Rightarrow> u32 cres" where
  "fsck_bucket m t fuel i cnt =
     bindE (bucket_at m t (of_nat i)) (\<lambda>b.
     bindE (fsck_chain fuel m None (hh_head b) 0) (\<lambda>bkt_cnt.
     bindE (if bkt_count b \<noteq> bkt_cnt then HASH_OOPS else Inr ()) (\<lambda>_. Inr (cnt + bkt_cnt))))"

fun fsck_app :: "nat \<Rightarrow> ut_mem \<Rightarrow> ptr \<Rightarrow> ptr \<Rightarrow> u32 \<Rightarrow> u32 cres" where
  "fsck_app 0 m prv thh cnt = Inl NoReturn"
| "fsck_app (Suc fuel) m prv thh cnt =
     (if thh = None then Inr cnt
      else bindE (hh_at m thh) (\<lambda>h.
        bindE (if prv \<noteq> prev h then HASH_OOPS else Inr ()) (\<lambda>_. fsck_app fuel m thh (next' h) (cnt + 1))))"

definition HASH_FSCK :: "ut_mem \<Rightarrow> ptr \<Rightarrow> unit cres" where
  "HASH_FSCK m head =
     (if head = None then Inr ()
      else bindE (head_tbl m head) (\<lambda>t. bindE (tbl_at m t) (\<lambda>T.
        let fuel = Suc (unat (num_items T)) in
        bindE (foldE (fsck_bucket m t fuel) [0..<unat (num_buckets T)] 0) (\<lambda>cnt.
        bindE (if cnt \<noteq> num_items T then HASH_OOPS else Inr ()) (\<lambda>_.
        bindE (fsck_app fuel m None head 0) (\<lambda>cnt.
        if cnt \<noteq> num_items T then HASH_OOPS else Inr ()))))))"

end
