(* ===== verification/Uthash_Chains.thy ===== *)
theory Uthash_Chains
  imports Uthash_Table
begin

text \<open>
  The chains of the buckets: which items they hold, and that putting an item in front of a chain and expanding the
  table keep that. Both operations leave everything of the handles but the two chain pointers as it was.
\<close>

section \<open>Fields of the handles\<close>

definition nx :: "ut_mem \<Rightarrow> nat \<Rightarrow> ptr" where "nx m a = next' (the (handles m a))"
definition pv :: "ut_mem \<Rightarrow> nat \<Rightarrow> ptr" where "pv m a = prev (the (handles m a))"
definition hn :: "ut_mem \<Rightarrow> nat \<Rightarrow> ptr" where "hn m a = hh_next (the (handles m a))"
definition hp :: "ut_mem \<Rightarrow> nat \<Rightarrow> ptr" where "hp m a = hh_prev (the (handles m a))"
definition hv :: "ut_mem \<Rightarrow> nat \<Rightarrow> u32" where "hv m a = hashv (the (handles m a))"
definition ekey :: "ut_mem \<Rightarrow> nat \<Rightarrow> bytes" where "ekey m a = key (the (handles m a))"

lemmas field_defs = nx_def pv_def hn_def hp_def hv_def ekey_def

lemma set_hh_simps [simp]:
  "handles (set_hh a f m) = (handles m)(a := map_option f (handles m a))"
  "tables (set_hh a f m) = tables m"
  "handles (set_tbl t g m) = handles m"
  "tables (set_tbl t g m) = (tables m)(t := map_option g (tables m t))"
  by (simp_all add: set_hh_def set_tbl_def)

lemma fields_upd:
  assumes "handles m a = Some h"
  shows "nx (set_hh a f m) = (nx m)(a := next' (f h))" "pv (set_hh a f m) = (pv m)(a := prev (f h))"
    "hn (set_hh a f m) = (hn m)(a := hh_next (f h))" "hp (set_hh a f m) = (hp m)(a := hh_prev (f h))"
    "hv (set_hh a f m) = (hv m)(a := hashv (f h))" "ekey (set_hh a f m) = (ekey m)(a := key (f h))"
  using assms by (auto simp: field_defs fun_eq_iff)

lemma hh_at_Some [simp]: "handles m a = Some h \<Longrightarrow> hh_at m (Some a) = Inr h"
  by (simp add: hh_at_def deref_in_def)

lemma upd_hh_Some: "handles m a \<noteq> None \<Longrightarrow> upd_hh (Some a) f m = Inr (set_hh a f m)"
  by (auto simp: upd_hh_def)

lemma tbl_at_Some [simp]: "tables m t = Some T \<Longrightarrow> tbl_at m (Some t) = Inr T"
  by (simp add: tbl_at_def deref_in_def)

lemma upd_tbl_Some: "tables m t \<noteq> None \<Longrightarrow> upd_tbl (Some t) f m = Inr (set_tbl t f m)"
  by (auto simp: upd_tbl_def)

text \<open>A handle without its chain pointers.\<close>

definition core :: "ut_mem \<Rightarrow> nat \<Rightarrow> UT_hash_handle option" where
  "core m a = map_option (\<lambda>h. h\<lparr>hh_prev := None, hh_next := None\<rparr>) (handles m a)"

definition alive :: "ut_mem \<Rightarrow> nat set" where
  "alive m = dom (handles m)"

lemma alive_iff: "a \<in> alive m \<longleftrightarrow> handles m a \<noteq> None"
  by (simp add: alive_def dom_def)

lemma upd_hh_alive: "a \<in> alive m \<Longrightarrow> upd_hh (Some a) f m = Inr (set_hh a f m)"
  by (simp add: upd_hh_Some alive_iff)

lemma alive_handle: "a \<in> alive m \<Longrightarrow> \<exists>h. handles m a = Some h"
  by (simp add: alive_iff)

lemma alive_upd [simp]: "alive (m\<lparr>tables := x\<rparr>) = alive m" "alive (m\<lparr>tbl_brk := n\<rparr>) = alive m"
  by (simp_all add: alive_def)

lemma alive_set_hh [simp]: "alive (set_hh a f m) = alive m" "alive (set_tbl t g m) = alive m"
  by (auto simp: alive_def dom_def)

lemma handle_core_eq:
  "(h :: UT_hash_handle)\<lparr>hh_prev := None, hh_next := None\<rparr> = h'\<lparr>hh_prev := None, hh_next := None\<rparr> \<longleftrightarrow>
     tbl h = tbl h' \<and> prev h = prev h' \<and> next' h = next' h' \<and> key h = key h' \<and> keylen h = keylen h' \<and> hashv h = hashv h'"
  by (cases h; cases h') auto

lemma core_fields:
  assumes "core m' = core m"
  shows "nx m' = nx m" "pv m' = pv m" "hv m' = hv m" "ekey m' = ekey m" "alive m' = alive m"
proof -
  have "next' (the (handles m' a)) = next' (the (handles m a)) \<and> prev (the (handles m' a)) = prev (the (handles m a)) \<and>
    hashv (the (handles m' a)) = hashv (the (handles m a)) \<and> key (the (handles m' a)) = key (the (handles m a)) \<and>
    (handles m' a = None \<longleftrightarrow> handles m a = None)" for a
    using fun_cong [OF assms, of a] by (cases "handles m a"; cases "handles m' a") (auto simp: core_def handle_core_eq)
  then show "nx m' = nx m" "pv m' = pv m" "hv m' = hv m" "ekey m' = ekey m" "alive m' = alive m"
    by (simp_all add: field_defs fun_eq_iff alive_iff set_eq_iff)
qed

lemma core_handle:
  assumes "core m' = core m" "handles m a = Some h"
  shows "\<exists>h'. handles m' a = Some h' \<and> tbl h' = tbl h \<and> key h' = key h \<and> keylen h' = keylen h \<and> hashv h' = hashv h"
  using fun_cong [OF assms(1), of a] assms(2) by (cases "handles m' a") (auto simp: core_def handle_core_eq)

lemma core_set_hh:
  assumes "\<And>h. (f h)\<lparr>hh_prev := None, hh_next := None\<rparr> = h\<lparr>hh_prev := None, hh_next := None\<rparr>"
  shows "core (set_hh a f m) = core m"
  using assms by (auto simp: core_def fun_eq_iff option.map_comp comp_def)

lemma set_tbl_fields [simp]:
  "nx (set_tbl t g m) = nx m" "pv (set_tbl t g m) = pv m" "hn (set_tbl t g m) = hn m" "hp (set_tbl t g m) = hp m"
  "hv (set_tbl t g m) = hv m" "ekey (set_tbl t g m) = ekey m" "core (set_tbl t g m) = core m"
  by (simp_all add: field_defs core_def fun_eq_iff)

section \<open>Buckets\<close>

lemma unat_to_bkt: "k < 32 \<Longrightarrow> unat (HASH_TO_BKT v (2 ^ k)) = unat v mod 2 ^ k"
proof -
  assume "k < 32"
  have "HASH_TO_BKT v (2 ^ k) = take_bit k v" by (simp add: HASH_TO_BKT_def take_bit_eq_mask mask_eq_exp_minus_1)
  then show ?thesis by (simp only: unsigned_take_bit_eq) (simp add: take_bit_eq_mod)
qed

text \<open>The buckets \<open>bs\<close> hold the items \<open>A\<close> in the chains \<open>C\<close>, each item in the bucket of its hash value.\<close>

definition chains_ok :: "ut_mem \<Rightarrow> UT_hash_bucket list \<Rightarrow> (nat \<Rightarrow> nat list) \<Rightarrow> nat set \<Rightarrow> bool" where
  "chains_ok m bs C A \<longleftrightarrow> (\<forall>i < length bs. hh_head (bs ! i) = first (C i) None \<and> bkt_count (bs ! i) = of_nat (length (C i)) \<and>
     linked (hn m) (hp m) None (C i) None \<and> distinct (C i) \<and> set (C i) = {a \<in> A. unat (hv m a) mod length bs = i})"

lemma chains_okD:
  assumes "chains_ok m bs C A" "i < length bs"
  shows "hh_head (bs ! i) = first (C i) None" "bkt_count (bs ! i) = of_nat (length (C i))" "linked (hn m) (hp m) None (C i) None"
    "distinct (C i)" "set (C i) = {a \<in> A. unat (hv m a) mod length bs = i}"
  using assms by (auto simp: chains_ok_def)

text \<open>Another memory in which the items of the chains look the same.\<close>

lemma chains_ok_cong:
  assumes "chains_ok m bs C A" "\<And>a. a \<in> A \<Longrightarrow> hn m' a = hn m a \<and> hp m' a = hp m a \<and> hv m' a = hv m a"
  shows "chains_ok m' bs C A"
  unfolding chains_ok_def
proof (intro allI impI)
  fix i assume i: "i < length bs"
  note c = chains_okD [OF assms(1) i]
  have "linked (hn m') (hp m') None (C i) None" using c(3) assms(2) c(5) by (subst linked_cong [where nx = "hn m" and pv = "hp m"]) auto
  moreover have "set (C i) = {a \<in> A. unat (hv m' a) mod length bs = i}" using c(5) assms(2) by auto
  ultimately show "hh_head (bs ! i) = first (C i) None \<and> bkt_count (bs ! i) = of_nat (length (C i)) \<and>
     linked (hn m') (hp m') None (C i) None \<and> distinct (C i) \<and> set (C i) = {a \<in> A. unat (hv m' a) mod length bs = i}" using c by auto
qed

text \<open>An item is put in front of its chain; the previous first item points back to it.\<close>

definition push_hh :: "nat \<Rightarrow> ptr \<Rightarrow> ut_mem \<Rightarrow> ut_mem" where
  "push_hh a z m = (let m = set_hh a (\<lambda>h. h\<lparr>hh_next := z, hh_prev := None\<rparr>) m in
     case z of None \<Rightarrow> m | Some b \<Rightarrow> set_hh b (\<lambda>h. h\<lparr>hh_prev := Some a\<rparr>) m)"

lemma push_hh_tables [simp]: "tables (push_hh a z m) = tables m"
  by (simp add: push_hh_def Let_def split: option.split)

lemma core_push: "core (push_hh a z m) = core m"
  by (simp add: push_hh_def Let_def core_set_hh split: option.split)

lemma push_hh_fields:
  assumes "a \<in> alive m" "set_option z \<subseteq> alive m"
  shows "hn (push_hh a z m) = (hn m)(a := z)"
    "hp (push_hh a z m) = (case z of None \<Rightarrow> (hp m)(a := None) | Some b \<Rightarrow> ((hp m)(a := None))(b := Some a))"
  using assms by (auto simp: push_hh_def Let_def alive_iff hn_def hp_def fun_eq_iff split: option.split)

lemma push_hh_run:
  assumes "a \<in> alive m" "set_option z \<subseteq> alive m"
  shows "bindE (upd_hh (Some a) (\<lambda>h. h\<lparr>hh_next := z, hh_prev := None\<rparr>) m) (\<lambda>m.
     bindE (if z \<noteq> None then upd_hh z (\<lambda>h. h\<lparr>hh_prev := Some a\<rparr>) m else Inr m) g) = g (push_hh a z m)"
  using assms by (cases z) (auto simp: upd_hh_Some alive_iff push_hh_def)

lemma chains_push:
  assumes ok: "chains_ok m bs C A" and a: "a \<in> alive m" "a \<notin> A" and sub: "A \<subseteq> alive m" and i: "i = unat (hv m a) mod length bs" "bs \<noteq> []"
    and b: "hh_head b = Some a" "bkt_count b = bkt_count (bs ! i) + 1"
  shows "chains_ok (push_hh a (hh_head (bs ! i)) m) (bs[i := b]) (C(i := a # C i)) (insert a A)"
    "\<And>y. y \<notin> insert a A \<Longrightarrow> hn (push_hh a (hh_head (bs ! i)) m) y = hn m y \<and> hp (push_hh a (hh_head (bs ! i)) m) y = hp m y"
proof -
  have il: "i < length bs" using i by simp
  note c = chains_okD [OF ok il]
  let ?m = "push_hh a (hh_head (bs ! i)) m"
  have z: "z \<in> A" if "hh_head (bs ! i) = Some z" for z
    using that c(1,5) first_mem [of "C i" z] by auto
  have f: "hn ?m = (hn m)(a := first (C i) None)"
    "hp ?m = (case first (C i) None of None \<Rightarrow> (hp m)(a := None) | Some b \<Rightarrow> ((hp m)(a := None))(b := Some a))"
    using push_hh_fields [of a m "hh_head (bs ! i)"] a(1) z sub c(1) by auto
  have v: "hv ?m = hv m" using core_fields(3) [OF core_push] .
  have out: "hn ?m y = hn m y \<and> hp ?m y = hp m y" if "y \<noteq> a" "hh_head (bs ! i) \<noteq> Some y" for y
    using that f c(1) by (auto split: option.split)
  then show "\<And>y. y \<notin> insert a A \<Longrightarrow> hn ?m y = hn m y \<and> hp ?m y = hp m y" using z by blast
  have "hh_head (bs[i := b] ! j) = first ((C(i := a # C i)) j) None \<and> bkt_count (bs[i := b] ! j) = of_nat (length ((C(i := a # C i)) j)) \<and>
      linked (hn ?m) (hp ?m) None ((C(i := a # C i)) j) None \<and> distinct ((C(i := a # C i)) j) \<and>
      set ((C(i := a # C i)) j) = {x \<in> insert a A. unat (hv ?m x) mod length (bs[i := b]) = j}" if j: "j < length (bs[i := b])" for j
  proof (cases "j = i")
    case True
    have "a \<notin> set (C i)" using a(2) c(5) by auto
    then have "linked (hn ?m) (hp ?m) None (a # C i) None" unfolding f using linked_push [OF c(3) _ c(4), of a None] by simp
    then show ?thesis using True c b il i(1) v a(2) by auto
  next
    case False
    note d = chains_okD [OF ok, of j]
    have "linked (hn ?m) (hp ?m) None (C j) None = linked (hn m) (hp m) None (C j) None"
    proof (rule linked_cong)
      fix y assume y: "y \<in> set (C j)"
      have "y \<noteq> a" using y d(5) j a(2) by auto
      moreover have "hh_head (bs ! i) \<noteq> Some y" using y d(5) j c(1,5) False first_mem [of "C i" y] by auto
      ultimately show "hn ?m y = hn m y \<and> hp ?m y = hp m y" by (rule out)
    qed
    then show ?thesis using False d j i(1) v by auto
  qed
  then show "chains_ok ?m (bs[i := b]) (C(i := a # C i)) (insert a A)" by (simp add: chains_ok_def)
qed

end
