(* ===== verification/Uthash_Expand.thy ===== *)
theory Uthash_Expand
  imports Uthash_Chains
begin

text \<open>
  Doubling the number of buckets: every chain is walked and its items are moved to their new buckets, so that
  afterwards the new buckets hold exactly the same items.
\<close>

lemma move_item_moves:
  assumes ok: "chains_ok m nbs D M" and a: "a \<in> alive m" "a \<notin> M" and sub: "M \<subseteq> alive m" and k: "k < 31" "length nbs = 2 ^ Suc k" and ideal: "ideal \<noteq> 0"
  shows "\<exists>m' nbs' D' u'. move_item (2 ^ k) ideal a (m, nbs, u) = Inr (m', nbs', u') \<and> length nbs' = length nbs \<and>
    chains_ok m' nbs' D' (insert a M) \<and> core m' = core m \<and> tables m' = tables m \<and> (\<forall>y. y \<notin> insert a M \<longrightarrow> hn m' y = hn m y \<and> hp m' y = hp m y)"
proof -
  obtain h where h: "handles m a = Some h" using a(1) by (auto simp: alive_iff)
  let ?i = "unat (hashv h) mod length nbs"
  have two: "(2 :: u32) ^ k * 2 = 2 ^ Suc k" by simp
  have ix: "uint (HASH_TO_BKT (hashv h) (2 ^ k * 2)) = int ?i"
    unfolding two uint_nat using unat_to_bkt [of "Suc k" "hashv h"] k by simp
  have i: "?i < length nbs" using k(2) by simp
  have v: "hv m a = hashv h" using h by (simp add: hv_def)
  obtain b where b: "hh_head b = Some a" "bkt_count b = bkt_count (nbs ! ?i) + 1"
    and run: "move_item (2 ^ k) ideal a (m, nbs, u) =
      Inr (push_hh a (hh_head (nbs ! ?i)) m, nbs[?i := b], if bkt_count (nbs ! ?i) + 1 > ideal then u + 1 else u)"
  proof -
    let ?c = "bkt_count (nbs ! ?i) + 1"
    let ?b1 = "(nbs ! ?i)\<lparr>bkt_count := ?c\<rparr>"
    let ?b2 = "if ?c > ideal then ?b1\<lparr>expand_mult := ?c div ideal\<rparr> else ?b1"
    have z: "z \<in> alive m" if "hh_head (nbs ! ?i) = Some z" for z
      using that chains_okD(1,5) [OF ok i] first_mem [of "D ?i" z] sub by auto
    have hd2: "hh_head ?b2 = hh_head (nbs ! ?i)" by simp
    show ?thesis
    proof (rule that [of "?b2\<lparr>hh_head := Some a\<rparr>"])
      show "move_item (2 ^ k) ideal a (m, nbs, u) =
          Inr (push_hh a (hh_head (nbs ! ?i)) m, nbs[?i := ?b2\<lparr>hh_head := Some a\<rparr>], if ?c > ideal then u + 1 else u)"
        unfolding move_item_def prod.case hh_at_Some [OF h] bindE_Inr Let_def ix rd_nat [OF i]
        using a(1) z ideal
        by (cases "?c > ideal"; cases "hh_head (nbs ! ?i)") (simp_all add: upd_hh_Some alive_iff push_hh_def wr_nat [OF i])
    qed simp_all
  qed
  have ne: "nbs \<noteq> []" using i by auto
  note p = chains_push [OF ok a(1) a(2) sub _ ne b, unfolded v, OF refl]
  have "length (nbs[?i := b]) = length nbs" "tables (push_hh a (hh_head (nbs ! ?i)) m) = tables m" by simp_all
  then show ?thesis using run p core_push [of a "hh_head (nbs ! ?i)" m] by blast
qed

lemma move_chain_moves:
  assumes "linked (hn m) (hp m) b c None" "distinct c" "set c \<subseteq> alive m" "set c \<inter> M = {}" "chains_ok m nbs D M" "M \<subseteq> alive m"
    "length c < fuel" "k < 31" "length nbs = 2 ^ Suc k" "ideal \<noteq> 0"
  shows "\<exists>m' nbs' D' u'. move_chain fuel (2 ^ k) ideal (first c None) (m, nbs, u) = Inr (m', nbs', u') \<and> length nbs' = length nbs \<and>
    chains_ok m' nbs' D' (M \<union> set c) \<and> core m' = core m \<and> tables m' = tables m \<and> (\<forall>y. y \<notin> M \<union> set c \<longrightarrow> hn m' y = hn m y \<and> hp m' y = hp m y)"
  using assms
proof (induction c arbitrary: m nbs D M b fuel u)
  case Nil
  then show ?case by (cases fuel) auto
next
  case (Cons a c)
  obtain f where f: "fuel = Suc f" using Cons.prems(7) by (cases fuel) auto
  have a: "a \<in> alive m" "a \<notin> M" using Cons.prems by auto
  then obtain h where h: "handles m a = Some h" by (auto simp: alive_iff)
  obtain m1 nbs1 D1 u1 where one: "move_item (2 ^ k) ideal a (m, nbs, u) = Inr (m1, nbs1, u1)" "length nbs1 = length nbs"
      "chains_ok m1 nbs1 D1 (insert a M)" "core m1 = core m" "tables m1 = tables m" "\<And>y. y \<notin> insert a M \<Longrightarrow> hn m1 y = hn m y \<and> hp m1 y = hp m y"
    using move_item_moves [OF Cons.prems(5) a Cons.prems(6,8,9,10), of u] by blast
  have al: "alive m1 = alive m" using core_fields(5) [OF one(4)] .
  have step: "hh_next h = first c None" using Cons.prems(1) h by (simp add: hn_def)
  have "linked (hn m) (hp m) (Some a) c None" using Cons.prems(1) by simp
  moreover have "hn m1 y = hn m y \<and> hp m1 y = hp m y" if "y \<in> set c" for y
    using one(6) [of y] that Cons.prems(2,4) by auto
  ultimately have "linked (hn m1) (hp m1) (Some a) c None"
    using linked_cong [of c "hn m1" "hn m" "hp m1" "hp m"] by blast
  then obtain m2 nbs2 D2 u2 where rest: "move_chain f (2 ^ k) ideal (first c None) (m1, nbs1, u1) = Inr (m2, nbs2, u2)" "length nbs2 = length nbs1"
      "chains_ok m2 nbs2 D2 (insert a M \<union> set c)" "core m2 = core m1" "tables m2 = tables m1"
      "\<And>y. y \<notin> insert a M \<union> set c \<Longrightarrow> hn m2 y = hn m1 y \<and> hp m2 y = hp m1 y"
    using Cons.IH [of m1 "Some a" "insert a M" nbs1 D1 f u1] Cons.prems one(2,3) a al f by auto
  have "M \<union> set (a # c) = insert a M \<union> set c" by auto
  moreover have "move_chain fuel (2 ^ k) ideal (first (a # c) None) (m, nbs, u) = Inr (m2, nbs2, u2)" using one(1) rest(1) h step f by simp
  moreover have "length nbs2 = length nbs" "core m2 = core m" "tables m2 = tables m" using one(2,4,5) rest(2,4,5) by simp_all
  moreover have "hn m2 y = hn m y \<and> hp m2 y = hp m y" if "y \<notin> insert a M \<union> set c" for y using one(6) [of y] rest(6) [of y] that by simp
  ultimately show ?case using rest(3) by metis
qed

lemma ideal_nonzero:
  assumes "n \<noteq> (0 :: u32)" "k < 31"
  shows "drop_bit (Suc k) n + (if n AND (2 ^ k * 2 - 1) \<noteq> 0 then 1 else 0) \<noteq> 0"
proof -
  have low: "n AND (2 ^ k * 2 - 1) = take_bit (Suc k) n" by (simp add: take_bit_eq_mask mask_eq_exp_minus_1 mult.commute)
  have le: "unat (drop_bit (Suc k) n) \<le> 2 ^ 31 - 1"
  proof -
    have "unat (drop_bit (Suc k) n) = unat n div 2 ^ Suc k" using unat_u32_less [of n] by (simp only: unsigned_drop_bit_eq) (simp add: drop_bit_eq_div take_bit_eq_mod)
    also have "\<dots> \<le> unat n div 2" by (rule div_le_mono2) auto
    also have "\<dots> \<le> 2 ^ 31 - 1" using unat_u32_less [of n] by simp
    finally show ?thesis .
  qed
  show ?thesis
  proof (cases "take_bit (Suc k) n = 0")
    case True
    then have "drop_bit (Suc k) n \<noteq> 0" using assms(1) bits_ident [of "Suc k" n] by (metis add_0 push_bit_of_0)
    then show ?thesis using True by (simp add: low)
  next
    case False
    have "unat (drop_bit (Suc k) n + 1) = Suc (unat (drop_bit (Suc k) n))"
      using le by (simp add: unat_word_ariths)
    then show ?thesis using False by (auto simp: low)
  qed
qed

section \<open>Tables\<close>

text \<open>A table holds the items \<open>A\<close> in its chains \<open>C\<close>; the number of buckets is a power of two.\<close>

definition pow2_table :: "UT_hash_table \<Rightarrow> bool" where
  "pow2_table T \<longleftrightarrow> (\<exists>k \<le> 31. num_buckets T = 2 ^ k \<and> log2_num_buckets T = of_nat k \<and> length (buckets T) = 2 ^ k)"

definition table_ok :: "ut_mem \<Rightarrow> UT_hash_table \<Rightarrow> (nat \<Rightarrow> nat list) \<Rightarrow> nat set \<Rightarrow> bool" where
  "table_ok m T C A \<longleftrightarrow> pow2_table T \<and> chains_ok m (buckets T) C A \<and> finite A \<and> A \<subseteq> alive m \<and> card A < 2 ^ 32 \<and> num_items T = of_nat (card A)"

text \<open>The same without the number of items, which \<^verbatim>\<open>HASH_SELECT\<close> counts late.\<close>

definition chained :: "ut_mem \<Rightarrow> UT_hash_table \<Rightarrow> (nat \<Rightarrow> nat list) \<Rightarrow> nat set \<Rightarrow> bool" where
  "chained m T C A \<longleftrightarrow> pow2_table T \<and> chains_ok m (buckets T) C A \<and> finite A \<and> A \<subseteq> alive m \<and> card A < 2 ^ 32"

lemma table_ok_chained: "table_ok m T C A \<longleftrightarrow> chained m T C A \<and> num_items T = of_nat (card A)"
  by (auto simp: table_ok_def chained_def)

lemma chainedE:
  assumes "chained m T C A"
  obtains k where "k \<le> 31" "num_buckets T = 2 ^ k" "unat (num_buckets T) = 2 ^ k" "log2_num_buckets T = of_nat k" "length (buckets T) = 2 ^ k"
    "chains_ok m (buckets T) C A" "finite A" "A \<subseteq> alive m"
proof -
  obtain k where k: "k \<le> 31" "num_buckets T = 2 ^ k" "log2_num_buckets T = of_nat k" "length (buckets T) = 2 ^ k"
    using assms by (auto simp: chained_def pow2_table_def)
  have "(2::nat) ^ k < 2 ^ 32" using k(1) by (intro power_strict_increasing) auto
  then have "unat ((2::u32) ^ k) = 2 ^ k" using unat_u32_of_nat [of "2 ^ k"] by simp
  then show ?thesis using assms k by (intro that [of k]) (auto simp: chained_def)
qed

lemma table_okE:
  assumes "table_ok m T C A"
  obtains k where "k \<le> 31" "num_buckets T = 2 ^ k" "unat (num_buckets T) = 2 ^ k" "log2_num_buckets T = of_nat k" "length (buckets T) = 2 ^ k"
    "chains_ok m (buckets T) C A" "finite A" "A \<subseteq> alive m" "unat (num_items T) = card A"
proof -
  have c: "chained m T C A" and n: "unat (num_items T) = card A" using assms by (auto simp: table_ok_chained chained_def unat_u32_of_nat)
  from c show ?thesis by (rule chainedE) (rule that, use n in auto)
qed

lemma chained_length:
  assumes "chained m T C A" "i < length (buckets T)"
  shows "length (C i) \<le> card A"
proof -
  from assms(1) have ok: "chains_ok m (buckets T) C A" and A: "finite A" by (auto simp: chained_def)
  have "length (C i) = card (set (C i))" using chains_okD(4) [OF ok assms(2)] by (simp add: distinct_card)
  also have "\<dots> \<le> card A" using chains_okD(5) [OF ok assms(2)] A by (intro card_mono) auto
  finally show ?thesis .
qed

lemmas chain_length = chained_length [OF table_ok_chained [THEN iffD1, THEN conjunct1]]

lemma move_all:
  assumes ok: "chained m T C A" and fuel: "card A < fuel" and t: "tables m t = Some T" and k: "k < 31" "num_buckets T = 2 ^ k" "length (buckets T) = 2 ^ k"
    and ideal: "ideal \<noteq> 0" and j: "j \<le> 2 ^ k"
  shows "\<exists>s. foldE (\<lambda>i s. bindE (bucket_at (fst s) (Some t) (of_nat i)) (\<lambda>b. move_chain fuel (2 ^ k) ideal (hh_head b) s))
      [0..<j] (m, replicate (2 * 2 ^ k) zero_bucket, 0) = Inr s \<and>
    (\<exists>m' nbs u D. s = (m', nbs, u) \<and> length nbs = 2 ^ Suc k \<and> chains_ok m' nbs D (\<Union>i<j. set (C i)) \<and> core m' = core m \<and> tables m' = tables m \<and>
      (\<forall>y. y \<notin> (\<Union>i<j. set (C i)) \<longrightarrow> hn m' y = hn m y \<and> hp m' y = hp m y))"
proof (rule foldE_range [where P = "\<lambda>j s. \<exists>m' nbs u D. s = (m', nbs, u) \<and> length nbs = 2 ^ Suc k \<and> chains_ok m' nbs D (\<Union>i<j. set (C i)) \<and>
      core m' = core m \<and> tables m' = tables m \<and> (\<forall>y. y \<notin> (\<Union>i<j. set (C i)) \<longrightarrow> hn m' y = hn m y \<and> hp m' y = hp m y)"])
  have "chains_ok m (replicate (2 * 2 ^ k) zero_bucket) (\<lambda>_. []) {}" by (simp add: chains_ok_def zero_bucket_def)
  then show "\<exists>m' nbs u D. (m, replicate (2 * 2 ^ k) zero_bucket, 0) = (m', nbs, u) \<and> length nbs = 2 ^ Suc k \<and> chains_ok m' nbs D (\<Union>i<0. set (C i)) \<and>
      core m' = core m \<and> tables m' = tables m \<and> (\<forall>y. y \<notin> (\<Union>i<0. set (C i)) \<longrightarrow> hn m' y = hn m y \<and> hp m' y = hp m y)" by auto
next
  have ch: "chains_ok m (buckets T) C A" and A: "A \<subseteq> alive m" using ok by (auto simp: chained_def)
  fix i and s :: "ut_mem \<times> UT_hash_bucket list \<times> u32"
  assume i: "i < j" and "\<exists>m' nbs u D. s = (m', nbs, u) \<and> length nbs = 2 ^ Suc k \<and> chains_ok m' nbs D (\<Union>i<i. set (C i)) \<and>
      core m' = core m \<and> tables m' = tables m \<and> (\<forall>y. y \<notin> (\<Union>i<i. set (C i)) \<longrightarrow> hn m' y = hn m y \<and> hp m' y = hp m y)"
  then obtain m1 nbs u D where s: "s = (m1, nbs, u)" "length nbs = 2 ^ Suc k" "chains_ok m1 nbs D (\<Union>i<i. set (C i))" "core m1 = core m"
      "tables m1 = tables m" and old: "\<And>y. y \<notin> (\<Union>i<i. set (C i)) \<Longrightarrow> hn m1 y = hn m y \<and> hp m1 y = hp m y" by blast
  have il: "i < length (buckets T)" using i j k(3) by simp
  have sub: "set (C n) = {a \<in> A. unat (hv m a) mod 2 ^ k = n}" if "n \<le> i" for n
    using chains_okD(5) [OF ch, of n] that il k(3) by simp
  have dis: "set (C i) \<inter> (\<Union>i<i. set (C i)) = {}" using sub by auto
  have al: "alive m1 = alive m" using core_fields(5) [OF s(4)] .
  have "uint (of_nat i :: u32) = int i"
  proof -
    have "(2::nat) ^ k < 2 ^ 32" using k(1) by (intro power_strict_increasing) auto
    then have "i < 2 ^ 32" using il k(3) by simp
    then show ?thesis by (simp add: uint_nat unat_u32_of_nat)
  qed
  then have b: "bucket_at m1 (Some t) (of_nat i) = Inr (buckets T ! i)" using s(5) t il by (simp add: bucket_at_def rd_nat)
  have h: "hh_head (buckets T ! i) = first (C i) None" using chains_okD(1) [OF ch il] .
  have "linked (hn m) (hp m) None (C i) None" using chains_okD(3) [OF ch il] .
  moreover have "hn m1 y = hn m y \<and> hp m1 y = hp m y" if "y \<in> set (C i)" for y using old [of y] that dis by blast
  ultimately have l: "linked (hn m1) (hp m1) None (C i) None" using linked_cong [of "C i" "hn m1" "hn m" "hp m1" "hp m"] by blast
  have len: "length (C i) < fuel" using chained_length [OF ok il] fuel by simp
  have "set (C i) \<subseteq> alive m1" "(\<Union>i<i. set (C i)) \<subseteq> alive m1" unfolding al using sub A by auto
  note run = move_chain_moves [OF l chains_okD(4) [OF ch il] this(1) dis s(3) this(2) len k(1) s(2) ideal, of u]
  obtain m2 nbs2 D2 u2 where mv: "move_chain fuel (2 ^ k) ideal (first (C i) None) (m1, nbs, u) = Inr (m2, nbs2, u2)"
      "length nbs2 = length nbs" "chains_ok m2 nbs2 D2 ((\<Union>i<i. set (C i)) \<union> set (C i))" "core m2 = core m1" "tables m2 = tables m1"
      "\<And>y. y \<notin> (\<Union>i<i. set (C i)) \<union> set (C i) \<Longrightarrow> hn m2 y = hn m1 y \<and> hp m2 y = hp m1 y"
    using run by blast
  have un: "(\<Union>i<Suc i. set (C i)) = (\<Union>i<i. set (C i)) \<union> set (C i)" by (auto simp: less_Suc_eq)
  have "hn m2 y = hn m y \<and> hp m2 y = hp m y" if "y \<notin> (\<Union>i<Suc i. set (C i))" for y
    using mv(6) [of y] old [of y] that unfolding un by simp
  then show "\<exists>s'. bindE (bucket_at (fst s) (Some t) (of_nat i)) (\<lambda>b. move_chain fuel (2 ^ k) ideal (hh_head b) s) = Inr s' \<and>
     (\<exists>m' nbs u D. s' = (m', nbs, u) \<and> length nbs = 2 ^ Suc k \<and> chains_ok m' nbs D (\<Union>i<Suc i. set (C i)) \<and>
      core m' = core m \<and> tables m' = tables m \<and> (\<forall>y. y \<notin> (\<Union>i<Suc i. set (C i)) \<longrightarrow> hn m' y = hn m y \<and> hp m' y = hp m y))"
    unfolding un using s mv b h by (auto simp del: move_chain.simps)
qed simp

lemma expand_ok:
  assumes ok: "chained m T C A" and t: "tables m t = Some T" and n0: "num_items T \<noteq> 0" and card: "card A \<le> Suc (unat (num_items T))" and big: "\<not> malloc_ok (2 ^ 36)"
  shows "HASH_EXPAND_BUCKETS malloc_ok (Some t) m = Inl (ExitProcess (-1)) \<or>
    (\<exists>m' T' C'. HASH_EXPAND_BUCKETS malloc_ok (Some t) m = Inr m' \<and> tables m' = (tables m)(t \<mapsto> T') \<and> chained m' T' C' A \<and> core m' = core m \<and> tail T' = tail T \<and>
       num_items T' = num_items T)"
proof (cases "malloc_ok (2 * unat (num_buckets T) * sizeof_hash_bucket)")
  case True
  obtain k where k: "k \<le> 31" "num_buckets T = 2 ^ k" "unat (num_buckets T) = 2 ^ k" "log2_num_buckets T = of_nat k" "length (buckets T) = 2 ^ k"
      "chains_ok m (buckets T) C A" "finite A" "A \<subseteq> alive m" using ok by (rule chainedE)
  have "k \<noteq> 31"
  proof
    assume k31: "k = 31"
    have "2 * unat (num_buckets T) * sizeof_hash_bucket = 2 ^ 36" unfolding k(3) k31 sizeof_hash_bucket_def by simp
    then show False using True big by metis
  qed
  then have lt: "k < 31" using k(1) by simp
  have sk: "(of_nat k + 1 :: u32) = of_nat (Suc k)" "unat (of_nat (Suc k) :: u32) = Suc k" using lt by (simp add: add.commute) (subst unat_u32_of_nat; use lt in simp)
  have shift: "\<not> (of_nat (Suc k) :: u32) \<ge> 32" using lt sk(2) by (simp add: word_le_nat_alt del: of_nat_Suc)
  define ideal where "ideal = drop_bit (Suc k) (num_items T) + (if num_items T AND (2 ^ k * 2 - 1) \<noteq> 0 then 1 else 0)"
  have i0: "ideal \<noteq> 0" unfolding ideal_def by (rule ideal_nonzero [OF n0 lt])
  obtain m1 nbs u D where mv: "foldE (\<lambda>i s. bindE (bucket_at (fst s) (Some t) (of_nat i)) (\<lambda>b. move_chain (Suc (Suc (unat (num_items T)))) (2 ^ k) ideal (hh_head b) s))
      [0..<2 ^ k] (m, replicate (2 * 2 ^ k) zero_bucket, 0) = Inr (m1, nbs, u)" "length nbs = 2 ^ Suc k" "chains_ok m1 nbs D (\<Union>i<2 ^ k. set (C i))"
      "core m1 = core m" "tables m1 = tables m"
    using move_all [OF ok _ t lt k(2,5) i0 order.refl, of "Suc (Suc (unat (num_items T)))"] card by auto
  have "(\<Union>i<2 ^ k. set (C i)) = A"
  proof -
    have "set (C i) = {a \<in> A. unat (hv m a) mod 2 ^ k = i}" if "i < 2 ^ k" for i using chains_okD(5) [OF k(6), of i] that k(5) by simp
    then show ?thesis by auto
  qed
  then have ch: "chains_ok m1 nbs D A" using mv(3) by simp
  define T' where "T' = (let ineff = (if u > drop_bit 1 (num_items T) then ineff_expands T + 1 else 0) in
        T\<lparr>buckets := nbs, num_buckets := 2 ^ k * 2, log2_num_buckets := of_nat (Suc k), ideal_chain_maxlen := ideal,
          nonideal_items := u, ineff_expands := ineff, noexpand := (if ineff > 1 then 1 else noexpand T)\<rparr>)"
  have run: "HASH_EXPAND_BUCKETS malloc_ok (Some t) m = Inr (m1\<lparr>tables := (tables m1)(t \<mapsto> T')\<rparr>)"
    unfolding HASH_EXPAND_BUCKETS_def tbl_at_Some [OF t] bindE_Inr uthash_malloc_def k(4) sk(1)
    using True shift mv(1,5) t
    by (simp add: upd_tbl_Some T'_def set_tbl_def Let_def k(2,4) k(3) [unfolded k(2)] sk ideal_def [symmetric] del: of_nat_Suc move_chain.simps)
  have "chained (m1\<lparr>tables := (tables m1)(t \<mapsto> T')\<rparr>) T' D A"
  proof -
    have same: "hn (m1\<lparr>tables := (tables m1)(t \<mapsto> T')\<rparr>) = hn m1" "hp (m1\<lparr>tables := (tables m1)(t \<mapsto> T')\<rparr>) = hp m1"
      "hv (m1\<lparr>tables := (tables m1)(t \<mapsto> T')\<rparr>) = hv m1" "alive (m1\<lparr>tables := (tables m1)(t \<mapsto> T')\<rparr>) = alive m1"
      by (simp_all add: field_defs fun_eq_iff alive_def)
    have "num_buckets T' = 2 ^ Suc k" "log2_num_buckets T' = of_nat (Suc k)" "buckets T' = nbs" "num_items T' = num_items T"
      by (simp_all add: T'_def Let_def del: of_nat_Suc)
    then show ?thesis using ok lt mv(2) ch core_fields(5) [OF mv(4)] unfolding chained_def pow2_table_def chains_ok_def same
      by (intro conjI exI [of _ "Suc k"]) (auto simp del: of_nat_Suc)
  qed
  moreover have "core (m1\<lparr>tables := (tables m1)(t \<mapsto> T')\<rparr>) = core m" using mv(4) by (simp add: core_def fun_eq_iff)
  moreover have "tail T' = tail T" "num_items T' = num_items T" by (simp_all add: T'_def Let_def)
  ultimately show ?thesis using run mv(5) by auto
next
  case False
  then show ?thesis using t by (simp add: HASH_EXPAND_BUCKETS_def uthash_malloc_def)
qed

end
