(* ===== verification/Uthash_Ops.thy ===== *)
theory Uthash_Ops
  imports Uthash_Expand
begin

text \<open>
  The invariant of a table and its elements in the order of their insertion, and what the operations do to it: finding,
  adding at the end, deleting anywhere, clearing and iterating.
\<close>

section \<open>The invariant\<close>

definition handle_ok :: "(bytes \<Rightarrow> u32) \<Rightarrow> nat \<Rightarrow> UT_hash_handle \<Rightarrow> bool" where
  "handle_ok fcn t h \<longleftrightarrow> tbl h = Some t \<and> length (key h) < 2 ^ 32 \<and> keylen h = of_nat (length (key h)) \<and> hashv h = fcn (key h)"

definition uthash_ok :: "(bytes \<Rightarrow> u32) \<Rightarrow> ut_mem \<Rightarrow> ptr \<Rightarrow> nat list \<Rightarrow> bool" where
  "uthash_ok fcn m head xs \<longleftrightarrow> head = first xs None \<and> distinct xs \<and> linked (nx m) (pv m) None xs None \<and>
     (if xs = [] then tables m = Map.empty
      else \<exists>t T C. tables m = [t \<mapsto> T] \<and> table_ok m T C (set xs) \<and> tail T = Some (last xs) \<and> (\<forall>a \<in> set xs. handle_ok fcn t (the (handles m a))))"

lemma uthash_okI:
  assumes "xs \<noteq> []" "distinct xs" "linked (nx m) (pv m) None xs None" "tables m = [t \<mapsto> T]" "table_ok m T C (set xs)"
    "tail T = Some (last xs)" "\<And>a. a \<in> set xs \<Longrightarrow> handle_ok fcn t (the (handles m a))"
  shows "uthash_ok fcn m (first xs None) xs"
  using assms unfolding uthash_ok_def by auto

lemma uthash_okE:
  assumes "uthash_ok fcn m head xs" "xs \<noteq> []"
  obtains t T C where "head = first xs None" "distinct xs" "linked (nx m) (pv m) None xs None" "tables m = [t \<mapsto> T]" "table_ok m T C (set xs)"
    "tail T = Some (last xs)" "\<And>a. a \<in> set xs \<Longrightarrow> handle_ok fcn t (the (handles m a))" "set xs \<subseteq> alive m"
    "head_tbl m head = Inr (Some t)" "tbl_at m (Some t) = Inr T"
proof -
  obtain t T C where t: "tables m = [t \<mapsto> T]" "table_ok m T C (set xs)" "tail T = Some (last xs)" "\<And>a. a \<in> set xs \<Longrightarrow> handle_ok fcn t (the (handles m a))"
    and h: "head = first xs None" "distinct xs" "linked (nx m) (pv m) None xs None"
    using assms by (auto simp: uthash_ok_def)
  have al: "set xs \<subseteq> alive m" using t(2) by (simp add: table_ok_def)
  obtain a ys where xs: "xs = a # ys" using assms(2) by (cases xs) auto
  then obtain ha where "handles m a = Some ha" using al by (auto simp: alive_iff)
  then have "head_tbl m head = Inr (Some t)" using t(4) [of a] h(1) xs by (simp add: head_tbl_def handle_ok_def)
  moreover have "tbl_at m (Some t) = Inr T" using t(1) by simp
  ultimately show ?thesis using that [OF h t al] by blast
qed

lemma bucket_of:
  assumes "pow2_table T" "tables m t = Some T"
  shows "\<exists>i < length (buckets T). i = unat v mod length (buckets T) \<and> uint (HASH_TO_BKT v (num_buckets T)) = int i \<and>
    bucket_at m (Some t) (HASH_TO_BKT v (num_buckets T)) = Inr (buckets T ! i)"
proof -
  obtain k where k: "k \<le> 31" "num_buckets T = 2 ^ k" "length (buckets T) = 2 ^ k" using assms(1) by (auto simp: pow2_table_def)
  let ?i = "unat v mod length (buckets T)"
  have i: "?i < length (buckets T)" using k(3) by simp
  have u: "uint (HASH_TO_BKT v (num_buckets T)) = int ?i" unfolding uint_nat k(2,3) using unat_to_bkt [of k v] k(1) by simp
  then have "bucket_at m (Some t) (HASH_TO_BKT v (num_buckets T)) = Inr (buckets T ! ?i)"
    using assms(2) rd_nat [OF i] by (simp add: bucket_at_def)
  then show ?thesis using i u by blast
qed

section \<open>Finding\<close>

lemma keycmp:
  assumes "length (key h) < 2 ^ 32" "keylen h = of_nat (length (key h))" "length k < 2 ^ 32"
  shows "(if keylen h = of_nat (length k) then HASH_KEYCMP (key h) k (of_nat (length k)) else Inr False) = Inr (key h = k)"
proof (cases "length (key h) = length k")
  case True
  then show ?thesis using assms by (simp add: HASH_KEYCMP_def rd_slice_def unat_u32_of_nat)
next
  case False
  then have "keylen h \<noteq> of_nat (length k)" using assms unat_u32_of_nat by metis
  then show ?thesis using False by auto
qed

lemma find_in_chain:
  assumes "linked (hn m) (hp m) b c None" "set c \<subseteq> alive m" "\<And>a. a \<in> set c \<Longrightarrow> handle_ok fcn t (the (handles m a))" "length k < 2 ^ 32" "length c < fuel"
  shows "HASH_FIND_IN_BKT fuel m k (first c None) = Inr (find (\<lambda>a. ekey m a = k) c)"
  using assms
proof (induction c arbitrary: b fuel)
  case Nil
  then show ?case by (cases fuel) auto
next
  case (Cons a c)
  obtain f where f: "fuel = Suc f" using Cons.prems(5) by (cases fuel) auto
  obtain h where h: "handles m a = Some h" using Cons.prems(2) by (auto simp: alive_iff)
  have "handle_ok fcn t h" using Cons.prems(3) [of a] h by simp
  then have "(if keylen h = of_nat (length k) then HASH_KEYCMP (key h) k (of_nat (length k)) else Inr False) = Inr (key h = k)"
    using Cons.prems(4) by (intro keycmp) (auto simp: handle_ok_def)
  moreover have "hh_next h = first c None" using Cons.prems(1) h by (simp add: hn_def)
  moreover have "HASH_FIND_IN_BKT f m k (first c None) = Inr (find (\<lambda>a. ekey m a = k) c)"
    using Cons.IH [of "Some a" f] Cons.prems f by auto
  ultimately show ?case using f h by (simp add: ekey_def)
qed

lemma HASH_FIND_finds:
  assumes ok: "uthash_ok fcn m head xs" and k: "length k < 2 ^ 32"
  shows "\<exists>r. HASH_FIND fcn m head k = Inr r \<and> (case r of None \<Rightarrow> \<forall>a \<in> set xs. ekey m a \<noteq> k | Some a \<Rightarrow> a \<in> set xs \<and> ekey m a = k)"
proof (cases "xs = []")
  case True
  then show ?thesis using ok by (simp add: uthash_ok_def HASH_FIND_def)
next
  case False
  obtain t T C where h: "head = first xs None" "tables m = [t \<mapsto> T]" "table_ok m T C (set xs)"
    "\<And>a. a \<in> set xs \<Longrightarrow> handle_ok fcn t (the (handles m a))" "set xs \<subseteq> alive m" "head_tbl m head = Inr (Some t)" "tbl_at m (Some t) = Inr T"
    using ok False by (rule uthash_okE) blast
  have tT: "tables m t = Some T" and p2: "pow2_table T" using h(2,3) by (simp_all add: table_ok_def)
  obtain i where i: "i < length (buckets T)" "i = unat (fcn k) mod length (buckets T)"
      "bucket_at m (Some t) (HASH_TO_BKT (fcn k) (num_buckets T)) = Inr (buckets T ! i)" using bucket_of [OF p2 tT, of "fcn k"] by blast
  have ch: "chains_ok m (buckets T) C (set xs)" and n: "unat (num_items T) = card (set xs)" using h(3) by (auto elim: table_okE)
  note c = chains_okD [OF ch i(1)]
  have "HASH_FIND_IN_BKT (Suc (unat (num_items T))) m k (hh_head (buckets T ! i)) = Inr (find (\<lambda>a. ekey m a = k) (C i))"
    unfolding c(1) n using chain_length [OF h(3) i(1)] c(5) h(4,5) k by (intro find_in_chain [OF c(3)]) auto
  then have run: "HASH_FIND fcn m head k = Inr (find (\<lambda>a. ekey m a = k) (C i))"
    using h(1,6,7) i(3) False by (simp add: HASH_FIND_def del: HASH_FIND_IN_BKT.simps)
  have "a \<in> set (C i)" if "a \<in> set xs" "ekey m a = k" for a
    using c(5) that h(4) [OF that(1)] i(2) by (simp add: handle_ok_def hv_def ekey_def)
  then show ?thesis using run c(5) by (auto simp: find_None_iff find_Some_iff split: option.split dest: nth_mem)
qed

section \<open>Deleting\<close>

text \<open>An element is taken out of its chain, and out of the list, by changes of its neighbours.\<close>

definition unlink_hh :: "ptr \<Rightarrow> ptr \<Rightarrow> ut_mem \<Rightarrow> ut_mem" where
  "unlink_hh p n m = (let m = (case p of None \<Rightarrow> m | Some z \<Rightarrow> set_hh z (\<lambda>x. x\<lparr>hh_next := n\<rparr>) m) in
     case n of None \<Rightarrow> m | Some z \<Rightarrow> set_hh z (\<lambda>x. x\<lparr>hh_prev := p\<rparr>) m)"

definition unlink_app :: "ptr \<Rightarrow> ptr \<Rightarrow> ut_mem \<Rightarrow> ut_mem" where
  "unlink_app p n m = (let m = (case p of None \<Rightarrow> m | Some z \<Rightarrow> set_hh z (\<lambda>x. x\<lparr>next' := n\<rparr>) m) in
     case n of None \<Rightarrow> m | Some z \<Rightarrow> set_hh z (\<lambda>x. x\<lparr>prev := p\<rparr>) m)"

lemma unlink_tables [simp]: "tables (unlink_hh p n m) = tables m" "tables (unlink_app p n m) = tables m"
  by (simp_all add: unlink_hh_def unlink_app_def Let_def split: option.split)

lemma core_unlink: "core (unlink_hh p n m) = core m"
  by (simp add: unlink_hh_def Let_def core_set_hh split: option.split)

lemma unlink_hh_fields:
  assumes "set_option p \<subseteq> alive m" "set_option n \<subseteq> alive m"
  shows "hn (unlink_hh p n m) = (case p of None \<Rightarrow> hn m | Some z \<Rightarrow> (hn m)(z := n))"
    "hp (unlink_hh p n m) = (case n of None \<Rightarrow> hp m | Some z \<Rightarrow> (hp m)(z := p))"
  using assms by (auto simp: unlink_hh_def Let_def alive_iff hn_def hp_def fun_eq_iff split: option.split)

lemma unlink_app_fields:
  assumes "set_option p \<subseteq> alive m" "set_option n \<subseteq> alive m"
  shows "nx (unlink_app p n m) = (case p of None \<Rightarrow> nx m | Some z \<Rightarrow> (nx m)(z := n))"
    "pv (unlink_app p n m) = (case n of None \<Rightarrow> pv m | Some z \<Rightarrow> (pv m)(z := p))"
    "hn (unlink_app p n m) = hn m" "hp (unlink_app p n m) = hp m" "hv (unlink_app p n m) = hv m" "ekey (unlink_app p n m) = ekey m"
    "alive (unlink_app p n m) = alive m"
proof -
  show "alive (unlink_app p n m) = alive m" by (simp add: unlink_app_def Let_def split: option.split)
qed (use assms in \<open>auto simp: unlink_app_def Let_def alive_iff field_defs fun_eq_iff split: option.split\<close>)

lemma unlink_app_handle:
  assumes "set_option p \<subseteq> alive m" "set_option n \<subseteq> alive m" "a \<in> alive m"
  shows "handle_ok fcn t (the (handles (unlink_app p n m) a)) \<longleftrightarrow> handle_ok fcn t (the (handles m a))"
  using assms by (auto simp: unlink_app_def Let_def alive_iff handle_ok_def split: option.split)

lemma unlink_runs:
  assumes "set_option p \<subseteq> alive m" "set_option n \<subseteq> alive m"
  shows "bindE (if p \<noteq> None then upd_hh p (\<lambda>x. x\<lparr>hh_next := n\<rparr>) m else Inr m) (\<lambda>m.
       if n \<noteq> None then upd_hh n (\<lambda>x. x\<lparr>hh_prev := p\<rparr>) m else Inr m) = Inr (unlink_hh p n m)"
    "bindE (if p \<noteq> None then bindE (upd_hh p (\<lambda>h. h\<lparr>next' := n\<rparr>) m) (\<lambda>m. Inr (head, m)) else Inr (n, m)) (\<lambda>(head, m).
       bindE (if n \<noteq> None then upd_hh n (\<lambda>h. h\<lparr>prev := p\<rparr>) m else Inr m) (g head)) = g (if p \<noteq> None then head else n) (unlink_app p n m)"
  using assms by (cases p; cases n; auto simp: upd_hh_Some alive_iff unlink_hh_def unlink_app_def)+

lemma chains_remove:
  assumes ok: "chains_ok m bs C A" and d: "d \<in> A" and sub: "A \<subseteq> alive m" and i: "i = unat (hv m d) mod length bs" "bs \<noteq> []"
    and b: "hh_head b = (if hh_head (bs ! i) = Some d then hn m d else hh_head (bs ! i))" "bkt_count b = bkt_count (bs ! i) - 1"
  shows "chains_ok (unlink_hh (hp m d) (hn m d) m) (bs[i := b]) (C(i := remove1 d (C i))) (A - {d})"
proof -
  have il: "i < length bs" using i by simp
  note c = chains_okD [OF ok il]
  have "d \<in> set (C i)" using c(5) d i(1) by simp
  then obtain us vs where uv: "C i = us @ d # vs" by (auto simp: in_set_conv_decomp)
  have dd: "hp m d = final None us" "hn m d = first vs None" using c(3) uv by (auto simp: linked_append)
  have near: "b \<in> set us" if "hp m d = Some b" for b using that dd(1) final_mem by metis
  have near2: "b \<in> set vs" if "hn m d = Some b" for b using that dd(2) first_mem by metis
  have al: "set_option (hp m d) \<subseteq> alive m" "set_option (hn m d) \<subseteq> alive m"
    using near near2 c(5) sub uv by fastforce+
  note f = unlink_hh_fields [OF al]
  let ?m = "unlink_hh (hp m d) (hn m d) m"
  have v: "hv ?m = hv m" using core_fields(3) [OF core_unlink] .
  have dis: "distinct (us @ d # vs)" using c(4) uv by simp
  have rem: "remove1 d (C i) = us @ vs" using dis uv by (simp add: remove1_append)
  have "hh_head (bs[i := b] ! j) = first ((C(i := us @ vs)) j) None \<and> bkt_count (bs[i := b] ! j) = of_nat (length ((C(i := us @ vs)) j)) \<and>
      linked (hn ?m) (hp ?m) None ((C(i := us @ vs)) j) None \<and> distinct ((C(i := us @ vs)) j) \<and>
      set ((C(i := us @ vs)) j) = {x \<in> A - {d}. unat (hv ?m x) mod length (bs[i := b]) = j}" if j: "j < length (bs[i := b])" for j
  proof (cases "j = i")
    case True
    have "linked (hn m) (hp m) None (us @ d # vs) None" using c(3) uv by simp
    from linked_remove [OF this dis] have "linked (hn ?m) (hp ?m) None (us @ vs) None" by (simp only: f)
    moreover have "hh_head b = first (us @ vs) None"
      using b(1) c(1) uv dis dd(2) by (cases us) auto
    moreover have "set (us @ vs) = {x \<in> A - {d}. unat (hv m x) mod length bs = i}"
    proof -
      have "set (us @ vs) = set (C i) - {d}" using uv dis by auto
      then show ?thesis using c(5) by auto
    qed
    ultimately show ?thesis using True b(2) c(2) il v dis uv by simp
  next
    case False
    note e = chains_okD [OF ok, of j]
    have "linked (hn ?m) (hp ?m) None (C j) None = linked (hn m) (hp m) None (C j) None"
    proof (rule linked_cong)
      fix y assume y: "y \<in> set (C j)"
      then have "y \<notin> set (C i)" using e(5) c(5) False j by auto
      then have "hp m d \<noteq> Some y" "hn m d \<noteq> Some y" using near near2 uv by auto
      then show "hn ?m y = hn m y \<and> hp ?m y = hp m y" by (auto simp: f split: option.split)
    qed
    then show ?thesis using False e j d i(1) v by auto
  qed
  then show ?thesis unfolding rem by (simp add: chains_ok_def)
qed

lemma upd_bucket_run:
  assumes "tables m t = Some T" "i < length (buckets T)" "uint b = int i"
  shows "upd_bucket (Some t) b f m = Inr (set_tbl t (\<lambda>T'. T'\<lparr>buckets := (buckets T)[i := f (buckets T ! i)]\<rparr>) m)"
  using assms by (simp add: upd_bucket_def rd_nat wr_nat upd_tbl_Some)

lemma del_in_bkt:
  assumes p2: "pow2_table T" and t: "tables m t = Some T" and ok: "chains_ok m (buckets T) C A" and d: "d \<in> A" and sub: "A \<subseteq> alive m"
  shows "\<exists>m' bs C'. HASH_DEL_IN_BKT (Some t) (HASH_TO_BKT (hv m d) (num_buckets T)) d m = Inr m' \<and> tables m' = (tables m)(t \<mapsto> T\<lparr>buckets := bs\<rparr>) \<and>
    length bs = length (buckets T) \<and> chains_ok m' bs C' (A - {d}) \<and> core m' = core m"
proof -
  obtain i where i: "i < length (buckets T)" "i = unat (hv m d) mod length (buckets T)" "uint (HASH_TO_BKT (hv m d) (num_buckets T)) = int i"
    using bucket_of [OF p2 t, of "hv m d"] by blast
  obtain h where h: "handles m d = Some h" using d sub alive_handle by blast
  then have hd: "hh_next h = hn m d" "hh_prev h = hp m d" by (simp_all add: field_defs)
  let ?f = "\<lambda>b. b\<lparr>bkt_count := bkt_count b - 1, hh_head := (if hh_head b = Some d then hn m d else hh_head b)\<rparr>"
  let ?bs = "(buckets T)[i := ?f (buckets T ! i)]"
  define m1 where "m1 = set_tbl t (\<lambda>T'. T'\<lparr>buckets := ?bs\<rparr>) m"
  note c = chains_okD [OF ok i(1)]
  have "d \<in> set (C i)" using c(5) d i(2) by simp
  then obtain us vs where uv: "C i = us @ d # vs" by (auto simp: in_set_conv_decomp)
  have "hp m d = final None us" "hn m d = first vs None" using c(3) uv by (auto simp: linked_append)
  then have near: "b \<in> set us" if "hp m d = Some b" for b using that final_mem by metis
  have near2: "b \<in> set vs" if "hn m d = Some b" for b using that \<open>hn m d = first vs None\<close> first_mem by metis
  have al: "set_option (hp m d) \<subseteq> alive m1" "set_option (hn m d) \<subseteq> alive m1"
    using near near2 c(5) sub uv by (fastforce simp: m1_def)+
  have run: "HASH_DEL_IN_BKT (Some t) (HASH_TO_BKT (hv m d) (num_buckets T)) d m = Inr (unlink_hh (hp m d) (hn m d) m1)"
    unfolding HASH_DEL_IN_BKT_def hh_at_Some [OF h] bindE_Inr hd upd_bucket_run [OF t i(1,3)] m1_def [symmetric] by (rule unlink_runs(1) [OF al])
  have "chains_ok m1 (buckets T) C A" using chains_ok_cong [OF ok, of m1] by (simp add: m1_def)
  then have "chains_ok (unlink_hh (hp m1 d) (hn m1 d) m1) ?bs (C(i := remove1 d (C i))) (A - {d})"
    using d sub i by (intro chains_remove) (auto simp: m1_def)
  then have "chains_ok (unlink_hh (hp m d) (hn m d) m1) ?bs (C(i := remove1 d (C i))) (A - {d})" by (simp add: m1_def)
  moreover have "tables (unlink_hh (hp m d) (hn m d) m1) = (tables m)(t \<mapsto> T\<lparr>buckets := ?bs\<rparr>)" using t by (simp add: m1_def)
  moreover have "core (unlink_hh (hp m d) (hn m d) m1) = core m" by (simp add: core_unlink) (simp add: m1_def)
  ultimately show ?thesis using run by (metis length_list_update)
qed

lemma handle_ok_core:
  assumes "core m' = core m" "a \<in> alive m"
  shows "handle_ok fcn t (the (handles m' a)) \<longleftrightarrow> handle_ok fcn t (the (handles m a))"
proof -
  obtain h where h: "handles m a = Some h" using assms(2) alive_handle by blast
  then show ?thesis using core_handle [OF assms(1) h] by (auto simp: handle_ok_def)
qed

lemma first_removed:
  assumes "linked (nx m) (pv m) None (ys @ d # zs) None"
  shows "(if pv m d \<noteq> None then first (ys @ d # zs) None else nx m d) = first (ys @ zs) None"
  using first_remove [OF assms] by auto

text \<open>The rest of the operation, once the element is out of the order of insertion.\<close>

lemma delete_finish:
  assumes xs: "xs = ys @ d # zs" "distinct xs" "ys @ zs \<noteq> []" and lk: "linked (nx m) (pv m) None (ys @ zs) None"
    and tb: "tables m = [t \<mapsto> T]" "table_ok m T C (set xs)" "tail T = Some (last (ys @ zs))" and hs: "\<And>a. a \<in> set xs \<Longrightarrow> handle_ok fcn t (the (handles m a))"
  shows "\<exists>m'. bindE (HASH_DEL_IN_BKT (Some t) (HASH_TO_BKT (hv m d) (num_buckets T)) d m) (upd_tbl (Some t) (\<lambda>T. T\<lparr>num_items := num_items T - 1\<rparr>)) = Inr m' \<and>
    uthash_ok fcn m' (first (ys @ zs) None) (ys @ zs) \<and> ekey m' = ekey m \<and> alive m' = alive m"
proof -
  have T: "pow2_table T" "tables m t = Some T" "chains_ok m (buckets T) C (set xs)" "set xs \<subseteq> alive m" "card (set xs) < 2 ^ 32" "num_items T = of_nat (card (set xs))"
    using tb(1,2) by (simp_all add: table_ok_def)
  have d: "d \<in> set xs" "card (set xs - {d}) = card (set xs) - 1" "0 < card (set xs)" and set4: "set (ys @ zs) = set xs - {d}" using xs(1,2) by (auto simp: card_gt_0_iff)
  obtain m3 bs C' where del: "HASH_DEL_IN_BKT (Some t) (HASH_TO_BKT (hv m d) (num_buckets T)) d m = Inr m3" "tables m3 = (tables m)(t \<mapsto> T\<lparr>buckets := bs\<rparr>)"
    "length bs = length (buckets T)" "chains_ok m3 bs C' (set xs - {d})" "core m3 = core m"
    using del_in_bkt [OF T(1-3) d(1)] T(4) by blast
  define m4 where "m4 = set_tbl t (\<lambda>T. T\<lparr>num_items := num_items T - 1\<rparr>) m3"
  define T4 where "T4 = T\<lparr>buckets := bs, num_items := num_items T - 1\<rparr>"
  note core = core_fields [OF del(5)]
  have "uthash_ok fcn m4 (first (ys @ zs) None) (ys @ zs)"
  proof (rule uthash_okI)
    show "table_ok m4 T4 C' (set (ys @ zs))"
      unfolding table_ok_def set4
    proof (intro conjI)
      show "pow2_table T4" using T(1) del(3) by (simp add: pow2_table_def T4_def)
      show "chains_ok m4 (buckets T4) C' (set xs - {d})" using chains_ok_cong [OF del(4), of m4] by (simp add: m4_def T4_def)
      show "set xs - {d} \<subseteq> alive m4" using T(4) core(5) by (auto simp: m4_def)
      show "card (set xs - {d}) < 2 ^ 32" using T(5) d(2,3) by linarith
      show "num_items T4 = of_nat (card (set xs - {d}))" using T(6) d(2,3) by (simp add: T4_def of_nat_diff)
    qed simp
    show "tables m4 = [t \<mapsto> T4]" using del(2) tb(1) by (simp add: m4_def T4_def)
    show "linked (nx m4) (pv m4) None (ys @ zs) None" using lk core by (simp add: m4_def)
    fix a assume "a \<in> set (ys @ zs)"
    then show "handle_ok fcn t (the (handles m4 a))" using hs [of a] handle_ok_core [OF del(5), of a fcn t] T(4) set4 by (auto simp: m4_def)
  qed (use xs tb(3) in \<open>auto simp: T4_def\<close>)
  moreover have "bindE (HASH_DEL_IN_BKT (Some t) (HASH_TO_BKT (hv m d) (num_buckets T)) d m) (upd_tbl (Some t) (\<lambda>T. T\<lparr>num_items := num_items T - 1\<rparr>)) = Inr m4"
    using del(1,2) tb(1) by (simp add: upd_tbl_Some m4_def)
  ultimately show ?thesis using core by (auto simp: m4_def)
qed

text \<open>The element is taken out of the order of insertion; its bucket still has it.\<close>

lemma delete_unlinks:
  assumes ok: "uthash_ok fcn m head xs" and yz: "xs = ys @ d # zs" and ne: "ys @ zs \<noteq> []" and T: "tables m = [t \<mapsto> T]"
  defines "T1 \<equiv> if tail T = Some d then T\<lparr>tail := pv m d\<rparr> else T"
  defines "m1 \<equiv> set_tbl t (\<lambda>T. if tail T = Some d then T\<lparr>tail := pv m d\<rparr> else T) m"
  defines "m2 \<equiv> unlink_app (pv m d) (nx m d) m1"
  shows "set_option (pv m d) \<subseteq> alive m1" "set_option (nx m d) \<subseteq> alive m1" "hv m2 = hv m" "ekey m2 = ekey m" "alive m2 = alive m" "tables m2 = [t \<mapsto> T1]"
    "tail T1 = Some (last (ys @ zs))" "\<And>a. a \<in> set xs \<Longrightarrow> handle_ok fcn t (the (handles m2 a))" "head_tbl m2 (first (ys @ zs) None) = Inr (Some t)"
    "\<exists>C. table_ok m2 T1 C (set xs)" "linked (nx m2) (pv m2) None (ys @ zs) None"
proof -
  have "xs \<noteq> []" using yz by simp
  with ok obtain t' T' C where h: "distinct xs" "linked (nx m) (pv m) None xs None" "tables m = [t' \<mapsto> T']" "table_ok m T' C (set xs)"
    "tail T' = Some (last xs)" "\<And>a. a \<in> set xs \<Longrightarrow> handle_ok fcn t' (the (handles m a))" "set xs \<subseteq> alive m"
    by (rule uthash_okE) blast
  have t: "t' = t" "T' = T" using h(3) T by (auto simp: fun_eq_iff split: if_splits)
  have ends: "pv m d = final None ys" "nx m d = first zs None" using h(2) yz by (auto simp: linked_append)
  show al: "set_option (pv m d) \<subseteq> alive m1" "set_option (nx m d) \<subseteq> alive m1"
    using final_mem [of ys] first_mem [of zs] ends h(7) yz by (auto simp: m1_def)
  note f = unlink_app_fields [OF al, folded m2_def]
  have same: "hn m2 = hn m" "hp m2 = hp m" "hv m2 = hv m" "ekey m2 = ekey m" "alive m2 = alive m" using f(3-7) by (simp_all add: m1_def)
  then show "hv m2 = hv m" "ekey m2 = ekey m" "alive m2 = alive m" by auto
  show "tables m2 = [t \<mapsto> T1]" using T by (simp add: m2_def m1_def T1_def)
  show "tail T1 = Some (last (ys @ zs))"
    using h(1,5) yz ends(1) ne t by (cases "zs = []") (auto simp: T1_def final_last dest: last_in_set)
  show ok2: "handle_ok fcn t (the (handles m2 a))" if "a \<in> set xs" for a
    unfolding m2_def using unlink_app_handle [of "pv m d" m1 "nx m d" a fcn t, OF al] h(6) [OF that] h(7) that t by (auto simp: m1_def)
  show "head_tbl m2 (first (ys @ zs) None) = Inr (Some t)"
  proof -
    obtain a where a: "first (ys @ zs) None = Some a" "a \<in> set xs" using ne yz by (cases ys; cases zs) auto
    then obtain ha where "handles m2 a = Some ha" using h(7) same(5) alive_handle by blast
    then show ?thesis using ok2 [OF a(2)] a(1) by (simp add: head_tbl_def handle_ok_def del: first_append)
  qed
  have "chains_ok m2 (buckets T1) C (set xs)" using h(4) chains_ok_cong [of m "buckets T" C "set xs" m2] same t by (simp add: table_ok_def T1_def)
  then have "table_ok m2 T1 C (set xs)" using h(4) same(5) t by (simp add: table_ok_def T1_def pow2_table_def)
  then have "\<exists>C. table_ok m2 T1 C (set xs)" by blast
  then show "\<exists>C. table_ok m2 T1 C (set xs)" .
  have "nx m1 = nx m" "pv m1 = pv m" by (simp_all add: m1_def)
  then show "linked (nx m2) (pv m2) None (ys @ zs) None" unfolding f(1,2) using linked_remove h(1,2) unfolding yz by metis
qed

lemma HASH_DELETE_deletes:
  assumes ok: "uthash_ok fcn m head xs" and d: "d \<in> set xs"
  shows "\<exists>head' m'. HASH_DELETE d head m = Inr (head', m') \<and> uthash_ok fcn m' head' (remove1 d xs) \<and> ekey m' = ekey m \<and> alive m' = alive m"
proof -
  have ne: "xs \<noteq> []" using d by auto
  obtain t T C where h: "head = first xs None" "distinct xs" "linked (nx m) (pv m) None xs None" "tables m = [t \<mapsto> T]"
    "set xs \<subseteq> alive m" "head_tbl m head = Inr (Some t)" "tbl_at m (Some t) = Inr T"
    using ok ne by (rule uthash_okE) blast
  obtain ys zs where yz: "xs = ys @ d # zs" using d by (auto simp: in_set_conv_decomp)
  obtain g where g: "handles m d = Some g" using d h(5) alive_handle by blast
  have pn: "prev g = pv m d" "next' g = nx m d" "hashv g = hv m d" using g by (simp_all add: field_defs)
  have ends: "pv m d = final None ys" "nx m d = first zs None" using h(3) yz by (auto simp: linked_append)
  have rem: "remove1 d xs = ys @ zs" using h(2) yz by (simp add: remove1_append)
  show ?thesis
  proof (cases "ys @ zs = []")
    case True
    then have "HASH_DELETE d head m = Inr (None, m\<lparr>tables := (tables m)(t := None)\<rparr>)"
      using g pn ends h(6,7) by (simp add: HASH_DELETE_def)
    moreover have "uthash_ok fcn (m\<lparr>tables := (tables m)(t := None)\<rparr>) None (remove1 d xs)" using True rem h(4) by (simp add: uthash_ok_def)
    ultimately show ?thesis by (auto simp: field_defs fun_eq_iff alive_def)
  next
    case False
    define T1 where "T1 = (if tail T = Some d then T\<lparr>tail := pv m d\<rparr> else T)"
    define m1 where "m1 = set_tbl t (\<lambda>T. if tail T = Some d then T\<lparr>tail := pv m d\<rparr> else T) m"
    define m2 where "m2 = unlink_app (pv m d) (nx m d) m1"
    note u = delete_unlinks [OF ok yz False h(4), folded T1_def m1_def, folded m2_def]
    obtain C where C: "table_ok m2 T1 C (set xs)" using u(10) by blast
    obtain m4 where m4: "bindE (HASH_DEL_IN_BKT (Some t) (HASH_TO_BKT (hv m2 d) (num_buckets T1)) d m2) (upd_tbl (Some t) (\<lambda>T. T\<lparr>num_items := num_items T - 1\<rparr>)) = Inr m4"
        "uthash_ok fcn m4 (first (ys @ zs) None) (ys @ zs)" "ekey m4 = ekey m2" "alive m4 = alive m2"
      using delete_finish [OF yz h(2) False u(11,6) C u(7,8)] by blast
    have two: "\<not> (pv m d = None \<and> nx m d = None)" using ends False by simp
    have tl': "upd_tbl (Some t) (\<lambda>T. if tail T = Some d then T\<lparr>tail := pv m d\<rparr> else T) m = Inr m1" using h(4) by (simp add: upd_tbl_Some m1_def)
    have hd': "(if pv m d \<noteq> None then head else nx m d) = first (ys @ zs) None" using first_removed [of m ys d zs] h(3) unfolding h(1) yz by blast
    have "HASH_DELETE d head m = Inr (first (ys @ zs) None, m4)"
      unfolding HASH_DELETE_def hh_at_Some [OF g] bindE_Inr pn if_not_P [OF two] h(6) tl' unlink_runs(2) [of "pv m d" m1 "nx m d" head, OF u(1,2)] m2_def [symmetric] hd' u(9)
      using u(3,6) m4(1) by (simp add: bindE_eq_Inr del: first_append)
    then show ?thesis using m4(2-4) u(4,5) rem by auto
  qed
qed

section \<open>Adding\<close>

text \<open>The element joins the chain of its bucket. The number of items already counts it. The process can only end when
  the bucket was full.\<close>

definition crowded :: "UT_hash_table \<Rightarrow> u32 \<Rightarrow> bool" where
  "crowded T v \<longleftrightarrow> (let b = buckets T ! (unat v mod length (buckets T)) in bkt_count b + 1 \<ge> (expand_mult b + 1) * HASH_BKT_CAPACITY_THRESH)"

lemma add_to_bkt:
  assumes p2: "pow2_table T" and t: "tables m t = Some T" and ok: "chains_ok m (buckets T) C A" and a: "a \<in> alive m" "a \<notin> A" and sub: "A \<subseteq> alive m"
    and fin: "finite A" "card A < 2 ^ 32 - 1" "card A \<le> unat (num_items T)" "crowded T (hv m a) \<longrightarrow> num_items T \<noteq> 0" and big: "\<not> malloc_ok (2 ^ 36)"
  shows "HASH_ADD_TO_BKT malloc_ok (Some t) (HASH_TO_BKT (hv m a) (num_buckets T)) a m = Inl (ExitProcess (-1)) \<and> crowded T (hv m a) \<or>
    (\<exists>m' T' C'. HASH_ADD_TO_BKT malloc_ok (Some t) (HASH_TO_BKT (hv m a) (num_buckets T)) a m = Inr m' \<and> tables m' = (tables m)(t \<mapsto> T') \<and>
       chained m' T' C' (insert a A) \<and> core m' = core m \<and> tail T' = tail T \<and> num_items T' = num_items T)"
proof -
  obtain i where i: "i < length (buckets T)" "i = unat (hv m a) mod length (buckets T)" "uint (HASH_TO_BKT (hv m a) (num_buckets T)) = int i"
      "bucket_at m (Some t) (HASH_TO_BKT (hv m a) (num_buckets T)) = Inr (buckets T ! i)" using bucket_of [OF p2 t, of "hv m a"] by blast
  let ?z = "hh_head (buckets T ! i)"
  let ?f = "\<lambda>b. b\<lparr>bkt_count := bkt_count b + 1, hh_head := Some a\<rparr>"
  let ?bs = "(buckets T)[i := ?f (buckets T ! i)]"
  have z: "set_option ?z \<subseteq> alive m" using chains_okD(1,5) [OF ok i(1)] first_mem [of "C i"] sub by auto
  define m1 where "m1 = push_hh a ?z m"
  define m2 where "m2 = set_tbl t (\<lambda>T'. T'\<lparr>buckets := ?bs\<rparr>) m1"
  define T2 where "T2 = T\<lparr>buckets := ?bs\<rparr>"
  have t1: "tables m1 t = Some T" using t by (simp add: m1_def)
  have t2: "tables m2 = (tables m)(t \<mapsto> T2)" using t by (simp add: m2_def m1_def T2_def)
  have core2: "core m2 = core m" by (simp add: m2_def m1_def core_push)
  have ne: "buckets T \<noteq> []" using i(1) by auto
  have "chains_ok m1 ?bs (C(i := a # C i)) (insert a A)"
    unfolding m1_def using chains_push(1) [OF ok a sub i(2) ne, of "?f (buckets T ! i)"] by simp
  then have ch: "chains_ok m2 (buckets T2) (C(i := a # C i)) (insert a A)" using chains_ok_cong [of m1 ?bs _ "insert a A" m2] by (simp add: m2_def T2_def)
  have "pow2_table T2" using p2 by (simp add: pow2_table_def T2_def)
  then have ok2: "chained m2 T2 (C(i := a # C i)) (insert a A)"
    unfolding chained_def using ch fin a sub core_fields(5) [OF core2] by (simp add: T2_def)
  have up: "upd_bucket (Some t) (HASH_TO_BKT (hv m a) (num_buckets T)) ?f m1 = Inr m2" using upd_bucket_run [OF t1 i(1,3)] by (simp add: m2_def)
  have run: "HASH_ADD_TO_BKT malloc_ok (Some t) (HASH_TO_BKT (hv m a) (num_buckets T)) a m =
      (if crowded T (hv m a) \<and> noexpand T \<noteq> 1 then HASH_EXPAND_BUCKETS malloc_ok (Some t) m2 else Inr m2)"
  proof -
    have "bucket_at m2 (Some t) (HASH_TO_BKT (hv m a) (num_buckets T)) = Inr (?bs ! i)" "tbl_at m2 (Some t) = Inr T2"
      using t2 i(1) by (simp_all add: bucket_at_def i(3) rd_nat T2_def)
    then show ?thesis
      unfolding HASH_ADD_TO_BKT_def i(4) bindE_Inr push_hh_run [OF a(1) z] m1_def [symmetric] up
      using i(1,2) by (simp add: crowded_def T2_def)
  qed
  have t2': "tables m2 t = Some T2" using t2 by simp
  show ?thesis
  proof (cases "crowded T (hv m a) \<and> noexpand T \<noteq> 1")
    case True
    have "num_items T2 \<noteq> 0" "card (insert a A) \<le> Suc (unat (num_items T2))" using fin True a(2) by (auto simp: T2_def)
    from expand_ok [OF ok2 t2' this, of malloc_ok] big
    show ?thesis using run True t2 core2 by (auto simp: T2_def)
  next
    case False
    then show ?thesis using run t2 ok2 core2 by (auto simp: T2_def)
  qed
qed

text \<open>The element is linked behind the last one, or becomes the head of a new table.\<close>

definition add_link :: "bytes \<Rightarrow> nat \<Rightarrow> ptr \<Rightarrow> ut_mem \<Rightarrow> ut_mem" where
  "add_link k a last' m =
     (let m = set_hh a (\<lambda>h. h\<lparr>next' := None, key := k, keylen := of_nat (length k)\<rparr>) m in
      let m = (case last' of None \<Rightarrow> m | Some z \<Rightarrow> set_hh z (\<lambda>h. h\<lparr>next' := Some a\<rparr>) m) in
      set_hh a (\<lambda>h. h\<lparr>prev := last'\<rparr>) m)"

lemma add_link_simps [simp]: "tables (add_link k a l m) = tables m" "alive (add_link k a l m) = alive m"
  by (simp_all add: add_link_def Let_def split: option.split)

lemma add_link_fields:
  assumes "a \<in> alive m" "set_option l \<subseteq> alive m" "l \<noteq> Some a"
  shows "nx (add_link k a l m) = (case l of None \<Rightarrow> (nx m)(a := None) | Some z \<Rightarrow> ((nx m)(a := None))(z := Some a))"
    "pv (add_link k a l m) = (pv m)(a := l)" "hn (add_link k a l m) = hn m" "hp (add_link k a l m) = hp m"
    "hv (add_link k a l m) = hv m" "ekey (add_link k a l m) = (ekey m)(a := k)"
  using assms by (auto simp: add_link_def Let_def alive_iff field_defs fun_eq_iff split: option.split)

lemma add_link_handle:
  assumes "a \<in> alive m" "set_option l \<subseteq> alive m" "l \<noteq> Some a"
  shows "b \<noteq> a \<Longrightarrow> b \<in> alive m \<Longrightarrow> handle_ok fcn t (the (handles (add_link k a l m) b)) \<longleftrightarrow> handle_ok fcn t (the (handles m b))"
    "key (the (handles (add_link k a l m) a)) = k" "keylen (the (handles (add_link k a l m) a)) = of_nat (length k)"
  using assms by (auto simp: add_link_def Let_def alive_iff handle_ok_def split: option.split)

text \<open>The rest of the operation, once the element is linked and the table counts it.\<close>

lemma add_finish:
  assumes lk: "linked (nx m) (pv m) None (xs @ [a]) None" "distinct (xs @ [a])" and tb: "tables m = [t \<mapsto> T]" "pow2_table T" "tail T = Some a"
      "num_items T = of_nat (Suc (length xs))" and ch: "chains_ok m (buckets T) C (set xs)" and al: "set (xs @ [a]) \<subseteq> alive m"
    and hs: "\<And>b. b \<in> set xs \<Longrightarrow> handle_ok fcn t (the (handles m b))" and ka: "key (the (handles m a)) = k" "keylen (the (handles m a)) = of_nat (length k)"
    and len: "length k < 2 ^ 32" "length xs < 2 ^ 32 - 1" and big: "\<not> malloc_ok (2 ^ 36)"
  defines "m1 \<equiv> set_hh a (\<lambda>h. h\<lparr>tbl := Some t, hashv := fcn k\<rparr>) m"
  shows "HASH_ADD_TO_BKT malloc_ok (Some t) (HASH_TO_BKT (fcn k) (num_buckets T)) a m1 = Inl (ExitProcess (-1)) \<and> crowded T (fcn k) \<or>
    (\<exists>m'. HASH_ADD_TO_BKT malloc_ok (Some t) (HASH_TO_BKT (fcn k) (num_buckets T)) a m1 = Inr m' \<and>
      uthash_ok fcn m' (first (xs @ [a]) None) (xs @ [a]) \<and> ekey m' = ekey m \<and> alive m' = alive m)"
proof -
  obtain h where h: "handles m a = Some h" using al alive_handle by fastforce
  have f: "nx m1 = nx m" "pv m1 = pv m" "hn m1 = hn m" "hp m1 = hp m" "hv m1 = (hv m)(a := fcn k)" "ekey m1 = ekey m" "alive m1 = alive m" "tables m1 = tables m"
    using fields_upd [OF h, of "\<lambda>h. h\<lparr>tbl := Some t, hashv := fcn k\<rparr>"] h by (auto simp: m1_def field_defs fun_eq_iff)
  have a: "a \<notin> set xs" "a \<in> alive m1" using lk(2) al f(7) by auto
  have ch1: "chains_ok m1 (buckets T) C (set xs)" by (rule chains_ok_cong [OF ch]) (use f a(1) in auto)
  have t1: "tables m1 t = Some T" using f(8) tb(1) by simp
  have sub: "set xs \<subseteq> alive m1" using al f(7) by auto
  have card: "card (set xs) = length xs" using lk(2) by (simp add: distinct_card)
  have v: "hv m1 a = fcn k" using f(5) by simp
  have n: "card (set xs) < 2 ^ 32 - 1" "unat (num_items T) = Suc (card (set xs))" unfolding tb(4) card using len(2) by (simp, subst unat_u32_of_nat) auto
  then have "card (set xs) \<le> unat (num_items T)" "crowded T (hv m1 a) \<longrightarrow> num_items T \<noteq> 0" by auto
  from add_to_bkt [where malloc_ok = malloc_ok, OF tb(2) t1 ch1 a(2,1) sub finite_set n(1) this big, unfolded v]
  show ?thesis
  proof (elim disjE exE conjE)
    fix m' T' C' assume run: "HASH_ADD_TO_BKT malloc_ok (Some t) (HASH_TO_BKT (fcn k) (num_buckets T)) a m1 = Inr m'"
      "tables m' = (tables m1)(t \<mapsto> T')" "chained m' T' C' (insert a (set xs))" "core m' = core m1" "tail T' = tail T" "num_items T' = num_items T"
    note g = core_fields [OF run(4)]
    have "uthash_ok fcn m' (first (xs @ [a]) None) (xs @ [a])"
    proof (rule uthash_okI)
      show "tables m' = [t \<mapsto> T']" using run(2) f(8) tb(1) by simp
      show "linked (nx m') (pv m') None (xs @ [a]) None" using lk(1) g f by simp
      show "table_ok m' T' C' (set (xs @ [a]))" using run(3,6) tb(4) card a(1) by (simp add: table_ok_chained)
      show "tail T' = Some (last (xs @ [a]))" using run(5) tb(3) by simp
      fix b assume b: "b \<in> set (xs @ [a])"
      have "handle_ok fcn t (the (handles m1 b))"
        using b hs [of b] h ka len(1) a(1) by (cases "b = a") (auto simp: m1_def handle_ok_def)
      then show "handle_ok fcn t (the (handles m' b))" using handle_ok_core [OF run(4), of b] b al f(7) by auto
    qed (use lk(2) in auto)
    then show ?thesis using run(1) g f by auto
  qed blast
qed

lemma add_first:
  assumes ok: "uthash_ok fcn m head xs" and a: "a \<in> alive m" "a \<notin> set xs" and len: "length k < 2 ^ 32" "length xs < 2 ^ 32 - 1" and big: "\<not> malloc_ok (2 ^ 36)" and True: "xs = []"
  shows "HASH_ADD_KEYPTR fcn malloc_ok k a head m = Inl (ExitProcess (-1)) \<and> \<not> (malloc_ok sizeof_hash_table \<and> malloc_ok 512) \<or>
    (\<exists>head' m'. HASH_ADD_KEYPTR fcn malloc_ok k a head m = Inr (head', m') \<and> uthash_ok fcn m' head' (xs @ [a]) \<and>
      ekey m' = (ekey m)(a := k) \<and> alive m' = alive m)"
proof -
  have hd: "head = None" "tables m = Map.empty" using ok True by (auto simp: uthash_ok_def)
  define m1 where "m1 = add_link k a None m"
  have m1: "m1 = set_hh a (\<lambda>h. h\<lparr>prev := None\<rparr>) (set_hh a (\<lambda>h. h\<lparr>next' := None, key := k, keylen := of_nat (length k)\<rparr>) m)"
    by (simp add: m1_def add_link_def)
  define t where "t = tbl_brk m1"
  define m2 where "m2 = set_hh a (\<lambda>h. h\<lparr>tbl := Some t\<rparr>) (m1\<lparr>tables := (tables m1)(t \<mapsto> new_table a), tbl_brk := Suc t\<rparr>)"
  define T where "T = new_table a\<lparr>num_items := 1\<rparr>"
  define m3 where "m3 = set_tbl t (\<lambda>T. T\<lparr>num_items := num_items T + 1\<rparr>) m2"
  have al: "a \<in> alive m1" "a \<in> alive m2" "a \<in> alive m3" "alive m3 = alive m" using a(1) by (simp_all add: m1_def m2_def m3_def)
  obtain h where h: "handles m1 a = Some h" using al(1) alive_handle by blast
  have tm: "tables m3 = [t \<mapsto> T]" using hd(2) by (simp add: m3_def m2_def m1_def T_def new_table_def)
  have f1: "nx m1 = (nx m)(a := None)" "pv m1 = (pv m)(a := None)" "ekey m1 = (ekey m)(a := k)"
    using add_link_fields [of a m None k] a(1) by (simp_all add: m1_def)
  have f3: "nx m3 = nx m1" "pv m3 = pv m1" "ekey m3 = ekey m1" using h by (auto simp: m3_def m2_def field_defs fun_eq_iff)
  have fresh: "pow2_table T" "tail T = Some a" "num_items T = of_nat (Suc (length []))" "chains_ok m3 (buckets T) (\<lambda>_. []) (set [])"
    by (auto simp: T_def new_table_def pow2_table_def HASH_INITIAL_NUM_BUCKETS_def HASH_INITIAL_NUM_BUCKETS_LOG2_def chains_ok_def zero_bucket_def intro: exI [of _ 5])
  have keys: "key (the (handles m3 a)) = k" "keylen (the (handles m3 a)) = of_nat (length k)"
    using add_link_handle(2,3) [of a m None k] a(1) h by (simp_all add: m3_def m2_def m1_def)
  have lk: "linked (nx m3) (pv m3) None ([] @ [a]) None" "distinct ([] @ [a])" "set ([] @ [a]) \<subseteq> alive m3" using f3 f1 al(3) by simp_all
  let ?mal = "uthash_malloc malloc_ok sizeof_hash_table" and ?mal2 = "uthash_malloc malloc_ok (unat HASH_INITIAL_NUM_BUCKETS * sizeof_hash_bucket)"
  have run: "HASH_ADD_KEYPTR fcn malloc_ok k a head m = bindE ?mal (\<lambda>_. bindE ?mal2 (\<lambda>_.
      bindE (HASH_ADD_TO_BKT malloc_ok (Some t) (HASH_TO_BKT (fcn k) (num_buckets T)) a (set_hh a (\<lambda>h. h\<lparr>tbl := Some t, hashv := fcn k\<rparr>) m3)) (\<lambda>m. Inr (Some a, m))))"
  proof -
    have u1: "upd_hh (Some a) (\<lambda>h. h\<lparr>next' := None, key := k, keylen := of_nat (length k)\<rparr>) m = Inr (set_hh a (\<lambda>h. h\<lparr>next' := None, key := k, keylen := of_nat (length k)\<rparr>) m)"
      using a(1) by (simp add: upd_hh_Some alive_iff)
    have u2: "upd_hh (Some a) (\<lambda>h. h\<lparr>prev := None\<rparr>) (set_hh a (\<lambda>h. h\<lparr>next' := None, key := k, keylen := of_nat (length k)\<rparr>) m) = Inr m1"
      using a(1) by (simp add: upd_hh_Some alive_iff m1)
    have u3: "HASH_MAKE_TABLE malloc_ok a m1 = bindE ?mal (\<lambda>_. bindE ?mal2 (\<lambda>_. Inr m2))"
      unfolding HASH_MAKE_TABLE_def using h by (simp add: upd_hh_Some m2_def t_def)
    have u4: "head_tbl m2 (Some a) = Inr (Some t)" using h by (simp add: head_tbl_def m2_def)
    have u5: "upd_tbl (Some t) (\<lambda>T. T\<lparr>num_items := num_items T + 1\<rparr>) m2 = Inr m3" by (simp add: upd_tbl_Some m2_def m3_def)
    have u6: "upd_hh (Some a) f m3 = Inr (set_hh a f m3)" for f using al(3) by (simp add: upd_hh_Some alive_iff)
    show ?thesis unfolding HASH_ADD_KEYPTR_def u1 hd(1) bindE_Inr u2 u3 by (simp add: bindE_assoc u4 u5 u6 tm)
  qed
  from add_finish [where malloc_ok = malloc_ok, OF lk(1,2) tm fresh lk(3) _ keys len(1) _ big]
  have "HASH_ADD_TO_BKT malloc_ok (Some t) (HASH_TO_BKT (fcn k) (num_buckets T)) a (set_hh a (\<lambda>h. h\<lparr>tbl := Some t, hashv := fcn k\<rparr>) m3) = Inl (ExitProcess (- 1)) \<and> crowded T (fcn k) \<or>
    (\<exists>m'. HASH_ADD_TO_BKT malloc_ok (Some t) (HASH_TO_BKT (fcn k) (num_buckets T)) a (set_hh a (\<lambda>h. h\<lparr>tbl := Some t, hashv := fcn k\<rparr>) m3) = Inr m' \<and>
      uthash_ok fcn m' (Some a) [a] \<and> ekey m' = (ekey m)(a := k) \<and> alive m' = alive m)" using f3(3) f1(3) al(4) by simp
  moreover have "\<not> crowded T (fcn k)"
    by (simp add: crowded_def T_def new_table_def zero_bucket_def HASH_INITIAL_NUM_BUCKETS_def HASH_BKT_CAPACITY_THRESH_def word_le_nat_alt)
  ultimately show ?thesis unfolding run True by (auto simp: uthash_malloc_def HASH_INITIAL_NUM_BUCKETS_def sizeof_hash_bucket_def)
qed

text \<open>The insertion behind the last element, up to the bucket.\<close>

lemma add_last_run:
  assumes ok: "uthash_ok fcn m head xs" and a: "a \<in> alive m" "a \<notin> set xs" and ne: "xs \<noteq> []" and T: "tables m = [t \<mapsto> T]" "tail T = Some (last xs)"
  shows "HASH_ADD_KEYPTR fcn malloc_ok k a head m =
    bindE (HASH_ADD_TO_BKT malloc_ok (Some t) (HASH_TO_BKT (fcn k) (num_buckets (T\<lparr>tail := Some a, num_items := num_items T + 1\<rparr>))) a
      (set_hh a (\<lambda>h. h\<lparr>tbl := Some t, hashv := fcn k\<rparr>) (set_tbl t (\<lambda>T. T\<lparr>num_items := num_items T + 1\<rparr>) (set_tbl t (\<lambda>T. T\<lparr>tail := Some a\<rparr>) (add_link k a (Some (last xs)) m))))) (\<lambda>m. Inr (head, m))"
proof -
  obtain t' T' C where h: "head = first xs None" "tables m = [t' \<mapsto> T']" "\<And>a. a \<in> set xs \<Longrightarrow> handle_ok fcn t' (the (handles m a))" "set xs \<subseteq> alive m" "head_tbl m head = Inr (Some t')"
    using ok ne by (rule uthash_okE) blast
  have t: "t' = t" "T' = T" using h(2) T(1) by (auto simp: fun_eq_iff split: if_splits)
  define z where "z = last xs"
  have z: "z \<in> set xs" "z \<in> alive m" using ne h(4) by (auto simp: z_def)
  define m1 where "m1 = add_link k a (Some z) m"
  define m2 where "m2 = set_tbl t (\<lambda>T. T\<lparr>tail := Some a\<rparr>) m1"
  define m3 where "m3 = set_tbl t (\<lambda>T. T\<lparr>num_items := num_items T + 1\<rparr>) m2"
  have al: "alive m1 = alive m" "alive m2 = alive m" "alive m3 = alive m" by (simp_all add: m1_def m2_def m3_def)
  let ?ma = "set_hh a (\<lambda>h. h\<lparr>next' := None, key := k, keylen := of_nat (length k)\<rparr>) m"
  let ?mb = "set_hh z (\<lambda>h. h\<lparr>next' := Some a\<rparr>) ?ma"
  have m1: "m1 = set_hh a (\<lambda>h. h\<lparr>prev := Some z\<rparr>) ?mb" by (simp add: m1_def add_link_def)
  have u1: "upd_hh (Some a) (\<lambda>h. h\<lparr>next' := None, key := k, keylen := of_nat (length k)\<rparr>) m = Inr ?ma" using a(1) by (simp add: upd_hh_Some alive_iff)
  obtain b where b: "head = Some b" "b \<in> set xs" "b \<noteq> a" using h(1) ne a(2) by (cases xs) auto
  obtain hb where hb: "handles m b = Some hb" using b(2) h(4) alive_handle by blast
  then have tb: "tbl hb = Some t" using h(5) b(1) t(1) by (simp add: head_tbl_def)
  have u2: "head_tbl ?ma head = Inr (Some t)" "head_tbl m2 head = Inr (Some t)" using hb tb b(1,3) by (auto simp: head_tbl_def hh_at_def deref_in_def m2_def m1)
  have u3: "upd_hh (Some z) f ?ma = Inr (set_hh z f ?ma)" "upd_hh (Some a) f ?mb = Inr (set_hh a f ?mb)" "upd_hh (Some a) f m3 = Inr (set_hh a f m3)" for f
    using z(2) a(1) by (simp_all add: upd_hh_alive al(3))
  have u4: "upd_tbl (Some t) (\<lambda>T. T\<lparr>tail := Some a\<rparr>) m1 = Inr m2" "upd_tbl (Some t) (\<lambda>T. T\<lparr>num_items := num_items T + 1\<rparr>) m2 = Inr m3"
    using T(1) by (simp_all add: upd_tbl_Some m1_def m2_def m3_def)
  have u5: "tbl_at ?ma (Some t) = Inr T" "tables m3 = [t \<mapsto> T\<lparr>tail := Some a, num_items := num_items T + 1\<rparr>]" using T(1) by (simp_all add: m3_def m2_def m1_def)
  have "HASH_ADD_KEYPTR fcn malloc_ok k a head m =
      bindE (HASH_ADD_TO_BKT malloc_ok (Some t) (HASH_TO_BKT (fcn k) (num_buckets T)) a (set_hh a (\<lambda>h. h\<lparr>tbl := Some t, hashv := fcn k\<rparr>) m3)) (\<lambda>m. Inr (head, m))"
    unfolding HASH_ADD_KEYPTR_def u1 bindE_Inr u2 u5(1) T(2) z_def [symmetric] u3(1,2) m1 [symmetric] u4(1) using b(1) by (simp add: u2 [unfolded b(1)] u4 u3 u5)
  then show ?thesis by (simp add: m3_def m2_def m1_def z_def)
qed

lemma add_last:
  assumes ok: "uthash_ok fcn m head xs" and a: "a \<in> alive m" "a \<notin> set xs" and len: "length k < 2 ^ 32" "length xs < 2 ^ 32 - 1" and big: "\<not> malloc_ok (2 ^ 36)" and False: "xs \<noteq> []"
  shows "HASH_ADD_KEYPTR fcn malloc_ok k a head m = Inl (ExitProcess (-1)) \<or>
    (\<exists>head' m'. HASH_ADD_KEYPTR fcn malloc_ok k a head m = Inr (head', m') \<and> uthash_ok fcn m' head' (xs @ [a]) \<and>
      ekey m' = (ekey m)(a := k) \<and> alive m' = alive m)"
proof -
  obtain t T C where h: "head = first xs None" "distinct xs" "linked (nx m) (pv m) None xs None" "tables m = [t \<mapsto> T]" "table_ok m T C (set xs)"
    "tail T = Some (last xs)" "\<And>a. a \<in> set xs \<Longrightarrow> handle_ok fcn t (the (handles m a))" "set xs \<subseteq> alive m" "head_tbl m head = Inr (Some t)" "tbl_at m (Some t) = Inr T"
    using ok False by (rule uthash_okE) blast
  define z where "z = last xs"
  have z: "z \<in> set xs" "z \<noteq> a" "z \<in> alive m" using False a(2) h(8) by (auto simp: z_def)
  have fz: "final None xs = Some z" using False by (simp add: final_last z_def)
  define m1 where "m1 = add_link k a (Some z) m"
  define m2 where "m2 = set_tbl t (\<lambda>T. T\<lparr>tail := Some a\<rparr>) m1"
  define m3 where "m3 = set_tbl t (\<lambda>T. T\<lparr>num_items := num_items T + 1\<rparr>) m2"
  define T3 where "T3 = T\<lparr>tail := Some a, num_items := num_items T + 1\<rparr>"
  have al: "alive m1 = alive m" "alive m2 = alive m" "alive m3 = alive m" by (simp_all add: m1_def m2_def m3_def)
  have tm: "tables m3 = [t \<mapsto> T3]" using h(4) by (simp add: m3_def m2_def m1_def T3_def)
  have "set_option (Some z) \<subseteq> alive m" "Some z \<noteq> Some a" using z by simp_all
  note f1 = add_link_fields [OF a(1) this, of k] and g1 = add_link_handle [OF a(1) this]
  have f3: "nx m3 = nx m1" "pv m3 = pv m1" "ekey m3 = ekey m1" "hn m3 = hn m" "hp m3 = hp m" "hv m3 = hv m" using f1 by (simp_all add: m3_def m2_def m1_def)
  have lk: "linked (nx m3) (pv m3) None (xs @ [a]) None" "distinct (xs @ [a])" "set (xs @ [a]) \<subseteq> alive m3"
    using linked_snoc [OF h(3) a(2) h(2)] fz f1(1,2) f3(1,2) h(2,8) a al(3) by (simp_all add: m1_def)
  have T3: "pow2_table T3" "tail T3 = Some a" "num_items T3 = of_nat (Suc (length xs))" "chains_ok m3 (buckets T3) C (set xs)"
    using h(2,5) chains_ok_cong [of m "buckets T" C "set xs" m3] f3(4-6) by (auto simp: T3_def table_ok_def pow2_table_def distinct_card)
  have hs: "handle_ok fcn t (the (handles m3 b))" if "b \<in> set xs" for b
    using g1(1) [of b fcn t k] that h(7) [OF that] h(8) a(2) by (auto simp: m3_def m2_def m1_def)
  have keys: "key (the (handles m3 a)) = k" "keylen (the (handles m3 a)) = of_nat (length k)" using g1(2,3) by (simp_all add: m3_def m2_def m1_def)
  have run: "HASH_ADD_KEYPTR fcn malloc_ok k a head m =
      bindE (HASH_ADD_TO_BKT malloc_ok (Some t) (HASH_TO_BKT (fcn k) (num_buckets T3)) a (set_hh a (\<lambda>h. h\<lparr>tbl := Some t, hashv := fcn k\<rparr>) m3)) (\<lambda>m. Inr (head, m))"
    unfolding m3_def m2_def m1_def T3_def z_def by (rule add_last_run [OF ok a False h(4,6)])
  have hx: "first (xs @ [a]) None = head" using h(1) False by (cases xs) auto
  have "ekey m3 = (ekey m)(a := k)" using f3(3) f1(6) by (simp add: m1_def)
  with add_finish [where malloc_ok = malloc_ok, OF lk(1,2) tm T3 lk(3) hs keys len big, unfolded hx]
  show ?thesis unfolding run using al(3) by auto
qed

lemma HASH_ADD_adds:
  assumes ok: "uthash_ok fcn m head xs" and a: "a \<in> alive m" "a \<notin> set xs" and len: "length k < 2 ^ 32" "length xs < 2 ^ 32 - 1" and big: "\<not> malloc_ok (2 ^ 36)"
  shows "HASH_ADD_KEYPTR fcn malloc_ok k a head m = Inl (ExitProcess (-1)) \<or>
    (\<exists>head' m'. HASH_ADD_KEYPTR fcn malloc_ok k a head m = Inr (head', m') \<and> uthash_ok fcn m' head' (xs @ [a]) \<and>
      ekey m' = (ekey m)(a := k) \<and> alive m' = alive m)"
  using add_first [where malloc_ok = malloc_ok, OF ok a len big] add_last [where malloc_ok = malloc_ok, OF ok a len big] by blast

end
