(* ===== verification/Uthash_Map.thy ===== *)
theory Uthash_Map
  imports Uthash_Ops
begin

text \<open>
  What users of the table rely on: the contract of a table of keyed elements as the locale \<open>keyed_table\<close>, met by
  uthash for every hash function, and the consequences: any sequence of insertions, searches and deletions
  behaves as on a list of keys and elements, iteration visits the elements in the order of their insertion and may delete them
  on the way, and the integrity check never finds anything.
\<close>

section \<open>The contract of a table of elements\<close>

text \<open>The operations of a client. A deletion finds the element first, as \<^verbatim>\<open>HASH_DELETE\<close> wants the element.\<close>

datatype table_op = Add bytes nat | Find bytes | Del bytes

type_synonym entries = "(bytes \<times> nat) list"

fun spec_op :: "table_op \<Rightarrow> entries \<Rightarrow> ptr \<times> entries" where
  "spec_op (Add k a) es = (None, es @ [(k, a)])"
| "spec_op (Find k) es = (map_of es k, es)"
| "spec_op (Del k) es = (map_of es k, filter (\<lambda>e. fst e \<noteq> k) es)"

fun spec_ops :: "table_op list \<Rightarrow> entries \<Rightarrow> ptr list \<times> entries" where
  "spec_ops [] es = ([], es)"
| "spec_ops (x # xs) es = (let (r, es) = spec_op x es; (rs, es) = spec_ops xs es in (r # rs, es))"

text \<open>The use the documentation asks for: a key or an element is not added while it is in the table; the elements are
  in memory, and there are fewer than \<open>2 ^ 32 - 1\<close>.\<close>

fun op_allowed :: "nat set \<Rightarrow> table_op \<Rightarrow> entries \<Rightarrow> bool" where
  "op_allowed M (Add k a) es \<longleftrightarrow> length k < 2 ^ 32 \<and> k \<notin> fst ` set es \<and> a \<notin> snd ` set es \<and> a \<in> M \<and> length es < 2 ^ 32 - 1"
| "op_allowed M (Find k) es \<longleftrightarrow> length k < 2 ^ 32"
| "op_allowed M (Del k) es \<longleftrightarrow> length k < 2 ^ 32"

fun ops_allowed :: "nat set \<Rightarrow> table_op list \<Rightarrow> entries \<Rightarrow> bool" where
  "ops_allowed M [] es \<longleftrightarrow> True"
| "ops_allowed M (x # xs) es \<longleftrightarrow> op_allowed M x es \<and> ops_allowed M xs (snd (spec_op x es))"

definition remove_found :: "('s \<Rightarrow> bytes \<Rightarrow> ptr cres) \<Rightarrow> (nat \<Rightarrow> 's \<Rightarrow> 's cres) \<Rightarrow> bytes \<Rightarrow> 's \<Rightarrow> (ptr \<times> 's) cres" where
  "remove_found tfind tdel k s = bindE (tfind s k) (\<lambda>r. case r of None \<Rightarrow> Inr (None, s) | Some a \<Rightarrow> bindE (tdel a s) (\<lambda>s. Inr (r, s)))"

fun run_op :: "(bytes \<Rightarrow> nat \<Rightarrow> 's \<Rightarrow> 's cres) \<Rightarrow> ('s \<Rightarrow> bytes \<Rightarrow> ptr cres) \<Rightarrow> (nat \<Rightarrow> 's \<Rightarrow> 's cres) \<Rightarrow> table_op \<Rightarrow> 's \<Rightarrow> (ptr \<times> 's) cres" where
  "run_op tadd tfind tdel (Add k a) s = bindE (tadd k a s) (\<lambda>s. Inr (None, s))"
| "run_op tadd tfind tdel (Find k) s = bindE (tfind s k) (\<lambda>r. Inr (r, s))"
| "run_op tadd tfind tdel (Del k) s = remove_found tfind tdel k s"

fun run_ops :: "(bytes \<Rightarrow> nat \<Rightarrow> 's \<Rightarrow> 's cres) \<Rightarrow> ('s \<Rightarrow> bytes \<Rightarrow> ptr cres) \<Rightarrow> (nat \<Rightarrow> 's \<Rightarrow> 's cres) \<Rightarrow> table_op list \<Rightarrow> 's \<Rightarrow> (ptr list \<times> 's) cres" where
  "run_ops tadd tfind tdel [] s = Inr ([], s)"
| "run_ops tadd tfind tdel (x # xs) s =
     bindE (run_op tadd tfind tdel x s) (\<lambda>(r, s). bindE (run_ops tadd tfind tdel xs s) (\<lambda>(rs, s). Inr (r # rs, s)))"

locale keyed_table =
  fixes holds :: "'s \<Rightarrow> entries \<Rightarrow> bool" and M :: "nat set"
    and tadd :: "bytes \<Rightarrow> nat \<Rightarrow> 's \<Rightarrow> 's cres" and tfind :: "'s \<Rightarrow> bytes \<Rightarrow> ptr cres" and tdel :: "nat \<Rightarrow> 's \<Rightarrow> 's cres"
  assumes add_law: "holds s es \<Longrightarrow> op_allowed M (Add k a) es \<Longrightarrow> tadd k a s = Inl (ExitProcess (-1)) \<or> (\<exists>s'. tadd k a s = Inr s' \<and> holds s' (es @ [(k, a)]))"
    and find_law: "holds s es \<Longrightarrow> length k < 2 ^ 32 \<Longrightarrow> tfind s k = Inr (map_of es k)"
    and del_law: "holds s es \<Longrightarrow> map_of es k = Some a \<Longrightarrow> \<exists>s'. tdel a s = Inr s' \<and> holds s' (filter (\<lambda>e. fst e \<noteq> k) es)"
begin

lemma run_op_spec:
  assumes "holds s es" "op_allowed M x es"
  shows "run_op tadd tfind tdel x s = Inl (ExitProcess (-1)) \<or> (\<exists>s'. run_op tadd tfind tdel x s = Inr (fst (spec_op x es), s') \<and> holds s' (snd (spec_op x es)))"
proof (cases x)
  case (Add k a)
  then show ?thesis using add_law [OF assms(1), of k a] assms(2) by auto
next
  case (Find k)
  then show ?thesis using find_law [OF assms(1), of k] assms by auto
next
  case (Del k)
  have f: "tfind s k = Inr (map_of es k)" using find_law [OF assms(1), of k] assms(2) Del by simp
  show ?thesis
  proof (cases "map_of es k")
    case None
    then have "filter (\<lambda>e. fst e \<noteq> k) es = es" by (auto simp: map_of_eq_None_iff filter_id_conv)
    then show ?thesis using Del f None assms(1) by (simp add: remove_found_def)
  next
    case (Some a)
    then show ?thesis using Del f del_law [OF assms(1) Some] by (auto simp: remove_found_def)
  qed
qed

lemma run_refines:
  assumes "holds s es" "ops_allowed M xs es"
  shows "run_ops tadd tfind tdel xs s = Inl (ExitProcess (-1)) \<or>
    (\<exists>s'. run_ops tadd tfind tdel xs s = Inr (fst (spec_ops xs es), s') \<and> holds s' (snd (spec_ops xs es)))"
  using assms
proof (induction xs arbitrary: s es)
  case (Cons x xs)
  have ok: "op_allowed M x es" "ops_allowed M xs (snd (spec_op x es))" using Cons.prems(2) by simp_all
  obtain r es1 where sp: "spec_op x es = (r, es1)" by (cases "spec_op x es")
  from run_op_spec [OF Cons.prems(1) ok(1)] show ?case
  proof (elim disjE exE conjE)
    fix s1 assume s1: "run_op tadd tfind tdel x s = Inr (fst (spec_op x es), s1)" "holds s1 (snd (spec_op x es))"
    obtain rs es2 where sp2: "spec_ops xs es1 = (rs, es2)" by (cases "spec_ops xs es1")
    from Cons.IH [OF s1(2) ok(2)] show ?thesis using s1(1) sp sp2 by auto
  qed simp
qed simp

end

section \<open>uthash meets it\<close>

text \<open>The state is the pointer to the head and the memory.\<close>

definition table_holds :: "(bytes \<Rightarrow> u32) \<Rightarrow> nat set \<Rightarrow> ptr \<times> ut_mem \<Rightarrow> entries \<Rightarrow> bool" where
  "table_holds fcn M s es \<longleftrightarrow> uthash_ok fcn (snd s) (fst s) (map snd es) \<and> (\<forall>(k, a) \<in> set es. ekey (snd s) a = k) \<and> distinct (map fst es) \<and> M \<subseteq> alive (snd s)"

definition table_add :: "(bytes \<Rightarrow> u32) \<Rightarrow> (nat \<Rightarrow> bool) \<Rightarrow> bytes \<Rightarrow> nat \<Rightarrow> ptr \<times> ut_mem \<Rightarrow> (ptr \<times> ut_mem) cres" where
  "table_add fcn malloc_ok k a = (\<lambda>(head, m). HASH_ADD_KEYPTR fcn malloc_ok k a head m)"

definition table_find :: "(bytes \<Rightarrow> u32) \<Rightarrow> ptr \<times> ut_mem \<Rightarrow> bytes \<Rightarrow> ptr cres" where
  "table_find fcn = (\<lambda>(head, m) k. HASH_FIND fcn m head k)"

definition table_del :: "nat \<Rightarrow> ptr \<times> ut_mem \<Rightarrow> (ptr \<times> ut_mem) cres" where
  "table_del a = (\<lambda>(head, m). HASH_DELETE a head m)"

lemma table_add_law:
  assumes "table_holds fcn M s es" "op_allowed M (Add k a) es" "\<not> malloc_ok (2 ^ 36)"
  shows "table_add fcn malloc_ok k a s = Inl (ExitProcess (-1)) \<or> (\<exists>s'. table_add fcn malloc_ok k a s = Inr s' \<and> table_holds fcn M s' (es @ [(k, a)]))"
proof -
  obtain head m where s: "s = (head, m)" by (cases s)
  have h: "uthash_ok fcn m head (map snd es)" "\<forall>(k, a) \<in> set es. ekey m a = k" "distinct (map fst es)" "M \<subseteq> alive m" using assms(1) s by (auto simp: table_holds_def)
  have o: "length k < 2 ^ 32" "k \<notin> fst ` set es" "a \<notin> snd ` set es" "a \<in> M" "length es < 2 ^ 32 - 1" using assms(2) by auto
  have a: "a \<in> alive m" "a \<notin> set (map snd es)" "length (map snd es) < 2 ^ 32 - 1" using o h(4) by auto
  from HASH_ADD_adds [where malloc_ok = malloc_ok, OF h(1) a(1,2) o(1) a(3) assms(3)]
  show ?thesis
  proof (elim disjE exE conjE)
    fix head' m' assume r: "HASH_ADD_KEYPTR fcn malloc_ok k a head m = Inr (head', m')" "uthash_ok fcn m' head' (map snd es @ [a])" "ekey m' = (ekey m)(a := k)" "alive m' = alive m"
    have "\<forall>(k', a') \<in> set (es @ [(k, a)]). ekey m' a' = k'" using r(3) h(2) o(3) by force
    then have "table_holds fcn M (head', m') (es @ [(k, a)])" using r(2,4) h(3,4) o(2) by (simp add: table_holds_def)
    then show ?thesis using r(1) s by (simp add: table_add_def)
  qed (simp add: table_add_def s)
qed

lemma table_find_law:
  assumes "table_holds fcn M s es" "length k < 2 ^ 32"
  shows "table_find fcn s k = Inr (map_of es k)"
proof -
  obtain head m where s: "s = (head, m)" by (cases s)
  have h: "uthash_ok fcn m head (map snd es)" "\<forall>(k, a) \<in> set es. ekey m a = k" "distinct (map fst es)" using assms(1) s by (auto simp: table_holds_def)
  obtain r where r: "HASH_FIND fcn m head k = Inr r" "case r of None \<Rightarrow> \<forall>a \<in> set (map snd es). ekey m a \<noteq> k | Some a \<Rightarrow> a \<in> set (map snd es) \<and> ekey m a = k"
    using HASH_FIND_finds [OF h(1) assms(2)] by blast
  have "map_of es k = r"
  proof (cases r)
    case None
    then show ?thesis using r(2) h(2) by (force simp: map_of_eq_None_iff)
  next
    case (Some a)
    then have "(k, a) \<in> set es" using r(2) h(2) by force
    then show ?thesis using Some h(3) by simp
  qed
  then show ?thesis using r(1) s by (simp add: table_find_def)
qed

lemma table_del_law:
  assumes "table_holds fcn M s es" "map_of es k = Some a"
  shows "\<exists>s'. table_del a s = Inr s' \<and> table_holds fcn M s' (filter (\<lambda>e. fst e \<noteq> k) es)"
proof -
  obtain head m where s: "s = (head, m)" by (cases s)
  have h: "uthash_ok fcn m head (map snd es)" "\<forall>(k, a) \<in> set es. ekey m a = k" "distinct (map fst es)" "M \<subseteq> alive m" using assms(1) s by (auto simp: table_holds_def)
  have ka: "(k, a) \<in> set es" using assms(2) by (rule map_of_SomeD)
  obtain head' m' where r: "HASH_DELETE a head m = Inr (head', m')" "uthash_ok fcn m' head' (remove1 a (map snd es))" "ekey m' = ekey m" "alive m' = alive m"
    using HASH_DELETE_deletes [OF h(1), of a] ka by force
  have "distinct (map snd es)" using h(1) by (simp add: uthash_ok_def)
  then have "remove1 a (map snd es) = map snd (filter (\<lambda>e. fst e \<noteq> k) es)"
  proof -
    obtain us vs where uv: "es = us @ (k, a) # vs" using ka by (auto simp: in_set_conv_decomp)
    have "filter (\<lambda>e. fst e \<noteq> k) us = us" "filter (\<lambda>e. fst e \<noteq> k) vs = vs" using h(3) uv by (auto simp: filter_id_conv)
    then have "filter (\<lambda>e. fst e \<noteq> k) es = us @ vs" using uv by simp
    then show ?thesis using \<open>distinct (map snd es)\<close> uv by (simp add: remove1_append)
  qed
  then have "table_holds fcn M (head', m') (filter (\<lambda>e. fst e \<noteq> k) es)" using r(2-4) h by (auto simp: table_holds_def distinct_map_filter)
  then show ?thesis using r(1) s by (simp add: table_del_def)
qed

text \<open>No allocation reaches 64 GiB, which is what a table of \<open>2 ^ 32\<close> buckets would take.\<close>

definition limited :: "(nat \<Rightarrow> bool) \<Rightarrow> nat \<Rightarrow> bool" where
  "limited malloc_ok sz \<longleftrightarrow> malloc_ok sz \<and> sz < 2 ^ 36"

interpretation ut: keyed_table "table_holds fcn M" M "table_add fcn (limited malloc_ok)" "table_find fcn" table_del for fcn M malloc_ok
proof unfold_locales
  show "table_add fcn (limited malloc_ok) k a s = Inl (ExitProcess (-1)) \<or> (\<exists>s'. table_add fcn (limited malloc_ok) k a s = Inr s' \<and> table_holds fcn M s' (es @ [(k, a)]))"
    if "table_holds fcn M s es" "op_allowed M (Add k a) es" for s es k a
    using table_add_law [OF that, of "limited malloc_ok"] by (simp add: limited_def)
qed (blast intro: table_find_law table_del_law)+

section \<open>Iteration\<close>

definition collect :: "nat \<Rightarrow> ut_mem \<times> nat list \<Rightarrow> (ut_mem \<times> nat list) cres" where
  "collect a = (\<lambda>(m, as). Inr (m, as @ [a]))"

lemma collect_pair [simp]: "collect a (m, as) = Inr (m, as @ [a])"
  by (simp add: collect_def)

text \<open>The elements of a table as \<^verbatim>\<open>HASH_ITER\<close> visits them.\<close>

definition table_elements :: "ptr \<times> ut_mem \<Rightarrow> nat list cres" where
  "table_elements = (\<lambda>(head, m). bindE (iterate collect fst head (m, [])) (\<lambda>(m, as). Inr as))"

lemma iter_collects:
  assumes "linked (nx m) (pv m) b xs None" "set xs \<subseteq> alive m" "length xs < fuel"
  shows "HASH_ITER fuel collect fst (first xs None) (first (tl xs) None) (m, as) = Inr (m, as @ xs)"
  using assms
proof (induction xs arbitrary: b fuel as)
  case Nil
  then show ?case by (cases fuel) auto
next
  case (Cons a xs)
  obtain f where f: "fuel = Suc f" using Cons.prems(3) by (cases fuel) auto
  have ih: "HASH_ITER f collect fst (first xs None) (first (tl xs) None) (m, as @ [a]) = Inr (m, (as @ [a]) @ xs)"
    using Cons.IH [of "Some a" f] Cons.prems f by auto
  show ?case
  proof (cases xs)
    case Nil
    then show ?thesis using f ih by simp
  next
    case (Cons x ys)
    then obtain h where h: "handles m x = Some h" using Cons.prems(2) alive_handle by fastforce
    have "next' h = first ys None" using Cons.prems(1) Cons h by (simp add: nx_def)
    then show ?thesis using f ih Cons h by simp
  qed
qed

lemma HASH_COUNT_length: "uthash_ok fcn m head xs \<Longrightarrow> \<exists>n. HASH_COUNT m head = Inr n \<and> unat n = length xs"
proof -
  assume ok: "uthash_ok fcn m head xs"
  show ?thesis
  proof (cases "xs = []")
    case True
    then show ?thesis using ok by (simp add: uthash_ok_def HASH_COUNT_def)
  next
    case False
    obtain t T C where h: "head = first xs None" "distinct xs" "table_ok m T C (set xs)" "head_tbl m head = Inr (Some t)" "tbl_at m (Some t) = Inr T"
      using ok False by (rule uthash_okE) blast
    have "unat (num_items T) = length xs" using h(2,3) by (auto elim: table_okE simp: distinct_card)
    then show ?thesis using h(1,4,5) False by (simp add: HASH_COUNT_def)
  qed
qed

lemma first_next:
  assumes "uthash_ok fcn m head xs"
  shows "(if head \<noteq> None then bindE (hh_at m head) (\<lambda>h. Inr (next' h)) else Inr None) = Inr (first (tl xs) None)"
proof (cases xs)
  case Nil
  then show ?thesis using assms by (simp add: uthash_ok_def)
next
  case (Cons a ys)
  obtain t T C where h: "head = first xs None" "linked (nx m) (pv m) None xs None" "set xs \<subseteq> alive m"
    using assms by (rule uthash_okE) (use Cons in auto)
  then obtain g where "handles m a = Some g" using Cons alive_handle by fastforce
  then show ?thesis using h(1,2) Cons by (simp add: nx_def)
qed

lemma uthash_ok_linked:
  assumes "uthash_ok fcn m head xs"
  shows "head = first xs None" "distinct xs" "linked (nx m) (pv m) None xs None" "set xs \<subseteq> alive m"
proof -
  show "set xs \<subseteq> alive m" using assms by (cases "xs = []") (auto elim: uthash_okE)
qed (use assms in \<open>simp_all add: uthash_ok_def\<close>)

lemma table_elements_order:
  assumes "uthash_ok fcn m head xs"
  shows "table_elements (head, m) = Inr xs"
proof -
  obtain n where n: "HASH_COUNT m head = Inr n" "unat n = length xs" using HASH_COUNT_length [OF assms] by blast
  note l = uthash_ok_linked [OF assms]
  have "iterate collect fst head (m, []) = Inr (m, xs)"
    unfolding iterate_def fst_conv n(1) bindE_Inr first_next [OF assms] n(2) using iter_collects [OF l(3,4), of "Suc (length xs)" "[]"] by (simp add: l(1) del: HASH_ITER.simps)
  then show ?thesis by (simp add: table_elements_def)
qed

section \<open>The integrity check\<close>

lemma fsck_chain_passes:
  assumes "linked (hn m) (hp m) b c None" "set c \<subseteq> alive m" "length c < fuel"
  shows "fsck_chain fuel m b (first c None) n = Inr (n + of_nat (length c))"
  using assms
proof (induction c arbitrary: b fuel n)
  case Nil
  then show ?case by (cases fuel) auto
next
  case (Cons a c)
  obtain f where f: "fuel = Suc f" using Cons.prems(3) by (cases fuel) auto
  obtain h where h: "handles m a = Some h" using Cons.prems(2) alive_handle by fastforce
  have "hh_prev h = b" "hh_next h = first c None" using Cons.prems(1) h by (simp_all add: hn_def hp_def)
  then show ?case using Cons.IH [of "Some a" f "n + 1"] Cons.prems f h by (simp add: add.assoc)
qed

lemma fsck_app_passes:
  assumes "linked (nx m) (pv m) b xs None" "set xs \<subseteq> alive m" "length xs < fuel"
  shows "fsck_app fuel m b (first xs None) n = Inr (n + of_nat (length xs))"
  using assms
proof (induction xs arbitrary: b fuel n)
  case Nil
  then show ?case by (cases fuel) auto
next
  case (Cons a xs)
  obtain f where f: "fuel = Suc f" using Cons.prems(3) by (cases fuel) auto
  obtain h where h: "handles m a = Some h" using Cons.prems(2) alive_handle by fastforce
  have "prev h = b" "next' h = first xs None" using Cons.prems(1) h by (simp_all add: nx_def pv_def)
  then show ?case using Cons.IH [of "Some a" f "n + 1"] Cons.prems f h by (simp add: add.assoc)
qed

lemma fsck_buckets_pass:
  assumes ok: "table_ok m T C A" and t: "tables m t = Some T" and j: "j \<le> length (buckets T)"
  shows "\<exists>n. foldE (fsck_bucket m (Some t) (Suc (card A))) [0..<j] 0 = Inr n \<and> n = of_nat (card (\<Union>i<j. set (C i)))"
proof (rule foldE_range [where P = "\<lambda>j n. n = of_nat (card (\<Union>i<j. set (C i)))"])
  obtain k where k: "k \<le> 31" "length (buckets T) = 2 ^ k" "chains_ok m (buckets T) C A" "finite A" "A \<subseteq> alive m" using ok by (rule table_okE) blast
  fix i and n :: u32
  assume i: "i < j" and n: "n = of_nat (card (\<Union>i<i. set (C i)))"
  have il: "i < length (buckets T)" using i j by simp
  note c = chains_okD [OF k(3) il]
  have "i < 2 ^ 32"
  proof -
    have "(2::nat) ^ k < 2 ^ 32" using k(1) by (intro power_strict_increasing) auto
    then show ?thesis using il k(2) by simp
  qed
  then have b: "bucket_at m (Some t) (of_nat i) = Inr (buckets T ! i)" using t il by (simp add: bucket_at_def uint_nat unat_u32_of_nat rd_nat)
  have "fsck_chain (Suc (card A)) m None (first (C i) None) 0 = Inr (0 + of_nat (length (C i)))"
    using c(5) k(5) chain_length [OF ok il] by (intro fsck_chain_passes [OF c(3)]) auto
  then have run: "fsck_bucket m (Some t) (Suc (card A)) i n = Inr (n + of_nat (length (C i)))"
    using b c(1,2) by (simp add: fsck_bucket_def del: fsck_chain.simps)
  have "set (C i) \<inter> (\<Union>i<i. set (C i)) = {}" using chains_okD(5) [OF k(3)] il by auto
  moreover have "(\<Union>i<Suc i. set (C i)) = (\<Union>i<i. set (C i)) \<union> set (C i)" by (auto simp: less_Suc_eq)
  ultimately have "card (\<Union>i<Suc i. set (C i)) = card (\<Union>i<i. set (C i)) + length (C i)"
    using c(4) by (simp add: card_Un_disjoint Int_commute distinct_card)
  then show "\<exists>s'. fsck_bucket m (Some t) (Suc (card A)) i n = Inr s' \<and> s' = of_nat (card (\<Union>i<Suc i. set (C i)))" using run n by simp
qed simp_all

lemma HASH_FSCK_passes:
  assumes "uthash_ok fcn m head xs"
  shows "HASH_FSCK m head = Inr ()"
proof (cases "xs = []")
  case True
  then show ?thesis using assms by (simp add: uthash_ok_def HASH_FSCK_def)
next
  case False
  obtain t T C where h: "head = first xs None" "distinct xs" "tables m = [t \<mapsto> T]" "table_ok m T C (set xs)" "head_tbl m head = Inr (Some t)" "tbl_at m (Some t) = Inr T"
    using assms False by (rule uthash_okE) blast
  note l = uthash_ok_linked [OF assms]
  obtain k where k: "unat (num_buckets T) = 2 ^ k" "length (buckets T) = 2 ^ k" "chains_ok m (buckets T) C (set xs)" "unat (num_items T) = card (set xs)" using h(4) by (rule table_okE) blast
  have items: "num_items T = of_nat (length xs)" using h(2,4) by (simp add: table_ok_def distinct_card)
  have "(\<Union>i<length (buckets T). set (C i)) = set xs" using chains_okD(5) [OF k(3)] k(2) by auto
  then have "foldE (fsck_bucket m (Some t) (Suc (card (set xs)))) [0..<2 ^ k] 0 = Inr (num_items T)"
    using fsck_buckets_pass [OF h(4), of t "length (buckets T)"] h(2,3) items k(2) by (simp add: distinct_card)
  moreover have "fsck_app (Suc (card (set xs))) m None head 0 = Inr (num_items T)"
    using fsck_app_passes [OF l(3,4), of "Suc (card (set xs))" 0] l(1) h(2) items by (simp add: distinct_card)
  ultimately show ?thesis using h(1,5,6) False k(1,4) by (simp add: HASH_FSCK_def Let_def)
qed

section \<open>Properties\<close>

text \<open>
  C2. uthash refines a list of keys and elements: for every hash function and every sequence of insertions of new keys, searches
  and deletions on an empty table, the results are those of the same operations on the list; afterwards iteration
  gives the elements in the order of their insertion, and the integrity check passes. No operation uses a null or
  dangling pointer, reads outside a key or the bucket array, or runs for ever, however often the table is
  expanded; the only other outcome is that the process ends because memory is exhausted.
\<close>

theorem uthash_refines_list:
  assumes "ops_allowed M ops []" "M \<subseteq> alive m" "tables m = Map.empty" "\<And>sz. malloc_ok sz \<Longrightarrow> sz < 2 ^ 36"
  shows "run_ops (table_add fcn malloc_ok) (table_find fcn) table_del ops (None, m) = Inl (ExitProcess (-1)) \<or>
    (\<exists>head' m'. run_ops (table_add fcn malloc_ok) (table_find fcn) table_del ops (None, m) = Inr (fst (spec_ops ops []), head', m') \<and>
      table_elements (head', m') = Inr (map snd (snd (spec_ops ops []))) \<and> HASH_FSCK m' head' = Inr ())"
proof -
  have lim: "limited malloc_ok = malloc_ok" using assms(4) by (auto simp: limited_def fun_eq_iff)
  have "table_holds fcn M (None, m) []" using assms(2,3) by (simp add: table_holds_def uthash_ok_def)
  from ut.run_refines [OF this assms(1), of malloc_ok, unfolded lim] show ?thesis
    using table_elements_order HASH_FSCK_passes by (fastforce simp: table_holds_def)
qed

text \<open>An element with nothing in its handle, and a memory with four of them.\<close>

definition blank_handle :: UT_hash_handle where
  "blank_handle = \<lparr>tbl = None, prev = None, next' = None, hh_prev = None, hh_next = None, key = [], keylen = 0, hashv = 0\<rparr>"

definition four_elements :: ut_mem where
  "four_elements = \<lparr>handles = (\<lambda>a. if a < 4 then Some blank_handle else None), tables = Map.empty, tbl_brk = 100\<rparr>"

definition sample_ops :: "table_op list" where
  "sample_ops = [Add [1] 0, Find [1], Del [1], Find [1]]"

lemma sample_runs: "\<exists>s. run_ops (table_add fcn (\<lambda>sz. sz < 1000)) (table_find fcn) table_del sample_ops (None, four_elements) = Inr ([None, Some 0, Some 0, None], s)"
proof -
  let ?add = "table_add fcn (\<lambda>sz. sz < 1000)"
  have ok: "uthash_ok fcn four_elements None []" "0 \<in> alive four_elements" by (simp_all add: uthash_ok_def four_elements_def alive_iff)
  have lim: "limited (\<lambda>sz. sz < 1000) = (\<lambda>sz. sz < 1000)" by (auto simp: limited_def)
  have "\<exists>s. ?add [1] 0 (None, four_elements) = Inr s"
    using add_first [where malloc_ok = "\<lambda>sz. sz < 1000", OF ok, of "[1]"] by (auto simp: table_add_def sizeof_hash_table_def)
  moreover have "table_holds fcn {0} (None, four_elements) []" using ok by (simp add: table_holds_def)
  ultimately obtain s where s: "?add [1] 0 (None, four_elements) = Inr s" "table_holds fcn {0} s [([1], 0)]"
    using table_add_law [of fcn "{0}" "(None, four_elements)" "[]" "[1]" 0 "\<lambda>sz. sz < 1000"] by auto
  have f: "table_find fcn s [1] = Inr (Some 0)" using table_find_law [OF s(2), of "[1]"] by simp
  obtain s' where d: "table_del 0 s = Inr s'" "table_holds fcn {0} s' []" using table_del_law [OF s(2), of "[1]" 0] by auto
  have "table_find fcn s' [1] = Inr None" using table_find_law [OF d(2), of "[1]"] by simp
  then show ?thesis using s(1) f d(1) by (simp add: sample_ops_def remove_found_def)
qed

theorem uthash_refines_list_witness:
  "\<exists>head' m'. run_ops (table_add (\<lambda>k. 7) (\<lambda>sz. sz < 1000)) (table_find (\<lambda>k. 7)) table_del sample_ops (None, four_elements) =
      Inr ([None, Some 0, Some 0, None], head', m') \<and> table_elements (head', m') = Inr [] \<and> HASH_FSCK m' head' = Inr ()"
proof -
  have "ops_allowed {0} sample_ops []" "{0} \<subseteq> alive four_elements" "tables four_elements = Map.empty" by (auto simp: sample_ops_def four_elements_def alive_iff)
  then show ?thesis using uthash_refines_list [of "{0}" sample_ops four_elements "\<lambda>sz. sz < 1000" "\<lambda>k. 7"] sample_runs [of "\<lambda>k. 7"]
    by (auto simp: sample_ops_def)
qed

end
