(* ===== verification/Uthash_Hash.thy ===== *)
theory Uthash_Hash
  imports C_Prelude
begin

text \<open>
  The hash functions of \<^verbatim>\<open>uthash.h\<close>, over the bytes of a key. The macros also reduce the value to a bucket number, which
  \<open>HASH_TO_BKT\<close> models. \<open>HASH_FCN\<close> is \<open>HASH_JEN\<close> unless a program asks for another one; its mixing step is
  shown to be reversible, so that it loses nothing of the three words it mixes, and \<open>HASH_BER\<close> to be a polynomial in 33.
\<close>

definition byte_word :: "u8 \<Rightarrow> u32" where
  "byte_word b = ucast b"

section \<open>The simple loops\<close>

definition HASH_BER :: "bytes \<Rightarrow> u32" where
  "HASH_BER key = foldl (\<lambda>hashv b. (push_bit 5 hashv + hashv) + byte_word b) 0 key"

definition HASH_SAX :: "bytes \<Rightarrow> u32" where
  "HASH_SAX key = foldl (\<lambda>hashv b. hashv XOR (push_bit 5 hashv + drop_bit 2 hashv + byte_word b)) 0 key"

definition HASH_FNV :: "bytes \<Rightarrow> u32" where
  "HASH_FNV key = foldl (\<lambda>hashv b. (hashv XOR byte_word b) * 16777619) 2166136261 key"

definition HASH_OAT :: "bytes \<Rightarrow> u32" where
  "HASH_OAT key =
     (let hashv = foldl (\<lambda>hashv b. let hashv = hashv + byte_word b; hashv = hashv + push_bit 10 hashv in hashv XOR drop_bit 6 hashv) 0 key;
          hashv = hashv + push_bit 3 hashv; hashv = hashv XOR drop_bit 11 hashv
      in hashv + push_bit 15 hashv)"

section \<open>Jenkins\<close>

definition HASH_JEN_MIX :: "u32 \<times> u32 \<times> u32 \<Rightarrow> u32 \<times> u32 \<times> u32" where
  "HASH_JEN_MIX = (\<lambda>(a, b, c).
     let a = (a - b - c) XOR drop_bit 13 c; b = (b - c - a) XOR push_bit 8 a; c = (c - a - b) XOR drop_bit 13 b;
         a = (a - b - c) XOR drop_bit 12 c; b = (b - c - a) XOR push_bit 16 a; c = (c - a - b) XOR drop_bit 5 b;
         a = (a - b - c) XOR drop_bit 3 c; b = (b - c - a) XOR push_bit 10 a; c = (c - a - b) XOR drop_bit 15 b
     in (a, b, c))"

text \<open>A byte of the rest of the key, shifted; the cases of the switch add only those that are there.\<close>

definition tail_byte :: "bytes \<Rightarrow> nat \<Rightarrow> nat \<Rightarrow> u32" where
  "tail_byte key n s = (if n < length key then push_bit s (byte_word (key ! n)) else 0)"

function jen_blocks :: "bytes \<Rightarrow> u32 \<times> u32 \<times> u32 \<Rightarrow> bytes \<times> u32 \<times> u32 \<times> u32" where
  "jen_blocks key (i, j, hashv) =
     (if length key \<ge> 12
      then jen_blocks (drop 12 key) (HASH_JEN_MIX (i + (tail_byte key 0 0 + tail_byte key 1 8 + tail_byte key 2 16 + tail_byte key 3 24),
        j + (tail_byte key 4 0 + tail_byte key 5 8 + tail_byte key 6 16 + tail_byte key 7 24),
        hashv + (tail_byte key 8 0 + tail_byte key 9 8 + tail_byte key 10 16 + tail_byte key 11 24)))
      else (key, i, j, hashv))"
  by pat_completeness auto
termination by (relation "measure (\<lambda>(key, s). length key)") auto

definition HASH_JEN :: "bytes \<Rightarrow> u32" where
  "HASH_JEN key =
     (let (rest, i, j, hashv) = jen_blocks key (0x9e3779b9, 0x9e3779b9, 0xfeedbeef);
          hashv = hashv + of_nat (length key) + tail_byte rest 10 24 + tail_byte rest 9 16 + tail_byte rest 8 8;
          j = j + tail_byte rest 7 24 + tail_byte rest 6 16 + tail_byte rest 5 8 + tail_byte rest 4 0;
          i = i + tail_byte rest 3 24 + tail_byte rest 2 16 + tail_byte rest 1 8 + tail_byte rest 0 0
      in snd (snd (HASH_JEN_MIX (i, j, hashv))))"

section \<open>Hsieh and Murmur\<close>

definition get16bits :: "bytes \<Rightarrow> nat \<Rightarrow> u32" where
  "get16bits d n = push_bit 8 (byte_word (d ! (n + 1))) + byte_word (d ! n)"

function sfh_blocks :: "bytes \<Rightarrow> u32 \<Rightarrow> bytes \<times> u32" where
  "sfh_blocks key hashv =
     (if length key \<ge> 4
      then let hashv = hashv + get16bits key 0; tmp = push_bit 11 (get16bits key 2) XOR hashv; hashv = push_bit 16 hashv XOR tmp
           in sfh_blocks (drop 4 key) (hashv + drop_bit 11 hashv)
      else (key, hashv))"
  by pat_completeness auto
termination by (relation "measure (\<lambda>(key, h). length key)") auto

definition HASH_SFH :: "bytes \<Rightarrow> u32" where
  "HASH_SFH key =
     (let (rest, hashv) = sfh_blocks key 0xcafebabe;
          hashv =
            (if length rest = 3 then let h = hashv + get16bits rest 0; h = h XOR push_bit 16 h; h = h XOR push_bit 18 (byte_word (rest ! 2)) in h + drop_bit 11 h
             else if length rest = 2 then let h = hashv + get16bits rest 0; h = h XOR push_bit 11 h in h + drop_bit 17 h
             else if length rest = 1 then let h = hashv + byte_word (rest ! 0); h = h XOR push_bit 10 h in h + drop_bit 1 h
             else hashv);
          hashv = hashv XOR push_bit 3 hashv; hashv = hashv + drop_bit 5 hashv; hashv = hashv XOR push_bit 4 hashv;
          hashv = hashv + drop_bit 17 hashv; hashv = hashv XOR push_bit 25 hashv
      in hashv + drop_bit 6 hashv)"

definition MUR_ROTL32 :: "u32 \<Rightarrow> nat \<Rightarrow> u32" where
  "MUR_ROTL32 x r = push_bit r x OR drop_bit (32 - r) x"

definition MUR_FMIX :: "u32 \<Rightarrow> u32" where
  "MUR_FMIX h = (let h = h XOR drop_bit 16 h; h = h * 0x85ebca6b; h = h XOR drop_bit 13 h; h = h * 0xc2b2ae35 in h XOR drop_bit 16 h)"

definition mur_k1 :: "u32 \<Rightarrow> u32" where
  "mur_k1 k = MUR_ROTL32 (k * 0xcc9e2d51) 15 * 0x1b873593"

function mur_blocks :: "bytes \<Rightarrow> u32 \<Rightarrow> bytes \<times> u32" where
  "mur_blocks key h1 =
     (if length key \<ge> 4
      then let k1 = mur_k1 (of_nat (le_val (take 4 key))); h1 = MUR_ROTL32 (h1 XOR k1) 13 in mur_blocks (drop 4 key) (h1 * 5 + 0xe6546b64)
      else (key, h1))"
  by pat_completeness auto
termination by (relation "measure (\<lambda>(key, h). length key)") auto

definition HASH_MUR :: "bytes \<Rightarrow> u32" where
  "HASH_MUR key =
     (let (rest, h1) = mur_blocks key 0xf88D5353;
          h1 = (if rest = [] then h1 else h1 XOR mur_k1 (tail_byte rest 2 16 XOR tail_byte rest 1 8 XOR tail_byte rest 0 0))
      in MUR_FMIX (h1 XOR of_nat (length key)))"

section \<open>Properties\<close>

definition jen_unmix :: "u32 \<times> u32 \<times> u32 \<Rightarrow> u32 \<times> u32 \<times> u32" where
  "jen_unmix = (\<lambda>(a, b, c).
     let c = (c XOR drop_bit 15 b) + b + a; b = (b XOR push_bit 10 a) + a + c; a = (a XOR drop_bit 3 c) + c + b;
         c = (c XOR drop_bit 5 b) + b + a; b = (b XOR push_bit 16 a) + a + c; a = (a XOR drop_bit 12 c) + c + b;
         c = (c XOR drop_bit 13 b) + b + a; b = (b XOR push_bit 8 a) + a + c; a = (a XOR drop_bit 13 c) + c + b
     in (a, b, c))"

lemma xor_cancel: "((x :: u32) XOR y) XOR y = x"
  by (simp add: xor.assoc)

text \<open>
  The mixing step of the Jenkins hash is reversible: \<open>jen_unmix\<close> undoes it, so no two states of the three words are
  mixed into the same one.
\<close>

theorem jen_mix_reversible: "jen_unmix (HASH_JEN_MIX s) = s"
  by (cases s) (simp only: jen_unmix_def HASH_JEN_MIX_def prod.case Let_def xor_cancel diff_add_cancel)

text \<open>
  The Bernstein hash is the polynomial of the bytes in 33 (modulo 2^32), the last byte having the weight 1.
\<close>

theorem HASH_BER_polynomial: "HASH_BER key = (\<Sum>i<length key. byte_word (key ! i) * 33 ^ (length key - 1 - i))"
proof (induction key rule: rev_induct)
  case (snoc b key)
  have "push_bit 5 h + h = 33 * h" for h :: u32 by (simp add: push_bit_eq_mult)
  then have "HASH_BER (key @ [b]) = 33 * HASH_BER key + byte_word b" by (simp add: HASH_BER_def)
  also have "33 * HASH_BER key = (\<Sum>i<length key. byte_word (key ! i) * 33 ^ (length key - i))"
    unfolding snoc sum_distrib_left
  proof (intro sum.cong refl)
    fix x assume "x \<in> {..<length key}"
    then have "length key - x = Suc (length key - 1 - x)" by auto
    then show "33 * (byte_word (key ! x) * 33 ^ (length key - 1 - x)) = byte_word (key ! x) * 33 ^ (length key - x)" by simp
  qed
  finally show ?case by (simp add: nth_append)
qed (simp add: HASH_BER_def)

end
