(* ===== verification/Uthash_Proxy.thy ===== *)
theory Uthash_Proxy
  imports Tcp_Echo Uthash_Map Uthash_Hash
begin

text \<open>
  The proxy server of \<^verbatim>\<open>client_server/uthash/src/server.c\<close> with the hash table it really uses: its requests are elements in
  memory that are added with \<^verbatim>\<open>HASH_ADD_INT\<close>, found, deleted and released. \<open>Tcp_Echo\<close> models the same server with
  the table as a list; here the list is not used, and the server with uthash refines the echo server all the same.
\<close>

section \<open>Requests in memory\<close>

text \<open>The table, the members \<^verbatim>\<open>request_id\<close> and \<^verbatim>\<open>bev\<close> of each element, and the address the next element gets.\<close>

record request_mem =
  table_head :: ptr
  umem :: ut_mem
  ents :: "nat \<Rightarrow> request_entry option"
  next_ent :: nat

definition mem_start :: request_mem where
  "mem_start = \<lparr>table_head = None, umem = \<lparr>handles = Map.empty, tables = Map.empty, tbl_brk = 0\<rparr>, ents = Map.empty, next_ent = 0\<rparr>"

definition sizeof_entry :: nat where "sizeof_entry = 72"

text \<open>The key is the four bytes of \<^verbatim>\<open>request_id\<close>.\<close>

definition int_key :: "int \<Rightarrow> bytes" where
  "int_key i = le_bytes 4 (nat (i mod 2 ^ 32))"

definition free_entry :: "nat \<Rightarrow> request_mem \<Rightarrow> request_mem" where
  "free_entry a r = r\<lparr>umem := (umem r)\<lparr>handles := (handles (umem r))(a := None)\<rparr>, ents := (ents r)(a := None)\<rparr>"

definition HASH_ADD_INT :: "(nat \<Rightarrow> bool) \<Rightarrow> nat \<Rightarrow> request_mem \<Rightarrow> request_mem cres" where
  "HASH_ADD_INT malloc_ok s r =
     (case ents r s of None \<Rightarrow> Inl DanglingPtr
      | Some e \<Rightarrow> bindE (HASH_ADD_KEYPTR HASH_JEN malloc_ok (int_key (request_id e)) s (table_head r) (umem r)) (\<lambda>(head, m).
          Inr (r\<lparr>table_head := head, umem := m\<rparr>)))"

definition del_entry :: "nat \<Rightarrow> request_mem \<Rightarrow> request_mem cres" where
  "del_entry s r = bindE (HASH_DELETE s (table_head r) (umem r)) (\<lambda>(head, m). Inr (free_entry s (r\<lparr>table_head := head, umem := m\<rparr>)))"

definition ut_respond_cb :: "libevent \<Rightarrow> int \<Rightarrow> proxy_server \<times> request_mem \<Rightarrow> (proxy_server \<times> request_mem) cres" where
  "ut_respond_cb ev req_id = (\<lambda>(p, r).
     bindE (HASH_FIND HASH_JEN (umem r) (table_head r) (int_key req_id)) (\<lambda>s.
     case s of None \<Rightarrow> Inr (p, r)
     | Some a \<Rightarrow>
        (case ents r a of None \<Rightarrow> Inl DanglingPtr
         | Some e \<Rightarrow>
            (case proxy_conns p (bev e) of None \<Rightarrow> Inl DanglingPtr
             | Some c \<Rightarrow>
                let (output, input) = evbuffer_add_buffer ev (outbuf c) (inbuf c);
                    p = p\<lparr>proxy_conns := (proxy_conns p)(bev e \<mapsto> c\<lparr>outbuf := output, inbuf := input\<rparr>)\<rparr>
                in bindE (del_entry a r) (\<lambda>r. Inr (p, r))))))"

text \<open>What \<^verbatim>\<open>malloc\<close> returns holds anything; the code does not check for null.\<close>

definition new_entry :: "(nat \<Rightarrow> bool) \<Rightarrow> UT_hash_handle \<Rightarrow> request_entry \<Rightarrow> request_mem \<Rightarrow> (nat \<times> request_mem) cres" where
  "new_entry malloc_ok junk e r =
     (if malloc_ok sizeof_entry
      then Inr (next_ent r, r\<lparr>umem := (umem r)\<lparr>handles := (handles (umem r))(next_ent r \<mapsto> junk)\<rparr>,
             ents := (ents r)(next_ent r \<mapsto> e), next_ent := Suc (next_ent r)\<rparr>)
      else Inl NullDeref)"

definition ut_read_cb :: "libevent \<Rightarrow> (nat \<Rightarrow> bool) \<Rightarrow> UT_hash_handle \<Rightarrow> nat \<Rightarrow> proxy_server \<times> request_mem \<Rightarrow> (proxy_server \<times> request_mem) cres" where
  "ut_read_cb ev malloc_ok junk fd = (\<lambda>(p, r).
     bindE (new_entry malloc_ok junk \<lparr>request_id = current_request_id p, bev = fd\<rparr> r) (\<lambda>(s, r).
     bindE (HASH_ADD_INT malloc_ok s r) (\<lambda>r.
     bindE (ut_respond_cb ev (current_request_id p) (p, r)) (\<lambda>(p, r).
     bindE (c_add (current_request_id p) 1) (\<lambda>n.
     Inr ((proxy_count 1 p)\<lparr>current_request_id := n\<rparr>, r))))))"

text \<open>\<^verbatim>\<open>proxy_free\<close>: every element is deleted and released while the table is iterated over.\<close>

definition ut_proxy_free :: "proxy_server \<times> request_mem \<Rightarrow> (proxy_server \<times> request_mem) cres" where
  "ut_proxy_free = (\<lambda>(p, r). bindE (iterate del_entry umem (table_head r) r) (\<lambda>r. Inr (p, r)))"

fun ut_callback :: "libevent \<Rightarrow> (nat \<Rightarrow> bool) \<Rightarrow> UT_hash_handle \<Rightarrow> tcp_event \<Rightarrow> proxy_server \<times> request_mem \<Rightarrow> (proxy_server \<times> request_mem) reply cres" where
  "ut_callback ev malloc_ok junk (Accept fd) (p, r) = Inr (Continue (proxy_accept_cb fd p, r))"
| "ut_callback ev malloc_ok junk (Accept_error err msg) (p, r) = Inr (Break (proxy_accept_error_cb err msg p, r))"
| "ut_callback ev malloc_ok junk (Data fd bs) (p, r) =
     (case proxy_conns p fd of
        None \<Rightarrow> Inr (Continue (p, r))
      | Some c \<Rightarrow> bindE (ut_read_cb ev malloc_ok junk fd (p\<lparr>proxy_conns := (proxy_conns p)(fd \<mapsto> arrive ev bs c)\<rparr>, r)) (\<lambda>s. Inr (Continue s)))"
| "ut_callback ev malloc_ok junk (Conn_event fd err eof) (p, r) =
     Inr (Continue (if proxy_conns p fd = None then p else proxy_event_cb fd err eof p, r))"
| "ut_callback ev malloc_ok junk One_second (p, r) = Inr (Continue (proxy_on_stats p, r))"

definition ut_main :: "libevent \<Rightarrow> (nat \<Rightarrow> bool) \<Rightarrow> UT_hash_handle \<Rightarrow> listen_env \<Rightarrow> string list \<Rightarrow> tcp_event event list \<Rightarrow> (ending \<times> proxy_server \<times> request_mem) cres" where
  "ut_main ev malloc_ok junk env argv evs =
     bindE (open_listener env argv) (\<lambda>l.
     case l of
       Inl msg \<Rightarrow> Inr (Returned 1, proxy_start\<lparr>proxy_log := [msg]\<rparr>, mem_start)
     | Inr port \<Rightarrow>
         bindE (dispatch [SIGTERM, SIGINT] (\<lambda>sig (p, r). (proxy_handle_SIG sig p, r)) (ut_callback ev malloc_ok junk) evs (proxy_start, mem_start)) (\<lambda>(stop, s).
         bindE (if stop = Broken then ut_proxy_free s else Inr s) (\<lambda>s. Inr (main_ending stop, s))))"

section \<open>Releasing the whole table\<close>

lemma free_keeps_ok:
  assumes "uthash_ok fcn m head xs" "a \<notin> set xs"
  shows "uthash_ok fcn (m\<lparr>handles := (handles m)(a := None)\<rparr>) head xs"
proof -
  let ?m = "m\<lparr>handles := (handles m)(a := None)\<rparr>"
  have f: "nx ?m b = nx m b \<and> pv ?m b = pv m b \<and> hn ?m b = hn m b \<and> hp ?m b = hp m b \<and> hv ?m b = hv m b \<and> handles ?m b = handles m b" if "b \<in> set xs" for b
    using that assms(2) by (auto simp: field_defs)
  then have l: "linked (nx ?m) (pv ?m) None xs None = linked (nx m) (pv m) None xs None" by (intro linked_cong) blast
  show ?thesis
  proof (cases "xs = []")
    case True
    then show ?thesis using assms(1) by (simp add: uthash_ok_def)
  next
    case False
    obtain t T C where h: "head = first xs None" "distinct xs" "linked (nx m) (pv m) None xs None" "tables m = [t \<mapsto> T]" "table_ok m T C (set xs)"
      "tail T = Some (last xs)" "\<And>a. a \<in> set xs \<Longrightarrow> handle_ok fcn t (the (handles m a))" "set xs \<subseteq> alive m"
      using assms(1) False by (rule uthash_okE) blast
    have "chains_ok m (buckets T) C (set xs)" using h(5) by (simp add: table_ok_def)
    then have "chains_ok ?m (buckets T) C (set xs)" by (rule chains_ok_cong) (use f in blast)
    moreover have "set xs \<subseteq> alive ?m" using h(8) assms(2) by (auto simp: alive_def)
    ultimately have ok: "table_ok ?m T C (set xs)" using h(5) by (simp add: table_ok_def)
    have hs: "handle_ok fcn t (the (handles ?m b))" if "b \<in> set xs" for b using h(7) [OF that] f [OF that] by simp
    have "tables ?m = [t \<mapsto> T]" "linked (nx ?m) (pv ?m) None xs None" using h(3,4) l by simp_all
    from uthash_okI [OF False h(2) this(2,1) ok h(6) hs] show ?thesis unfolding h(1) .
  qed
qed

lemma del_entry_deletes:
  assumes "uthash_ok fcn (umem r) (table_head r) xs" "a \<in> set xs"
  shows "\<exists>r'. del_entry a r = Inr r' \<and> uthash_ok fcn (umem r') (table_head r') (remove1 a xs) \<and> alive (umem r') = alive (umem r) - {a} \<and>
    ents r' = (ents r)(a := None) \<and> next_ent r' = next_ent r"
proof -
  obtain head m where d: "HASH_DELETE a (table_head r) (umem r) = Inr (head, m)" "uthash_ok fcn m head (remove1 a xs)" "alive m = alive (umem r)"
    using HASH_DELETE_deletes [OF assms] by blast
  have "a \<notin> set (remove1 a xs)" using uthash_ok_linked(2) [OF assms(1)] by simp
  from free_keeps_ok [OF d(2) this] show ?thesis using d(1,3)
    by (auto simp: del_entry_def free_entry_def alive_def)
qed

lemma iter_deletes:
  assumes "uthash_ok fcn (umem r) (table_head r) xs" "length xs < fuel"
  shows "\<exists>r'. HASH_ITER fuel del_entry umem (first xs None) (first (tl xs) None) r = Inr r' \<and> uthash_ok fcn (umem r') (table_head r') [] \<and>
    alive (umem r') = alive (umem r) - set xs \<and> ents r' = (\<lambda>a. if a \<in> set xs then None else ents r a)"
  using assms
proof (induction xs arbitrary: r fuel)
  case Nil
  then show ?case by (cases fuel) auto
next
  case (Cons a xs)
  obtain f where f: "fuel = Suc f" using Cons.prems(2) by (cases fuel) auto
  obtain r1 where d: "del_entry a r = Inr r1" "uthash_ok fcn (umem r1) (table_head r1) xs" "alive (umem r1) = alive (umem r) - {a}" "ents r1 = (ents r)(a := None)"
    using del_entry_deletes [OF Cons.prems(1), of a] by auto
  have hd: "table_head r1 = first xs None" using uthash_ok_linked(1) [OF d(2)] .
  obtain r2 where r2: "HASH_ITER f del_entry umem (first xs None) (first (tl xs) None) r1 = Inr r2" "uthash_ok fcn (umem r2) (table_head r2) []"
      "alive (umem r2) = alive (umem r1) - set xs" "ents r2 = (\<lambda>a. if a \<in> set xs then None else ents r1 a)"
    using Cons.IH [OF d(2), of f] Cons.prems(2) f by auto
  have "HASH_ITER fuel del_entry umem (first (a # xs) None) (first (tl (a # xs)) None) r = Inr r2"
    using f d(1) first_next [OF d(2), unfolded hd] r2(1) by (cases xs) auto
  moreover have "ents r2 = (\<lambda>b. if b \<in> set (a # xs) then None else ents r b)" using r2(4) d(4) by auto
  ultimately show ?case using r2(2,3) d(3) by auto
qed

lemma ut_proxy_free_frees:
  assumes "uthash_ok fcn (umem r) (table_head r) xs"
  shows "\<exists>r'. ut_proxy_free (p, r) = Inr (p, r') \<and> table_head r' = None \<and> tables (umem r') = Map.empty \<and> alive (umem r') = alive (umem r) - set xs \<and>
    ents r' = (\<lambda>a. if a \<in> set xs then None else ents r a)"
proof -
  obtain n where n: "HASH_COUNT (umem r) (table_head r) = Inr n" "unat n = length xs" using HASH_COUNT_length [OF assms] by blast
  obtain r' where r': "HASH_ITER (Suc (length xs)) del_entry umem (first xs None) (first (tl xs) None) r = Inr r'" "uthash_ok fcn (umem r') (table_head r') []"
      "alive (umem r') = alive (umem r) - set xs" "ents r' = (\<lambda>a. if a \<in> set xs then None else ents r a)"
    using iter_deletes [OF assms, of "Suc (length xs)"] by auto
  have "iterate del_entry umem (table_head r) r = Inr r'"
    unfolding iterate_def n(1) bindE_Inr first_next [OF assms] n(2) using r'(1) uthash_ok_linked(1) [OF assms] by (simp del: HASH_ITER.simps)
  then show ?thesis using r'(2-4) by (simp add: ut_proxy_free_def uthash_ok_def)
qed

section \<open>The server\<close>

definition idle :: "request_mem \<Rightarrow> bool" where
  "idle r \<longleftrightarrow> table_head r = None \<and> tables (umem r) = Map.empty \<and> handles (umem r) = Map.empty \<and> ents r = Map.empty"

definition enough :: "(nat \<Rightarrow> bool) \<Rightarrow> bool" where
  "enough malloc_ok \<longleftrightarrow> malloc_ok sizeof_entry \<and> malloc_ok sizeof_hash_table \<and> malloc_ok 512 \<and> \<not> malloc_ok (2 ^ 36)"

lemma request_added:
  assumes "idle r" "enough malloc_ok"
  shows "\<exists>r'. bindE (new_entry malloc_ok junk e r) (\<lambda>(s, r). HASH_ADD_INT malloc_ok s r) = Inr r' \<and>
    uthash_ok HASH_JEN (umem r') (table_head r') [next_ent r] \<and> ekey (umem r') (next_ent r) = int_key (request_id e) \<and>
    alive (umem r') = {next_ent r} \<and> ents r' = [next_ent r \<mapsto> e]"
proof -
  let ?a = "next_ent r" and ?k = "int_key (request_id e)"
  define m where "m = (umem r)\<lparr>handles := [next_ent r \<mapsto> junk]\<rparr>"
  have "uthash_ok HASH_JEN m None []" "?a \<in> alive m" using assms(1) by (simp_all add: uthash_ok_def idle_def m_def alive_iff)
  note add = add_first [where malloc_ok = malloc_ok and xs = "[]", OF this, of ?k]
  obtain head m' where r: "HASH_ADD_KEYPTR HASH_JEN malloc_ok ?k ?a None m = Inr (head, m')" "uthash_ok HASH_JEN m' head [?a]" "ekey m' = (ekey m)(?a := ?k)" "alive m' = alive m"
    using add assms(2) by (auto simp: enough_def int_key_def)
  have "alive m = {?a}" by (simp add: m_def alive_def)
  then show ?thesis using r assms by (simp add: new_entry_def HASH_ADD_INT_def idle_def enough_def m_def [symmetric])
qed

lemma request_answered:
  assumes ok: "uthash_ok HASH_JEN (umem r) (table_head r) [a]" and k: "ekey (umem r) a = int_key i" and e: "ents r = [a \<mapsto> e]" "alive (umem r) = {a}"
    and c: "proxy_conns p (bev e) = Some c"
  shows "\<exists>r'. ut_respond_cb ev i (p, r) = Inr (p\<lparr>proxy_conns := (proxy_conns p)(bev e \<mapsto> echo_conn ev c)\<rparr>, r') \<and> idle r'"
proof -
  obtain q where q: "HASH_FIND HASH_JEN (umem r) (table_head r) (int_key i) = Inr q"
      "case q of None \<Rightarrow> \<forall>b \<in> set [a]. ekey (umem r) b \<noteq> int_key i | Some b \<Rightarrow> b \<in> set [a] \<and> ekey (umem r) b = int_key i"
    using HASH_FIND_finds [OF ok, of "int_key i"] by (auto simp: int_key_def)
  then have f: "HASH_FIND HASH_JEN (umem r) (table_head r) (int_key i) = Inr (Some a)" using k by (auto split: option.splits)
  obtain r' where r': "del_entry a r = Inr r'" "uthash_ok HASH_JEN (umem r') (table_head r') []" "alive (umem r') = {}" "ents r' = Map.empty"
    using del_entry_deletes [OF ok, of a] e by auto
  have "handles (umem r') = Map.empty" using r'(3) by (simp add: alive_def)
  then have "idle r'" using r'(2,4) by (simp add: idle_def uthash_ok_def)
  then show ?thesis using f r'(1) e(1) c by (cases "evbuffer_add_buffer ev (outbuf c) (inbuf c)") (simp add: ut_respond_cb_def echo_conn_def)
qed

lemma ut_read_cb_refines:
  assumes "idle r" "enough malloc_ok" "request_table p = []" "0 \<le> current_request_id p" "current_request_id p < INT_MAX" "proxy_conns p fd = Some c"
  shows "\<exists>p' r'. ut_read_cb ev malloc_ok junk fd (p, r) = Inr (p', r') \<and> proxy_read_cb ev fd p = Inr p' \<and> idle r'"
proof -
  let ?e = "\<lparr>request_id = current_request_id p, bev = fd\<rparr>"
  obtain r1 where r1: "bindE (new_entry malloc_ok junk ?e r) (\<lambda>(s, r). HASH_ADD_INT malloc_ok s r) = Inr r1"
    "uthash_ok HASH_JEN (umem r1) (table_head r1) [next_ent r]" "ekey (umem r1) (next_ent r) = int_key (request_id ?e)" "alive (umem r1) = {next_ent r}" "ents r1 = [next_ent r \<mapsto> ?e]"
    using request_added [OF assms(1,2)] by blast
  obtain r2 where r2: "ut_respond_cb ev (request_id ?e) (p, r1) = Inr (p\<lparr>proxy_conns := (proxy_conns p)(bev ?e \<mapsto> echo_conn ev c)\<rparr>, r2)" "idle r2"
    using request_answered [OF r1(2,3,5,4), of p c ev] assms(6) by auto
  have "ut_read_cb ev malloc_ok junk fd (p, r) = bindE (bindE (new_entry malloc_ok junk ?e r) (\<lambda>(s, r). HASH_ADD_INT malloc_ok s r)) (\<lambda>r.
      bindE (ut_respond_cb ev (current_request_id p) (p, r)) (\<lambda>(p, r). bindE (c_add (current_request_id p) 1) (\<lambda>n. Inr ((proxy_count 1 p)\<lparr>current_request_id := n\<rparr>, r))))"
    by (simp add: ut_read_cb_def bindE_assoc case_prod_unfold)
  then show ?thesis using r1(1) r2 assms(3-6) proxy_read_cb_echoes [OF assms(3-6), of ev] by (simp add: proxy_count_def c_int_defs)
qed

text \<open>Every event takes the two servers from matching states to matching states.\<close>

lemma ut_callback_refines:
  assumes "idle r" "enough malloc_ok" "request_table p = []" "0 \<le> current_request_id p" "current_request_id p < INT_MAX"
  shows "\<exists>q. proxy_callback ev e p = Inr q \<and>
    (case q of Continue p' \<Rightarrow> \<exists>r'. ut_callback ev malloc_ok junk e (p, r) = Inr (Continue (p', r')) \<and> idle r'
     | Break p' \<Rightarrow> \<exists>r'. ut_callback ev malloc_ok junk e (p, r) = Inr (Break (p', r')) \<and> idle r')"
proof (cases e)
  case (Data fd bs)
  show ?thesis
  proof (cases "proxy_conns p fd")
    case None
    then show ?thesis using Data assms(1) by simp
  next
    case (Some c)
    then show ?thesis
      using Data ut_read_cb_refines [OF assms(1,2), of "p\<lparr>proxy_conns := (proxy_conns p)(fd \<mapsto> arrive ev bs c)\<rparr>" fd _ ev junk] assms by auto
  qed
qed (use assms(1) in auto)

lemma ut_dispatch_refines:
  assumes "idle r" "enough malloc_ok" "request_table p = []" "0 \<le> current_request_id p" "current_request_id p + int (length evs) \<le> INT_MAX"
  shows "\<exists>stop p' r'. dispatch sigs proxy_handle_SIG (proxy_callback ev) evs p = Inr (stop, p') \<and>
    dispatch sigs (\<lambda>sig (p, r). (proxy_handle_SIG sig p, r)) (ut_callback ev malloc_ok junk) evs (p, r) = Inr (stop, p', r') \<and> idle r'"
  using assms
proof (induction evs arbitrary: p r)
  case (Cons x evs)
  show ?case
  proof (cases x)
    case (Signal n)
    then show ?thesis using Cons.prems(1) by auto
  next
    case (Fire e)
    obtain q where q: "proxy_callback ev e p = Inr q" "case q of Continue p' \<Rightarrow> \<exists>r'. ut_callback ev malloc_ok junk e (p, r) = Inr (Continue (p', r')) \<and> idle r'
        | Break p' \<Rightarrow> \<exists>r'. ut_callback ev malloc_ok junk e (p, r) = Inr (Break (p', r')) \<and> idle r'"
      using ut_callback_refines [OF Cons.prems(1,2,3,4), of ev e junk] Cons.prems(5) by auto
    have st: "request_table (reply_state q) = []" "current_request_id p \<le> current_request_id (reply_state q)" "current_request_id (reply_state q) \<le> current_request_id p + 1"
      using proxy_callback_refines [of p ev e] Cons.prems q(1) by auto
    show ?thesis
    proof (cases q)
      case (Continue p')
      then obtain r' where r': "ut_callback ev malloc_ok junk e (p, r) = Inr (Continue (p', r'))" "idle r'" using q(2) by auto
      then show ?thesis using Cons.IH [OF r'(2) Cons.prems(2), of p'] Cons.prems st q(1) Fire Continue by auto
    next
      case (Break p')
      then show ?thesis using q Fire by auto
    qed
  qed
qed simp

text \<open>
  C8. The proxy server over uthash does what the plain echo server does, for every list of at most \<^verbatim>\<open>INT_MAX\<close> events, whatever libevent does to the buffers: it ends in the same
  way, prints the same counts and messages, and leaves every connection with the same buffers, provided that the listener can be opened and that there is memory for a request,
  the table and its buckets. So it echoes: with buffers as libevent documents them, a connection that stays open has had written to it exactly the bytes that
  arrived on it, in order. Every request is put into the table, found again, answered, taken out and released: at the end no
  element, no table and no bucket array is left in memory, and on the way nothing is used that was released or never set.
\<close>

theorem proxy_with_uthash:
  assumes "open_listener env argv = Inr (Inr port)" "int (length evs) \<le> INT_MAX" "enough malloc_ok"
  shows "\<exists>e p r. ut_main ev malloc_ok junk env argv evs = Inr (e, p, r) \<and> tcp_server_main ev env argv evs = Inr (e, proxy_abs p) \<and>
    table_head r = None \<and> tables (umem r) = Map.empty \<and> handles (umem r) = Map.empty \<and> ents r = Map.empty \<and>
    (\<forall>fd es. evs = map Fire (Accept fd # es) \<and> (\<forall>e \<in> set es. leaves_open fd e) \<and> buffers_documented ev \<longrightarrow>
      proxy_conns p fd = Some \<lparr>inbuf = [], outbuf = arrived fd es\<rparr>)"
proof -
  have start: "request_table proxy_start = []" "current_request_id proxy_start = 0" "idle mem_start" "proxy_abs proxy_start = stat_start"
    by (simp_all add: proxy_start_def mem_start_def idle_def proxy_abs_def stat_start_def)
  obtain stop p r where d: "dispatch [SIGTERM, SIGINT] proxy_handle_SIG (proxy_callback ev) evs proxy_start = Inr (stop, p)"
    "dispatch [SIGTERM, SIGINT] (\<lambda>sig (p, r). (proxy_handle_SIG sig p, r)) (ut_callback ev malloc_ok junk) evs (proxy_start, mem_start) = Inr (stop, p, r)" "idle r"
    using ut_dispatch_refines [OF start(3) assms(3) start(1), of evs "[SIGTERM, SIGINT]" ev junk] assms(2) start(2) by auto
  have echo: "dispatch [SIGTERM, SIGINT] handle_SIG (tcp_callback ev) evs stat_start = Inr (stop, proxy_abs p)"
    using proxy_dispatch_refines [of proxy_start evs "[SIGTERM, SIGINT]" ev] assms(2) start d(1) by auto
  have sent: "proxy_conns p fd = Some \<lparr>inbuf = [], outbuf = arrived fd es\<rparr>"
    if "evs = map Fire (Accept fd # es)" "\<forall>e \<in> set es. leaves_open fd e" "buffers_documented ev" for fd es
    using tcp_echoes [OF that(2) _ _ that(3), of "accept_conn_cb fd stat_start" "\<lparr>inbuf = [], outbuf = []\<rparr>"] echo that(1)
    by (auto simp: accept_conn_cb_def proxy_abs_def)
  have "uthash_ok HASH_JEN (umem r) (table_head r) []" using d(3) by (simp add: uthash_ok_def idle_def)
  from ut_proxy_free_frees [OF this, of p] obtain r' where "ut_proxy_free (p, r) = Inr (p, r')" "idle r'" using d(3) by (auto simp: idle_def alive_def)
  then obtain r'' where "ut_main ev malloc_ok junk env argv evs = Inr (main_ending stop, p, r'')" "idle r''"
    using assms(1) d by (cases "stop = Broken") (auto simp: ut_main_def)
  moreover have "tcp_server_main ev env argv evs = Inr (main_ending stop, proxy_abs p)" using assms(1) echo by (simp add: tcp_server_main_def)
  ultimately show ?thesis using sent by (auto simp: idle_def)
qed

theorem proxy_with_uthash_witness:
  "\<exists>e p r c. ut_main sample_ev (\<lambda>sz. sz < 1000) blank_handle \<lparr>base_ok = True, listener_ok = (\<lambda>a p. True)\<rparr> [''server''] [Fire (Accept 5), Fire (Data 5 [1, 2]), Signal SIGINT] = Inr (e, p, r) \<and>
     handles (umem r) = Map.empty \<and> proxy_conns p 5 = Some c \<and> outbuf c = [1, 2] \<and> message_per_second p = 1"
proof -
  let ?env = "\<lparr>base_ok = True, listener_ok = (\<lambda>a p. True)\<rparr>" and ?evs = "[Fire (Accept 5), Fire (Data 5 [1, 2]), Signal SIGINT]"
  have l: "open_listener ?env [''server''] = Inr (Inr (htons 9876))" by (simp add: open_listener_def server_port_def)
  have n: "int (length ?evs) \<le> INT_MAX" by (simp add: INT_MAX_def)
  have m: "enough (\<lambda>sz. sz < 1000)" by (simp add: enough_def sizeof_entry_def sizeof_hash_table_def)
  have "\<exists>e s. tcp_server_main sample_ev ?env [''server''] ?evs = Inr (e, s) \<and> conns s 5 = Some \<lparr>inbuf = [], outbuf = [1, 2]\<rparr> \<and> pps s = 1"
    by (simp add: tcp_server_main_def l stat_start_def accept_conn_cb_def arrive_def echo_read_cb_def echo_conn_def count_read_def handle_SIG_def sample_ev_def)
  then show ?thesis using proxy_with_uthash [OF l n m, of sample_ev blank_handle] by (auto simp: proxy_abs_def)
qed

end
