(* ===== verification/Uthash_Sort.thy ===== *)
theory Uthash_Sort
  imports Uthash_Map "HOL-Library.Multiset"
begin

text \<open>
  \<^verbatim>\<open>HASH_SRT\<close> of \<^verbatim>\<open>uthash.h\<close>: the bottom-up merge sort of the elements by relinking them, for a comparison function of the
  program. \<^verbatim>\<open>_hs_insize\<close> is doubled modulo \<^verbatim>\<open>2^32\<close>, but the loop ends before it wraps around.
\<close>

section \<open>The loops\<close>

text \<open>The second run begins at most \<^verbatim>\<open>_hs_insize\<close> elements behind the first; \<^verbatim>\<open>_hs_psize\<close> and \<^verbatim>\<open>_hs_q\<close>.\<close>

fun split_run :: "nat \<Rightarrow> ut_mem \<Rightarrow> ptr \<Rightarrow> (nat \<times> ptr) cres" where
  "split_run 0 m q = Inr (0, q)"
| "split_run (Suc i) m q =
     bindE (hh_at m q) (\<lambda>h.
     if next' h = None then Inr (1, None) else bindE (split_run i m (next' h)) (\<lambda>(n, q). Inr (Suc n, q)))"

text \<open>The element is appended to the result; the state is the memory, \<^verbatim>\<open>_hs_list\<close> and \<^verbatim>\<open>_hs_tail\<close>.\<close>

definition append_elt :: "ptr \<Rightarrow> ut_mem \<times> ptr \<times> ptr \<Rightarrow> (ut_mem \<times> ptr \<times> ptr) cres" where
  "append_elt e = (\<lambda>(m, list, tail').
     bindE (if tail' \<noteq> None then bindE (upd_hh tail' (\<lambda>h. h\<lparr>next' := e\<rparr>) m) (\<lambda>m. Inr (m, list)) else Inr (m, e)) (\<lambda>(m, list).
     bindE (if e \<noteq> None then upd_hh e (\<lambda>h. h\<lparr>prev := tail'\<rparr>) m else Inr m) (\<lambda>m.
     Inr (m, list, e))))"

text \<open>One round of the inner loop takes the first element of one run. A first run that has ended although \<^verbatim>\<open>_hs_psize\<close> is positive
  gives a null element.\<close>

definition advance :: "ptr \<Rightarrow> ut_mem \<Rightarrow> ptr cres" where
  "advance q m = bindE (hh_at m q) (\<lambda>h. Inr (next' h))"

definition advance_p :: "ptr \<Rightarrow> ut_mem \<Rightarrow> ptr cres" where
  "advance_p p m = (if p \<noteq> None then advance p m else Inr p)"

fun merge_runs :: "nat \<Rightarrow> (nat \<Rightarrow> nat \<Rightarrow> int) \<Rightarrow> nat \<Rightarrow> ptr \<Rightarrow> nat \<Rightarrow> ptr \<Rightarrow> ut_mem \<times> ptr \<times> ptr \<Rightarrow> (ptr \<times> ut_mem \<times> ptr \<times> ptr) cres" where
  "merge_runs 0 cmpfcn psize p qsize q s = Inl NoReturn"
| "merge_runs (Suc fuel) cmpfcn psize p qsize q s =
     (if psize > 0 \<or> (qsize > 0 \<and> q \<noteq> None) then
        if psize = 0 then
          bindE (advance q (fst s)) (\<lambda>q'. bindE (append_elt q s) (merge_runs fuel cmpfcn psize p (qsize - 1) q'))
        else if qsize = 0 \<or> q = None then
          bindE (advance_p p (fst s)) (\<lambda>p'. bindE (append_elt p s) (merge_runs fuel cmpfcn (psize - 1) p' qsize q))
        else if p = None then Inl NullDeref
        else if cmpfcn (the p) (the q) \<le> 0 then
          bindE (advance_p p (fst s)) (\<lambda>p'. bindE (append_elt p s) (merge_runs fuel cmpfcn (psize - 1) p' qsize q))
        else
          bindE (advance q (fst s)) (\<lambda>q'. bindE (append_elt q s) (merge_runs fuel cmpfcn psize p (qsize - 1) q'))
      else Inr (q, s))"

text \<open>A pass over the list merges pairs of runs; it counts them in \<^verbatim>\<open>_hs_nmerges\<close>.\<close>

fun sort_pass :: "nat \<Rightarrow> (nat \<Rightarrow> nat \<Rightarrow> int) \<Rightarrow> nat \<Rightarrow> ptr \<Rightarrow> nat \<Rightarrow> ut_mem \<times> ptr \<times> ptr \<Rightarrow> (nat \<times> ut_mem \<times> ptr \<times> ptr) cres" where
  "sort_pass 0 cmpfcn insize p nmerges s = Inl NoReturn"
| "sort_pass (Suc fuel) cmpfcn insize p nmerges s =
     (if p = None then Inr (nmerges, s)
      else bindE (split_run insize (fst s) p) (\<lambda>(psize, q).
        bindE (merge_runs (Suc (psize + insize)) cmpfcn psize p insize q s) (\<lambda>(q, s).
        sort_pass fuel cmpfcn insize q (nmerges + 1) s)))"

fun sort_passes :: "nat \<Rightarrow> nat \<Rightarrow> (nat \<Rightarrow> nat \<Rightarrow> int) \<Rightarrow> nat \<Rightarrow> ptr \<Rightarrow> ut_mem \<Rightarrow> (ut_mem \<times> ptr \<times> ptr) cres" where
  "sort_passes 0 items cmpfcn insize list m = Inl NoReturn"
| "sort_passes (Suc fuel) items cmpfcn insize list m =
     bindE (sort_pass (Suc items) cmpfcn insize list 0 (m, None, None)) (\<lambda>(nmerges, m, list, tail').
     bindE (if tail' \<noteq> None then upd_hh tail' (\<lambda>h. h\<lparr>next' := None\<rparr>) m else Inr m) (\<lambda>m.
     if nmerges \<le> 1 then Inr (m, list, tail') else sort_passes fuel items cmpfcn (insize * 2 mod 2 ^ 32) list m))"

definition HASH_SRT :: "(nat \<Rightarrow> nat \<Rightarrow> int) \<Rightarrow> ptr \<Rightarrow> ut_mem \<Rightarrow> (ptr \<times> ut_mem) cres" where
  "HASH_SRT cmpfcn head m =
     (if head = None then Inr (head, m)
      else bindE (head_tbl m head) (\<lambda>t. bindE (tbl_at m t) (\<lambda>T.
        bindE (sort_passes (Suc (unat (num_items T))) (unat (num_items T)) cmpfcn 1 head m) (\<lambda>(m, list, tail').
        bindE (upd_tbl t (\<lambda>T. T\<lparr>tail := tail'\<rparr>) m) (\<lambda>m.
        Inr (list, m))))))"

section \<open>The same on lists\<close>

fun run_merge :: "(nat \<Rightarrow> nat \<Rightarrow> int) \<Rightarrow> nat list \<Rightarrow> nat list \<Rightarrow> nat list" where
  "run_merge cmpfcn [] qs = qs"
| "run_merge cmpfcn ps [] = ps"
| "run_merge cmpfcn (p # ps) (q # qs) = (if cmpfcn p q \<le> 0 then p # run_merge cmpfcn ps (q # qs) else q # run_merge cmpfcn (p # ps) qs)"

lemma run_merge_Nil [simp]: "run_merge cmpfcn ps [] = ps"
  by (cases ps) auto

fun list_pass :: "nat \<Rightarrow> (nat \<Rightarrow> nat \<Rightarrow> int) \<Rightarrow> nat \<Rightarrow> nat list \<Rightarrow> nat list" where
  "list_pass 0 cmpfcn n xs = []"
| "list_pass (Suc fuel) cmpfcn n xs =
     (if xs = [] then [] else run_merge cmpfcn (take n xs) (take n (drop n xs)) @ list_pass fuel cmpfcn n (drop (2 * n) xs))"

lemma mset_run_merge: "mset (run_merge cmpfcn ps qs) = mset ps + mset qs"
  by (induction cmpfcn ps qs rule: run_merge.induct) auto

lemma set_run_merge [simp]: "set (run_merge cmpfcn ps qs) = set ps \<union> set qs"
  using mset_run_merge [of cmpfcn ps qs] by (metis set_mset_mset set_mset_union)

lemma length_run_merge [simp]: "length (run_merge cmpfcn ps qs) = length ps + length qs"
  using arg_cong [OF mset_run_merge [of cmpfcn ps qs], of size] by simp

text \<open>A comparison function as \<^verbatim>\<open>qsort\<close> wants it.\<close>

definition ordering :: "(nat \<Rightarrow> nat \<Rightarrow> int) \<Rightarrow> bool" where
  "ordering cmpfcn \<longleftrightarrow> (\<forall>a b c. cmpfcn a b \<le> 0 \<longrightarrow> cmpfcn b c \<le> 0 \<longrightarrow> cmpfcn a c \<le> 0) \<and> (\<forall>a b. cmpfcn a b \<le> 0 \<or> cmpfcn b a \<le> 0)"

definition ascending :: "(nat \<Rightarrow> nat \<Rightarrow> int) \<Rightarrow> nat list \<Rightarrow> bool" where
  "ascending cmpfcn xs \<longleftrightarrow> sorted_wrt (\<lambda>a b. cmpfcn a b \<le> 0) xs"

lemma ascending_run_merge:
  assumes "ordering cmpfcn" "ascending cmpfcn ps" "ascending cmpfcn qs"
  shows "ascending cmpfcn (run_merge cmpfcn ps qs)"
  using assms
proof (induction cmpfcn ps qs rule: run_merge.induct)
  case (3 cmpfcn p ps q qs)
  have tr: "\<And>a b c. cmpfcn a b \<le> 0 \<Longrightarrow> cmpfcn b c \<le> 0 \<Longrightarrow> cmpfcn a c \<le> 0" and tot: "\<And>a b. cmpfcn a b \<le> 0 \<or> cmpfcn b a \<le> 0"
    using "3.prems"(1) unfolding ordering_def by blast+
  show ?case
  proof (cases "cmpfcn p q \<le> 0")
    case True
    then have "\<forall>x \<in> set ps \<union> set (q # qs). cmpfcn p x \<le> 0" using "3.prems" tr by (auto simp: ascending_def)
    then show ?thesis using True "3.IH"(1) "3.prems" by (auto simp: ascending_def)
  next
    case False
    then have "cmpfcn q p \<le> 0" using tot by blast
    then have "\<forall>x \<in> set (p # ps) \<union> set qs. cmpfcn q x \<le> 0" using "3.prems" tr by (auto simp: ascending_def)
    then show ?thesis using False "3.IH"(2) "3.prems" by (auto simp: ascending_def)
  qed
qed auto

text \<open>All runs of \<open>n\<close> elements are ascending.\<close>

definition runs_ascend :: "(nat \<Rightarrow> nat \<Rightarrow> int) \<Rightarrow> nat \<Rightarrow> nat list \<Rightarrow> bool" where
  "runs_ascend cmpfcn n xs \<longleftrightarrow> (\<forall>i. ascending cmpfcn (take n (drop (i * n) xs)))"

lemma runs_ascend_drop: "runs_ascend cmpfcn n xs \<Longrightarrow> runs_ascend cmpfcn n (drop (k * n) xs)"
  unfolding runs_ascend_def by (metis add_mult_distrib drop_drop)

lemma list_pass_props:
  assumes "0 < n" "length xs < fuel" "ordering cmpfcn" "runs_ascend cmpfcn n xs"
  shows "mset (list_pass fuel cmpfcn n xs) = mset xs \<and> runs_ascend cmpfcn (2 * n) (list_pass fuel cmpfcn n xs)"
  using assms(2,4)
proof (induction fuel arbitrary: xs)
  case (Suc fuel)
  show ?case
  proof (cases "xs = []")
    case True
    then show ?thesis by (simp add: runs_ascend_def ascending_def)
  next
    case False
    let ?m = "run_merge cmpfcn (take n xs) (take n (drop n xs))" and ?r = "list_pass fuel cmpfcn n (drop (2 * n) xs)"
    have "0 < length xs" using False by simp
    then have "length xs - 2 * n < fuel" using Suc.prems(1) assms(1) by linarith
    then have "length (drop (2 * n) xs) < fuel" by simp
    then have ih: "mset ?r = mset (drop (2 * n) xs)" "runs_ascend cmpfcn (2 * n) ?r"
      using Suc.IH [of "drop (2 * n) xs"] runs_ascend_drop [OF Suc.prems(2), of 2] by simp_all
    have "mset (?m @ ?r) = mset (take n xs) + mset (take n (drop n xs)) + mset (drop (2 * n) xs)" using ih by (simp add: mset_run_merge)
    also have "\<dots> = mset (take n xs @ take n (drop n xs) @ drop n (drop n xs))" by (simp add: mult_2)
    also have "\<dots> = mset xs" by (simp only: append_take_drop_id)
    finally have ms: "mset (?m @ ?r) = mset xs" .
    have "ascending cmpfcn (take n (drop (0 * n) xs))" "ascending cmpfcn (take n (drop (1 * n) xs))" using Suc.prems(2) unfolding runs_ascend_def by blast+
    then have am: "ascending cmpfcn ?m" using assms(3) by (simp add: ascending_run_merge)
    have "ascending cmpfcn (take (2 * n) (drop (i * (2 * n)) (?m @ ?r)))" for i
    proof (cases "length ?m = 2 * n")
      case True
      then show ?thesis using am ih(2) by (cases i) (auto simp: runs_ascend_def)
    next
      case short: False
      then have "drop (2 * n) xs = []" by (auto simp: min_def split: if_splits)
      then have "?r = []" by (cases fuel) auto
      moreover have "length ?m \<le> 2 * n" by simp
      ultimately show ?thesis using am assms(1) by (cases i) (auto simp: ascending_def)
    qed
    then show ?thesis using ms False by (simp add: runs_ascend_def)
  qed
qed simp

section \<open>The pointers follow the lists\<close>

text \<open>A path along next pointers, of which only those of its elements matter.\<close>

fun path :: "(nat \<Rightarrow> ptr) \<Rightarrow> ptr \<Rightarrow> nat list \<Rightarrow> ptr \<Rightarrow> bool" where
  "path nf p [] q \<longleftrightarrow> p = q"
| "path nf p (a # xs) q \<longleftrightarrow> p = Some a \<and> path nf (nf a) xs q"

lemma path_append: "path nf p (xs @ ys) q \<longleftrightarrow> (\<exists>r. path nf p xs r \<and> path nf r ys q)"
  by (induction xs arbitrary: p) auto

lemma path_off [simp]: "a \<notin> set xs \<Longrightarrow> path (nf(a := v)) p xs q \<longleftrightarrow> path nf p xs q"
  by (induction xs arbitrary: p) auto

lemma path_cong: "(\<And>a. a \<in> set xs \<Longrightarrow> nf a = ng a) \<Longrightarrow> path nf p xs q \<longleftrightarrow> path ng p xs q"
  by (induction xs arbitrary: p) auto

lemma path_same: "path ng p xs q \<Longrightarrow> (\<And>a. a \<in> set xs \<Longrightarrow> nf a = ng a) \<Longrightarrow> path nf p xs q"
  using path_cong by blast

lemma path_first: "path nf p xs None \<Longrightarrow> p = first xs None"
  by (cases xs) auto

lemma linked_path: "linked nf pf b xs q \<Longrightarrow> path nf (first xs q) xs q"
  by (induction xs arbitrary: b) auto

text \<open>A handle without its pointers in the order of insertion.\<close>

definition app_core :: "ut_mem \<Rightarrow> nat \<Rightarrow> UT_hash_handle option" where
  "app_core m a = map_option (\<lambda>h. h\<lparr>prev := None, next' := None\<rparr>) (handles m a)"

lemma handle_app_core_eq:
  "(h :: UT_hash_handle)\<lparr>prev := None, next' := None\<rparr> = h'\<lparr>prev := None, next' := None\<rparr> \<longleftrightarrow>
     tbl h = tbl h' \<and> hh_prev h = hh_prev h' \<and> hh_next h = hh_next h' \<and> key h = key h' \<and> keylen h = keylen h' \<and> hashv h = hashv h'"
  by (cases h; cases h') auto

lemma app_core_fields:
  assumes "app_core m' = app_core m"
  shows "hn m' = hn m" "hp m' = hp m" "hv m' = hv m" "ekey m' = ekey m" "alive m' = alive m"
    "a \<in> alive m \<Longrightarrow> handle_ok fcn t (the (handles m' a)) \<longleftrightarrow> handle_ok fcn t (the (handles m a))"
proof -
  have f: "hh_next (the (handles m' a)) = hh_next (the (handles m a)) \<and> hh_prev (the (handles m' a)) = hh_prev (the (handles m a)) \<and>
    hashv (the (handles m' a)) = hashv (the (handles m a)) \<and> key (the (handles m' a)) = key (the (handles m a)) \<and>
    (handles m' a = None \<longleftrightarrow> handles m a = None) \<and> (handles m a \<noteq> None \<longrightarrow> tbl (the (handles m' a)) = tbl (the (handles m a)) \<and> keylen (the (handles m' a)) = keylen (the (handles m a)))" for a
    using fun_cong [OF assms, of a] by (cases "handles m a"; cases "handles m' a") (auto simp: app_core_def handle_app_core_eq)
  show "hn m' = hn m" "hp m' = hp m" "hv m' = hv m" "ekey m' = ekey m" "alive m' = alive m"
    using f by (simp_all add: field_defs fun_eq_iff alive_iff set_eq_iff)
  show "a \<in> alive m \<Longrightarrow> handle_ok fcn t (the (handles m' a)) \<longleftrightarrow> handle_ok fcn t (the (handles m a))" using f [of a] by (simp add: handle_ok_def alive_iff)
qed

lemma app_core_set_hh:
  assumes "\<And>h. (f h)\<lparr>prev := None, next' := None\<rparr> = h\<lparr>prev := None, next' := None\<rparr>"
  shows "app_core (set_hh a f m) = app_core m"
  using assms by (auto simp: app_core_def fun_eq_iff option.map_comp comp_def)

text \<open>The result so far is linked; its last element may still point anywhere.\<close>

definition out_ok :: "ut_mem \<times> ptr \<times> ptr \<Rightarrow> nat list \<Rightarrow> bool" where
  "out_ok s out \<longleftrightarrow> fst (snd s) = first out None \<and> snd (snd s) = final None out \<and> distinct out \<and> set out \<subseteq> alive (fst s) \<and>
     (\<exists>x. linked (nx (fst s)) (pv (fst s)) None out x)"

lemma append_elt_appends:
  assumes ok: "out_ok (m, list, tail') out" and e: "e \<in> alive m" "e \<notin> set out"
  shows "\<exists>m' list'. append_elt (Some e) (m, list, tail') = Inr (m', list', Some e) \<and> out_ok (m', list', Some e) (out @ [e]) \<and> app_core m' = app_core m \<and> tables m' = tables m \<and>
    (\<forall>a. a \<notin> set out \<longrightarrow> nx m' a = nx m a)"
proof -
  have o: "list = first out None" "tail' = final None out" "distinct out" "set out \<subseteq> alive m" and "\<exists>x. linked (nx m) (pv m) None out x" using ok by (auto simp: out_ok_def)
  then obtain x where x: "linked (nx m) (pv m) None out x" by blast
  define m1 where "m1 = (case tail' of None \<Rightarrow> m | Some z \<Rightarrow> set_hh z (\<lambda>h. h\<lparr>next' := Some e\<rparr>) m)"
  define m2 where "m2 = set_hh e (\<lambda>h. h\<lparr>prev := tail'\<rparr>) m1"
  have z: "z \<in> set out" if "tail' = Some z" for z using that o(2) final_mem by metis
  have al: "alive m1 = alive m" "alive m2 = alive m" by (simp_all add: m1_def m2_def split: option.split)
  have core: "app_core m2 = app_core m" "tables m2 = tables m" by (simp_all add: m1_def m2_def app_core_set_hh split: option.split)
  have run: "append_elt (Some e) (m, list, tail') = Inr (m2, first (out @ [e]) None, Some e)"
  proof (cases tail')
    case None
    then have "out = []" using o(2) by simp
    then show ?thesis using None e(1) by (simp add: append_elt_def upd_hh_alive m2_def m1_def)
  next
    case (Some y)
    then have "out \<noteq> []" using o(2) by auto
    then have "first (out @ [e]) None = list" using o(1) by (cases out) auto
    then show ?thesis using Some e(1) z [OF Some] o(4) by (auto simp: append_elt_def upd_hh_alive m2_def m1_def subset_iff)
  qed
  have f: "nx m2 = (case tail' of None \<Rightarrow> nx m | Some z \<Rightarrow> (nx m)(z := Some e))" "pv m2 = (pv m)(e := tail')"
    using z o(4) e by (auto simp: m2_def m1_def field_defs alive_iff subset_iff fun_eq_iff split: option.split)
  have "linked (nx m2) (pv m2) None (out @ [e]) (nx m2 e)"
  proof (cases out rule: rev_cases)
    case Nil
    then show ?thesis using f(2) o(2) by simp
  next
    case (snoc ys y)
    then have y: "tail' = Some y" "linked (nx m) (pv m) None ys (Some y)" "pv m y = final None ys" using o(2) x by (auto simp: linked_append)
    have "linked (nx m2) (pv m2) None ys (Some y) = linked (nx m) (pv m) None ys (Some y)" using f y(1) e(2) o(3) snoc by (intro linked_cong) auto
    moreover have "nx m2 y = Some e" "pv m2 y = final None ys" "pv m2 e = Some y" using f y e(2) snoc by auto
    ultimately show ?thesis using y(2) snoc by (simp add: linked_append)
  qed
  then have "out_ok (m2, first (out @ [e]) None, Some e) (out @ [e])" using o e al by (auto simp: out_ok_def)
  moreover have "\<forall>a. a \<notin> set out \<longrightarrow> nx m2 a = nx m a" using f(1) z by (auto split: option.split)
  ultimately show ?thesis using run core by blast
qed

text \<open>A merge from memory \<open>m\<close> has appended \<open>zs\<close>, stopped at \<open>q\<close> and changed next pointers inside \<open>U\<close> only.\<close>

definition merges_to :: "ut_mem \<Rightarrow> nat list \<Rightarrow> nat list \<Rightarrow> ptr \<Rightarrow> nat set \<Rightarrow> (ptr \<times> ut_mem \<times> ptr \<times> ptr) cres \<Rightarrow> bool" where
  "merges_to m out zs q U r \<longleftrightarrow> (\<exists>m' list' tail''. r = Inr (q, m', list', tail'') \<and> out_ok (m', list', tail'') (out @ zs) \<and> app_core m' = app_core m \<and>
     tables m' = tables m \<and> (\<forall>a. a \<notin> U \<longrightarrow> nx m' a = nx m a))"

lemma take_elt:
  assumes ok: "out_ok (m, list, tail') out" and e: "e \<in> alive m" "e \<notin> set out"
  obtains m1 list1 where "advance (Some e) m = Inr (nx m e)" "append_elt (Some e) (m, list, tail') = Inr (m1, list1, Some e)" "out_ok (m1, list1, Some e) (out @ [e])" "alive m1 = alive m"
    "\<And>p xs r. path (nx m) p xs r \<Longrightarrow> set xs \<inter> set out = {} \<Longrightarrow> path (nx m1) p xs r"
    "\<And>zs q U r. merges_to m1 (out @ [e]) zs q U r \<Longrightarrow> set out \<subseteq> U \<Longrightarrow> merges_to m out (e # zs) q U r"
proof -
  obtain m1 l1 where m1: "append_elt (Some e) (m, list, tail') = Inr (m1, l1, Some e)" "out_ok (m1, l1, Some e) (out @ [e])" "app_core m1 = app_core m" "tables m1 = tables m"
      "\<And>b. b \<notin> set out \<Longrightarrow> nx m1 b = nx m b" using append_elt_appends [OF ok e] by blast
  obtain h where "handles m e = Some h" using e(1) alive_handle by blast
  then have "advance (Some e) m = Inr (nx m e)" by (simp add: advance_def nx_def)
  moreover have "path (nx m1) p xs r" if "path (nx m) p xs r" "set xs \<inter> set out = {}" for p xs r
    using that(1) by (rule path_same) (use that(2) m1(5) in blast)
  moreover have "merges_to m out (e # zs) q U r" if "merges_to m1 (out @ [e]) zs q U r" "set out \<subseteq> U" for zs q U r
    using that m1(3-5) by (fastforce simp: merges_to_def)
  ultimately show ?thesis using that [OF _ m1(1,2) app_core_fields(5) [OF m1(3)]] by blast
qed

lemma merge_runs_merges:
  assumes "out_ok (m, list, tail') out" "path (nx m) p ps r" "path (nx m) q (qs @ rest) None" "length qs = qsize \<or> length qs \<le> qsize \<and> rest = []"
    "distinct (out @ ps @ qs @ rest)" "set (ps @ qs @ rest) \<subseteq> alive m" "length ps + length qs < fuel"
  shows "merges_to m out (run_merge cmpfcn ps qs) (first rest None) (set (out @ ps @ qs)) (merge_runs fuel cmpfcn (length ps) p qsize q (m, list, tail'))"
  using assms
proof (induction fuel arbitrary: m list tail' out ps p qs qsize q)
  case (Suc fuel)
  have q: "q = first (qs @ rest) None" using path_first [OF Suc.prems(3)] .
  have take_p: ?case if ps: "ps = a # ps'" and mg: "run_merge cmpfcn ps qs = a # run_merge cmpfcn ps' qs"
    and st: "merge_runs (Suc fuel) cmpfcn (length ps) p qsize q (m, list, tail') =
       bindE (advance_p p m) (\<lambda>p'. bindE (append_elt p (m, list, tail')) (merge_runs fuel cmpfcn (length ps - 1) p' qsize q))" for a ps'
  proof -
    have a: "p = Some a" "a \<in> alive m" "a \<notin> set out" "path (nx m) (nx m a) ps' r" "set ps' \<inter> set out = {}" "set (qs @ rest) \<inter> set out = {}" using ps Suc.prems(2,5,6) by auto
    obtain m1 l1 where m1: "advance (Some a) m = Inr (nx m a)" "append_elt (Some a) (m, list, tail') = Inr (m1, l1, Some a)" "out_ok (m1, l1, Some a) (out @ [a])" "alive m1 = alive m"
        "\<And>p xs r. path (nx m) p xs r \<Longrightarrow> set xs \<inter> set out = {} \<Longrightarrow> path (nx m1) p xs r"
        "\<And>zs q U r. merges_to m1 (out @ [a]) zs q U r \<Longrightarrow> set out \<subseteq> U \<Longrightarrow> merges_to m out (a # zs) q U r" using take_elt [OF Suc.prems(1) a(2,3)] by blast
    have "distinct ((out @ [a]) @ ps' @ qs @ rest)" "set (ps' @ qs @ rest) \<subseteq> alive m1" "length ps' + length qs < fuel" using Suc.prems(5,6,7) ps m1(4) by auto
    from m1(6) [OF Suc.IH [OF m1(3) m1(5) [OF a(4,5)] m1(5) [OF Suc.prems(3) a(6)] Suc.prems(4) this]]
    show ?thesis unfolding st mg unfolding a(1) advance_p_def using m1(1,2) ps by (simp add: subset_insertI2)
  qed
  have take_q: ?case if qs: "qs = b # qs'" and mg: "run_merge cmpfcn ps qs = b # run_merge cmpfcn ps qs'"
    and st: "merge_runs (Suc fuel) cmpfcn (length ps) p qsize q (m, list, tail') =
       bindE (advance q m) (\<lambda>q'. bindE (append_elt q (m, list, tail')) (merge_runs fuel cmpfcn (length ps) p (qsize - 1) q'))" for b qs'
  proof -
    have b: "q = Some b" "b \<in> alive m" "b \<notin> set out" "path (nx m) (nx m b) (qs' @ rest) None" "set (qs' @ rest) \<inter> set out = {}" "set ps \<inter> set out = {}" using qs Suc.prems(3,5,6) by auto
    obtain m1 l1 where m1: "advance (Some b) m = Inr (nx m b)" "append_elt (Some b) (m, list, tail') = Inr (m1, l1, Some b)" "out_ok (m1, l1, Some b) (out @ [b])" "alive m1 = alive m"
        "\<And>p xs r. path (nx m) p xs r \<Longrightarrow> set xs \<inter> set out = {} \<Longrightarrow> path (nx m1) p xs r"
        "\<And>zs q U r. merges_to m1 (out @ [b]) zs q U r \<Longrightarrow> set out \<subseteq> U \<Longrightarrow> merges_to m out (b # zs) q U r" using take_elt [OF Suc.prems(1) b(2,3)] by blast
    have "length qs' = qsize - 1 \<or> length qs' \<le> qsize - 1 \<and> rest = []" "distinct ((out @ [b]) @ ps @ qs' @ rest)" "set (ps @ qs' @ rest) \<subseteq> alive m1" "length ps + length qs' < fuel"
      using Suc.prems(4-7) qs m1(4) by auto
    from m1(6) [OF Suc.IH [OF m1(3) m1(5) [OF Suc.prems(2) b(6)] m1(5) [OF b(4,5)] this]]
    show ?thesis unfolding st mg unfolding b(1) using m1(1,2) qs by (simp add: subset_insertI2)
  qed
  show ?case
  proof (cases qs)
    case Nil
    then have stop: "qsize = 0 \<or> q = None" and rest: "q = first rest None" using Suc.prems(4) q by auto
    show ?thesis
    proof (cases ps)
      case Nil
      then show ?thesis using \<open>qs = []\<close> stop rest Suc.prems(1) by (auto simp: merges_to_def)
    next
      case (Cons a ps')
      then show ?thesis using \<open>qs = []\<close> stop by (intro take_p [OF Cons]) auto
    qed
  next
    case qs: (Cons b qs')
    then have b: "q = Some b" "0 < qsize" using q Suc.prems(4) by auto
    show ?thesis
    proof (cases ps)
      case (Cons a ps')
      have p: "p = Some a" using Suc.prems(2) Cons by simp
      show ?thesis
      proof (cases "cmpfcn a b \<le> 0")
        case True
        then show ?thesis using b p by (intro take_p [OF Cons]) (auto simp: qs Cons)
      next
        case False
        then show ?thesis using b p by (intro take_q [OF qs]) (auto simp: qs Cons)
      qed
    next
      case Nil
      then show ?thesis using b by (intro take_q [OF qs]) (auto simp: qs)
    qed
  qed
qed simp

lemma split_run_splits:
  assumes "path (nx m) p xs None" "xs \<noteq> []" "set xs \<subseteq> alive m"
  shows "split_run n m p = Inr (length (take n xs), first (drop n xs) None)"
  using assms
proof (induction n arbitrary: p xs)
  case 0
  then show ?case using path_first by simp
next
  case (Suc n)
  then obtain a xs' where xs: "xs = a # xs'" by (cases xs) auto
  have a: "p = Some a" "path (nx m) (nx m a) xs' None" "a \<in> alive m" using Suc.prems xs by auto
  then obtain h where h: "handles m a = Some h" using alive_handle by blast
  then have nxt: "next' h = first xs' None" using path_first [OF a(2)] by (simp add: nx_def)
  show ?case
  proof (cases "xs' = []")
    case False
    then have "split_run n m (next' h) = Inr (length (take n xs'), first (drop n xs') None)"
      using Suc.IH [OF a(2) False] Suc.prems(3) xs h by (simp add: nx_def)
    then show ?thesis using False a(1) h nxt xs by simp
  qed (use a(1) h nxt xs in simp)
qed

lemma sort_pass_sorts:
  assumes "out_ok (m, list, tail') out" "path (nx m) p xs None" "distinct (out @ xs)" "set xs \<subseteq> alive m" "length xs < fuel" "0 < n"
  shows "\<exists>c m' list' tail''. sort_pass fuel cmpfcn n p k (m, list, tail') = Inr (k + c, m', list', tail'') \<and> (c = 0 \<longleftrightarrow> xs = []) \<and> (c \<le> 1 \<longleftrightarrow> length xs \<le> 2 * n) \<and>
    out_ok (m', list', tail'') (out @ list_pass fuel cmpfcn n xs) \<and> app_core m' = app_core m \<and> tables m' = tables m"
  using assms(1-5)
proof (induction fuel arbitrary: m list tail' out p xs k)
  case (Suc fuel)
  show ?case
  proof (cases "xs = []")
    case True
    then show ?thesis using Suc.prems by simp
  next
    case False
    define ps qs rest where d: "ps = take n xs" "qs = take n (drop n xs)" "rest = drop (2 * n) xs"
    have xs: "xs = ps @ qs @ rest" unfolding d by (metis append_take_drop_id drop_drop mult_2)
    obtain r where r: "path (nx m) p ps r" "path (nx m) r (qs @ rest) None" using Suc.prems(2) unfolding xs path_append by blast
    have sp: "split_run n m p = Inr (length ps, first (qs @ rest) None)"
      using split_run_splits [OF Suc.prems(2) False Suc.prems(4), of n] by (metis append_take_drop_id d drop_drop mult_2)
    have "length qs = n \<or> length qs \<le> n \<and> rest = []" "length ps + length qs < Suc (length ps + n)" "r = first (qs @ rest) None"
      using path_first [OF r(2)] by (auto simp: d min_def)
    then obtain m1 l1 t1 where m1: "merge_runs (Suc (length ps + n)) cmpfcn (length ps) p n (first (qs @ rest) None) (m, list, tail') = Inr (first rest None, m1, l1, t1)"
        "out_ok (m1, l1, t1) (out @ run_merge cmpfcn ps qs)" "app_core m1 = app_core m" "tables m1 = tables m" "\<And>a. a \<notin> set (out @ ps @ qs) \<Longrightarrow> nx m1 a = nx m a"
      using merge_runs_merges [OF Suc.prems(1) r, of n "Suc (length ps + n)" cmpfcn] Suc.prems(3,4) xs unfolding merges_to_def by metis
    obtain r' where r': "path (nx m) r' rest None" using r(2) unfolding path_append by blast
    have "path (nx m1) (first rest None) rest None"
    proof (rule path_same)
      show "path (nx m) (first rest None) rest None" using r' path_first by metis
      show "nx m1 a = nx m a" if "a \<in> set rest" for a using m1(5) [of a] that Suc.prems(3) xs by auto
    qed
    moreover have "distinct ((out @ run_merge cmpfcn ps qs) @ rest)" using Suc.prems(3) xs mset_eq_imp_distinct_iff [of "run_merge cmpfcn ps qs" "ps @ qs"] by (auto simp: mset_run_merge)
    moreover have "set rest \<subseteq> alive m1" using Suc.prems(4) xs app_core_fields(5) [OF m1(3)] by auto
    moreover have "length rest < fuel" using Suc.prems(5) False assms(6) by (cases xs) (auto simp: d)
    ultimately obtain c m' l' t' where ih: "sort_pass fuel cmpfcn n (first rest None) (k + 1) (m1, l1, t1) = Inr (k + 1 + c, m', l', t')" "c = 0 \<longleftrightarrow> rest = []"
        "out_ok (m', l', t') ((out @ run_merge cmpfcn ps qs) @ list_pass fuel cmpfcn n rest)" "app_core m' = app_core m1" "tables m' = tables m1"
      using Suc.IH [OF m1(2), of "first rest None" rest "k + 1"] by blast
    have p: "p \<noteq> None" using Suc.prems(2) False by (cases xs) auto
    have "sort_pass (Suc fuel) cmpfcn n p k (m, list, tail') = Inr (k + Suc c, m', l', t')" using p sp m1(1) ih(1) by (simp del: first_append merge_runs.simps)
    moreover have "Suc c \<le> 1 \<longleftrightarrow> length xs \<le> 2 * n" using ih(2) by (auto simp: d)
    moreover have "(out @ run_merge cmpfcn ps qs) @ list_pass fuel cmpfcn n rest = out @ list_pass (Suc fuel) cmpfcn n xs" using False by (simp add: d)
    ultimately show ?thesis using ih(3-5) m1(3,4) False by (metis nat.distinct(1))
  qed
qed simp

lemma out_ok_close:
  assumes "out_ok (m, list, tail') ys" "ys \<noteq> []"
  shows "\<exists>m'. upd_hh tail' (\<lambda>h. h\<lparr>next' := None\<rparr>) m = Inr m' \<and> linked (nx m') (pv m') None ys None \<and> app_core m' = app_core m \<and> tables m' = tables m"
proof -
  obtain zs z where ys: "ys = zs @ [z]" using assms(2) by (cases ys rule: rev_cases) auto
  have o: "tail' = Some z" "z \<in> alive m" "distinct ys" and "\<exists>x. linked (nx m) (pv m) None ys x" using assms(1) ys by (auto simp: out_ok_def)
  then obtain x where x: "linked (nx m) (pv m) None ys x" by blast
  let ?m = "set_hh z (\<lambda>h. h\<lparr>next' := None\<rparr>) m"
  have "nx ?m = (nx m)(z := None)" "pv ?m = pv m" using o(2) by (auto simp: field_defs alive_iff fun_eq_iff)
  then have "linked (nx ?m) (pv ?m) None ys None" using x o(3) ys by (simp add: linked_append)
  then show ?thesis using o by (auto simp: upd_hh_alive app_core_set_hh)
qed

lemma sort_passes_sorts:
  assumes "path (nx m) p xs None" "distinct xs" "set xs \<subseteq> alive m" "xs \<noteq> []" "length xs \<le> items" "items < 2 ^ 32"
    "runs_ascend cmpfcn n xs" "ordering cmpfcn" "0 < n" "0 < fuel" "length xs < n + fuel"
  shows "\<exists>m' ys. sort_passes fuel items cmpfcn n p m = Inr (m', first ys None, final None ys) \<and> mset ys = mset xs \<and> ascending cmpfcn ys \<and>
    linked (nx m') (pv m') None ys None \<and> app_core m' = app_core m \<and> tables m' = tables m"
  using assms
proof (induction fuel arbitrary: m p xs n)
  case (Suc fuel)
  define ys where "ys = list_pass (Suc items) cmpfcn n xs"
  have ys: "mset ys = mset xs" "runs_ascend cmpfcn (2 * n) ys" using list_pass_props [of n xs "Suc items" cmpfcn] Suc.prems by (simp_all add: ys_def)
  then have same: "length ys = length xs" "set ys = set xs" "ys \<noteq> []" "distinct ys"
    using Suc.prems(2,4) by (metis mset_eq_length, metis mset_eq_setD, force, metis mset_eq_imp_distinct_iff)
  have "out_ok (m, None, None) []" by (simp add: out_ok_def)
  from sort_pass_sorts [OF this Suc.prems(1), of "Suc items" n cmpfcn 0]
  obtain c m1 l1 t1 where c: "sort_pass (Suc items) cmpfcn n p 0 (m, None, None) = Inr (c, m1, l1, t1)" "c \<le> 1 \<longleftrightarrow> length xs \<le> 2 * n"
      "out_ok (m1, l1, t1) ys" "app_core m1 = app_core m" "tables m1 = tables m"
    using Suc.prems(2,3,5,9) by (auto simp: ys_def)
  obtain m2 where m2: "upd_hh t1 (\<lambda>h. h\<lparr>next' := None\<rparr>) m1 = Inr m2" "linked (nx m2) (pv m2) None ys None" "app_core m2 = app_core m" "tables m2 = tables m"
    using out_ok_close [OF c(3) same(3)] c(4,5) by auto
  have l1: "l1 = first ys None" "t1 = final None ys" "t1 \<noteq> None" using c(3) same(3) by (auto simp: out_ok_def)
  show ?case
  proof (cases "length xs \<le> 2 * n")
    case True
    have "ascending cmpfcn (take (2 * n) (drop (0 * (2 * n)) ys))" using ys(2) unfolding runs_ascend_def by blast
    then have "ascending cmpfcn ys" using True same(1) by simp
    then show ?thesis using True c(1,2) m2 l1 ys(1) by (auto simp del: sort_pass.simps)
  next
    case False
    have "n * 2 mod 2 ^ 32 = 2 * n" "0 < fuel" "length ys < 2 * n + fuel" using False Suc.prems same(1) by auto
    moreover have "path (nx m2) l1 ys None" using linked_path [OF m2(2)] l1(1) by simp
    moreover have "set ys \<subseteq> alive m2" using same(2) Suc.prems(3) app_core_fields(5) [OF m2(3)] by simp
    ultimately have "\<exists>m' zs. sort_passes fuel items cmpfcn (n * 2 mod 2 ^ 32) l1 m2 = Inr (m', first zs None, final None zs) \<and> mset zs = mset ys \<and> ascending cmpfcn zs \<and>
        linked (nx m') (pv m') None zs None \<and> app_core m' = app_core m2 \<and> tables m' = tables m2"
      using Suc.IH [of m2 l1 ys "2 * n"] same ys(2) Suc.prems(5,6,8,9) by simp
    moreover have "sort_passes (Suc fuel) items cmpfcn n p m = sort_passes fuel items cmpfcn (n * 2 mod 2 ^ 32) l1 m2"
      using False c(1,2) m2(1) l1(3) by (simp del: sort_pass.simps)
    ultimately show ?thesis using ys(1) m2(3,4) by metis
  qed
qed simp

lemma HASH_SRT_sorts:
  assumes ok: "uthash_ok fcn m head xs" and ord: "ordering cmpfcn"
  shows "\<exists>head' m' ys. HASH_SRT cmpfcn head m = Inr (head', m') \<and> uthash_ok fcn m' head' ys \<and> mset ys = mset xs \<and> ascending cmpfcn ys \<and>
    ekey m' = ekey m \<and> alive m' = alive m"
proof (cases "xs = []")
  case True
  then show ?thesis using ok by (auto simp: HASH_SRT_def uthash_ok_def ascending_def)
next
  case False
  obtain t T C where h: "head = first xs None" "distinct xs" "linked (nx m) (pv m) None xs None" "tables m = [t \<mapsto> T]" "table_ok m T C (set xs)"
    "\<And>a. a \<in> set xs \<Longrightarrow> handle_ok fcn t (the (handles m a))" "set xs \<subseteq> alive m" "head_tbl m head = Inr (Some t)" "tbl_at m (Some t) = Inr T"
    using ok False by (rule uthash_okE) blast
  have n: "unat (num_items T) = length xs" "length xs < 2 ^ 32" using h(2,5) by (auto simp: table_ok_def distinct_card unat_u32_of_nat)
  have "ascending cmpfcn (take 1 zs)" for zs by (cases zs) (auto simp: ascending_def)
  then have "runs_ascend cmpfcn 1 xs" unfolding runs_ascend_def by blast
  then obtain m1 ys where r: "sort_passes (Suc (length xs)) (length xs) cmpfcn 1 head m = Inr (m1, first ys None, final None ys)" "mset ys = mset xs" "ascending cmpfcn ys"
      "linked (nx m1) (pv m1) None ys None" "app_core m1 = app_core m" "tables m1 = tables m"
    using sort_passes_sorts [of m head xs "length xs" cmpfcn 1 "Suc (length xs)"] linked_path [OF h(3)] h(1,2,7) False n(2) ord by auto
  have ys: "set ys = set xs" "ys \<noteq> []" "distinct ys" using r(2) False h(2) by (metis mset_eq_setD, force, metis mset_eq_imp_distinct_iff)
  define m2 where "m2 = set_tbl t (\<lambda>T. T\<lparr>tail := final None ys\<rparr>) m1"
  have t2: "tables m2 = [t \<mapsto> T\<lparr>tail := final None ys\<rparr>]" using r(6) h(4) by (simp add: m2_def)
  have core2: "app_core m2 = app_core m" using r(5) by (auto simp: m2_def app_core_def set_tbl_def fun_eq_iff)
  note f = app_core_fields [OF core2]
  have "HASH_SRT cmpfcn head m = Inr (first ys None, m2)"
    using h(1,4,8,9) False r(1,6) n(1) by (simp add: HASH_SRT_def m2_def upd_tbl_Some del: sort_passes.simps)
  moreover have "uthash_ok fcn m2 (first ys None) ys"
  proof (rule uthash_okI [OF ys(2,3) _ t2])
    show "linked (nx m2) (pv m2) None ys None" using r(4) by (simp add: m2_def)
    have "chains_ok m2 (buckets T) C (set xs)" using h(5) chains_ok_cong [of m "buckets T" C "set xs" m2] f by (simp add: table_ok_def)
    then show "table_ok m2 (T\<lparr>tail := final None ys\<rparr>) C (set ys)" using h(5) f(5) ys(1) by (simp add: table_ok_def pow2_table_def)
    show "tail (T\<lparr>tail := final None ys\<rparr>) = Some (last ys)" using ys(2) by (simp add: final_last)
    show "handle_ok fcn t (the (handles m2 a))" if "a \<in> set ys" for a using that f(6) [of a] h(6,7) ys(1) by auto
  qed
  ultimately show ?thesis using r(2,3) f(4,5) by blast
qed

section \<open>Property\<close>

lemma table_holds_sorted:
  assumes "table_holds fcn M (head, m) es" "ordering cmpfcn"
  shows "\<exists>head' m' es'. HASH_SRT cmpfcn head m = Inr (head', m') \<and> table_holds fcn M (head', m') es' \<and> mset es' = mset es \<and> ascending cmpfcn (map snd es')"
proof -
  have h: "uthash_ok fcn m head (map snd es)" "\<forall>(k, a) \<in> set es. ekey m a = k" "distinct (map fst es)" "M \<subseteq> alive m" using assms(1) by (auto simp: table_holds_def)
  obtain head' m' ys where r: "HASH_SRT cmpfcn head m = Inr (head', m')" "uthash_ok fcn m' head' ys" "mset ys = mset (map snd es)" "ascending cmpfcn ys" "ekey m' = ekey m" "alive m' = alive m"
    using HASH_SRT_sorts [OF h(1) assms(2)] by blast
  define es' where "es' = map (\<lambda>a. (ekey m a, a)) ys"
  have keys: "map (\<lambda>a. (ekey m a, a)) (map snd es) = es" using h(2) by (auto intro!: map_idI)
  have ms: "mset es' = mset es" unfolding es'_def mset_map [of _ ys] r(3) by (simp only: keys flip: mset_map)
  have "distinct (map fst es')" using h(3) ms by (metis mset_eq_imp_distinct_iff mset_map)
  moreover have "map snd es' = ys" by (simp add: es'_def comp_def)
  moreover have "\<forall>(k, a) \<in> set es'. ekey m' a = k" using r(5) by (auto simp: es'_def)
  ultimately have "table_holds fcn M (head', m') es'" using r(2,6) h(4) by (simp add: table_holds_def)
  then show ?thesis using r(1,4) ms \<open>map snd es' = ys\<close> by metis
qed

text \<open>
  C9. \<^verbatim>\<open>HASH_SRT\<close> sorts: after any sequence of insertions, searches and deletions, sorting by a comparison function (a total preorder)
  ends with the same elements, iterated in ascending order; every key is found as before, and the integrity check passes. The loops use no null or dangling
  pointer and all end.
\<close>

theorem HASH_SRT_correct:
  assumes "ops_allowed M ops []" "M \<subseteq> alive m0" "tables m0 = Map.empty" "\<And>sz. malloc_ok sz \<Longrightarrow> sz < 2 ^ 36" "ordering cmpfcn"
    "run_ops (table_add fcn malloc_ok) (table_find fcn) table_del ops (None, m0) = Inr (outs, head, m)"
  shows "\<exists>head' m' es'. HASH_SRT cmpfcn head m = Inr (head', m') \<and> mset es' = mset (snd (spec_ops ops [])) \<and> table_elements (head', m') = Inr (map snd es') \<and>
    ascending cmpfcn (map snd es') \<and> (\<forall>k. length k < 2 ^ 32 \<longrightarrow> HASH_FIND fcn m' head' k = HASH_FIND fcn m head k) \<and> HASH_FSCK m' head' = Inr ()"
proof -
  have lim: "limited malloc_ok = malloc_ok" using assms(4) by (auto simp: limited_def fun_eq_iff)
  have "table_holds fcn M (None, m0) []" using assms(2,3) by (simp add: table_holds_def uthash_ok_def)
  from ut.run_refines [OF this assms(1), of malloc_ok, unfolded lim]
  have holds: "table_holds fcn M (head, m) (snd (spec_ops ops []))" using assms(6) by auto
  obtain head' m' es' where r: "HASH_SRT cmpfcn head m = Inr (head', m')" "table_holds fcn M (head', m') es'" "mset es' = mset (snd (spec_ops ops []))" "ascending cmpfcn (map snd es')"
    using table_holds_sorted [OF holds assms(5)] by blast
  have "map_of es' = map_of (snd (spec_ops ops []))"
    using r(2,3) holds by (intro map_of_inject_set [THEN iffD2]) (auto simp: table_holds_def dest: mset_eq_setD)
  then have "HASH_FIND fcn m' head' k = HASH_FIND fcn m head k" if "length k < 2 ^ 32" for k
    using table_find_law [OF r(2) that] table_find_law [OF holds that] by (simp add: table_find_def)
  moreover have "uthash_ok fcn m' head' (map snd es')" using r(2) by (simp add: table_holds_def)
  then have "table_elements (head', m') = Inr (map snd es')" "HASH_FSCK m' head' = Inr ()" by (rule table_elements_order, rule HASH_FSCK_passes)
  ultimately show ?thesis using r(1,3,4) by blast
qed

definition two_adds :: "table_op list" where
  "two_adds = [Add [1] 0, Add [2] 1]"

lemma two_added: "\<exists>outs head m. run_ops (table_add (\<lambda>k. 7) (\<lambda>sz. sz < 1000)) (table_find (\<lambda>k. 7)) table_del two_adds (None, four_elements) = Inr (outs, head, m)"
proof -
  have "\<not> (10 :: u32) \<le> 1" "\<not> (10 :: u32) \<le> 2" by (simp_all add: word_le_nat_alt)
  then show ?thesis
    by (simp add: two_adds_def table_add_def four_elements_def blank_handle_def HASH_ADD_KEYPTR_def HASH_MAKE_TABLE_def uthash_malloc_def upd_hh_def hh_at_def deref_in_def set_hh_def upd_tbl_def tbl_at_def set_tbl_def
       head_tbl_def new_table_def HASH_INITIAL_NUM_BUCKETS_def sizeof_hash_table_def sizeof_hash_bucket_def HASH_ADD_TO_BKT_def bucket_at_def upd_bucket_def HASH_TO_BKT_def rd_def wr_def zero_bucket_def HASH_BKT_CAPACITY_THRESH_def)
qed

theorem HASH_SRT_correct_witness:
  "\<exists>outs head m head' m'. run_ops (table_add (\<lambda>k. 7) (\<lambda>sz. sz < 1000)) (table_find (\<lambda>k. 7)) table_del two_adds (None, four_elements) = Inr (outs, head, m) \<and>
     HASH_SRT (\<lambda>a b. int b - int a) head m = Inr (head', m') \<and> table_elements (head', m') = Inr [1, 0] \<and> HASH_FSCK m' head' = Inr ()"
proof -
  let ?cmp = "\<lambda>a b. int b - int a"
  have pre: "ops_allowed {0, 1} two_adds []" "{0, 1} \<subseteq> alive four_elements" "tables four_elements = Map.empty" "ordering ?cmp" "snd (spec_ops two_adds []) = [([1], 0), ([2], 1)]"
    by (auto simp: two_adds_def four_elements_def alive_iff ordering_def)
  have lim: "\<And>sz :: nat. sz < 1000 \<Longrightarrow> sz < 2 ^ 36" by simp
  obtain outs head m where run: "run_ops (table_add (\<lambda>k. 7) (\<lambda>sz. sz < 1000)) (table_find (\<lambda>k. 7)) table_del two_adds (None, four_elements) = Inr (outs, head, m)"
    using two_added by blast
  obtain head' m' es' where r: "HASH_SRT ?cmp head m = Inr (head', m')" "mset es' = mset [([1 :: u8], 0), ([2], 1)]" "table_elements (head', m') = Inr (map snd es')"
      "ascending ?cmp (map snd es')" "HASH_FSCK m' head' = Inr ()"
    using HASH_SRT_correct [OF pre(1-3) lim pre(4) run] unfolding pre(5) by blast
  have ms: "mset (map snd es') = {#0, 1#}" unfolding mset_map r(2) by simp
  have "length (map snd es') = 2" using arg_cong [OF ms, of size] by simp
  then obtain a b where ab: "map snd es' = [a, b]" by (auto simp: length_Suc_conv numeral_2_eq_2)
  have "{a, b} = {0, 1}" using arg_cong [OF ms, of set_mset] ab by simp
  then have "map snd es' = [0, 1] \<or> map snd es' = [1, 0]" using ab by (auto simp: doubleton_eq_iff)
  then have "map snd es' = [1, 0]" using r(4) by (auto simp: ascending_def)
  then show ?thesis using run r(1,3,5) by auto
qed

end
