(* ===== verification/Uthash_Select.thy ===== *)
theory Uthash_Select
  imports Uthash_Map
begin

text \<open>
  \<^verbatim>\<open>HASH_SELECT\<close> of \<^verbatim>\<open>uthash.h\<close>, which adds the elements of one table that satisfy a condition to another one. The elements have two handles, one
  for either table, so that there are two memories with the same addresses of elements: the handles and the table of the source, which
  do not change, and those of the destination.
\<close>

text \<open>An element is selected; the state is the destination's memory, its head and \<^verbatim>\<open>_last_elt\<close>.\<close>

definition select_elt :: "(nat \<Rightarrow> bool) \<Rightarrow> UT_hash_handle \<Rightarrow> nat \<Rightarrow> ut_mem \<times> ptr \<times> ptr \<Rightarrow> (ut_mem \<times> ptr \<times> ptr) cres" where
  "select_elt malloc_ok src_hh elt = (\<lambda>(m, dst, last_elt).
     bindE (upd_hh (Some elt) (\<lambda>h. h\<lparr>key := key src_hh, keylen := keylen src_hh, hashv := hashv src_hh, prev := last_elt, next' := None\<rparr>) m) (\<lambda>m.
     bindE (if last_elt \<noteq> None then upd_hh last_elt (\<lambda>h. h\<lparr>next' := Some elt\<rparr>) m else Inr m) (\<lambda>m.
     bindE (if dst = None
        then bindE (HASH_MAKE_TABLE malloc_ok elt m) (\<lambda>m. Inr (Some elt, m))
        else bindE (head_tbl m dst) (\<lambda>t. bindE (upd_hh (Some elt) (\<lambda>h. h\<lparr>tbl := t\<rparr>) m) (\<lambda>m. Inr (dst, m)))) (\<lambda>(dst, m).
     bindE (hh_at m (Some elt)) (\<lambda>dst_hh. bindE (tbl_at m (tbl dst_hh)) (\<lambda>T.
     bindE (HASH_ADD_TO_BKT malloc_ok (tbl dst_hh) (HASH_TO_BKT (hashv dst_hh) (num_buckets T)) elt m) (\<lambda>m.
     bindE (head_tbl m dst) (\<lambda>t.
     bindE (upd_tbl t (\<lambda>T. T\<lparr>num_items := num_items T + 1\<rparr>) m) (\<lambda>m.
     Inr (m, dst, Some elt))))))))))"

fun select_chain :: "nat \<Rightarrow> (nat \<Rightarrow> bool) \<Rightarrow> (nat \<Rightarrow> bool) \<Rightarrow> ut_mem \<Rightarrow> ptr \<Rightarrow> ut_mem \<times> ptr \<times> ptr \<Rightarrow> (ut_mem \<times> ptr \<times> ptr) cres" where
  "select_chain 0 malloc_ok cond src_mem src_hh s = Inl NoReturn"
| "select_chain (Suc fuel) malloc_ok cond src_mem src_hh s =
     (case src_hh of None \<Rightarrow> Inr s
      | Some elt \<Rightarrow> bindE (hh_at src_mem src_hh) (\<lambda>h.
          bindE (if cond elt then select_elt malloc_ok h elt s else Inr s) (select_chain fuel malloc_ok cond src_mem (hh_next h))))"

definition HASH_SELECT :: "(nat \<Rightarrow> bool) \<Rightarrow> (nat \<Rightarrow> bool) \<Rightarrow> ut_mem \<Rightarrow> ptr \<Rightarrow> ptr \<Rightarrow> ut_mem \<Rightarrow> (ptr \<times> ut_mem) cres" where
  "HASH_SELECT malloc_ok cond src_mem src dst m =
     (if src = None then Inr (dst, m)
      else bindE (head_tbl src_mem src) (\<lambda>t. bindE (tbl_at src_mem t) (\<lambda>T.
        bindE (foldE (\<lambda>i s. bindE (bucket_at src_mem t (of_nat i)) (\<lambda>b. select_chain (Suc (unat (num_items T))) malloc_ok cond src_mem (hh_head b) s))
          [0..<unat (num_buckets T)] (m, dst, None)) (\<lambda>(m, dst, last_elt).
        Inr (dst, m)))))"

section \<open>The tail is not updated\<close>

definition any_key :: "bytes \<Rightarrow> u32" where "any_key k = 7"
definition small :: "nat \<Rightarrow> bool" where "small sz \<longleftrightarrow> sz < 1000"

text \<open>Two elements are added to a table, all its elements are selected into another one, and a third one is added there.\<close>

definition select_then_add :: "(u32 \<times> ptr \<times> nat list \<times> bool) cres" where
  "select_then_add =
     bindE (HASH_ADD_KEYPTR any_key small [1] 0 None four_elements) (\<lambda>(src, ms).
     bindE (HASH_ADD_KEYPTR any_key small [2] 1 src ms) (\<lambda>(src, ms).
     bindE (HASH_SELECT small (\<lambda>a. True) ms src None four_elements) (\<lambda>(dst, m).
     bindE (HASH_ADD_KEYPTR any_key small [3] 2 dst m) (\<lambda>(dst, m).
     bindE (HASH_COUNT m dst) (\<lambda>n. bindE (HASH_FIND any_key m dst [1]) (\<lambda>r. bindE (table_elements (dst, m)) (\<lambda>as.
     Inr (n, r, as, HASH_FSCK m dst = HASH_OOPS))))))))"

lemmas run_defs = HASH_ADD_KEYPTR_def HASH_MAKE_TABLE_def uthash_malloc_def upd_hh_def hh_at_def deref_in_def set_hh_def upd_tbl_def tbl_at_def
  set_tbl_def head_tbl_def new_table_def HASH_INITIAL_NUM_BUCKETS_def sizeof_hash_table_def sizeof_hash_bucket_def HASH_ADD_TO_BKT_def bucket_at_def
  upd_bucket_def HASH_TO_BKT_def rd_def wr_def zero_bucket_def HASH_BKT_CAPACITY_THRESH_def

lemma few: "\<not> (10 :: u32) \<le> 1" "\<not> (10 :: u32) \<le> 2" "\<not> (10 :: u32) \<le> 3"
  by (simp_all add: word_le_nat_alt)

text \<open>The tables on the way: the source, and the destination after the selection and after the third element.\<close>

definition chain_table :: "nat \<Rightarrow> u32 \<Rightarrow> nat \<Rightarrow> UT_hash_table" where
  "chain_table a n z = new_table z\<lparr>buckets := (replicate 32 zero_bucket)[7 := \<lparr>hh_head = Some a, bkt_count = n, expand_mult = 0\<rparr>], num_items := n\<rparr>"

definition hh_of :: "ptr \<Rightarrow> ptr \<Rightarrow> ptr \<Rightarrow> ptr \<Rightarrow> u8 \<Rightarrow> UT_hash_handle" where
  "hh_of p n hp' hn' k = \<lparr>tbl = Some 100, prev = p, next' = n, hh_prev = hp', hh_next = hn', key = [k], keylen = 1, hashv = 7\<rparr>"

definition src_mem :: ut_mem where
  "src_mem = \<lparr>handles = (handles four_elements)(1 \<mapsto> hh_of (Some 0) None None (Some 0) 2, 0 \<mapsto> hh_of None (Some 1) (Some 1) None 1),
     tables = [100 \<mapsto> chain_table 1 2 1], tbl_brk = 101\<rparr>"

definition dst_mem :: ut_mem where
  "dst_mem = \<lparr>handles = (handles four_elements)(0 \<mapsto> hh_of (Some 1) None None (Some 1) 1, 1 \<mapsto> hh_of None (Some 0) (Some 0) None 2),
     tables = [100 \<mapsto> chain_table 0 2 1], tbl_brk = 101\<rparr>"

lemmas test_defs = any_key_def small_def four_elements_def blank_handle_def run_defs few chain_table_def hh_of_def src_mem_def dst_mem_def

lemma source_built: "bindE (HASH_ADD_KEYPTR any_key small [1] 0 None four_elements) (\<lambda>(src, ms). HASH_ADD_KEYPTR any_key small [2] 1 src ms) = Inr (Some 0, src_mem)"
  by (simp add: test_defs)

lemma small_fuel:
  "select_chain 2 = select_chain (Suc (Suc 0))" "HASH_FIND_IN_BKT 2 = HASH_FIND_IN_BKT (Suc (Suc 0))" "HASH_FIND_IN_BKT 3 = HASH_FIND_IN_BKT (Suc (Suc (Suc 0)))"
  "fsck_chain 2 = fsck_chain (Suc (Suc 0))" "fsck_chain 3 = fsck_chain (Suc (Suc (Suc 0)))" "fsck_app 2 = fsck_app (Suc (Suc 0))" "fsck_app 3 = fsck_app (Suc (Suc (Suc 0)))"
  "HASH_ITER 3 = HASH_ITER (Suc (Suc (Suc 0)))" "fsck_chain 4 = fsck_chain (Suc (Suc (Suc (Suc 0))))" "fsck_app 4 = fsck_app (Suc (Suc (Suc (Suc 0))))"
  by (simp_all add: eval_nat_numeral)

lemma all_selected: "HASH_SELECT small (\<lambda>a. True) src_mem (Some 0) None four_elements = Inr (Some 1, dst_mem)"
  by (simp add: test_defs HASH_SELECT_def select_elt_def upt_conv_Cons small_fuel)

definition dst_mem2 :: ut_mem where
  "dst_mem2 = \<lparr>handles = (handles four_elements)(0 \<mapsto> hh_of (Some 1) None (Some 2) (Some 1) 1, 1 \<mapsto> hh_of None (Some 2) (Some 0) None 2,
     2 \<mapsto> hh_of (Some 1) None None (Some 0) 3), tables = [100 \<mapsto> chain_table 2 3 2], tbl_brk = 101\<rparr>"

lemma third_added: "HASH_ADD_KEYPTR any_key small [3] 2 (Some 1) dst_mem = Inr (Some 1, dst_mem2)"
  by (simp add: test_defs dst_mem2_def) (simp add: fun_eq_iff)

lemma third_count: "HASH_COUNT dst_mem2 (Some 1) = Inr 3"
  by (simp add: test_defs dst_mem2_def HASH_COUNT_def)

lemma third_find: "HASH_FIND any_key dst_mem2 (Some 1) [1] = Inr (Some 0)"
  by (simp add: test_defs dst_mem2_def HASH_FIND_def small_fuel HASH_KEYCMP_def rd_slice_def)

lemma third_elements: "table_elements (Some 1, dst_mem2) = Inr [1, 2]"
  unfolding table_elements_def iterate_def prod.case fst_conv third_count by (simp add: test_defs dst_mem2_def small_fuel)

lemma third_fsck: "HASH_FSCK dst_mem2 (Some 1) = HASH_OOPS"
  by (simp add: test_defs dst_mem2_def HASH_FSCK_def fsck_bucket_def upt_conv_Cons small_fuel HASH_OOPS_def)

text \<open>
  \<^verbatim>\<open>HASH_SELECT\<close> leaves the tail of the new table at the first selected element: an element added afterwards is linked behind that
  one. Of three elements the table counts, the second selected one is still found by its key, but an iteration does not visit it, and the integrity
  check ends the process.
\<close>

theorem select_loses_tail: "select_then_add = Inr (3, Some 0, [1, 2], True)"
proof -
  have "select_then_add =
     bindE (bindE (HASH_ADD_KEYPTR any_key small [1] 0 None four_elements) (\<lambda>(src, ms). HASH_ADD_KEYPTR any_key small [2] 1 src ms)) (\<lambda>(src, ms).
     bindE (HASH_SELECT small (\<lambda>a. True) ms src None four_elements) (\<lambda>(dst, m).
     bindE (HASH_ADD_KEYPTR any_key small [3] 2 dst m) (\<lambda>(dst, m).
     bindE (HASH_COUNT m dst) (\<lambda>n. bindE (HASH_FIND any_key m dst [1]) (\<lambda>r. bindE (table_elements (dst, m)) (\<lambda>as.
     Inr (n, r, as, HASH_FSCK m dst = HASH_OOPS)))))))"
    by (simp add: select_then_add_def bindE_assoc case_prod_beta')
  then show ?thesis unfolding source_built bindE_Inr prod.case all_selected third_added third_count third_find third_elements third_fsck by simp
qed

section \<open>A table that is in use\<close>

text \<open>One element is added to the destination first, then two are selected into it.\<close>

definition used_mem :: ut_mem where
  "used_mem = \<lparr>handles = (handles four_elements)(2 \<mapsto> hh_of None None None None 3), tables = [100 \<mapsto> chain_table 2 1 2], tbl_brk = 101\<rparr>"

definition joined_mem :: ut_mem where
  "joined_mem = \<lparr>handles = (handles four_elements)(0 \<mapsto> hh_of (Some 1) None None (Some 1) 1, 1 \<mapsto> hh_of None (Some 0) (Some 0) (Some 2) 2,
     2 \<mapsto> hh_of None None (Some 1) None 3), tables = [100 \<mapsto> chain_table 0 3 2], tbl_brk = 101\<rparr>"

lemma used_built: "HASH_ADD_KEYPTR any_key small [3] 2 None four_elements = Inr (Some 2, used_mem)"
  by (simp add: test_defs used_mem_def)

lemma used_joined: "HASH_SELECT small (\<lambda>a. True) src_mem (Some 0) (Some 2) used_mem = Inr (Some 2, joined_mem)"
  by (simp add: test_defs HASH_SELECT_def select_elt_def upt_conv_Cons small_fuel used_mem_def joined_mem_def) (simp add: fun_eq_iff)

lemma joined_count: "HASH_COUNT joined_mem (Some 2) = Inr 3"
  by (simp add: test_defs joined_mem_def HASH_COUNT_def)

text \<open>
  \<^verbatim>\<open>HASH_SELECT\<close> into a table that has an element already: the selected elements are counted and found by their keys, but they are linked among themselves
  only, so that an iteration visits the old element alone.
\<close>

theorem select_into_used_table:
  "bindE (HASH_ADD_KEYPTR any_key small [3] 2 None four_elements) (\<lambda>(dst, m). bindE (HASH_SELECT small (\<lambda>a. True) src_mem (Some 0) dst m) (\<lambda>(dst, m).
     bindE (HASH_COUNT m dst) (\<lambda>n. bindE (HASH_FIND any_key m dst [1]) (\<lambda>r. bindE (table_elements (dst, m)) (\<lambda>as. Inr (n, r, as)))))) = Inr (3, Some 0, [2])"
proof -
  have "HASH_FIND any_key joined_mem (Some 2) [1] = Inr (Some 0)" by (simp add: test_defs joined_mem_def HASH_FIND_def small_fuel HASH_KEYCMP_def rd_slice_def)
  moreover have "table_elements (Some 2, joined_mem) = Inr [2]" unfolding table_elements_def iterate_def prod.case fst_conv joined_count
    by (simp add: test_defs joined_mem_def small_fuel)
  ultimately show ?thesis unfolding used_built bindE_Inr prod.case used_joined joined_count by simp
qed

end
