(* ===== verification/Uthash_Selected.thy ===== *)
theory Uthash_Selected
  imports Uthash_Select "HOL-Library.Multiset"
begin

text \<open>
  What \<^verbatim>\<open>HASH_SELECT\<close> makes of any source table, up to the tail of the new one that \<open>Uthash_Select\<close> shows to be wrong: an invariant of the
  destination with the elements selected so far, its preservation by one element, one bucket and the whole loop, and the observations of the result.
\<close>

section \<open>What is selected\<close>

text \<open>The tail of a table is only used to add and delete.\<close>

lemma find_same_handles: "handles m' = handles m \<Longrightarrow> HASH_FIND_IN_BKT fuel m' k p = HASH_FIND_IN_BKT fuel m k p"
proof (induction fuel arbitrary: p)
  case (Suc fuel)
  then show ?case by (simp add: hh_at_def cong: if_cong)
qed simp

lemma fsck_same_handles:
  "handles m' = handles m \<Longrightarrow> fsck_chain fuel m' b p n = fsck_chain fuel m b p n"
  "handles m' = handles m \<Longrightarrow> fsck_app fuel m' b p n = fsck_app fuel m b p n"
proof -
  show "handles m' = handles m \<Longrightarrow> fsck_chain fuel m' b p n = fsck_chain fuel m b p n"
    by (induction fuel arbitrary: b p n) (simp_all add: hh_at_def cong: if_cong)
  show "handles m' = handles m \<Longrightarrow> fsck_app fuel m' b p n = fsck_app fuel m b p n"
    by (induction fuel arbitrary: b p n) (simp_all add: hh_at_def cong: if_cong)
qed

lemma tail_not_read:
  fixes m :: ut_mem and t :: nat and x :: ptr
  defines "m' \<equiv> set_tbl t (\<lambda>T. T\<lparr>tail := x\<rparr>) m"
  shows "HASH_FIND fcn m' head k = HASH_FIND fcn m head k" "HASH_FSCK m' head = HASH_FSCK m head" "HASH_COUNT m' head = HASH_COUNT m head"
proof -
  have h: "handles m' = handles m" by (simp add: m'_def)
  have hd: "head_tbl m' p = head_tbl m p" for p by (simp add: head_tbl_def hh_at_def h)
  have tb: "bindE (tbl_at m' p) f = bindE (tbl_at m p) f" if "\<And>T. f (T\<lparr>tail := x\<rparr>) = f T" for p and f :: "UT_hash_table \<Rightarrow> 'b cres"
    using that by (cases p) (auto simp: tbl_at_def deref_in_def m'_def split: option.split)
  have bk: "bucket_at m' p i = bucket_at m p i" for p i unfolding bucket_at_def by (rule tb) simp
  have fb: "fsck_bucket m' p f i c = fsck_bucket m p f i c" for p f i c by (simp add: fsck_bucket_def bk fsck_same_handles(1) [OF h])
  show "HASH_FIND fcn m' head k = HASH_FIND fcn m head k" by (simp add: HASH_FIND_def hd tb bk find_same_handles [OF h] cong: if_cong del: HASH_FIND_IN_BKT.simps)
  show "HASH_FSCK m' head = HASH_FSCK m head" 
  proof -
    have "fsck_bucket m' = fsck_bucket m" using fb by blast
    then show ?thesis by (simp add: HASH_FSCK_def hd tb fsck_same_handles(2) [OF h] Let_def cong: if_cong del: fsck_app.simps)
  qed
  show "HASH_COUNT m' head = HASH_COUNT m head" by (simp add: HASH_COUNT_def hd tb cong: if_cong)
qed

text \<open>The destination with the elements \<open>xs\<close> selected so far, with the keys they have in the source.\<close>

definition sel_ok :: "(bytes \<Rightarrow> u32) \<Rightarrow> ut_mem \<Rightarrow> ut_mem \<Rightarrow> ptr \<Rightarrow> nat list \<Rightarrow> bool" where
  "sel_ok fcn sm m dst xs \<longleftrightarrow> dst = first xs None \<and> distinct xs \<and> linked (nx m) (pv m) None xs None \<and> (\<forall>a \<in> set xs. ekey m a = ekey sm a) \<and>
     (if xs = [] then tables m = Map.empty
      else \<exists>t T C. tables m = [t \<mapsto> T] \<and> table_ok m T C (set xs) \<and> tail T = Some (hd xs) \<and> (\<forall>a \<in> set xs. handle_ok fcn t (the (handles m a))))"

lemma sel_ok_repaired:
  assumes "sel_ok fcn sm m dst xs" "xs \<noteq> []"
  obtains t T where "tables m = [t \<mapsto> T]" "tail T = Some (hd xs)" "uthash_ok fcn (set_tbl t (\<lambda>T. T\<lparr>tail := Some (last xs)\<rparr>) m) dst xs"
proof -
  obtain t T C where h: "dst = first xs None" "distinct xs" "linked (nx m) (pv m) None xs None" "tables m = [t \<mapsto> T]" "table_ok m T C (set xs)" "tail T = Some (hd xs)"
    "\<And>a. a \<in> set xs \<Longrightarrow> handle_ok fcn t (the (handles m a))" using assms by (auto simp: sel_ok_def)
  let ?m = "set_tbl t (\<lambda>T. T\<lparr>tail := Some (last xs)\<rparr>) m"
  have "chains_ok ?m (buckets T) C (set xs)" using h(5) chains_ok_cong [of m "buckets T" C "set xs" ?m] by (simp add: table_ok_def)
  then have "table_ok ?m (T\<lparr>tail := Some (last xs)\<rparr>) C (set xs)" using h(5) by (simp add: table_ok_def pow2_table_def)
  then have "uthash_ok fcn ?m (first xs None) xs" using assms(2) h by (intro uthash_okI) auto
  then show ?thesis using that h(1,4,6) by blast
qed

text \<open>The process ends for want of memory, or the result has a property.\<close>

definition done_or_exit :: "('a \<Rightarrow> bool) \<Rightarrow> 'a cres \<Rightarrow> bool" where
  "done_or_exit P r \<longleftrightarrow> r = Inl (ExitProcess (-1)) \<or> (\<exists>s. r = Inr s \<and> P s)"

lemma done_or_exit_bind: "done_or_exit P r \<Longrightarrow> (\<And>s. P s \<Longrightarrow> done_or_exit Q (f s)) \<Longrightarrow> done_or_exit Q (bindE r f)"
  unfolding done_or_exit_def by fastforce

text \<open>An element that is linked behind the selected ones joins its bucket, and is counted.\<close>

lemma select_finish:
  assumes lk: "linked (nx m) (pv m) None (xs @ [e]) None" "distinct (xs @ [e])" and tb: "tables m = [t \<mapsto> T]" "pow2_table T" "tail T = Some (hd (xs @ [e]))"
      "num_items T = of_nat (length xs)" and ch: "chains_ok m (buckets T) C (set xs)" and al: "set (xs @ [e]) \<subseteq> alive m"
    and hs: "\<And>b. b \<in> set (xs @ [e]) \<Longrightarrow> handle_ok fcn t (the (handles m b)) \<and> ekey m b = ekey sm b" and len: "length xs < 2 ^ 32 - 1"
    and room: "xs = [] \<Longrightarrow> \<not> crowded T (hv m e)" and big: "\<not> malloc_ok (2 ^ 36)"
  shows "done_or_exit (\<lambda>m'. sel_ok fcn sm m' (first (xs @ [e]) None) (xs @ [e]) \<and> alive m' = alive m)
    (bindE (HASH_ADD_TO_BKT malloc_ok (Some t) (HASH_TO_BKT (hv m e) (num_buckets T)) e m) (\<lambda>m. bindE (head_tbl m (first (xs @ [e]) None)) (\<lambda>t.
     upd_tbl t (\<lambda>T. T\<lparr>num_items := num_items T + 1\<rparr>) m)))"
proof -
  have e: "e \<notin> set xs" "e \<in> alive m" "set xs \<subseteq> alive m" and card: "card (set xs) = length xs" using lk(2) al by (auto simp: distinct_card)
  have t: "tables m t = Some T" using tb(1) by simp
  have n: "unat (num_items T) = card (set xs)" "card (set xs) < 2 ^ 32 - 1" using tb(4) len card by (simp_all add: unat_u32_of_nat)
  then have le: "card (set xs) \<le> unat (num_items T)" "crowded T (hv m e) \<longrightarrow> num_items T \<noteq> 0" using room card by auto
  from add_to_bkt [where malloc_ok = malloc_ok, OF tb(2) t ch e(2,1,3) finite_set n(2) le big]
  show ?thesis
  proof (elim disjE exE conjE)
    fix m1 T' C' assume r: "HASH_ADD_TO_BKT malloc_ok (Some t) (HASH_TO_BKT (hv m e) (num_buckets T)) e m = Inr m1" "tables m1 = (tables m)(t \<mapsto> T')" "chained m1 T' C' (insert e (set xs))"
      "core m1 = core m" "tail T' = tail T" "num_items T' = num_items T"
    note g = core_fields [OF r(4)]
    define T2 where "T2 = T'\<lparr>num_items := num_items T' + 1\<rparr>"
    define m2 where "m2 = set_tbl t (\<lambda>T. T\<lparr>num_items := num_items T + 1\<rparr>) m1"
    have h1: "handle_ok fcn t (the (handles m1 b))" if "b \<in> set (xs @ [e])" for b using handle_ok_core [OF r(4), of b fcn t] hs [OF that] al that by auto
    have t2: "tables m2 = [t \<mapsto> T2]" using r(2) tb(1) by (simp add: m2_def T2_def)
    have f: "nx m2 = nx m" "pv m2 = pv m" "ekey m2 = ekey m" "alive m2 = alive m" using g by (simp_all add: m2_def)
    have "chains_ok m2 (buckets T2) C' (insert e (set xs))" using r(3) chains_ok_cong [of m1 "buckets T'" C' "insert e (set xs)" m2] by (simp add: chained_def m2_def T2_def)
    then have "table_ok m2 T2 C' (set (xs @ [e]))" using r(3,6) tb(4) card e(1) g(5) f(4) by (simp add: table_ok_def chained_def T2_def pow2_table_def)
    moreover have "tail T2 = Some (hd (xs @ [e]))" using r(5) tb(3) by (simp add: T2_def)
    moreover have "\<forall>a \<in> set (xs @ [e]). handle_ok fcn t (the (handles m2 a)) \<and> ekey m2 a = ekey sm a" using h1 hs f(3) by (simp add: m2_def)
    ultimately have "sel_ok fcn sm m2 (first (xs @ [e]) None) (xs @ [e])" unfolding sel_ok_def using lk t2 f by auto
    moreover have "head_tbl m1 (first (xs @ [e]) None) = Inr (Some t)"
    proof -
      obtain b where b: "first (xs @ [e]) None = Some b" "b \<in> set (xs @ [e])" by (cases xs) auto
      then obtain hb where "handles m1 b = Some hb" using al g(5) alive_handle by blast
      then show ?thesis using h1 [OF b(2)] b(1) by (simp add: head_tbl_def handle_ok_def del: first_append)
    qed
    ultimately show ?thesis using r(1,2) f(4) by (simp add: done_or_exit_def upd_tbl_Some m2_def del: first_append)
  qed (simp add: done_or_exit_def)
qed

text \<open>The handle of a selected element, and its link with the last one.\<close>

definition sel_link :: "UT_hash_handle \<Rightarrow> nat \<Rightarrow> ptr \<Rightarrow> ut_mem \<Rightarrow> ut_mem" where
  "sel_link h e l m =
     (let m = set_hh e (\<lambda>g. g\<lparr>key := key h, keylen := keylen h, hashv := hashv h, prev := l, next' := None\<rparr>) m in
      case l of None \<Rightarrow> m | Some z \<Rightarrow> set_hh z (\<lambda>g. g\<lparr>next' := Some e\<rparr>) m)"

lemma sel_link_simps [simp]: "tables (sel_link h e l m) = tables m" "alive (sel_link h e l m) = alive m"
  by (simp_all add: sel_link_def Let_def split: option.split)

lemma sel_link_fields:
  assumes "e \<in> alive m" "set_option l \<subseteq> alive m" "l \<noteq> Some e"
  shows "nx (sel_link h e l m) = (case l of None \<Rightarrow> (nx m)(e := None) | Some z \<Rightarrow> ((nx m)(e := None))(z := Some e))"
    "pv (sel_link h e l m) = (pv m)(e := l)" "hn (sel_link h e l m) = hn m" "hp (sel_link h e l m) = hp m"
    "hv (sel_link h e l m) = (hv m)(e := hashv h)" "ekey (sel_link h e l m) = (ekey m)(e := key h)"
  using assms by (auto simp: sel_link_def Let_def alive_iff field_defs fun_eq_iff split: option.split)

lemma sel_link_handle:
  assumes "e \<in> alive m" "set_option l \<subseteq> alive m" "l \<noteq> Some e"
  shows "b \<noteq> e \<Longrightarrow> b \<in> alive m \<Longrightarrow> handle_ok fcn t (the (handles (sel_link h e l m) b)) \<longleftrightarrow> handle_ok fcn t (the (handles m b))"
    "\<exists>g. handles (sel_link h e l m) e = Some g \<and> key g = key h \<and> keylen g = keylen h \<and> hashv g = hashv h"
  using assms by (auto simp: sel_link_def Let_def alive_iff handle_ok_def split: option.split)

text \<open>\<open>select_elt\<close> in three parts: the link, the table, and the bucket.\<close>

lemma select_elt_run:
  assumes "e \<in> alive m" "set_option l \<subseteq> alive m" "l \<noteq> Some e"
  shows "select_elt malloc_ok h e (m, dst, l) =
    bindE (if dst = None then bindE (HASH_MAKE_TABLE malloc_ok e (sel_link h e l m)) (\<lambda>m. Inr (Some e, m))
           else bindE (head_tbl (sel_link h e l m) dst) (\<lambda>t. bindE (upd_hh (Some e) (\<lambda>h. h\<lparr>tbl := t\<rparr>) (sel_link h e l m)) (\<lambda>m. Inr (dst, m)))) (\<lambda>(dst, m).
     bindE (hh_at m (Some e)) (\<lambda>g. bindE (tbl_at m (tbl g)) (\<lambda>T.
     bindE (HASH_ADD_TO_BKT malloc_ok (tbl g) (HASH_TO_BKT (hashv g) (num_buckets T)) e m) (\<lambda>m.
     bindE (head_tbl m dst) (\<lambda>t. bindE (upd_tbl t (\<lambda>T. T\<lparr>num_items := num_items T + 1\<rparr>) m) (\<lambda>m. Inr (m, dst, Some e)))))))"
  using assms by (cases l) (simp_all add: select_elt_def upd_hh_alive sel_link_def)

lemma select_tail:
  assumes "handles m e = Some g" "tbl g = Some t" "tables m t = Some T"
    and "done_or_exit P (bindE (HASH_ADD_TO_BKT malloc_ok (Some t) (HASH_TO_BKT (hv m e) (num_buckets T)) e m) (\<lambda>m. bindE (head_tbl m dst) (\<lambda>t.
       upd_tbl t (\<lambda>T. T\<lparr>num_items := num_items T + 1\<rparr>) m)))"
  shows "done_or_exit (\<lambda>(m', dst', l). P m' \<and> dst' = dst \<and> l = Some e) (bindE (hh_at m (Some e)) (\<lambda>g. bindE (tbl_at m (tbl g)) (\<lambda>T.
     bindE (HASH_ADD_TO_BKT malloc_ok (tbl g) (HASH_TO_BKT (hashv g) (num_buckets T)) e m) (\<lambda>m.
     bindE (head_tbl m dst) (\<lambda>t. bindE (upd_tbl t (\<lambda>T. T\<lparr>num_items := num_items T + 1\<rparr>) m) (\<lambda>m. Inr (m, dst, Some e)))))))"
proof -
  have "hashv g = hv m e" using assms(1) by (simp add: hv_def)
  then have "bindE (hh_at m (Some e)) (\<lambda>g. bindE (tbl_at m (tbl g)) (\<lambda>T.
     bindE (HASH_ADD_TO_BKT malloc_ok (tbl g) (HASH_TO_BKT (hashv g) (num_buckets T)) e m) (\<lambda>m.
     bindE (head_tbl m dst) (\<lambda>t. bindE (upd_tbl t (\<lambda>T. T\<lparr>num_items := num_items T + 1\<rparr>) m) (\<lambda>m. Inr (m, dst, Some e)))))) =
    bindE (bindE (HASH_ADD_TO_BKT malloc_ok (Some t) (HASH_TO_BKT (hv m e) (num_buckets T)) e m) (\<lambda>m. bindE (head_tbl m dst) (\<lambda>t.
       upd_tbl t (\<lambda>T. T\<lparr>num_items := num_items T + 1\<rparr>) m))) (\<lambda>m. Inr (m, dst, Some e))"
    using assms(1-3) by (simp add: bindE_assoc)
  moreover have "done_or_exit (\<lambda>(m', dst', l). P m' \<and> dst' = dst \<and> l = Some e) (bindE r (\<lambda>m. Inr (m, dst, Some e)))" if "done_or_exit P r" for r
    using that by (auto simp: done_or_exit_def)
  ultimately show ?thesis using assms(4) by simp
qed

abbreviation selected :: "(bytes \<Rightarrow> u32) \<Rightarrow> ut_mem \<Rightarrow> nat set \<Rightarrow> nat list \<Rightarrow> ut_mem \<times> ptr \<times> ptr \<Rightarrow> bool" where
  "selected fcn sm M xs s \<equiv> sel_ok fcn sm (fst s) (fst (snd s)) xs \<and> snd (snd s) = final None xs \<and> alive (fst s) = M"

text \<open>The rest, once the element is linked and its handle points to the table.\<close>

lemma select_linked:
  assumes lk: "linked (nx m) (pv m) None (xs @ [e]) None" "distinct (xs @ [e])" "set (xs @ [e]) \<subseteq> alive m"
    and g: "handles m e = Some g" "handle_ok fcn t (g\<lparr>tbl := Some t\<rparr>)" and keys: "\<forall>b \<in> set (xs @ [e]). ekey m b = ekey sm b"
    and hs: "\<forall>b \<in> set xs. handle_ok fcn t (the (handles m b))"
    and T: "pow2_table T" "tail T = Some (hd (xs @ [e]))" "num_items T = of_nat (length xs)" "chains_ok m (buckets T) C (set xs)" "xs = [] \<longrightarrow> \<not> crowded T (hashv g)"
    and len: "length xs < 2 ^ 32 - 1" and big: "\<not> malloc_ok (2 ^ 36)"
    and m': "handles m' = (handles m)(e \<mapsto> g\<lparr>tbl := Some t\<rparr>)" "tables m' = [t \<mapsto> T]"
  shows "done_or_exit (selected fcn sm (alive m) (xs @ [e])) (bindE (hh_at m' (Some e)) (\<lambda>g. bindE (tbl_at m' (tbl g)) (\<lambda>T.
     bindE (HASH_ADD_TO_BKT malloc_ok (tbl g) (HASH_TO_BKT (hashv g) (num_buckets T)) e m') (\<lambda>m.
     bindE (head_tbl m (first (xs @ [e]) None)) (\<lambda>t. bindE (upd_tbl t (\<lambda>T. T\<lparr>num_items := num_items T + 1\<rparr>) m) (\<lambda>m. Inr (m, first (xs @ [e]) None, Some e)))))))"
proof -
  have f: "nx m' = nx m" "pv m' = pv m" "hn m' = hn m" "hp m' = hp m" "hv m' = hv m" "ekey m' = ekey m" "alive m' = alive m"
    using m'(1) g(1) by (auto simp: field_defs fun_eq_iff alive_def dom_def)
  have "handle_ok fcn t (the (handles m' b)) \<and> ekey m' b = ekey sm b" if b: "b \<in> set (xs @ [e])" for b
    using m'(1) g(2) hs keys f(6) b by auto
  moreover have "chains_ok m' (buckets T) C (set xs)" by (rule chains_ok_cong [OF T(4)]) (simp add: f)
  moreover have "xs = [] \<Longrightarrow> \<not> crowded T (hv m' e)" using T(5) f(5) g(1) by (simp add: hv_def)
  ultimately have "done_or_exit (\<lambda>x. sel_ok fcn sm x (first (xs @ [e]) None) (xs @ [e]) \<and> alive x = alive m')
    (bindE (HASH_ADD_TO_BKT malloc_ok (Some t) (HASH_TO_BKT (hv m' e) (num_buckets T)) e m') (\<lambda>m. bindE (head_tbl m (first (xs @ [e]) None)) (\<lambda>t.
     upd_tbl t (\<lambda>T. T\<lparr>num_items := num_items T + 1\<rparr>) m)))"
    using lk T(1-3) m'(2) len big f(1,2,7) by (intro select_finish [where C = C]) auto
  from select_tail [OF _ _ _ this, of "g\<lparr>tbl := Some t\<rparr>"] show ?thesis
    using m' f(7) by (auto simp: done_or_exit_def simp del: first_append)
qed

text \<open>What holds once an element is linked behind the selected ones, whether or not it is the first.\<close>

lemma sel_link_ready:
  assumes ok: "sel_ok fcn sm m dst xs" and h: "handles sm e = Some h" "handle_ok fcn ts h" and e: "e \<in> alive m" "e \<notin> set xs"
  defines "mB \<equiv> sel_link h e (final None xs) m"
  shows "set_option (final None xs) \<subseteq> alive m" "final None xs \<noteq> Some e" "linked (nx mB) (pv mB) None (xs @ [e]) None" "distinct (xs @ [e])" "set (xs @ [e]) \<subseteq> alive mB"
    "\<forall>b \<in> set (xs @ [e]). ekey mB b = ekey sm b" "\<exists>g. handles mB e = Some g \<and> hashv g = hashv h \<and> (\<forall>t. handle_ok fcn t (g\<lparr>tbl := Some t\<rparr>))"
    "hn mB = hn m" "hp mB = hp m" "hv mB = (hv m)(e := hashv h)"
    "\<And>b t. b \<in> set xs \<Longrightarrow> handle_ok fcn t (the (handles mB b)) \<longleftrightarrow> handle_ok fcn t (the (handles m b))"
proof -
  have x: "distinct xs" "linked (nx m) (pv m) None xs None" "\<And>a. a \<in> set xs \<Longrightarrow> ekey m a = ekey sm a" using ok by (auto simp: sel_ok_def)
  have xs_al: "set xs \<subseteq> alive m" using ok by (cases "xs = []") (auto simp: sel_ok_def table_ok_def)
  show l: "set_option (final None xs) \<subseteq> alive m" "final None xs \<noteq> Some e" using e(2) xs_al final_mem [of xs] by auto
  note f = sel_link_fields [OF e(1) l, of h, folded mB_def] and g = sel_link_handle [OF e(1) l, where h = h, folded mB_def]
  show "hn mB = hn m" "hp mB = hp m" "hv mB = (hv m)(e := hashv h)" using f by auto
  show "linked (nx mB) (pv mB) None (xs @ [e]) None" "distinct (xs @ [e])" "set (xs @ [e]) \<subseteq> alive mB"
    using linked_snoc [OF x(2) e(2) x(1)] f(1,2) x(1) e xs_al by (auto simp: mB_def)
  show "\<forall>b \<in> set (xs @ [e]). ekey mB b = ekey sm b" using f(6) x(3) h(1) by (auto simp: ekey_def)
  show "\<exists>g. handles mB e = Some g \<and> hashv g = hashv h \<and> (\<forall>t. handle_ok fcn t (g\<lparr>tbl := Some t\<rparr>))" using g(2) h(2) by (auto simp: handle_ok_def)
  show "handle_ok fcn t (the (handles mB b)) \<longleftrightarrow> handle_ok fcn t (the (handles m b))" if "b \<in> set xs" for b t
    using g(1) [of b fcn t] that e(2) xs_al by auto
qed

lemma select_first:
  assumes ok: "sel_ok fcn sm m dst []" and h: "handles sm e = Some h" "handle_ok fcn ts h" and e: "e \<in> alive m" and big: "\<not> malloc_ok (2 ^ 36)"
  shows "done_or_exit (selected fcn sm (alive m) [e]) (select_elt malloc_ok h e (m, dst, None))"
proof -
  have new_e: "e \<notin> set []" by simp
  note ready = sel_link_ready [OF ok h e new_e]
  define mB where "mB = sel_link h e None m"
  obtain g where g: "handles mB e = Some g" "hashv g = hashv h" "\<And>t. handle_ok fcn t (g\<lparr>tbl := Some t\<rparr>)" using ready(7) by (auto simp: mB_def)
  let ?t = "tbl_brk mB"
  let ?mC = "set_hh e (\<lambda>h. h\<lparr>tbl := Some ?t\<rparr>) (mB\<lparr>tables := (tables mB)(?t \<mapsto> new_table e), tbl_brk := Suc ?t\<rparr>)"
  have dst: "dst = None" "tables m = Map.empty" using ok by (auto simp: sel_ok_def)
  have new: "pow2_table (new_table e)" "tail (new_table e) = Some (hd ([] @ [e]))" "num_items (new_table e) = of_nat (length [])" "chains_ok mB (buckets (new_table e)) (\<lambda>_. []) (set [])"
    "[] = [] \<longrightarrow> \<not> crowded (new_table e) (hashv g)"
    by (auto simp: new_table_def pow2_table_def HASH_INITIAL_NUM_BUCKETS_def HASH_INITIAL_NUM_BUCKETS_LOG2_def chains_ok_def zero_bucket_def
      crowded_def HASH_BKT_CAPACITY_THRESH_def word_le_nat_alt intro: exI [of _ 5])
  have C: "handles ?mC = (handles mB)(e \<mapsto> g\<lparr>tbl := Some ?t\<rparr>)" "tables ?mC = [?t \<mapsto> new_table e]" using g(1) dst(2) by (simp_all add: mB_def)
  have lk: "linked (nx mB) (pv mB) None ([] @ [e]) None" "distinct ([] @ [e])" "set ([] @ [e]) \<subseteq> alive mB" "\<forall>b \<in> set ([] @ [e]). ekey mB b = ekey sm b" "\<forall>b \<in> set []. handle_ok fcn ?t (the (handles mB b))"
    using ready e by (simp_all add: mB_def)
  note select_linked [where malloc_ok = malloc_ok, OF lk(1-3) g(1,3) lk(4,5) new _ big C]
  moreover have "HASH_MAKE_TABLE malloc_ok e mB = Inl (ExitProcess (-1)) \<or> HASH_MAKE_TABLE malloc_ok e mB = Inr ?mC"
    using g(1) by (auto simp: HASH_MAKE_TABLE_def uthash_malloc_def upd_hh_Some)
  moreover have "alive mB = alive m" by (simp add: mB_def)
  moreover have "select_elt malloc_ok h e (m, dst, None) = select_elt malloc_ok h e (m, None, None)" using dst(1) by simp
  ultimately show ?thesis using select_elt_run [OF e, of None malloc_ok h None, folded mB_def] by (auto simp: done_or_exit_def)
qed

lemma select_next:
  assumes ok: "sel_ok fcn sm m dst xs" "xs \<noteq> []" and h: "handles sm e = Some h" "handle_ok fcn ts h" and e: "e \<in> alive m" "e \<notin> set xs"
    and len: "length xs < 2 ^ 32 - 1" and big: "\<not> malloc_ok (2 ^ 36)"
  shows "done_or_exit (selected fcn sm (alive m) (xs @ [e])) (select_elt malloc_ok h e (m, dst, final None xs))"
proof -
  note ready = sel_link_ready [OF ok(1) h e]
  define mB where "mB = sel_link h e (final None xs) m"
  obtain g where g: "handles mB e = Some g" "hashv g = hashv h" "\<And>t. handle_ok fcn t (g\<lparr>tbl := Some t\<rparr>)" using ready(7) by (auto simp: mB_def)
  obtain t T C where t: "dst = first xs None" "distinct xs" "tables m = [t \<mapsto> T]" "table_ok m T C (set xs)" "tail T = Some (hd xs)" "\<And>b. b \<in> set xs \<Longrightarrow> handle_ok fcn t (the (handles m b))"
    using ok by (auto simp: sel_ok_def)
  have hs: "\<forall>b \<in> set xs. handle_ok fcn t (the (handles mB b))" using ready(11) t(6) by (simp add: mB_def)
  obtain b where b: "dst = Some b" "b \<in> set xs" "first (xs @ [e]) None = dst" using t(1) ok(2) by (cases xs) auto
  then obtain hb where "handles mB b = Some hb" using ready(5) alive_handle [of b mB] by (auto simp: mB_def)
  then have hd: "head_tbl mB dst = Inr (Some t)" using hs b(1,2) by (auto simp: head_tbl_def handle_ok_def)
  have "chains_ok m (buckets T) C (set xs)" using t(4) by (simp add: table_ok_def)
  then have "chains_ok mB (buckets T) C (set xs)" by (rule chains_ok_cong) (use ready(8-10) e(2) in \<open>auto simp: mB_def\<close>)
  then have T: "pow2_table T" "tail T = Some (hd (xs @ [e]))" "num_items T = of_nat (length xs)" "chains_ok mB (buckets T) C (set xs)" "xs = [] \<longrightarrow> \<not> crowded T (hashv g)"
    using t(2,4,5) ok(2) by (auto simp: table_ok_def distinct_card)
  let ?mC = "set_hh e (\<lambda>h. h\<lparr>tbl := Some t\<rparr>) mB"
  have C: "handles ?mC = (handles mB)(e \<mapsto> g\<lparr>tbl := Some t\<rparr>)" "tables ?mC = [t \<mapsto> T]" using t(3) g(1) by (simp_all add: mB_def)
  note select_linked [where malloc_ok = malloc_ok, OF ready(3-5) [folded mB_def] g(1,3) ready(6) [folded mB_def] hs T len big C]
  moreover have "upd_hh (Some e) (\<lambda>h. h\<lparr>tbl := Some t\<rparr>) mB = Inr ?mC" using g(1) by (simp add: upd_hh_Some)
  moreover have "alive mB = alive m" by (simp add: mB_def)
  ultimately show ?thesis using select_elt_run [OF e(1) ready(1,2), of malloc_ok h dst, folded mB_def] hd b(1,3) by (simp del: first_append)
qed

lemma select_elt_selects:
  assumes "selected fcn sm M xs s" "handles sm e = Some h" "handle_ok fcn ts h" "e \<in> M" "e \<notin> set xs" "length xs < 2 ^ 32 - 1" "\<not> malloc_ok (2 ^ 36)"
  shows "done_or_exit (selected fcn sm M (xs @ [e])) (select_elt malloc_ok h e s)"
proof (cases "xs = []")
  case True
  then show ?thesis using select_first [where malloc_ok = malloc_ok, of fcn sm "fst s" "fst (snd s)" e h ts] assms by (cases s) auto
next
  case False
  then show ?thesis using select_next [where malloc_ok = malloc_ok, of fcn sm "fst s" "fst (snd s)" xs e h ts] assms by (cases s) auto
qed

lemma select_chain_selects:
  assumes "linked (hn sm) (hp sm) b c None" "set c \<subseteq> alive sm" "\<And>a. a \<in> set c \<Longrightarrow> handle_ok fcn ts (the (handles sm a))"
    "selected fcn sm M xs s" "distinct (xs @ c)" "set (xs @ c) \<subseteq> X" "X \<subseteq> M" "finite X" "card X < 2 ^ 32" "length c < fuel" "\<not> malloc_ok (2 ^ 36)"
  shows "done_or_exit (selected fcn sm M (xs @ filter cond c)) (select_chain fuel malloc_ok cond sm (first c None) s)"
  using assms
proof (induction c arbitrary: b xs s fuel)
  case Nil
  then show ?case by (cases fuel) (auto simp: done_or_exit_def)
next
  case (Cons e c)
  obtain f where f: "fuel = Suc f" using Cons.prems(10) by (cases fuel) auto
  obtain h where h: "handles sm e = Some h" "handle_ok fcn ts h" "hh_next h = first c None"
    using Cons.prems(1,2) Cons.prems(3) [of e] alive_handle [of e sm] by (auto simp: hn_def)
  have e: "e \<in> M" "e \<notin> set xs" using Cons.prems(5-7) by auto
  have len: "length xs < 2 ^ 32 - 1"
  proof -
    have "Suc (length xs) = card (set (xs @ [e]))" using Cons.prems(5) by (subst distinct_card) auto
    also have "\<dots> \<le> card X" using Cons.prems(6,8) by (intro card_mono) auto
    finally show ?thesis using Cons.prems(9) by simp
  qed
  let ?xs = "if cond e then xs @ [e] else xs"
  have "done_or_exit (selected fcn sm M ?xs) (if cond e then select_elt malloc_ok h e s else Inr s)"
    using select_elt_selects [where malloc_ok = malloc_ok, OF Cons.prems(4) h(1,2) e len Cons.prems(11)] Cons.prems(4) by (cases "cond e") (auto simp: done_or_exit_def)
  moreover have "done_or_exit (selected fcn sm M (?xs @ filter cond c)) (select_chain f malloc_ok cond sm (first c None) s1)" if "selected fcn sm M ?xs s1" for s1
    using Cons.IH [where b = "Some e" and xs = ?xs and s = s1 and fuel = f] Cons.prems that f by auto
  ultimately have "done_or_exit (selected fcn sm M (?xs @ filter cond c)) (bindE (if cond e then select_elt malloc_ok h e s else Inr s) (select_chain f malloc_ok cond sm (first c None)))"
    by (rule done_or_exit_bind)
  then show ?case using f h(1,3) by (simp split: if_splits)
qed

lemma foldE_done:
  assumes "\<And>k s. lo \<le> k \<Longrightarrow> k < hi \<Longrightarrow> P k s \<Longrightarrow> done_or_exit (P (Suc k)) (f k s)" and "P lo s" and "lo \<le> hi"
  shows "done_or_exit (P hi) (foldE f [lo..<hi] s)"
  using assms(3,1)
proof (induction hi rule: dec_induct)
  case base
  then show ?case using assms(2) by (simp add: done_or_exit_def)
next
  case (step n)
  have "foldE f [n] x = f n x" for x by (cases "f n x") simp_all
  then have "foldE f [n] = f n" by blast
  moreover have "done_or_exit (P n) (foldE f [lo..<n] s)" using step.IH step.prems less_SucI by blast
  ultimately show ?case using done_or_exit_bind [of "P n" "foldE f [lo..<n] s" "P (Suc n)" "f n"] step.hyps(1) step.prems [of n] by (simp add: foldE_append)
qed

lemma HASH_SELECT_selects:
  assumes src: "uthash_ok fcn sm src xs" and m: "tables m = Map.empty" "set xs \<subseteq> alive m" and big: "\<not> malloc_ok (2 ^ 36)"
  shows "done_or_exit (\<lambda>(dst, m'). \<exists>ys. mset ys = mset (filter cond xs) \<and> sel_ok fcn sm m' dst ys) (HASH_SELECT malloc_ok cond sm src None m)"
proof (cases "xs = []")
  case True
  then show ?thesis using src m by (simp add: HASH_SELECT_def uthash_ok_def done_or_exit_def sel_ok_def)
next
  case False
  obtain t T C where h: "src = first xs None" "distinct xs" "tables sm = [t \<mapsto> T]" "table_ok sm T C (set xs)" "\<And>a. a \<in> set xs \<Longrightarrow> handle_ok fcn t (the (handles sm a))"
    "set xs \<subseteq> alive sm" "head_tbl sm src = Inr (Some t)" "tbl_at sm (Some t) = Inr T" using src False by (rule uthash_okE) blast
  obtain k where k: "k \<le> 31" "unat (num_buckets T) = 2 ^ k" "length (buckets T) = 2 ^ k" "chains_ok sm (buckets T) C (set xs)" "unat (num_items T) = card (set xs)" using h(4) by (rule table_okE) blast
  have card: "card (set xs) < 2 ^ 32" using h(4) by (simp add: table_ok_def)
  define part where "part j = concat (map C [0..<j])" for j
  have C: "set (C i) = {a \<in> set xs. unat (hv sm a) mod 2 ^ k = i}" "distinct (C i)" if "i < 2 ^ k" for i using chains_okD(4,5) [OF k(4)] that k(3) by auto
  have part: "set (part j) = {a \<in> set xs. unat (hv sm a) mod 2 ^ k < j} \<and> distinct (part j)" if "j \<le> 2 ^ k" for j
    using that by (induction j) (auto simp: part_def C less_Suc_eq)
  have "done_or_exit (selected fcn sm (alive m) (filter cond (part (2 ^ k))))
    (foldE (\<lambda>i s. bindE (bucket_at sm (Some t) (of_nat i)) (\<lambda>b. select_chain (Suc (unat (num_items T))) malloc_ok cond sm (hh_head b) s)) [0..<2 ^ k] (m, None, None))"
  proof (rule foldE_done)
    show "selected fcn sm (alive m) (filter cond (part 0)) (m, None, None)" using m(1) by (simp add: part_def sel_ok_def)
    fix i s assume i: "i < 2 ^ k" and s: "selected fcn sm (alive m) (filter cond (part i)) s"
    have il: "i < length (buckets T)" using i k(3) by simp
    note c = chains_okD [OF k(4) il]
    have "i < 2 ^ 32" using i k(1) power_increasing [of k 31 "2 :: nat"] by simp
    then have b: "bucket_at sm (Some t) (of_nat i) = Inr (buckets T ! i)" using h(3) il by (simp add: bucket_at_def uint_nat unat_u32_of_nat rd_nat)
    have "distinct (filter cond (part i) @ C i)" "set (filter cond (part i) @ C i) \<subseteq> set xs" using part [of i] C [OF i] i by auto
    moreover have "length (C i) < Suc (unat (num_items T))" using chain_length [OF h(4) il] k(5) by simp
    ultimately have "done_or_exit (selected fcn sm (alive m) (filter cond (part i) @ filter cond (C i))) (select_chain (Suc (unat (num_items T))) malloc_ok cond sm (first (C i) None) s)"
      using c(5) h(5,6) s m(2) card big by (intro select_chain_selects [OF c(3), where X = "set xs"]) auto
    then show "done_or_exit (selected fcn sm (alive m) (filter cond (part (Suc i))))
        (bindE (bucket_at sm (Some t) (of_nat i)) (\<lambda>b. select_chain (Suc (unat (num_items T))) malloc_ok cond sm (hh_head b) s))"
      unfolding b bindE_Inr c(1) by (simp add: part_def)
  qed simp
  moreover have "mset (filter cond (part (2 ^ k))) = mset (filter cond xs)"
  proof -
    have "set (part (2 ^ k)) = set xs" "distinct (part (2 ^ k))" using part [of "2 ^ k"] by auto
    then show ?thesis using h(2) by (metis mset_filter set_eq_iff_mset_eq_distinct)
  qed
  ultimately show ?thesis using h(1,7,8) False k(2)
    by (auto simp: HASH_SELECT_def done_or_exit_def)
qed

text \<open>What can be observed of the destination does not depend on its wrong tail.\<close>

lemma sel_ok_observed:
  assumes "sel_ok fcn sm m dst ys" "distinct (map (ekey sm) ys)"
  shows "table_elements (dst, m) = Inr ys" "HASH_FSCK m dst = Inr ()"
    "length k < 2 ^ 32 \<Longrightarrow> HASH_FIND fcn m dst k = Inr (map_of (map (\<lambda>a. (ekey sm a, a)) ys) k)"
proof -
  let ?es = "map (\<lambda>a. (ekey sm a, a)) ys"
  have ys: "dst = first ys None" "linked (nx m) (pv m) None ys None" "\<And>a. a \<in> set ys \<Longrightarrow> ekey m a = ekey sm a" "map snd ?es = ys" "map fst ?es = map (ekey sm) ys"
    using assms(1) by (auto simp: sel_ok_def o_def)
  have al: "set ys \<subseteq> alive m" using assms(1) by (cases "ys = []") (auto simp: sel_ok_def table_ok_def)
  obtain m' where m': "uthash_ok fcn m' dst ys" "handles m' = handles m" "HASH_FIND fcn m' dst = HASH_FIND fcn m dst" "HASH_FSCK m' dst = HASH_FSCK m dst" "HASH_COUNT m' dst = HASH_COUNT m dst"
  proof (cases "ys = []")
    case True
    then have "uthash_ok fcn m dst ys" using assms(1) by (simp add: sel_ok_def uthash_ok_def)
    then show ?thesis using that by blast
  next
    case False
    obtain t T where "uthash_ok fcn (set_tbl t (\<lambda>T. T\<lparr>tail := Some (last ys)\<rparr>) m) dst ys" using assms(1) False by (rule sel_ok_repaired)
    then show ?thesis using that tail_not_read by (auto simp: fun_eq_iff)
  qed
  have "ekey m' = ekey m" using m'(2) by (simp add: ekey_def fun_eq_iff)
  then have holds: "table_holds fcn {} (dst, m') ?es" using m'(1) ys assms(2) by (auto simp: table_holds_def o_def)
  show "length k < 2 ^ 32 \<Longrightarrow> HASH_FIND fcn m dst k = Inr (map_of ?es k)" using table_find_law [OF holds] m'(3) by (simp add: table_find_def)
  show "HASH_FSCK m dst = Inr ()" using HASH_FSCK_passes [OF m'(1)] m'(4) by simp
  obtain n where n: "HASH_COUNT m dst = Inr n" "unat n = length ys" using HASH_COUNT_length [OF m'(1)] m'(5) by auto
  have nxt: "(if dst \<noteq> None then bindE (hh_at m dst) (\<lambda>h. Inr (next' h)) else Inr None) = Inr (first (tl ys) None)"
    using first_next [OF m'(1)] unfolding hh_at_def m'(2) .
  have "iterate collect fst dst (m, []) = Inr (m, ys)"
    unfolding iterate_def fst_conv n(1) bindE_Inr nxt n(2) using iter_collects [OF ys(2) al, of "Suc (length ys)" "[]"] by (simp add: ys(1) del: HASH_ITER.simps)
  then show "table_elements (dst, m) = Inr ys" by (simp add: table_elements_def)
qed

lemma map_of_keyed:
  assumes "\<And>k a. (k, a) \<in> set es \<Longrightarrow> f a = k" "distinct (map fst es)" "mset ys = mset (filter cond (map snd es))"
  shows "map_of (map (\<lambda>a. (f a, a)) ys) = map_of (filter (cond \<circ> snd) es)" "distinct (map f ys)"
proof -
  have snd: "map snd (filter (cond \<circ> snd) es) = filter cond (map snd es)" by (simp add: filter_map)
  have es: "map (\<lambda>a. (f a, a)) (map snd es') = es'" if "set es' \<subseteq> set es" for es' using that assms(1) by (induction es') auto
  have eq: "mset (map (\<lambda>a. (f a, a)) ys) = mset (filter (cond \<circ> snd) es)"
    using assms(3) es [of "filter (cond \<circ> snd) es"] unfolding snd [symmetric] mset_map by (metis filter_is_subset mset_map)
  have d: "distinct (map fst (filter (cond \<circ> snd) es))" using assms(2) by (simp add: distinct_map_filter)
  have "mset (map f ys) = mset (map fst (map (\<lambda>a. (f a, a)) ys))" by (simp add: o_def)
  also have "\<dots> = mset (map fst (filter (cond \<circ> snd) es))" unfolding mset_map [of fst] eq ..
  finally show f: "distinct (map f ys)" using d by (metis mset_eq_imp_distinct_iff)
  show "map_of (map (\<lambda>a. (f a, a)) ys) = map_of (filter (cond \<circ> snd) es)"
    using mset_eq_setD [OF eq] f d by (intro map_of_inject_set [THEN iffD2]) (simp_all add: o_def)
qed

lemma ops_allowed_elements: "ops_allowed M ops es \<Longrightarrow> snd ` set es \<subseteq> M \<Longrightarrow> snd ` set (snd (spec_ops ops es)) \<subseteq> M"
proof (induction ops arbitrary: es)
  case (Cons x ops)
  have "snd ` set (snd (spec_op x es)) \<subseteq> M" using Cons.prems by (cases x) auto
  then show ?case using Cons.IH [of "snd (spec_op x es)"] Cons.prems(1) by (simp add: case_prod_beta Let_def)
qed simp

text \<open>
  C13. \<^verbatim>\<open>HASH_SELECT\<close> selects: after any sequence of insertions, searches and deletions on the source, the table it makes has exactly the elements
  that satisfy the condition, each once; every key is found there exactly if it is the key of a selected element, and the integrity check
  passes. No pointer is null or dangling, and all loops end; the only other outcome is that the process ends because memory is exhausted.
\<close>

theorem HASH_SELECT_correct:
  fixes cond :: "nat \<Rightarrow> bool"
  assumes "ops_allowed M ops []" "M \<subseteq> alive m0" "tables m0 = Map.empty" "\<And>sz. malloc_ok sz \<Longrightarrow> sz < 2 ^ 36"
    "run_ops (table_add fcn malloc_ok) (table_find fcn) table_del ops (None, m0) = Inr (outs, src, ms)" "tables m = Map.empty" "M \<subseteq> alive m"
  defines "chosen \<equiv> filter (cond \<circ> snd) (snd (spec_ops ops []))"
  shows "HASH_SELECT malloc_ok cond ms src None m = Inl (ExitProcess (-1)) \<or>
    (\<exists>dst m' es. HASH_SELECT malloc_ok cond ms src None m = Inr (dst, m') \<and> mset es = mset (map snd chosen) \<and> table_elements (dst, m') = Inr es \<and>
      (\<forall>k. length k < 2 ^ 32 \<longrightarrow> HASH_FIND fcn m' dst k = Inr (map_of chosen k)) \<and> HASH_FSCK m' dst = Inr ())"
proof -
  let ?es = "snd (spec_ops ops [])"
  have lim: "limited malloc_ok = malloc_ok" using assms(4) by (auto simp: limited_def fun_eq_iff)
  have "table_holds fcn M (None, m0) []" using assms(2,3) by (simp add: table_holds_def uthash_ok_def)
  from ut.run_refines [OF this assms(1), of malloc_ok, unfolded lim]
  have holds: "table_holds fcn M (src, ms) ?es" using assms(5) by auto
  then have h: "uthash_ok fcn ms src (map snd ?es)" "\<And>k a. (k, a) \<in> set ?es \<Longrightarrow> ekey ms a = k" "distinct (map fst ?es)" by (auto simp: table_holds_def)
  have "set (map snd ?es) \<subseteq> M" using ops_allowed_elements [OF assms(1)] by auto
  then have "set (map snd ?es) \<subseteq> alive m" "\<not> malloc_ok (2 ^ 36)" using assms(4) [of "2 ^ 36"] assms(7) by auto
  from HASH_SELECT_selects [where malloc_ok = malloc_ok, OF h(1) assms(6) this, of cond] show ?thesis
    unfolding done_or_exit_def
  proof (elim disjE exE conjE)
    fix s assume "HASH_SELECT malloc_ok cond ms src None m = Inr s" "case s of (dst, m') \<Rightarrow> \<exists>ys. mset ys = mset (filter cond (map snd ?es)) \<and> sel_ok fcn ms m' dst ys"
    then obtain dst m' ys where r: "HASH_SELECT malloc_ok cond ms src None m = Inr (dst, m')" "mset ys = mset (filter cond (map snd ?es))" "sel_ok fcn ms m' dst ys" by auto
    note k = map_of_keyed [OF h(2,3) r(2)]
    note o = sel_ok_observed [OF r(3) k(2)]
    have "map snd chosen = filter cond (map snd ?es)" by (simp add: chosen_def filter_map)
    then show ?thesis using o r(1,2) k(1) by (auto simp: chosen_def)
  qed simp
qed

text \<open>Two elements, of which the second is selected.\<close>

definition second_of_two :: "table_op list" where
  "second_of_two = [Add [1] 0, Add [2] 1]"

lemma second_built: "run_ops (table_add any_key small) (table_find any_key) table_del second_of_two (None, four_elements) = Inr ([None, None], Some 0, src_mem)"
proof -
  obtain src ms where "HASH_ADD_KEYPTR any_key small [1] 0 None four_elements = Inr (src, ms)" "HASH_ADD_KEYPTR any_key small [2] 1 src ms = Inr (Some 0, src_mem)"
    using source_built by (auto simp: bindE_eq_Inr)
  then show ?thesis by (simp add: second_of_two_def table_add_def)
qed

lemma second_selected: "HASH_SELECT small (\<lambda>a. a = 1) src_mem (Some 0) None four_elements \<noteq> Inl (ExitProcess (-1))"
  by (simp add: test_defs HASH_SELECT_def select_elt_def upt_conv_Cons small_fuel)

theorem HASH_SELECT_correct_witness:
  "\<exists>dst m'. HASH_SELECT small (\<lambda>a. a = 1) src_mem (Some 0) None four_elements = Inr (dst, m') \<and> table_elements (dst, m') = Inr [1] \<and>
     HASH_FIND any_key m' dst [2] = Inr (Some 1) \<and> HASH_FIND any_key m' dst [1] = Inr None \<and> HASH_FSCK m' dst = Inr ()"
proof -
  have pre: "ops_allowed {0, 1} second_of_two []" "{0, 1} \<subseteq> alive four_elements" "tables four_elements = Map.empty" "\<And>sz. small sz \<Longrightarrow> sz < 2 ^ 36"
    "filter ((\<lambda>a. a = 1) \<circ> snd) (snd (spec_ops second_of_two [])) = [([2], 1)]"
    by (auto simp: second_of_two_def four_elements_def alive_iff small_def)
  obtain dst m' es where r: "HASH_SELECT small (\<lambda>a. a = 1) src_mem (Some 0) None four_elements = Inr (dst, m')" "mset es = {#1#}" "table_elements (dst, m') = Inr es"
      "\<forall>k. length k < 2 ^ 32 \<longrightarrow> HASH_FIND any_key m' dst k = Inr (map_of [([2], 1)] k)" "HASH_FSCK m' dst = Inr ()"
    using HASH_SELECT_correct [where cond = "\<lambda>a. a = 1", OF pre(1-4) second_built pre(3,2)] second_selected unfolding pre(5) by auto
  have "es = [1]" using r(2) by simp
  then show ?thesis using r(1,3,5) r(4) [rule_format, of "[2]"] r(4) [rule_format, of "[1]"] by simp
qed

end
