(* ===== verification/Uthash_Keys.thy ===== *)
theory Uthash_Keys
  imports Uthash_Select
begin

text \<open>
  The convenience macros of \<^verbatim>\<open>uthash.h\<close> for keys that are strings, integers and pointers, and \<^verbatim>\<open>HASH_REPLACE\<close>. A locale states what a kind of keys
  has to offer, its client is a table of elements under such keys, and the three kinds interpret it.
\<close>

section \<open>The macros\<close>

text \<open>A string is an array with a zero byte; \<^verbatim>\<open>strlen\<close> reads beyond one that has none. The length is converted to \<^verbatim>\<open>unsigned\<close>.\<close>

definition c_strlen :: "bytes \<Rightarrow> nat cres" where
  "c_strlen s = (if 0 \<in> set s then Inr (length (takeWhile (\<lambda>b. b \<noteq> 0) s)) else Inl OutOfBounds)"

definition str_key :: "bytes \<Rightarrow> bytes cres" where
  "str_key s = bindE (c_strlen s) (\<lambda>n. rd_slice s 0 (unat (of_nat n :: u32)))"

definition int_bytes :: "u32 \<Rightarrow> bytes" where
  "int_bytes i = le_bytes 4 (unat i)"

definition ptr_bytes :: "u64 \<Rightarrow> bytes" where
  "ptr_bytes p = le_bytes 8 (unat p)"

definition HASH_FIND_STR :: "(bytes \<Rightarrow> u32) \<Rightarrow> ut_mem \<Rightarrow> ptr \<Rightarrow> bytes \<Rightarrow> ptr cres" where
  "HASH_FIND_STR fcn m head findstr = bindE (str_key findstr) (HASH_FIND fcn m head)"

definition HASH_ADD_STR :: "(bytes \<Rightarrow> u32) \<Rightarrow> (nat \<Rightarrow> bool) \<Rightarrow> bytes \<Rightarrow> nat \<Rightarrow> ptr \<Rightarrow> ut_mem \<Rightarrow> (ptr \<times> ut_mem) cres" where
  "HASH_ADD_STR fcn malloc_ok strfield add head m = bindE (str_key strfield) (\<lambda>k. HASH_ADD_KEYPTR fcn malloc_ok k add head m)"

definition HASH_REPLACE_STR :: "(bytes \<Rightarrow> u32) \<Rightarrow> (nat \<Rightarrow> bool) \<Rightarrow> bytes \<Rightarrow> nat \<Rightarrow> ptr \<Rightarrow> ut_mem \<Rightarrow> (ptr \<times> ptr \<times> ut_mem) cres" where
  "HASH_REPLACE_STR fcn malloc_ok strfield add head m = bindE (str_key strfield) (\<lambda>k. HASH_REPLACE fcn malloc_ok k add head m)"

definition HASH_FIND_INT :: "(bytes \<Rightarrow> u32) \<Rightarrow> ut_mem \<Rightarrow> ptr \<Rightarrow> u32 \<Rightarrow> ptr cres" where
  "HASH_FIND_INT fcn m head findint = HASH_FIND fcn m head (int_bytes findint)"

definition HASH_REPLACE_INT :: "(bytes \<Rightarrow> u32) \<Rightarrow> (nat \<Rightarrow> bool) \<Rightarrow> u32 \<Rightarrow> nat \<Rightarrow> ptr \<Rightarrow> ut_mem \<Rightarrow> (ptr \<times> ptr \<times> ut_mem) cres" where
  "HASH_REPLACE_INT fcn malloc_ok intfield add head m = HASH_REPLACE fcn malloc_ok (int_bytes intfield) add head m"

definition HASH_FIND_PTR :: "(bytes \<Rightarrow> u32) \<Rightarrow> ut_mem \<Rightarrow> ptr \<Rightarrow> u64 \<Rightarrow> ptr cres" where
  "HASH_FIND_PTR fcn m head findptr = HASH_FIND fcn m head (ptr_bytes findptr)"

definition HASH_ADD_PTR :: "(bytes \<Rightarrow> u32) \<Rightarrow> (nat \<Rightarrow> bool) \<Rightarrow> u64 \<Rightarrow> nat \<Rightarrow> ptr \<Rightarrow> ut_mem \<Rightarrow> (ptr \<times> ut_mem) cres" where
  "HASH_ADD_PTR fcn malloc_ok ptrfield add head m = HASH_ADD_KEYPTR fcn malloc_ok (ptr_bytes ptrfield) add head m"

definition HASH_REPLACE_PTR :: "(bytes \<Rightarrow> u32) \<Rightarrow> (nat \<Rightarrow> bool) \<Rightarrow> u64 \<Rightarrow> nat \<Rightarrow> ptr \<Rightarrow> ut_mem \<Rightarrow> (ptr \<times> ptr \<times> ut_mem) cres" where
  "HASH_REPLACE_PTR fcn malloc_ok ptrfield add head m = HASH_REPLACE fcn malloc_ok (ptr_bytes ptrfield) add head m"

definition HASH_DEL :: "ptr \<Rightarrow> nat \<Rightarrow> ut_mem \<Rightarrow> (ptr \<times> ut_mem) cres" where
  "HASH_DEL head delptr m = HASH_DELETE delptr head m"

section \<open>Replacing\<close>

lemma HASH_REPLACE_replaces:
  assumes h: "table_holds fcn M (head, m) es" and k: "length k < 2 ^ 32" and big: "\<not> malloc_ok (2 ^ 36)"
  defines "rest \<equiv> filter (\<lambda>e. fst e \<noteq> k) es"
  assumes a: "a \<notin> snd ` set rest" "a \<in> M" "length rest < 2 ^ 32 - 1"
  shows "HASH_REPLACE fcn malloc_ok k a head m = Inl (ExitProcess (-1)) \<or>
    (\<exists>s. HASH_REPLACE fcn malloc_ok k a head m = Inr (map_of es k, s) \<and> table_holds fcn M s (rest @ [(k, a)]))"
proof -
  have f: "HASH_FIND fcn m head k = Inr (map_of es k)" using table_find_law [OF h k] by (simp add: table_find_def)
  obtain head1 m1 where d: "(case map_of es k of None \<Rightarrow> Inr (head, m) | Some r \<Rightarrow> HASH_DELETE r head m) = Inr (head1, m1)" "table_holds fcn M (head1, m1) rest"
  proof (cases "map_of es k")
    case None
    then have "rest = es" by (force simp: rest_def filter_id_conv map_of_eq_None_iff)
    then show ?thesis using that None h by simp
  next
    case (Some r)
    then show ?thesis using that table_del_law [OF h Some] by (auto simp: table_del_def rest_def)
  qed
  have "op_allowed M (Add k a) rest" using a k by (auto simp: rest_def)
  from table_add_law [where malloc_ok = malloc_ok, OF d(2) this big] show ?thesis
    using f d(1) by (auto simp: HASH_REPLACE_def table_add_def)
qed

lemma map_of_filter_key: "map_of (filter (\<lambda>e. fst e \<noteq> b) es) b' = (if b' = b then None else map_of es b')"
  by (induction es) auto

section \<open>Kinds of keys\<close>

text \<open>The macros have one shape: the bytes of the key, then the operation.\<close>

definition keyed_replace :: "('k \<Rightarrow> bytes cres) \<Rightarrow> (bytes \<Rightarrow> u32) \<Rightarrow> (nat \<Rightarrow> bool) \<Rightarrow> 'k \<Rightarrow> nat \<Rightarrow> ptr \<Rightarrow> ut_mem \<Rightarrow> (ptr \<times> ptr \<times> ut_mem) cres" where
  "keyed_replace key_bytes fcn malloc_ok k a head m = bindE (key_bytes k) (\<lambda>b. HASH_REPLACE fcn malloc_ok b a head m)"

definition keyed_find :: "('k \<Rightarrow> bytes cres) \<Rightarrow> (bytes \<Rightarrow> u32) \<Rightarrow> ut_mem \<Rightarrow> ptr \<Rightarrow> 'k \<Rightarrow> ptr cres" where
  "keyed_find key_bytes fcn m head k = bindE (key_bytes k) (HASH_FIND fcn m head)"

text \<open>What a client does with a table, and the same on a map.\<close>

datatype 'k keyed_op = Replace 'k nat | Look 'k | Discard 'k

fun key_op :: "('k \<Rightarrow> nat \<Rightarrow> ptr \<Rightarrow> ut_mem \<Rightarrow> (ptr \<times> ptr \<times> ut_mem) cres) \<Rightarrow> (ut_mem \<Rightarrow> ptr \<Rightarrow> 'k \<Rightarrow> ptr cres) \<Rightarrow> 'k keyed_op \<Rightarrow> ptr \<times> ut_mem \<Rightarrow> (ptr \<times> ptr \<times> ut_mem) cres" where
  "key_op rep fnd (Replace k a) (head, m) = rep k a head m"
| "key_op rep fnd (Look k) (head, m) = bindE (fnd m head k) (\<lambda>r. Inr (r, head, m))"
| "key_op rep fnd (Discard k) (head, m) = bindE (fnd m head k) (\<lambda>r. case r of None \<Rightarrow> Inr (None, head, m) | Some a \<Rightarrow> bindE (HASH_DEL head a m) (\<lambda>s. Inr (Some a, s)))"

fun key_ops :: "('k \<Rightarrow> nat \<Rightarrow> ptr \<Rightarrow> ut_mem \<Rightarrow> (ptr \<times> ptr \<times> ut_mem) cres) \<Rightarrow> (ut_mem \<Rightarrow> ptr \<Rightarrow> 'k \<Rightarrow> ptr cres) \<Rightarrow> 'k keyed_op list \<Rightarrow> ptr \<times> ut_mem \<Rightarrow> (ptr list \<times> ptr \<times> ut_mem) cres" where
  "key_ops rep fnd [] s = Inr ([], s)"
| "key_ops rep fnd (x # xs) s = bindE (key_op rep fnd x s) (\<lambda>(r, s). bindE (key_ops rep fnd xs s) (\<lambda>(rs, s). Inr (r # rs, s)))"

fun map_op :: "('k \<Rightarrow> 'a) \<Rightarrow> 'k keyed_op \<Rightarrow> ('a \<Rightarrow> ptr) \<Rightarrow> ptr \<times> ('a \<Rightarrow> ptr)" where
  "map_op name (Replace k a) f = (f (name k), f(name k \<mapsto> a))"
| "map_op name (Look k) f = (f (name k), f)"
| "map_op name (Discard k) f = (f (name k), f(name k := None))"

fun map_ops :: "('k \<Rightarrow> 'a) \<Rightarrow> 'k keyed_op list \<Rightarrow> ('a \<Rightarrow> ptr) \<Rightarrow> ptr list \<times> ('a \<Rightarrow> ptr)" where
  "map_ops name [] f = ([], f)"
| "map_ops name (x # xs) f = (let (r, f) = map_op name x f; (rs, f) = map_ops name xs f in (r # rs, f))"

text \<open>A client gives valid keys, and replaces by elements of \<open>M\<close> that are not in the table under another key.\<close>

fun key_op_ok :: "nat set \<Rightarrow> ('k \<Rightarrow> bool) \<Rightarrow> ('k \<Rightarrow> 'a) \<Rightarrow> 'k keyed_op \<Rightarrow> ('a \<Rightarrow> ptr) \<Rightarrow> bool" where
  "key_op_ok M valid name (Replace k a) f \<longleftrightarrow> valid k \<and> a \<in> M \<and> a \<notin> ran (f(name k := None))"
| "key_op_ok M valid name (Look k) f \<longleftrightarrow> valid k"
| "key_op_ok M valid name (Discard k) f \<longleftrightarrow> valid k"

fun key_ops_ok :: "nat set \<Rightarrow> ('k \<Rightarrow> bool) \<Rightarrow> ('k \<Rightarrow> 'a) \<Rightarrow> 'k keyed_op list \<Rightarrow> ('a \<Rightarrow> ptr) \<Rightarrow> bool" where
  "key_ops_ok M valid name [] f \<longleftrightarrow> True"
| "key_ops_ok M valid name (x # xs) f \<longleftrightarrow> key_op_ok M valid name x f \<and> key_ops_ok M valid name xs (snd (map_op name x f))"

text \<open>A kind of keys: the bytes of a valid key, which are the same for the same key and different for different ones.\<close>

locale key_kind =
  fixes valid :: "'k \<Rightarrow> bool" and key_bytes :: "'k \<Rightarrow> bytes cres" and name :: "'k \<Rightarrow> 'a"
  assumes bytes_valid: "valid k \<Longrightarrow> \<exists>b. key_bytes k = Inr b \<and> length b < 2 ^ 32"
    and bytes_inj: "valid k \<Longrightarrow> valid k' \<Longrightarrow> key_bytes k = key_bytes k' \<longleftrightarrow> name k = name k'"
begin

text \<open>The table has the entries of the map, and no others.\<close>

definition maps :: "(bytes \<Rightarrow> u32) \<Rightarrow> nat set \<Rightarrow> ptr \<times> ut_mem \<Rightarrow> ('a \<Rightarrow> ptr) \<Rightarrow> bool" where
  "maps fcn M s f \<longleftrightarrow> (\<exists>es. table_holds fcn M s es \<and> snd ` set es \<subseteq> M \<and> (\<forall>(b, a) \<in> set es. \<exists>k. valid k \<and> key_bytes k = Inr b) \<and>
     (\<forall>k b. valid k \<longrightarrow> key_bytes k = Inr b \<longrightarrow> map_of es b = f (name k)))"

lemma maps_find:
  assumes "maps fcn M (head, m) f" "valid k"
  shows "keyed_find key_bytes fcn m head k = Inr (f (name k))"
proof -
  obtain b where b: "key_bytes k = Inr b" "length b < 2 ^ 32" using bytes_valid [OF assms(2)] by blast
  obtain es where "table_holds fcn M (head, m) es" "map_of es b = f (name k)" using assms b(1) by (auto simp: maps_def)
  then show ?thesis using table_find_law [of fcn M "(head, m)" es b] b by (simp add: keyed_find_def table_find_def)
qed

lemma maps_remove:
  assumes "maps fcn M (head, m) f" "valid k" "f (name k) = Some a"
  shows "\<exists>s. HASH_DELETE a head m = Inr s \<and> maps fcn M s (f(name k := None))"
proof -
  obtain b where b: "key_bytes k = Inr b" "length b < 2 ^ 32" using bytes_valid [OF assms(2)] by blast
  obtain es where es: "table_holds fcn M (head, m) es" "snd ` set es \<subseteq> M" "\<forall>(b, a) \<in> set es. \<exists>k. valid k \<and> key_bytes k = Inr b"
    "\<And>k b. valid k \<Longrightarrow> key_bytes k = Inr b \<Longrightarrow> map_of es b = f (name k)" using assms(1) by (auto simp: maps_def)
  have "map_of es b = Some a" using es(4) [OF assms(2) b(1)] assms(3) by simp
  from table_del_law [OF es(1) this] obtain s where s: "HASH_DELETE a head m = Inr s" "table_holds fcn M s (filter (\<lambda>e. fst e \<noteq> b) es)" by (auto simp: table_del_def)
  have "map_of (filter (\<lambda>e. fst e \<noteq> b) es) b' = (f(name k := None)) (name k')" if "valid k'" "key_bytes k' = Inr b'" for k' b'
    using es(4) [OF that] bytes_inj [OF that(1) assms(2)] that(2) b(1) by (simp add: map_of_filter_key)
  then have "maps fcn M s (f(name k := None))" unfolding maps_def using s(2) es(2,3) by (intro exI [of _ "filter (\<lambda>e. fst e \<noteq> b) es"]) auto
  then show ?thesis using s(1) by blast
qed

lemma maps_replace:
  assumes "maps fcn M (head, m) f" "valid k" "a \<in> M" "a \<notin> ran (f(name k := None))" "finite M" "card M < 2 ^ 32" "\<not> malloc_ok (2 ^ 36)"
  shows "keyed_replace key_bytes fcn malloc_ok k a head m = Inl (ExitProcess (-1)) \<or>
    (\<exists>s. keyed_replace key_bytes fcn malloc_ok k a head m = Inr (f (name k), s) \<and> maps fcn M s (f(name k \<mapsto> a)))"
proof -
  obtain b where b: "key_bytes k = Inr b" "length b < 2 ^ 32" using bytes_valid [OF assms(2)] by blast
  obtain es where es: "table_holds fcn M (head, m) es" "snd ` set es \<subseteq> M" "\<forall>(b, a) \<in> set es. \<exists>k. valid k \<and> key_bytes k = Inr b"
    "\<And>k b. valid k \<Longrightarrow> key_bytes k = Inr b \<Longrightarrow> map_of es b = f (name k)" using assms(1) by (auto simp: maps_def)
  let ?rest = "filter (\<lambda>e. fst e \<noteq> b) es"
  have d: "distinct (map fst es)" "distinct (map snd es)" using es(1) by (auto simp: table_holds_def uthash_ok_def)
  have new: "a \<notin> snd ` set ?rest"
  proof
    assume "a \<in> snd ` set ?rest"
    then obtain b' where b': "(b', a) \<in> set es" "b' \<noteq> b" by auto
    then obtain k' where k': "valid k'" "key_bytes k' = Inr b'" using es(3) by blast
    have "f (name k') = Some a" using es(4) [OF k'] d(1) b'(1) by simp
    moreover have "name k' \<noteq> name k" using bytes_inj [OF k'(1) assms(2)] k'(2) b(1) b'(2) by simp
    ultimately show False using assms(4) by (auto simp: ran_def dest!: spec [of _ "name k'"])
  qed
  have "card (snd ` set ?rest) = length ?rest" using distinct_card [of "map snd ?rest"] d(2) by (simp add: distinct_map_filter)
  then have "Suc (length ?rest) = card (insert a (snd ` set ?rest))" using new by simp
  also have "\<dots> \<le> card M" using es(2) assms(3,5) by (intro card_mono) auto
  finally have "length ?rest < 2 ^ 32 - 1" using assms(6) by simp
  from HASH_REPLACE_replaces [where malloc_ok = malloc_ok, OF es(1) b(2) assms(7) new assms(3) this]
  have "HASH_REPLACE fcn malloc_ok b a head m = Inl (ExitProcess (-1)) \<or> (\<exists>s. HASH_REPLACE fcn malloc_ok b a head m = Inr (f (name k), s) \<and> table_holds fcn M s (?rest @ [(b, a)]))"
    using es(4) [OF assms(2) b(1)] by simp
  moreover have "maps fcn M s (f(name k \<mapsto> a))" if "table_holds fcn M s (?rest @ [(b, a)])" for s
  proof -
    have "map_of (?rest @ [(b, a)]) b' = (f(name k \<mapsto> a)) (name k')" if "valid k'" "key_bytes k' = Inr b'" for k' b'
      using es(4) [OF that] bytes_inj [OF that(1) assms(2)] that(2) b(1) by (simp add: map_add_def map_of_filter_key split: option.split)
    then show ?thesis unfolding maps_def using that es(2,3) assms(2,3) b(1) by (intro exI [of _ "?rest @ [(b, a)]"]) auto
  qed
  ultimately show ?thesis using b(1) by (auto simp: keyed_replace_def)
qed

lemma runs_as_map:
  assumes "maps fcn M s f" "key_ops_ok M valid name xs f" "finite M" "card M < 2 ^ 32" "\<not> malloc_ok (2 ^ 36)"
  shows "key_ops (keyed_replace key_bytes fcn malloc_ok) (keyed_find key_bytes fcn) xs s = Inl (ExitProcess (-1)) \<or>
    (\<exists>s'. key_ops (keyed_replace key_bytes fcn malloc_ok) (keyed_find key_bytes fcn) xs s = Inr (fst (map_ops name xs f), s') \<and> maps fcn M s' (snd (map_ops name xs f)))"
  using assms(1,2)
proof (induction xs arbitrary: s f)
  case (Cons x xs)
  obtain head m where s: "s = (head, m)" by (cases s)
  let ?run = "key_op (keyed_replace key_bytes fcn malloc_ok) (keyed_find key_bytes fcn) x s"
  have "?run = Inl (ExitProcess (-1)) \<or> (\<exists>s'. ?run = Inr (fst (map_op name x f), s') \<and> maps fcn M s' (snd (map_op name x f)))"
  proof (cases x)
    case (Replace k a)
    then show ?thesis using maps_replace [where malloc_ok = malloc_ok, of fcn M head m f k a] Cons.prems assms(3-5) s by auto
  next
    case (Look k)
    then show ?thesis using maps_find [of fcn M head m f k] Cons.prems s by auto
  next
    case (Discard k)
    then have f: "keyed_find key_bytes fcn m head k = Inr (f (name k))" using maps_find [of fcn M head m f k] Cons.prems s by auto
    show ?thesis
    proof (cases "f (name k)")
      case None
      then have "f(name k := None) = f" by auto
      then show ?thesis using f None Discard Cons.prems(1) s by simp
    next
      case (Some a)
      then show ?thesis using f Discard maps_remove [of fcn M head m f k a] Cons.prems s by (auto simp: HASH_DEL_def)
    qed
  qed
  then show ?case
  proof (elim disjE exE conjE)
    fix s' assume r: "?run = Inr (fst (map_op name x f), s')" "maps fcn M s' (snd (map_op name x f))"
    then show ?thesis using Cons.IH [OF r(2)] Cons.prems(2) by (auto simp: case_prod_beta Let_def)
  qed simp
qed simp

lemma maps_empty: "tables m = Map.empty \<Longrightarrow> M \<subseteq> alive m \<Longrightarrow> maps fcn M (None, m) Map.empty"
  by (auto simp: maps_def table_holds_def uthash_ok_def intro!: exI [of _ "[]"])

end

section \<open>Strings, integers and pointers\<close>

definition c_string :: "bytes \<Rightarrow> bytes" where
  "c_string s = takeWhile (\<lambda>b. b \<noteq> 0) s"

text \<open>An array with a terminated string that \<^verbatim>\<open>unsigned\<close> can count.\<close>

definition short_string :: "bytes \<Rightarrow> bool" where
  "short_string s \<longleftrightarrow> 0 \<in> set s \<and> length (c_string s) < 2 ^ 32"

lemma str_key_short: "short_string s \<Longrightarrow> str_key s = Inr (c_string s)"
  by (simp add: short_string_def str_key_def c_strlen_def c_string_def unat_u32_of_nat rd_slice_def length_takeWhile_le takeWhile_eq_take [symmetric])

interpretation strings: key_kind short_string str_key c_string
  by unfold_locales (auto simp: str_key_short short_string_def)

lemma int_bytes_inj: "int_bytes i = int_bytes j \<longleftrightarrow> i = j"
proof -
  have "le_val (int_bytes i) = unat i" for i unfolding int_bytes_def le_val_le_bytes using unsigned_less [of i, where ?'a = nat] by simp
  then show ?thesis by (metis word_unat_eq_iff)
qed

lemma ptr_bytes_inj: "ptr_bytes p = ptr_bytes q \<longleftrightarrow> p = q"
proof -
  have "le_val (ptr_bytes p) = unat p" for p unfolding ptr_bytes_def le_val_le_bytes using unsigned_less [of p, where ?'a = nat] by simp
  then show ?thesis by (metis word_unat_eq_iff)
qed

interpretation ints: key_kind "\<lambda>_. True" "\<lambda>i. Inr (int_bytes i)" "\<lambda>i :: u32. i"
  by unfold_locales (simp_all add: int_bytes_inj, simp add: int_bytes_def)

interpretation ptrs: key_kind "\<lambda>_. True" "\<lambda>p. Inr (ptr_bytes p)" "\<lambda>p :: u64. p"
  by unfold_locales (simp_all add: ptr_bytes_inj, simp add: ptr_bytes_def)

lemma macro_shapes:
  "HASH_REPLACE_STR = keyed_replace str_key" "HASH_FIND_STR = keyed_find str_key"
  "HASH_REPLACE_INT = keyed_replace (\<lambda>i. Inr (int_bytes i))" "HASH_FIND_INT = keyed_find (\<lambda>i. Inr (int_bytes i))"
  "HASH_REPLACE_PTR = keyed_replace (\<lambda>p. Inr (ptr_bytes p))" "HASH_FIND_PTR = keyed_find (\<lambda>p. Inr (ptr_bytes p))"
  by (simp_all add: fun_eq_iff keyed_replace_def keyed_find_def HASH_REPLACE_STR_def HASH_FIND_STR_def HASH_REPLACE_INT_def HASH_FIND_INT_def HASH_REPLACE_PTR_def HASH_FIND_PTR_def)

text \<open>
  C10. A table under strings is a map from strings to elements: for every hash function, any sequence of \<^verbatim>\<open>HASH_REPLACE_STR\<close>, \<^verbatim>\<open>HASH_FIND_STR\<close> and \<^verbatim>\<open>HASH_DEL\<close> on an empty
  table gives what the same operations give on a map, where the key of an array is the string up to its first zero byte, whatever follows
  it. \<^verbatim>\<open>HASH_REPLACE_STR\<close> returns the element it replaced. No operation reads outside an array or follows a bad pointer; the only
  other outcome is that the process ends because memory is exhausted.
\<close>

theorem string_table_is_map:
  assumes "key_ops_ok M short_string c_string xs Map.empty" "M \<subseteq> alive m" "tables m = Map.empty" "finite M" "card M < 2 ^ 32" "\<not> malloc_ok (2 ^ 36)"
  shows "key_ops (HASH_REPLACE_STR fcn malloc_ok) (HASH_FIND_STR fcn) xs (None, m) = Inl (ExitProcess (-1)) \<or>
    (\<exists>head m'. key_ops (HASH_REPLACE_STR fcn malloc_ok) (HASH_FIND_STR fcn) xs (None, m) = Inr (fst (map_ops c_string xs Map.empty), head, m') \<and>
      (\<forall>s. short_string s \<longrightarrow> HASH_FIND_STR fcn m' head s = Inr (snd (map_ops c_string xs Map.empty) (c_string s))))"
  using strings.runs_as_map [where malloc_ok = malloc_ok, OF strings.maps_empty [OF assms(3,2), of fcn] assms(1,4-6)] strings.maps_find
  unfolding macro_shapes by fastforce

text \<open>Two arrays with the same string, which differ behind its end.\<close>

definition same_string :: "bytes keyed_op list" where
  "same_string = [Replace [97, 0, 5] 0, Replace [97, 0, 6] 1, Look [97, 0]]"

lemma same_string_runs: "key_ops (HASH_REPLACE_STR any_key small) (HASH_FIND_STR any_key) same_string (None, four_elements) \<noteq> Inl (ExitProcess (-1))"
  by (simp add: same_string_def HASH_REPLACE_STR_def HASH_FIND_STR_def str_key_def c_strlen_def rd_slice_def HASH_REPLACE_def HASH_FIND_def HASH_DELETE_def test_defs small_fuel HASH_KEYCMP_def)

theorem string_table_is_map_witness:
  "\<exists>head m'. key_ops (HASH_REPLACE_STR any_key small) (HASH_FIND_STR any_key) same_string (None, four_elements) = Inr ([None, Some 0, Some 1], head, m') \<and>
     HASH_FIND_STR any_key m' head [97, 0, 7] = Inr (Some 1) \<and> HASH_FIND_STR any_key m' head [98, 0] = Inr None"
proof -
  have pre: "key_ops_ok {0, 1} short_string c_string same_string Map.empty" "{0, 1} \<subseteq> alive four_elements" "tables four_elements = Map.empty" "finite {0, 1 :: nat}" "card {0, 1 :: nat} < 2 ^ 32" "\<not> small (2 ^ 36)"
    and r: "map_ops c_string same_string Map.empty = ([None, Some 0, Some 1], [[97] \<mapsto> 1])"
    by (auto simp: same_string_def short_string_def c_string_def four_elements_def alive_iff small_def)
  have s: "short_string [97, 0, 7]" "c_string [97, 0, 7] = [97]" "short_string [98, 0]" "c_string [98, 0] = [98]" by (simp_all add: short_string_def c_string_def)
  show ?thesis using string_table_is_map [where malloc_ok = small and fcn = any_key, OF pre] same_string_runs s unfolding r fst_conv snd_conv by fastforce
qed

text \<open>\<^verbatim>\<open>HASH_ADD_STR\<close> is the insertion under the string.\<close>

lemma HASH_ADD_STR_adds: "short_string s \<Longrightarrow> HASH_ADD_STR fcn malloc_ok s a head m = table_add fcn malloc_ok (c_string s) a (head, m)"
  by (simp add: HASH_ADD_STR_def str_key_short table_add_def)

text \<open>The same for integers and for pointers.\<close>

theorem int_table_is_map:
  assumes "key_ops_ok M (\<lambda>_. True) (\<lambda>i. i) xs Map.empty" "M \<subseteq> alive m" "tables m = Map.empty" "finite M" "card M < 2 ^ 32" "\<not> malloc_ok (2 ^ 36)"
  shows "key_ops (HASH_REPLACE_INT fcn malloc_ok) (HASH_FIND_INT fcn) xs (None, m) = Inl (ExitProcess (-1)) \<or>
    (\<exists>head m'. key_ops (HASH_REPLACE_INT fcn malloc_ok) (HASH_FIND_INT fcn) xs (None, m) = Inr (fst (map_ops (\<lambda>i. i) xs Map.empty), head, m') \<and>
      (\<forall>i. HASH_FIND_INT fcn m' head i = Inr (snd (map_ops (\<lambda>i. i) xs Map.empty) i)))"
  using ints.runs_as_map [where malloc_ok = malloc_ok, OF ints.maps_empty [OF assms(3,2), of fcn] assms(1,4-6)] ints.maps_find
  unfolding macro_shapes by fastforce

theorem ptr_table_is_map:
  assumes "key_ops_ok M (\<lambda>_. True) (\<lambda>p. p) xs Map.empty" "M \<subseteq> alive m" "tables m = Map.empty" "finite M" "card M < 2 ^ 32" "\<not> malloc_ok (2 ^ 36)"
  shows "key_ops (HASH_REPLACE_PTR fcn malloc_ok) (HASH_FIND_PTR fcn) xs (None, m) = Inl (ExitProcess (-1)) \<or>
    (\<exists>head m'. key_ops (HASH_REPLACE_PTR fcn malloc_ok) (HASH_FIND_PTR fcn) xs (None, m) = Inr (fst (map_ops (\<lambda>p. p) xs Map.empty), head, m') \<and>
      (\<forall>p. HASH_FIND_PTR fcn m' head p = Inr (snd (map_ops (\<lambda>p. p) xs Map.empty) p)))"
  using ptrs.runs_as_map [where malloc_ok = malloc_ok, OF ptrs.maps_empty [OF assms(3,2), of fcn] assms(1,4-6)] ptrs.maps_find
  unfolding macro_shapes by fastforce

end
