(* ===== verification/Uthash_Murmur.thy ===== *)
theory Uthash_Murmur
  imports Uthash_Hash
begin

text \<open>
  \<^verbatim>\<open>HASH_MUR\<close> of \<^verbatim>\<open>uthash.h\<close> as it is compiled for processors that do not read words at odd addresses: \<^verbatim>\<open>MUR_GETBLOCK\<close> puts a block together from the
  two aligned words around it. Memory is a function from addresses to bytes, and the byte order of the machine an argument. \<open>Uthash_Hash\<close> has
  the function for x86, over the bytes of the key.
\<close>

section \<open>Words in memory\<close>

type_synonym byte_mem = "u64 \<Rightarrow> u8"

definition word4 :: "u8 \<Rightarrow> u8 \<Rightarrow> u8 \<Rightarrow> u8 \<Rightarrow> u32" where
  "word4 a b c d = ucast a OR push_bit 8 (ucast b) OR push_bit 16 (ucast c) OR push_bit 24 (ucast d)"

definition ld32 :: "bool \<Rightarrow> byte_mem \<Rightarrow> u64 \<Rightarrow> u32" where
  "ld32 big m p = (if big then word4 (m (p + 3)) (m (p + 2)) (m (p + 1)) (m p) else word4 (m p) (m (p + 1)) (m (p + 2)) (m (p + 3)))"

definition WP :: "u64 \<Rightarrow> u64" where
  "WP p = p AND NOT 3"

definition MUR_PLUS0_ALIGNED :: "u64 \<Rightarrow> bool" where "MUR_PLUS0_ALIGNED p \<longleftrightarrow> p AND 3 = 0"
definition MUR_PLUS1_ALIGNED :: "u64 \<Rightarrow> bool" where "MUR_PLUS1_ALIGNED p \<longleftrightarrow> p AND 3 = 1"
definition MUR_PLUS2_ALIGNED :: "u64 \<Rightarrow> bool" where "MUR_PLUS2_ALIGNED p \<longleftrightarrow> p AND 3 = 2"

definition MUR_THREE_ONE :: "bool \<Rightarrow> byte_mem \<Rightarrow> u64 \<Rightarrow> u32" where
  "MUR_THREE_ONE big m p =
     (let w = ld32 big m (WP p); w' = ld32 big m (WP p + 4) in
      if big then push_bit 8 (w AND 0x00ffffff) OR drop_bit 24 (w' AND 0xff000000)
      else drop_bit 8 (w AND 0xffffff00) OR push_bit 24 (w' AND 0x000000ff))"

definition MUR_TWO_TWO :: "bool \<Rightarrow> byte_mem \<Rightarrow> u64 \<Rightarrow> u32" where
  "MUR_TWO_TWO big m p =
     (let w = ld32 big m (WP p); w' = ld32 big m (WP p + 4) in
      if big then push_bit 16 (w AND 0x0000ffff) OR drop_bit 16 (w' AND 0xffff0000)
      else drop_bit 16 (w AND 0xffff0000) OR push_bit 16 (w' AND 0x0000ffff))"

definition MUR_ONE_THREE :: "bool \<Rightarrow> byte_mem \<Rightarrow> u64 \<Rightarrow> u32" where
  "MUR_ONE_THREE big m p =
     (let w = ld32 big m (WP p); w' = ld32 big m (WP p + 4) in
      if big then push_bit 24 (w AND 0x000000ff) OR drop_bit 8 (w' AND 0xffffff00)
      else drop_bit 24 (w AND 0xff000000) OR push_bit 8 (w' AND 0x00ffffff))"

definition MUR_GETBLOCK :: "bool \<Rightarrow> byte_mem \<Rightarrow> u64 \<Rightarrow> int \<Rightarrow> u32" where
  "MUR_GETBLOCK big m p i =
     (if MUR_PLUS0_ALIGNED p then ld32 big m (p + 4 * word_of_int i)
      else if MUR_PLUS1_ALIGNED p then MUR_THREE_ONE big m p
      else if MUR_PLUS2_ALIGNED p then MUR_TWO_TWO big m p
      else MUR_ONE_THREE big m p)"

section \<open>A block from two aligned words\<close>

lemma bit_word4:
  "bit (word4 a b c d) n \<longleftrightarrow> (if n < 8 then bit a n else if n < 16 then bit b (n - 8) else if n < 24 then bit c (n - 16) else n < 32 \<and> bit d (n - 24))"
  by (auto simp: word4_def bit_simps dest: bit_imp_le_length)

lemma masks:
  "(0x00ffffff :: u32) = mask 24" "(0x0000ffff :: u32) = mask 16" "(0x000000ff :: u32) = mask 8"
  "(0xff000000 :: u32) = push_bit 24 (mask 8)" "(0xffff0000 :: u32) = push_bit 16 (mask 16)" "(0xffffff00 :: u32) = push_bit 8 (mask 24)"
  by (simp_all add: mask_eq_exp_minus_1 push_bit_eq_mult)

lemma split_words:
  "push_bit 8 (word4 d c b a AND 0x00ffffff) OR drop_bit 24 (word4 h g f e AND 0xff000000) = word4 e d c b"
  "drop_bit 8 (word4 a b c d AND 0xffffff00) OR push_bit 24 (word4 e f g h AND 0x000000ff) = word4 b c d e"
  "push_bit 16 (word4 d c b a AND 0x0000ffff) OR drop_bit 16 (word4 h g f e AND 0xffff0000) = word4 f e d c"
  "drop_bit 16 (word4 a b c d AND 0xffff0000) OR push_bit 16 (word4 e f g h AND 0x0000ffff) = word4 c d e f"
  "push_bit 24 (word4 d c b a AND 0x000000ff) OR drop_bit 8 (word4 h g f e AND 0xffffff00) = word4 g f e d"
  "drop_bit 24 (word4 a b c d AND 0xff000000) OR push_bit 8 (word4 e f g h AND 0x00ffffff) = word4 d e f g"
  unfolding masks by (rule bit_word_eqI, auto simp: bit_word4 bit_simps)+

lemma and_3_cases: "(p :: u64) AND 3 = 0 \<or> p AND 3 = 1 \<or> p AND 3 = 2 \<or> p AND 3 = 3"
proof -
  have "unat (p AND 3) \<le> 3" using word_and_le1 [of p 3] by (simp add: word_le_nat_alt)
  then have "unat (p AND 3) = 0 \<or> unat (p AND 3) = 1 \<or> unat (p AND 3) = 2 \<or> unat (p AND 3) = 3" by linarith
  then show ?thesis by (simp add: word_unat_eq_iff)
qed

lemma WP_add: "WP p + (p AND 3) = p"
proof -
  have "WP p AND (p AND 3) = 0" by (rule bit_word_eqI) (auto simp: WP_def bit_simps)
  then have "WP p + (p AND 3) = WP p OR (p AND 3)" by (rule disjunctive_add_eq_or)
  also have "\<dots> = p" by (rule bit_word_eqI) (auto simp: WP_def bit_simps)
  finally show ?thesis .
qed

lemma ld32_at:
  "ld32 big m (q + 1) = (if big then word4 (m (q + 4)) (m (q + 3)) (m (q + 2)) (m (q + 1)) else word4 (m (q + 1)) (m (q + 2)) (m (q + 3)) (m (q + 4)))"
  "ld32 big m (q + 2) = (if big then word4 (m (q + 5)) (m (q + 4)) (m (q + 3)) (m (q + 2)) else word4 (m (q + 2)) (m (q + 3)) (m (q + 4)) (m (q + 5)))"
  "ld32 big m (q + 3) = (if big then word4 (m (q + 6)) (m (q + 5)) (m (q + 4)) (m (q + 3)) else word4 (m (q + 3)) (m (q + 4)) (m (q + 5)) (m (q + 6)))"
  "ld32 big m (q + 4) = (if big then word4 (m (q + 7)) (m (q + 6)) (m (q + 5)) (m (q + 4)) else word4 (m (q + 4)) (m (q + 5)) (m (q + 6)) (m (q + 7)))"
  by (simp_all add: ld32_def add.assoc)

lemma mur_parts:
  "MUR_THREE_ONE big m p = ld32 big m (WP p + 1)" "MUR_TWO_TWO big m p = ld32 big m (WP p + 2)" "MUR_ONE_THREE big m p = ld32 big m (WP p + 3)"
  by (cases big; simp only: MUR_THREE_ONE_def MUR_TWO_TWO_def MUR_ONE_THREE_def Let_def ld32_at ld32_def [of _ m "WP p"] if_True if_False split_words)+

text \<open>At an address that is not aligned, the block is the word at that address, whatever the index.\<close>

lemma MUR_GETBLOCK_unaligned:
  assumes "p AND 3 \<noteq> 0"
  shows "MUR_GETBLOCK big m p i = ld32 big m p"
proof -
  consider "p AND 3 = 1" | "p AND 3 = 2" | "p AND 3 = 3" using assms and_3_cases [of p] by blast
  then show ?thesis
    by cases (use WP_add [of p] in \<open>simp_all add: MUR_GETBLOCK_def MUR_PLUS0_ALIGNED_def MUR_PLUS1_ALIGNED_def MUR_PLUS2_ALIGNED_def mur_parts\<close>)
qed

section \<open>The hash value\<close>

definition mur_step :: "u32 \<Rightarrow> u32 \<Rightarrow> u32" where
  "mur_step h1 k = MUR_ROTL32 (h1 XOR mur_k1 k) 13 * 5 + 0xe6546b64"

text \<open>The loop from \<^verbatim>\<open>-_mur_nblocks\<close> to zero. A length from 2^31 makes the number of blocks negative, and the index overflows.\<close>

definition mur_loop :: "bool \<Rightarrow> byte_mem \<Rightarrow> u64 \<Rightarrow> int \<Rightarrow> u32 \<Rightarrow> u32 cres" where
  "mur_loop big m blocks nblocks h1 =
     (if nblocks < 0 then Inl SignedOverflow
      else Inr (foldl (\<lambda>h1 i. mur_step h1 (MUR_GETBLOCK big m blocks i)) h1 [-nblocks..-1]))"

definition HASH_MUR_at :: "bool \<Rightarrow> byte_mem \<Rightarrow> u64 \<Rightarrow> u32 \<Rightarrow> u32 cres" where
  "HASH_MUR_at big m key keylen =
     bindE (c_div (sint keylen) 4) (\<lambda>nblocks.
     let tail = key + 4 * word_of_int nblocks in
     bindE (mur_loop big m tail nblocks 0xf88D5353) (\<lambda>h1.
     let r = unat (keylen AND 3);
         k1 = (if r \<ge> 3 then push_bit 16 (byte_word (m (tail + 2))) else 0);
         k1 = (if r \<ge> 2 then k1 XOR push_bit 8 (byte_word (m (tail + 1))) else k1);
         k1 = (if r \<ge> 1 then k1 XOR byte_word (m tail) else k1);
         h1 = (if r \<ge> 1 then h1 XOR mur_k1 k1 else h1)
     in Inr (MUR_FMIX (h1 XOR keylen))))"

section \<open>Properties\<close>

definition bytes_at :: "byte_mem \<Rightarrow> u64 \<Rightarrow> nat \<Rightarrow> bytes" where
  "bytes_at m p n = map (\<lambda>j. m (p + of_nat j)) [0..<n]"

lemma length_bytes_at [simp]: "length (bytes_at m p n) = n"
  by (simp add: bytes_at_def)

lemma word4_le_val: "word4 a b c d = of_nat (le_val [a, b, c, d])"
proof -
  have z: "x AND y = 0" if "\<And>n. bit x n \<Longrightarrow> bit y n \<Longrightarrow> False" for x y :: u32 using that by (intro bit_word_eqI) (auto simp: bit_simps)
  have b: "bit (ucast (x :: u8) :: u32) n \<Longrightarrow> n < 8" for x n by (auto simp: bit_simps dest: bit_imp_le_length)
  have "word4 a b c d = ucast a + (push_bit 8 (ucast b) + (push_bit 16 (ucast c) + push_bit 24 (ucast d)))"
    unfolding word4_def by (subst (1 2 3) disjunctive_add_eq_or; (intro z)?) (auto simp: bit_simps dest: b bit_imp_le_length)
  also have "\<dots> = of_nat (le_val [a, b, c, d])" by (simp add: push_bit_eq_mult algebra_simps)
  finally show ?thesis .
qed

lemma ld32_le_val: "ld32 False m p = of_nat (le_val (bytes_at m p 4))"
  by (simp add: ld32_def word4_le_val bytes_at_def upt_conv_Cons)

text \<open>The function for x86 on blocks of four bytes.\<close>

lemma mur_blocks_concat:
  assumes "\<forall>b \<in> set bs. length b = 4" "length rest < 4"
  shows "mur_blocks (concat bs @ rest) h = (rest, foldl mur_step h (map (\<lambda>b. of_nat (le_val b)) bs))"
  using assms(1)
proof (induction bs arbitrary: h)
  case Nil
  then show ?case using assms(2) by simp
next
  case (Cons b bs)
  then show ?case by (subst mur_blocks.simps) (simp add: Let_def del: mur_blocks.simps flip: mur_step_def)
qed

lemma length_concat_4: "\<forall>b \<in> set bs. length b = 4 \<Longrightarrow> length (concat bs) = 4 * length bs"
  by (induction bs) auto

lemma upto_neg: "[- int n..-1] = map (\<lambda>i. int i - int n) [0..<n]"
  by (rule nth_equalityI) (simp_all add: nth_upto)

lemma unat_and_3: "unat (w AND 3 :: u32) = unat w mod 4" "unat (v AND 3 :: u64) = unat v mod 4"
proof -
  have n: "k AND 3 = k mod 4" for k :: nat
  proof -
    have "k AND 3 = take_bit 2 k" by (simp add: take_bit_eq_mask mask_eq_exp_minus_1)
    then show ?thesis by (simp add: take_bit_eq_mod)
  qed
  show "unat (w AND 3) = unat w mod 4" "unat (v AND 3) = unat v mod 4" by (simp_all add: unsigned_and_eq n)
qed

lemma HASH_MUR_at_blocks:
  fixes key :: u64
  assumes n: "n < 2 ^ 31" and bs: "length bs = n div 4" "\<forall>b \<in> set bs. length b = 4"
  defines "tail \<equiv> key + 4 * of_nat (n div 4)"
  assumes get: "\<And>i. i < n div 4 \<Longrightarrow> MUR_GETBLOCK big m tail (int i - int (n div 4)) = of_nat (le_val (bs ! i))"
  shows "HASH_MUR_at big m key (of_nat n) = Inr (HASH_MUR (concat bs @ bytes_at m tail (n mod 4)))"
proof -
  let ?h = "foldl mur_step 0xf88D5353 (map (\<lambda>b. of_nat (le_val b)) bs)"
  have s: "sint (of_nat n :: u32) = int n" using n by (simp add: signed_of_nat signed_take_bit_int_eq_self)
  have d: "c_div (sint (of_nat n :: u32)) 4 = Inr (int (n div 4))" 
  proof -
    have "n div 4 \<le> n" by simp
    then have "int (n div 4) \<le> 2147483647" using n by simp
    moreover have "int n sdiv 4 = int (n div 4)" by (simp add: sdiv_nonneg zdiv_int)
    ultimately show ?thesis unfolding s by (simp add: c_int_defs del: zdiv_int)
  qed
  have w: "map (\<lambda>i. MUR_GETBLOCK big m tail i) [- int (n div 4)..-1] = map (\<lambda>b. of_nat (le_val b)) bs"
    unfolding upto_neg using bs(1) get by (intro nth_equalityI) simp_all
  then have "mur_loop big m tail (int (n div 4)) 0xf88D5353 = Inr ?h" by (simp add: mur_loop_def flip: foldl_map)
  moreover have r: "unat (of_nat n AND 3 :: u32) = n mod 4"
  proof -
    have "unat (of_nat n :: u32) = n" using n by (simp add: unat_u32_of_nat)
    then show ?thesis by (simp only: unat_and_3)
  qed
  moreover have len: "length (concat bs @ bytes_at m tail (n mod 4)) = n" using bs by (simp add: length_concat_4)
  moreover have "mur_blocks (concat bs @ bytes_at m tail (n mod 4)) 0xf88D5353 = (bytes_at m tail (n mod 4), ?h)" by (rule mur_blocks_concat [OF bs(2)]) simp
  moreover have "n mod 4 = 0 \<or> n mod 4 = 1 \<or> n mod 4 = 2 \<or> n mod 4 = 3" by linarith
  ultimately show ?thesis unfolding HASH_MUR_at_def HASH_MUR_def d bindE_Inr of_int_of_nat_eq tail_def [symmetric] Let_def len
    by (elim disjE) (simp_all add: bytes_at_def tail_byte_def upt_conv_Cons xor.assoc del: mur_blocks.simps)
qed

lemma blocks_at: "bytes_at m p n = concat (map (\<lambda>i. bytes_at m (p + 4 * of_nat i) 4) [0..<n div 4]) @ bytes_at m (p + 4 * of_nat (n div 4)) (n mod 4)"
proof -
  have split: "bytes_at m p (a + b) = bytes_at m p a @ bytes_at m (p + of_nat a) b" for a b
  proof -
    have "map f [a..<a + b] = map (\<lambda>j. f (a + j)) [0..<b]" for f :: "nat \<Rightarrow> u8" by (rule nth_equalityI) simp_all
    moreover have "[0..<a + b] = [0..<a] @ [a..<a + b]" by (rule upt_add_eq_append) simp
    ultimately show ?thesis by (simp add: bytes_at_def add.assoc)
  qed
  have "bytes_at m p (4 * k) = concat (map (\<lambda>i. bytes_at m (p + 4 * of_nat i) 4) [0..<k])" for k
  proof (induction k)
    case (Suc k)
    have "bytes_at m p (4 * Suc k) = bytes_at m p (4 * k + 4)" by (simp add: algebra_simps)
    then show ?case unfolding split using Suc by simp
  qed (simp add: bytes_at_def)
  then show ?thesis using split [of "4 * (n div 4)" "n mod 4"] by simp
qed

lemma tail_alignment: "(key + 4 * of_nat k) AND 3 = key AND 3" for key :: u64
proof -
  have m: "unat (x + y) mod 4 = (unat x + unat y) mod 4" "unat (4 * y) mod 4 = 0" for x y :: u64 by (simp_all add: unat_word_ariths mod_mod_cancel)
  have "unat (key + 4 * of_nat k) mod 4 = unat key mod 4"
    using m(1) [of key "4 * of_nat k"] mod_add_right_eq [of "unat key" "unat (4 * of_nat k :: u64)" 4] unfolding m(2) by simp
  then show ?thesis by (simp add: word_unat_eq_iff unat_and_3)
qed

lemma HASH_MUR_aligned:
  assumes "n < 2 ^ 31" "key AND 3 = 0"
  shows "HASH_MUR_at False m key (of_nat n) = Inr (HASH_MUR (bytes_at m key n))"
proof -
  have "MUR_GETBLOCK False m (key + 4 * of_nat (n div 4)) (int i - int (n div 4)) = of_nat (le_val (map (\<lambda>i. bytes_at m (key + 4 * of_nat i) 4) [0..<n div 4] ! i))"
    if "i < n div 4" for i using that assms(2) by (simp add: MUR_GETBLOCK_def MUR_PLUS0_ALIGNED_def tail_alignment ld32_le_val algebra_simps)
  from HASH_MUR_at_blocks [OF assms(1) _ _ this] show ?thesis by (simp flip: blocks_at)
qed

lemma HASH_MUR_unaligned:
  assumes "n < 2 ^ 31" "key AND 3 \<noteq> 0"
  shows "HASH_MUR_at False m key (of_nat n) =
    Inr (HASH_MUR (concat (replicate (n div 4) (bytes_at m (key + 4 * of_nat (n div 4)) 4)) @ bytes_at m (key + 4 * of_nat (n div 4)) (n mod 4)))"
proof -
  have "MUR_GETBLOCK False m (key + 4 * of_nat (n div 4)) (int i - int (n div 4)) = of_nat (le_val (replicate (n div 4) (bytes_at m (key + 4 * of_nat (n div 4)) 4) ! i))"
    if "i < n div 4" for i using that assms(2) by (simp add: MUR_GETBLOCK_unaligned tail_alignment ld32_le_val)
  from HASH_MUR_at_blocks [OF assms(1) _ _ this] show ?thesis by simp
qed

section \<open>No mixing step loses anything\<close>

lemma mult_cancel: "(c :: u32) * c' = 1 \<Longrightarrow> x * c = y * c \<longleftrightarrow> x = y"
proof
  assume c: "c * c' = 1" and "x * c = y * c"
  then have "x * c * c' = y * c * c'" by simp
  then show "x = y" unfolding mult.assoc c by simp
qed simp

lemma mur_factors:
  "x * 0x85ebca6b = y * 0x85ebca6b \<longleftrightarrow> x = y" "x * 0xc2b2ae35 = y * 0xc2b2ae35 \<longleftrightarrow> x = y" "x * 0xcc9e2d51 = y * 0xcc9e2d51 \<longleftrightarrow> x = y"
  "x * 0x1b873593 = y * 0x1b873593 \<longleftrightarrow> x = y" "x * 5 = y * 5 \<longleftrightarrow> x = y" for x y :: u32
proof -
  show "x * 0x85ebca6b = y * 0x85ebca6b \<longleftrightarrow> x = y" by (rule mult_cancel [where c' = "0xa5cb9243"]) simp
  show "x * 0xc2b2ae35 = y * 0xc2b2ae35 \<longleftrightarrow> x = y" by (rule mult_cancel [where c' = "0x7ed1b41d"]) simp
  show "x * 0xcc9e2d51 = y * 0xcc9e2d51 \<longleftrightarrow> x = y" by (rule mult_cancel [where c' = "0xdee13bb1"]) simp
  show "x * 0x1b873593 = y * 0x1b873593 \<longleftrightarrow> x = y" by (rule mult_cancel [where c' = "0x56ed309b"]) simp
  show "x * 5 = y * 5 \<longleftrightarrow> x = y" by (rule mult_cancel [where c' = "0xcccccccd"]) simp
qed

lemma rotations_cancel: "MUR_ROTL32 x 13 = MUR_ROTL32 y 13 \<longleftrightarrow> x = y" "MUR_ROTL32 x 15 = MUR_ROTL32 y 15 \<longleftrightarrow> x = y"
proof -
  have "MUR_ROTL32 (MUR_ROTL32 z 13) 19 = z" "MUR_ROTL32 (MUR_ROTL32 z 15) 17 = z" for z
    by (rule bit_word_eqI, auto simp: MUR_ROTL32_def bit_simps)+
  then show "MUR_ROTL32 x 13 = MUR_ROTL32 y 13 \<longleftrightarrow> x = y" "MUR_ROTL32 x 15 = MUR_ROTL32 y 15 \<longleftrightarrow> x = y" by metis+
qed

lemma shifts_cancel: "x XOR drop_bit 16 x = y XOR drop_bit 16 y \<longleftrightarrow> x = y" "x XOR drop_bit 13 x = y XOR drop_bit 13 y \<longleftrightarrow> x = y" for x y :: u32
proof -
  have "(z XOR drop_bit 16 z) XOR drop_bit 16 (z XOR drop_bit 16 z) = z" for z :: u32
    by (rule bit_word_eqI) (auto simp: bit_simps)
  then show "x XOR drop_bit 16 x = y XOR drop_bit 16 y \<longleftrightarrow> x = y" by metis
  have "(z XOR drop_bit 13 z) XOR drop_bit 13 (z XOR drop_bit 13 z) XOR drop_bit 26 (z XOR drop_bit 13 z) = z" for z :: u32
    by (rule bit_word_eqI) (auto simp: bit_simps)
  then show "x XOR drop_bit 13 x = y XOR drop_bit 13 y \<longleftrightarrow> x = y" by metis
qed

lemma xor_right_cancel: "x XOR z = y XOR z \<longleftrightarrow> x = y" for x y z :: u32
  by (metis xor.assoc xor_self_eq xor.right_neutral)

lemma xor_left_cancel: "z XOR x = z XOR y \<longleftrightarrow> x = y" for x y z :: u32
  by (simp only: xor.commute [of z] xor_right_cancel)

lemma MUR_FMIX_inj: "MUR_FMIX x = MUR_FMIX y \<longleftrightarrow> x = y"
  by (simp only: MUR_FMIX_def Let_def shifts_cancel mur_factors)

lemma mur_step_inj: "mur_step g k = mur_step h k \<longleftrightarrow> g = h" "mur_step h j = mur_step h k \<longleftrightarrow> j = k"
  by (simp_all only: mur_step_def mur_k1_def add_right_cancel mur_factors rotations_cancel xor_right_cancel xor_left_cancel)

lemma mur_fold_inj: "foldl mur_step g ks = foldl mur_step h ks \<longleftrightarrow> g = h"
  by (induction ks arbitrary: g h) (simp_all add: mur_step_inj)

text \<open>A key with another first block has another hash value.\<close>

lemma HASH_MUR_first_block:
  assumes "\<forall>b \<in> set bs. length b = 4" "length rest < 4" "length a = 4" "length b = 4" "HASH_MUR (a @ concat bs @ rest) = HASH_MUR (b @ concat bs @ rest)"
  shows "a = b"
proof -
  have m: "mur_blocks (x @ concat bs @ rest) h = (rest, foldl mur_step (mur_step h (of_nat (le_val x))) (map (\<lambda>b. of_nat (le_val b)) bs))" if "length x = 4" for x h
    using mur_blocks_concat [of "x # bs" rest h] assms(1,2) that by simp
  have "(of_nat (le_val a) :: u32) = of_nat (le_val b)"
    using assms(5) unfolding HASH_MUR_def m [OF assms(3)] m [OF assms(4)] Let_def prod.case MUR_FMIX_inj length_append assms(3,4) xor_right_cancel
    by (simp add: xor_right_cancel mur_fold_inj mur_step_inj split: if_splits)
  moreover have "le_val a < 2 ^ 32" "le_val b < 2 ^ 32" using le_val_less [of a] le_val_less [of b] assms(3,4) by simp_all
  ultimately have "le_val a = le_val b" by (metis unat_u32_of_nat)
  then show ?thesis using le_bytes_le_val [of a] le_bytes_le_val [of b] assms(3,4) by metis
qed

text \<open>Only the first block depends on the first byte of the key.\<close>

lemma bytes_behind:
  assumes "0 < k" "4 * k + j < 2 ^ 64"
  shows "bytes_at (m(key := v)) (key + 4 * of_nat k) j = bytes_at m (key + 4 * of_nat k) j"
proof -
  have "key + 4 * of_nat k + of_nat i \<noteq> key" if "i < j" for i
  proof
    assume "key + 4 * of_nat k + of_nat i = key"
    then have "key + of_nat (4 * k + i) = key + 0" by (simp add: add.assoc)
    then have "(of_nat (4 * k + i) :: u64) = 0" by (rule add_left_imp_eq)
    then have "unat (of_nat (4 * k + i) :: u64) = 0" by simp
    then have "(4 * k + i) mod 2 ^ 64 = 0" by (simp only: unat_of_nat) simp
    moreover have "4 * k + i < 2 ^ 64" "0 < 4 * k" using assms that by auto
    ultimately show False by simp
  qed
  then show ?thesis by (simp add: bytes_at_def)
qed

lemma first_byte_counts:
  assumes "4 \<le> n" "n < 2 ^ 31" "HASH_MUR (bytes_at (m(key := v)) key n) = HASH_MUR (bytes_at m key n)"
  shows "v = m key"
proof -
  let ?bs = "\<lambda>m. map (\<lambda>i. bytes_at m (key + 4 * of_nat i) 4) [1..<n div 4]" and ?rest = "\<lambda>m. bytes_at m (key + 4 * of_nat (n div 4)) (n mod 4)"
  have pos: "0 < n div 4" "4 * (n div 4) + n mod 4 < 2 ^ 64" using assms(1,2) by auto
  have split: "bytes_at m key n = bytes_at m key 4 @ concat (?bs m) @ ?rest m" for m
    using blocks_at [of m key n] pos(1) by (simp add: upt_conv_Cons)
  have "4 * i + 4 < 2 ^ 64" if "i < n div 4" for i using that assms(2) by auto
  then have bs: "?bs (m(key := v)) = ?bs m" by (intro map_cong refl bytes_behind) simp_all
  have rest: "?rest (m(key := v)) = ?rest m" by (rule bytes_behind [OF pos])
  have "bytes_at (m(key := v)) key 4 = bytes_at m key 4"
    by (rule HASH_MUR_first_block [of "?bs m" "?rest m"]) (use assms(3) [unfolded split bs rest] in simp_all)
  then show ?thesis by (simp add: bytes_at_def upt_conv_Cons)
qed

text \<open>
  C40. \<^verbatim>\<open>HASH_MUR\<close> without unaligned reads, on a little-endian machine and for keys shorter than 2^31 bytes: a key at an aligned address has the hash value of its bytes. For a key at any other address
  \<^verbatim>\<open>MUR_GETBLOCK\<close> ignores its index, so that the value is not that of the key but that of the word behind its last block, repeated once for each block, and the
  bytes that do not fill a block. The value is that of the key, whatever the memory holds, exactly for keys at an aligned address and for keys of fewer than four bytes.
\<close>

theorem HASH_MUR_alignment:
  assumes "n < 2 ^ 31"
  shows "HASH_MUR_at False m key (of_nat n) = Inr (HASH_MUR
      (if key AND 3 = 0 then bytes_at m key n
       else concat (replicate (n div 4) (bytes_at m (key + 4 * of_nat (n div 4)) 4)) @ bytes_at m (key + 4 * of_nat (n div 4)) (n mod 4))) \<and>
    ((\<forall>m. HASH_MUR_at False m key (of_nat n) = Inr (HASH_MUR (bytes_at m key n))) \<longleftrightarrow> key AND 3 = 0 \<or> n < 4)"
proof (cases "key AND 3 = 0")
  case True
  then show ?thesis using HASH_MUR_aligned [OF assms] by simp
next
  case False
  note un = HASH_MUR_unaligned [OF assms False]
  have short: "HASH_MUR_at False m key (of_nat n) = Inr (HASH_MUR (bytes_at m key n))" if "n < 4" for m using that un by simp
  have long: "\<exists>m. HASH_MUR_at False m key (of_nat n) \<noteq> Inr (HASH_MUR (bytes_at m key n))" if n: "4 \<le> n"
  proof (rule ccontr)
    assume "\<nexists>m. HASH_MUR_at False m key (of_nat n) \<noteq> Inr (HASH_MUR (bytes_at m key n))"
    then have all: "HASH_MUR_at False m key (of_nat n) = Inr (HASH_MUR (bytes_at m key n))" for m by blast
    have k: "0 < n div 4" "4 * (n div 4) + 4 < 2 ^ 64" "4 * (n div 4) + n mod 4 < 2 ^ 64" using n assms by auto
    have "HASH_MUR_at False (m(key := m key + 1)) key (of_nat n) = HASH_MUR_at False m key (of_nat n)"
      unfolding un bytes_behind [OF k(1,2)] bytes_behind [OF k(1,3)] ..
    then have "m key + 1 = m key" unfolding all by (intro first_byte_counts [OF n assms]) simp
    then show False by simp
  qed
  have "(\<forall>m. HASH_MUR_at False m key (of_nat n) = Inr (HASH_MUR (bytes_at m key n))) \<longleftrightarrow> n < 4"
    using short long by (meson not_less)
  then show ?thesis using un [of m] False by simp
qed

lemma bytes_at_Suc: "bytes_at m p (Suc n) = m p # bytes_at m (p + 1) n" "bytes_at m p 0 = []"
  by (simp_all add: bytes_at_def map_upt_Suc add.assoc del: upt_Suc)

lemmas bytes_at_numeral = bytes_at_Suc(1) [of _ _ "pred_numeral k" for k, folded numeral_eq_Suc]

lemma replicate_2: "replicate 2 x = [x, x]"
  by (simp add: numeral_2_eq_2)

theorem HASH_MUR_alignment_witness:
  "HASH_MUR_at False (\<lambda>p. ucast p) 8 (of_nat 5) = Inr (HASH_MUR [8, 9, 10, 11, 12]) \<and>
   HASH_MUR_at False (\<lambda>p. ucast p) 9 (of_nat 8) = Inr (HASH_MUR [17, 18, 19, 20, 17, 18, 19, 20])"
proof -
  have "bytes_at (\<lambda>p. ucast p) 8 5 = [8, 9, 10, 11, 12]" "bytes_at (\<lambda>p. ucast p) 17 4 = [17, 18, 19, 20]" by (simp_all add: bytes_at_numeral bytes_at_Suc)
  then show ?thesis using HASH_MUR_alignment [of 5 "\<lambda>p. ucast p" 8] HASH_MUR_alignment [of 8 "\<lambda>p. ucast p" 9] by (simp add: bytes_at_Suc replicate_2)
qed

text \<open>
  So \<^verbatim>\<open>HASH_MUR\<close> is not a function of the key: the same eight bytes at an aligned and at an odd address have different hash values, and a search with
  the copy looks into the wrong bucket.
\<close>

definition two_copies :: byte_mem where
  "two_copies p = (if p < 8 then ucast p else if 9 \<le> p \<and> p < 17 then ucast (p - 9) else 0)"

theorem HASH_MUR_two_values:
  "bytes_at two_copies 0 8 = bytes_at two_copies 9 8 \<and> HASH_MUR_at False two_copies 0 8 \<noteq> HASH_MUR_at False two_copies 9 8"
proof -
  have b: "bytes_at two_copies 0 8 = [0, 1, 2, 3, 4, 5, 6, 7]" "bytes_at two_copies 9 8 = [0, 1, 2, 3, 4, 5, 6, 7]" "bytes_at two_copies 17 4 = [0, 0, 0, 0]"
    by (simp_all add: bytes_at_numeral bytes_at_Suc two_copies_def)
  have "HASH_MUR_at False two_copies 0 8 = Inr (HASH_MUR [0, 1, 2, 3, 4, 5, 6, 7])" using HASH_MUR_aligned [of 8 0 two_copies] b(1) by simp
  moreover have "HASH_MUR_at False two_copies 9 8 = Inr (HASH_MUR [0, 0, 0, 0, 0, 0, 0, 0])"
    using HASH_MUR_unaligned [of 8 9 two_copies] b(3) by (simp add: bytes_at_Suc replicate_2)
  moreover have "HASH_MUR [0, 1, 2, 3, 4, 5, 6, 7] \<noteq> HASH_MUR [0, 0, 0, 0, 0, 0, 0, 0]"
    by (simp add: HASH_MUR_def mur_k1_def MUR_ROTL32_def MUR_FMIX_def)
  ultimately show ?thesis using b by simp
qed

end
