(* ===== verification/Uthash_Bloom.thy ===== *)
theory Uthash_Bloom
  imports Uthash_Table
begin

text \<open>
  The Bloom filter a build with \<^verbatim>\<open>HASH_BLOOM\<close> adds to a table of \<^verbatim>\<open>uthash.h\<close>: one bit for every value of the lowest \<^verbatim>\<open>bloom_nbits\<close> bits of a
  hash value. The shift \<^verbatim>\<open>1ULL << bloom_nbits\<close> needs fewer than 64 bits, and the index is a 32-bit number.
\<close>

record bloom =
  bloom_bv :: bytes
  bloom_nbits :: u8

definition HASH_BLOOM_BITLEN :: "nat \<Rightarrow> nat" where
  "HASH_BLOOM_BITLEN n = 2 ^ n"

definition HASH_BLOOM_BYTELEN :: "nat \<Rightarrow> nat" where
  "HASH_BLOOM_BYTELEN n = HASH_BLOOM_BITLEN n div 8 + (if HASH_BLOOM_BITLEN n mod 8 \<noteq> 0 then 1 else 0)"

definition HASH_BLOOM_MAKE :: "(nat \<Rightarrow> bool) \<Rightarrow> nat \<Rightarrow> bloom cres" where
  "HASH_BLOOM_MAKE malloc_ok n =
     bindE (uthash_malloc malloc_ok (HASH_BLOOM_BYTELEN n)) (\<lambda>_.
     Inr \<lparr>bloom_bv = replicate (HASH_BLOOM_BYTELEN n) 0, bloom_nbits = of_nat n\<rparr>)"

definition HASH_BLOOM_BITSET :: "bytes \<Rightarrow> u32 \<Rightarrow> bytes cres" where
  "HASH_BLOOM_BITSET bv idx =
     bindE (rd bv (uint (idx div 8))) (\<lambda>b. wr bv (uint (idx div 8)) (b OR push_bit (unat (idx mod 8)) 1))"

definition HASH_BLOOM_BITTEST :: "bytes \<Rightarrow> u32 \<Rightarrow> bool cres" where
  "HASH_BLOOM_BITTEST bv idx = bindE (rd bv (uint (idx div 8))) (\<lambda>b. Inr (b AND push_bit (unat (idx mod 8)) 1 \<noteq> 0))"

definition bloom_index :: "u8 \<Rightarrow> u32 \<Rightarrow> u32" where
  "bloom_index nbits hashv' = hashv' AND ucast (push_bit (unat nbits) (1 :: u64) - 1)"

definition HASH_BLOOM_ADD :: "u32 \<Rightarrow> bloom \<Rightarrow> bloom cres" where
  "HASH_BLOOM_ADD hashv' b = bindE (HASH_BLOOM_BITSET (bloom_bv b) (bloom_index (bloom_nbits b) hashv')) (\<lambda>bv. Inr (b\<lparr>bloom_bv := bv\<rparr>))"

definition HASH_BLOOM_TEST :: "bloom \<Rightarrow> u32 \<Rightarrow> bool cres" where
  "HASH_BLOOM_TEST b hashv' = HASH_BLOOM_BITTEST (bloom_bv b) (bloom_index (bloom_nbits b) hashv')"

section \<open>The filter as a set\<close>

text \<open>The filter has the bits \<open>S\<close>.\<close>

definition bloom_ok :: "nat \<Rightarrow> bloom \<Rightarrow> nat set \<Rightarrow> bool" where
  "bloom_ok n b S \<longleftrightarrow> n \<le> 32 \<and> bloom_nbits b = of_nat n \<and> length (bloom_bv b) = HASH_BLOOM_BYTELEN n \<and>
     (\<forall>i < 8 * length (bloom_bv b). bit (bloom_bv b ! (i div 8)) (i mod 8) \<longleftrightarrow> i \<in> S)"

lemma unat_bloom_index:
  assumes "n \<le> 32"
  shows "unat (bloom_index (of_nat n) v) = unat v mod 2 ^ n"
proof -
  have n: "unat (of_nat n :: u8) = n" using assms by (simp add: unat_of_nat)
  have "push_bit n (1 :: u64) - 1 = mask n" by (simp add: mask_eq_exp_minus_1)
  moreover have "(ucast (mask n :: u64) :: u32) = mask n" using assms by (intro bit_word_eqI) (auto simp: bit_unsigned_iff bit_mask_iff)
  ultimately have "bloom_index (of_nat n) v = take_bit n v" by (simp add: bloom_index_def n take_bit_eq_mask)
  then show ?thesis by (simp only: unsigned_take_bit_eq) (simp add: take_bit_eq_mod)
qed

lemma index_fits:
  assumes "n \<le> 32"
  shows "unat v mod 2 ^ n < 8 * HASH_BLOOM_BYTELEN n"
proof -
  have "x \<le> 8 * (x div 8 + (if x mod 8 \<noteq> 0 then 1 else 0))" for x :: nat by presburger
  then have "2 ^ n \<le> 8 * HASH_BLOOM_BYTELEN n" unfolding HASH_BLOOM_BYTELEN_def HASH_BLOOM_BITLEN_def .
  moreover have "unat v mod 2 ^ n < 2 ^ n" by simp
  ultimately show ?thesis by linarith
qed

lemma bloom_cell:
  fixes v :: u32
  assumes "bloom_ok n b S"
  defines "i \<equiv> unat v mod 2 ^ n"
  shows "uint (bloom_index (bloom_nbits b) v div 8) = int (i div 8)" "unat (bloom_index (bloom_nbits b) v mod 8) = i mod 8" "i div 8 < length (bloom_bv b)" "i < 8 * length (bloom_bv b)"
proof -
  have n: "n \<le> 32" "bloom_nbits b = of_nat n" "length (bloom_bv b) = HASH_BLOOM_BYTELEN n" using assms by (auto simp: bloom_ok_def)
  have u: "unat (bloom_index (bloom_nbits b) v) = i" unfolding n(2) i_def by (rule unat_bloom_index [OF n(1)])
  show "uint (bloom_index (bloom_nbits b) v div 8) = int (i div 8)" "unat (bloom_index (bloom_nbits b) v mod 8) = i mod 8"
    using u by (simp_all add: uint_nat unat_div unat_mod)
  show i: "i < 8 * length (bloom_bv b)" unfolding i_def n(3) by (rule index_fits [OF n(1)])
  then show "i div 8 < length (bloom_bv b)" by (simp add: div_less_iff_less_mult mult.commute)
qed

lemma bloom_test_ok:
  assumes "bloom_ok n b S"
  shows "HASH_BLOOM_TEST b v = Inr (unat v mod 2 ^ n \<in> S)"
proof -
  note c = bloom_cell [OF assms, of v]
  have "(x :: u8) AND push_bit k 1 \<noteq> 0 \<longleftrightarrow> bit x k" if "k < 8" for x k using that by (auto simp: bit_iff_and_push_bit_not_eq_0)
  then show ?thesis using assms c by (simp add: HASH_BLOOM_TEST_def HASH_BLOOM_BITTEST_def rd_nat bloom_ok_def)
qed

lemma bloom_add_ok:
  assumes ok: "bloom_ok n b S"
  shows "\<exists>b'. HASH_BLOOM_ADD v b = Inr b' \<and> bloom_ok n b' (insert (unat v mod 2 ^ n) S)"
proof -
  define i where "i = unat v mod 2 ^ n"
  note c = bloom_cell [OF ok, of v, folded i_def]
  let ?bv = "(bloom_bv b)[i div 8 := bloom_bv b ! (i div 8) OR push_bit (i mod 8) 1]"
  have "HASH_BLOOM_ADD v b = Inr (b\<lparr>bloom_bv := ?bv\<rparr>)" using c by (simp add: HASH_BLOOM_ADD_def HASH_BLOOM_BITSET_def rd_nat wr_nat)
  moreover have "bit (?bv ! (j div 8)) (j mod 8) \<longleftrightarrow> j \<in> insert i S" if j: "j < 8 * length (bloom_bv b)" for j
  proof -
    have "bit (bloom_bv b ! (j div 8)) (j mod 8) \<longleftrightarrow> j \<in> S" using ok j by (simp add: bloom_ok_def)
    moreover have "j = i \<longleftrightarrow> j div 8 = i div 8 \<and> j mod 8 = i mod 8" by (metis div_mod_decomp)
    moreover have "bit (push_bit (i mod 8) 1 :: u8) (j mod 8) \<longleftrightarrow> j mod 8 = i mod 8" by (auto simp: bit_exp_iff)
    ultimately show ?thesis using c(3) by (auto simp: nth_list_update bit_or_iff simp del: push_bit_of_1)
  qed
  ultimately show ?thesis using ok unfolding bloom_ok_def i_def [symmetric] by auto
qed

text \<open>
  The Bloom filter of a table, for every size up to 32 bits: however many hash values are added to a new filter, no access is outside its bytes, and the test answers
  yes exactly for the values that agree with an added one in the lowest bits, so that it never denies a value that was added.
\<close>

theorem bloom_exact:
  assumes "n \<le> 32"
  shows "bindE (HASH_BLOOM_MAKE malloc_ok n) (foldE HASH_BLOOM_ADD vs) = Inl (ExitProcess (-1)) \<and> \<not> malloc_ok (HASH_BLOOM_BYTELEN n) \<or>
    (\<exists>b. bindE (HASH_BLOOM_MAKE malloc_ok n) (foldE HASH_BLOOM_ADD vs) = Inr b \<and>
      (\<forall>v. HASH_BLOOM_TEST b v = Inr (\<exists>w \<in> set vs. unat w mod 2 ^ n = unat v mod 2 ^ n)))"
proof (cases "malloc_ok (HASH_BLOOM_BYTELEN n)")
  case True
  let ?b = "\<lparr>bloom_bv = replicate (HASH_BLOOM_BYTELEN n) 0, bloom_nbits = of_nat n\<rparr>"
  have make: "HASH_BLOOM_MAKE malloc_ok n = Inr ?b" using True by (simp add: HASH_BLOOM_MAKE_def uthash_malloc_def)
  have "bloom_ok n ?b {}" using assms by (simp add: bloom_ok_def div_less_iff_less_mult mult.commute)
  moreover have "\<exists>b'. foldE HASH_BLOOM_ADD vs b = Inr b' \<and> bloom_ok n b' (S \<union> (\<lambda>w. unat w mod 2 ^ n) ` set vs)" if "bloom_ok n b S" for b S
    using that
  proof (induction vs arbitrary: b S)
    case (Cons v vs)
    obtain b1 where b1: "HASH_BLOOM_ADD v b = Inr b1" "bloom_ok n b1 (insert (unat v mod 2 ^ n) S)" using bloom_add_ok [OF Cons.prems] by blast
    from Cons.IH [OF b1(2)] show ?case using b1(1) by simp
  qed simp
  ultimately obtain b where b: "foldE HASH_BLOOM_ADD vs ?b = Inr b" "bloom_ok n b ((\<lambda>w. unat w mod 2 ^ n) ` set vs)" by fastforce
  then have "HASH_BLOOM_TEST b v = Inr (\<exists>w \<in> set vs. unat w mod 2 ^ n = unat v mod 2 ^ n)" for v
    unfolding bloom_test_ok [OF b(2)] by (simp add: image_iff eq_commute)
  then show ?thesis using make b(1) by simp
next
  case False
  then show ?thesis by (simp add: HASH_BLOOM_MAKE_def uthash_malloc_def)
qed

theorem bloom_exact_witness:
  "\<exists>b. bindE (HASH_BLOOM_MAKE (\<lambda>sz. True) 5) (foldE HASH_BLOOM_ADD [7, 40]) = Inr b \<and> HASH_BLOOM_TEST b 8 = Inr True \<and> HASH_BLOOM_TEST b 9 = Inr False"
proof -
  have "(5 :: nat) \<le> 32" by simp
  then obtain b where b: "bindE (HASH_BLOOM_MAKE (\<lambda>sz. True) 5) (foldE HASH_BLOOM_ADD [7, 40]) = Inr b"
      "\<And>v. HASH_BLOOM_TEST b v = Inr (\<exists>w \<in> set [7 :: u32, 40]. unat w mod 2 ^ 5 = unat v mod 2 ^ 5)"
    using bloom_exact [of 5 "\<lambda>sz. True" "[7, 40]"] by auto
  have "HASH_BLOOM_TEST b 8 = Inr True" "HASH_BLOOM_TEST b 9 = Inr False" unfolding b(2) by simp_all
  then show ?thesis using b(1) by blast
qed

end
