(* ===== verification/Uthash_Filtered.thy ===== *)
theory Uthash_Filtered
  imports Uthash_Bloom Uthash_Selected
begin

text \<open>
  uthash as a build with \<^verbatim>\<open>HASH_BLOOM\<close> makes it: every table has a Bloom filter, to which insertions add the hash value, and which a search asks before it looks into a
  bucket. Deletions leave the filter as it is, and it is released with the table. The operations meet the contract \<open>keyed_table\<close> of the tables
  without a filter, so that the filter changes no result; only the elements of a selection, whose hash values \<^verbatim>\<open>HASH_SELECT\<close> does not add, are hidden by it.
\<close>

section \<open>The operations with their filter\<close>

text \<open>The filter belongs to the table, and is there exactly while there is a table. \<^verbatim>\<open>HASH_MAKE_TABLE\<close> makes it.\<close>

type_synonym filtered = "(ptr \<times> ut_mem) \<times> bloom option"

definition table_filter :: "bloom option \<Rightarrow> bloom cres" where
  "table_filter bl = (case bl of None \<Rightarrow> Inl NullDeref | Some b \<Rightarrow> Inr b)"

definition filtered_add :: "(bytes \<Rightarrow> u32) \<Rightarrow> (nat \<Rightarrow> bool) \<Rightarrow> nat \<Rightarrow> bytes \<Rightarrow> nat \<Rightarrow> filtered \<Rightarrow> filtered cres" where
  "filtered_add fcn malloc_ok n k a = (\<lambda>((head, m), bl).
     bindE (HASH_ADD_KEYPTR fcn malloc_ok k a head m) (\<lambda>s.
     bindE (if head = None then bindE (HASH_BLOOM_MAKE malloc_ok n) (\<lambda>b. Inr (Some b)) else Inr bl) (\<lambda>bl.
     bindE (table_filter bl) (\<lambda>b.
     bindE (HASH_BLOOM_ADD (fcn k) b) (\<lambda>b. Inr (s, Some b))))))"

definition filtered_find :: "(bytes \<Rightarrow> u32) \<Rightarrow> filtered \<Rightarrow> bytes \<Rightarrow> ptr cres" where
  "filtered_find fcn = (\<lambda>((head, m), bl) k.
     if head = None then Inr None
     else bindE (table_filter bl) (\<lambda>b.
          bindE (HASH_BLOOM_TEST b (fcn k)) (\<lambda>t. if t then HASH_FIND fcn m head k else Inr None)))"

text \<open>\<^verbatim>\<open>HASH_BLOOM_FREE\<close> releases the filter with the table of the last element.\<close>

definition filtered_del :: "nat \<Rightarrow> filtered \<Rightarrow> filtered cres" where
  "filtered_del a = (\<lambda>((head, m), bl). bindE (HASH_DELETE a head m) (\<lambda>s. Inr (s, if fst s = None then None else bl)))"

section \<open>The contract\<close>

definition filtered_holds :: "(bytes \<Rightarrow> u32) \<Rightarrow> nat \<Rightarrow> nat set \<Rightarrow> filtered \<Rightarrow> entries \<Rightarrow> bool" where
  "filtered_holds fcn n M s es \<longleftrightarrow> table_holds fcn M (fst s) es \<and>
     (if es = [] then snd s = None else \<exists>b S. snd s = Some b \<and> bloom_ok n b S \<and> (\<forall>(k, a) \<in> set es. unat (fcn k) mod 2 ^ n \<in> S))"

lemma holds_head: "table_holds fcn M (head, m) es \<Longrightarrow> head = None \<longleftrightarrow> es = []"
  by (cases es) (auto simp: table_holds_def uthash_ok_def)

lemma new_filter_ok: "n \<le> 32 \<Longrightarrow> bloom_ok n \<lparr>bloom_bv = replicate (HASH_BLOOM_BYTELEN n) 0, bloom_nbits = of_nat n\<rparr> {}"
  by (simp add: bloom_ok_def div_less_iff_less_mult mult.commute)

lemma filtered_add_law:
  assumes h: "filtered_holds fcn n M s es" and o: "op_allowed M (Add k a) es" and big: "\<not> malloc_ok (2 ^ 36)" and n: "n \<le> 32"
  shows "filtered_add fcn malloc_ok n k a s = Inl (ExitProcess (-1)) \<or> (\<exists>s'. filtered_add fcn malloc_ok n k a s = Inr s' \<and> filtered_holds fcn n M s' (es @ [(k, a)]))"
proof -
  obtain head m bl where s: "s = ((head, m), bl)" by (metis prod.collapse)
  have t: "table_holds fcn M (head, m) es" using h s by (simp add: filtered_holds_def)
  let ?i = "unat (fcn k) mod 2 ^ n"
  let ?fl = "if head = None then bindE (HASH_BLOOM_MAKE malloc_ok n) (\<lambda>b. Inr (Some b)) else Inr bl"
  have "?fl = Inl (ExitProcess (-1)) \<or> (\<exists>b S. ?fl = Inr (Some b) \<and> bloom_ok n b S \<and> (\<forall>(k, a) \<in> set es. unat (fcn k) mod 2 ^ n \<in> S))"
    using h s n holds_head [OF t] new_filter_ok [OF n] by (auto simp: filtered_holds_def HASH_BLOOM_MAKE_def uthash_malloc_def)
  then consider "?fl = Inl (ExitProcess (-1))" | b S where "?fl = Inr (Some b)" "bloom_ok n b S" "\<forall>(k, a) \<in> set es. unat (fcn k) mod 2 ^ n \<in> S" by blast
  then show ?thesis
  proof cases
    case 1
    then show ?thesis using table_add_law [where malloc_ok = malloc_ok, OF t o big] s by (auto simp: filtered_add_def table_add_def)
  next
    case (2 b S)
    obtain b' where b': "HASH_BLOOM_ADD (fcn k) b = Inr b'" "bloom_ok n b' (insert ?i S)" using bloom_add_ok [OF 2(2)] by blast
    have f: "filtered_add fcn malloc_ok n k a s = bindE (table_add fcn malloc_ok k a (head, m)) (\<lambda>s. Inr (s, Some b'))"
      using 2(1) b'(1) s by (simp add: filtered_add_def table_add_def table_filter_def)
    have "filtered_holds fcn n M (s', Some b') (es @ [(k, a)])" if "table_holds fcn M s' (es @ [(k, a)])" for s'
      using that b'(2) 2(3) by (auto simp: filtered_holds_def intro!: exI [of _ "insert ?i S"])
    then show ?thesis using table_add_law [where malloc_ok = malloc_ok, OF t o big] unfolding f by auto
  qed
qed

lemma filtered_find_law:
  assumes h: "filtered_holds fcn n M s es" and k: "length k < 2 ^ 32"
  shows "filtered_find fcn s k = Inr (map_of es k)"
proof -
  obtain head m bl where s: "s = ((head, m), bl)" by (metis prod.collapse)
  have t: "table_holds fcn M (head, m) es" using h s by (simp add: filtered_holds_def)
  show ?thesis
  proof (cases "es = []")
    case True
    then show ?thesis using holds_head [OF t] s by (simp add: filtered_find_def)
  next
    case False
    then obtain b S where b: "bl = Some b" "bloom_ok n b S" "\<forall>(k, a) \<in> set es. unat (fcn k) mod 2 ^ n \<in> S" using h s by (auto simp: filtered_holds_def)
    have "map_of es k = None" if "unat (fcn k) mod 2 ^ n \<notin> S" using b(3) that by (auto simp: map_of_eq_None_iff)
    then show ?thesis using table_find_law [OF t k] holds_head [OF t] False s b(1) bloom_test_ok [OF b(2)] by (auto simp: filtered_find_def table_find_def table_filter_def)
  qed
qed

lemma filtered_del_law:
  assumes h: "filtered_holds fcn n M s es" and k: "map_of es k = Some a"
  shows "\<exists>s'. filtered_del a s = Inr s' \<and> filtered_holds fcn n M s' (filter (\<lambda>e. fst e \<noteq> k) es)"
proof -
  obtain head m bl where s: "s = ((head, m), bl)" by (metis prod.collapse)
  have t: "table_holds fcn M (head, m) es" using h s by (simp add: filtered_holds_def)
  let ?es = "filter (\<lambda>e. fst e \<noteq> k) es"
  obtain head' m' where d: "HASH_DELETE a head m = Inr (head', m')" "table_holds fcn M (head', m') ?es" using table_del_law [OF t k] by (auto simp: table_del_def)
  have "es \<noteq> []" using k by auto
  then obtain b S where "bl = Some b" "bloom_ok n b S" "\<forall>(k, a) \<in> set es. unat (fcn k) mod 2 ^ n \<in> S" using h s by (auto simp: filtered_holds_def)
  then have "filtered_holds fcn n M ((head', m'), if head' = None then None else bl) ?es" using d(2) holds_head [OF d(2)] by (auto simp: filtered_holds_def)
  then show ?thesis using d(1) s by (simp add: filtered_del_def)
qed

text \<open>The filter has at most \<open>2 ^ 32\<close> bits, as the documentation of \<^verbatim>\<open>HASH_BLOOM\<close> demands.\<close>

interpretation filtered: keyed_table "filtered_holds fcn (min n 32) M" M "filtered_add fcn (limited malloc_ok) (min n 32)" "filtered_find fcn" filtered_del for fcn n M malloc_ok
proof unfold_locales
  show "filtered_add fcn (limited malloc_ok) (min n 32) k a s = Inl (ExitProcess (-1)) \<or>
      (\<exists>s'. filtered_add fcn (limited malloc_ok) (min n 32) k a s = Inr s' \<and> filtered_holds fcn (min n 32) M s' (es @ [(k, a)]))"
    if "filtered_holds fcn (min n 32) M s es" "op_allowed M (Add k a) es" for s es k a
    using filtered_add_law [OF that, of "limited malloc_ok"] by (simp add: limited_def)
qed (blast intro: filtered_find_law filtered_del_law)+

text \<open>
  C12. A Bloom filter changes nothing but speed: for every hash function and every size of the filter up to 32 bits, any sequence of insertions of new keys, searches
  and deletions on an empty table gives the results of the same operations on a list, as it does without a filter; the filter never hides an element, and no access is outside
  its bytes. The only other outcome is that the process ends because memory is exhausted.
\<close>

theorem bloom_hides_nothing:
  assumes "ops_allowed M ops []" "M \<subseteq> alive m" "tables m = Map.empty" "\<And>sz. malloc_ok sz \<Longrightarrow> sz < 2 ^ 36" "n \<le> 32"
  shows "run_ops (filtered_add fcn malloc_ok n) (filtered_find fcn) filtered_del ops ((None, m), None) = Inl (ExitProcess (-1)) \<or>
    (\<exists>s bl. run_ops (filtered_add fcn malloc_ok n) (filtered_find fcn) filtered_del ops ((None, m), None) = Inr (fst (spec_ops ops []), s, bl) \<and>
      table_elements s = Inr (map snd (snd (spec_ops ops []))) \<and> (bl = None \<longleftrightarrow> fst s = None))"
proof -
  have lim: "limited malloc_ok = malloc_ok" using assms(4) by (auto simp: limited_def fun_eq_iff)
  have n: "min n 32 = n" using assms(5) by simp
  have "filtered_holds fcn (min n 32) M ((None, m), None) []" using assms(2,3) by (simp add: filtered_holds_def table_holds_def uthash_ok_def)
  from filtered.run_refines [OF this assms(1), of malloc_ok, unfolded lim n] show ?thesis
  proof (elim disjE exE conjE)
    fix s assume r: "run_ops (filtered_add fcn malloc_ok n) (filtered_find fcn) filtered_del ops ((None, m), None) = Inr (fst (spec_ops ops []), s)"
      "filtered_holds fcn n M s (snd (spec_ops ops []))"
    obtain head m' bl where s: "s = ((head, m'), bl)" by (metis prod.collapse)
    have t: "table_holds fcn M (head, m') (snd (spec_ops ops []))" using r(2) s by (simp add: filtered_holds_def)
    then have "table_elements (head, m') = Inr (map snd (snd (spec_ops ops [])))" by (intro table_elements_order [of fcn]) (simp add: table_holds_def)
    moreover have "bl = None \<longleftrightarrow> head = None" using r(2) s holds_head [OF t] by (auto simp: filtered_holds_def split: if_splits)
    ultimately show ?thesis using r(1) s by auto
  qed simp
qed

lemma sample_filter_source: "\<exists>sbl. run_ops (filtered_add any_key small 5) (filtered_find any_key) filtered_del second_of_two ((None, four_elements), None) = Inr ([None, None], (Some 0, src_mem), sbl)"
proof -
  obtain s1 where s1: "HASH_ADD_KEYPTR any_key small [1] 0 None four_elements = Inr s1" "HASH_ADD_KEYPTR any_key small [2] 1 (fst s1) (snd s1) = Inr (Some 0, src_mem)"
    using source_built by (auto simp: bindE_eq_Inr)
  obtain b0 where b0: "HASH_BLOOM_MAKE small 5 = Inr b0" "bloom_ok 5 b0 {}" using new_filter_ok [of 5]
    by (auto simp: HASH_BLOOM_MAKE_def uthash_malloc_def small_def HASH_BLOOM_BYTELEN_def HASH_BLOOM_BITLEN_def)
  obtain b1 where b1: "HASH_BLOOM_ADD (any_key [1]) b0 = Inr b1" "bloom_ok 5 b1 {7}" using bloom_add_ok [OF b0(2), of "any_key [1]"] by (auto simp: any_key_def)
  obtain b2 where "HASH_BLOOM_ADD (any_key [2]) b1 = Inr b2" using bloom_add_ok [OF b1(2)] by blast
  moreover have "fst s1 \<noteq> None" using s1(1) by (auto simp: HASH_ADD_KEYPTR_def bindE_eq_Inr)
  ultimately show ?thesis using s1 b0(1) b1(1) by (cases s1) (auto simp: second_of_two_def filtered_add_def table_filter_def)
qed

theorem bloom_hides_nothing_witness:
  "\<exists>s bl. run_ops (filtered_add any_key small 5) (filtered_find any_key) filtered_del second_of_two ((None, four_elements), None) = Inr ([None, None], s, bl) \<and> table_elements s = Inr [0, 1]"
proof -
  have pre: "ops_allowed {0, 1} second_of_two []" "{0, 1} \<subseteq> alive four_elements" "tables four_elements = Map.empty" "\<And>sz. small sz \<Longrightarrow> sz < 2 ^ 36" "(5 :: nat) \<le> 32"
    "spec_ops second_of_two [] = ([None, None], [([1], 0), ([2], 1)])"
    by (auto simp: second_of_two_def four_elements_def alive_iff small_def)
  show ?thesis using bloom_hides_nothing [where malloc_ok = small and fcn = any_key, OF pre(1-5)] sample_filter_source unfolding pre(6) by auto
qed

section \<open>A selection is not filtered\<close>

text \<open>
  \<^verbatim>\<open>HASH_SELECT\<close> in this build: \<^verbatim>\<open>HASH_MAKE_TABLE\<close> makes the filter with the table, for the first element that is selected. The hash values of the selected
  elements are not added to it.
\<close>

type_synonym sel_state = "(ut_mem \<times> ptr \<times> ptr) \<times> bloom option"

definition filtered_elt :: "(nat \<Rightarrow> bool) \<Rightarrow> nat \<Rightarrow> UT_hash_handle \<Rightarrow> nat \<Rightarrow> sel_state \<Rightarrow> sel_state cres" where
  "filtered_elt malloc_ok n src_hh elt = (\<lambda>((m, dst, last_elt), bl).
     bindE (upd_hh (Some elt) (\<lambda>h. h\<lparr>key := key src_hh, keylen := keylen src_hh, hashv := hashv src_hh, prev := last_elt, next' := None\<rparr>) m) (\<lambda>m.
     bindE (if last_elt \<noteq> None then upd_hh last_elt (\<lambda>h. h\<lparr>next' := Some elt\<rparr>) m else Inr m) (\<lambda>m.
     bindE (if dst = None
        then bindE (HASH_MAKE_TABLE malloc_ok elt m) (\<lambda>m. bindE (HASH_BLOOM_MAKE malloc_ok n) (\<lambda>b. Inr (Some elt, m, Some b)))
        else bindE (head_tbl m dst) (\<lambda>t. bindE (upd_hh (Some elt) (\<lambda>h. h\<lparr>tbl := t\<rparr>) m) (\<lambda>m. Inr (dst, m, bl)))) (\<lambda>(dst, m, bl).
     bindE (hh_at m (Some elt)) (\<lambda>dst_hh. bindE (tbl_at m (tbl dst_hh)) (\<lambda>T.
     bindE (HASH_ADD_TO_BKT malloc_ok (tbl dst_hh) (HASH_TO_BKT (hashv dst_hh) (num_buckets T)) elt m) (\<lambda>m.
     bindE (head_tbl m dst) (\<lambda>t.
     bindE (upd_tbl t (\<lambda>T. T\<lparr>num_items := num_items T + 1\<rparr>) m) (\<lambda>m.
     Inr ((m, dst, Some elt), bl))))))))))"

fun filtered_chain :: "nat \<Rightarrow> (nat \<Rightarrow> bool) \<Rightarrow> nat \<Rightarrow> (nat \<Rightarrow> bool) \<Rightarrow> ut_mem \<Rightarrow> ptr \<Rightarrow> sel_state \<Rightarrow> sel_state cres" where
  "filtered_chain 0 malloc_ok n cond sm src_hh s = Inl NoReturn"
| "filtered_chain (Suc fuel) malloc_ok n cond sm src_hh s =
     (case src_hh of None \<Rightarrow> Inr s
      | Some elt \<Rightarrow> bindE (hh_at sm src_hh) (\<lambda>h.
          bindE (if cond elt then filtered_elt malloc_ok n h elt s else Inr s) (filtered_chain fuel malloc_ok n cond sm (hh_next h))))"

definition filtered_select :: "(nat \<Rightarrow> bool) \<Rightarrow> nat \<Rightarrow> (nat \<Rightarrow> bool) \<Rightarrow> ut_mem \<Rightarrow> ptr \<Rightarrow> filtered \<Rightarrow> filtered cres" where
  "filtered_select malloc_ok n cond sm src = (\<lambda>((dst, m), bl).
     if src = None then Inr ((dst, m), bl)
     else bindE (head_tbl sm src) (\<lambda>t. bindE (tbl_at sm t) (\<lambda>T.
        bindE (foldE (\<lambda>i s. bindE (bucket_at sm t (of_nat i)) (\<lambda>b. filtered_chain (Suc (unat (num_items T))) malloc_ok n cond sm (hh_head b) s))
          [0..<unat (num_buckets T)] ((m, dst, None), bl)) (\<lambda>((m, dst, last_elt), bl).
        Inr ((dst, m), bl)))))"

text \<open>The selection with a filter does what the one without does, and its filter is the new one as soon as there is a table; or it ends for want of memory.\<close>

definition empty_filter :: "nat \<Rightarrow> bloom" where
  "empty_filter n = \<lparr>bloom_bv = replicate (HASH_BLOOM_BYTELEN n) 0, bloom_nbits = of_nat n\<rparr>"

definition sel_filter :: "nat \<Rightarrow> ut_mem \<times> ptr \<times> ptr \<Rightarrow> bloom option" where
  "sel_filter n = (\<lambda>(m, dst, last_elt). if dst = None then None else Some (empty_filter n))"

definition sim_or_exit :: "nat \<Rightarrow> sel_state cres \<Rightarrow> (ut_mem \<times> ptr \<times> ptr) cres \<Rightarrow> bool" where
  "sim_or_exit n x y \<longleftrightarrow> x = Inl (ExitProcess (-1)) \<or> x = bindE y (\<lambda>s. Inr (s, sel_filter n s))"

lemma sim_bind:
  assumes "sim_or_exit n x y" "\<And>s. sim_or_exit n (f (s, sel_filter n s)) (g s)"
  shows "sim_or_exit n (bindE x f) (bindE y g)"
proof (cases y)
  case (Inr s)
  have "x = Inl (ExitProcess (-1)) \<or> x = Inr (s, sel_filter n s)" using assms(1) Inr by (simp add: sim_or_exit_def)
  then show ?thesis
  proof
    assume "x = Inr (s, sel_filter n s)"
    then show ?thesis using assms(2) [of s] Inr by simp
  qed (simp add: sim_or_exit_def)
qed (use assms(1) in \<open>auto simp: sim_or_exit_def\<close>)

lemma sim_same: "(\<And>v. sim_or_exit n (f v) (g v)) \<Longrightarrow> sim_or_exit n (bindE x f) (bindE x g)"
  by (cases x) (auto simp: sim_or_exit_def)

lemma sim_Inr: "sim_or_exit n (Inr (s, sel_filter n s)) (Inr s)"
  by (simp add: sim_or_exit_def)

lemma filtered_elt_sim: "sim_or_exit n (filtered_elt malloc_ok n h e (s, sel_filter n s)) (select_elt malloc_ok h e s)"
proof -
  obtain m dst l where s: "s = (m, dst, l)" by (metis prod.collapse)
  have make: "HASH_BLOOM_MAKE malloc_ok n = Inl (ExitProcess (-1)) \<or> HASH_BLOOM_MAKE malloc_ok n = Inr (empty_filter n)"
    by (auto simp: HASH_BLOOM_MAKE_def uthash_malloc_def empty_filter_def)
  have some: "sim_or_exit n (Inr ((m, Some e', l), Some (empty_filter n))) (Inr (m, Some e', l))" for m e' l
    by (simp add: sim_or_exit_def sel_filter_def)
  show ?thesis
  proof (cases dst)
    case None
    have exit: "sim_or_exit n (bindE x (\<lambda>v. Inl (ExitProcess (-1)))) (bindE x g)" for x :: "ut_mem cres" and g
      by (cases x) (simp_all add: sim_or_exit_def)
    show ?thesis using make unfolding filtered_elt_def select_elt_def s prod.case None
      by (elim disjE) (simp_all add: bindE_assoc some exit sim_same)
  next
    case (Some d)
    then show ?thesis unfolding filtered_elt_def select_elt_def s prod.case
      by (simp add: sel_filter_def bindE_assoc some sim_same)
  qed
qed

lemma filtered_chain_sim: "sim_or_exit n (filtered_chain fuel malloc_ok n cond sm p (s, sel_filter n s)) (select_chain fuel malloc_ok cond sm p s)"
proof (induction fuel arbitrary: p s)
  case (Suc fuel)
  then show ?case by (auto simp: sim_Inr filtered_elt_sim split: option.split intro!: sim_same sim_bind)
qed (simp add: sim_or_exit_def)

lemma foldE_sim: "(\<And>i s. sim_or_exit n (f i (s, sel_filter n s)) (g i s)) \<Longrightarrow> sim_or_exit n (foldE f is (s, sel_filter n s)) (foldE g is s)"
  by (induction "is" arbitrary: s) (auto simp: sim_Inr intro: sim_bind)

lemma filtered_select_sim:
  assumes "done_or_exit P (HASH_SELECT malloc_ok cond sm src None m)"
  shows "done_or_exit (\<lambda>(s, bl). P s \<and> bl = (if fst s = None then None else Some (empty_filter n))) (filtered_select malloc_ok n cond sm src ((None, m), None))"
proof (cases "src = None")
  case True
  then show ?thesis using assms by (simp add: filtered_select_def HASH_SELECT_def done_or_exit_def)
next
  case False
  let ?f = "\<lambda>t T. foldE (\<lambda>i s. bindE (bucket_at sm t (of_nat i)) (\<lambda>b. filtered_chain (Suc (unat (num_items T))) malloc_ok n cond sm (hh_head b) s)) [0..<unat (num_buckets T)] ((m, None, None), None)"
  let ?g = "\<lambda>t T. foldE (\<lambda>i s. bindE (bucket_at sm t (of_nat i)) (\<lambda>b. select_chain (Suc (unat (num_items T))) malloc_ok cond sm (hh_head b) s)) [0..<unat (num_buckets T)] (m, None, None)"
  have none: "sel_filter n (m, None, None) = None" by (simp add: sel_filter_def)
  have "sim_or_exit n (?f t T) (?g t T)" for t T
  proof -
    let ?c = "\<lambda>i s. bindE (bucket_at sm t (of_nat i)) (\<lambda>b. filtered_chain (Suc (unat (num_items T))) malloc_ok n cond sm (hh_head b) s)"
    have "sim_or_exit n (?c i (s, sel_filter n s)) (bindE (bucket_at sm t (of_nat i)) (\<lambda>b. select_chain (Suc (unat (num_items T))) malloc_ok cond sm (hh_head b) s))" for i s
      by (intro sim_same filtered_chain_sim)
    from foldE_sim [where f = ?c and s = "(m, None, None)", OF this] show ?thesis unfolding none .
  qed
  then have "sim_or_exit n (bindE (head_tbl sm src) (\<lambda>t. bindE (tbl_at sm t) (?f t))) (bindE (head_tbl sm src) (\<lambda>t. bindE (tbl_at sm t) (?g t)))" (is "sim_or_exit n ?F ?G")
    by (intro sim_same)
  moreover have "filtered_select malloc_ok n cond sm src ((None, m), None) = bindE ?F (\<lambda>((m, dst, l), bl). Inr ((dst, m), bl))"
    "HASH_SELECT malloc_ok cond sm src None m = bindE ?G (\<lambda>(m, dst, l). Inr (dst, m))"
    unfolding filtered_select_def HASH_SELECT_def prod.case if_not_P [OF False] bindE_assoc by (rule refl)+
  ultimately show ?thesis using assms by (cases ?G) (auto simp: sim_or_exit_def done_or_exit_def sel_filter_def)
qed

text \<open>
  C39. In a build with \<^verbatim>\<open>HASH_BLOOM\<close> no element that \<^verbatim>\<open>HASH_SELECT\<close> puts into a new table is found there: after any sequence of insertions, searches and deletions on the source, the
  new table has exactly the elements that satisfy the condition, a walk through the buckets finds each of them by its key, and yet every search is refused by the filter, which is
  empty. The only other outcome is that the process ends because memory is exhausted.
\<close>

theorem selected_not_found:
  fixes cond :: "nat \<Rightarrow> bool"
  assumes "ops_allowed M ops []" "M \<subseteq> alive m0" "tables m0 = Map.empty" "\<And>sz. malloc_ok sz \<Longrightarrow> sz < 2 ^ 36" "n \<le> 32"
    "run_ops (filtered_add fcn malloc_ok n) (filtered_find fcn) filtered_del ops ((None, m0), None) = Inr (outs, (src, ms), sbl)" "tables m = Map.empty" "M \<subseteq> alive m"
  defines "chosen \<equiv> filter (cond \<circ> snd) (snd (spec_ops ops []))"
  shows "filtered_select malloc_ok n cond ms src ((None, m), None) = Inl (ExitProcess (-1)) \<or>
    (\<exists>dst m' bl es. filtered_select malloc_ok n cond ms src ((None, m), None) = Inr ((dst, m'), bl) \<and> mset es = mset (map snd chosen) \<and> table_elements (dst, m') = Inr es \<and>
      (\<forall>k. length k < 2 ^ 32 \<longrightarrow> HASH_FIND fcn m' dst k = Inr (map_of chosen k)) \<and> (\<forall>k. filtered_find fcn ((dst, m'), bl) k = Inr None))"
proof -
  let ?es = "snd (spec_ops ops [])"
  have lim: "limited malloc_ok = malloc_ok" "min n 32 = n" using assms(4,5) by (auto simp: limited_def fun_eq_iff)
  have "filtered_holds fcn (min n 32) M ((None, m0), None) []" using assms(2,3) by (simp add: filtered_holds_def table_holds_def uthash_ok_def)
  from filtered.run_refines [OF this assms(1), of malloc_ok, unfolded lim]
  have "table_holds fcn M (src, ms) ?es" using assms(6) by (auto simp: filtered_holds_def)
  then have h: "uthash_ok fcn ms src (map snd ?es)" "\<And>k a. (k, a) \<in> set ?es \<Longrightarrow> ekey ms a = k" "distinct (map fst ?es)" by (auto simp: table_holds_def)
  have "set (map snd ?es) \<subseteq> M" using ops_allowed_elements [OF assms(1)] by auto
  then have "set (map snd ?es) \<subseteq> alive m" "\<not> malloc_ok (2 ^ 36)" using assms(4) [of "2 ^ 36"] assms(8) by auto
  from filtered_select_sim [where n = n, OF HASH_SELECT_selects [where malloc_ok = malloc_ok, OF h(1) assms(7) this, of cond]] show ?thesis
    unfolding done_or_exit_def
  proof (elim disjE exE conjE)
    fix s assume "filtered_select malloc_ok n cond ms src ((None, m), None) = Inr s"
      "case s of (s, bl) \<Rightarrow> (case s of (dst, m') \<Rightarrow> \<exists>ys. mset ys = mset (filter cond (map snd ?es)) \<and> sel_ok fcn ms m' dst ys) \<and> bl = (if fst s = None then None else Some (empty_filter n))"
    then obtain dst m' bl ys where r: "filtered_select malloc_ok n cond ms src ((None, m), None) = Inr ((dst, m'), bl)" "mset ys = mset (filter cond (map snd ?es))"
      "sel_ok fcn ms m' dst ys" "bl = (if dst = None then None else Some (empty_filter n))" by auto
    note k = map_of_keyed [OF h(2,3) r(2)]
    have "filtered_find fcn ((dst, m'), bl) k = Inr None" for k
      using r(4) bloom_test_ok [OF new_filter_ok [OF assms(5)]] by (simp add: filtered_find_def table_filter_def empty_filter_def)
    moreover have "map snd chosen = filter cond (map snd ?es)" by (simp add: chosen_def filter_map)
    ultimately show ?thesis using sel_ok_observed [OF r(3) k(2)] r(1,2) k(1) by (auto simp: chosen_def)
  qed simp
qed

lemma two_steps: "filtered_chain 2 = filtered_chain (Suc (Suc 0))" "filtered_chain 3 = filtered_chain (Suc (Suc (Suc 0)))"
  by (simp_all add: eval_nat_numeral)

lemma sample_filter_select: "filtered_select small 5 (\<lambda>a. a = 1) src_mem (Some 0) ((None, four_elements), None) \<noteq> Inl (ExitProcess (-1))"
  by (simp add: test_defs filtered_select_def filtered_elt_def HASH_BLOOM_MAKE_def HASH_BLOOM_BYTELEN_def HASH_BLOOM_BITLEN_def upt_conv_Cons two_steps)

theorem selected_not_found_witness:
  "\<exists>s. filtered_select small 5 (\<lambda>a. a = 1) src_mem (Some 0) ((None, four_elements), None) = Inr s \<and> table_elements (fst s) = Inr [1] \<and>
     HASH_FIND any_key (snd (fst s)) (fst (fst s)) [2] = Inr (Some 1) \<and> filtered_find any_key s [2] = Inr None"
proof -
  have pre: "ops_allowed {0, 1} second_of_two []" "{0, 1} \<subseteq> alive four_elements" "tables four_elements = Map.empty" "\<And>sz. small sz \<Longrightarrow> sz < 2 ^ 36" "(5 :: nat) \<le> 32"
    "filter ((\<lambda>a. a = 1) \<circ> snd) (snd (spec_ops second_of_two [])) = [([2], 1)]"
    by (auto simp: second_of_two_def four_elements_def alive_iff small_def)
  obtain sbl where src: "run_ops (filtered_add any_key small 5) (filtered_find any_key) filtered_del second_of_two ((None, four_elements), None) = Inr ([None, None], (Some 0, src_mem), sbl)"
    using sample_filter_source by blast
  obtain dst m' bl es where r: "filtered_select small 5 (\<lambda>a. a = 1) src_mem (Some 0) ((None, four_elements), None) = Inr ((dst, m'), bl)" "mset es = {#1#}" "table_elements (dst, m') = Inr es"
      "\<forall>k. length k < 2 ^ 32 \<longrightarrow> HASH_FIND any_key m' dst k = Inr (map_of [([2], 1)] k)" "\<forall>k. filtered_find any_key ((dst, m'), bl) k = Inr None"
    using selected_not_found [where cond = "\<lambda>a. a = 1", OF pre(1-5) src pre(3,2)] sample_filter_select unfolding pre(6) by auto
  have "es = [1]" using r(2) by simp
  then show ?thesis using r(1,3,5) r(4) [rule_format, of "[2]"] by auto
qed

end
