(* ===== verification/Khash_Iterate.thy ===== *)
theory Khash_Iterate
  imports Khash_Example
begin

text \<open>
  Iterating over the hash table of \<^verbatim>\<open>hash_table/khash.h\<close> with \<^verbatim>\<open>kh_foreach\<close> and \<^verbatim>\<open>kh_foreach_value\<close>, for a body that does not change
  the table, and releasing it with \<^verbatim>\<open>kh_destroy\<close>. The body is a function of the key, the value and a state of the program.
\<close>

section \<open>The macros\<close>

definition kh_foreach :: "('k \<Rightarrow> 'v \<Rightarrow> 's \<Rightarrow> 's cres) \<Rightarrow> ('k, 'v) khash \<Rightarrow> 's \<Rightarrow> 's cres" where
  "kh_foreach code h = foldE (\<lambda>i s.
     bindE (kh_exist h (of_nat i)) (\<lambda>e. if \<not> e then Inr s else
     bindE (kh_key h (of_nat i)) (\<lambda>kvar. bindE (kh_value h (of_nat i)) (\<lambda>vvar. code kvar vvar s)))) [0..<unat (n_buckets h)]"

definition kh_foreach_value :: "('v \<Rightarrow> 's \<Rightarrow> 's cres) \<Rightarrow> ('k, 'v) khash \<Rightarrow> 's \<Rightarrow> 's cres" where
  "kh_foreach_value code h = foldE (\<lambda>i s.
     bindE (kh_exist h (of_nat i)) (\<lambda>e. if \<not> e then Inr s else
     bindE (kh_value h (of_nat i)) (\<lambda>vvar. code vvar s))) [0..<unat (n_buckets h)]"

text \<open>The tables of a program by their addresses; a table owns its arrays, which are released with it.\<close>

definition kh_destroy :: "nat option \<Rightarrow> (nat \<Rightarrow> ('k, 'v) khash option) \<Rightarrow> (nat \<Rightarrow> ('k, 'v) khash option) cres" where
  "kh_destroy h st = (case h of None \<Rightarrow> Inr st | Some a \<Rightarrow> if st a = None then Inl DanglingPtr else Inr (st(a := None)))"

section \<open>What the iteration visits\<close>

definition kh_entries :: "('k, 'v) khash \<Rightarrow> ('k \<times> 'v) list" where
  "kh_entries h = map (\<lambda>i. (the (keys h ! i), the (vals h ! i))) (filter (live (flags h)) [0..<unat (n_buckets h)])"

lemma foldE_filter:
  assumes "\<And>i s. i \<in> set xs \<Longrightarrow> f i s = (if P i then g (e i) s else Inr s)"
  shows "foldE f xs s = foldE g (map e (filter P xs)) s"
  using assms by (induction xs arbitrary: s) (auto simp: bindE_def split: sum.splits)

lemma visited_bucket:
  assumes ok: "kh_ok hash_func c h" and i: "i < unat (n_buckets h)"
  shows "kh_exist h (of_nat i) = Inr (live (flags h) i)"
    "live (flags h) i \<Longrightarrow> kh_key h (of_nat i) = Inr (the (keys h ! i)) \<and> kh_value h (of_nat i) = Inr (the (vals h ! i)) \<and>
       kh_map h (the (keys h ! i)) = Some (vals h ! i) \<and> vals h ! i \<noteq> None"
proof -
  have tok: "table_ok hash_func h" and set: "\<And>k. kh_map h k \<noteq> Some None" using ok i by (auto simp: kh_ok_def kh_inv_def split: if_splits)
  have u: "unat (of_nat i :: u32) = i" using i unat_u32_less [of "n_buckets h"] by (simp add: unat_u32_of_nat)
  have sh: "shape (n_buckets h) (flags h) (keys h) (vals h)" using table_okD(1) [OF tok] .
  show "kh_exist h (of_nat i) = Inr (live (flags h) i)"
    using flag_reads(3) [of "of_nat i" "flags h"] flags_cover [OF sh i] u by (simp add: kh_exist_def live_def)
  assume lv: "live (flags h) i"
  then have L: "i \<in> lives (unat (n_buckets h)) (flags h)" using i by (simp add: lives_def)
  obtain k where k: "keys h ! i = Some k" using table_okD(3) [OF tok] i lv by (auto simp: placed_def)
  have m: "kh_map h k = Some (vals h ! i)" using kh_map_iff [OF tok] L k by blast
  obtain v where v: "vals h ! i = Some v" using m set [of k] by (cases "vals h ! i") auto
  have "i < length (keys h)" "i < length (vals h)" using sh i by (auto simp: shape_def)
  then have "rd (keys h) (int i) = Inr (Some k)" "rd (vals h) (int i) = Inr (Some v)" using rd_nat k v by metis+
  then show "kh_key h (of_nat i) = Inr (the (keys h ! i)) \<and> kh_value h (of_nat i) = Inr (the (vals h ! i)) \<and>
       kh_map h (the (keys h ! i)) = Some (vals h ! i) \<and> vals h ! i \<noteq> None"
    using m k v u by (simp add: kh_key_def kh_value_def rd_key_def uint_nat)
qed

lemma foreach_entries:
  assumes ok: "kh_ok hash_func c h"
  shows "kh_foreach code h s = foldE (\<lambda>(k, v). code k v) (kh_entries h) s" "kh_foreach_value vcode h s = foldE vcode (map snd (kh_entries h)) s"
proof -
  note b = visited_bucket [OF ok]
  show "kh_foreach code h s = foldE (\<lambda>(k, v). code k v) (kh_entries h) s"
    unfolding kh_foreach_def kh_entries_def by (rule foldE_filter) (use b in auto)
  have "kh_foreach_value vcode h s = foldE vcode (map (\<lambda>i. the (vals h ! i)) (filter (live (flags h)) [0..<unat (n_buckets h)])) s"
    unfolding kh_foreach_value_def by (rule foldE_filter) (use b in auto)
  then show "kh_foreach_value vcode h s = foldE vcode (map snd (kh_entries h)) s" by (simp add: kh_entries_def comp_def)
qed

lemma entries_map:
  assumes ok: "kh_ok hash_func c h"
  shows "distinct (map fst (kh_entries h))" "map_of (kh_entries h) = kh_view h"
proof -
  let ?is = "filter (live (flags h)) [0..<unat (n_buckets h)]"
  note b = visited_bucket(2) [OF ok]
  have src: "source_ok hash_func h" using ok kh_inv_source by (auto simp: kh_ok_def)
  have "inj_on (\<lambda>i. the (keys h ! i)) (set ?is)"
  proof (rule inj_onI)
    fix i j assume ij: "i \<in> set ?is" "j \<in> set ?is" "the (keys h ! i) = the (keys h ! j)"
    then have L: "i \<in> lives (unat (n_buckets h)) (flags h)" "j \<in> lives (unat (n_buckets h)) (flags h)" by (auto simp: lives_def)
    then have "keys h ! i = keys h ! j" using src ij(3) unfolding source_ok_def by (metis option.expand)
    then show "i = j" using L src by (auto simp: source_ok_def inj_on_def)
  qed
  then show d: "distinct (map fst (kh_entries h))" by (simp add: kh_entries_def distinct_map comp_def)
  show "map_of (kh_entries h) = kh_view h"
  proof
    fix k
    have "map_of (kh_entries h) k = map_of (map (\<lambda>i. (the (keys h ! i), the (vals h ! i))) js) k \<and>
        kh_map h k = map_of (map (\<lambda>i. (the (keys h ! i), vals h ! i)) js) k" if "js = ?is" for js using that by (simp add: kh_entries_def kh_map_def)
    moreover have "map_of (map (\<lambda>i. (the (keys h ! i), the (vals h ! i))) js) k =
        (case map_of (map (\<lambda>i. (the (keys h ! i), vals h ! i)) js) k of None \<Rightarrow> None | Some v \<Rightarrow> v)" if "set js \<subseteq> set ?is" for js
      using that b by (induction js) auto
    ultimately show "map_of (kh_entries h) k = kh_view h k" by (simp add: kh_view_def)
  qed
qed

text \<open>
  C36. Iteration visits the map: after any sequence of operations, with allocations that succeed, there is a list of the entries of the map the operations stand for, each key once,
  such that \<^verbatim>\<open>kh_foreach\<close> runs its body on exactly these entries in turn, whatever the body does with the program's state, and \<^verbatim>\<open>kh_foreach_value\<close> on
  their values; a fault can only come from the body.
\<close>

theorem kh_foreach_visits_map:
  assumes "inserts ops \<le> kh_limit"
    and "run_map_ops (kh_insert all_allocated hash_func) (kh_remove hash_func) (kh_lookup hash_func) ops (kh_init ()) = Inr (h, rs)"
  shows "\<exists>es. distinct (map fst es) \<and> map_of es = fst (spec_ops ops Map.empty) \<and>
    kh_foreach code h s = foldE (\<lambda>(k, v). code k v) es s \<and> kh_foreach_value vcode h s' = foldE vcode (map snd es) s'"
proof -
  have ok: "kh_ok hash_func (inserts ops) h" and v: "(kh_view h, rs) = spec_ops ops Map.empty"
    using kh.run_refines [OF kh_ok_init(1), of ops hash_func] assms unfolding kh_ok_init(2) by auto
  have "kh_view h = fst (spec_ops ops Map.empty)" using v by (metis fst_conv)
  then show ?thesis using entries_map [OF ok] foreach_entries [OF ok] by metis
qed

definition three_ops :: "(u32, int) map_op list" where
  "three_ops = [Insert 3 9, Insert 4 16, Remove 3]"

theorem kh_foreach_visits_map_witness:
  "\<exists>h rs. run_map_ops (kh_insert all_allocated kh_int_hash_func) (kh_remove kh_int_hash_func) (kh_lookup kh_int_hash_func) three_ops (kh_init ()) = Inr (h, rs) \<and>
     kh_foreach (\<lambda>k v s. Inr ((k, v) # s)) h [] = Inr [(4, 16)]"
proof -
  have le: "inserts three_ops \<le> kh_limit" by (simp add: three_ops_def kh_limit_def)
  obtain h rs where run: "run_map_ops (kh_insert all_allocated kh_int_hash_func) (kh_remove kh_int_hash_func) (kh_lookup kh_int_hash_func) three_ops (kh_init ()) = Inr (h, rs)"
    using kh.run_refines [OF kh_ok_init(1), of three_ops kh_int_hash_func] le by auto
  obtain es where es: "distinct (map fst es)" "map_of es = fst (spec_ops three_ops Map.empty)"
      "kh_foreach (\<lambda>k v s. Inr ((k, v) # s)) h [] = foldE (\<lambda>(k, v) s. Inr ((k, v) # s)) es []"
    using kh_foreach_visits_map [OF le run, of "\<lambda>k v s. Inr ((k, v) # s)" "[]" "\<lambda>v s. Inr s" "()"] by auto
  have m: "map_of es = [4 \<mapsto> 16]" using es(2) by (auto simp: three_ops_def)
  then have "dom (map_of es) = {4}" by simp
  then have "set (map fst es) = {4}" by (simp add: dom_map_of_conv_image_fst)
  then have "length es = 1" using es(1) distinct_card [of "map fst es"] by simp
  then obtain x where "es = [x]" by (auto simp: length_Suc_conv)
  moreover have "(4, 16) \<in> set es" using m by (intro map_of_SomeD) simp
  ultimately have "es = [(4, 16)]" by simp
  then show ?thesis using run es(3) by auto
qed

end
