(* ===== verification/Asio_Timers.thy ===== *)
theory Asio_Timers
  imports C_Text
begin

text \<open>
  \<^verbatim>\<open>client_server/asio\<close>: the UDP echo server \<^verbatim>\<open>timer_server.cc\<close> with its throughput timer, and the client \<^verbatim>\<open>timer_client.cc\<close> that measures round
  trips. boost::asio is not modelled: an execution is the list of completions \<^verbatim>\<open>io_service.run()\<close> delivers, with the result of the \<^verbatim>\<open>send_to\<close> of
  the handler (\<^verbatim>\<open>Some\<close> text when it throws). A datagram is copied to the beginning of the buffer, as much of it as fits. Bytes of a buffer nothing was
  written to are \<open>None\<close>: the arrays are members without an initialiser.
\<close>

section \<open>Buffers and numbers\<close>

type_synonym buffer = "u8 option list"

definition fill :: "buffer \<Rightarrow> buffer \<Rightarrow> buffer" where
  "fill buf data = take (length buf) data @ drop (length data) buf"

text \<open>\<^verbatim>\<open>recv_buffer_.data()\<close> as a C string.\<close>

fun read_string :: "buffer \<Rightarrow> string cres" where
  "read_string [] = Inl OutOfBounds"
| "read_string (None # buf) = Inl UninitRead"
| "read_string (Some b # buf) = (if b = 0 then Inr [] else bindE (read_string buf) (\<lambda>s. Inr (char_of_byte b # s)))"

text \<open>\<^verbatim>\<open>iss >> n\<close> for an unsigned 64-bit number: white space, a sign, digits; a value out of range fails.\<close>

definition extract_u64 :: "string \<Rightarrow> u64 option" where
  "extract_u64 s =
     (let t = dropWhile c_isspace s;
          minus = (t \<noteq> [] \<and> hd t = CHR ''-'');
          ds = (if t \<noteq> [] \<and> (hd t = CHR ''-'' \<or> hd t = CHR ''+'') then tl t else t);
          v = digits_from 0 ds
      in if ds = [] \<or> \<not> c_isdigit (hd ds) then None
         else if v \<ge> 2 ^ 64 then None
         else Some (word_of_int (if minus then - v else v)))"

definition to_string :: "u64 \<Rightarrow> bytes" where
  "to_string n = map of_char (dec_nat (unat n))"

section \<open>The server\<close>

datatype receive_error = Ok_received | Message_size | Other_error

record udp_server =
  mps :: u32
  recv_buffer :: buffer
  receiving :: bool
  replies :: "(nat \<times> buffer) list"
  mps_printed :: "string list"

text \<open>The constructor does not initialise \<^verbatim>\<open>mps\<close>: what it holds is an argument.\<close>

definition udp_server_new :: "u32 \<Rightarrow> udp_server" where
  "udp_server_new junk = \<lparr>mps = junk, recv_buffer = replicate 128 None, receiving = True, replies = [], mps_printed = []\<rparr>"

text \<open>A handler ends normally or with the text of an exception.\<close>

type_synonym 's handled = "string option \<times> 's"

definition server_handle_receive :: "receive_error \<Rightarrow> nat \<Rightarrow> string option \<Rightarrow> udp_server \<Rightarrow> udp_server handled" where
  "server_handle_receive error remote_endpoint send_result s =
     (if error = Ok_received \<or> error = Message_size then
        let s = s\<lparr>mps := mps s + 1\<rparr> in
        case send_result of Some what \<Rightarrow> (Some what, s)
        | None \<Rightarrow> (None, s\<lparr>replies := replies s @ [(remote_endpoint, recv_buffer s)], receiving := True\<rparr>)
      else (None, s))"

definition measure_throughput :: "udp_server \<Rightarrow> udp_server handled" where
  "measure_throughput s = (None, s\<lparr>mps_printed := mps_printed s @ [line (dec_nat (unat (mps s)))], mps := 0\<rparr>)"

datatype server_event = Datagram receive_error nat bytes "string option" | Timer

text \<open>A datagram is only taken while a receive is pending.\<close>

fun server_event_step :: "server_event \<Rightarrow> udp_server \<Rightarrow> udp_server handled" where
  "server_event_step (Datagram error ep data send_result) s =
     (if receiving s
      then server_handle_receive error ep send_result (s\<lparr>recv_buffer := fill (recv_buffer s) (map Some data), receiving := False\<rparr>)
      else (None, s))"
| "server_event_step Timer s = measure_throughput s"

text \<open>\<^verbatim>\<open>main\<close>: an exception ends \<^verbatim>\<open>run\<close> and is printed to the error stream; without one the server runs on.\<close>

fun server_run :: "server_event list \<Rightarrow> udp_server \<Rightarrow> string option \<times> udp_server" where
  "server_run [] s = (None, s)"
| "server_run (e # es) s =
     (case server_event_step e s of (None, s) \<Rightarrow> server_run es s | (Some what, s) \<Rightarrow> (Some (line what), s))"

definition server_main :: "u32 \<Rightarrow> server_event list \<Rightarrow> string option \<times> udp_server" where
  "server_main junk es = server_run es (udp_server_new junk)"

section \<open>The client\<close>

definition max_length :: nat where "max_length = 1024"

record timer_client =
  c_buffer :: buffer
  c_out :: "string list"
  lat_ofs :: "string list"
  received :: int
  sent_to :: "(nat \<times> bytes) list"
  c_receiving :: bool
  stopped :: bool

text \<open>The handlers return the text of an exception as the server's do, or a fault.\<close>

definition send_timestamp :: "u64 \<Rightarrow> nat \<Rightarrow> string option \<Rightarrow> timer_client \<Rightarrow> timer_client handled" where
  "send_timestamp now endpoint send_result c =
     (case send_result of Some what \<Rightarrow> (Some what, c) | None \<Rightarrow> (None, c\<lparr>sent_to := sent_to c @ [(endpoint, to_string now)]\<rparr>))"

definition timer_client_new :: "nat \<Rightarrow> u64 \<Rightarrow> nat \<Rightarrow> string option \<Rightarrow> timer_client handled" where
  "timer_client_new port now endpoint send_result =
     (case send_timestamp now endpoint send_result
        \<lparr>c_buffer = replicate max_length None,
         c_out = [line (''local port '' @ dec_nat port), line (''latency file name: latency-'' @ dec_nat port @ ''.txt'')], lat_ofs = [], received = 0, sent_to = [], c_receiving = False, stopped = False\<rparr>
      of (Some what, c) \<Rightarrow> (Some what, c) | (None, c) \<Rightarrow> (None, c\<lparr>c_receiving := True\<rparr>))"

definition client_handle_receive :: "receive_error \<Rightarrow> nat \<Rightarrow> u64 \<Rightarrow> string option \<Rightarrow> timer_client \<Rightarrow> timer_client handled cres" where
  "client_handle_receive error remote_endpoint end_ns send_result c =
     (if error = Ok_received \<or> error = Message_size then
        bindE (c_add (received c) 1) (\<lambda>n.
        bindE (read_string (c_buffer c)) (\<lambda>str.
        let c = c\<lparr>received := n\<rparr>;
            c = (case extract_u64 str of Some start_ns \<Rightarrow> c\<lparr>lat_ofs := lat_ofs c @ [line (dec_nat (unat (end_ns - start_ns)))]\<rparr> | None \<Rightarrow> c)
        in Inr (case send_timestamp end_ns remote_endpoint send_result c of (Some what, c) \<Rightarrow> (Some what, c)
                | (None, c) \<Rightarrow> (None, c\<lparr>stopped := stopped c \<or> received c > 100000, c_receiving := True\<rparr>))))
      else Inr (None, c))"

text \<open>A reply that arrives, with the time and the result of sending the next one.\<close>

datatype client_event = Reply receive_error nat bytes u64 "string option"

fun client_run :: "client_event list \<Rightarrow> timer_client \<Rightarrow> timer_client handled cres" where
  "client_run [] c = Inr (None, c)"
| "client_run (Reply error ep data end_ns send_result # es) c =
     (if stopped c \<or> \<not> c_receiving c then Inr (None, c)
      else bindE (client_handle_receive error ep end_ns send_result (c\<lparr>c_buffer := fill (c_buffer c) (map Some data), c_receiving := False\<rparr>)) (\<lambda>(ex, c).
        if ex = None then client_run es c else Inr (ex, c)))"

text \<open>\<^verbatim>\<open>main\<close>, with the resolved endpoint or the exception of the resolver: the texts on the error stream, the returned value and the client.\<close>

definition client_main :: "string list \<Rightarrow> nat \<Rightarrow> string + nat \<Rightarrow> u64 \<Rightarrow> string option \<Rightarrow> client_event list \<Rightarrow> (string list \<times> int \<times> timer_client option) cres" where
  "client_main argv port resolved now send_result es =
     (if length argv \<noteq> 3 then Inr ([line ''Usage: client <host> <port>''], 1, None)
      else case resolved of Inl what \<Rightarrow> Inr ([line (''Exception: '' @ what)], 0, None)
      | Inr endpoint \<Rightarrow>
          (case timer_client_new port now endpoint send_result of (Some what, c) \<Rightarrow> Inr ([line (''Exception: '' @ what)], 0, Some c)
           | (None, c) \<Rightarrow> bindE (client_run es c) (\<lambda>(ex, c). Inr (case ex of None \<Rightarrow> [] | Some what \<Rightarrow> [line (''Exception: '' @ what)], 0, Some c))))"

section \<open>Numbers as text\<close>

lemma read_string_filled:
  assumes "0 \<notin> set bs"
  shows "read_string (map Some (bs @ 0 # rest) @ buf) = Inr (map char_of_byte bs)"
  using assms by (induction bs) auto

lemma of_char_not_0: "c_isdigit c \<Longrightarrow> (of_char c :: u8) \<noteq> 0 \<and> char_of_byte (of_char c) = c"
proof -
  assume d: "c_isdigit c"
  have u: "unat (of_char c :: u8) = of_char c"
  proof -
    have "(of_char c :: nat) < 256" by simp
    moreover have "(of_char c :: u8) = of_nat (of_char c)" by (simp add: of_nat_of_char)
    ultimately show ?thesis by (simp add: unat_of_nat)
  qed
  then have "unat (of_char c :: u8) \<noteq> 0" using d by (simp add: c_isdigit_def)
  then show ?thesis using u by (auto simp: char_of_byte_def)
qed

lemma to_string_text: "0 \<notin> set (to_string n)" "map char_of_byte (to_string n) = dec_nat (unat n)" "length (to_string n) \<le> 20"
proof -
  have d: "c_isdigit c" if "c \<in> set (dec_nat (unat n))" for c using dec_nat_digits that by blast
  then show "0 \<notin> set (to_string n)" using of_char_not_0 by (force simp: to_string_def)
  show "map char_of_byte (to_string n) = dec_nat (unat n)" unfolding to_string_def map_map by (rule map_idI) (use d of_char_not_0 in auto)
  have "unat n < 10 ^ 20" using unsigned_less [of n, where 'a = nat] by simp
  then show "length (to_string n) \<le> 20" by (simp add: to_string_def length_dec_nat)
qed

lemma extract_dec: "extract_u64 (dec_nat (unat n)) = Some n"
proof -
  obtain c cs where dn: "dec_nat (unat n) = c # cs" using dec_nat_nonempty by (cases "dec_nat (unat n)") auto
  have c: "c_isdigit c" using dec_nat_digits [of "unat n"] dn by simp
  then have ns: "c \<noteq> CHR ''-''" "c \<noteq> CHR ''+''" "\<not> c_isspace c" by (auto simp: c_isdigit_def c_isspace_not_digit)
  have v: "digits_from 0 (c # cs) = int (unat n)" using digits_from_dec_nat [of 0 "unat n"] dn by simp
  have "int (unat n) < 2 ^ 64" using unsigned_less [of n, where 'a = int] by simp
  then show ?thesis using c ns v by (simp add: extract_u64_def dn Let_def del: digits_from.simps)
qed

section \<open>The round trip\<close>

text \<open>What a buffer is on the wire, when memory nothing was written to holds zeros.\<close>

definition on_wire :: "buffer \<Rightarrow> bytes" where
  "on_wire buf = map (\<lambda>b. case b of None \<Rightarrow> 0 | Some b \<Rightarrow> b) buf"

lemma server_echo:
  assumes "receiving s"
  shows "server_event_step (Datagram Ok_received ep data None) s =
    (None, s\<lparr>recv_buffer := fill (recv_buffer s) (map Some data), receiving := True, mps := mps s + 1,
       replies := replies s @ [(ep, fill (recv_buffer s) (map Some data))]\<rparr>)"
  using assms by (cases s) (simp add: server_handle_receive_def)

lemma client_logs:
  assumes "c_receiving c" "\<not> stopped c" "length (c_buffer c) = max_length" "in_int (received c + 1)" "data = bs @ 0 # rest" "0 \<notin> set bs" "length data \<le> max_length"
  shows "\<exists>c'. client_run [Reply Ok_received ep data end_ns None] c = Inr (None, c') \<and> received c' = received c + 1 \<and> c_receiving c' \<and> length (c_buffer c') = max_length \<and>
    stopped c' = (received c + 1 > 100000) \<and> sent_to c' = sent_to c @ [(ep, to_string end_ns)] \<and>
    lat_ofs c' = lat_ofs c @ (case extract_u64 (map char_of_byte bs) of Some start_ns \<Rightarrow> [line (dec_nat (unat (end_ns - start_ns)))] | None \<Rightarrow> [])"
proof -
  have f: "fill (c_buffer c) (map Some data) = map Some (bs @ 0 # rest) @ drop (length data) (c_buffer c)" using assms(3,5,7) by (simp add: fill_def)
  have "read_string (fill (c_buffer c) (map Some data)) = Inr (map char_of_byte bs)" unfolding f by (rule read_string_filled [OF assms(6)])
  moreover have "length (fill (c_buffer c) (map Some data)) = max_length" using assms(3,7) by (simp add: fill_def)
  ultimately show ?thesis using assms(1,2,4)
    by (cases "extract_u64 (map char_of_byte bs)") (simp_all add: client_handle_receive_def send_timestamp_def c_add_def Let_def)
qed

text \<open>
  A round trip between the two programs: whenever the client's time stamp reaches the server, in whose buffer nothing was written behind its digits, and memory
  that was not written holds zeros, the reply makes the client log exactly the difference of the arrival time and the stamp (modulo 2^64), count one message,
  and send the arrival time as the next stamp.
\<close>

theorem asio_round_trip:
  assumes "receiving s" "length (recv_buffer s) = 128" "drop (length (to_string t)) (recv_buffer s) = replicate (128 - length (to_string t)) None"
    and "c_receiving c" "\<not> stopped c" "length (c_buffer c) = max_length" "in_int (received c + 1)"
  shows "\<exists>s' reply c'. server_event_step (Datagram Ok_received ep (to_string t) None) s = (None, s') \<and> replies s' = replies s @ [(ep, reply)] \<and>
    client_run [Reply Ok_received ep' (on_wire reply) end_ns None] c = Inr (None, c') \<and>
    lat_ofs c' = lat_ofs c @ [line (dec_nat (unat (end_ns - t)))] \<and> received c' = received c + 1 \<and> sent_to c' = sent_to c @ [(ep', to_string end_ns)]"
proof -
  let ?n = "length (to_string t)" and ?r = "fill (recv_buffer s) (map Some (to_string t))"
  have n: "?n \<le> 20" by (rule to_string_text(3))
  have "on_wire ?r = to_string t @ replicate (128 - ?n) 0" using assms(2,3) n by (simp add: on_wire_def fill_def comp_def)
  also have "\<dots> = to_string t @ 0 # replicate (127 - ?n) 0" using n by (simp add: replicate_Suc [symmetric] Suc_diff_le del: replicate_Suc)
  finally have w: "on_wire ?r = to_string t @ 0 # replicate (127 - ?n) 0" .
  have "length (on_wire ?r) \<le> max_length" using n by (simp add: w max_length_def)
  from client_logs [OF assms(4-7) w to_string_text(1) this, of ep' end_ns]
  obtain c' where c': "client_run [Reply Ok_received ep' (on_wire ?r) end_ns None] c = Inr (None, c')" "received c' = received c + 1" "sent_to c' = sent_to c @ [(ep', to_string end_ns)]"
      "lat_ofs c' = lat_ofs c @ [line (dec_nat (unat (end_ns - t)))]"
    unfolding to_string_text(2) extract_dec option.case by blast
  obtain s' where "server_event_step (Datagram Ok_received ep (to_string t) None) s = (None, s')" "replies s' = replies s @ [(ep, ?r)]"
    using server_echo [OF assms(1), of ep "to_string t"] by (simp del: server_event_step.simps)
  then show ?thesis using c' by blast
qed

definition zero_client :: timer_client where
  "zero_client = snd (timer_client_new 4000 5 9 None)"

theorem asio_round_trip_witness:
  "\<exists>s' reply c'. server_event_step (Datagram Ok_received 1 (to_string 5) None) (udp_server_new 0) = (None, s') \<and> replies s' = [(1, reply)] \<and>
    client_run [Reply Ok_received 9 (on_wire reply) 12 None] zero_client = Inr (None, c') \<and> lat_ofs c' = [line ''7'']"
proof -
  have d: "to_string 5 = [53]" "dec_nat 7 = ''7''" by code_simp+
  have "receiving (udp_server_new 0)" "length (recv_buffer (udp_server_new 0)) = 128" "replies (udp_server_new 0) = []"
    "drop (length (to_string 5)) (recv_buffer (udp_server_new 0)) = replicate (128 - length (to_string 5)) None" by (simp_all add: udp_server_new_def d)
  moreover have "c_receiving zero_client" "\<not> stopped zero_client" "length (c_buffer zero_client) = max_length" "in_int (received zero_client + 1)" "lat_ofs zero_client = []"
    by (simp_all add: zero_client_def timer_client_new_def send_timestamp_def in_int_def INT_MIN_def INT_MAX_def)
  ultimately show ?thesis using asio_round_trip [of "udp_server_new 0" 5 zero_client 1 9 12] d(2) by auto
qed

text \<open>
  The server's reply is its whole buffer: behind the datagram it answers, the reply to one client has what the longer datagram of another left there, and bytes of
  memory that were never written.
\<close>

theorem asio_reply_leaks:
  assumes "length d2 \<le> length d1" "length d1 \<le> 128"
  shows "replies (snd (server_main junk [Datagram Ok_received e1 d1 None, Datagram Ok_received e2 d2 None])) =
    [(e1, map Some d1 @ replicate (128 - length d1) None), (e2, map Some (d2 @ drop (length d2) d1) @ replicate (128 - length d1) None)]"
  using assms by (simp add: server_main_def udp_server_new_def server_handle_receive_def fill_def drop_map)

theorem asio_reply_leaks_witness:
  "replies (snd (server_main 0 [Datagram Ok_received 1 [49, 50, 51] None, Datagram Ok_received 2 [55] None])) =
    [(1, map Some [49, 50, 51] @ replicate 125 None), (2, map Some [55, 50, 51] @ replicate 125 None)]"
  using asio_reply_leaks [of "[55]" "[49, 50, 51]" 0 1 2] by simp

text \<open>The numbers the server prints: the messages of each second, on top of what \<^verbatim>\<open>mps\<close> held at the start.\<close>

fun tallies :: "server_event list \<Rightarrow> u32 \<Rightarrow> u32 list" where
  "tallies [] n = []"
| "tallies (Datagram error ep data send_result # es) n = tallies es (n + 1)"
| "tallies (Timer # es) n = n # tallies es 0"

fun undisturbed :: "server_event \<Rightarrow> bool" where
  "undisturbed (Datagram error ep data send_result) \<longleftrightarrow> error \<noteq> Other_error \<and> send_result = None"
| "undisturbed Timer \<longleftrightarrow> True"

lemma server_run_tallies:
  assumes "list_all undisturbed es" "receiving s"
  shows "fst (server_run es s) = None \<and> mps_printed (snd (server_run es s)) = mps_printed s @ map (\<lambda>n. line (dec_nat (unat n))) (tallies es (mps s))"
  using assms
proof (induction es arbitrary: s)
  case (Cons e es)
  show ?case
  proof (cases e)
    case (Datagram error ep data send_result)
    then have "error = Ok_received \<or> error = Message_size" "send_result = None" using Cons.prems(1) by (cases error; simp)+
    then show ?thesis using Cons Datagram by (simp add: server_handle_receive_def)
  next
    case Timer
    then show ?thesis using Cons by (simp add: measure_throughput_def)
  qed
qed simp

text \<open>
  As long as no receive fails otherwise than by a long datagram and no send throws, the server prints once a second the number of datagrams of that second, with one exception: the first
  number contains what the uninitialised counter held.
\<close>

theorem asio_throughput:
  assumes "list_all undisturbed es"
  shows "mps_printed (snd (server_main junk es)) = map (\<lambda>n. line (dec_nat (unat n))) (tallies es junk)"
  using server_run_tallies [OF assms, of "udp_server_new junk"] by (simp add: server_main_def udp_server_new_def)

theorem asio_throughput_witness:
  "mps_printed (snd (server_main 1000 [Datagram Ok_received 1 [49] None, Timer, Datagram Message_size 1 [50] None, Timer])) = [line ''1001'', line ''1'']"
proof -
  have "dec_nat 1001 = ''1001''" "dec_nat 1 = ''1''" by code_simp+
  then show ?thesis using asio_throughput [of "[Datagram Ok_received 1 [49] None, Timer, Datagram Message_size 1 [50] None, Timer]" 1000] by simp
qed

section \<open>The end of the measurement\<close>

text \<open>A reply as the server's are: with a terminating byte, and short enough.\<close>

fun good_reply :: "client_event \<Rightarrow> bool" where
  "good_reply (Reply error ep data end_ns send_result) \<longleftrightarrow> error = Ok_received \<and> send_result = None \<and> 0 \<in> set data \<and> length data \<le> max_length"

lemma client_run_Cons:
  "client_run (e # es) c = bindE (client_run [e] c) (\<lambda>(ex, c'). if ex = None \<and> \<not> stopped c \<and> c_receiving c then client_run es c' else Inr (ex, c'))"
  by (cases e) (auto simp: bindE_assoc bindE_def split: sum.split)

lemma client_run_stops:
  assumes "list_all good_reply es" "c_receiving c" "length (c_buffer c) = max_length" "0 \<le> received c" "stopped c \<longleftrightarrow> received c > 100000" "received c \<le> 100001"
  shows "\<exists>c'. client_run es c = Inr (None, c') \<and> received c' = min (received c + int (length es)) 100001 \<and> (stopped c' \<longleftrightarrow> received c' = 100001)"
  using assms
proof (induction es arbitrary: c)
  case (Cons e es)
  show ?case
  proof (cases "stopped c")
    case True
    then show ?thesis using Cons.prems by (cases e) auto
  next
    case False
    obtain ep data end_ns where e: "e = Reply Ok_received ep data end_ns None" "0 \<in> set data" "length data \<le> max_length" using Cons.prems(1) by (cases e) auto
    obtain bs rest where data: "data = bs @ 0 # rest" "0 \<notin> set bs" using e(2) split_list_first by metis
    have "in_int (received c + 1)" using Cons.prems(4,6) by (simp add: in_int_def INT_MIN_def INT_MAX_def)
    from client_logs [OF Cons.prems(2) False Cons.prems(3) this data e(3), of ep end_ns]
    obtain c1 where c1: "client_run [e] c = Inr (None, c1)" "received c1 = received c + 1" "c_receiving c1" "length (c_buffer c1) = max_length" "stopped c1 = (received c + 1 > 100000)"
      unfolding e(1) by blast
    have "received c1 \<le> 100001" using c1(2) Cons.prems(5) False by simp
    then obtain c' where "client_run es c1 = Inr (None, c')" "received c' = min (received c1 + int (length es)) 100001" "stopped c' \<longleftrightarrow> received c' = 100001"
      using Cons.IH [of c1] c1 Cons.prems(1,4) by auto
    then show ?thesis using client_run_Cons [of e es c] c1(1,2) False Cons.prems(2) by (auto simp del: client_run.simps)
  qed
qed auto

text \<open>
  The client ends: with every reply in order it counts up to 100001 messages, one more than the constant it compares with, and then stops; it does not stop before.
\<close>

theorem asio_client_stops:
  assumes "list_all good_reply es"
  shows "\<exists>c. client_main [prog, host, port'] port (Inr endpoint) now None es = Inr ([], 0, Some c) \<and>
    received c = min (int (length es)) 100001 \<and> (stopped c \<longleftrightarrow> 100001 \<le> length es)"
proof -
  obtain c0 where new: "timer_client_new port now endpoint None = (None, c0)" "c_receiving c0" "length (c_buffer c0) = max_length" "received c0 = 0" "\<not> stopped c0"
    by (simp add: timer_client_new_def send_timestamp_def)
  obtain c where c: "client_run es c0 = Inr (None, c)" "received c = min (int (length es)) 100001" "stopped c \<longleftrightarrow> received c = 100001"
    using client_run_stops [OF assms new(2,3)] new(4,5) by auto
  have "client_main [prog, host, port'] port (Inr endpoint) now None es = Inr ([], 0, Some c)" using new(1) c(1) by (simp add: client_main_def)
  moreover have "min (int (length es)) 100001 = 100001 \<longleftrightarrow> 100001 \<le> length es" by linarith
  ultimately show ?thesis using c(2,3) by auto
qed

theorem asio_client_stops_witness:
  "\<exists>c. client_main [''client'', ''localhost'', ''12345''] 4000 (Inr 9) 5 None (replicate 100001 (Reply Ok_received 9 [49, 0] 7 None)) = Inr ([], 0, Some c) \<and> received c = 100001 \<and> stopped c"
proof -
  have "list_all good_reply (replicate 100001 (Reply Ok_received 9 [49, 0] 7 None))" by (simp add: list_all_iff max_length_def)
  from asio_client_stops [OF this, of "''client''" "''localhost''" "''12345''" 4000 9 5] show ?thesis by auto
qed

text \<open>
  The client reads its buffer as a string: a first reply without a zero byte makes it read memory nothing was written to.
\<close>

lemma read_string_unterminated: "0 \<notin> set bs \<Longrightarrow> read_string (map Some bs @ None # buf) = Inl UninitRead"
  by (induction bs) auto

theorem asio_client_overreads:
  assumes "0 \<notin> set data" "length data < max_length"
  shows "client_main [prog, host, port'] port (Inr endpoint) now None [Reply Ok_received ep data end_ns send_result] = Inl UninitRead"
proof -
  have "replicate (max_length - length data) None = None # replicate (max_length - length data - 1) None" using assms(2) by (cases "max_length - length data") auto
  then have "fill (replicate max_length None) (map Some data) = map Some data @ None # replicate (max_length - length data - 1) None" using assms(2) by (simp add: fill_def)
  then show ?thesis using read_string_unterminated [OF assms(1)]
    by (simp add: client_main_def timer_client_new_def send_timestamp_def client_handle_receive_def c_add_def in_int_def INT_MIN_def INT_MAX_def)
qed

theorem asio_client_overreads_witness:
  "client_main [''client'', ''localhost'', ''12345''] 4000 (Inr 9) 5 None [Reply Ok_received 9 [49, 50] 7 None] = Inl UninitRead"
  by (rule asio_client_overreads) (simp_all add: max_length_def)

end
