(* ===== verification/Receiver_Report.thy ===== *)
theory Receiver_Report
  imports Leveldb_Receiver
begin

text \<open>
  The report loop of the two UDP receivers (\<^verbatim>\<open>how-to-receive-a-million-packets/udpreceiver1.c\<close>, \<^verbatim>\<open>fast_leveldb/src/udpreceiver.c\<close>): the time macros of
  \<^verbatim>\<open>common.h\<close>, the wait for a second with \<^verbatim>\<open>select\<close>, and the packets and bytes counted since the last report with their conversion to \<^verbatim>\<open>double\<close>. What \<^verbatim>\<open>select\<close> returns and leaves in its
  timeout comes from the environment; Linux leaves the time that is left.
\<close>

section \<open>Time\<close>

record timeval =
  tv_s :: int
  tv_us :: int

record timespec_ns =
  ts_s :: int
  ts_ns :: int

definition TIMESPEC_NSEC :: "timespec_ns \<Rightarrow> u64" where
  "TIMESPEC_NSEC ts = word_of_int (ts_s ts) * 1000000000 + word_of_int (ts_ns ts)"

definition TIMEVAL_NSEC :: "timeval \<Rightarrow> u64" where
  "TIMEVAL_NSEC tv = word_of_int (tv_s tv) * 1000000000 + word_of_int (tv_us tv) * 1000"

definition NSEC_TIMESPEC :: "u64 \<Rightarrow> timespec_ns" where
  "NSEC_TIMESPEC ns = \<lparr>ts_s = uint (ns div 1000000000), ts_ns = uint (ns mod 1000000000)\<rparr>"

definition NSEC_TIMEVAL :: "u64 \<Rightarrow> timeval" where
  "NSEC_TIMEVAL ns = \<lparr>tv_s = uint (ns div 1000000000), tv_us = uint ((ns mod 1000000000) div 1000)\<rparr>"

definition MSEC_NSEC :: "u64 \<Rightarrow> u64" where
  "MSEC_NSEC ms = ms * 1000000"

section \<open>The loop\<close>

text \<open>A call of \<^verbatim>\<open>select\<close> without descriptors: from the timeout, what it returns and leaves of the timeout.\<close>

type_synonym select_call = "timeval \<Rightarrow> int \<times> timeval"

text \<open>The inner loop over the calls of \<^verbatim>\<open>select\<close>: the calls that are left when the time is over, \<open>None\<close> while it still waits.\<close>

fun wait_loop :: "select_call list \<Rightarrow> timeval \<Rightarrow> select_call list option" where
  "wait_loop [] timeout = None"
| "wait_loop (select # env) timeout =
     (let (r, timeout) = select timeout in
      if r \<noteq> 0 then wait_loop env timeout else if TIMEVAL_NSEC timeout = 0 then Some env else wait_loop env timeout)"

text \<open>The outer loop, over the calls of \<^verbatim>\<open>select\<close> and the threads' states at the end of each wait: what each report has.\<close>

fun report_loop :: "select_call list \<Rightarrow> state list list \<Rightarrow> u64 \<times> u64 \<Rightarrow> (nat \<times> nat) list" where
  "report_loop env [] last_totals = []"
| "report_loop env (ss # rounds) last_totals =
     (case wait_loop env (NSEC_TIMEVAL (MSEC_NSEC 1000)) of None \<Rightarrow> []
      | Some env \<Rightarrow> let (totals, delta) = report ss last_totals in delta # report_loop env rounds totals)"

section \<open>Properties\<close>

text \<open>
  The time macros: nanoseconds survive the conversion to \<^verbatim>\<open>struct timespec\<close> and back, and lose only the fraction of a microsecond by \<^verbatim>\<open>struct timeval\<close>, for all
  64-bit values; the timeout of the loop is one second.
\<close>

theorem time_macros_round_trip:
  "TIMESPEC_NSEC (NSEC_TIMESPEC ns) = ns \<and> TIMEVAL_NSEC (NSEC_TIMEVAL ns) = ns - ns mod 1000 \<and> NSEC_TIMEVAL (MSEC_NSEC 1000) = \<lparr>tv_s = 1, tv_us = 0\<rparr>"
proof (intro conjI)
  show "TIMESPEC_NSEC (NSEC_TIMESPEC ns) = ns"
    by (simp add: TIMESPEC_NSEC_def NSEC_TIMESPEC_def word_mod_div_equality)
  have split: "n div b * b + (n mod b) div c * c = n - n mod c" if "c dvd b" for n b c :: nat
  proof -
    have "n div b * b = n - n mod b" "(n mod b) div c * c = n mod b - n mod c"
      using that by (simp_all add: mod_mod_cancel flip: minus_mod_eq_div_mult)
    moreover have "n mod b \<le> n" "(n mod b) mod c \<le> n mod b" by simp_all
    moreover have "(n mod b) mod c = n mod c" by (rule mod_mod_cancel [OF that])
    ultimately show ?thesis by linarith
  qed
  have "unat ns div 1000000000 * 1000000000 + (unat ns mod 1000000000) div 1000 * 1000 = unat ns - unat ns mod 1000" by (rule split) simp
  moreover have "of_nat (unat ns div 1000000000 * 1000000000 + (unat ns mod 1000000000) div 1000 * 1000) = (ns div 1000000000) * 1000000000 + ((ns mod 1000000000) div 1000) * 1000"
  proof -
    have e: "unat (ns div 1000000000) = unat ns div 1000000000" "unat ((ns mod 1000000000) div 1000) = (unat ns mod 1000000000) div 1000"
      by (simp_all add: unat_div unat_mod)
    show ?thesis unfolding e [symmetric] by simp
  qed
  moreover have "of_nat (unat ns - unat ns mod 1000) = ns - ns mod 1000"
    by (simp add: of_nat_diff word_arith_nat_mod)
  ultimately show "TIMEVAL_NSEC (NSEC_TIMEVAL ns) = ns - ns mod 1000"
    by (simp add: TIMEVAL_NSEC_def NSEC_TIMEVAL_def)
  show "NSEC_TIMEVAL (MSEC_NSEC 1000) = \<lparr>tv_s = 1, tv_us = 0\<rparr>" by (simp add: NSEC_TIMEVAL_def MSEC_NSEC_def)
qed

lemma excess_bounds: "0 < excess n \<Longrightarrow> 2 ^ (52 + excess n) \<le> n"
proof (induction n rule: excess.induct)
  case (1 n)
  then have big: "\<not> n < 2 ^ 53" and e: "excess n = Suc (excess (n div 2))" by (auto simp: excess.simps [of n] split: if_splits)
  show ?case
  proof (cases "excess (n div 2) = 0")
    case True
    then show ?thesis using big e by simp
  next
    case False
    then have "2 ^ (52 + excess (n div 2)) \<le> n div 2" using "1.IH" [OF big] by simp
    then have "2 * 2 ^ (52 + excess (n div 2)) \<le> n" by linarith
    then have "2 ^ Suc (52 + excess (n div 2)) \<le> n" by (simp only: power_Suc)
    then show ?thesis using e by (simp only: add_Suc_right)
  qed
qed

lemma to_double_error:
  "unat w < 2 ^ 53 \<Longrightarrow> to_double w = unat w" "\<bar>int (to_double w) - int (unat w)\<bar> * 2 ^ 53 \<le> int (unat w)"
proof -
  show exact: "to_double w = unat w" if "unat w < 2 ^ 53" using that by (simp add: to_double_def excess.simps [of "unat w"])
  let ?n = "unat w" and ?k = "excess (unat w)"
  show "\<bar>int (to_double w) - int ?n\<bar> * 2 ^ 53 \<le> int ?n"
  proof (cases "?k = 0")
    case True
    then have "to_double w = ?n" by (simp add: to_double_def)
    then show ?thesis by simp
  next
    case False
    define P where "P = (2 :: nat) ^ ?k"
    define q where "q = ?n div P"
    define r where "r = ?n mod P"
    have "?n = q * P + r" unfolding q_def r_def by (simp only: div_mult_mod_eq)
    moreover have "r < P" by (simp add: r_def P_def)
    ultimately have n: "?n = q * P + r" "r < P" .
    have d: "to_double w = (if 2 * r > P \<or> 2 * r = P \<and> odd q then q * P + P else q * P)"
      by (simp add: to_double_def q_def r_def P_def Let_def algebra_simps)
    have "2 * \<bar>int (to_double w) - int ?n\<bar> \<le> int P"
      unfolding d n(1) using n(2) by (auto simp: abs_if)
    then have "\<bar>int (to_double w) - int ?n\<bar> * 2 ^ 53 \<le> int P * 2 ^ 52" by simp
    also have "\<dots> = int (2 ^ ?k) * 2 ^ 52" by (simp add: P_def)
    also have "\<dots> = int (2 ^ (52 + ?k))" by (simp add: power_add)
    also have "\<dots> \<le> int ?n" using excess_bounds [of ?n] False by (simp only: of_nat_le_iff neq0_conv)
    finally show ?thesis .
  qed
qed

definition packets :: "state list \<Rightarrow> u64" where "packets ss = (\<Sum>s \<leftarrow> ss. pps s)"
definition octets :: "state list \<Rightarrow> u64" where "octets ss = (\<Sum>s \<leftarrow> ss. bps s)"

text \<open>
  The numbers of a report: the totals are the sums over all threads; the difference to the last report is exact below 2^53, and above that wrong by at most one part in 2^53.
\<close>

theorem report_rounding:
  "\<exists>dp db. report ss (p, b) = ((packets ss, octets ss), (dp, db)) \<and>
     (unat (packets ss - p) < 2 ^ 53 \<longrightarrow> dp = unat (packets ss - p)) \<and> \<bar>int dp - int (unat (packets ss - p))\<bar> * 2 ^ 53 \<le> int (unat (packets ss - p)) \<and>
     (unat (octets ss - b) < 2 ^ 53 \<longrightarrow> db = unat (octets ss - b)) \<and> \<bar>int db - int (unat (octets ss - b))\<bar> * 2 ^ 53 \<le> int (unat (octets ss - b))"
proof -
  have "foldl (\<lambda>a s. a + f s) a ss = a + (\<Sum>s \<leftarrow> ss. f s)" for a :: u64 and f :: "state \<Rightarrow> u64"
    by (induction ss arbitrary: a) (simp_all add: add.assoc)
  then have "report ss (p, b) = ((packets ss, octets ss), (to_double (packets ss - p), to_double (octets ss - b)))"
    by (simp add: report_def packets_def octets_def Let_def)
  then show ?thesis using to_double_error by auto
qed

text \<open>Linux leaves in the timeout what remains of it, never more than before; when \<^verbatim>\<open>select\<close> returns 0 nothing remains. A second that is waited for, however often it is
  interrupted, is then over at the first return of 0.\<close>

definition select_law :: "select_call \<Rightarrow> bool" where
  "select_law select \<longleftrightarrow> (\<forall>t. fst (select t) = 0 \<longrightarrow> snd (select t) = \<lparr>tv_s = 0, tv_us = 0\<rparr>)"

lemma wait_ends:
  assumes "select_law call" "\<And>t. fst (call t) = 0" "\<forall>c \<in> set interrupted. \<forall>t. fst (c t) \<noteq> 0"
  shows "wait_loop (interrupted @ call # env) timeout = Some env"
  using assms(3)
proof (induction interrupted arbitrary: timeout)
  case Nil
  then show ?case using assms(1,2) by (simp add: select_law_def TIMEVAL_NSEC_def case_prod_beta)
next
  case (Cons c cs)
  then show ?case by (simp add: case_prod_beta)
qed

end
