(* ===== verification/Cpp_Sorts.thy ===== *)
theory Cpp_Sorts
  imports C_Text "HOL-Library.Multiset"
begin

text \<open>
  \<^verbatim>\<open>c++/src/sorting.cpp\<close>: the sorting routines on \<open>int\<close> arrays and \<^verbatim>\<open>main\<close>. The three quadratic
  sorts meet the contract of the locale \<open>array_sort\<close>. The merge sort writes its run to the
  positions \<open>low\<close> to \<open>high\<close> of a buffer that has \<open>high - low + 1\<close> elements, and works for up to three
  elements only; the quick sort calls itself on the same segment for ever.
\<close>

section \<open>The program\<close>

definition swap_at :: "int list \<Rightarrow> int \<Rightarrow> int \<Rightarrow> int list cres" where
  "swap_at a i j =
     bindE (rd a i) (\<lambda>c. bindE (rd a j) (\<lambda>d. bindE (wr a i d) (\<lambda>a. wr a j c)))"

definition bubble_step :: "nat \<Rightarrow> nat \<Rightarrow> int list \<Rightarrow> int list cres" where
  "bubble_step i j a =
     bindE (rd a (int j)) (\<lambda>x. bindE (rd a (int i)) (\<lambda>y.
     if x < y then swap_at a (int i) (int j) else Inr a))"

definition bubble_sort :: "int list \<Rightarrow> int \<Rightarrow> int list cres" where
  "bubble_sort a n =
     bindE (c_sub n 1) (\<lambda>n1.
     foldE (\<lambda>i. foldE (bubble_step i) [Suc i..<nat n]) [0..<nat n1] a)"

text \<open>The loop that moves the larger elements up; it returns the array and the position of the hole.\<close>

fun move_hole :: "int list \<Rightarrow> int \<Rightarrow> nat \<Rightarrow> (int list \<times> nat) cres" where
  "move_hole a value_to_insert 0 = Inr (a, 0)"
| "move_hole a value_to_insert (Suc h) =
     bindE (rd a (int h)) (\<lambda>x.
     if x > value_to_insert then bindE (wr a (int (Suc h)) x) (\<lambda>a. move_hole a value_to_insert h)
     else Inr (a, Suc h))"

definition insertion_step :: "nat \<Rightarrow> int list \<Rightarrow> int list cres" where
  "insertion_step i a =
     bindE (rd a (int i)) (\<lambda>value_to_insert.
     bindE (move_hole a value_to_insert i) (\<lambda>(a, hole_postion).
     wr a (int hole_postion) value_to_insert))"

definition insertion_sort :: "int list \<Rightarrow> int \<Rightarrow> int list cres" where
  "insertion_sort a n = foldE insertion_step [1..<nat n] a"

definition min_step :: "int list \<Rightarrow> nat \<Rightarrow> nat \<Rightarrow> nat cres" where
  "min_step a j min_index =
     bindE (rd a (int j)) (\<lambda>x. bindE (rd a (int min_index)) (\<lambda>y.
     Inr (if x < y then j else min_index)))"

definition selection_step :: "nat \<Rightarrow> nat \<Rightarrow> int list \<Rightarrow> int list cres" where
  "selection_step n i a =
     bindE (foldE (min_step a) [Suc i..<n] i) (\<lambda>min_index.
     if min_index \<noteq> i then swap_at a (int min_index) (int i) else Inr a)"

definition selection_sort :: "int list \<Rightarrow> int \<Rightarrow> int list cres" where
  "selection_sort a n = foldE (selection_step (nat n)) [0..<nat n] a"

text \<open>The merge into the buffer \<open>b\<close>, whose elements are not initialised.\<close>

function merge_loop :: "int list \<Rightarrow> int option list \<Rightarrow> int \<Rightarrow> int \<Rightarrow> int \<Rightarrow> int \<Rightarrow> int \<Rightarrow> (int option list \<times> int \<times> int \<times> int) cres" where
  "merge_loop a b mid high l1 l2 i =
     (if l1 \<le> mid \<and> l2 \<le> high then
        bindE (rd a l1) (\<lambda>x. bindE (rd a l2) (\<lambda>y.
        if x < y then bindE (wr b i (Some x)) (\<lambda>b. merge_loop a b mid high (l1 + 1) l2 (i + 1))
        else bindE (wr b i (Some y)) (\<lambda>b. merge_loop a b mid high l1 (l2 + 1) (i + 1))))
      else Inr (b, l1, l2, i))"
  by pat_completeness auto
termination
  by (relation "measure (\<lambda>(a, b, mid, high, l1, l2, i). nat (mid + 1 - l1) + nat (high + 1 - l2))") auto

function copy_run :: "int list \<Rightarrow> int option list \<Rightarrow> int \<Rightarrow> int \<Rightarrow> int \<Rightarrow> (int option list \<times> int) cres" where
  "copy_run a b to l i =
     (if l \<le> to then bindE (rd a l) (\<lambda>x. bindE (wr b i (Some x)) (\<lambda>b. copy_run a b to (l + 1) (i + 1)))
      else Inr (b, i))"
  by pat_completeness auto
termination
  by (relation "measure (\<lambda>(a, b, to, l, i). nat (to + 1 - l))") auto

declare merge_loop.simps [simp del] copy_run.simps [simp del]

definition merge_into :: "int list \<Rightarrow> int option list \<Rightarrow> int \<Rightarrow> int \<Rightarrow> int \<Rightarrow> int option list cres" where
  "merge_into a b low mid high =
     bindE (merge_loop a b mid high low (mid + 1) low) (\<lambda>(b, l1, l2, i).
     bindE (copy_run a b mid l1 i) (\<lambda>(b, i).
     bindE (copy_run a b high l2 i) (\<lambda>(b, i). Inr b)))"

definition copy_back :: "int option list \<Rightarrow> int \<Rightarrow> int \<Rightarrow> int list \<Rightarrow> int list cres" where
  "copy_back b low high a =
     foldE (\<lambda>k a. bindE (rd b k) (\<lambda>v. case v of None \<Rightarrow> Inl UninitRead | Some x \<Rightarrow> wr a k x)) [low..high] a"

text \<open>Recursion that does not end is \<open>NoReturn\<close>; an array of a size that is not positive has no
  defined behaviour.\<close>

fun merge_sort :: "nat \<Rightarrow> int list \<Rightarrow> int \<Rightarrow> int \<Rightarrow> int list cres" where
  "merge_sort 0 a low high = Inl NoReturn"
| "merge_sort (Suc fuel) a low high =
     (if low = high then Inr a
      else if high - low + 1 \<le> 0 then Inl OutOfBounds
      else
        let b = replicate (nat (high - low + 1)) None in
        bindE (c_add low high) (\<lambda>s.
        let mid = s sdiv 2 in
        bindE (merge_sort fuel a low mid) (\<lambda>a.
        bindE (merge_sort fuel a (mid + 1) high) (\<lambda>a.
        bindE (merge_into a b low mid high) (\<lambda>b.
        copy_back b low high a)))))"

text \<open>The scanning loops, which leave their index one further than the element that stopped them.\<close>

function scan_up :: "int list \<Rightarrow> int \<Rightarrow> int \<Rightarrow> int cres" where
  "scan_up a pivot lp =
     (if 0 \<le> lp \<and> lp < int (length a) then if a ! nat lp < pivot then scan_up a pivot (lp + 1) else Inr (lp + 1)
      else Inl OutOfBounds)"
  by pat_completeness auto
termination
  by (relation "measure (\<lambda>(a, pivot, lp). nat (int (length a) - lp))") auto

function scan_down :: "int list \<Rightarrow> int \<Rightarrow> int \<Rightarrow> int cres" where
  "scan_down a pivot rp =
     (if 0 \<le> rp \<and> rp < int (length a) then if a ! nat rp > pivot then scan_down a pivot (rp - 1) else Inr (rp - 1)
      else Inl OutOfBounds)"
  by pat_completeness auto
termination
  by (relation "measure (\<lambda>(a, pivot, rp). nat (rp + 1))") auto

declare scan_up.simps [simp del] scan_down.simps [simp del]

lemma scan_up_bound: "scan_up a pivot lp = Inr lp' \<Longrightarrow> lp < lp' \<and> lp' \<le> int (length a)"
  by (induction a pivot lp rule: scan_up.induct) (subst (asm) (2) scan_up.simps, auto split: if_splits)

function partition_loop :: "int list \<Rightarrow> int \<Rightarrow> int \<Rightarrow> int \<Rightarrow> (int list \<times> int) cres" where
  "partition_loop a pivot lp rp =
     bindE (scan_up a pivot lp) (\<lambda>lp. bindE (scan_down a pivot rp) (\<lambda>rp.
     if lp \<ge> rp then Inr (a, lp)
     else bindE (swap_at a lp rp) (\<lambda>a. partition_loop a pivot lp rp)))"
  by pat_completeness auto
termination
proof (relation "measure (\<lambda>(a, pivot, lp, rp). nat (int (length a) - lp))")
  fix a pivot lp rp lp' rp' a'
  assume "scan_up a pivot lp = Inr lp'" "swap_at a lp' rp' = Inr a'"
  then have "lp < lp'" "lp' \<le> int (length a)" "length a' = length a" 
    by (auto dest: scan_up_bound simp: swap_at_def bindE_eq_Inr wr_def split: if_splits)
  then show "((a', pivot, lp', rp'), (a, pivot, lp, rp)) \<in> measure (\<lambda>(a, pivot, lp, rp). nat (int (length a) - lp))"
    by auto
qed simp

declare partition_loop.simps [simp del]

text \<open>The last statement of the function exchanges the two local variables, so it returns \<open>right\<close>.\<close>

definition partitionFunc :: "int list \<Rightarrow> int \<Rightarrow> int \<Rightarrow> int \<Rightarrow> (int list \<times> int) cres" where
  "partitionFunc a left right pivot =
     bindE (partition_loop a pivot left (right - 1)) (\<lambda>(a, lp).
     let (lp, right) = (right, lp) in Inr (a, lp))"

fun quick_sort :: "nat \<Rightarrow> int list \<Rightarrow> int \<Rightarrow> int \<Rightarrow> int list cres" where
  "quick_sort 0 a left right = Inl NoReturn"
| "quick_sort (Suc fuel) a left right =
     (if left \<ge> right then Inr a
      else
        bindE (rd a right) (\<lambda>pivot.
        bindE (partitionFunc a left right pivot) (\<lambda>(a, part).
        bindE (quick_sort fuel a left part) (\<lambda>a.
        quick_sort fuel a (part + 1) right))))"

definition show_ints :: "int list \<Rightarrow> string" where
  "show_ints a = line (concat (map (\<lambda>x. dec_int x @ '' '') a))"

definition sorting_main :: "nat \<Rightarrow> string cres" where
  "sorting_main fuel =
     (let a = [14, 33, 27, 10, 35, 30, 19, 42, 44] in
      bindE (merge_sort fuel a 0 (int (length a) - 1)) (\<lambda>a'. Inr (show_ints a @ show_ints a')))"

section \<open>The contract of a sorting routine\<close>

text \<open>The first \<open>n\<close> elements are sorted in place, the others stay where they are.\<close>

locale array_sort =
  fixes srt :: "int list \<Rightarrow> int \<Rightarrow> int list cres"
  assumes sorts: "n \<le> length a \<Longrightarrow> int n \<le> INT_MAX \<Longrightarrow> srt a (int n) = Inr (sort (take n a) @ drop n a)"
begin

lemma sorts_all: "int (length a) \<le> INT_MAX \<Longrightarrow> srt a (int (length a)) = Inr (sort a)"
  using sorts [of "length a" a] by simp

lemma sorts_again:
  assumes "int (length a) \<le> INT_MAX"
  shows "bindE (srt a (int (length a))) (\<lambda>b. srt b (int (length a))) = srt a (int (length a))"
  using sorts_all [OF assms] sorts_all [of "sort a"] assms by (simp add: sort_key_id_if_sorted)

lemma permutation_sorts_alike:
  assumes "mset a = mset b" "int (length a) \<le> INT_MAX"
  shows "srt a (int (length a)) = srt b (int (length a))"
proof -
  have "length b = length a" using assms(1) by (metis size_mset)
  moreover have "sort a = sort b" using assms(1) by (metis mset_sort properties_for_sort sorted_sort)
  ultimately show ?thesis using sorts_all [of a] sorts_all [of b] assms(2) by simp
qed

end

section \<open>Sorting by exchanges\<close>

lemma swap_at_in:
  "i < length a \<Longrightarrow> j < length a \<Longrightarrow> swap_at a (int i) (int j) = Inr (a[i := a ! j, j := a ! i])"
  by (simp add: swap_at_def rd_nat wr_nat)

text \<open>What a pass may do to the array: permute the first \<open>n\<close> elements, leave the first \<open>i\<close> and
  those from \<open>n\<close> on alone.\<close>

definition rearranged :: "nat \<Rightarrow> nat \<Rightarrow> int list \<Rightarrow> int list \<Rightarrow> bool" where
  "rearranged i n a b \<longleftrightarrow> length b = length a \<and> mset (take n b) = mset (take n a) \<and> drop n b = drop n a \<and> take i b = take i a"

lemma rearranged_refl [simp]: "rearranged i n a a"
  by (simp add: rearranged_def)

lemma rearranged_trans: "rearranged i n a b \<Longrightarrow> rearranged i n b c \<Longrightarrow> rearranged i n a c"
  by (simp add: rearranged_def)

lemma rearranged_less: "rearranged i n a b \<Longrightarrow> i' \<le> i \<Longrightarrow> rearranged i' n a b"
  unfolding rearranged_def by (metis min.absorb2 min.commute take_take)

lemma rearranged_swap:
  assumes "i \<le> j" "i \<le> k" "j < n" "k < n" "n \<le> length a"
  shows "rearranged i n a (a[j := a ! k, k := a ! j])"
proof -
  have "mset ((take n a)[j := take n a ! k, k := take n a ! j]) = mset (take n a)"
    using assms mset_swap [of k "take n a" j] by (simp add: list_update_swap)
  then show ?thesis using assms by (simp add: rearranged_def take_update_swap drop_update_cancel list_update_beyond)
qed

definition front_sorted :: "nat \<Rightarrow> int list \<Rightarrow> nat \<Rightarrow> int list \<Rightarrow> bool" where
  "front_sorted n a i b \<longleftrightarrow> rearranged 0 n a b \<and> sorted (take i b) \<and> (\<forall>x \<in> set (take i b). \<forall>k. i \<le> k \<and> k < n \<longrightarrow> x \<le> b ! k)"

lemma front_sorted_start [simp]: "front_sorted n a 0 a"
  by (simp add: front_sorted_def)

lemma rearranged_rest:
  assumes "rearranged i n b c" "i \<le> k" "k < n" "n \<le> length b"
  shows "\<exists>k'. i \<le> k' \<and> k' < n \<and> c ! k = b ! k'"
proof -
  have l: "length c = length b" and m: "mset (take n c) = mset (take n b)" and t: "take i c = take i b"
    using assms(1) by (simp_all add: rearranged_def)
  have split: "take n z = take i z @ drop i (take n z)" if "length z = length b" for z :: "int list"
    using assms that by (metis append_take_drop_id less_or_eq_imp_le min.absorb1 order_trans take_take)
  have "mset (drop i (take n c)) = mset (drop i (take n b))"
    using m split [OF l] split [OF refl] t by (metis add_left_imp_eq mset_append)
  then have "set (drop i (take n c)) = set (drop i (take n b))" by (rule mset_eq_setD)
  moreover have "c ! k \<in> set (drop i (take n c))"
    using assms l by (auto simp: in_set_conv_nth intro!: exI [of _ "k - i"])
  ultimately have "c ! k \<in> set (drop i (take n b))" by simp
  then obtain d where "d < n - i" "c ! k = b ! (i + d)" using assms by (auto simp: in_set_conv_nth)
  then show ?thesis by (intro exI [of _ "i + d"]) auto
qed

lemma front_sorted_step:
  assumes "front_sorted n a i b" "rearranged i n b c" "i < n" "n \<le> length a"
    and least: "\<And>k. i \<le> k \<Longrightarrow> k < n \<Longrightarrow> c ! i \<le> c ! k"
  shows "front_sorted n a (Suc i) c"
proof -
  note b = assms(1) [unfolded front_sorted_def]
  have lb: "length b = length a" using b by (simp add: rearranged_def)
  have lc: "length c = length a" and t: "take i c = take i b" using assms(2) lb by (simp_all add: rearranged_def)
  have rest: "x \<le> c ! k" if "x \<in> set (take i b)" "i \<le> k" "k < n" for x k
    using rearranged_rest [OF assms(2) that(2,3)] b that(1) lb assms(4) by metis
  have s: "take (Suc i) c = take i b @ [c ! i]" using t lc assms(3,4) by (simp add: take_Suc_conv_app_nth)
  have "sorted (take (Suc i) c)" unfolding s using b rest assms(3) by (simp add: sorted_append)
  moreover have "x \<le> c ! k" if "x \<in> set (take (Suc i) c)" "Suc i \<le> k" "k < n" for x k
    using that rest [of x k] least [of k] unfolding s by auto
  moreover have "rearranged 0 n a c" using b rearranged_trans rearranged_less [OF assms(2)] by blast
  ultimately show ?thesis by (auto simp: front_sorted_def)
qed

lemma front_sorted_end:
  assumes "front_sorted n a i b" "n \<le> Suc i" "i \<le> n" "n \<le> length a"
  shows "b = sort (take n a) @ drop n a"
proof -
  note b = assms(1) [unfolded front_sorted_def rearranged_def]
  have "sorted (take n b)"
  proof (cases "i = n")
    case False
    then have n: "n = Suc i" using assms(2,3) by simp
    then have "take n b = take i b @ [b ! i]" using b assms(4) by (simp add: take_Suc_conv_app_nth)
    then show ?thesis using b n by (simp add: sorted_append)
  qed (use b in simp)
  then have "take n b = sort (take n a)" using b by (metis properties_for_sort)
  then show ?thesis using b by (metis append_take_drop_id)
qed

subsection \<open>The exchange sort\<close>

lemma bubble_pass:
  assumes "i < n" "n \<le> length a"
  shows "\<exists>b. foldE (bubble_step i) [Suc i..<n] a = Inr b \<and> rearranged i n a b \<and> (\<forall>k. i \<le> k \<and> k < n \<longrightarrow> b ! i \<le> b ! k)"
proof -
  let ?P = "\<lambda>j b. rearranged i n a b \<and> (\<forall>k. i \<le> k \<and> k < j \<longrightarrow> b ! i \<le> b ! k)"
  have step: "\<exists>c. bubble_step i j b = Inr c \<and> ?P (Suc j) c" if j: "Suc i \<le> j" "j < n" and b: "?P j b" for j b
  proof -
    have lb: "length b = length a" using b by (simp add: rearranged_def)
    show ?thesis
    proof (cases "b ! j < b ! i")
      case True
      let ?c = "b[i := b ! j, j := b ! i]"
      have "rearranged i n b ?c" using j assms lb by (intro rearranged_swap) auto
      then have "rearranged i n a ?c" using b rearranged_trans by blast
      moreover have "?c ! i \<le> ?c ! k" if k: "i \<le> k" "k < Suc j" for k
      proof (cases "k = i \<or> k = j")
        case False
        then have "b ! i \<le> b ! k" using b k by auto
        then show ?thesis using True False j assms lb by (simp add: nth_list_update)
      qed (use True j assms lb in auto)
      moreover have "bubble_step i j b = Inr ?c" using True j assms lb by (simp add: bubble_step_def rd_nat swap_at_in)
      ultimately show ?thesis by auto
    next
      case False
      then have "bubble_step i j b = Inr b" using j assms lb by (simp add: bubble_step_def rd_nat)
      moreover have "?P (Suc j) b" using b False less_Suc_eq by auto
      ultimately show ?thesis by blast
    qed
  qed
  show ?thesis by (rule foldE_range [where P = ?P, OF step]) (use assms in \<open>auto simp: less_Suc_eq\<close>)
qed

interpretation bubble: array_sort bubble_sort
proof
  fix n :: nat and a :: "int list" assume n: "n \<le> length a" "int n \<le> INT_MAX"
  have "\<exists>b. foldE (\<lambda>i. foldE (bubble_step i) [Suc i..<n]) [0..<n - 1] a = Inr b \<and> front_sorted n a (n - 1) b"
  proof (rule foldE_range)
    fix i b assume i: "i < n - 1" and b: "front_sorted n a i b"
    then have l: "n \<le> length b" "i < n" using n by (auto simp: front_sorted_def rearranged_def)
    show "\<exists>c. foldE (bubble_step i) [Suc i..<n] b = Inr c \<and> front_sorted n a (Suc i) c"
      using bubble_pass [OF l(2,1)] front_sorted_step [OF b _ l(2) n(1)] by blast
  qed simp_all
  then obtain b where "foldE (\<lambda>i. foldE (bubble_step i) [Suc i..<n]) [0..<n - 1] a = Inr b" "front_sorted n a (n - 1) b" by blast
  moreover have "b = sort (take n a) @ drop n a" if "front_sorted n a (n - 1) b" using front_sorted_end [OF that] n by simp
  moreover have "nat (int n - 1) = n - 1" by simp
  ultimately show "bubble_sort a (int n) = Inr (sort (take n a) @ drop n a)"
    using n(2) by (simp add: bubble_sort_def c_sub_def in_int_def INT_MIN_def)
qed

subsection \<open>The selection sort\<close>

lemma min_index_found:
  assumes "i < n" "n \<le> length a"
  shows "\<exists>m. foldE (min_step a) [Suc i..<n] i = Inr m \<and> i \<le> m \<and> m < n \<and> (\<forall>k. i \<le> k \<and> k < n \<longrightarrow> a ! m \<le> a ! k)"
proof -
  let ?P = "\<lambda>j m. i \<le> m \<and> m < j \<and> (\<forall>k. i \<le> k \<and> k < j \<longrightarrow> a ! m \<le> a ! k)"
  have step: "\<exists>m'. min_step a j m = Inr m' \<and> ?P (Suc j) m'" if "Suc i \<le> j" "j < n" "?P j m" for j m
  proof -
    let ?m = "if a ! j < a ! m then j else m"
    have "min_step a j m = Inr ?m" using that assms by (simp add: min_step_def rd_nat)
    moreover have "?P (Suc j) ?m" using that by (auto simp: less_Suc_eq intro: order_trans [OF less_imp_le])
    ultimately show ?thesis by blast
  qed
  have "\<exists>m. foldE (min_step a) [Suc i..<n] i = Inr m \<and> ?P n m"
    by (rule foldE_range [where P = ?P, OF step]) (use assms in \<open>auto simp: less_Suc_eq\<close>)
  then show ?thesis by blast
qed

lemma selection_pass:
  assumes "i < n" "n \<le> length a"
  shows "\<exists>b. selection_step n i a = Inr b \<and> rearranged i n a b \<and> (\<forall>k. i \<le> k \<and> k < n \<longrightarrow> b ! i \<le> b ! k)"
proof -
  obtain m where m: "foldE (min_step a) [Suc i..<n] i = Inr m" "i \<le> m" "m < n" and least: "\<And>k. i \<le> k \<Longrightarrow> k < n \<Longrightarrow> a ! m \<le> a ! k"
    using min_index_found [OF assms] by blast
  let ?b = "a[m := a ! i, i := a ! m]"
  have "selection_step n i a = Inr ?b" using m assms by (cases "m = i") (simp_all add: selection_step_def swap_at_in)
  moreover have "rearranged i n a ?b" using m assms by (intro rearranged_swap) auto
  moreover have "?b ! i \<le> ?b ! k" if "i \<le> k" "k < n" for k
    using that m assms least [of i] least [OF that] by (auto simp: nth_list_update)
  ultimately show ?thesis by blast
qed

interpretation selection: array_sort selection_sort
proof
  fix n :: nat and a :: "int list" assume n: "n \<le> length a" "int n \<le> INT_MAX"
  have "\<exists>b. foldE (selection_step n) [0..<n] a = Inr b \<and> front_sorted n a n b"
  proof (rule foldE_range [where P = "front_sorted n a"])
    fix i b assume i: "i < n" and b: "front_sorted n a i b"
    then have l: "n \<le> length b" using n by (auto simp: front_sorted_def rearranged_def)
    show "\<exists>c. selection_step n i b = Inr c \<and> front_sorted n a (Suc i) c"
      using selection_pass [OF i l] front_sorted_step [OF b _ i n(1)] by blast
  qed simp_all
  then obtain b where b: "foldE (selection_step n) [0..<n] a = Inr b" "front_sorted n a n b" by blast
  then show "selection_sort a (int n) = Inr (sort (take n a) @ drop n a)"
    using front_sorted_end [OF b(2)] n by (simp add: selection_sort_def)
qed

subsection \<open>The insertion sort\<close>

lemma move_hole_splits:
  "\<exists>p1 p2 y. p = p1 @ p2 \<and> (\<forall>z \<in> set p2. z > v) \<and> (p1 = [] \<or> last p1 \<le> v) \<and>
     move_hole (p @ x # q) v (length p) = Inr (p1 @ y # p2 @ q, length p1)"
proof (induction p arbitrary: x q rule: rev_induct)
  case (snoc z p)
  have r: "rd ((p @ [z]) @ x # q) (int (length p)) = Inr z" by (simp add: rd_def nth_append)
  show ?case
  proof (cases "z > v")
    case True
    obtain p1 p2 y where IH: "p = p1 @ p2" "\<forall>w \<in> set p2. w > v" "p1 = [] \<or> last p1 \<le> v"
        "move_hole (p @ z # z # q) v (length p) = Inr (p1 @ y # p2 @ z # q, length p1)"
      using snoc.IH [of z "z # q"] by blast
    have "wr ((p @ [z]) @ x # q) (int (length p + 1)) z = Inr (p @ z # z # q)"
      by (simp add: wr_def list_update_append nat_add_distrib)
    then have "move_hole ((p @ [z]) @ x # q) v (length (p @ [z])) = move_hole (p @ z # z # q) v (length p)"
      using True r by simp
    then show ?thesis using IH True by (intro exI [of _ p1] exI [of _ "p2 @ [z]"] exI [of _ y]) auto
  next
    case False
    then have "move_hole ((p @ [z]) @ x # q) v (length (p @ [z])) = Inr ((p @ [z]) @ x # q, length (p @ [z]))" using r by simp
    then show ?thesis using False by (intro exI [of _ "p @ [z]"] exI [of _ "[]"] exI [of _ x]) auto
  qed
qed simp

lemma insertion_step_inserts:
  assumes "sorted p"
  shows "insertion_step (length p) (p @ v # q) = Inr (sort (p @ [v]) @ q)"
proof -
  obtain p1 p2 y where p: "p = p1 @ p2" "\<forall>z \<in> set p2. z > v" "p1 = [] \<or> last p1 \<le> v"
      "move_hole (p @ v # q) v (length p) = Inr (p1 @ y # p2 @ q, length p1)"
    using move_hole_splits [of p v v q] by blast
  have "z \<le> v" if "z \<in> set p1" for z
    using that p(1,3) assms by (cases p1 rule: rev_cases) (auto simp: sorted_append)
  then have "sorted (p1 @ v # p2)" using assms p(1,2) by (auto simp: sorted_append less_imp_le)
  moreover have "mset (p1 @ v # p2) = mset (p @ [v])" using p(1) by simp
  ultimately have "sort (p @ [v]) = p1 @ v # p2" by (metis properties_for_sort)
  then show ?thesis using p(4) by (simp add: insertion_step_def rd_def wr_def)
qed

interpretation insertion: array_sort insertion_sort
proof
  fix n :: nat and a :: "int list" assume n: "n \<le> length a" "int n \<le> INT_MAX"
  show "insertion_sort a (int n) = Inr (sort (take n a) @ drop n a)"
  proof (cases "n = 0")
    case False
    have "\<exists>b. foldE insertion_step [1..<n] a = Inr b \<and> b = sort (take n a) @ drop n a"
    proof (rule foldE_range)
      fix i b assume i: "1 \<le> i" "i < n" and b: "b = sort (take i a) @ drop i a"
      have "drop i a = a ! i # drop (Suc i) a" using i n by (simp add: Cons_nth_drop_Suc)
      then have "insertion_step i b = Inr (sort (sort (take i a) @ [a ! i]) @ drop (Suc i) a)"
        using insertion_step_inserts [of "sort (take i a)" "a ! i" "drop (Suc i) a"] i n b by simp
      moreover have "sort (sort (take i a) @ [a ! i]) = sort (take (Suc i) a)"
        using i n by (intro properties_for_sort) (simp_all add: take_Suc_conv_app_nth)
      ultimately show "\<exists>c. insertion_step i b = Inr c \<and> c = sort (take (Suc i) a) @ drop (Suc i) a" by simp
    next
      show "a = sort (take 1 a) @ drop 1 a" using False n by (cases a) auto
    qed (use False in simp)
    then show ?thesis by (simp add: insertion_sort_def)
  qed (simp add: insertion_sort_def)
qed

text \<open>
  C29. The three quadratic sorts are equivalent to the library's sort: on an array of at least \<open>n\<close>
  elements each of them sorts the first \<open>n\<close> in place, leaves the rest, and touches nothing outside.
\<close>

theorem quadratic_sorts:
  assumes "n \<le> length a" "int n \<le> INT_MAX"
  shows "bubble_sort a (int n) = Inr (sort (take n a) @ drop n a) \<and>
    insertion_sort a (int n) = Inr (sort (take n a) @ drop n a) \<and>
    selection_sort a (int n) = Inr (sort (take n a) @ drop n a)"
  by (intro conjI bubble.sorts insertion.sorts selection.sorts assms)

section \<open>The merge sort overruns its buffer\<close>

lemma merge_pair_overrun:
  assumes "0 < low" "low + 1 < int (length a)"
  shows "merge_into a [None, None] low low (low + 1) = Inl OutOfBounds"
proof -
  have rd: "\<exists>x. rd a low = Inr x" "\<exists>x. rd a (low + 1) = Inr x" using assms by (auto simp: rd_def)
  have w: "wr b low v = Inl OutOfBounds \<or> (\<exists>b'. wr b low v = Inr b' \<and> length b' = 2) \<and> low = 1"
      "wr b (low + 1) v = Inl OutOfBounds" if "length b = 2" for b :: "int option list" and v
    using that assms(1) by (auto simp: wr_def)
  have stop: "copy_run a b to l i = Inr (b, i)" if "to < l" for b to l i using that by (simp add: copy_run.simps)
  have over: "copy_run a b l l (low + 1) = Inl OutOfBounds" if "length b = 2" "l = low \<or> l = low + 1" for b l
    using that rd w(2) [OF that(1)] by (subst copy_run.simps) auto
  have m: "merge_loop a b low (low + 1) l1 l2 (low + 1) = Inr (b, l1, l2, low + 1)" if "l1 = low + 1 \<or> l2 = low + 2" for b l1 l2
    using that by (auto simp: merge_loop.simps)
  obtain x y where xy: "rd a low = Inr x" "rd a (low + 1) = Inr y" using rd by blast
  have "merge_loop a [None, None] low (low + 1) low (low + 1) low = Inl OutOfBounds \<or>
      (\<exists>b. length b = 2 \<and> (merge_loop a [None, None] low (low + 1) low (low + 1) low = Inr (b, low + 1, low + 1, low + 1) \<or>
        merge_loop a [None, None] low (low + 1) low (low + 1) low = Inr (b, low, low + 2, low + 1)))"
    using w(1) [of "[None, None]" "Some x"] w(1) [of "[None, None]" "Some y"] 
    by (subst (1 2 3) merge_loop.simps) (auto simp: xy m add.assoc)
  then show ?thesis by (auto simp: merge_into_def stop over)
qed

lemma merge_sort_overrun:
  assumes "0 < low" "low < high" "high < int (length a)" "length a \<le> 2 ^ 30" "nat (high - low) < fuel"
  shows "merge_sort fuel a low high = Inl OutOfBounds"
  using assms
proof (induction fuel arbitrary: high)
  case (Suc fuel)
  define mid where "mid = (low + high) sdiv 2"
  have mid: "mid = (low + high) div 2" using Suc.prems by (simp add: mid_def sdiv_nonneg)
  have add: "c_add low high = Inr (low + high)" using Suc.prems by (simp add: c_add_def in_int_def INT_MAX_def INT_MIN_def)
  have step: "merge_sort (Suc fuel) a low high = bindE (merge_sort fuel a low mid) (\<lambda>a.
        bindE (merge_sort fuel a (mid + 1) high) (\<lambda>a'.
        bindE (merge_into a' (replicate (nat (high - low + 1)) None) low mid high) (\<lambda>b. copy_back b low high a')))"
    using Suc.prems add by (simp add: mid_def [symmetric])
  show ?case
  proof (cases "low < mid")
    case True
    then show ?thesis using Suc.IH [of mid] Suc.prems mid step by auto
  next
    case False
    then have e: "mid = low" "high = low + 1" using mid Suc.prems by auto
    obtain f where f: "fuel = Suc f" using Suc.prems e by (cases fuel) auto
    have "replicate (nat (high - low + 1)) None = [None, None :: int option]" using e by (simp add: numeral_2_eq_2)
    then show ?thesis using step f merge_pair_overrun [of low a] Suc.prems e by simp
  qed
qed simp

lemmas merge_evals = merge_into_def merge_loop.simps copy_run.simps copy_back_def rd_def wr_def c_add_def in_int_def INT_MAX_def INT_MIN_def
  signed_divide_int_def upto.simps

lemma merge_sort_two: "merge_sort (Suc (Suc f)) (x # y # q) 0 1 = Inr (sort [x, y] @ q)"
  by (cases "x < y") (simp_all add: merge_evals numeral_2_eq_2)

lemma merge_three:
  assumes "x \<le> y"
  shows "bindE (merge_into (x # y # z # q) [None, None, None] 0 1 2) (\<lambda>b. copy_back b 0 2 (x # y # z # q)) = Inr (sort [x, y, z] @ q)"
proof -
  consider "y < z" | "x < z" "z \<le> y" | "z \<le> x" by linarith
  then show ?thesis using assms by cases (simp_all add: merge_evals numeral_2_eq_2 numeral_3_eq_3)
qed

lemma merge_sort_three: "merge_sort (Suc (Suc (Suc f))) (x # y # z # q) 0 2 = Inr (sort [x, y, z] @ q)"
proof -
  have "merge_sort (Suc (Suc (Suc f))) (x # y # z # q) 0 2 =
      bindE (Inr (sort [x, y] @ z # q)) (\<lambda>a. bindE (merge_into a [None, None, None] 0 1 2) (\<lambda>b. copy_back b 0 2 a))"
    using merge_sort_two [of f x y "z # q"]
    by (subst merge_sort.simps(2)) (simp add: c_add_def in_int_def INT_MAX_def INT_MIN_def signed_divide_int_def eval_nat_numeral del: merge_sort.simps(2) sort_key_simps, simp)
  also have "\<dots> = Inr (sort [x, y, z] @ q)"
  proof (cases "x \<le> y")
    case True
    then show ?thesis using merge_three [OF True] by simp
  next
    case False
    then have "sort [x, y] = [y, x]" "sort [y, x, z] = sort [x, y, z]" by (auto intro!: properties_for_sort simp: add.commute)
    then show ?thesis using merge_three [of y x z q] False by simp
  qed
  finally show ?thesis .
qed

lemma merge_sort_small:
  assumes "n \<le> 2" "n < length a"
  shows "merge_sort (Suc (Suc (Suc f))) a 0 (int n) = Inr (sort (take (Suc n) a) @ drop (Suc n) a)"
proof -
  consider "n = 0" | "n = 1" | "n = 2" using assms(1) by linarith
  then show ?thesis
  proof cases
    case 1
    then show ?thesis using assms by (cases a) auto
  next
    case 2
    then obtain x y q where "a = x # y # q" using assms by (cases a; cases "tl a") auto
    then show ?thesis using 2 merge_sort_two [of "Suc f" x y q] by simp
  next
    case 3
    then obtain x y z q where "a = x # y # z # q" using assms by (cases a; cases "tl a"; cases "tl (tl a)") auto
    then show ?thesis using 3 merge_sort_three [of f x y z q] by (simp add: numeral_2_eq_2)
  qed
qed

lemma merge_sort_large:
  assumes "3 \<le> n" "n < length a" "length a \<le> 2 ^ 30" "n < fuel"
  shows "merge_sort fuel a 0 (int n) = Inl OutOfBounds"
  using assms
proof (induction fuel arbitrary: n)
  case (Suc fuel)
  have add: "c_add 0 (int n) = Inr (int n)" using Suc.prems by (simp add: c_add_def in_int_def INT_MAX_def INT_MIN_def)
  have "int n sdiv 2 = int (n div 2)" by (simp add: sdiv_nonneg zdiv_int)
  then have step: "merge_sort (Suc fuel) a 0 (int n) = bindE (merge_sort fuel a 0 (int (n div 2))) (\<lambda>a.
        bindE (merge_sort fuel a (int (n div 2) + 1) (int n)) (\<lambda>a'.
        bindE (merge_into a' (replicate (Suc n) None) 0 (int (n div 2)) (int n)) (\<lambda>b. copy_back b 0 (int n) a')))"
    using Suc.prems add by (simp add: nat_add_distrib Let_def)
  show ?case
  proof (cases "3 \<le> n div 2")
    case True
    then show ?thesis using Suc.IH [of "n div 2"] Suc.prems step by auto
  next
    case False
    obtain f where f: "fuel = Suc (Suc (Suc f))" using Suc.prems that [of "fuel - 3"] by auto
    define a' where "a' = sort (take (Suc (n div 2)) a) @ drop (Suc (n div 2)) a"
    have l: "length a' = length a" using Suc.prems by (simp add: a'_def)
    have "merge_sort fuel a 0 (int (n div 2)) = Inr a'"
      unfolding f a'_def by (rule merge_sort_small) (use False Suc.prems in auto)
    moreover have "merge_sort fuel a' (int (n div 2) + 1) (int n) = Inl OutOfBounds"
      by (rule merge_sort_overrun) (use False Suc.prems l in auto)
    ultimately show ?thesis using step by simp
  qed
qed simp

text \<open>
  C38. The merge sort writes its runs behind the end of its buffer: an array of one, two or three
  elements is sorted, every longer one (up to 2^30 elements) makes it write out of bounds.
\<close>

theorem merge_sort_limit:
  assumes "a \<noteq> []" "length a \<le> 2 ^ 30" "length a + 2 \<le> fuel"
  shows "merge_sort fuel a 0 (int (length a) - 1) = (if length a \<le> 3 then Inr (sort a) else Inl OutOfBounds)"
proof (cases "length a \<le> 3")
  case True
  have "3 \<le> fuel" using assms by (cases a) auto
  then obtain f where f: "fuel = Suc (Suc (Suc f))" using that [of "fuel - 3"] by auto
  show ?thesis using merge_sort_small [of "length a - 1" a f] True assms(1) f by (cases a) auto
next
  case False
  then show ?thesis using merge_sort_large [of "length a - 1" a fuel] assms by (simp add: of_nat_diff)
qed

section \<open>The quick sort does not return\<close>

text \<open>
  On a segment of two or more elements the quick sort never returns: \<^verbatim>\<open>partitionFunc\<close> gives back
  \<open>right\<close>, so that the first recursive call is for the same segment again, whatever the recursion
  depth allowed.
\<close>

theorem quick_sort_never_returns:
  assumes "left < right"
  shows "\<nexists>r. quick_sort fuel a left right = Inr r"
proof (induction fuel arbitrary: a)
  case (Suc fuel)
  have p: "p = right" if "partitionFunc a left right pivot = Inr (b, p)" for pivot b p
    using that by (auto simp: partitionFunc_def bindE_eq_Inr)
  show ?case using Suc.IH assms by (auto simp: bindE_eq_Inr dest: p)
qed simp

text \<open>The program itself sorts nine elements with the merge sort.\<close>

lemma sorting_main_overrun: "9 \<le> fuel \<Longrightarrow> sorting_main fuel = Inl OutOfBounds"
  using merge_sort_large [of 8 "[14, 33, 27, 10, 35, 30, 19, 42, 44]" fuel] by (simp add: sorting_main_def)

section \<open>Witnesses\<close>

theorem quadratic_sorts_witness:
  "bubble_sort [3, 1, 2, 0] 3 = Inr [1, 2, 3, 0] \<and> insertion_sort [3, 1, 2, 0] 3 = Inr [1, 2, 3, 0] \<and> selection_sort [3, 1, 2, 0] 3 = Inr [1, 2, 3, 0]"
  using quadratic_sorts [of 3 "[3, 1, 2, 0]"] by (simp add: INT_MAX_def)

theorem merge_sort_limit_witness:
  "merge_sort 5 [3, 1, 2] 0 2 = Inr [1, 2, 3] \<and> merge_sort 6 [4, 3, 1, 2] 0 3 = Inl OutOfBounds"
  using merge_sort_limit [of "[3, 1, 2]" 5] merge_sort_limit [of "[4, 3, 1, 2]" 6] by simp

theorem quick_sort_never_returns_witness: "\<nexists>r. quick_sort 100 [2, 1, 3] 0 2 = Inr r"
  using quick_sort_never_returns [of 0 2 100 "[2, 1, 3]"] by simp

end
