(* ===== verification/Cpp_Search.thy ===== *)
theory Cpp_Search
  imports C_Text "HOL-Library.Multiset" "HOL-Library.Log_Nat"
begin

text \<open>
  \<^verbatim>\<open>c++/src/searching.cpp\<close>, \<^verbatim>\<open>binaryTree/SearchMatrix.cpp\<close> and \<^verbatim>\<open>binaryTree/Duplication.cpp\<close>: searching
  in sorted arrays and matrices, and the search for a repeated value. The bisection of the two
  binary searches is one loop over a reading function; the locale \<open>sorted_view\<close> says what the
  reads must give and carries its correctness and the bound on its rounds.
\<close>

section \<open>The programs\<close>

definition traversing :: "int list \<Rightarrow> int \<Rightarrow> string cres" where
  "traversing a n = bindE (mapE (\<lambda>i. rd a (int i)) [0..<nat n]) (\<lambda>xs. Inr (line (concat (map (\<lambda>x. dec_int x @ '' '') xs))))"

function linear_from :: "int list \<Rightarrow> int \<Rightarrow> int \<Rightarrow> int \<Rightarrow> int cres" where
  "linear_from a n x i =
     (if i < n then bindE (rd a i) (\<lambda>v. if v > x then Inr (-1) else if v = x then Inr i else linear_from a n x (i + 1))
      else Inr (-1))"
  by pat_completeness auto
termination
  by (relation "measure (\<lambda>(a, n, x, i). nat (n - i))") auto

declare linear_from.simps [simp del]

definition linear_search :: "int list \<Rightarrow> int \<Rightarrow> int \<Rightarrow> int cres" where
  "linear_search a n x = linear_from a n x 0"

text \<open>The loop of the binary searches, with the middle positions it looks at and its result.\<close>

function bisect :: "(int \<Rightarrow> int cres) \<Rightarrow> int \<Rightarrow> int \<Rightarrow> int \<Rightarrow> (int list \<times> int) cres" where
  "bisect get x low high =
     (if low \<le> high then
        let mid = low + (high - low) sdiv 2 in
        bindE (get mid) (\<lambda>v.
        if v = x then Inr ([mid], mid)
        else if v < x then bindE (bisect get x (mid + 1) high) (\<lambda>(mids, r). Inr (mid # mids, r))
        else bindE (bisect get x low (mid - 1)) (\<lambda>(mids, r). Inr (mid # mids, r)))
      else Inr ([], -1))"
  by pat_completeness auto
termination
  by (relation "measure (\<lambda>(get, x, low, high). nat (high + 1 - low))") (auto simp: sdiv_nonneg)

declare bisect.simps [simp del]

definition count_line :: "nat \<Rightarrow> int \<Rightarrow> string" where
  "count_line i mid = line (''Count is '' @ dec_nat i @ '' Mid is '' @ dec_int mid)"

definition binary_search :: "int list \<Rightarrow> int \<Rightarrow> int \<Rightarrow> (string list \<times> int) cres" where
  "binary_search a n x =
     bindE (bisect (rd a) x 0 (n - 1)) (\<lambda>(mids, r). Inr (map2 count_line [1..<Suc (length mids)] mids, r))"

text \<open>The products and quotients of the interpolation are those of \<open>int\<close>s. The loop need not end.\<close>

fun interpolate :: "nat \<Rightarrow> int list \<Rightarrow> int \<Rightarrow> int \<Rightarrow> int \<Rightarrow> nat \<Rightarrow> (string list \<times> int) cres" where
  "interpolate 0 a x low high rounds = Inl NoReturn"
| "interpolate (Suc fuel) a x low high rounds =
     (if low \<le> high then
        bindE (rd a high) (\<lambda>h. bindE (rd a low) (\<lambda>l.
        bindE (c_sub h l) (\<lambda>d. bindE (c_div (high - low) d) (\<lambda>q.
        bindE (c_sub x l) (\<lambda>e. bindE (c_mul q e) (\<lambda>p. bindE (c_add low p) (\<lambda>mid.
        let shown = count_line (Suc rounds) mid in
        bindE (rd a mid) (\<lambda>v.
        if v = x then Inr ([shown], mid)
        else bindE (if v < x then interpolate fuel a x (mid + 1) high (Suc rounds) else interpolate fuel a x low (mid - 1) (Suc rounds))
               (\<lambda>(out, r). Inr (shown # out, r))))))))))
      else Inr ([], -1))"

definition interpolation_search :: "nat \<Rightarrow> int list \<Rightarrow> int \<Rightarrow> int \<Rightarrow> (string list \<times> int) cres" where
  "interpolation_search fuel a n x = interpolate fuel a x 0 (n - 1) 0"

definition located :: "int \<Rightarrow> int \<Rightarrow> string" where
  "located x r = line (dec_int x @ '' is located at '' @ dec_int r)"

definition searching_main :: "nat \<Rightarrow> string list cres" where
  "searching_main fuel =
     (let xs = [10, 14, 19, 27, 33, 35, 42, 44]; n = int (length xs); x = 42 in
      bindE (traversing xs n) (\<lambda>shown.
      bindE (linear_search xs n x) (\<lambda>r1.
      bindE (binary_search xs n x) (\<lambda>(out2, r2).
      bindE (interpolation_search fuel xs n x) (\<lambda>(out3, r3).
      Inr ([shown, located x r1] @ out2 @ [located x r2] @ out3 @ [located x r3]))))))"

text \<open>A matrix is an array of rows.\<close>

definition rd_cell :: "int list list \<Rightarrow> int \<Rightarrow> int \<Rightarrow> int cres" where
  "rd_cell mat cols mid = bindE (c_div mid cols) (\<lambda>row. bindE (c_mod mid cols) (\<lambda>col. bindE (rd mat row) (\<lambda>r. rd r col)))"

definition searchMatrix :: "int list list \<Rightarrow> int \<Rightarrow> int \<Rightarrow> int \<Rightarrow> int cres" where
  "searchMatrix mat rows cols value' =
     bindE (c_mul rows cols) (\<lambda>len. bindE (bisect (rd_cell mat cols) value' 0 (len - 1)) (\<lambda>(mids, r). Inr r))"

definition matrix_main :: "string cres" where
  "matrix_main =
     (let m = map (\<lambda>i. map (\<lambda>j. int i * 6 + int j * 2 + 1) [0..<3]) [0..<3] in
      bindE (searchMatrix m 3 3 7) (\<lambda>res1. bindE (searchMatrix m 3 3 13) (\<lambda>res2.
      Inr (concat (map (\<lambda>r. line (concat (map (\<lambda>x. dec_int x @ '' '') r))) m) @ line (dec_int res1 @ '' '' @ dec_int res2)))))"

text \<open>The loop of \<^verbatim>\<open>findDuplication\<close>; \<^verbatim>\<open>swap\<close> gets the places \<open>i\<close> and \<open>arr[i]\<close>.\<close>

function dup_from :: "int list \<Rightarrow> int \<Rightarrow> int \<Rightarrow> (int \<times> int list) cres" where
  "dup_from arr n i =
     (if i < n then
        bindE (rd arr i) (\<lambda>m.
        if m \<noteq> i then
          bindE (rd arr m) (\<lambda>v.
          if v = m then Inr (1, arr)
          else bindE (wr arr m m) (\<lambda>arr. bindE (wr arr i v) (\<lambda>arr. dup_from arr n (i + 1))))
        else dup_from arr n (i + 1))
      else Inr (0, arr))"
  by pat_completeness auto
termination
  by (relation "measure (\<lambda>(arr, n, i). nat (n - i))") auto

declare dup_from.simps [simp del]

definition findDuplication :: "int list \<Rightarrow> int \<Rightarrow> int cres" where
  "findDuplication arr n = bindE (dup_from arr n 0) (\<lambda>(found, arr). Inr found)"

definition duplication_main :: "string cres" where
  "duplication_main = (let arr = [3, 1, 2, 0, 4, 5] in bindE (findDuplication arr (int (length arr))) (\<lambda>res. Inr (line (dec_int res))))"

section \<open>Bisection\<close>

text \<open>What a search of the positions \<open>low\<close> to \<open>high\<close> returns.\<close>

definition found :: "(int \<Rightarrow> int) \<Rightarrow> int \<Rightarrow> int \<Rightarrow> int \<Rightarrow> int \<Rightarrow> bool" where
  "found v x low high r \<longleftrightarrow> (if \<exists>i. low \<le> i \<and> i \<le> high \<and> v i = x then low \<le> r \<and> r \<le> high \<and> v r = x else r = -1)"

text \<open>The reads of positions \<open>0\<close> to \<open>n - 1\<close> give an ascending sequence.\<close>

locale sorted_view =
  fixes get :: "int \<Rightarrow> int cres" and v :: "int \<Rightarrow> int" and n :: int
  assumes get: "0 \<le> i \<Longrightarrow> i < n \<Longrightarrow> get i = Inr (v i)"
    and ascending: "0 \<le> i \<Longrightarrow> i \<le> j \<Longrightarrow> j < n \<Longrightarrow> v i \<le> v j"
begin

lemma found_right: "v mid < x \<Longrightarrow> 0 \<le> low \<Longrightarrow> low \<le> mid \<Longrightarrow> mid \<le> high \<Longrightarrow> high < n \<Longrightarrow> found v x (mid + 1) high r \<Longrightarrow> found v x low high r"
  unfolding found_def using ascending by (smt (verit))

lemma found_left: "x < v mid \<Longrightarrow> 0 \<le> low \<Longrightarrow> low \<le> mid \<Longrightarrow> mid \<le> high \<Longrightarrow> high < n \<Longrightarrow> found v x low (mid - 1) r \<Longrightarrow> found v x low high r"
  unfolding found_def using ascending by (smt (verit))

lemma rounds_halve:
  assumes "low \<le> high" "m \<le> nat (high + 1 - low) div 2" "length mids \<le> floorlog 2 m"
  shows "Suc (length mids) \<le> floorlog 2 (nat (high + 1 - low))"
proof -
  have "floorlog 2 (nat (high + 1 - low)) = floorlog 2 (nat (high + 1 - low) div 2) + 1"
    using assms(1) by (subst compute_floorlog) simp
  then show ?thesis using floorlog_mono [OF assms(2), of 2] assms(3) by simp
qed

lemma bisect_finds:
  assumes "0 \<le> low" "high < n"
  shows "\<exists>mids r. bisect get x low high = Inr (mids, r) \<and> found v x low high r \<and> length mids \<le> floorlog 2 (nat (high + 1 - low))"
  using assms
proof (induction "nat (high + 1 - low)" arbitrary: low high rule: less_induct)
  case less
  show ?case
  proof (cases "low \<le> high")
    case True
    define mid where "mid = low + (high - low) sdiv 2"
    have mid: "low \<le> mid" "mid \<le> high" "mid = low + (high - low) div 2" using True by (auto simp: mid_def sdiv_nonneg)
    have "get mid = Inr (v mid)" using mid less.prems by (intro get) auto
    then have step: "bisect get x low high = (if v mid = x then Inr ([mid], mid)
        else if v mid < x then bindE (bisect get x (mid + 1) high) (\<lambda>(mids, r). Inr (mid # mids, r))
        else bindE (bisect get x low (mid - 1)) (\<lambda>(mids, r). Inr (mid # mids, r)))"
      using True by (subst bisect.simps) (simp add: mid_def [symmetric])
    consider "v mid = x" | "v mid < x" | "x < v mid" by linarith
    then show ?thesis
    proof cases
      case 1
      then show ?thesis using step mid rounds_halve [OF True, of 0 "[]"] by (auto simp: found_def)
    next
      case 2
      have "nat (high + 1 - (mid + 1)) < nat (high + 1 - low)" "0 \<le> mid + 1" using mid less.prems True by auto
      from less.hyps [OF this less.prems(2)] obtain mids r where "bisect get x (mid + 1) high = Inr (mids, r)"
          "found v x (mid + 1) high r" "length mids \<le> floorlog 2 (nat (high + 1 - (mid + 1)))" by blast
      moreover have "nat (high + 1 - (mid + 1)) \<le> nat (high + 1 - low) div 2" using mid by auto
      ultimately show ?thesis using step 2 found_right [OF 2 less.prems(1) mid(1,2) less.prems(2)] rounds_halve [OF True] by auto
    next
      case 3
      have "nat (mid - 1 + 1 - low) < nat (high + 1 - low)" "mid - 1 < n" using mid less.prems True by auto
      from less.hyps [OF this(1) less.prems(1) this(2)] obtain mids r where "bisect get x low (mid - 1) = Inr (mids, r)"
          "found v x low (mid - 1) r" "length mids \<le> floorlog 2 (nat (mid - 1 + 1 - low))" by blast
      moreover have "nat (mid - 1 + 1 - low) \<le> nat (high + 1 - low) div 2" using mid by auto
      ultimately show ?thesis using step 3 found_left [OF 3 less.prems(1) mid(1,2) less.prems(2)] rounds_halve [OF True] by auto
    qed
  next
    case False
    then have "bisect get x low high = Inr ([], -1)" by (subst bisect.simps) simp
    then show ?thesis using False by (auto simp: found_def)
  qed
qed

end

interpretation sorted_array: sorted_view "rd (sort a)" "\<lambda>i. sort a ! nat i" "int (length a)" for a :: "int list"
  by unfold_locales (auto simp: rd_def sorted_nth_mono)

lemma ex_index: "(\<exists>i. 0 \<le> i \<and> i \<le> int (length a) - 1 \<and> a ! nat i = x) \<longleftrightarrow> x \<in> set a"
proof -
  have "(\<exists>i. 0 \<le> i \<and> i \<le> int (length a) - 1 \<and> a ! nat i = x) \<longleftrightarrow> (\<exists>k < length a. a ! k = x)"
    by (metis int_nat_eq nat_int of_nat_0_le_iff of_nat_less_iff zle_diff1_eq)
  then show ?thesis by (simp add: in_set_conv_nth)
qed

text \<open>
  The binary search on a sorted array: the position it returns holds the value, -1 is returned
  exactly when the value is not there, and the number of rounds (the lines it prints) is at most
  the number of binary digits of the array's length.
\<close>

theorem binary_search_correct:
  assumes "sorted a"
  shows "\<exists>out r. binary_search a (int (length a)) x = Inr (out, r) \<and> length out \<le> floorlog 2 (length a) \<and>
    (if x \<in> set a then 0 \<le> r \<and> r < int (length a) \<and> a ! nat r = x else r = -1)"
proof -
  have s: "sort a = a" using assms by (rule sorted_sort_id)
  obtain mids r where b: "bisect (rd a) x 0 (int (length a) - 1) = Inr (mids, r)" "length mids \<le> floorlog 2 (length a)"
      and f: "found (\<lambda>i. a ! nat i) x 0 (int (length a) - 1) r"
    using sorted_array.bisect_finds [of 0 "int (length a) - 1" a x] by (auto simp: s)
  have "if x \<in> set a then 0 \<le> r \<and> r < int (length a) \<and> a ! nat r = x else r = -1"
    using f unfolding found_def ex_index by (auto split: if_splits)
  then show ?thesis using b by (simp add: binary_search_def)
qed

lemma concat_cell:
  assumes "\<forall>r \<in> set mat. length r = c" "i < length mat * c"
  shows "concat mat ! i = mat ! (i div c) ! (i mod c) \<and> i div c < length mat \<and> i mod c < c"
  using assms
proof (induction mat arbitrary: i)
  case (Cons r mat)
  have c: "0 < c" using Cons.prems(2) by (cases c) auto
  show ?case
  proof (cases "i < c")
    case False
    then have "concat mat ! (i - c) = mat ! ((i - c) div c) ! ((i - c) mod c) \<and> (i - c) div c < length mat \<and> (i - c) mod c < c"
      using Cons.prems by (intro Cons.IH) auto
    moreover have "i div c = Suc ((i - c) div c)" "(i - c) mod c = i mod c" using False c by (auto simp: le_div_geq le_mod_geq)
    ultimately show ?thesis using False Cons.prems(1) by (auto simp: nth_append)
  qed (use Cons.prems c in \<open>auto simp: nth_append\<close>)
qed simp

lemma length_concat_rows: "\<forall>r \<in> set mat. length r = c \<Longrightarrow> length (concat mat) = length mat * c"
  by (induction mat) auto

text \<open>
  The matrix search, for a matrix whose rows, one after the other, are ascending: the value is
  found at the returned position in row-major order, and -1 means that it is nowhere in the matrix.
\<close>

theorem searchMatrix_correct:
  assumes "\<forall>r \<in> set mat. length r = c" "sorted (concat mat)" "int (length mat * c) \<le> INT_MAX"
  shows "\<exists>r. searchMatrix mat (int (length mat)) (int c) x = Inr r \<and>
    (if x \<in> set (concat mat) then 0 \<le> r \<and> r < int (length mat * c) \<and> concat mat ! nat r = x else r = -1)"
proof -
  have len: "length (concat mat) = length mat * c" by (rule length_concat_rows) (rule assms)
  have view: "sorted_view (rd_cell mat (int c)) (\<lambda>i. concat mat ! nat i) (int (length mat * c))"
  proof
    fix i assume "0 \<le> i" "i < int (length mat * c)"
    then obtain k where k: "i = int k" "k < length mat * c" by (metis nonneg_int_cases of_nat_less_iff)
    then have "0 < c" "int (k div c) \<le> int k" by (cases c; simp)+
    moreover have "int k < int (length mat * c)" using k(2) by (rule of_nat_less_iff [THEN iffD2])
    then have "in_int (int (k div c))" using assms(3) calculation(2) unfolding in_int_def INT_MIN_def by linarith
    ultimately show "rd_cell mat (int c) i = Inr (concat mat ! nat i)"
      using concat_cell [OF assms(1) k(2)] nth_mem [of "k div c" mat] assms(1) k(1)
      by (simp add: rd_cell_def c_div_def c_mod_def sdiv_nonneg smod_nonneg rd_def flip: zdiv_int zmod_int)
  next
    fix i j assume "0 \<le> i" "i \<le> j" "j < int (length mat * c)"
    then show "concat mat ! nat i \<le> concat mat ! nat j" using assms(2) len by (intro sorted_nth_mono) (auto simp del: of_nat_mult)
  qed
  have ex: "(\<exists>i. 0 \<le> i \<and> i \<le> int (length mat * c) - 1 \<and> concat mat ! nat i = x) \<longleftrightarrow> x \<in> set (concat mat)"
    using ex_index [of "concat mat" x] unfolding len .
  have m: "c_mul (int (length mat)) (int c) = Inr (int (length mat * c))" proof -
    have "0 \<le> int (length mat) * int c" by simp
    then have "in_int (int (length mat) * int c)" using assms(3) unfolding in_int_def INT_MIN_def of_nat_mult by linarith
    then show ?thesis by (simp add: c_mul_def)
  qed
  obtain mids r where b: "bisect (rd_cell mat (int c)) x 0 (int (length mat * c) - 1) = Inr (mids, r)"
      and f: "found (\<lambda>i. concat mat ! nat i) x 0 (int (length mat * c) - 1) r"
    using sorted_view.bisect_finds [OF view, of 0 "int (length mat * c) - 1" x] by auto
  have "if x \<in> set (concat mat) then 0 \<le> r \<and> r < int (length mat * c) \<and> concat mat ! nat r = x else r = -1"
    using f unfolding found_def ex by (auto split: if_splits)
  then show ?thesis using b m by (simp add: searchMatrix_def)
qed

section \<open>Linear and interpolation search\<close>

text \<open>The elements before the first one that is not smaller than \<open>x\<close>.\<close>

definition below :: "int list \<Rightarrow> int \<Rightarrow> nat" where
  "below a x = length (takeWhile (\<lambda>y. y < x) a)"

lemma below_less: "k < below a x \<Longrightarrow> k < length a \<and> a ! k < x"
  unfolding below_def using nth_mem [of k "takeWhile (\<lambda>y. y < x) a"] length_takeWhile_le [of "\<lambda>y. y < x" a]
  by (auto simp: takeWhile_nth dest: set_takeWhileD)

lemma below_stop: "below a x < length a \<Longrightarrow> \<not> a ! below a x < x"
  unfolding below_def by (rule nth_length_takeWhile)

lemma below_le: "below a x \<le> length a"
  unfolding below_def by (rule length_takeWhile_le)

lemma linear_from_below:
  "i \<le> below a x \<Longrightarrow> linear_from a (int (length a)) x (int i) =
     Inr (if below a x < length a \<and> a ! below a x = x then int (below a x) else -1)"
proof (induction "below a x - i" arbitrary: i)
  case 0
  then have i: "i = below a x" by simp
  show ?case
  proof (cases "i < length a")
    case True
    then show ?thesis using i below_stop [of a x] by (subst linear_from.simps) (auto simp: rd_nat)
  qed (use i in \<open>subst linear_from.simps, simp\<close>)
next
  case (Suc d)
  then have "i < length a" "a ! i < x" using below_less [of i a x] by auto
  moreover have "linear_from a (int (length a)) x (int (Suc i)) = Inr (if below a x < length a \<and> a ! below a x = x then int (below a x) else -1)"
    using Suc by (intro Suc.hyps(1)) auto
  ultimately show ?case by (subst linear_from.simps) (simp add: rd_nat add.commute)
qed

text \<open>
  The linear search looks at the first element that is not smaller than the value, and finds the
  value exactly when it is there; in a sorted array that is the first occurrence.
\<close>

theorem linear_search_correct:
  "linear_search a (int (length a)) x = Inr (if below a x < length a \<and> a ! below a x = x then int (below a x) else -1)"
  unfolding linear_search_def using linear_from_below [of 0 a x] by simp

text \<open>Arrays whose neighbours are at least two apart, with values that cannot overflow.\<close>

definition gapped :: "int list \<Rightarrow> bool" where
  "gapped a \<longleftrightarrow> (\<forall>i. Suc i < length a \<longrightarrow> a ! i + 2 \<le> a ! Suc i) \<and> (\<forall>y \<in> set a. - (2 ^ 29) \<le> y \<and> y \<le> 2 ^ 29)"

lemma gapped_span:
  assumes "gapped a"
  shows "i + d < length a \<Longrightarrow> a ! i + 2 * int d \<le> a ! (i + d)"
proof (induction d)
  case (Suc d)
  then have "a ! (i + d) + 2 \<le> a ! Suc (i + d)" using assms by (simp add: gapped_def)
  then show ?case using Suc by simp
qed simp

lemma interpolate_step:
  assumes "gapped a" "- (2 ^ 29) \<le> x" "x \<le> 2 ^ 29" "Suc low < length a"
  shows "interpolate (Suc fuel) a x (int low) (int (length a) - 1) low =
    (if a ! low = x then Inr ([count_line (Suc low) (int low)], int low)
     else bindE (if a ! low < x then interpolate fuel a x (int (Suc low)) (int (length a) - 1) (Suc low)
        else interpolate fuel a x (int low) (int low - 1) (Suc low)) (\<lambda>(out, r). Inr (count_line (Suc low) (int low) # out, r)))"
proof -
  define n where "n = length a"
  have n: "Suc low < n" "nat (int n - 1) = n - 1" using assms(4) by (simp_all add: n_def)
  let ?d = "a ! (n - 1) - a ! low"
  have dist: "2 * int (n - 1 - low) \<le> ?d" proof -
    have "low + (n - 1 - low) = n - 1" "n - 1 < length a" using n unfolding n_def by linarith+
    then show ?thesis using gapped_span [OF assms(1), of low "n - 1 - low"] by simp
  qed
  have range: "- (2 ^ 29) \<le> a ! k \<and> a ! k \<le> 2 ^ 29" if "k < n" for k using assms(1) that by (simp add: gapped_def n_def)
  have r1: "rd a (int n - 1) = Inr (a ! (n - 1))" "rd a (int low) = Inr (a ! low)" using n by (auto simp: rd_def n_def)
  have r2: "c_sub (a ! (n - 1)) (a ! low) = Inr ?d" "c_sub x (a ! low) = Inr (x - a ! low)"
    using range [of low] range [of "n - 1"] n assms(2,3) by (simp_all add: c_int_defs)
  have "(int n - 1 - int low) sdiv ?d = 0"
    using dist n by (subst sdiv_nonneg) (auto simp: of_nat_diff)
  then have r3: "c_div (int n - 1 - int low) ?d = Inr 0" using dist n by (auto simp: c_int_defs of_nat_diff)
  have r4: "c_mul 0 e = Inr 0" for e by (simp add: c_int_defs)
  have "0 < n" "n - 1 < n" "n - 1 < length a" using n unfolding n_def by linarith+
  then have "int n \<le> 2 ^ 30" using gapped_span [OF assms(1), of 0 "n - 1"] range [of 0] range [of "n - 1"] by (simp add: of_nat_diff)
  then have r5: "c_add (int low) 0 = Inr (int low)" using n by (simp add: c_int_defs)
  define h l where "h = a ! (n - 1)" and "l = a ! low"
  note r = r1 r2 r3
  show ?thesis using n r [folded h_def l_def] unfolding n_def [symmetric] l_def [symmetric] by (auto simp: r4 r5 Let_def add.commute)
qed

text \<open>
  The interpolation search divides before it multiplies. On an array whose elements are at least
  two apart the quotient is 0 and it looks at the elements one by one from the front: a value in
  front of the last element is found, or its absence noticed, after as many rounds as there are
  smaller elements, plus one; when only the last element is left, the search divides by zero.
\<close>

theorem interpolation_is_linear:
  assumes "gapped a" "- (2 ^ 29) \<le> x" "x \<le> 2 ^ 29" "a \<noteq> []" "length a < fuel"
  shows "interpolation_search fuel a (int (length a)) x =
    (if Suc (below a x) < length a
     then Inr (map (\<lambda>i. count_line (Suc i) (int i)) [0..<Suc (below a x)], if a ! below a x = x then int (below a x) else -1)
     else Inl DivByZero)"
proof -
  let ?b = "below a x"
  have "interpolate fuel a x (int low) (int (length a) - 1) low =
      (if Suc ?b < length a then Inr (map (\<lambda>i. count_line (Suc i) (int i)) [low..<Suc ?b], if a ! ?b = x then int ?b else -1) else Inl DivByZero)"
    if "low \<le> ?b" "low < length a" "length a < low + fuel" for low fuel
    using that
  proof (induction fuel arbitrary: low)
    case (Suc fuel)
    show ?case
    proof (cases "Suc low < length a")
      case True
      note step = interpolate_step [OF assms(1-3) True, of fuel]
      show ?thesis
      proof (cases "low = ?b")
        case stop: True
        obtain f where "fuel = Suc f" using Suc.prems True by (cases fuel) auto
        then show ?thesis using step stop True below_stop [of a x] by (cases "a ! low = x") auto
      next
        case False
        then have "low < ?b" using Suc.prems by simp
        then show ?thesis using step Suc.IH [of "Suc low"] Suc.prems True below_less [of low a x] by (auto simp: upt_conv_Cons)
      qed
    next
      case False
      then have "int (length a) - 1 = int low" "\<not> Suc ?b < length a" using Suc.prems by auto
      then show ?thesis using Suc.prems by (simp add: rd_nat c_int_defs)
    qed
  qed simp
  from this [of 0 fuel] show ?thesis using assms(4,5) by (simp add: interpolation_search_def)
qed

section \<open>Repeated values\<close>

lemma dup_from_sound:
  assumes "0 \<le> i" "i \<le> int (length arr)" "\<forall>y \<in> set arr. 0 \<le> y \<and> y < int (length arr)"
  shows "\<exists>r arr'. dup_from arr (int (length arr)) i = Inr (r, arr') \<and> mset arr' = mset arr \<and> (r = 0 \<or> r = 1 \<and> \<not> distinct arr)"
  using assms
proof (induction "nat (int (length arr) - i)" arbitrary: arr i)
  case 0
  then show ?case by (subst dup_from.simps) simp
next
  case (Suc d)
  then obtain k where k: "i = int k" "k < length arr" by (metis Suc_neq_Zero diff_gt_0_iff_gt nonneg_int_cases nat_eq_iff2 of_nat_less_iff zero_less_iff_neq_zero zero_less_nat_eq)
  obtain m where m: "arr ! k = int m" "m < length arr"
    using Suc.prems(3) k(2) nth_mem [OF k(2)] by (metis nonneg_int_cases of_nat_less_iff)
  have step: "dup_from arr (int (length arr)) i = (if m \<noteq> k then if arr ! m = int m then Inr (1, arr)
      else dup_from (arr[m := int m, k := arr ! m]) (int (length arr)) (i + 1) else dup_from arr (int (length arr)) (i + 1))"
    using k m by (subst dup_from.simps) (simp add: rd_nat wr_nat)
  have rest: "d = nat (int (length arr) - (i + 1))" "0 \<le> i + 1" "i + 1 \<le> int (length arr)" using Suc.hyps(2) k by auto
  consider "m = k" | "m \<noteq> k" "arr ! m = int m" | "m \<noteq> k" "arr ! m \<noteq> int m" by blast
  then show ?case
  proof cases
    case 1
    then show ?thesis using step Suc.hyps(1) [OF rest(1) rest(2,3) Suc.prems(3)] by simp
  next
    case 2
    then have "\<not> distinct arr" using k m nth_eq_iff_index_eq [of arr m k] by auto
    then show ?thesis using step 2 by auto
  next
    case 3
    let ?b = "arr[m := int m, k := arr ! m]"
    have "mset ?b = mset arr" using mset_swap [of k arr m] k m by (simp add: list_update_swap)
    moreover from this have "set ?b = set arr" by (rule mset_eq_setD)
    moreover have "distinct ?b = distinct arr" using calculation(1) by (metis distinct_count_atmost_1 set_mset_mset mset_eq_imp_distinct_iff)
    ultimately show ?thesis using step 3 Suc.hyps(1) [of ?b "i + 1"] rest Suc.prems(3) by auto
  qed
qed

text \<open>
  The search for a repeated value, on an array of \<open>n\<close> values from 0 to \<open>n - 1\<close>, stays inside the
  array and never reports a repetition that is not there; but it can miss one, since a value that
  was exchanged into a place is not looked at again.
\<close>

theorem findDuplication_one_sided:
  assumes "\<forall>y \<in> set arr. 0 \<le> y \<and> y < int (length arr)"
  shows "findDuplication arr (int (length arr)) \<in> {Inr 0, Inr 1} \<and>
    (findDuplication arr (int (length arr)) = Inr 1 \<longrightarrow> \<not> distinct arr) \<and> findDuplication [1, 2, 2] 3 = Inr 0"
proof -
  have "findDuplication [1, 2, 2] 3 = Inr 0" by (simp add: findDuplication_def dup_from.simps rd_def wr_def)
  then show ?thesis using dup_from_sound [of 0 arr] assms by (auto simp: findDuplication_def)
qed

lemma outputs:
  "matrix_main = Inr (line ''1 3 5 '' @ line ''7 9 11 '' @ line ''13 15 17 '' @ line ''3 6'')"
  "duplication_main = Inr (line ''0'')"
  by code_simp+

section \<open>Witnesses\<close>

theorem binary_search_correct_witness:
  "\<exists>out r. binary_search [10, 14, 19, 27] 4 19 = Inr (out, r) \<and> length out \<le> 3 \<and> r = 2"
proof -
  from binary_search_correct [of "[10, 14, 19, 27]" 19] obtain out r where b: "binary_search [10, 14, 19, 27] 4 19 = Inr (out, r)"
    "length out \<le> floorlog 2 4" "0 \<le> r" "r < 4" "[10, 14, 19, 27 :: int] ! nat r = 19" by (auto simp: eval_nat_numeral)
  have "r = 0 \<or> r = 1 \<or> r = 2 \<or> r = 3" using b(3,4) by presburger
  moreover have "floorlog 2 4 = 3" by (simp add: compute_floorlog)
  ultimately show ?thesis using b by auto
qed

theorem searchMatrix_correct_witness: "\<exists>r. searchMatrix [[1, 3], [5, 7]] 2 2 4 = Inr r \<and> r = -1"
  using searchMatrix_correct [of "[[1, 3], [5, 7]]" 2 4] by (simp add: INT_MAX_def)

theorem interpolation_is_linear_witness:
  "interpolation_search 10 [10, 14, 19, 27] 4 14 = Inr ([count_line 1 0, count_line 2 1], 1) \<and> interpolation_search 10 [10, 14, 19, 27] 4 27 = Inl DivByZero"
  using interpolation_is_linear [of "[10, 14, 19, 27]" 14 10] interpolation_is_linear [of "[10, 14, 19, 27]" 27 10]
  by (simp add: gapped_def below_def nth_Cons' less_Suc_eq upt_rec numeral_2_eq_2)

theorem findDuplication_one_sided_witness: "findDuplication [0, 0] 2 \<in> {Inr 0, Inr 1} \<and> findDuplication [1, 2, 2] 3 = Inr 0"
  using findDuplication_one_sided [of "[0, 0]"] by simp

end
