(* ===== verification/Cpp_Stack.thy ===== *)
theory Cpp_Stack
  imports C_Text
begin

text \<open>
  \<^verbatim>\<open>c++/include/stack.h\<close>, \<^verbatim>\<open>c++/src/stack.cpp\<close> and \<^verbatim>\<open>c++/src/hanoi_tower.cpp\<close>: the array stack and the
  towers of Hanoi on three such stacks. The locale \<open>bounded_stack\<close> is what a client of the class may
  rely on; the class meets it, and the tower program is verified against it: the tower is moved, every
  intermediate position is legal, and the number of moves is one less than a power of two.
\<close>

section \<open>The class Stack\<close>

record stk =
  top :: int
  capacity :: int
  cells :: "int option list"
  sid :: "int option"

text \<open>\<^verbatim>\<open>new int[cap]\<close> throws for a negative size, which ends the program; the elements are not
  initialised, nor is \<^verbatim>\<open>id\<close> by the first constructor. The constructor without arguments creates
  and drops a temporary: the members of the object itself stay indeterminate (\<open>None\<close>).\<close>

definition Stack_cap :: "int \<Rightarrow> stk cres" where
  "Stack_cap cap = (if cap < 0 then Inl (ExitProcess 134)
     else Inr \<lparr>top = -1, capacity = cap, cells = replicate (nat cap) None, sid = None\<rparr>)"

definition Stack_id :: "int \<Rightarrow> int \<Rightarrow> stk cres" where
  "Stack_id cap stack_id = bindE (Stack_cap cap) (\<lambda>s. Inr (s\<lparr>sid := Some stack_id\<rparr>))"

definition Stack_default :: "stk option cres" where
  "Stack_default = bindE (Stack_cap 5) (\<lambda>temporary. Inr None)"

text \<open>An operation returns the lines it prints.\<close>

definition push :: "int \<Rightarrow> stk \<Rightarrow> (string list \<times> stk) cres" where
  "push value' s =
     (if top s = capacity s - 1 then Inr ([line ''stack is full''], s)
      else bindE (wr (cells s) (top s + 1) (Some value')) (\<lambda>c. Inr ([], s\<lparr>top := top s + 1, cells := c\<rparr>)))"

definition rd_elem :: "int option list \<Rightarrow> int \<Rightarrow> int cres" where
  "rd_elem c i = bindE (rd c i) (\<lambda>v. case v of None \<Rightarrow> Inl UninitRead | Some x \<Rightarrow> Inr x)"

definition pop :: "stk \<Rightarrow> (string list \<times> int \<times> stk) cres" where
  "pop s =
     (if top s < 0 then Inr ([line ''stack is empty''], -1, s)
      else bindE (rd_elem (cells s) (top s)) (\<lambda>v. Inr ([], v, s\<lparr>top := top s - 1\<rparr>)))"

definition peek :: "stk \<Rightarrow> int cres" where
  "peek s = rd_elem (cells s) (top s)"

definition is_empty :: "stk \<Rightarrow> bool" where
  "is_empty s \<longleftrightarrow> top s = -1"

definition display :: "stk \<Rightarrow> string cres" where
  "display s =
     (if \<not> is_empty s
      then bindE (mapE (\<lambda>i. rd_elem (cells s) (int i)) [0..<nat (top s + 1)]) (\<lambda>xs. Inr (line (concat (map (\<lambda>x. dec_int x @ '' | '') xs))))
      else Inr (line ''''))"

section \<open>The towers of Hanoi\<close>

text \<open>What the program does, one after the other: a message of the class, or a move with the
  three stacks (source, destination, auxiliary) as they are displayed after it.\<close>

datatype event = Said string | Moved int stk stk stk

definition move_shown :: "int \<Rightarrow> stk \<Rightarrow> stk \<Rightarrow> stk \<Rightarrow> string cres" where
  "move_shown v src dest aux =
     (let nr = (\<lambda>s. case sid s of None \<Rightarrow> Inl UninitRead | Some i \<Rightarrow> Inr (dec_int i)) in
      bindE (nr src) (\<lambda>i. bindE (nr dest) (\<lambda>j. bindE (nr aux) (\<lambda>k.
      bindE (display src) (\<lambda>x. bindE (display dest) (\<lambda>y. bindE (display aux) (\<lambda>z.
      Inr (line (''Move '' @ dec_int v @ '' from '' @ i @ '' to '' @ j) @
           ''Src '' @ i @ '' : '' @ x @ ''Dst '' @ j @ '' : '' @ y @ ''Aux '' @ k @ '' : '' @ z))))))))"

definition event_shown :: "event \<Rightarrow> string cres" where
  "event_shown e = (case e of Said s \<Rightarrow> Inr s | Moved v src dest aux \<Rightarrow> move_shown v src dest aux)"

text \<open>The recursion for disk numbers, which are not negative. The stacks are passed by reference: the
  function returns them in the order source, destination, auxiliary. The smallest disk is announced
  with the value taken from the stack, the others with the number of the call.\<close>

fun move_disk :: "nat \<Rightarrow> stk \<times> stk \<times> stk \<Rightarrow> (event list \<times> stk \<times> stk \<times> stk) cres" where
  "move_disk 0 (src, dest, aux) =
     bindE (pop src) (\<lambda>(m1, value', src).
     bindE (push value' dest) (\<lambda>(m2, dest).
     Inr (map Said (m1 @ m2) @ [Moved value' src dest aux], src, dest, aux)))"
| "move_disk (Suc disk) (src, dest, aux) =
     bindE (move_disk disk (src, aux, dest)) (\<lambda>(e1, src, aux, dest).
     bindE (pop src) (\<lambda>(m1, value', src).
     bindE (push value' dest) (\<lambda>(m2, dest).
     let e = map Said (m1 @ m2) @ [Moved (int (Suc disk)) src dest aux] in
     bindE (move_disk disk (aux, dest, src)) (\<lambda>(e2, aux, dest, src).
     Inr (e1 @ e @ e2, src, dest, aux)))))"

text \<open>\<^verbatim>\<open>main\<close> for any number of disks; the program has five, written out as five calls of \<^verbatim>\<open>push\<close>.\<close>

definition hanoi_tower :: "nat \<Rightarrow> (event list \<times> stk \<times> stk \<times> stk) cres" where
  "hanoi_tower number_disks =
     bindE (Stack_id (int number_disks) 1) (\<lambda>src.
     bindE (Stack_id (int number_disks) 2) (\<lambda>dst.
     bindE (Stack_id (int number_disks) 3) (\<lambda>aux.
     bindE (foldE (\<lambda>v (out, s). bindE (push (int v) s) (\<lambda>(m, s). Inr (out @ m, s))) (rev [0..<number_disks]) ([], src)) (\<lambda>(m, src).
     bindE (move_disk (number_disks - 1) (src, dst, aux)) (\<lambda>(evs, r). Inr (map Said m @ evs, r))))))"

definition hanoi_main :: "string list cres" where
  "hanoi_main = bindE (hanoi_tower 5) (\<lambda>(evs, r). mapE event_shown evs)"

section \<open>The contract of a stack\<close>

datatype stack_op = Push int | Pop

fun run_stack :: "(int \<Rightarrow> 's \<Rightarrow> (string list \<times> 's) cres) \<Rightarrow> ('s \<Rightarrow> (string list \<times> int \<times> 's) cres) \<Rightarrow> stack_op list \<Rightarrow> 's \<Rightarrow> (int list \<times> 's) cres" where
  "run_stack psh pp [] s = Inr ([], s)"
| "run_stack psh pp (Push v # ops) s = bindE (psh v s) (\<lambda>(m, s). run_stack psh pp ops s)"
| "run_stack psh pp (Pop # ops) s = bindE (pp s) (\<lambda>(m, v, s). bindE (run_stack psh pp ops s) (\<lambda>(vs, s). Inr (v # vs, s)))"

text \<open>A stack as a list with its last element on top: pushes beyond the capacity are refused, a pop of the
  empty stack gives -1.\<close>

fun spec_stack :: "nat \<Rightarrow> stack_op list \<Rightarrow> int list \<Rightarrow> int list \<times> int list" where
  "spec_stack n [] xs = ([], xs)"
| "spec_stack n (Push v # ops) xs = spec_stack n ops (if length xs < n then xs @ [v] else xs)"
| "spec_stack n (Pop # ops) xs =
     (if xs = [] then let (vs, ys) = spec_stack n ops [] in (-1 # vs, ys)
      else let (vs, ys) = spec_stack n ops (butlast xs) in (last xs # vs, ys))"

locale bounded_stack =
  fixes psh :: "int \<Rightarrow> 's \<Rightarrow> (string list \<times> 's) cres" and pp :: "'s \<Rightarrow> (string list \<times> int \<times> 's) cres"
    and ok :: "nat \<Rightarrow> 'i \<Rightarrow> 's \<Rightarrow> bool" and view :: "'s \<Rightarrow> int list"
  assumes psh_room: "ok n i s \<Longrightarrow> length (view s) < n \<Longrightarrow> \<exists>s'. psh v s = Inr ([], s') \<and> ok n i s' \<and> view s' = view s @ [v]"
    and psh_full: "ok n i s \<Longrightarrow> length (view s) = n \<Longrightarrow> \<exists>m. psh v s = Inr (m, s)"
    and pp_top: "ok n i s \<Longrightarrow> view s = xs @ [v] \<Longrightarrow> \<exists>s'. pp s = Inr ([], v, s') \<and> ok n i s' \<and> view s' = xs"
    and pp_empty: "ok n i s \<Longrightarrow> view s = [] \<Longrightarrow> \<exists>m. pp s = Inr (m, -1, s)"
    and room: "ok n i s \<Longrightarrow> length (view s) \<le> n"
begin

lemma run_refines:
  "ok n i s \<Longrightarrow> \<exists>vs s'. run_stack psh pp ops s = Inr (vs, s') \<and> ok n i s' \<and> (vs, view s') = spec_stack n ops (view s)"
proof (induction ops arbitrary: s)
  case (Cons op ops)
  show ?case
  proof (cases op)
    case (Push v)
    show ?thesis
    proof (cases "length (view s) < n")
      case True
      then obtain s1 where s1: "psh v s = Inr ([], s1)" "ok n i s1" "view s1 = view s @ [v]" using psh_room [OF Cons.prems] by blast
      then show ?thesis using Cons.IH [OF s1(2)] Push True by simp
    next
      case False
      then obtain m where "psh v s = Inr (m, s)" using psh_full [OF Cons.prems] room [OF Cons.prems] by (metis nat_less_le)
      then show ?thesis using Cons.IH [OF Cons.prems] Push False by simp
    qed
  next
    case Pop
    show ?thesis
    proof (cases "view s" rule: rev_cases)
      case Nil
      then obtain m where "pp s = Inr (m, -1, s)" using pp_empty [OF Cons.prems] by blast
      then show ?thesis using Cons.IH [OF Cons.prems] Pop Nil by (auto split: prod.splits)
    next
      case (snoc xs v)
      then obtain s1 where s1: "pp s = Inr ([], v, s1)" "ok n i s1" "view s1 = xs" using pp_top [OF Cons.prems] by blast
      then show ?thesis using Cons.IH [OF s1(2)] Pop snoc by (auto split: prod.splits)
    qed
  qed
qed simp

end

section \<open>The class meets the contract\<close>

definition items :: "stk \<Rightarrow> int list" where
  "items s = map the (take (nat (top s + 1)) (cells s))"

definition stack_ok :: "nat \<Rightarrow> int option \<Rightarrow> stk \<Rightarrow> bool" where
  "stack_ok n i s \<longleftrightarrow> capacity s = int n \<and> sid s = i \<and> length (cells s) = n \<and> -1 \<le> top s \<and> top s < int n \<and>
     (\<forall>k. int k \<le> top s \<longrightarrow> cells s ! k \<noteq> None)"

lemma items_length: "stack_ok n i s \<Longrightarrow> length (items s) = nat (top s + 1)"
  by (auto simp: items_def stack_ok_def)

lemma items_nth: "stack_ok n i s \<Longrightarrow> int k \<le> top s \<Longrightarrow> rd_elem (cells s) (int k) = Inr (items s ! k)"
  by (auto simp: stack_ok_def items_def rd_elem_def rd_def split: option.split)

interpretation array_stack: bounded_stack push pop stack_ok items
proof
  fix n i s v assume ok: "stack_ok n i s"
  let ?t = "nat (top s + 1)"
  show "length (items s) \<le> n" using ok items_length [OF ok] by (auto simp: stack_ok_def)
  show "\<exists>m. push v s = Inr (m, s)" if "length (items s) = n"
    using that ok items_length [OF ok] by (auto simp: push_def stack_ok_def)
  show "\<exists>m. pop s = Inr (m, -1, s)" if "items s = []"
    using that ok items_length [OF ok] by (auto simp: pop_def stack_ok_def)
  show "\<exists>s'. push v s = Inr ([], s') \<and> stack_ok n i s' \<and> items s' = items s @ [v]" if "length (items s) < n"
  proof -
    have t: "?t < n" "int ?t = top s + 1" using that ok items_length [OF ok] by (auto simp: stack_ok_def)
    let ?s = "s\<lparr>top := top s + 1, cells := (cells s)[?t := Some v]\<rparr>"
    have "wr (cells s) (top s + 1) (Some v) = Inr ((cells s)[?t := Some v])" using t ok by (auto simp: wr_def stack_ok_def)
    then have "push v s = Inr ([], ?s)" using t ok by (auto simp: push_def stack_ok_def)
    moreover have "stack_ok n i ?s" using t ok by (auto simp: stack_ok_def nth_list_update)
    moreover have "items ?s = items s @ [v]"
    proof -
      have "nat (top s + 1 + 1) = Suc ?t" using t by linarith
      then show ?thesis using t ok by (simp add: items_def stack_ok_def take_Suc_conv_app_nth)
    qed
    ultimately show ?thesis by blast
  qed
  fix xs
  show "\<exists>s'. pop s = Inr ([], v, s') \<and> stack_ok n i s' \<and> items s' = xs" if xs: "items s = xs @ [v]"
  proof -
    have t: "?t = Suc (length xs)" using xs items_length [OF ok] by simp
    then have top: "top s = int (length xs)" by simp
    have "rd_elem (cells s) (top s) = Inr v" using items_nth [OF ok, of "length xs"] xs top by simp
    then have "pop s = Inr ([], v, s\<lparr>top := top s - 1\<rparr>)" using top by (simp add: pop_def)
    moreover have "stack_ok n i (s\<lparr>top := top s - 1\<rparr>)" using ok top by (auto simp: stack_ok_def)
    moreover have "items (s\<lparr>top := top s - 1\<rparr>) = butlast (items s)"
    proof -
      have "nat (top s + 1) = Suc (length xs)" "Suc (length xs) \<le> length (cells s)" using ok top by (auto simp: stack_ok_def)
      then show ?thesis using top by (simp add: items_def map_butlast [symmetric] butlast_take)
    qed
    ultimately show ?thesis using xs by auto
  qed
qed

lemma Stack_id_ok: "\<exists>s. Stack_id (int n) i = Inr s \<and> stack_ok n (Some i) s \<and> items s = []"
  by (auto simp: Stack_id_def Stack_cap_def stack_ok_def items_def)

lemma Stack_cap_ok: "\<exists>s. Stack_cap (int n) = Inr s \<and> stack_ok n None s \<and> items s = []"
  by (auto simp: Stack_cap_def stack_ok_def items_def)

text \<open>
  A stack behaves as a bounded list for every sequence of pushes and pops on a new object of any
  capacity: no access is out of bounds or of an uninitialised element, pops return the values in
  the reverse order of the pushes, pushes beyond the capacity are refused, and popping the empty
  stack gives -1.
\<close>

theorem stack_refines_list:
  "\<exists>s vs s'. Stack_cap (int n) = Inr s \<and> run_stack push pop ops s = Inr (vs, s') \<and> (vs, items s') = spec_stack n ops []"
proof -
  obtain s where s: "Stack_cap (int n) = Inr s" "stack_ok n None s" "items s = []" using Stack_cap_ok by blast
  from array_stack.run_refines [OF s(2), of ops] s(3) obtain vs s' where
      "run_stack push pop ops s = Inr (vs, s')" "(vs, items s') = spec_stack n ops []" by metis
  with s(1) show ?thesis by blast
qed

section \<open>The tower is moved\<close>

definition disks :: "nat \<Rightarrow> int list" where
  "disks n = map int (rev [0..<n])"

lemma disks_simps [simp]: "disks 0 = []" "disks (Suc n) = int n # disks n" "length (disks n) = n"
  by (simp_all add: disks_def)

lemma set_disks [simp]: "set (disks n) = {0..<int n}"
  by (induction n) auto

lemma disks_decrease [simp]: "sorted_wrt (>) (disks n)"
  by (induction n) auto

text \<open>A position is legal when no stack has a disk on top of a smaller one.\<close>

definition legal :: "stk \<Rightarrow> bool" where
  "legal s \<longleftrightarrow> sorted_wrt (>) (items s)"

fun legal_event :: "event \<Rightarrow> bool" where
  "legal_event (Said m) \<longleftrightarrow> False"
| "legal_event (Moved v src dest aux) \<longleftrightarrow> legal src \<and> legal dest \<and> legal aux \<and> items dest \<noteq> [] \<and> last (items dest) = v"

text \<open>A peg under the tower: larger disks in a legal order.\<close>

definition base :: "nat \<Rightarrow> int list \<Rightarrow> bool" where
  "base d xs \<longleftrightarrow> sorted_wrt (>) xs \<and> (\<forall>x \<in> set xs. int d < x)"

lemma base_less: "base (Suc d) xs \<Longrightarrow> base d xs"
  by (auto simp: base_def)

lemma base_snoc: "base (Suc d) xs \<Longrightarrow> base d (xs @ [1 + int d])"
  by (auto simp: base_def sorted_wrt_append)

lemma move_top:
  assumes "stack_ok n i src" "items src = bs @ [v]" "stack_ok n j dest" "length (items dest) < n"
  shows "\<exists>src' dest'. pop src = Inr ([], v, src') \<and> push v dest = Inr ([], dest') \<and>
    stack_ok n i src' \<and> stack_ok n j dest' \<and> items src' = bs \<and> items dest' = items dest @ [v]"
  using array_stack.pp_top [OF assms(1,2)] array_stack.psh_room [OF assms(3,4), of v] by blast

lemma move_disk_correct:
  assumes "stack_ok n i src" "stack_ok n j dest" "stack_ok n k aux"
    and "items src = bs @ disks (Suc d)" "length (items dest) + Suc d \<le> n" "length (items aux) + d \<le> n"
    and "base d bs" "base d (items dest)" "base d (items aux)"
  shows "\<exists>evs src' dest' aux'. move_disk d (src, dest, aux) = Inr (evs, src', dest', aux') \<and>
    stack_ok n i src' \<and> stack_ok n j dest' \<and> stack_ok n k aux' \<and>
    items src' = bs \<and> items dest' = items dest @ disks (Suc d) \<and> items aux' = items aux \<and>
    length evs + 1 = 2 ^ Suc d \<and> (\<forall>e \<in> set evs. legal_event e)"
  using assms
proof (induction d arbitrary: i j k src dest aux bs)
  case 0
  obtain src' dest' where m: "pop src = Inr ([], 0, src')" "push 0 dest = Inr ([], dest')" "stack_ok n i src'" "stack_ok n j dest'"
      "items src' = bs" "items dest' = items dest @ [0]"
    using move_top [OF 0(1) _ 0(2), of bs 0] 0(4,5) by auto
  then show ?case using 0 by (auto simp: legal_def base_def sorted_wrt_append)
next
  case (Suc d)
  have src: "items src = (bs @ [int (Suc d)]) @ disks (Suc d)" using Suc.prems(4) by simp
  obtain e1 src1 aux1 dest1 where one: "move_disk d (src, aux, dest) = Inr (e1, src1, aux1, dest1)"
      "stack_ok n i src1" "stack_ok n k aux1" "stack_ok n j dest1" "items src1 = bs @ [int (Suc d)]"
      "items aux1 = items aux @ disks (Suc d)" "items dest1 = items dest" "length e1 + 1 = 2 ^ Suc d" "\<forall>e \<in> set e1. legal_event e"
    using Suc.IH [OF Suc.prems(1,3,2) src] Suc.prems(5-9) base_snoc base_less by auto
  have "length (items dest1) < n" using Suc.prems(5) one(7) by simp
  from move_top [OF one(2,5,4) this] obtain src2 dest2 where m: "pop src1 = Inr ([], int (Suc d), src2)"
      "push (int (Suc d)) dest1 = Inr ([], dest2)" "stack_ok n i src2" "stack_ok n j dest2" "items src2 = bs" "items dest2 = items dest @ [int (Suc d)]"
    using one(7) by auto
  obtain e2 aux3 dest3 src3 where two: "move_disk d (aux1, dest2, src2) = Inr (e2, aux3, dest3, src3)"
      "stack_ok n k aux3" "stack_ok n j dest3" "stack_ok n i src3" "items aux3 = items aux"
      "items dest3 = items dest2 @ disks (Suc d)" "items src3 = items src2" "length e2 + 1 = 2 ^ Suc d" "\<forall>e \<in> set e2. legal_event e"
    using Suc.IH [OF one(3) m(4,3) one(6)] m(5,6) Suc.prems(4-9) array_stack.room [OF Suc.prems(1)] base_snoc base_less by auto
  have mid: "legal_event (Moved (int (Suc d)) src2 dest2 aux1)"
    using m(5,6) one(6) Suc.prems(7-9) by (auto simp: legal_def base_def sorted_wrt_append)
  have "move_disk (Suc d) (src, dest, aux) = Inr (e1 @ [Moved (int (Suc d)) src2 dest2 aux1] @ e2, src3, dest3, aux3)"
    using one(1) m(1,2) two(1) by simp
  moreover have "length (e1 @ [Moved (int (Suc d)) src2 dest2 aux1] @ e2) + 1 = 2 ^ Suc (Suc d)" using one(8) two(8) by simp
  ultimately show ?case using one(9) two mid m(5,6) by fastforce
qed

lemma push_disks:
  assumes "stack_ok n i s" "length (items s) + length vs \<le> n"
  shows "\<exists>s'. foldE (\<lambda>v (out, s). bindE (push (int v) s) (\<lambda>(m, s). Inr (out @ m, s))) vs ([], s) = Inr ([], s') \<and>
    stack_ok n i s' \<and> items s' = items s @ map int vs"
  using assms
proof (induction vs arbitrary: s)
  case (Cons v vs)
  have room: "length (items s) < n" using Cons.prems(2) by simp
  obtain s1 where s1: "push (int v) s = Inr ([], s1)" "stack_ok n i s1" "items s1 = items s @ [int v]"
    using array_stack.psh_room [OF Cons.prems(1) room] by blast
  show ?case using Cons.IH [OF s1(2)] Cons.prems(2) s1 by simp
qed simp

text \<open>
  C30. The program moves a tower of any height: in the end all disks are on the second stack, in order.
  It takes \<open>2 ^ n - 1\<close> moves, after each of which no stack has a disk on a smaller one and the disk
  announced is the one on top of its destination; no stack overflows or is popped when empty.
\<close>

theorem hanoi_moves_tower:
  assumes "0 < n"
  shows "\<exists>evs src dst aux. hanoi_tower n = Inr (evs, src, dst, aux) \<and>
    items src = [] \<and> items dst = disks n \<and> items aux = [] \<and> length evs + 1 = 2 ^ n \<and> list_all legal_event evs"
proof -
  obtain s1 s2 s3 where new: "Stack_id (int n) 1 = Inr s1" "stack_ok n (Some 1) s1" "items s1 = []"
      "Stack_id (int n) 2 = Inr s2" "stack_ok n (Some 2) s2" "items s2 = []"
      "Stack_id (int n) 3 = Inr s3" "stack_ok n (Some 3) s3" "items s3 = []"
    using Stack_id_ok [of n 1] Stack_id_ok [of n 2] Stack_id_ok [of n 3] by blast
  obtain s where s: "foldE (\<lambda>v (out, s). bindE (push (int v) s) (\<lambda>(m, s). Inr (out @ m, s))) (rev [0..<n]) ([], s1) = Inr ([], s)"
      "stack_ok n (Some 1) s" "items s = disks n"
    using push_disks [OF new(2), of "rev [0..<n]"] new(3) by (auto simp: disks_def)
  have n: "Suc (n - 1) = n" using assms by simp
  show ?thesis
    using move_disk_correct [OF s(2) new(5,8), of "[]" "n - 1"] new s assms unfolding n by (auto simp: hanoi_tower_def base_def list_all_iff)
qed

text \<open>The program runs through, with 31 moves, and this is how the first one is shown.\<close>

lemma hanoi_main_runs:
  "map_sum id (\<lambda>out. (length out, hd out)) hanoi_main =
     Inr (31, line ''Move 0 from 1 to 2'' @ ''Src 1 : '' @ line ''4 | 3 | 2 | 1 | '' @ ''Dst 2 : '' @ line ''0 | '' @ ''Aux 3 : '' @ line '''')"
  by code_simp

section \<open>Witness\<close>

theorem hanoi_moves_tower_witness:
  "\<exists>evs src dst aux. hanoi_tower 5 = Inr (evs, src, dst, aux) \<and> items dst = [4, 3, 2, 1, 0] \<and> length evs = 31"
  using hanoi_moves_tower [of 5] by (fastforce simp: disks_def upt_rec)

end
