(* ===== verification/Cpp_Graph.thy ===== *)
theory Cpp_Graph
  imports Cpp_Stack "HOL-Library.Multiset"
begin

text \<open>
  \<^verbatim>\<open>c++/src/graph.cpp\<close>: a graph over an adjacency matrix with depth-first and breadth-first search. The
  two searches are the same loop over a container, the stack of \<open>Cpp_Stack\<close> or the queue of this
  file; the locale \<open>worklist\<close> states what the loop needs of its container. The constructor
  leaves the matrix uninitialised. Both searches print exactly the vertices that can be reached, each once, if every entry in the rows of these vertices was set,
  and read an indeterminate value otherwise; since the class only ever stores ones, that is so for every graph in which two vertices are not adjacent.
\<close>

section \<open>The class Queue\<close>

text \<open>\<^verbatim>\<open>head\<close> is never used. As for the stack, the constructor without arguments initialises a
  temporary only.\<close>

record queue =
  tail :: int
  q_cells :: "int option list"
  q_capacity :: int

definition Queue_cap :: "int \<Rightarrow> queue cres" where
  "Queue_cap cap = (if cap < 0 then Inl (ExitProcess 134) else Inr \<lparr>tail = -1, q_cells = replicate (nat cap) None, q_capacity = cap\<rparr>)"

definition Queue_default :: "queue option cres" where
  "Queue_default = bindE (Queue_cap 5) (\<lambda>temporary. Inr None)"

definition q_is_full :: "queue \<Rightarrow> bool" where
  "q_is_full q \<longleftrightarrow> tail q = q_capacity q - 1"

definition q_is_empty :: "queue \<Rightarrow> bool" where
  "q_is_empty q \<longleftrightarrow> tail q = -1"

definition enqueue :: "int \<Rightarrow> queue \<Rightarrow> (string list \<times> queue) cres" where
  "enqueue value' q =
     (if q_is_full q then Inr ([line ''queue is full''], q)
      else bindE (wr (q_cells q) (tail q + 1) (Some value')) (\<lambda>c. Inr ([], q\<lparr>tail := tail q + 1, q_cells := c\<rparr>)))"

definition dequeue :: "queue \<Rightarrow> (string list \<times> int \<times> queue) cres" where
  "dequeue q =
     (if q_is_empty q then Inr ([line ''queue is empty''], -1, q)
      else
        bindE (rd_elem (q_cells q) 0) (\<lambda>ret.
        bindE (foldE (\<lambda>i c. bindE (rd_elem c (int i + 1)) (\<lambda>x. wr c (int i) (Some x))) [0..<nat (tail q)] (q_cells q)) (\<lambda>c.
        Inr ([], ret, q\<lparr>tail := tail q - 1, q_cells := c\<rparr>))))"

definition q_peek :: "queue \<Rightarrow> int cres" where
  "q_peek q = rd_elem (q_cells q) 0"

section \<open>The class Graph\<close>

text \<open>A vertex is its label and its mark; the vertices of a new array and the entries of a new matrix
  are indeterminate.\<close>

record vertex =
  label :: char
  visited :: bool

record graph =
  vertices :: "vertex option list"
  adjMatrix :: "int option list list"
  vertex_count :: int
  g_capacity :: int

definition Graph_new :: "int \<Rightarrow> graph cres" where
  "Graph_new n = (if n < 0 then Inl (ExitProcess 134)
     else Inr \<lparr>vertices = replicate (nat n) None, adjMatrix = replicate (nat n) (replicate (nat n) None), vertex_count = 0, g_capacity = n\<rparr>)"

definition addVertex :: "char \<Rightarrow> graph \<Rightarrow> graph cres" where
  "addVertex lab g =
     bindE (wr (vertices g) (vertex_count g) (Some \<lparr>label = lab, visited = False\<rparr>)) (\<lambda>vs.
     Inr (g\<lparr>vertices := vs, vertex_count := vertex_count g + 1\<rparr>))"

definition set_entry :: "int \<Rightarrow> int \<Rightarrow> int option list list \<Rightarrow> int option list list cres" where
  "set_entry i j m = bindE (rd m i) (\<lambda>row. bindE (wr row j (Some 1)) (\<lambda>row. wr m i row))"

definition addEdge :: "int \<Rightarrow> int \<Rightarrow> graph \<Rightarrow> graph cres" where
  "addEdge start stop g =
     bindE (set_entry start stop (adjMatrix g)) (\<lambda>m. bindE (set_entry stop start m) (\<lambda>m. Inr (g\<lparr>adjMatrix := m\<rparr>)))"

definition rd_vertex :: "graph \<Rightarrow> int \<Rightarrow> vertex cres" where
  "rd_vertex g i = bindE (rd (vertices g) i) (\<lambda>v. case v of None \<Rightarrow> Inl UninitRead | Some x \<Rightarrow> Inr x)"

function adj_unvisited :: "graph \<Rightarrow> int \<Rightarrow> int \<Rightarrow> int cres" where
  "adj_unvisited g v i =
     (if i < vertex_count g then
        bindE (rd (adjMatrix g) v) (\<lambda>row. bindE (rd_elem row i) (\<lambda>e.
        if e = 1 then bindE (rd_vertex g i) (\<lambda>x. if visited x = False then Inr i else adj_unvisited g v (i + 1))
        else adj_unvisited g v (i + 1)))
      else Inr (-1))"
  by pat_completeness auto
termination
  by (relation "measure (\<lambda>(g, v, i). nat (vertex_count g - i))") auto

declare adj_unvisited.simps [simp del]

definition getAdjUnvisitedVertex :: "graph \<Rightarrow> int \<Rightarrow> int cres" where
  "getAdjUnvisitedVertex g virtexIndex = adj_unvisited g virtexIndex 0"

text \<open>\<^verbatim>\<open>vertices[i].visited = true; vertices[i].display();\<close>\<close>

definition visit :: "int \<Rightarrow> graph \<Rightarrow> (string \<times> graph) cres" where
  "visit i g =
     bindE (rd_vertex g i) (\<lambda>x. bindE (wr (vertices g) i (Some (x\<lparr>visited := True\<rparr>))) (\<lambda>vs.
     Inr ([label x] @ '' '', g\<lparr>vertices := vs\<rparr>)))"

text \<open>The loop of both searches, over the operations of the container: \<^verbatim>\<open>push\<close> or
  \<^verbatim>\<open>enqueue\<close>, \<^verbatim>\<open>pop\<close> or \<^verbatim>\<open>dequeue\<close>, \<^verbatim>\<open>peek\<close> and \<^verbatim>\<open>is_empty\<close>.\<close>

fun search_loop :: "(int \<Rightarrow> 'w \<Rightarrow> (string list \<times> 'w) cres) \<Rightarrow> ('w \<Rightarrow> (string list \<times> int \<times> 'w) cres) \<Rightarrow> ('w \<Rightarrow> int cres) \<Rightarrow> ('w \<Rightarrow> bool) \<Rightarrow>
    nat \<Rightarrow> string \<Rightarrow> graph \<Rightarrow> 'w \<Rightarrow> (string \<times> graph) cres" where
  "search_loop add del look emp 0 out g w = Inl NoReturn"
| "search_loop add del look emp (Suc fuel) out g w =
     (if emp w then Inr (out, g)
      else
        bindE (look w) (\<lambda>i. bindE (getAdjUnvisitedVertex g i) (\<lambda>j.
        if j \<noteq> -1 then
          bindE (visit j g) (\<lambda>(s, g). bindE (add j w) (\<lambda>(m, w). search_loop add del look emp fuel (out @ s @ concat m) g w))
        else bindE (del w) (\<lambda>(m, v, w). search_loop add del look emp fuel (out @ concat m) g w))))"

definition search_from :: "(int \<Rightarrow> 'w \<Rightarrow> (string list \<times> 'w) cres) \<Rightarrow> ('w \<Rightarrow> (string list \<times> int \<times> 'w) cres) \<Rightarrow> ('w \<Rightarrow> int cres) \<Rightarrow> ('w \<Rightarrow> bool) \<Rightarrow>
    nat \<Rightarrow> graph \<Rightarrow> 'w \<Rightarrow> (string \<times> graph) cres" where
  "search_from add del look emp fuel g w =
     bindE (visit 0 g) (\<lambda>(s, g). bindE (add 0 w) (\<lambda>(m, w). search_loop add del look emp fuel (s @ concat m) g w))"

definition depthFirstSearch :: "nat \<Rightarrow> graph \<Rightarrow> (string \<times> graph) cres" where
  "depthFirstSearch fuel g = bindE (Stack_cap (g_capacity g)) (search_from push pop peek is_empty fuel g)"

definition breadthFirstSearch :: "nat \<Rightarrow> graph \<Rightarrow> (string \<times> graph) cres" where
  "breadthFirstSearch fuel g = bindE (Queue_cap (g_capacity g)) (search_from enqueue dequeue q_peek q_is_empty fuel g)"

definition graph_main :: "nat \<Rightarrow> string cres" where
  "graph_main fuel =
     bindE (Graph_new 5) (\<lambda>g.
     bindE (foldE addVertex ''SABCD'' g) (\<lambda>g.
     bindE (foldE (\<lambda>(i, j). addEdge i j) [(0, 1), (0, 2), (0, 3), (1, 4), (2, 4), (3, 4)] g) (\<lambda>g.
     bindE (depthFirstSearch fuel g) (\<lambda>(out, g). Inr (''Depth First Search '' @ out)))))"

section \<open>What the loop needs of its container\<close>

locale worklist =
  fixes add :: "int \<Rightarrow> 'w \<Rightarrow> (string list \<times> 'w) cres" and del :: "'w \<Rightarrow> (string list \<times> int \<times> 'w) cres"
    and look :: "'w \<Rightarrow> int cres" and emp :: "'w \<Rightarrow> bool" and ok :: "nat \<Rightarrow> 'w \<Rightarrow> bool" and content :: "'w \<Rightarrow> int multiset"
  assumes emp: "ok n w \<Longrightarrow> emp w \<longleftrightarrow> content w = {#}"
    and add: "ok n w \<Longrightarrow> size (content w) < n \<Longrightarrow> \<exists>w'. add v w = Inr ([], w') \<and> ok n w' \<and> content w' = add_mset v (content w)"
    and del: "ok n w \<Longrightarrow> content w \<noteq> {#} \<Longrightarrow> \<exists>v w'. look w = Inr v \<and> v \<in># content w \<and> del w = Inr ([], v, w') \<and> ok n w' \<and>
      content w' = content w - {#v#}"

interpretation stack_list: worklist push pop peek is_empty "\<lambda>n. stack_ok n None" "\<lambda>s. mset (items s)"
proof
  fix n s v assume ok: "stack_ok n None s"
  show "is_empty s \<longleftrightarrow> mset (items s) = {#}"
    using items_length [OF ok] ok by (auto simp: is_empty_def stack_ok_def)
  show "\<exists>s'. push v s = Inr ([], s') \<and> stack_ok n None s' \<and> mset (items s') = add_mset v (mset (items s))" if "size (mset (items s)) < n"
    using array_stack.psh_room [OF ok, of v] that by auto
  show "\<exists>v s'. peek s = Inr v \<and> v \<in># mset (items s) \<and> pop s = Inr ([], v, s') \<and> stack_ok n None s' \<and> mset (items s') = mset (items s) - {#v#}"
    if ne: "mset (items s) \<noteq> {#}"
  proof -
    obtain xs v where xs: "items s = xs @ [v]" using ne by (cases "items s" rule: rev_cases) auto
    obtain s' where s': "pop s = Inr ([], v, s')" "stack_ok n None s'" "items s' = xs" using array_stack.pp_top [OF ok xs] by blast
    have "top s = int (length xs)" using items_length [OF ok] xs by simp
    then have "peek s = Inr v" using items_nth [OF ok, of "length xs"] xs by (simp add: peek_def)
    then show ?thesis using s' xs by auto
  qed
qed

definition q_items :: "queue \<Rightarrow> int list" where
  "q_items q = map the (take (nat (tail q + 1)) (q_cells q))"

definition queue_ok :: "nat \<Rightarrow> queue \<Rightarrow> bool" where
  "queue_ok n q \<longleftrightarrow> q_capacity q = int n \<and> length (q_cells q) = n \<and> -1 \<le> tail q \<and> tail q < int n \<and> (\<forall>k. int k \<le> tail q \<longrightarrow> q_cells q ! k \<noteq> None)"

lemma shift_down:
  assumes "m < length c" "\<forall>k \<le> m. c ! k \<noteq> None"
  shows "\<exists>c'. foldE (\<lambda>i c. bindE (rd_elem c (int i + 1)) (\<lambda>x. wr c (int i) (Some x))) [0..<m] c = Inr c' \<and>
    (length c' = length c \<and> (\<forall>k < length c. c' ! k = (if k < m then c ! Suc k else c ! k)))"
proof (rule foldE_range [where P = "\<lambda>j c'. length c' = length c \<and> (\<forall>k < length c. c' ! k = (if k < j then c ! Suc k else c ! k))"])
  fix j c' assume j: "j < m" and c': "length c' = length c \<and> (\<forall>k < length c. c' ! k = (if k < j then c ! Suc k else c ! k))"
  have "c' ! Suc j = c ! Suc j" using c' j assms(1) by auto
  then obtain x where x: "c' ! Suc j = Some x" "c ! Suc j = Some x" using assms(2) j by (metis Suc_leI not_None_eq)
  have "rd_elem c' (int j + 1) = Inr x" using x c' j assms(1) by (simp add: rd_elem_def rd_def nat_add_distrib)
  then show "\<exists>c''. bindE (rd_elem c' (int j + 1)) (\<lambda>x. wr c' (int j) (Some x)) = Inr c'' \<and>
      length c'' = length c \<and> (\<forall>k < length c. c'' ! k = (if k < Suc j then c ! Suc k else c ! k))"
    using c' j assms(1) x by (auto simp: wr_nat nth_list_update less_Suc_eq)
qed auto

lemma dequeue_first:
  assumes "queue_ok n q" "q_items q = v # xs"
  shows "q_peek q = Inr v \<and> (\<exists>q'. dequeue q = Inr ([], v, q') \<and> queue_ok n q' \<and> q_items q' = xs)"
proof -
  let ?c = "q_cells q" and ?t = "nat (tail q)"
  have t: "tail q = int (length xs)" using assms by (auto simp: q_items_def queue_ok_def dest!: arg_cong [of _ _ length])
  have some: "\<forall>k \<le> length xs. ?c ! k \<noteq> None" and len: "length xs < length ?c" using assms(1) t by (auto simp: queue_ok_def)
  have item: "?c ! k = Some ((v # xs) ! k)" if "k \<le> length xs" for k
  proof -
    have "(v # xs) ! k = the (?c ! k)" using assms(2) [symmetric] that t len by (simp add: q_items_def nat_add_distrib)
    then show ?thesis using some that by (metis option.collapse)
  qed
  have v: "rd_elem ?c 0 = Inr v" using item [of 0] len by (cases ?c) (auto simp: rd_elem_def rd_def)
  obtain c' where c': "foldE (\<lambda>i c. bindE (rd_elem c (int i + 1)) (\<lambda>x. wr c (int i) (Some x))) [0..<length xs] ?c = Inr c'"
      "length c' = length ?c" "\<forall>k < length ?c. c' ! k = (if k < length xs then ?c ! Suc k else ?c ! k)"
    using shift_down [OF len some] by blast
  let ?q = "q\<lparr>tail := tail q - 1, q_cells := c'\<rparr>"
  have "dequeue q = Inr ([], v, ?q)" using t v c'(1) by (simp add: dequeue_def q_is_empty_def)
  moreover have c'_item: "c' ! k = Some (xs ! k)" if "k < length xs" for k using c'(3) that len item [of "Suc k"] by auto
  then have "queue_ok n ?q" using assms(1) t c'(2) by (auto simp: queue_ok_def)
  moreover have "q_items ?q = xs"
    using t c'(2) len c'_item by (auto simp: q_items_def intro: nth_equalityI)
  ultimately show ?thesis using v by (simp add: q_peek_def)
qed

interpretation queue_list: worklist enqueue dequeue q_peek q_is_empty queue_ok "\<lambda>q. mset (q_items q)"
proof
  fix n q v assume ok: "queue_ok n q"
  have len: "length (q_items q) = nat (tail q + 1)" using ok by (auto simp: q_items_def queue_ok_def)
  show "q_is_empty q \<longleftrightarrow> mset (q_items q) = {#}"
    using len ok by (auto simp: q_is_empty_def queue_ok_def)
  show "\<exists>q'. enqueue v q = Inr ([], q') \<and> queue_ok n q' \<and> mset (q_items q') = add_mset v (mset (q_items q))" if "size (mset (q_items q)) < n"
  proof -
    let ?t = "nat (tail q + 1)"
    have t: "?t < n" "int ?t = tail q + 1" using that len ok by (auto simp: queue_ok_def)
    let ?q = "q\<lparr>tail := tail q + 1, q_cells := (q_cells q)[?t := Some v]\<rparr>"
    have "wr (q_cells q) (tail q + 1) (Some v) = Inr ((q_cells q)[?t := Some v])" using t ok by (auto simp: wr_def queue_ok_def)
    then have "enqueue v q = Inr ([], ?q)" using t ok by (auto simp: enqueue_def q_is_full_def queue_ok_def)
    moreover have "queue_ok n ?q" using t ok by (auto simp: queue_ok_def nth_list_update)
    moreover have "nat (tail q + 1 + 1) = Suc ?t" using t by linarith
    then have "q_items ?q = q_items q @ [v]" using t ok by (simp add: q_items_def queue_ok_def take_Suc_conv_app_nth)
    ultimately show ?thesis by auto
  qed
  show "\<exists>v q'. q_peek q = Inr v \<and> v \<in># mset (q_items q) \<and> dequeue q = Inr ([], v, q') \<and> queue_ok n q' \<and> mset (q_items q') = mset (q_items q) - {#v#}"
    if "mset (q_items q) \<noteq> {#}"
  proof (cases "q_items q")
    case (Cons v xs)
    then show ?thesis using dequeue_first [OF ok Cons] by auto
  qed (use that in simp)
qed

section \<open>The searches visit what can be reached\<close>

definition edge :: "graph \<Rightarrow> nat \<Rightarrow> nat \<Rightarrow> bool" where
  "edge g i j \<longleftrightarrow> int i < vertex_count g \<and> int j < vertex_count g \<and> adjMatrix g ! i ! j = Some 1"

definition marked :: "graph \<Rightarrow> nat set" where
  "marked g = {k. int k < vertex_count g \<and> visited (the (vertices g ! k))}"

definition label_of :: "graph \<Rightarrow> nat \<Rightarrow> char" where
  "label_of g k = label (the (vertices g ! k))"

text \<open>A graph of \<open>n\<close> vertices in an object of capacity \<open>c\<close>. Entries of the matrix may be indeterminate.\<close>

definition graph_ok :: "nat \<Rightarrow> nat \<Rightarrow> graph \<Rightarrow> bool" where
  "graph_ok n c g \<longleftrightarrow> vertex_count g = int n \<and> g_capacity g = int c \<and> n \<le> c \<and> length (vertices g) = c \<and> length (adjMatrix g) = c \<and>
     (\<forall>k < n. vertices g ! k \<noteq> None) \<and> (\<forall>i < n. length (adjMatrix g ! i) = c)"

text \<open>All entries that a search reads in the row of a vertex were set.\<close>

definition row_set :: "graph \<Rightarrow> nat \<Rightarrow> bool" where
  "row_set g i \<longleftrightarrow> (\<forall>j. int j < vertex_count g \<longrightarrow> adjMatrix g ! i ! j \<noteq> None)"

lemma rd_vertex_ok: "graph_ok n c g \<Longrightarrow> k < n \<Longrightarrow> rd_vertex g (int k) = Inr (the (vertices g ! k))"
  by (auto simp: graph_ok_def rd_vertex_def rd_nat split: option.split)

lemma adj_unvisited_finds:
  assumes "graph_ok n c g" "i < n" "k \<le> n" "\<forall>l < k. adjMatrix g ! i ! l \<noteq> None \<and> (edge g i l \<longrightarrow> l \<in> marked g)"
  shows "adj_unvisited g (int i) (int k) = Inl UninitRead \<and> \<not> row_set g i \<or>
    adj_unvisited g (int i) (int k) = Inr (-1) \<and> row_set g i \<and> (\<forall>l. edge g i l \<longrightarrow> l \<in> marked g) \<or>
    (\<exists>j < n. adj_unvisited g (int i) (int k) = Inr (int j) \<and> edge g i j \<and> j \<notin> marked g)"
  using assms(3,4)
proof (induction "n - k" arbitrary: k)
  case 0
  then have "k = n" by simp
  then have "adj_unvisited g (int i) (int k) = Inr (-1)" using assms(1) by (subst adj_unvisited.simps) (simp add: graph_ok_def)
  then show ?case using 0 \<open>k = n\<close> assms(1) by (auto simp: edge_def graph_ok_def row_set_def)
next
  case (Suc d)
  then have k: "k < n" by simp
  have vc: "vertex_count g = int n" and row: "rd (adjMatrix g) (int i) = Inr (adjMatrix g ! i)"
    and ent: "rd (adjMatrix g ! i) (int k) = Inr (adjMatrix g ! i ! k)" using assms(1,2) k by (simp_all add: graph_ok_def rd_nat)
  show ?case
  proof (cases "adjMatrix g ! i ! k")
    case None
    then have "adj_unvisited g (int i) (int k) = Inl UninitRead" using k vc row ent by (subst adj_unvisited.simps) (simp add: rd_elem_def)
    then show ?thesis using None k vc by (auto simp: row_set_def)
  next
    case (Some e)
    then have step: "adj_unvisited g (int i) (int k) = (if e = 1 \<and> k \<notin> marked g then Inr (int k) else adj_unvisited g (int i) (int (Suc k)))"
      using row ent k vc rd_vertex_ok [OF assms(1) k] by (subst adj_unvisited.simps) (auto simp: rd_elem_def marked_def add.commute)
    show ?thesis
    proof (cases "e = 1 \<and> k \<notin> marked g")
      case True
      then show ?thesis using step Some k assms(2) vc by (auto simp: edge_def)
    next
      case False
      then have "\<forall>l < Suc k. adjMatrix g ! i ! l \<noteq> None \<and> (edge g i l \<longrightarrow> l \<in> marked g)" using Suc.prems(2) Some by (auto simp: edge_def less_Suc_eq)
      then show ?thesis using Suc.hyps(1) [of "Suc k"] Suc.hyps(2) step False k by auto
    qed
  qed
qed

lemma visit_marks:
  assumes "graph_ok n c g" "k < n"
  shows "\<exists>g'. visit (int k) g = Inr ([label_of g k] @ '' '', g') \<and> graph_ok n c g' \<and> marked g' = insert k (marked g) \<and> edge g' = edge g \<and> row_set g' = row_set g \<and> label_of g' = label_of g"
proof -
  let ?x = "the (vertices g ! k)"
  let ?g = "g\<lparr>vertices := (vertices g)[k := Some (?x\<lparr>visited := True\<rparr>)]\<rparr>"
  have len: "k < length (vertices g)" using assms by (auto simp: graph_ok_def)
  have "visit (int k) g = Inr ([label_of g k] @ '' '', ?g)"
    using rd_vertex_ok [OF assms] len by (simp add: visit_def wr_nat label_of_def)
  moreover have "graph_ok n c ?g" using assms len by (auto simp: graph_ok_def nth_list_update)
  moreover have "marked ?g = insert k (marked g)" using assms len by (auto simp: marked_def nth_list_update graph_ok_def split: if_splits)
  moreover have "edge ?g = edge g" "row_set ?g = row_set g" by (auto simp: edge_def row_set_def fun_eq_iff)
  moreover have "label_of ?g = label_of g" using len by (auto simp: label_of_def fun_eq_iff nth_list_update)
  ultimately show ?thesis by blast
qed

lemma finite_marked: "graph_ok n c g \<Longrightarrow> finite (marked g) \<and> card (marked g) \<le> n"
proof -
  assume "graph_ok n c g"
  then have "marked g \<subseteq> {..<n}" by (auto simp: marked_def graph_ok_def)
  then show ?thesis using card_mono [of "{..<n}" "marked g"] finite_subset by auto
qed

definition shown :: "graph \<Rightarrow> nat list \<Rightarrow> string" where
  "shown g vs = concat (map (\<lambda>k. [label_of g k] @ '' '') vs)"

text \<open>The invariant of the loop: what was printed, that the marked vertices can be reached, and that those
  no longer in the worklist (\<open>W\<close>) have a row that was set and only marked neighbours.\<close>

definition search_inv :: "nat \<Rightarrow> nat \<Rightarrow> graph \<Rightarrow> nat list \<Rightarrow> int multiset \<Rightarrow> bool" where
  "search_inv n c g vs W \<longleftrightarrow> graph_ok n c g \<and> distinct vs \<and> set vs = marked g \<and> 0 \<in> marked g \<and> W \<subseteq># mset_set (int ` marked g) \<and>
     (\<forall>k \<in> marked g. (edge g)\<^sup>*\<^sup>* 0 k) \<and> (\<forall>k \<in> marked g. int k \<notin># W \<longrightarrow> row_set g k \<and> (\<forall>j. edge g k j \<longrightarrow> j \<in> marked g))"

lemma search_invD:
  assumes "search_inv n c g vs W"
  shows "graph_ok n c g" "distinct vs" "set vs = marked g" "0 \<in> marked g" "W \<subseteq># mset_set (int ` marked g)"
    "k \<in> marked g \<Longrightarrow> (edge g)\<^sup>*\<^sup>* 0 k" "k \<in> marked g \<Longrightarrow> int k \<notin># W \<Longrightarrow> edge g k j \<Longrightarrow> j \<in> marked g"
    "k \<in> marked g \<Longrightarrow> int k \<notin># W \<Longrightarrow> row_set g k"
  using assms unfolding search_inv_def by blast+

lemma search_inv_work:
  assumes "search_inv n c g vs W" "v \<in># W"
  shows "\<exists>i. v = int i \<and> i \<in> marked g \<and> i < n"
proof -
  have "finite (marked g)" "W \<subseteq># mset_set (int ` marked g)" using assms(1) finite_marked by (auto simp: search_inv_def)
  then have "v \<in> int ` marked g" using mset_subset_eqD [OF _ assms(2)] by force
  then show ?thesis using assms(1) by (auto simp: search_inv_def marked_def graph_ok_def)
qed

lemma search_inv_add:
  assumes inv: "search_inv n c g vs W" and i: "i \<in> marked g" and j: "edge g i j" "j \<notin> marked g"
    and g': "graph_ok n c g'" "marked g' = insert j (marked g)" "edge g' = edge g" "row_set g' = row_set g"
  shows "search_inv n c g' (vs @ [j]) (add_mset (int j) W)"
proof -
  have fin: "finite (marked g)" using inv finite_marked by (auto simp: search_inv_def)
  have m: "mset_set (int ` marked g') = add_mset (int j) (mset_set (int ` marked g))" proof -
    have "int j \<notin> int ` marked g" using j(2) by auto
    then show ?thesis using g'(2) fin by simp
  qed
  have "(edge g)\<^sup>*\<^sup>* 0 j" using inv i j(1) by (auto simp: search_inv_def intro: rtranclp.rtrancl_into_rtrancl)
  then show ?thesis using inv g' j(2) m by (auto simp: search_inv_def)
qed

lemma search_inv_del:
  assumes inv: "search_inv n c g vs W" and i: "row_set g i \<and> (\<forall>j. edge g i j \<longrightarrow> j \<in> marked g)"
  shows "search_inv n c g vs (W - {#int i#})"
proof -
  have "int k \<in># W - {#int i#}" if "int k \<in># W" "k \<noteq> i" for k using that by (simp add: in_diff_count)
  then have "\<forall>k \<in> marked g. int k \<notin># W - {#int i#} \<longrightarrow> row_set g k \<and> (\<forall>j. edge g k j \<longrightarrow> j \<in> marked g)"
    using search_invD(7,8) [OF inv] i by metis
  moreover have "W - {#int i#} \<subseteq># mset_set (int ` marked g)"
    using search_invD(5) [OF inv] by (meson diff_subset_eq_self subset_mset.order_trans)
  ultimately show ?thesis unfolding search_inv_def using search_invD(1-4,6) [OF inv] by blast
qed

lemma search_inv_size:
  assumes "search_inv n c g vs W" shows "size W \<le> card (marked g)"
proof -
  have "size W \<le> size (mset_set (int ` marked g))" by (rule size_mset_mono) (use assms in \<open>simp add: search_inv_def\<close>)
  also have "\<dots> = card (marked g)" by (simp add: card_image)
  finally show ?thesis .
qed

lemma search_inv_done:
  assumes "search_inv n c g vs {#}" shows "marked g = {k. (edge g)\<^sup>*\<^sup>* 0 k}" "(edge g)\<^sup>*\<^sup>* 0 k \<Longrightarrow> row_set g k"
proof -
  have "k \<in> marked g" if "(edge g)\<^sup>*\<^sup>* 0 k" for k
    using that
  proof (induction rule: rtranclp_induct)
    case (step j k)
    then show ?case using search_invD(7) [OF assms, of j k] by simp
  qed (rule search_invD(4) [OF assms])
  then show m: "marked g = {k. (edge g)\<^sup>*\<^sup>* 0 k}" using search_invD(6) [OF assms] by blast
  show "(edge g)\<^sup>*\<^sup>* 0 k \<Longrightarrow> row_set g k" using search_invD(8) [OF assms] m by auto
qed

text \<open>The two outcomes of a search that prints with the labels of a graph.\<close>

definition outcome :: "graph \<Rightarrow> (string \<times> graph) cres \<Rightarrow> bool" where
  "outcome g r \<longleftrightarrow> (if \<forall>k. (edge g)\<^sup>*\<^sup>* 0 k \<longrightarrow> row_set g k
     then \<exists>g' vs. r = Inr (shown g vs, g') \<and> distinct vs \<and> set vs = {k. (edge g)\<^sup>*\<^sup>* 0 k}
     else r = Inl UninitRead)"

lemma outcome_cong: "edge g' = edge g \<Longrightarrow> row_set g' = row_set g \<Longrightarrow> label_of g' = label_of g \<Longrightarrow> outcome g' r = outcome g r"
  unfolding outcome_def shown_def by (simp only:)

context worklist
begin

lemma search_loop_ends:
  assumes "search_inv n c g vs (content w)" "ok c w" "2 * (n - card (marked g)) + size (content w) < fuel"
  shows "outcome g (search_loop add del look emp fuel (shown g vs) g w)"
  using assms
proof (induction fuel arbitrary: g vs w)
  case (Suc fuel)
  note inv = Suc.prems(1)
  have ok: "graph_ok n c g" using inv by (simp add: search_inv_def)
  show ?case
  proof (cases "content w = {#}")
    case True
    then have "set vs = {k. (edge g)\<^sup>*\<^sup>* 0 k}" "\<forall>k. (edge g)\<^sup>*\<^sup>* 0 k \<longrightarrow> row_set g k" "emp w"
      using search_invD(3) [OF inv] search_inv_done [of n c g vs] inv emp [OF Suc.prems(2)] by simp_all
    then show ?thesis using search_invD(2) [OF inv] by (auto simp: outcome_def)
  next
    case False
    then obtain v w1 where w1: "look w = Inr v" "v \<in># content w" "del w = Inr ([], v, w1)" "ok c w1" "content w1 = content w - {#v#}"
      using del [OF Suc.prems(2)] by blast
    obtain i where i: "v = int i" "i \<in> marked g" "i < n" using search_inv_work [OF inv w1(2)] by blast
    have e: "\<not> emp w" using emp [OF Suc.prems(2)] False by simp
    consider (uninit) "getAdjUnvisitedVertex g v = Inl UninitRead" "\<not> row_set g i"
      | (none) "getAdjUnvisitedVertex g v = Inr (-1)" "row_set g i \<and> (\<forall>l. edge g i l \<longrightarrow> l \<in> marked g)"
      | (next_vertex) j where "j < n" "getAdjUnvisitedVertex g v = Inr (int j)" "edge g i j" "j \<notin> marked g"
      using adj_unvisited_finds [OF ok i(3), of 0] i(1) by (auto simp: getAdjUnvisitedVertex_def)
    then show ?thesis
    proof cases
      case uninit
      then show ?thesis using e w1(1) search_invD(6) [OF inv i(2)] by (auto simp: outcome_def)
    next
      case none
      have "outcome g (search_loop add del look emp fuel (shown g vs) g w1)"
      proof (rule Suc.IH [OF _ w1(4)])
        show "search_inv n c g vs (content w1)" using search_inv_del [OF inv none(2)] w1(5) i(1) by simp
        show "2 * (n - card (marked g)) + size (content w1) < fuel" using Suc.prems(3) w1(2,5) size_Suc_Diff1 [OF w1(2)] by simp
      qed
      then show ?thesis using e w1 none(1) by simp
    next
      case (next_vertex j)
      obtain g' where g': "visit (int j) g = Inr ([label_of g j] @ '' '', g')" "graph_ok n c g'" "marked g' = insert j (marked g)"
          "edge g' = edge g" "row_set g' = row_set g" "label_of g' = label_of g" using visit_marks [OF ok next_vertex(1)] by blast
      have card: "card (marked g') = Suc (card (marked g))" "card (marked g') \<le> n"
        using g'(3) next_vertex(4) finite_marked [OF ok] finite_marked [OF g'(2)] by auto
      have "size (content w) < c" using search_inv_size [OF inv] card ok by (auto simp: graph_ok_def)
      then obtain w2 where w2: "add (int j) w = Inr ([], w2)" "ok c w2" "content w2 = add_mset (int j) (content w)"
        using add [OF Suc.prems(2)] by blast
      have sh: "shown g' = shown g" using g'(6) by (simp add: shown_def fun_eq_iff)
      have "outcome g' (search_loop add del look emp fuel (shown g' (vs @ [j])) g' w2)"
      proof (rule Suc.IH [OF _ w2(2)])
        show "search_inv n c g' (vs @ [j]) (content w2)" using search_inv_add [OF inv i(2) next_vertex(3,4) g'(2-5)] w2(3) by simp
        show "2 * (n - card (marked g')) + size (content w2) < fuel" using Suc.prems(3) card w2(3) by simp
      qed
      moreover have "search_loop add del look emp (Suc fuel) (shown g vs) g w = search_loop add del look emp fuel (shown g' (vs @ [j])) g' w2"
        using e w1(1) next_vertex(2) g'(1) w2(1) by (simp add: sh) (simp add: shown_def)
      ultimately show ?thesis unfolding outcome_cong [OF g'(4-6)] by simp
    qed
  qed
qed simp

lemma search_from_visits:
  assumes "graph_ok n c g" "0 < n" "marked g = {}" "ok c w" "content w = {#}" "2 * n < fuel"
  shows "outcome g (search_from add del look emp fuel g w)"
proof -
  obtain g1 where g1: "visit 0 g = Inr ([label_of g 0] @ '' '', g1)" "graph_ok n c g1" "marked g1 = {0}" "edge g1 = edge g" "row_set g1 = row_set g" "label_of g1 = label_of g"
    using visit_marks [OF assms(1,2)] assms(3) by auto
  have "size (content w) < c" using assms(1,2,5) by (auto simp: graph_ok_def)
  then obtain w1 where w1: "add 0 w = Inr ([], w1)" "ok c w1" "content w1 = {#0#}" using add [OF assms(4)] assms(5) by force
  have inv: "search_inv n c g1 [0] (content w1)" using g1 w1(3) by (auto simp: search_inv_def)
  have sh: "shown g1 = shown g" using g1(6) by (simp add: shown_def fun_eq_iff)
  have "search_from add del look emp fuel g w = search_loop add del look emp fuel (shown g1 [0]) g1 w1"
    using g1 w1(1) by (simp add: search_from_def shown_def)
  then show ?thesis using search_loop_ends [OF inv w1(2), of fuel] assms(2,6) w1(3) g1(3) unfolding outcome_cong [OF g1(4-6)] by simp
qed

end

lemma searches_outcome:
  assumes "graph_ok n c g" "0 < n" "marked g = {}" "2 * n < fuel"
  shows "outcome g (depthFirstSearch fuel g)" "outcome g (breadthFirstSearch fuel g)"
proof -
  have cap: "g_capacity g = int c" using assms(1) by (simp add: graph_ok_def)
  obtain s where s: "Stack_cap (int c) = Inr s" "stack_ok c None s" "mset (items s) = {#}" using Stack_cap_ok [of c] by auto
  obtain q where q: "Queue_cap (int c) = Inr q" "queue_ok c q" "mset (q_items q) = {#}"
    by (auto simp: Queue_cap_def queue_ok_def q_items_def)
  show "outcome g (depthFirstSearch fuel g)" "outcome g (breadthFirstSearch fuel g)"
    using stack_list.search_from_visits [OF assms(1-3) s(2,3) assms(4)] queue_list.search_from_visits [OF assms(1-3) q(2,3) assms(4)] s(1) q(1)
    by (simp_all add: depthFirstSearch_def breadthFirstSearch_def cap)
qed

text \<open>
  C19. Depth-first and breadth-first search on any graph with at least one vertex, none of them visited yet: if every entry was set in the rows of the vertices that can be reached
  from vertex 0, both searches end and print the labels of exactly these vertices, each of
  them once, and neither container overflows; otherwise both searches read an indeterminate entry of the matrix.
\<close>

theorem searches_visit_reachable:
  assumes "graph_ok n c g" "0 < n" "marked g = {}" "2 * n < fuel"
  shows "if \<forall>k. (edge g)\<^sup>*\<^sup>* 0 k \<longrightarrow> row_set g k
    then (\<exists>g' vs. depthFirstSearch fuel g = Inr (shown g vs, g') \<and> distinct vs \<and> set vs = {k. (edge g)\<^sup>*\<^sup>* 0 k}) \<and>
      (\<exists>g' vs. breadthFirstSearch fuel g = Inr (shown g vs, g') \<and> distinct vs \<and> set vs = {k. (edge g)\<^sup>*\<^sup>* 0 k})
    else depthFirstSearch fuel g = Inl UninitRead \<and> breadthFirstSearch fuel g = Inl UninitRead"
  using searches_outcome [OF assms] by (simp add: outcome_def split: if_splits)

lemma search_uninitialised:
  assumes "0 < vertex_count g" "vertices g = Some x # xs" "rd (adjMatrix g) 0 = Inr (None # row)" "0 < g_capacity g"
  shows "depthFirstSearch (Suc fuel) g = Inl UninitRead"
proof -
  have adj: "getAdjUnvisitedVertex g' 0 = Inl UninitRead" if "vertex_count g' = vertex_count g" "adjMatrix g' = adjMatrix g" for g'
    unfolding getAdjUnvisitedVertex_def using assms that by (subst adj_unvisited.simps) (simp add: rd_elem_def rd_def)
  obtain n where n: "g_capacity g = int (Suc n)" using assms(4) by (metis gr0_implies_Suc zero_less_imp_eq_int)
  obtain s where s: "Stack_cap (g_capacity g) = Inr s" "stack_ok (Suc n) None s" "items s = []" using Stack_cap_ok [of "Suc n"] n by auto
  obtain s1 where s1: "push 0 s = Inr ([], s1)" "stack_ok (Suc n) None s1" "items s1 = [0]"
    using array_stack.psh_room [OF s(2), of 0] s(3) by auto
  have "top s1 = 0" using items_length [OF s1(2)] s1(3) by simp
  then have "peek s1 = Inr 0" "\<not> is_empty s1" using items_nth [OF s1(2), of 0] s1(3) by (simp_all add: peek_def is_empty_def)
  then show ?thesis using s(1) s1(1) assms(2) adj
    by (simp add: depthFirstSearch_def search_from_def visit_def rd_vertex_def rd_def wr_def)
qed

text \<open>
  The program searches a graph whose matrix entries were never set to 0: it reads an
  uninitialised entry at once.
\<close>

theorem graph_main_uninitialised: "graph_main (Suc fuel) = Inl UninitRead"
proof -
  let ?build = "bindE (Graph_new 5) (\<lambda>g. bindE (foldE addVertex ''SABCD'' g)
      (foldE (\<lambda>(i, j). addEdge i j) [(0, 1), (0, 2), (0, 3), (1, 4), (2, 4), (3, 4)]))"
  have view: "map_sum id (\<lambda>g. (vertex_count g, g_capacity g, take 1 (vertices g), map_sum id (take 1) (rd (adjMatrix g) 0))) ?build =
      Inr (5, 5, [Some \<lparr>label = CHR ''S'', visited = False\<rparr>], Inr [None])" by code_simp
  then obtain g where g: "?build = Inr g" by (cases ?build) auto
  from view have f: "vertex_count g = 5" "g_capacity g = 5" "take 1 (vertices g) = [Some \<lparr>label = CHR ''S'', visited = False\<rparr>]"
      "map_sum id (take 1) (rd (adjMatrix g) 0) = Inr [None]" unfolding g by simp_all
  obtain xs where "vertices g = Some \<lparr>label = CHR ''S'', visited = False\<rparr> # xs" using f(3) by (cases "vertices g") auto
  moreover obtain row where "rd (adjMatrix g) 0 = Inr (None # row)"
  proof (cases "rd (adjMatrix g) 0")
    case (Inr r)
    then show ?thesis using f(4) that by (cases r) auto
  qed (use f(4) in simp)
  ultimately have "depthFirstSearch (Suc fuel) g = Inl UninitRead" using f(1,2) by (intro search_uninitialised) auto
  then have "bindE ?build (\<lambda>g. bindE (depthFirstSearch (Suc fuel) g) (\<lambda>(out, g). Inr (''Depth First Search '' @ out))) = Inl UninitRead"
    unfolding g by simp
  then show ?thesis unfolding graph_main_def bindE_assoc .
qed

section \<open>The graphs that the class builds\<close>

definition build_graph :: "nat \<Rightarrow> string \<Rightarrow> (nat \<times> nat) list \<Rightarrow> graph cres" where
  "build_graph c labels edges =
     bindE (Graph_new (int c)) (\<lambda>g. bindE (foldE addVertex labels g) (foldE (\<lambda>(i, j). addEdge (int i) (int j)) edges))"

text \<open>A graph with these vertices and these entries, all others indeterminate.\<close>

definition built :: "nat \<Rightarrow> string \<Rightarrow> (nat \<times> nat) set \<Rightarrow> graph \<Rightarrow> bool" where
  "built c labels E g \<longleftrightarrow> vertex_count g = int (length labels) \<and> g_capacity g = int c \<and> length (vertices g) = c \<and> length (adjMatrix g) = c \<and>
     (\<forall>k < length labels. vertices g ! k = Some \<lparr>label = labels ! k, visited = False\<rparr>) \<and>
     (\<forall>i < c. length (adjMatrix g ! i) = c \<and> (\<forall>j < c. adjMatrix g ! i ! j = (if (i, j) \<in> E then Some 1 else None)))"

lemma Graph_new_built: "\<exists>g. Graph_new (int c) = Inr g \<and> built c [] {} g"
  by (simp add: Graph_new_def built_def)

lemma addVertex_built:
  assumes "built c labels E g" "length labels < c"
  shows "\<exists>g'. addVertex lab g = Inr g' \<and> built c (labels @ [lab]) E g'"
  using assms by (auto simp: addVertex_def built_def wr_nat nth_list_update nth_append less_Suc_eq)

lemma set_entry_sets:
  assumes "length m = c" "\<forall>i < c. length (m ! i) = c" "i < c" "j < c"
  shows "set_entry (int i) (int j) m = Inr (m[i := (m ! i)[j := Some 1]])"
  using assms by (simp add: set_entry_def rd_nat wr_nat)

lemma addEdge_built:
  assumes "built c labels E g" "i < c" "j < c"
  shows "\<exists>g'. addEdge (int i) (int j) g = Inr g' \<and> built c labels (E \<union> {(i, j), (j, i)}) g'"
proof -
  let ?m = "adjMatrix g"
  let ?m1 = "?m[i := (?m ! i)[j := Some 1]]"
  let ?m2 = "?m1[j := (?m1 ! j)[i := Some 1]]"
  have m: "length ?m = c" "\<forall>i < c. length (?m ! i) = c" using assms(1) by (simp_all add: built_def)
  then have "set_entry (int i) (int j) ?m = Inr ?m1" using assms(2,3) by (rule set_entry_sets)
  moreover have m1: "length ?m1 = c" "\<forall>a < c. length (?m1 ! a) = c" using m assms(2) by (simp_all add: nth_list_update)
  then have "set_entry (int j) (int i) ?m1 = Inr ?m2" using assms(3,2) by (rule set_entry_sets)
  ultimately have "addEdge (int i) (int j) g = Inr (g\<lparr>adjMatrix := ?m2\<rparr>)" by (simp add: addEdge_def)
  moreover have "?m2 ! a ! b = (if (a, b) = (i, j) \<or> (a, b) = (j, i) then Some 1 else ?m ! a ! b)" if "a < c" "b < c" for a b
    using that assms(2,3) m by (auto simp: nth_list_update)
  then have "built c labels (E \<union> {(i, j), (j, i)}) (g\<lparr>adjMatrix := ?m2\<rparr>)" using assms m by (auto simp: built_def nth_list_update)
  ultimately show ?thesis by blast
qed

lemma build_graph_built:
  assumes "length labels \<le> c" "\<forall>(i, j) \<in> set edges. i < c \<and> j < c"
  shows "\<exists>g. build_graph c labels edges = Inr g \<and> built c labels (set edges \<union> (set edges)\<inverse>) g"
proof -
  obtain g0 where g0: "Graph_new (int c) = Inr g0" "built c [] {} g0" using Graph_new_built by blast
  have "\<exists>g'. foldE addVertex ls g = Inr g' \<and> built c (ls0 @ ls) E g'" if "built c ls0 E g" "length (ls0 @ ls) \<le> c" for ls ls0 E g
    using that
  proof (induction ls arbitrary: ls0 g)
    case (Cons lab ls)
    obtain g1 where "addVertex lab g = Inr g1" "built c (ls0 @ [lab]) E g1" using addVertex_built [OF Cons.prems(1)] Cons.prems(2) by force
    then show ?case using Cons.IH [of "ls0 @ [lab]" g1] Cons.prems(2) by auto
  qed simp
  from this [OF g0(2)] obtain g1 where g1: "foldE addVertex labels g0 = Inr g1" "built c labels {} g1" using assms(1) by auto
  have "\<exists>g'. foldE (\<lambda>(i, j). addEdge (int i) (int j)) es g = Inr g' \<and> built c labels (E \<union> set es \<union> (set es)\<inverse>) g'"
    if "built c labels E g" "\<forall>(i, j) \<in> set es. i < c \<and> j < c" for es E g
    using that
  proof (induction es arbitrary: E g)
    case (Cons e es)
    obtain i j where e: "e = (i, j)" by (cases e)
    obtain g1 where g1: "addEdge (int i) (int j) g = Inr g1" "built c labels (E \<union> {(i, j), (j, i)}) g1" using addEdge_built [OF Cons.prems(1), of i j] Cons.prems(2) e by auto
    have "E \<union> {(i, j), (j, i)} \<union> set es \<union> (set es)\<inverse> = E \<union> set (e # es) \<union> (set (e # es))\<inverse>" using e by auto
    then show ?case using Cons.IH [OF g1(2)] Cons.prems(2) g1(1) e by auto
  qed simp
  from this [OF g1(2) assms(2)] show ?thesis using g0(1) g1(1) by (simp add: build_graph_def)
qed

lemma built_ok:
  assumes "built c labels E g" "length labels \<le> c"
  defines "n \<equiv> length labels"
  shows "graph_ok n c g" "marked g = {}" "edge g i j \<longleftrightarrow> i < n \<and> j < n \<and> (i, j) \<in> E" "i < n \<Longrightarrow> row_set g i \<longleftrightarrow> (\<forall>j < n. (i, j) \<in> E)"
proof -
  have m: "adjMatrix g ! a ! b = (if (a, b) \<in> E then Some 1 else None)" if "a < n" "b < n" for a b using assms that by (simp add: built_def)
  show "graph_ok n c g" "marked g = {}" using assms by (auto simp: built_def graph_ok_def marked_def)
  have v: "vertex_count g = int n" using assms(1) by (simp add: built_def n_def)
  show "edge g i j \<longleftrightarrow> i < n \<and> j < n \<and> (i, j) \<in> E" using m [of i j] by (auto simp: edge_def v split: if_splits)
  show "row_set g i \<longleftrightarrow> (\<forall>j < n. (i, j) \<in> E)" if "i < n" using m [OF that] by (auto simp: row_set_def v split: if_splits)
qed

text \<open>
  C25. What the searches do on the graphs that the class itself can build, with any number of vertices up to its capacity and any edges between them: if every vertex was
  joined to every vertex, itself included, both searches end and print the label of every vertex once; on every other graph both
  read an entry of the matrix that was never set.
\<close>

theorem built_graph_searches:
  assumes "labels \<noteq> []" "length labels \<le> c" "\<forall>(i, j) \<in> set edges. i < length labels \<and> j < length labels" "2 * length labels < fuel"
  shows "\<exists>g. build_graph c labels edges = Inr g \<and>
    (if \<forall>i < length labels. \<forall>j < length labels. (i, j) \<in> set edges \<or> (j, i) \<in> set edges
     then \<forall>search \<in> {depthFirstSearch, breadthFirstSearch}. \<exists>g' vs. search fuel g = Inr (concat (map (\<lambda>k. [labels ! k] @ '' '') vs), g') \<and>
       distinct vs \<and> set vs = {..<length labels}
     else depthFirstSearch fuel g = Inl UninitRead \<and> breadthFirstSearch fuel g = Inl UninitRead)"
proof -
  let ?n = "length labels" and ?E = "set edges \<union> (set edges)\<inverse>"
  have n: "0 < ?n" using assms(1) by simp
  obtain g where g: "build_graph c labels edges = Inr g" "built c labels ?E g" using build_graph_built [OF assms(2), of edges] assms(2,3) by force
  note ok = built_ok [OF g(2) assms(2)]
  note out = searches_outcome [OF ok(1) n ok(2) assms(4), unfolded outcome_def]
  have reach: "k < ?n" if "(edge g)\<^sup>*\<^sup>* 0 k" for k using that n ok(3) by (induction rule: rtranclp_induct) auto
  have shown: "shown g vs = concat (map (\<lambda>k. [labels ! k] @ '' '') vs)" if "set vs \<subseteq> {..<?n}" for vs
    unfolding shown_def by (intro arg_cong [where f = concat] map_cong) (use that g(2) in \<open>auto simp: label_of_def built_def\<close>)
  show ?thesis
  proof (cases "\<forall>i < ?n. \<forall>j < ?n. (i, j) \<in> ?E")
    case True
    have "(edge g)\<^sup>*\<^sup>* 0 k" if "k < ?n" for k using that True n ok(3) by blast
    then have all: "{k. (edge g)\<^sup>*\<^sup>* 0 k} = {..<?n}" "\<forall>k. (edge g)\<^sup>*\<^sup>* 0 k \<longrightarrow> row_set g k" using reach True ok(4) by auto
    have "\<exists>g' vs. search fuel g = Inr (concat (map (\<lambda>k. [labels ! k] @ '' '') vs), g') \<and> distinct vs \<and> set vs = {..<?n}"
      if "search \<in> {depthFirstSearch, breadthFirstSearch}" for search
      using that out shown unfolding all(1) if_P [OF all(2)] by fastforce
    then show ?thesis using g(1) True by auto
  next
    case False
    then obtain i j where ij: "i < ?n" "j < ?n" "(i, j) \<notin> ?E" by blast
    have "\<exists>k. (edge g)\<^sup>*\<^sup>* 0 k \<and> \<not> row_set g k"
    proof (cases "row_set g 0")
      case True
      then have "edge g 0 i" using ok(3,4) n ij(1) by blast
      then show ?thesis using ij ok(4) by blast
    qed blast
    then show ?thesis using out g(1) False by auto
  qed
qed

section \<open>Witnesses\<close>

theorem searches_visit_reachable_witness:
  "\<exists>g g' vs. build_graph 2 ''SA'' [(0, 0), (0, 1), (1, 1)] = Inr g \<and> depthFirstSearch 5 g = Inr (shown g vs, g') \<and> distinct vs \<and> set vs = {k. (edge g)\<^sup>*\<^sup>* 0 k}"
proof -
  have E: "set [(0, 0), (0, 1), (1, 1)] \<union> (set [(0, 0), (0, 1), (1, 1)])\<inverse> = {(0, 0), (0, 1), (1, 1), (1 :: nat, 0 :: nat)}" by auto
  obtain g where g: "build_graph 2 ''SA'' [(0, 0), (0, 1), (1, 1)] = Inr g" "built 2 ''SA'' {(0, 0), (0, 1), (1, 1), (1, 0)} g"
    using build_graph_built [of "''SA''" 2 "[(0, 0), (0, 1), (1, 1)]"] unfolding E by auto
  have len: "length ''SA'' \<le> 2" by simp
  note ok = built_ok [OF g(2) len]
  have "row_set g k" if "(edge g)\<^sup>*\<^sup>* 0 k" for k
  proof -
    have "k < 2" using that ok(3) by (induction rule: rtranclp_induct) auto
    then show ?thesis using ok(4) [of k] by (auto simp: less_2_cases_iff)
  qed
  then show ?thesis using searches_visit_reachable [OF ok(1) _ ok(2), of 5] g(1) by auto
qed

theorem built_graph_searches_witness:
  "\<exists>g. build_graph 5 ''SABCD'' [(0, 1), (0, 2), (0, 3), (1, 4), (2, 4), (3, 4)] = Inr g \<and> breadthFirstSearch 11 g = Inl UninitRead"
proof -
  let ?es = "[(0, 1), (0, 2), (0, 3), (1, 4), (2, 4), (3, 4)] :: (nat \<times> nat) list"
  have "''SABCD'' \<noteq> []" "length ''SABCD'' \<le> 5" "\<forall>(i, j) \<in> set ?es. i < length ''SABCD'' \<and> j < length ''SABCD''" "2 * length ''SABCD'' < 11" by simp_all
  note t = built_graph_searches [OF this]
  have "\<not> (\<forall>i < length ''SABCD''. \<forall>j < length ''SABCD''. (i, j) \<in> set ?es \<or> (j, i) \<in> set ?es)" by (rule notI) (drule spec [of _ 0], drule mp, simp, drule spec [of _ 0], simp)
  from t [unfolded if_not_P [OF this]] show ?thesis by blast
qed

end
