(* ===== verification/Cpp_Trees.thy ===== *)
theory Cpp_Trees
  imports C_Text "HOL-Library.Tree"
begin

text \<open>
  \<^verbatim>\<open>c++/src/tree.cpp\<close>: a binary search tree of linked nodes. The nodes live in a store, insertion
  changes one pointer of one node, and a relation between a pointer and the tree it points to (with
  disjoint subtrees) connects the store with trees as data. The class meets the contract of an
  ordered set of integers, the locale \<open>ordered_set\<close>. The store is shared with the programs of
  \<open>Binary_Trees\<close>.
\<close>

section \<open>Nodes in a store\<close>

type_synonym ptr = "nat option"

record node =
  data :: int
  left :: ptr
  right :: ptr

type_synonym store = "nat \<Rightarrow> node option"

definition deref :: "store \<Rightarrow> ptr \<Rightarrow> node cres" where
  "deref h p = (case p of None \<Rightarrow> Inl NullDeref | Some a \<Rightarrow> (case h a of None \<Rightarrow> Inl DanglingPtr | Some n \<Rightarrow> Inr n))"

text \<open>The traversals return the values in the order they are printed. A recursion or a loop that goes
  on for ever, as on a store with a cycle, is \<open>NoReturn\<close>.\<close>

fun preorder_from :: "nat \<Rightarrow> store \<Rightarrow> ptr \<Rightarrow> int list cres" where
  "preorder_from 0 h current = Inl NoReturn"
| "preorder_from (Suc fuel) h current =
     (if current = None then Inr []
      else bindE (deref h current) (\<lambda>n. bindE (preorder_from fuel h (left n)) (\<lambda>l. bindE (preorder_from fuel h (right n)) (\<lambda>r. Inr (data n # l @ r)))))"

fun inorder_from :: "nat \<Rightarrow> store \<Rightarrow> ptr \<Rightarrow> int list cres" where
  "inorder_from 0 h current = Inl NoReturn"
| "inorder_from (Suc fuel) h current =
     (if current = None then Inr []
      else bindE (deref h current) (\<lambda>n. bindE (inorder_from fuel h (left n)) (\<lambda>l. bindE (inorder_from fuel h (right n)) (\<lambda>r. Inr (l @ data n # r)))))"

fun postorder_from :: "nat \<Rightarrow> store \<Rightarrow> ptr \<Rightarrow> int list cres" where
  "postorder_from 0 h current = Inl NoReturn"
| "postorder_from (Suc fuel) h current =
     (if current = None then Inr []
      else bindE (deref h current) (\<lambda>n. bindE (postorder_from fuel h (left n)) (\<lambda>l. bindE (postorder_from fuel h (right n)) (\<lambda>r. Inr (l @ r @ [data n])))))"

definition printed :: "int list \<Rightarrow> string" where
  "printed xs = concat (map (\<lambda>x. dec_int x @ '' '') xs)"

section \<open>The class Tree\<close>

text \<open>The object's pointer to the root, the store, and the address \<^verbatim>\<open>malloc\<close> returns next.\<close>

record bstree =
  root :: ptr
  store :: store
  brk :: nat

definition Tree_new :: "unit \<Rightarrow> bstree" where
  "Tree_new u = \<lparr>root = None, store = (\<lambda>a. None), brk = 0\<rparr>"

fun insert_loop :: "nat \<Rightarrow> nat \<Rightarrow> int \<Rightarrow> nat \<Rightarrow> store \<Rightarrow> store cres" where
  "insert_loop 0 tmp_node d current h = Inl NoReturn"
| "insert_loop (Suc fuel) tmp_node d current h =
     bindE (deref h (Some current)) (\<lambda>n.
     let parent = current in
     if data n < d then
       (case right n of None \<Rightarrow> Inr (h(parent \<mapsto> n\<lparr>right := Some tmp_node\<rparr>)) | Some c \<Rightarrow> insert_loop fuel tmp_node d c h)
     else if data n > d then
       (case left n of None \<Rightarrow> Inr (h(parent \<mapsto> n\<lparr>left := Some tmp_node\<rparr>)) | Some c \<Rightarrow> insert_loop fuel tmp_node d c h)
     else Inr h)"

definition insert_node :: "int \<Rightarrow> bstree \<Rightarrow> bstree cres" where
  "insert_node d t =
     (let tmp_node = brk t;
          h = (store t)(tmp_node \<mapsto> \<lparr>data = d, left = None, right = None\<rparr>) in
      case root t of
        None \<Rightarrow> Inr (t\<lparr>root := Some tmp_node, store := h, brk := Suc (brk t)\<rparr>)
      | Some r \<Rightarrow> bindE (insert_loop (Suc (brk t)) tmp_node d r h) (\<lambda>h. Inr (t\<lparr>store := h, brk := Suc (brk t)\<rparr>)))"

fun find_loop :: "nat \<Rightarrow> int \<Rightarrow> store \<Rightarrow> ptr \<Rightarrow> ptr cres" where
  "find_loop 0 d h current = Inl NoReturn"
| "find_loop (Suc fuel) d h current =
     (if current \<noteq> None then
        bindE (deref h current) (\<lambda>n.
        if data n = d then Inr current
        else if data n < d then find_loop fuel d h (right n)
        else find_loop fuel d h (left n))
      else Inr None)"

definition search_node :: "int \<Rightarrow> bstree \<Rightarrow> ptr cres" where
  "search_node d t = find_loop (Suc (brk t)) d (store t) (root t)"

definition preorderTraversal :: "bstree \<Rightarrow> int list cres" where
  "preorderTraversal t = preorder_from (Suc (brk t)) (store t) (root t)"

definition inorderTraversal :: "bstree \<Rightarrow> int list cres" where
  "inorderTraversal t = inorder_from (Suc (brk t)) (store t) (root t)"

definition postorderTraversal :: "bstree \<Rightarrow> int list cres" where
  "postorderTraversal t = postorder_from (Suc (brk t)) (store t) (root t)"

definition tree_main :: "string list cres" where
  "tree_main =
     bindE (foldE insert_node [5, 3, 2, 4, 8, 7, 10] (Tree_new ())) (\<lambda>t.
     bindE (preorderTraversal t) (\<lambda>a. bindE (inorderTraversal t) (\<lambda>b. bindE (postorderTraversal t) (\<lambda>c.
     bindE (search_node 4 t) (\<lambda>r. bindE (deref (store t) r) (\<lambda>n.
     Inr [line (''PreOrder Traversal: '' @ printed a), line (''InOrder Traversal: '' @ printed b),
          line (''Postorder Traversal: '' @ printed c), line (''Found r->data '' @ dec_int (data n))]))))))"

section \<open>The tree behind a pointer\<close>

text \<open>A tree carries the address and the value of each node.\<close>

type_synonym atree = "(nat \<times> int) tree"

fun is_tree :: "store \<Rightarrow> ptr \<Rightarrow> atree \<Rightarrow> bool" where
  "is_tree h p Leaf \<longleftrightarrow> p = None"
| "is_tree h p (Node l ax r) \<longleftrightarrow> p = Some (fst ax) \<and>
     (\<exists>lp rp. h (fst ax) = Some \<lparr>data = snd ax, left = lp, right = rp\<rparr> \<and> is_tree h lp l \<and> is_tree h rp r)"

definition addrs :: "atree \<Rightarrow> nat list" where
  "addrs t = map fst (inorder t)"

definition vals :: "atree \<Rightarrow> int tree" where
  "vals t = map_tree snd t"

lemma addrs_simps [simp]: "addrs Leaf = []" "addrs (Node l ax r) = addrs l @ fst ax # addrs r"
  by (simp_all add: addrs_def)

lemma vals_simps [simp]: "vals Leaf = Leaf" "vals (Node l ax r) = Node (vals l) (snd ax) (vals r)"
  by (simp_all add: vals_def)

lemma is_tree_frame: "is_tree h p t \<Longrightarrow> (\<And>a. a \<in> set (addrs t) \<Longrightarrow> h' a = h a) \<Longrightarrow> is_tree h' p t"
  by (induction t arbitrary: p) fastforce+

lemma is_tree_allocated: "is_tree h p t \<Longrightarrow> a \<in> set (addrs t) \<Longrightarrow> h a \<noteq> None"
  by (induction t arbitrary: p) auto

lemma is_tree_Some: "is_tree h (Some a) t \<Longrightarrow> \<exists>l x r. t = Node l (a, x) r"
  by (cases t) auto

lemma traversals_correct:
  assumes "is_tree h p t" "height t < fuel"
  shows "preorder_from fuel h p = Inr (preorder (vals t))" "inorder_from fuel h p = Inr (inorder (vals t))"
    "postorder_from fuel h p = Inr (postorder (vals t))"
proof -
  have "preorder_from fuel h p = Inr (preorder (vals t)) \<and> inorder_from fuel h p = Inr (inorder (vals t)) \<and> postorder_from fuel h p = Inr (postorder (vals t))"
    using assms
  proof (induction t arbitrary: p fuel)
    case Leaf
    then show ?case by (cases fuel) auto
  next
    case (Node l ax r)
    then obtain f where "fuel = Suc f" "height l < f" "height r < f" by (cases fuel) auto
    then show ?case using Node by (auto simp: deref_def)
  qed
  then show "preorder_from fuel h p = Inr (preorder (vals t))" "inorder_from fuel h p = Inr (inorder (vals t))"
    "postorder_from fuel h p = Inr (postorder (vals t))" by auto
qed

section \<open>Insertion and search\<close>

fun ins :: "nat \<Rightarrow> int \<Rightarrow> atree \<Rightarrow> atree" where
  "ins a d Leaf = Node Leaf (a, d) Leaf"
| "ins a d (Node l bx r) =
     (if snd bx < d then Node l bx (ins a d r) else if snd bx > d then Node (ins a d l) bx r else Node l bx r)"

lemma set_addrs_ins: "set (addrs (ins a d t)) \<subseteq> insert a (set (addrs t))"
  by (induction t) auto

lemma distinct_addrs_ins: "distinct (addrs t) \<Longrightarrow> a \<notin> set (addrs t) \<Longrightarrow> distinct (addrs (ins a d t))"
proof (induction t)
  case (Node l bx r)
  have "set (addrs (ins a d l)) \<subseteq> insert a (set (addrs l))" "set (addrs (ins a d r)) \<subseteq> insert a (set (addrs r))" by (rule set_addrs_ins)+
  then show ?case using Node by auto
qed simp

lemma set_vals_ins [simp]: "set_tree (vals (ins a d t)) = insert d (set_tree (vals t))"
  by (induction t) auto

lemma bst_ins: "bst (vals t) \<Longrightarrow> bst (vals (ins a d t))"
  by (induction t) auto

text \<open>The loop changes one node and turns the tree into the one with the new node.\<close>

lemma insert_loop_inserts:
  assumes "is_tree h (Some c) t" "distinct (addrs t)" "a \<notin> set (addrs t)" "h a = Some \<lparr>data = d, left = None, right = None\<rparr>" "height t \<le> fuel"
  shows "\<exists>h'. insert_loop fuel a d c h = Inr h' \<and> is_tree h' (Some c) (ins a d t) \<and> (\<forall>b. b \<notin> set (addrs t) \<longrightarrow> h' b = h b)"
  using assms
proof (induction fuel arbitrary: c t)
  case 0
  then show ?case using is_tree_Some by fastforce
next
  case (Suc fuel)
  obtain l x r where t: "t = Node l (c, x) r" using is_tree_Some [OF Suc.prems(1)] by blast
  obtain lp rp where n: "h c = Some \<lparr>data = x, left = lp, right = rp\<rparr>" "is_tree h lp l" "is_tree h rp r" using Suc.prems(1) t by auto
  have dis: "distinct (addrs l)" "distinct (addrs r)" "c \<notin> set (addrs l)" "c \<notin> set (addrs r)" "set (addrs l) \<inter> set (addrs r) = {}"
    and a: "a \<notin> set (addrs l)" "a \<notin> set (addrs r)" "a \<noteq> c" and hgt: "height l \<le> fuel" "height r \<le> fuel"
    using Suc.prems t by auto
  have step: "insert_loop (Suc fuel) a d c h =
      (if x < d then (case rp of None \<Rightarrow> Inr (h(c \<mapsto> \<lparr>data = x, left = lp, right = Some a\<rparr>)) | Some c' \<Rightarrow> insert_loop fuel a d c' h)
       else if x > d then (case lp of None \<Rightarrow> Inr (h(c \<mapsto> \<lparr>data = x, left = Some a, right = rp\<rparr>)) | Some c' \<Rightarrow> insert_loop fuel a d c' h)
       else Inr h)"
    using n(1) by (simp add: deref_def split: option.split)
  have new: "is_tree (h(c \<mapsto> m)) (Some a) (Node Leaf (a, d) Leaf)" for m using Suc.prems(4) a(3) by simp
  have other: "is_tree (h(c \<mapsto> m)) lp l" "is_tree (h(c \<mapsto> m)) rp r" for m
    using is_tree_frame [OF n(2), of "h(c \<mapsto> m)"] is_tree_frame [OF n(3), of "h(c \<mapsto> m)"] dis(3,4) by (metis fun_upd_other)+
  consider "x < d" | "d < x" | "x = d" by linarith
  then show ?case
  proof cases
    case 1
    show ?thesis
    proof (cases rp)
      case None
      then have "r = Leaf" using n(3) by (cases r) auto
      then show ?thesis using step 1 None t new other(1) by auto
    next
      case (Some c')
      then obtain h' where h': "insert_loop fuel a d c' h = Inr h'" "is_tree h' rp (ins a d r)" "\<forall>b. b \<notin> set (addrs r) \<longrightarrow> h' b = h b"
        using Suc.IH [of c' r] n(3) dis(2) a(2) Suc.prems(4) hgt(2) by auto
      have "is_tree h' lp l" by (rule is_tree_frame [OF n(2)]) (use h'(3) dis(5) in blast)
      then show ?thesis using step 1 Some t h' n(1) dis(4) by auto
    qed
  next
    case 2
    show ?thesis
    proof (cases lp)
      case None
      then have "l = Leaf" using n(2) by (cases l) auto
      then show ?thesis using step 2 None t new other(2) by auto
    next
      case (Some c')
      then obtain h' where h': "insert_loop fuel a d c' h = Inr h'" "is_tree h' lp (ins a d l)" "\<forall>b. b \<notin> set (addrs l) \<longrightarrow> h' b = h b"
        using Suc.IH [of c' l] n(2) dis(1) a(1) Suc.prems(4) hgt(1) by auto
      have "is_tree h' rp r" by (rule is_tree_frame [OF n(3)]) (use h'(3) dis(5) in blast)
      then show ?thesis using step 2 Some t h' n(1) dis(3) by auto
    qed
  next
    case 3
    then show ?thesis using step t Suc.prems(1) by auto
  qed
qed

lemma find_loop_finds:
  assumes "is_tree h p t" "bst (vals t)" "height t < fuel"
  shows "\<exists>q. find_loop fuel d h p = Inr q \<and> (if d \<in> set_tree (vals t) then \<exists>n. deref h q = Inr n \<and> data n = d else q = None)"
  using assms
proof (induction t arbitrary: p fuel)
  case Leaf
  then show ?case by (cases fuel) auto
next
  case (Node l ax r)
  then obtain f where f: "fuel = Suc f" "height l < f" "height r < f" by (cases fuel) auto
  obtain lp rp where n: "p = Some (fst ax)" "h (fst ax) = Some \<lparr>data = snd ax, left = lp, right = rp\<rparr>" "is_tree h lp l" "is_tree h rp r"
    using Node.prems(1) by auto
  have b: "bst (vals l)" "bst (vals r)" "\<forall>y \<in> set_tree (vals l). y < snd ax" "\<forall>y \<in> set_tree (vals r). snd ax < y" using Node.prems(2) by auto
  consider "snd ax = d" | "snd ax < d" | "d < snd ax" by linarith
  then show ?case
  proof cases
    case 1
    then show ?thesis using f n by (auto simp: deref_def)
  next
    case 2
    then have "d \<notin> set_tree (vals l)" using b(3) by fastforce
    then show ?thesis using Node.IH(2) [OF n(4) b(2) f(3)] 2 f(1) n(1,2) by (auto simp: deref_def)
  next
    case 3
    then have "d \<notin> set_tree (vals r)" using b(4) by fastforce
    then show ?thesis using Node.IH(1) [OF n(3) b(1) f(2)] 3 f(1) n(1,2) by (auto simp: deref_def)
  qed
qed

section \<open>The contract of an ordered set\<close>

locale ordered_set =
  fixes put :: "int \<Rightarrow> 's \<Rightarrow> 's cres" and find :: "int \<Rightarrow> 's \<Rightarrow> bool cres" and listing :: "'s \<Rightarrow> int list cres"
    and start :: 's and holds :: "'s \<Rightarrow> int set \<Rightarrow> bool"
  assumes start: "holds start {}"
    and put: "holds s A \<Longrightarrow> \<exists>s'. put d s = Inr s' \<and> holds s' (insert d A)"
    and find: "holds s A \<Longrightarrow> find d s = Inr (d \<in> A)"
    and listing: "holds s A \<Longrightarrow> listing s = Inr (sorted_list_of_set A)"
begin

lemma puts: "holds s A \<Longrightarrow> \<exists>s'. foldE put ds s = Inr s' \<and> holds s' (A \<union> set ds)"
proof (induction ds arbitrary: s A)
  case (Cons d ds)
  obtain s1 where s1: "put d s = Inr s1" "holds s1 (insert d A)" using put [OF Cons.prems] by blast
  then show ?case using Cons.IH [OF s1(2)] by simp
qed simp

lemma build:
  "\<exists>s. foldE put ds start = Inr s \<and> listing s = Inr (sorted_list_of_set (set ds)) \<and> (\<forall>d. find d s = Inr (d \<in> set ds))"
  using puts [OF start, of ds] listing find by force

end

text \<open>The tree that holds a set of values; all addresses from \<open>brk\<close> on are free.\<close>

definition tree_holds :: "bstree \<Rightarrow> int set \<Rightarrow> bool" where
  "tree_holds s A \<longleftrightarrow> (\<exists>t. is_tree (store s) (root s) t \<and> distinct (addrs t) \<and> (\<forall>a \<in> set (addrs t). a < brk s) \<and> bst (vals t) \<and> set_tree (vals t) = A)"

definition contains :: "int \<Rightarrow> bstree \<Rightarrow> bool cres" where
  "contains d s = bindE (search_node d s) (\<lambda>p. Inr (p \<noteq> None))"

lemma height_le_addrs: "height t \<le> length (addrs t)"
  by (induction t) auto

lemma height_le_brk:
  assumes "distinct (addrs t)" "\<forall>a \<in> set (addrs t). a < n"
  shows "height t \<le> n"
proof -
  have "length (addrs t) \<le> n" using assms card_mono [of "{..<n}" "set (addrs t)"] by (auto simp: distinct_card subset_iff)
  then show ?thesis using height_le_addrs [of t] by linarith
qed

lemma vals_height [simp]: "height (vals t) = height t"
  by (induction t) auto

lemma inorder_bst: "bst t \<Longrightarrow> inorder t = sorted_list_of_set (set_tree t)" for t :: "int tree"
  by (metis bst_iff_sorted_wrt_less set_inorder sorted_list_of_set.idem_if_sorted_distinct strict_sorted_iff)

interpretation search_tree: ordered_set insert_node contains inorderTraversal "Tree_new ()" tree_holds
proof
  show "tree_holds (Tree_new ()) {}" by (auto simp: tree_holds_def Tree_new_def intro: exI [of _ Leaf])
next
  fix s A d assume "tree_holds s A"
  then obtain t where t: "is_tree (store s) (root s) t" "distinct (addrs t)" "\<forall>a \<in> set (addrs t). a < brk s" "bst (vals t)" "set_tree (vals t) = A"
    by (auto simp: tree_holds_def)
  have hgt: "height t < Suc (brk s)" using height_le_brk [OF t(2,3)] by simp
  show "inorderTraversal s = Inr (sorted_list_of_set A)"
    using traversals_correct(2) [OF t(1) hgt] inorder_bst [OF t(4)] t(5) by (simp add: inorderTraversal_def)
  show "contains d s = Inr (d \<in> A)"
    using find_loop_finds [OF t(1,4) hgt, of d] t(5) by (auto simp: contains_def search_node_def deref_def split: if_splits option.splits)
  let ?h = "(store s)(brk s \<mapsto> \<lparr>data = d, left = None, right = None\<rparr>)"
  have fresh: "brk s \<notin> set (addrs t)" using t(3) by blast
  have ins: "distinct (addrs (ins (brk s) d t))" "\<forall>a \<in> set (addrs (ins (brk s) d t)). a < Suc (brk s)"
    using distinct_addrs_ins [OF t(2) fresh] set_addrs_ins [of "brk s" d t] t(3) by (auto simp: less_Suc_eq)
  have h: "is_tree ?h (root s) t" by (rule is_tree_frame [OF t(1)]) (use fresh in auto)
  show "\<exists>s'. insert_node d s = Inr s' \<and> tree_holds s' (insert d A)"
  proof (cases "root s")
    case None
    then have "t = Leaf" using t(1) by (cases t) auto
    then have "tree_holds (s\<lparr>root := Some (brk s), store := ?h, brk := Suc (brk s)\<rparr>) (insert d A)"
      using t(5) by (auto simp: tree_holds_def intro!: exI [of _ "Node Leaf (brk s, d) Leaf"])
    then show ?thesis using None by (auto simp: insert_node_def Let_def)
  next
    case (Some r)
    obtain h' where h': "insert_loop (Suc (brk s)) (brk s) d r ?h = Inr h'" "is_tree h' (Some r) (ins (brk s) d t)"
      using insert_loop_inserts [of ?h r t "brk s" d "Suc (brk s)"] h Some t(2) fresh hgt by auto
    then have "tree_holds (s\<lparr>store := h', brk := Suc (brk s)\<rparr>) (insert d A)"
      using ins bst_ins [OF t(4)] t(5) Some by (auto simp: tree_holds_def intro!: exI [of _ "ins (brk s) d t"])
    then show ?thesis using h'(1) Some by (simp add: insert_node_def)
  qed
qed

text \<open>
  C18. After any sequence of insertions into a new tree, the in-order traversal prints the distinct
  values in ascending order, and the search finds a value exactly when it was inserted; no
  operation runs into a null or dangling pointer or does not return.
\<close>

theorem tree_is_ordered_set:
  "\<exists>t. foldE insert_node ds (Tree_new ()) = Inr t \<and> inorderTraversal t = Inr (sorted_list_of_set (set ds)) \<and>
    (\<forall>d. contains d t = Inr (d \<in> set ds))"
  by (rule search_tree.build)

lemma tree_main_output:
  "tree_main = Inr [line ''PreOrder Traversal: 5 3 2 4 8 7 10 '', line ''InOrder Traversal: 2 3 4 5 7 8 10 '',
     line ''Postorder Traversal: 2 4 3 7 10 8 5 '', line ''Found r->data 4'']"
  by code_simp

end
