(* ===== verification/Binary_Trees.thy ===== *)
theory Binary_Trees
  imports Cpp_Trees
begin

text \<open>
  \<^verbatim>\<open>binaryTree/\<close>: the programs over \<^verbatim>\<open>struct TreeNode\<close>, whose nodes are those of \<open>Cpp_Trees\<close>:
  recursive traversals and freeing (\<^verbatim>\<open>TreeNode.cpp\<close>), printing level by level and in zigzag
  (\<^verbatim>\<open>traversal.cpp\<close>), and the paths with a given sum (\<^verbatim>\<open>pathSum.cpp\<close>). The loops over queues and
  stacks of pointers are related to the list of subtrees at each depth.
\<close>

section \<open>TreeNode.cpp\<close>

text \<open>\<^verbatim>\<open>newNode\<close> takes the next free address.\<close>

definition newNode :: "int \<Rightarrow> store \<times> nat \<Rightarrow> ptr \<times> store \<times> nat" where
  "newNode v = (\<lambda>(h, n). (Some n, h(n \<mapsto> \<lparr>data = v, left = None, right = None\<rparr>), Suc n))"

fun inOrderTraversal :: "nat \<Rightarrow> store \<Rightarrow> ptr \<Rightarrow> int list cres" where
  "inOrderTraversal 0 h pRoot = Inl NoReturn"
| "inOrderTraversal (Suc fuel) h pRoot =
     (if pRoot = None then Inr []
      else bindE (deref h pRoot) (\<lambda>n.
        bindE (if left n \<noteq> None then inOrderTraversal fuel h (left n) else Inr []) (\<lambda>l.
        bindE (if right n \<noteq> None then inOrderTraversal fuel h (right n) else Inr []) (\<lambda>r. Inr (l @ data n # r)))))"

fun preOrderTraversal :: "nat \<Rightarrow> store \<Rightarrow> ptr \<Rightarrow> int list cres" where
  "preOrderTraversal 0 h pRoot = Inl NoReturn"
| "preOrderTraversal (Suc fuel) h pRoot =
     (if pRoot = None then Inr []
      else bindE (deref h pRoot) (\<lambda>n.
        bindE (if left n \<noteq> None then preOrderTraversal fuel h (left n) else Inr []) (\<lambda>l.
        bindE (if right n \<noteq> None then preOrderTraversal fuel h (right n) else Inr []) (\<lambda>r. Inr (data n # l @ r)))))"

fun postOrderTraversal :: "nat \<Rightarrow> store \<Rightarrow> ptr \<Rightarrow> int list cres" where
  "postOrderTraversal 0 h pRoot = Inl NoReturn"
| "postOrderTraversal (Suc fuel) h pRoot =
     (if pRoot = None then Inr []
      else bindE (deref h pRoot) (\<lambda>n.
        bindE (if left n \<noteq> None then postOrderTraversal fuel h (left n) else Inr []) (\<lambda>l.
        bindE (if right n \<noteq> None then postOrderTraversal fuel h (right n) else Inr []) (\<lambda>r. Inr (l @ r @ [data n])))))"

text \<open>Freeing takes the node out of the store; freeing it a second time is a fault.\<close>

fun freeTree :: "nat \<Rightarrow> ptr \<Rightarrow> store \<Rightarrow> store cres" where
  "freeTree 0 pRoot h = Inl NoReturn"
| "freeTree (Suc fuel) pRoot h =
     (case pRoot of None \<Rightarrow> Inr h
      | Some a \<Rightarrow> bindE (deref h pRoot) (\<lambda>n.
          bindE (if left n \<noteq> None then freeTree fuel (left n) h else Inr h) (\<lambda>h.
          bindE (deref h pRoot) (\<lambda>n.
          bindE (if right n \<noteq> None then freeTree fuel (right n) h else Inr h) (\<lambda>h.
          bindE (deref h pRoot) (\<lambda>n. Inr (h(a := None))))))))"

section \<open>traversal.cpp\<close>

text \<open>The two counters are not bounded here; the program's are of type \<^verbatim>\<open>int\<close>, which only a level of \<open>2 ^ 31\<close> nodes exceeds.\<close>

fun level_loop :: "nat \<Rightarrow> store \<Rightarrow> ptr list \<Rightarrow> int \<Rightarrow> int \<Rightarrow> string cres" where
  "level_loop 0 h q toBePrinted nextLevel = Inl NoReturn"
| "level_loop (Suc fuel) h q toBePrinted nextLevel =
     (case q of [] \<Rightarrow> Inr ''''
      | pNode # q \<Rightarrow> bindE (deref h pNode) (\<lambda>n.
          let (q, nextLevel) = (if left n \<noteq> None then (q @ [left n], nextLevel + 1) else (q, nextLevel));
              (q, nextLevel) = (if right n \<noteq> None then (q @ [right n], nextLevel + 1) else (q, nextLevel));
              toBePrinted = toBePrinted - 1 in
          if toBePrinted = 0
          then bindE (level_loop fuel h q nextLevel 0) (\<lambda>s. Inr (dec_int (data n) @ '' '' @ [newline] @ s))
          else bindE (level_loop fuel h q toBePrinted nextLevel) (\<lambda>s. Inr (dec_int (data n) @ '' '' @ s))))"

definition printTopToBottom :: "nat \<Rightarrow> store \<Rightarrow> ptr \<Rightarrow> string cres" where
  "printTopToBottom fuel h pRoot = (if pRoot = None then Inr '''' else level_loop fuel h [pRoot] 1 0)"

text \<open>The two stacks, the current one and the next; \<open>odd\<close> says that the current one is \<^verbatim>\<open>levels[1]\<close>. Taking
  the top of an empty stack is undefined.\<close>

fun zigzag_loop :: "nat \<Rightarrow> store \<Rightarrow> bool \<Rightarrow> ptr list \<Rightarrow> ptr list \<Rightarrow> string cres" where
  "zigzag_loop 0 h odd' cur nxt = Inl NoReturn"
| "zigzag_loop (Suc fuel) h odd' cur nxt =
     (if cur = [] \<and> nxt = [] then Inr ''''
      else case cur of [] \<Rightarrow> Inl OutOfBounds
      | p # cur \<Rightarrow> bindE (deref h p) (\<lambda>n.
          let push = (\<lambda>c s. if c \<noteq> None then c # s else s);
              nxt = (if \<not> odd' then push (right n) (push (left n) nxt) else push (left n) (push (right n) nxt)) in
          if cur = []
          then bindE (zigzag_loop fuel h (\<not> odd') nxt cur) (\<lambda>s. Inr (dec_int (data n) @ '' '' @ [newline] @ s))
          else bindE (zigzag_loop fuel h odd' cur nxt) (\<lambda>s. Inr (dec_int (data n) @ '' '' @ s))))"

definition printZigZag :: "nat \<Rightarrow> store \<Rightarrow> ptr \<Rightarrow> string cres" where
  "printZigZag fuel h pRoot = (if pRoot = None then Inr '''' else zigzag_loop fuel h False [pRoot] [])"

text \<open>An assignment such as \<^verbatim>\<open>root->left->right = newNode(7)\<close>: the path from the root (\<open>True\<close> for
  right) ends with the pointer that is set.\<close>

fun follow :: "store \<Rightarrow> ptr \<Rightarrow> bool list \<Rightarrow> ptr cres" where
  "follow h p [] = Inr p"
| "follow h p (b # bs) = bindE (deref h p) (\<lambda>n. follow h (if b then right n else left n) bs)"

definition attach :: "ptr \<Rightarrow> bool list \<times> int \<Rightarrow> store \<times> nat \<Rightarrow> (store \<times> nat) cres" where
  "attach rt = (\<lambda>(path, v) hn.
     let (c, h, n) = newNode v hn in
     bindE (follow h rt (butlast path)) (\<lambda>p. bindE (deref h p) (\<lambda>nd.
     Inr (h(the p \<mapsto> (if last path then nd\<lparr>right := c\<rparr> else nd\<lparr>left := c\<rparr>)), n))))"

definition build :: "int \<Rightarrow> (bool list \<times> int) list \<Rightarrow> (ptr \<times> store) cres" where
  "build v rest = (let (rt, hn) = newNode v (\<lambda>a. None, 0) in bindE (foldE (attach rt) rest hn) (\<lambda>(h, n). Inr (rt, h)))"

definition traversal_main :: "nat \<Rightarrow> string cres" where
  "traversal_main fuel =
     bindE (build 8 [([False], 6), ([False, False], 5), ([False, True], 7), ([True], 10), ([True, False], 9), ([True, True], 11)]) (\<lambda>(rt, h).
     bindE (preOrderTraversal fuel h rt) (\<lambda>a. bindE (inOrderTraversal fuel h rt) (\<lambda>b. bindE (postOrderTraversal fuel h rt) (\<lambda>c.
     bindE (printTopToBottom fuel h rt) (\<lambda>d. bindE (printZigZag fuel h rt) (\<lambda>e. bindE (freeTree fuel rt h) (\<lambda>h.
     Inr (printed a @ line '': preOrder'' @ printed b @ line '': inOrder'' @ printed c @ line '': postOrder'' @ d @ e)))))))) "

section \<open>pathSum.cpp\<close>

text \<open>\<open>path\<close> and \<open>currentSum\<close> are passed by value, so what a call does to them at its end is lost.\<close>

fun findPath :: "nat \<Rightarrow> store \<Rightarrow> ptr \<Rightarrow> int \<Rightarrow> int list \<Rightarrow> int \<Rightarrow> string list cres" where
  "findPath 0 h pRoot expectedSum path currentSum = Inl NoReturn"
| "findPath (Suc fuel) h pRoot expectedSum path currentSum =
     (if pRoot = None then Inr []
      else bindE (deref h pRoot) (\<lambda>n. bindE (c_add currentSum (data n)) (\<lambda>currentSum.
        let path = path @ [data n] in
        if left n = None \<and> right n = None then
          if currentSum = expectedSum then Inr [line (''Found a Path with Sum '' @ dec_int expectedSum @ '' '' @ printed path)]
          else bindE (c_sub currentSum (data n)) (\<lambda>currentSum. Inr [])
        else
          bindE (if left n \<noteq> None then findPath fuel h (left n) expectedSum path currentSum else Inr []) (\<lambda>l.
          bindE (if right n \<noteq> None then findPath fuel h (right n) expectedSum path currentSum else Inr []) (\<lambda>r. Inr (l @ r))))))"

definition findPathWithSum :: "nat \<Rightarrow> store \<Rightarrow> ptr \<Rightarrow> int \<Rightarrow> string list cres" where
  "findPathWithSum fuel h pRoot expectedSum = (if pRoot = None then Inr [] else findPath fuel h pRoot expectedSum [] 0)"

definition path_test :: "nat \<Rightarrow> int \<Rightarrow> ptr \<times> store \<Rightarrow> string list cres" where
  "path_test fuel s = (\<lambda>(rt, h). bindE (findPathWithSum fuel h rt s) (\<lambda>out. bindE (freeTree fuel rt h) (\<lambda>h. Inr out)))"

definition pathSum_main :: "nat \<Rightarrow> string list cres" where
  "pathSum_main fuel =
     (let five = [([False], 5), ([False, False], 4), ([False, True], 7), ([True], 12)] in
      bindE (bindE (build 10 five) (path_test fuel 22)) (\<lambda>a.
      bindE (bindE (build 10 five) (path_test fuel 23)) (\<lambda>b.
      bindE (bindE (build 10 []) (path_test fuel 5)) (\<lambda>c.
      bindE (bindE (build 10 [([False], 5), ([False, False], 4), ([False, False, False], 7)]) (path_test fuel 26)) (\<lambda>d.
      bindE (path_test fuel 23 (None, \<lambda>a. None)) (\<lambda>e. Inr (a @ b @ c @ d @ e)))))))"

lemma mains_output:
  "traversal_main 8 = Inr (line ''8 6 5 7 10 9 11 : preOrder'' @ line ''5 6 7 8 9 10 11 : inOrder'' @ line ''5 7 6 9 11 10 8 : postOrder'' @
     line ''8 '' @ line ''6 10 '' @ line ''5 7 9 11 '' @ line ''8 '' @ line ''10 6 '' @ line ''5 7 9 11 '')"
  "pathSum_main 5 = Inr [line ''Found a Path with Sum 22 10 5 7 '', line ''Found a Path with Sum 22 10 12 '', line ''Found a Path with Sum 26 10 5 4 7 '']"
  by code_simp+

section \<open>Traversals and freeing\<close>

lemma is_tree_None: "is_tree h None t \<Longrightarrow> t = Leaf"
  by (cases t) auto

lemma guarded_traversals:
  assumes "is_tree h p t" "height t < fuel"
  shows "preOrderTraversal fuel h p = Inr (preorder (vals t)) \<and> inOrderTraversal fuel h p = Inr (inorder (vals t)) \<and>
    postOrderTraversal fuel h p = Inr (postorder (vals t))"
  using assms
proof (induction t arbitrary: p fuel)
  case Leaf
  then show ?case by (cases fuel) auto
next
  case (Node l ax r)
  then obtain f where f: "fuel = Suc f" "height l < f" "height r < f" by (cases fuel) auto
  obtain lp rp where n: "p = Some (fst ax)" "h (fst ax) = Some \<lparr>data = snd ax, left = lp, right = rp\<rparr>" "is_tree h lp l" "is_tree h rp r"
    using Node.prems(1) by auto
  note IH = Node.IH(1) [OF n(3) f(2)] Node.IH(2) [OF n(4) f(3)]
  have leaf: "lp = None \<Longrightarrow> l = Leaf" "rp = None \<Longrightarrow> r = Leaf" using n(3,4) by (metis is_tree_None)+
  show ?case using IH leaf n(1,2) f(1) by (cases lp; cases rp) (auto simp: deref_def)
qed

lemma freeTree_frees:
  assumes "is_tree h p t" "distinct (addrs t)" "height t < fuel"
  shows "freeTree fuel p h = Inr (\<lambda>a. if a \<in> set (addrs t) then None else h a)"
  using assms
proof (induction t arbitrary: p fuel h)
  case Leaf
  then show ?case by (cases fuel) auto
next
  case (Node l ax r)
  then obtain f where f: "fuel = Suc f" "height l < f" "height r < f" by (cases fuel) auto
  obtain lp rp where n: "p = Some (fst ax)" "h (fst ax) = Some \<lparr>data = snd ax, left = lp, right = rp\<rparr>" "is_tree h lp l" "is_tree h rp r"
    using Node.prems(1) by auto
  have dis: "distinct (addrs l)" "distinct (addrs r)" "fst ax \<notin> set (addrs l)" "fst ax \<notin> set (addrs r)" "set (addrs l) \<inter> set (addrs r) = {}"
    using Node.prems(2) by auto
  define h1 where "h1 = (\<lambda>a. if a \<in> set (addrs l) then None else h a)"
  define h2 where "h2 = (\<lambda>a. if a \<in> set (addrs r) then None else h1 a)"
  have one: "(if lp \<noteq> None then freeTree f lp h else Inr h) = Inr h1"
  proof (cases lp)
    case None
    then have "l = Leaf" using n(3) by (cases l) auto
    then show ?thesis using None by (simp add: h1_def)
  qed (use Node.IH(1) [OF n(3) dis(1) f(2)] in \<open>simp add: h1_def\<close>)
  have r: "is_tree h1 rp r" by (rule is_tree_frame [OF n(4)]) (use dis(5) in \<open>auto simp: h1_def\<close>)
  have two: "(if rp \<noteq> None then freeTree f rp h1 else Inr h1) = Inr h2"
  proof (cases rp)
    case None
    then have "r = Leaf" using n(4) by (cases r) auto
    then show ?thesis using None by (simp add: h2_def)
  qed (use Node.IH(2) [OF r dis(2) f(3)] in \<open>simp add: h2_def\<close>)
  have d: "deref h p = Inr \<lparr>data = snd ax, left = lp, right = rp\<rparr>" "deref h1 p = Inr \<lparr>data = snd ax, left = lp, right = rp\<rparr>"
      "deref h2 p = Inr \<lparr>data = snd ax, left = lp, right = rp\<rparr>" using n(1,2) dis(3,4) by (simp_all add: deref_def h1_def h2_def)
  have "freeTree fuel p h = Inr (h2(fst ax := None))" using f(1) one two d n(1) by (cases lp; cases rp) auto
  moreover have "h2(fst ax := None) = (\<lambda>a. if a \<in> set (addrs (Node l ax r)) then None else h a)" by (auto simp: h1_def h2_def fun_eq_iff)
  ultimately show ?case by simp
qed

text \<open>
  The recursive functions on a tree of linked nodes, whatever its shape: the traversals print the values in
  pre-order, in-order and post-order, and freeing releases exactly the nodes of the tree, each once.
\<close>

theorem tree_functions_correct:
  assumes "is_tree h p t" "distinct (addrs t)" "height t < fuel"
  shows "preOrderTraversal fuel h p = Inr (preorder (vals t)) \<and> inOrderTraversal fuel h p = Inr (inorder (vals t)) \<and>
    postOrderTraversal fuel h p = Inr (postorder (vals t)) \<and>
    freeTree fuel p h = Inr (\<lambda>a. if a \<in> set (addrs t) then None else h a)"
  using guarded_traversals [OF assms(1,3)] freeTree_frees [OF assms] by blast

section \<open>Levels\<close>

text \<open>The subtrees whose roots are at a depth, from left to right, and the values there.\<close>

fun subs :: "nat \<Rightarrow> 'a tree \<Rightarrow> 'a tree list" where
  "subs k Leaf = []"
| "subs 0 (Node l x r) = [Node l x r]"
| "subs (Suc k) (Node l x r) = subs k l @ subs k r"

fun level :: "nat \<Rightarrow> 'a tree \<Rightarrow> 'a list" where
  "level k Leaf = []"
| "level 0 (Node l x r) = [x]"
| "level (Suc k) (Node l x r) = level k l @ level k r"

definition kids :: "'a tree \<Rightarrow> 'a tree list" where
  "kids t = (case t of Leaf \<Rightarrow> [] | Node l x r \<Rightarrow> filter (\<lambda>t. t \<noteq> Leaf) [l, r])"

definition proper :: "store \<Rightarrow> atree list \<Rightarrow> bool" where
  "proper h ts \<longleftrightarrow> (\<forall>t \<in> set ts. t \<noteq> Leaf \<and> (\<exists>p. is_tree h p t))"

definition rootp :: "atree \<Rightarrow> ptr" where
  "rootp t = (case t of Leaf \<Rightarrow> None | Node l ax r \<Rightarrow> Some (fst ax))"

definition rootv :: "atree \<Rightarrow> int" where
  "rootv t = snd (value t)"

lemma kids_subs: "concat (map kids (subs k t)) = subs (Suc k) t"
proof (induction k t rule: subs.induct)
  case (2 l x r)
  then show ?case by (cases l; cases r) (auto simp: kids_def)
qed (simp_all add: kids_def)

lemma level_subs: "level k (vals t) = map rootv (subs k t)"
  by (induction k t rule: subs.induct) (auto simp: rootv_def)

lemma subs_empty: "subs k t = [] \<longleftrightarrow> height t \<le> k"
  by (induction k t rule: subs.induct) auto

lemma proper_append [simp]: "proper h (xs @ ys) \<longleftrightarrow> proper h xs \<and> proper h ys"
  by (auto simp: proper_def)

lemma proper_subs: "is_tree h p t \<Longrightarrow> proper h (subs k t)"
proof (induction k t arbitrary: p rule: subs.induct)
  case (3 k l x r)
  then obtain lp rp where "is_tree h lp l" "is_tree h rp r" by auto
  then show ?case using 3 by (simp add: proper_append)
qed (auto simp: proper_def)

lemma proper_kids: "proper h [t] \<Longrightarrow> proper h (kids t)"
  by (cases t) (auto simp: proper_def kids_def)

lemma proper_Cons: "proper h (t # ts) \<longleftrightarrow> proper h [t] \<and> proper h ts"
  by (auto simp: proper_def)

lemma root_node:
  assumes "proper h [t]"
  shows "\<exists>lp rp. deref h (rootp t) = Inr \<lparr>data = rootv t, left = lp, right = rp\<rparr> \<and>
    map rootp (kids t) = (if lp = None then [] else [lp]) @ (if rp = None then [] else [rp])"
proof -
  obtain l ax r lp rp where t: "t = Node l ax r" "h (fst ax) = Some \<lparr>data = snd ax, left = lp, right = rp\<rparr>" "is_tree h lp l" "is_tree h rp r"
    using assms by (cases t) (auto simp: proper_def)
  have "rootp l = lp" "rootp r = rp" "l = Leaf \<longleftrightarrow> lp = None" "r = Leaf \<longleftrightarrow> rp = None"
    using t(3,4) by (cases l; cases r; auto simp: rootp_def)+
  then show ?thesis using t by (auto simp: rootp_def rootv_def deref_def kids_def)
qed

lemma length_subs_size: "(\<Sum>k<height t. length (subs k t)) = size t"
proof (induction t)
  case (Node l x r)
  have tail: "(\<Sum>k<m. length (subs k s)) = (\<Sum>k<height s. length (subs k s))" if "height s \<le> m" for m and s :: "'a tree"
    using that by (intro sum.mono_neutral_right) (auto simp: subs_empty)
  have "(\<Sum>k<height (Node l x r). length (subs k (Node l x r))) = 1 + (\<Sum>k<max (height l) (height r). length (subs k l) + length (subs k r))"
    by (simp add: sum.lessThan_Suc_shift del: sum.lessThan_Suc)
  also have "\<dots> = 1 + (size l + size r)" using Node tail [of l "max (height l) (height r)"] tail [of r "max (height l) (height r)"]
    by (simp add: sum.distrib)
  finally show ?case by simp
qed simp

subsection \<open>Level by level\<close>

lemma level_loop_level:
  assumes "proper h (cur @ nxt)" "cur \<noteq> []" "level_loop fuel h (map rootp (nxt @ concat (map kids cur))) (int (length (nxt @ concat (map kids cur)))) 0 = Inr s"
  shows "level_loop (length cur + fuel) h (map rootp (cur @ nxt)) (int (length cur)) (int (length nxt)) = Inr (printed (map rootv cur) @ [newline] @ s)"
  using assms
proof (induction cur arbitrary: nxt)
  case (Cons t cur)
  have t: "proper h [t]" "proper h (cur @ nxt)" using Cons.prems(1) proper_Cons [of h t "cur @ nxt"] by auto
  obtain lp rp where n: "deref h (rootp t) = Inr \<lparr>data = rootv t, left = lp, right = rp\<rparr>"
      "map rootp (kids t) = (if lp = None then [] else [lp]) @ (if rp = None then [] else [rp])" using root_node [OF t(1)] by blast
  have len: "length (kids t) = (if lp = None then 0 else 1) + (if rp = None then 0 else 1)" using arg_cong [OF n(2), of length] by (simp split: if_splits)
  have step: "level_loop (Suc (length cur + fuel)) h (map rootp (t # cur @ nxt)) (int (Suc (length cur))) (int (length nxt)) =
      (if cur = [] then bindE (level_loop fuel h (map rootp (nxt @ kids t)) (int (length (nxt @ kids t))) 0) (\<lambda>s. Inr (dec_int (rootv t) @ '' '' @ [newline] @ s))
       else bindE (level_loop (length cur + fuel) h (map rootp (cur @ nxt @ kids t)) (int (length cur)) (int (length (nxt @ kids t)))) (\<lambda>s. Inr (dec_int (rootv t) @ '' '' @ s)))"
    using n len by (subst level_loop.simps(2), cases lp; cases rp; cases cur) (simp_all add: Let_def add.commute del: level_loop.simps)
  show ?case
  proof (cases "cur = []")
    case True
    then show ?thesis using step Cons.prems(3) by (simp add: printed_def)
  next
    case False
    have "proper h (cur @ nxt @ kids t)" using t proper_kids [OF t(1)] by simp
    then have "level_loop (length cur + fuel) h (map rootp (cur @ (nxt @ kids t))) (int (length cur)) (int (length (nxt @ kids t))) =
        Inr (printed (map rootv cur) @ [newline] @ s)" using Cons.prems(3) False by (intro Cons.IH) simp_all
    then show ?thesis using step False by (simp add: printed_def)
  qed
qed simp

lemma level_loop_subs:
  assumes "is_tree h p t" "(\<Sum>k=k..<height t. length (subs k t)) < fuel"
  shows "level_loop fuel h (map rootp (subs k t)) (int (length (subs k t))) 0 =
    Inr (concat (map (\<lambda>k. line (printed (level k (vals t)))) [k..<height t]))"
  using assms(2)
proof (induction "height t - k" arbitrary: k fuel)
  case 0
  then have "subs k t = []" by (simp add: subs_empty)
  then show ?case using 0 by (cases fuel) auto
next
  case (Suc d)
  then have k: "k < height t" by simp
  then have ne: "subs k t \<noteq> []" by (simp add: subs_empty)
  have split: "(\<Sum>k=k..<height t. length (subs k t)) = length (subs k t) + (\<Sum>k=Suc k..<height t. length (subs k t))"
    using k by (rule sum.atLeast_Suc_lessThan)
  then obtain f where f: "fuel = length (subs k t) + f" "(\<Sum>k=Suc k..<height t. length (subs k t)) < f"
    using Suc.prems that [of "fuel - length (subs k t)"] by auto
  have "proper h (subs k t @ [])" using proper_subs [OF assms(1)] by simp
  moreover have "level_loop f h (map rootp ([] @ concat (map kids (subs k t)))) (int (length ([] @ concat (map kids (subs k t))))) 0 =
      Inr (concat (map (\<lambda>k. line (printed (level k (vals t)))) [Suc k..<height t]))"
    using Suc.hyps(1) [of "Suc k" f] Suc.hyps(2) f(2) by (simp add: kids_subs)
  ultimately show ?case using level_loop_level [of h "subs k t" "[]" f] ne k f(1) by (simp add: upt_conv_Cons level_subs line_def)
qed

subsection \<open>In zigzag\<close>

definition sided :: "bool \<Rightarrow> 'a list \<Rightarrow> 'a list" where
  "sided b xs = (if b then rev xs else xs)"

lemma zigzag_level:
  assumes "proper h cur" "cur \<noteq> []" "zigzag_loop fuel h (\<not> b) (map rootp (rev (concat (map (\<lambda>t. sided b (kids t)) cur)) @ nxt)) [] = Inr s"
  shows "zigzag_loop (length cur + fuel) h b (map rootp cur) (map rootp nxt) = Inr (printed (map rootv cur) @ [newline] @ s)"
  using assms
proof (induction cur arbitrary: nxt)
  case (Cons t cur)
  have t: "proper h [t]" "proper h cur" using Cons.prems(1) proper_Cons [of h t cur] by auto
  obtain lp rp where n: "deref h (rootp t) = Inr \<lparr>data = rootv t, left = lp, right = rp\<rparr>"
      "map rootp (kids t) = (if lp = None then [] else [lp]) @ (if rp = None then [] else [rp])" using root_node [OF t(1)] by blast
  let ?nxt = "rev (sided b (kids t)) @ nxt"
  have nxt: "map rootp ?nxt = (if \<not> b then (if rp \<noteq> None then [rp] else []) @ (if lp \<noteq> None then [lp] else [])
      else (if lp \<noteq> None then [lp] else []) @ (if rp \<noteq> None then [rp] else [])) @ map rootp nxt"
    using n(2) arg_cong [OF n(2), of rev] by (auto simp: sided_def rev_map [symmetric])
  have step: "zigzag_loop (Suc (length cur + fuel)) h b (map rootp (t # cur)) (map rootp nxt) =
      (if cur = [] then bindE (zigzag_loop fuel h (\<not> b) (map rootp ?nxt) []) (\<lambda>s. Inr (dec_int (rootv t) @ '' '' @ [newline] @ s))
       else bindE (zigzag_loop (length cur + fuel) h b (map rootp cur) (map rootp ?nxt)) (\<lambda>s. Inr (dec_int (rootv t) @ '' '' @ s)))"
    unfolding nxt using n(1) by (subst zigzag_loop.simps(2), cases b; cases lp; cases rp; cases cur) (simp_all add: Let_def del: zigzag_loop.simps)
  show ?case
  proof (cases "cur = []")
    case True
    then show ?thesis using step Cons.prems(3) by (simp add: printed_def)
  next
    case False
    have "zigzag_loop fuel h (\<not> b) (map rootp (rev (concat (map (\<lambda>t. sided b (kids t)) cur)) @ ?nxt)) [] = Inr s" using Cons.prems(3) by simp
    from Cons.IH [OF t(2) False this] show ?thesis using step False by (simp add: printed_def)
  qed
qed simp

lemma rev_sided_kids: "rev (concat (map (\<lambda>t. sided b (kids t)) (sided b ts))) = sided (\<not> b) (concat (map kids ts))"
  by (simp add: sided_def rev_concat rev_map comp_def)

lemma proper_sided [simp]: "proper h (sided b ts) \<longleftrightarrow> proper h ts"
  by (simp add: proper_def sided_def)

lemma zigzag_subs:
  assumes "is_tree h p t" "(\<Sum>k=k..<height t. length (subs k t)) < fuel"
  shows "zigzag_loop fuel h (odd k) (map rootp (sided (odd k) (subs k t))) [] =
    Inr (concat (map (\<lambda>k. line (printed (sided (odd k) (level k (vals t))))) [k..<height t]))"
  using assms(2)
proof (induction "height t - k" arbitrary: k fuel)
  case 0
  then have "subs k t = []" by (simp add: subs_empty)
  then show ?case using 0 by (cases fuel) (auto simp: sided_def)
next
  case (Suc d)
  then have k: "k < height t" by simp
  let ?cur = "sided (odd k) (subs k t)"
  have ne: "?cur \<noteq> []" "length ?cur = length (subs k t)" using k subs_empty [of k t] by (auto simp: sided_def)
  have "(\<Sum>k=k..<height t. length (subs k t)) = length (subs k t) + (\<Sum>k=Suc k..<height t. length (subs k t))"
    using k by (rule sum.atLeast_Suc_lessThan)
  then obtain f where f: "fuel = length ?cur + f" "(\<Sum>k=Suc k..<height t. length (subs k t)) < f"
    using Suc.prems ne(2) that [of "fuel - length ?cur"] by auto
  have "proper h ?cur" using proper_subs [OF assms(1)] by simp
  moreover have "zigzag_loop f h (\<not> odd k) (map rootp (rev (concat (map (\<lambda>t. sided (odd k) (kids t)) ?cur)) @ [])) [] =
      Inr (concat (map (\<lambda>k. line (printed (sided (odd k) (level k (vals t))))) [Suc k..<height t]))"
    using Suc.hyps(1) [of "Suc k" f] Suc.hyps(2) f(2) by (simp add: rev_sided_kids kids_subs)
  moreover have "map rootv ?cur = sided (odd k) (level k (vals t))" by (simp add: sided_def level_subs rev_map)
  ultimately show ?case using zigzag_level [of h ?cur f "odd k" "[]"] ne(1) k f(1) by (simp add: upt_conv_Cons line_def)
qed

lemma start_subs: "is_tree h (Some a) t \<Longrightarrow> map rootp (subs 0 t) = [Some a] \<and> length (subs 0 t) = 1"
  by (cases t) (auto simp: rootp_def)

text \<open>
  C31. Level-order printing: for any tree, one line for each depth with the values at that depth from left to right; the
  zigzag printing gives the same lines with those of odd depth from right to left. Both loops end, and neither
  takes the top of an empty stack.
\<close>

theorem levels_printed:
  assumes "is_tree h p t" "size t < fuel"
  shows "printTopToBottom fuel h p = Inr (concat (map (\<lambda>k. line (printed (level k (vals t)))) [0..<height t])) \<and>
    printZigZag fuel h p = Inr (concat (map (\<lambda>k. line (printed (sided (odd k) (level k (vals t))))) [0..<height t]))"
proof (cases p)
  case None
  then have "t = Leaf" using assms(1) is_tree_None by simp
  then show ?thesis using None by (simp add: printTopToBottom_def printZigZag_def)
next
  case (Some a)
  have sz: "(\<Sum>k=0..<height t. length (subs k t)) < fuel" using assms(2) length_subs_size [of t] by (simp add: atLeast0LessThan)
  have st: "map rootp (subs 0 t) = [p]" "length (subs 0 t) = 1" using start_subs assms(1) Some by auto
  show ?thesis
    using level_loop_subs [OF assms(1) sz] zigzag_subs [OF assms(1) sz] Some unfolding st
    by (simp add: printTopToBottom_def printZigZag_def st sided_def)
qed

section \<open>Paths\<close>

text \<open>The values on the ways from the root to a leaf.\<close>

fun paths :: "'a tree \<Rightarrow> 'a list list" where
  "paths Leaf = []"
| "paths (Node l x r) = (if l = Leaf \<and> r = Leaf then [[x]] else map ((#) x) (paths l @ paths r))"

fun weight :: "int tree \<Rightarrow> int" where
  "weight Leaf = 0"
| "weight (Node l x r) = weight l + \<bar>x\<bar> + weight r"

lemma weight_nonneg: "0 \<le> weight t"
  by (induction t) auto

definition path_line :: "int \<Rightarrow> int list \<Rightarrow> string" where
  "path_line s path = line (''Found a Path with Sum '' @ dec_int s @ '' '' @ printed path)"

lemma vals_Leaf [simp]: "vals t = Leaf \<longleftrightarrow> t = Leaf"
  by (cases t) auto

lemma findPath_finds:
  assumes "is_tree h p t" "height t < fuel" "\<bar>cur\<bar> + weight (vals t) \<le> INT_MAX"
  shows "findPath fuel h p s path cur = Inr (map (\<lambda>q. path_line s (path @ q)) (filter (\<lambda>q. cur + sum_list q = s) (paths (vals t))))"
  using assms
proof (induction t arbitrary: p fuel path cur)
  case Leaf
  then show ?case by (cases fuel) auto
next
  case (Node l ax r)
  then obtain f where f: "fuel = Suc f" "height l < f" "height r < f" by (cases fuel) auto
  obtain lp rp where n: "p = Some (fst ax)" "h (fst ax) = Some \<lparr>data = snd ax, left = lp, right = rp\<rparr>" "is_tree h lp l" "is_tree h rp r"
    using Node.prems(1) by auto
  have w: "\<bar>cur + snd ax\<bar> + weight (vals l) \<le> INT_MAX" "\<bar>cur + snd ax\<bar> + weight (vals r) \<le> INT_MAX" "\<bar>cur + snd ax\<bar> \<le> INT_MAX" "\<bar>cur\<bar> \<le> INT_MAX"
    using Node.prems(3) weight_nonneg [of "vals l"] weight_nonneg [of "vals r"] by auto
  have add: "c_add cur (snd ax) = Inr (cur + snd ax)" "c_sub (cur + snd ax) (snd ax) = Inr cur"
    using w(3,4) by (auto simp: c_int_defs)
  let ?out = "\<lambda>t. map (\<lambda>q. path_line s ((path @ [snd ax]) @ q)) (filter (\<lambda>q. cur + snd ax + sum_list q = s) (paths (vals t)))"
  have leaf: "lp = None \<longleftrightarrow> l = Leaf" "rp = None \<longleftrightarrow> r = Leaf" using n(3,4) is_tree_None by (metis is_tree.simps(1))+
  have IH: "(if lp \<noteq> None then findPath f h lp s (path @ [snd ax]) (cur + snd ax) else Inr []) = Inr (?out l)"
      "(if rp \<noteq> None then findPath f h rp s (path @ [snd ax]) (cur + snd ax) else Inr []) = Inr (?out r)"
    using Node.IH(1) [OF n(3) f(2) w(1)] Node.IH(2) [OF n(4) f(3) w(2)] leaf by auto
  have step: "findPath fuel h p s path cur = (if l = Leaf \<and> r = Leaf
      then if cur + snd ax = s then Inr [path_line s (path @ [snd ax])] else Inr [] else Inr (?out l @ ?out r))"
    using IH leaf n(1,2) f(1) add by (cases lp; cases rp) (auto simp: deref_def path_line_def)
  show ?case
  proof (cases "l = Leaf \<and> r = Leaf")
    case False
    have "map (\<lambda>q. path_line s (path @ q)) (filter (\<lambda>q. cur + sum_list q = s) (map ((#) (snd ax)) (paths (vals u)))) = ?out u" for u
      by (simp add: filter_map comp_def add.assoc)
    then show ?thesis using step False by simp
  qed (use step in simp)
qed

text \<open>
  The path search prints exactly the paths from the root to a leaf whose values add up to the given sum, from
  left to right, for every tree whose values are small enough not to overflow.
\<close>

theorem findPathWithSum_correct:
  assumes "is_tree h p t" "height t < fuel" "weight (vals t) \<le> INT_MAX"
  shows "findPathWithSum fuel h p s = Inr (map (path_line s) (filter (\<lambda>q. sum_list q = s) (paths (vals t))))"
  using findPath_finds [of h p t fuel 0 s "[]"] assms is_tree_None [of h t] by (auto simp: findPathWithSum_def)

section \<open>Witnesses\<close>

definition sample_store :: store where
  "sample_store = [0 \<mapsto> \<lparr>data = 1, left = Some 1, right = Some 2\<rparr>, 1 \<mapsto> \<lparr>data = 2, left = None, right = None\<rparr>, 2 \<mapsto> \<lparr>data = 3, left = None, right = None\<rparr>]"

definition sample_tree :: atree where
  "sample_tree = Node (Node Leaf (1, 2) Leaf) (0, 1) (Node Leaf (2, 3) Leaf)"

lemma sample_is_tree: "is_tree sample_store (Some 0) sample_tree" "distinct (addrs sample_tree)"
  by (simp_all add: sample_store_def sample_tree_def)

theorem tree_functions_correct_witness:
  "preOrderTraversal 3 sample_store (Some 0) = Inr [1, 2, 3] \<and> freeTree 3 (Some 0) sample_store = Inr Map.empty"
proof -
  have "(\<lambda>a. if a \<in> set (addrs sample_tree) then None else sample_store a) = Map.empty"
    by (auto simp: sample_tree_def sample_store_def fun_eq_iff)
  then show ?thesis using tree_functions_correct [OF sample_is_tree, of 3] by (simp add: sample_tree_def)
qed

theorem levels_printed_witness:
  "printTopToBottom 4 sample_store (Some 0) = Inr (line (printed [1]) @ line (printed [2, 3])) \<and>
   printZigZag 4 sample_store (Some 0) = Inr (line (printed [1]) @ line (printed [3, 2]))"
  using levels_printed [OF sample_is_tree(1), of 4] by (simp add: sample_tree_def upt_rec sided_def)

theorem findPathWithSum_correct_witness:
  "findPathWithSum 3 sample_store (Some 0) 4 = Inr [path_line 4 [1, 3]]"
  using findPathWithSum_correct [OF sample_is_tree(1), of 3 4] by (simp add: sample_tree_def INT_MAX_def)

end
