(* ===== verification/Paxos_Tests.thy ===== *)
theory Paxos_Tests
  imports C_Text
begin

text \<open>
  \<^verbatim>\<open>static_library/\<close>: the message types of \<^verbatim>\<open>include/paxos_types.h\<close> as packed bytes, and the test
  programs of acceptor, learner and proposer. libpaxos itself is there as a binary archive only, so its
  functions are parameters. The tests print every message through the member \<^verbatim>\<open>u.accept\<close> of the union;
  the theorems say when that view is the right one, and that two of the three programs always run into
  undefined behaviour.
\<close>

section \<open>Messages\<close>

record paxos_value =
  paxos_value_len :: int
  paxos_value_val :: u64

text \<open>The members of \<^verbatim>\<open>paxos_prepare\<close>, \<^verbatim>\<open>paxos_promise\<close>, \<^verbatim>\<open>paxos_accept\<close>, \<^verbatim>\<open>paxos_accepted\<close> and
  \<^verbatim>\<open>paxos_preempted\<close>.\<close>

record paxos_fields =
  iid :: u32
  ballot :: u16
  value_ballot :: u16
  aid :: u16
  pvalue :: paxos_value

datatype paxos_message =
    Prepare paxos_fields
  | Promise paxos_fields
  | Accept paxos_fields
  | Accepted paxos_fields
  | Preempted paxos_fields
  | Repeat u32 u32
  | Trim u32
  | Acceptor_state u32 u32
  | Client_value paxos_value

fun paxos_message_type :: "paxos_message \<Rightarrow> nat" where
  "paxos_message_type (Prepare m) = 0"
| "paxos_message_type (Promise m) = 1"
| "paxos_message_type (Accept m) = 2"
| "paxos_message_type (Accepted m) = 3"
| "paxos_message_type (Preempted m) = 4"
| "paxos_message_type (Repeat a b) = 5"
| "paxos_message_type (Trim a) = 6"
| "paxos_message_type (Acceptor_state a b) = 7"
| "paxos_message_type (Client_value v) = 8"

text \<open>The packed structures as bytes; a message is its type and the union, 26 bytes in all.\<close>

definition value_bytes :: "paxos_value \<Rightarrow> bytes" where
  "value_bytes v = le_bytes 4 (nat (paxos_value_len v mod 2 ^ 32)) @ le_bytes 8 (unat (paxos_value_val v))"

definition fields_bytes :: "paxos_fields \<Rightarrow> bytes" where
  "fields_bytes m = le_bytes 4 (unat (iid m)) @ le_bytes 2 (unat (ballot m)) @ le_bytes 2 (unat (value_ballot m)) @
     le_bytes 2 (unat (aid m)) @ value_bytes (pvalue m)"

fun union_bytes :: "paxos_message \<Rightarrow> bytes" where
  "union_bytes (Prepare m) = fields_bytes m"
| "union_bytes (Promise m) = fields_bytes m"
| "union_bytes (Accept m) = fields_bytes m"
| "union_bytes (Accepted m) = fields_bytes m"
| "union_bytes (Preempted m) = fields_bytes m"
| "union_bytes (Repeat a b) = le_bytes 4 (unat a) @ le_bytes 4 (unat b)"
| "union_bytes (Trim a) = le_bytes 4 (unat a)"
| "union_bytes (Acceptor_state a b) = le_bytes 4 (unat a) @ le_bytes 4 (unat b)"
| "union_bytes (Client_value v) = value_bytes v"

definition sizeof_message :: nat where "sizeof_message = 26"

text \<open>Memory whose bytes may be uninitialised, and the assignment of a message to it.\<close>

type_synonym out_buf = "u8 option list"

definition store_message :: "paxos_message \<Rightarrow> out_buf \<Rightarrow> out_buf cres" where
  "store_message m out = wr_slice out 0 (map Some (le_bytes 4 (paxos_message_type m) @ union_bytes m))"

definition rd_init :: "out_buf \<Rightarrow> nat \<Rightarrow> nat \<Rightarrow> bytes cres" where
  "rd_init m off n = bindE (rd_slice m off n) (\<lambda>bs. if None \<in> set bs then Inl UninitRead else Inr (map the bs))"

definition to_int :: "nat \<Rightarrow> int" where
  "to_int n = (if n < 2 ^ 31 then int n else int n - 2 ^ 32)"

text \<open>\<^verbatim>\<open>%s\<close> of a pointer: the strings in memory are a parameter, the null pointer has none.\<close>

definition c_string :: "(u64 \<Rightarrow> string) \<Rightarrow> u64 \<Rightarrow> string cres" where
  "c_string strs p = (if p = 0 then Inl NullDeref else Inr (strs p))"

text \<open>The members behind \<^verbatim>\<open>u.accept\<close> that are printed; \<^verbatim>\<open>aid\<close> is not read, and is given as zero.\<close>

definition accept_view :: "out_buf \<Rightarrow> paxos_fields cres" where
  "accept_view m =
     bindE (rd_init m 4 4) (\<lambda>i. bindE (rd_init m 8 2) (\<lambda>b. bindE (rd_init m 10 2) (\<lambda>vb.
     bindE (rd_init m 14 4) (\<lambda>l. bindE (rd_init m 18 8) (\<lambda>p.
     Inr \<lparr>iid = of_nat (le_val i), ballot = of_nat (le_val b), value_ballot = of_nat (le_val vb), aid = 0,
       pvalue = \<lparr>paxos_value_len = to_int (le_val l), paxos_value_val = of_nat (le_val p)\<rparr>\<rparr>)))))"

definition dump_text :: "nat \<Rightarrow> paxos_fields \<Rightarrow> string \<Rightarrow> string" where
  "dump_text ty m s = line (''{ .type = '' @ dec_int (to_int ty) @ '', .iid = '' @ dec_int (to_int (unat (iid m))) @ '', .ballot = '' @ dec_nat (unat (ballot m)) @
     '', .value_ballot = '' @ dec_nat (unat (value_ballot m)) @ '', .value = { .len = '' @ dec_int (paxos_value_len (pvalue m)) @ '', val = '' @ s @ ''}}'')"

definition dump_paxos_message :: "(u64 \<Rightarrow> string) \<Rightarrow> out_buf \<Rightarrow> string cres" where
  "dump_paxos_message strs m =
     bindE (rd_init m 0 4) (\<lambda>ty. bindE (accept_view m) (\<lambda>f. bindE (c_string strs (paxos_value_val (pvalue f))) (\<lambda>s.
     Inr (dump_text (le_val ty) f s))))"

section \<open>The acceptor test\<close>

record 'a acceptor_api =
  acceptor_new :: "int \<Rightarrow> 'a"
  acceptor_receive_prepare :: "'a \<Rightarrow> paxos_fields \<Rightarrow> out_buf \<Rightarrow> int \<times> out_buf \<times> 'a"
  acceptor_receive_accept :: "'a \<Rightarrow> paxos_fields \<Rightarrow> out_buf \<Rightarrow> int \<times> out_buf \<times> 'a"

definition null_value :: paxos_value where
  "null_value = \<lparr>paxos_value_len = 0, paxos_value_val = 0\<rparr>"

definition returns_text :: "string \<Rightarrow> int \<Rightarrow> string" where
  "returns_text who ret = line (who @ '' returns '' @ dec_int ret)"

text \<open>A request, its result and the dump of the answer. \<open>out\<close> is a local variable, so it starts uninitialised; \<open>s\<close> is the
  address of the string.\<close>

definition ask :: "(u64 \<Rightarrow> string) \<Rightarrow> ('a \<Rightarrow> paxos_fields \<Rightarrow> out_buf \<Rightarrow> int \<times> out_buf \<times> 'a) \<Rightarrow> paxos_fields \<Rightarrow> 'a \<times> out_buf \<Rightarrow> (string list \<times> 'a) cres" where
  "ask strs receive req = (\<lambda>(acc, out).
     let (ret, out, acc) = receive acc req out in
     bindE (dump_paxos_message strs out) (\<lambda>d. Inr ([returns_text ''acceptor'' ret, d], acc)))"

definition acceptor_main :: "'a acceptor_api \<Rightarrow> (u64 \<Rightarrow> string) \<Rightarrow> u64 \<Rightarrow> string list cres" where
  "acceptor_main api strs s =
     (let acc = acceptor_new api 2;
          v = \<lparr>paxos_value_len = 6, paxos_value_val = s\<rparr>;
          pre = \<lparr>iid = 1, ballot = 2, value_ballot = 0, aid = 0, pvalue = null_value\<rparr>;
          ack = \<lparr>iid = 1, ballot = 2, value_ballot = 1, aid = 0, pvalue = v\<rparr>;
          old_pre = \<lparr>iid = 1, ballot = 1, value_ballot = 0, aid = 0, pvalue = null_value\<rparr>;
          old_ack = \<lparr>iid = 1, ballot = 1, value_ballot = 0, aid = 0, pvalue = null_value\<rparr>;
          zero = replicate sizeof_message (Some 0) in
      bindE (ask strs (acceptor_receive_prepare api) pre (acc, replicate sizeof_message None)) (\<lambda>(o1, acc).
      bindE (dump_paxos_message strs zero) (\<lambda>d.
      bindE (ask strs (acceptor_receive_prepare api) old_pre (acc, zero)) (\<lambda>(o2, acc).
      bindE (ask strs (acceptor_receive_accept api) ack (acc, zero)) (\<lambda>(o3, acc).
      bindE (ask strs (acceptor_receive_prepare api) old_pre (acc, zero)) (\<lambda>(o4, acc).
      bindE (ask strs (acceptor_receive_accept api) old_ack (acc, zero)) (\<lambda>(o5, acc).
      Inr (o1 @ [d] @ o2 @ o3 @ o4 @ o5))))))))"

section \<open>The learner test\<close>

record 'l learner_api =
  learner_new :: "int \<Rightarrow> 'l"
  learner_set_instance_id :: "'l \<Rightarrow> u32 \<Rightarrow> 'l"
  learner_receive_accepted :: "'l \<Rightarrow> paxos_fields \<Rightarrow> 'l"
  learner_deliver_next :: "'l \<Rightarrow> int \<times> 'l"

definition learner_main :: "'l learner_api \<Rightarrow> u64 \<Rightarrow> string list" where
  "learner_main api s =
     (let l = learner_set_instance_id api (learner_new api 3) (-1);
          ack = (\<lambda>a. \<lparr>iid = 0, ballot = 1, value_ballot = 1, aid = a, pvalue = \<lparr>paxos_value_len = 6, paxos_value_val = s\<rparr>\<rparr>);
          (r0, l) = learner_deliver_next api (learner_receive_accepted api l (ack 0));
          (r1, l) = learner_deliver_next api (learner_receive_accepted api l (ack 1));
          (r2, l) = learner_deliver_next api (learner_receive_accepted api l (ack 2)) in
      map (returns_text ''Learner'') [r0, r1, r2])"

section \<open>The proposer test\<close>

record 'p proposer_api =
  proposer_new :: "int \<Rightarrow> int \<Rightarrow> 'p"
  proposer_prepare :: "'p \<Rightarrow> paxos_fields \<times> 'p"
  proposer_receive_promise :: "'p \<Rightarrow> paxos_fields \<Rightarrow> paxos_fields \<Rightarrow> int \<times> paxos_fields \<times> 'p"
  proposer_accept :: "'p \<Rightarrow> paxos_fields option \<Rightarrow> int \<times> paxos_fields option \<times> 'p"

definition dump_prepare_message :: "(u64 \<Rightarrow> string) \<Rightarrow> paxos_fields \<Rightarrow> string cres" where
  "dump_prepare_message strs m =
     bindE (c_string strs (paxos_value_val (pvalue m))) (\<lambda>s.
     Inr (line (''PREPARE: .iid = '' @ dec_int (to_int (unat (iid m))) @ '', .ballot = '' @ dec_nat (unat (ballot m)) @
       '', .value_ballot = '' @ dec_nat (unat (value_ballot m)) @ '', .value = { .len = '' @ dec_int (paxos_value_len (pvalue m)) @ '', val = '' @ s @ ''}}'')))"

definition dump_accept_message :: "(u64 \<Rightarrow> string) \<Rightarrow> paxos_fields \<Rightarrow> string" where
  "dump_accept_message strs m =
     line ''dump_accept_message'' @ ''ACCEPT: .iid = '' @ dec_int (to_int (unat (iid m))) @ '', .ballot = '' @ dec_nat (unat (ballot m)) @
     '', .value_ballot = '' @ dec_nat (unat (value_ballot m)) @ '', .value = '' @
     (if paxos_value_val (pvalue m) \<noteq> 0
      then line ('' {.len='' @ dec_int (paxos_value_len (pvalue m)) @ '', val='' @ strs (paxos_value_val (pvalue m)) @ ''}'')
      else line ''NULL }'')"

text \<open>\<open>ret\<close> and \<open>acpt\<close> are \<open>None\<close> until something is assigned.\<close>

definition print_ret :: "int option \<Rightarrow> string cres" where
  "print_ret ret = (case ret of None \<Rightarrow> Inl UninitRead | Some r \<Rightarrow> Inr (returns_text ''proposer'' r))"

definition zero_fields :: paxos_fields where
  "zero_fields = \<lparr>iid = 0, ballot = 0, value_ballot = 0, aid = 0, pvalue = null_value\<rparr>"

definition proposer_main :: "'p proposer_api \<Rightarrow> (u64 \<Rightarrow> string) \<Rightarrow> u64 \<Rightarrow> string list cres" where
  "proposer_main api strs s =
     (let ret = None; p = proposer_new api 0 3;
          v = \<lparr>paxos_value_len = 6, paxos_value_val = s\<rparr>;
          promise = \<lparr>iid = 1, ballot = 12, value_ballot = 1, aid = 0, pvalue = v\<rparr>;
          (pre, p) = proposer_prepare api p in
      bindE (print_ret ret) (\<lambda>t1. bindE (dump_prepare_message strs pre) (\<lambda>d1.
      let (r, pre, p) = proposer_receive_promise api p promise zero_fields in
      bindE (print_ret (Some r)) (\<lambda>t2. bindE (dump_prepare_message strs pre) (\<lambda>d2.
      let (r, acpt, p) = proposer_accept api p None in
      bindE (print_ret (Some r)) (\<lambda>t3.
      let (r, pre, p) = proposer_receive_promise api p (promise\<lparr>aid := 2\<rparr>) pre in
      bindE (print_ret (Some r)) (\<lambda>t4. bindE (dump_prepare_message strs pre) (\<lambda>d4.
      let (r, acpt, p) = proposer_accept api p (Some zero_fields) in
      bindE (print_ret (Some r)) (\<lambda>t5.
      case acpt of None \<Rightarrow> Inl UninitRead
      | Some a \<Rightarrow> Inr [t1, d1, t2, d2, t3, t4, d4, t5, dump_accept_message strs a])))))))))"

section \<open>What the dump shows\<close>

fun fields_of :: "paxos_message \<Rightarrow> paxos_fields option" where
  "fields_of (Prepare f) = Some f"
| "fields_of (Promise f) = Some f"
| "fields_of (Accept f) = Some f"
| "fields_of (Accepted f) = Some f"
| "fields_of (Preempted f) = Some f"
| "fields_of m = None"

lemma union_of_fields: "fields_of m = Some f \<Longrightarrow> union_bytes m = fields_bytes f"
  by (cases m) auto

lemma length_value_bytes [simp]: "length (value_bytes v) = 12"
  by (simp add: value_bytes_def)

lemma short_union: "fields_of m = None \<Longrightarrow> length (union_bytes m) \<le> 12"
  by (cases m) auto

lemma type_small: "paxos_message_type m \<le> 8"
  by (cases m) auto

lemma rd_init_at:
  assumes "length xs = off" "length ys = n"
  shows "rd_init (xs @ map Some ys @ zs) off n = Inr ys"
proof -
  have "rd_slice (xs @ map Some ys @ zs) off n = Inr (map Some ys)" using assms by (simp add: rd_slice_def)
  then show ?thesis by (auto simp: rd_init_def comp_def)
qed

lemma rd_init_hole:
  assumes "off + n \<le> length m" "off \<le> k" "k < off + n" "m ! k = None"
  shows "rd_init m off n = Inl UninitRead"
proof -
  have "take n (drop off m) ! (k - off) = None" "k - off < length (take n (drop off m))" using assms by auto
  then have "None \<in> set (take n (drop off m))" by (metis nth_mem)
  then show ?thesis using assms(1) by (simp add: rd_init_def rd_slice_def)
qed

lemma to_int_mod: "in_int x \<Longrightarrow> to_int (nat (x mod 4294967296)) = x"
proof -
  assume x: "in_int x"
  have "x mod 4294967296 = (if 0 \<le> x then x else x + 4294967296)"
  proof (cases "0 \<le> x")
    case False
    have "x mod 4294967296 = (x + 4294967296) mod 4294967296" by simp
    also have "\<dots> = x + 4294967296" using False x by (intro mod_pos_pos_trivial) (auto simp: in_int_def INT_MIN_def)
    finally show ?thesis using False by simp
  qed (use x in \<open>simp add: in_int_def INT_MAX_def\<close>)
  then show ?thesis using x by (auto simp: to_int_def in_int_def INT_MAX_def INT_MIN_def)
qed

lemma accept_view_fields:
  assumes "length ty = 4" "in_int (paxos_value_len (pvalue f))"
  shows "accept_view (map Some (ty @ fields_bytes f)) = Inr (f\<lparr>aid := 0\<rparr>)"
proof -
  define i b vb a l q where d: "i = le_bytes 4 (unat (iid f))" "b = le_bytes 2 (unat (ballot f))" "vb = le_bytes 2 (unat (value_ballot f))"
    "a = le_bytes 2 (unat (aid f))" "l = le_bytes 4 (nat (paxos_value_len (pvalue f) mod 2 ^ 32))" "q = le_bytes 8 (unat (paxos_value_val (pvalue f)))"
  have len: "length i = 4" "length b = 2" "length vb = 2" "length a = 2" "length l = 4" "length q = 8" by (simp_all add: d)
  have m: "map Some (ty @ fields_bytes f) = map Some ty @ map Some i @ map Some b @ map Some vb @ map Some a @ map Some l @ map Some q"
    by (simp add: fields_bytes_def value_bytes_def d)
  have r: "rd_init (map Some (ty @ fields_bytes f)) 4 4 = Inr i" "rd_init (map Some (ty @ fields_bytes f)) 8 2 = Inr b"
      "rd_init (map Some (ty @ fields_bytes f)) 10 2 = Inr vb"
      "rd_init (map Some (ty @ fields_bytes f)) 14 4 = Inr l" "rd_init (map Some (ty @ fields_bytes f)) 18 8 = Inr q"
    unfolding m using len assms(1) rd_init_at [of "map Some ty" 4 i 4] rd_init_at [of "map Some ty @ map Some i" 8 b 2]
      rd_init_at [of "map Some ty @ map Some i @ map Some b" 10 vb 2]
      rd_init_at [of "map Some ty @ map Some i @ map Some b @ map Some vb @ map Some a" 14 l 4]
      rd_init_at [of "map Some ty @ map Some i @ map Some b @ map Some vb @ map Some a @ map Some l" 18 q 8 "[]"] by simp_all
  have ptr: "unat (paxos_value_val (pvalue f)) < 18446744073709551616" using unsigned_less [of "paxos_value_val (pvalue f)"] by simp
  have v: "of_nat (le_val i) = iid f" "of_nat (le_val b) = ballot f" "of_nat (le_val vb) = value_ballot f"
      "to_int (le_val l) = paxos_value_len (pvalue f)" "of_nat (le_val q) = paxos_value_val (pvalue f)"
    using ptr to_int_mod [OF assms(2)] by (simp_all add: d le_val_le_bytes nat_less_iff unat_u32_less unat_u16_less)
  show ?thesis unfolding accept_view_def r by (simp add: v)
qed

text \<open>
  C35. The union is read through \<^verbatim>\<open>u.accept\<close> whatever its type says. For the five types with the members of
  \<^verbatim>\<open>paxos_accept\<close> this shows their members, given that the value is not the null pointer; for the other four, assigned to
  a fresh variable, the dump reads bytes that were never written.
\<close>

theorem dump_through_accept:
  assumes "pred_option (\<lambda>f. in_int (paxos_value_len (pvalue f))) (fields_of m)"
  shows "bindE (store_message m (replicate sizeof_message None)) (dump_paxos_message strs) =
    (case fields_of m of None \<Rightarrow> Inl UninitRead
     | Some f \<Rightarrow> if paxos_value_val (pvalue f) = 0 then Inl NullDeref
         else Inr (dump_text (paxos_message_type m) f (strs (paxos_value_val (pvalue f)))))"
proof -
  let ?ty = "le_bytes 4 (paxos_message_type m)" and ?out = "map Some (le_bytes 4 (paxos_message_type m) @ union_bytes m)"
  have ty: "le_val ?ty = paxos_message_type m" using type_small [of m] by (simp add: le_val_le_bytes)
  show ?thesis
  proof (cases "fields_of m")
    case (Some f)
    have u: "union_bytes m = fields_bytes f" using union_of_fields [OF Some] .
    have "store_message m (replicate sizeof_message None) = Inr ?out" by (simp add: store_message_def wr_slice_def sizeof_message_def u fields_bytes_def)
    moreover have "rd_init ?out 0 4 = Inr ?ty" using rd_init_at [of "[]" 0 ?ty 4 "map Some (union_bytes m)"] by simp
    moreover have "accept_view ?out = Inr (f\<lparr>aid := 0\<rparr>)" unfolding u using assms Some by (intro accept_view_fields) simp_all
    ultimately show ?thesis using Some ty by (simp add: dump_paxos_message_def c_string_def dump_text_def)
  next
    case None
    let ?m = "?out @ drop (length ?out) (replicate 26 None)"
    have l: "length ?out \<le> 16" "length ?m = 26" using short_union [OF None] by simp_all
    have st: "store_message m (replicate sizeof_message None) = Inr ?m" using l by (simp add: store_message_def wr_slice_def sizeof_message_def)
    have t: "rd_init ?m 0 4 = Inr ?ty" using rd_init_at [of "[]" 0 ?ty 4] by simp
    have "?m ! 25 = None" using l(1) by (simp add: nth_append)
    then have hole: "rd_init ?m 18 8 = Inl UninitRead" by (intro rd_init_hole [of _ _ _ 25]) (use l in simp_all)
    have others: "rd_init ?m off n \<in> range Inr \<union> {Inl UninitRead}" if "off + n \<le> 26" for off n
      using that l(2) by (auto simp: rd_init_def rd_slice_def)
    have "accept_view ?m = Inl UninitRead"
      using others [of 4 4] others [of 8 2] others [of 10 2] others [of 14 4] unfolding accept_view_def hole by auto
    then show ?thesis unfolding st using None t by (simp add: dump_paxos_message_def)
  qed
qed

text \<open>
  The acceptor test cannot run to its end, whatever the acceptor answers: it clears the message and prints it, handing
  a null pointer to \<^verbatim>\<open>%s\<close>.
\<close>

theorem acceptor_test_fails: "\<nexists>out. acceptor_main api strs s = Inr out"
proof -
  have z: "le_val (replicate n 0) = 0" for n by (induction n) auto
  define zero :: out_buf where "zero = replicate sizeof_message (Some 0)"
  have "rd_init zero off n = Inr (replicate n 0)" if "off + n \<le> 26" for off n
    using that by (auto simp: rd_init_def rd_slice_def sizeof_message_def zero_def min_def)
  then have "dump_paxos_message strs zero = Inl NullDeref" by (simp add: dump_paxos_message_def accept_view_def c_string_def z)
  then show ?thesis unfolding acceptor_main_def Let_def zero_def [symmetric] by (auto simp: bindE_eq_Inr)
qed

text \<open>The proposer test prints \<^verbatim>\<open>ret\<close> before anything is assigned to it.\<close>

lemma proposer_test_uninitialised: "proposer_main api strs s = Inl UninitRead"
  by (simp add: proposer_main_def print_ret_def split: prod.split)

section \<open>Witness\<close>

definition sample_fields :: paxos_fields where
  "sample_fields = \<lparr>iid = 1, ballot = 2, value_ballot = 1, aid = 0, pvalue = \<lparr>paxos_value_len = 6, paxos_value_val = 9\<rparr>\<rparr>"

theorem dump_through_accept_witness:
  "bindE (store_message (Promise sample_fields) (replicate sizeof_message None)) (dump_paxos_message (\<lambda>p. ''Hello'')) =
     Inr (dump_text 1 sample_fields ''Hello'')"
  using dump_through_accept [of "Promise sample_fields" "\<lambda>p. ''Hello''"] by (simp add: sample_fields_def in_int_def INT_MAX_def INT_MIN_def)

end
