(* ===== verification/Small_Programs.thy ===== *)
theory Small_Programs
  imports C_Text
begin

text \<open>
  The tool examples in C (\<^verbatim>\<open>cmake-tutorial/\<close>, \<^verbatim>\<open>profiling/\<close>, \<^verbatim>\<open>multithread/\<close>) and the language examples in C++
  (\<^verbatim>\<open>c++/src/inheritance.cpp\<close>, \<^verbatim>\<open>poly.cpp\<close>, \<^verbatim>\<open>overload.cpp\<close>, \<^verbatim>\<open>hashmap/src/main.cc\<close>): a few lines each, with
  their exact output, and for the factorial the range in which it is right.
\<close>

section \<open>cmake-tutorial\<close>

definition print_hello :: string where
  "print_hello = line ''Hello World!''"

text \<open>The recursion stops at 1 only.\<close>

fun factorial :: "nat \<Rightarrow> int \<Rightarrow> int cres" where
  "factorial 0 n = Inl NoReturn"
| "factorial (Suc fuel) n =
     (if n \<noteq> 1 then bindE (c_sub n 1) (\<lambda>m. bindE (factorial fuel m) (\<lambda>r. c_mul n r)) else Inr 1)"

definition tutorial_main :: "nat \<Rightarrow> string list cres" where
  "tutorial_main fuel = bindE (factorial fuel 5) (\<lambda>r. Inr [print_hello, line (''The factorial of 5 is '' @ dec_int r)])"

lemma factorial_small:
  assumes "1 \<le> k" "k \<le> 12" "k < fuel"
  shows "factorial fuel (int k) = Inr (fact k)"
  using assms
proof (induction k arbitrary: fuel rule: dec_induct)
  case base
  then show ?case by (cases fuel) auto
next
  case (step k)
  then obtain f where f: "fuel = Suc f" "k < f" by (cases fuel) auto
  have "fact (Suc k) \<le> (fact 12 :: int)" using step.prems by (intro fact_mono) auto
  moreover have "fact 12 = (479001600 :: int)" by (simp add: fact_numeral)
  moreover have "0 \<le> (fact (Suc k) :: int)" by simp
  ultimately have "in_int (fact (Suc k))" unfolding in_int_def INT_MAX_def INT_MIN_def by linarith
  then have "c_mul (int (Suc k)) (fact k) = Inr (fact (Suc k))" by (simp add: c_mul_def)
  moreover have "c_sub (int (Suc k)) 1 = Inr (int k)" using step.prems by (simp add: c_sub_def in_int_def INT_MAX_def INT_MIN_def)
  ultimately show ?case using step.IH [of f] step.prems step.hyps f by auto
qed

text \<open>
  The factorial is right from 1 to 12, overflows from 13 on, and for 0 and negative numbers the recursion does not
  return, however deep it may go.
\<close>

theorem factorial_range:
  assumes "in_int n"
  shows "(1 \<le> n \<and> n \<le> 12 \<longrightarrow> nat n < fuel \<longrightarrow> factorial fuel n = Inr (fact (nat n))) \<and>
    (13 \<le> n \<longrightarrow> nat n < fuel \<longrightarrow> factorial fuel n = Inl SignedOverflow) \<and>
    (n \<le> 0 \<longrightarrow> (\<nexists>r. factorial fuel n = Inr r))"
proof (intro conjI impI)
  show "factorial fuel n = Inr (fact (nat n))" if "1 \<le> n \<and> n \<le> 12" "nat n < fuel"
  proof -
    have "1 \<le> nat n" "nat n \<le> 12" using that(1) by linarith+
    then show ?thesis using factorial_small [of "nat n" fuel] that by simp
  qed
next
  assume big: "13 \<le> n" "nat n < fuel"
  have "factorial fuel (int k) = Inl SignedOverflow" if "13 \<le> k" "k < fuel" "in_int (int k)" for k fuel
    using that
  proof (induction k arbitrary: fuel rule: dec_induct)
    case base
    then obtain f where f: "fuel = Suc f" "12 < f" by (cases fuel) auto
    have "factorial f 12 = Inr 479001600" using factorial_small [of 12 f] f by (simp add: fact_numeral)
    then show ?case using f(1) by (simp add: c_sub_def c_mul_def in_int_def INT_MAX_def INT_MIN_def)
  next
    case (step k)
    then obtain f where f: "fuel = Suc f" "k < f" by (cases fuel) auto
    have "in_int (int k)" using step.prems(2) by (simp add: in_int_def INT_MAX_def INT_MIN_def)
    then have "c_sub (int (Suc k)) 1 = Inr (int k)" "factorial f (int k) = Inl SignedOverflow" using step.IH [OF f(2)] by (simp_all add: c_sub_def)
    then show ?case using f(1) step.hyps by simp
  qed
  from this [of "nat n" fuel] show "factorial fuel n = Inl SignedOverflow" using big assms by simp
next
  assume "n \<le> 0"
  then show "\<nexists>r. factorial fuel n = Inr r"
  proof (induction fuel arbitrary: n)
    case (Suc fuel)
    then show ?case using Suc.IH [of "n - 1"] by (auto simp: c_sub_def bindE_eq_Inr split: if_splits)
  qed simp
qed

lemma tutorial_output: "tutorial_main 6 = Inr [line ''Hello World!'', line ''The factorial of 5 is 120'']"
  by code_simp

section \<open>profiling\<close>

definition BUFSIZE :: int where "BUFSIZE = 1024"
definition TIMES :: nat where "TIMES = 1000000"

text \<open>The buffers are local arrays, uninitialised at first. A size below 2 makes \<^verbatim>\<open>memset\<close> write far too much.\<close>

definition func2 :: "int \<Rightarrow> u8 option list \<Rightarrow> u8 option list cres" where
  "func2 size' buf =
     (if size' < 2 then Inl OutOfBounds
      else bindE (wr_slice buf 0 (replicate (nat (size' - 2)) (Some (of_char (CHR ''c''))))) (\<lambda>buf. wr buf (size' - 1) (Some 0)))"

definition repeat_func2 :: "nat \<Rightarrow> int \<Rightarrow> u8 option list \<Rightarrow> u8 option list cres" where
  "repeat_func2 rounds size' buf = foldE (\<lambda>i. func2 size') [0..<rounds] buf"

definition heap_allocation :: "u8 option list \<Rightarrow> int \<Rightarrow> u8 option list cres" where
  "heap_allocation buf size' = repeat_func2 TIMES size' buf"

definition stack_allocation :: "u8 option list cres" where
  "stack_allocation = repeat_func2 TIMES BUFSIZE (replicate (nat BUFSIZE) None)"

definition profiling_main :: "int cres" where
  "profiling_main =
     bindE (heap_allocation (replicate (nat BUFSIZE) None) BUFSIZE) (\<lambda>buf. bindE stack_allocation (\<lambda>buf2. Inr 0))"

lemma func2_fills:
  assumes "length buf = n" "2 \<le> n"
  shows "func2 (int n) buf = Inr (replicate (n - 2) (Some (of_char (CHR ''c''))) @ [buf ! (n - 2), Some 0])"
proof -
  have n: "nat (int n - 2) = n - 2" "nat (int n - 1) = n - 1" using assms(2) by simp_all
  have d: "drop (n - 2) buf = [buf ! (n - 2), buf ! (n - 1)]"
    using assms by (simp add: Cons_nth_drop_Suc [symmetric] numeral_2_eq_2 Suc_diff_Suc)
  have "wr_slice buf 0 (replicate (n - 2) (Some (of_char (CHR ''c'')))) = Inr (replicate (n - 2) (Some (of_char (CHR ''c''))) @ drop (n - 2) buf)"
    using assms by (simp add: wr_slice_def)
  then show ?thesis using assms n d by (auto simp: func2_def wr_def list_update_append Suc_diff_Suc numeral_2_eq_2)
qed

text \<open>
  The profiled function leaves one byte of the buffer as it was: all but the last two bytes are filled, the last is the
  terminator, and the one before it is never written, so that after a million rounds it still is uninitialised.
\<close>

theorem profiling_leaves_a_byte:
  assumes "0 < rounds" "length buf = n" "2 \<le> n"
  shows "repeat_func2 rounds (int n) buf = Inr (replicate (n - 2) (Some (of_char (CHR ''c''))) @ [buf ! (n - 2), Some 0])"
  using assms(1)
proof (induction rounds rule: nat_induct_non_zero)
  case 1
  then show ?case using func2_fills [OF assms(2,3)] by (simp add: repeat_func2_def)
next
  case (Suc k)
  let ?b = "replicate (n - 2) (Some (of_char (CHR ''c''))) @ [buf ! (n - 2), Some 0]"
  have "func2 (int n) ?b = Inr ?b" using func2_fills [of ?b n] assms(3) by (simp add: nth_append)
  then show ?case using Suc by (simp add: repeat_func2_def foldE_append)
qed

section \<open>multithread\<close>

definition sig_handler :: "int \<Rightarrow> bool \<Rightarrow> bool" where
  "sig_handler signo stopped = True"

text \<open>The thread's loop over the values of \<^verbatim>\<open>stopped\<close> it sees; \<^verbatim>\<open>freopen\<close> may fail.\<close>

fun yes_loop :: "bool list \<Rightarrow> string list" where
  "yes_loop [] = []"
| "yes_loop (stopped # seen) = (if \<not> stopped then line ''y'' # yes_loop seen else [])"

definition yesThread :: "bool \<Rightarrow> bool list \<Rightarrow> string list cres" where
  "yesThread reopened seen = (if reopened then Inr (yes_loop seen) else if seen = [] \<or> hd seen then Inr [] else Inl NullDeref)"

text \<open>One thread for each processor, with what \<^verbatim>\<open>freopen\<close> gave it and what it sees.\<close>

definition multithread_main :: "nat \<Rightarrow> (nat \<Rightarrow> bool) \<Rightarrow> (nat \<Rightarrow> bool list) \<Rightarrow> string list list cres" where
  "multithread_main n_procs reopened seen = mapE (\<lambda>i. yesThread (reopened i) (seen i)) [0..<n_procs]"

lemma yes_loop_until_stopped: "yes_loop seen = replicate (length (takeWhile Not seen)) (line ''y'')"
  by (induction seen) auto

section \<open>Classes\<close>

record rectangle =
  width :: "int option"
  height :: "int option"

definition member :: "int option \<Rightarrow> int cres" where
  "member m = (case m of None \<Rightarrow> Inl UninitRead | Some v \<Rightarrow> Inr v)"

definition setWidth :: "int \<Rightarrow> rectangle \<Rightarrow> rectangle" where "setWidth w r = r\<lparr>width := Some w\<rparr>"
definition setHeight :: "int \<Rightarrow> rectangle \<Rightarrow> rectangle" where "setHeight h r = r\<lparr>height := Some h\<rparr>"

definition getArea :: "rectangle \<Rightarrow> int cres" where
  "getArea r = bindE (member (width r)) (\<lambda>w. bindE (member (height r)) (\<lambda>h. c_mul w h))"

definition getCost :: "int \<Rightarrow> int cres" where
  "getCost area' = c_mul area' 70"

definition inheritance_main :: "string list cres" where
  "inheritance_main =
     (let rect = setHeight 7 (setWidth 5 \<lparr>width = None, height = None\<rparr>) in
      bindE (getArea rect) (\<lambda>a. bindE (getCost a) (\<lambda>c.
      Inr [line (''Total area: '' @ dec_int a), line (''Paint cost: $'' @ dec_int c)])))"

text \<open>The virtual method is chosen by the class of the object.\<close>

datatype shape = Shape int int | Rectangle int int | Triangle int int

fun area :: "shape \<Rightarrow> (string \<times> int) cres" where
  "area (Shape a b) = Inr (line ''Area Shape'', 0)"
| "area (Rectangle a b) = bindE (c_mul a b) (\<lambda>p. Inr (line ''Area Rectangle'', p))"
| "area (Triangle a b) = bindE (c_mul a b) (\<lambda>p. bindE (c_div p 2) (\<lambda>h. Inr (line ''Area Triangle'', h)))"

definition poly_main :: "string list cres" where
  "poly_main = bindE (area (Rectangle 10 7)) (\<lambda>(s, a). bindE (area (Triangle 10 5)) (\<lambda>(t, b). Inr [s, t]))"

record box =
  breadth :: "int option"
  box_height :: "int option"
  box_length :: "int option"

definition new_box :: box where
  "new_box = \<lparr>breadth = None, box_height = None, box_length = None\<rparr>"

definition getVolume :: "box \<Rightarrow> int cres" where
  "getVolume b = bindE (member (box_height b)) (\<lambda>h. bindE (member (breadth b)) (\<lambda>w. bindE (member (box_length b)) (\<lambda>l.
     bindE (c_mul h w) (\<lambda>p. c_mul p l))))"

definition add_member :: "int option \<Rightarrow> int option \<Rightarrow> int option cres" where
  "add_member a b = bindE (member a) (\<lambda>x. bindE (member b) (\<lambda>y. bindE (c_add x y) (\<lambda>z. Inr (Some z))))"

definition box_plus :: "box \<Rightarrow> box \<Rightarrow> box cres" where
  "box_plus a b =
     bindE (add_member (box_length a) (box_length b)) (\<lambda>l.
     bindE (add_member (breadth a) (breadth b)) (\<lambda>w.
     bindE (add_member (box_height a) (box_height b)) (\<lambda>h.
     Inr \<lparr>breadth = w, box_height = h, box_length = l\<rparr>)))"

text \<open>A volume is printed as a \<^verbatim>\<open>double\<close>: up to six digits it looks like the integer.\<close>

definition overload_main :: "string list cres" where
  "overload_main =
     (let b1 = new_box\<lparr>box_length := Some 6, breadth := Some 7, box_height := Some 5\<rparr>;
          b2 = new_box\<lparr>box_length := Some 12, breadth := Some 13, box_height := Some 10\<rparr> in
      bindE (getVolume b1) (\<lambda>v1. bindE (getVolume b2) (\<lambda>v2. bindE (box_plus b1 b2) (\<lambda>b3. bindE (getVolume b3) (\<lambda>v3.
      Inr [line (''Volume of Box1 : '' @ dec_int v1), line (''Volume of Box2 : '' @ dec_int v2), line (''Volume of Box3 : '' @ dec_int v3)])))))"

section \<open>hashmap\<close>

record map_state =
  state_id :: int
  state_name :: string

definition hashmap_main :: "string list" where
  "hashmap_main =
     (let m = (Map.empty :: int \<Rightarrow> map_state option)(1 \<mapsto> \<lparr>state_id = 1, state_name = ''First state''\<rparr>, 2 \<mapsto> \<lparr>state_id = 2, state_name = ''Second state''\<rparr>) in
      case m 1 of None \<Rightarrow> [] | Some s \<Rightarrow> [line (''Key: '' @ dec_int 1 @ '', Value: '' @ state_name s)])"

lemma example_outputs:
  "inheritance_main = Inr [line ''Total area: 35'', line ''Paint cost: $2450'']"
  "poly_main = Inr [line ''Area Rectangle'', line ''Area Triangle'']"
  "overload_main = Inr [line ''Volume of Box1 : 210'', line ''Volume of Box2 : 1560'', line ''Volume of Box3 : 5400'']"
  "hashmap_main = [line ''Key: 1, Value: First state'']"
  by (simp_all add: inheritance_main_def poly_main_def overload_main_def hashmap_main_def setHeight_def setWidth_def getArea_def getCost_def
      getVolume_def box_plus_def add_member_def new_box_def member_def c_int_defs signed_divide_int_def dec_int_def dec_nat.simps digit_char_def
      char_of_def Let_def numeral_2_eq_2 [symmetric] bit_simps)

section \<open>Witnesses\<close>

theorem factorial_range_witness: "factorial 10 5 = Inr 120 \<and> factorial 20 13 = Inl SignedOverflow \<and> (\<nexists>r. factorial 100 0 = Inr r)"
  using factorial_range [of 5 10] factorial_range [of 13 20] factorial_range [of 0 100] by (simp add: in_int_def INT_MAX_def INT_MIN_def fact_numeral)

theorem profiling_leaves_a_byte_witness:
  "repeat_func2 1000000 4 [None, None, None, None] = Inr [Some (of_char (CHR ''c'')), Some (of_char (CHR ''c'')), None, Some 0]"
  using profiling_leaves_a_byte [of 1000000 "[None, None, None, None]" 4] by (simp add: numeral_2_eq_2)

end
