(* ===== verification/Spec2Isabelle.thy ===== *)
theory Spec2Isabelle
  imports Ring_Buffer Merge_Sort Raw_Socket Rocks_Shell Packet_Sniffer Count_Threads Udp_Echo
    Struct_Message Leveldb_Receiver Dpdk_Responder Dpdk_Generator Khash_Example Khash_Sets
    Uthash_Proxy Uthash_Sort Uthash_Selected Uthash_Keys Uthash_Murmur Uthash_Filtered Khash_Iterate Asio_Timers Receiver_Report
    Cpp_Sorts Cpp_Search Cpp_Graph Binary_Trees Paxos_Tests Small_Programs
begin

text \<open>
  A verification library for the C and C++ programs of the \<^verbatim>\<open>diversity\<close> repository: a collection of
  small systems programs (two hash tables, queues, sorting, trees and graphs, raw sockets, echo servers and their latency
  clients, a RocksDB shell, a LevelDB server over UDP, a packet sniffer, DPDK programs, thread examples, tests of a Paxos library). Paths below are
  relative to the repository root.

  \<^bold>\<open>Conventions.\<close> The machine is x86-64 Linux: little-endian, 32-bit \<open>int\<close>, 64-bit \<open>long\<close>.
  A computation that can run into undefined behaviour or end the process has the type
  \<open>'a cres\<close> of \<open>C_Prelude\<close>: \<open>Inl\<close> a fault (an access outside an object, a read of uninitialised
  memory, a null or dangling pointer, signed overflow, division by zero, a shift that is too wide, a loop that does not end, \<^verbatim>\<open>exit\<close>) or \<open>Inr\<close> the
  result. Signed arithmetic that can overflow is checked (\<open>c_add\<close> and so on), unsigned
  arithmetic is on machine words. Buffers are byte lists with checked accesses; structures linked by pointers live in an explicit memory, a map from
  addresses to records, and using a null or released address is a fault. Loops are
  recursive functions. Where a loop follows pointers or probes a table it has fuel: as much as the structure has items or buckets, and running
  out of it is the fault \<open>NoReturn\<close>. The theorems about these programs state results \<open>Inr\<close>, so they include that the fuel is
  enough. Libraries that are
  not in the repository (RocksDB, LevelDB, readline, libpcap, libevent, boost::asio, DPDK, libpaxos, DNS, system calls) are
  parameters; where a theorem relies on them, their documented behaviour is a named
  predicate (\<open>put_law\<close>, \<open>db_laws\<close>, \<open>open_law\<close> and so on), and the witness of the theorem
  gives an instance.

  \<^bold>\<open>Shared theories.\<close>
  \<^item> \<open>C_Prelude\<close>: faults, checked integers, arrays and byte buffers, byte order.
  \<^item> \<open>C_Text\<close>: \<^verbatim>\<open>ctype.h\<close>, \<^verbatim>\<open>printf\<close> conversions, \<^verbatim>\<open>atoi\<close> and its round trip with \<^verbatim>\<open>%d\<close>.
  \<^item> \<open>Event_Loop\<close>: \<^verbatim>\<open>timespec_diff\<close> of all latency clients, the delivery of events to
    callbacks, and the locale \<open>rate_counter\<close>, the contract of the messages-per-second counters,
    interpreted by every server.
  \<^item> \<open>Linked_Chains\<close>: doubly linked lists in memory, with the lemmas for adding and taking out.

  \<^bold>\<open>Components.\<close>
  \<^item> \<open>Ring_Buffer\<close> (\<^verbatim>\<open>ring_buffer/\<close>): the queue over an array of slots and its test drivers. The
    locale \<open>bounded_queue\<close> states what a client may expect; on a buffer with enough slots the
    operations refine a bounded FIFO queue for every sequence of calls. The allocation of
    \<^verbatim>\<open>NewRingBuffer\<close> has one slot only, so larger queues are overrun, as the test driver shows.
  \<^item> \<open>Merge_Sort\<close> (\<^verbatim>\<open>sorts/mergeSort.c\<close>): the three loops of \<^verbatim>\<open>merge\<close>, the recursion and
    \<^verbatim>\<open>main\<close>; exactly the segment is sorted, nothing else changes, no access is out of bounds,
    and the program prints its arguments in order.
  \<^item> \<open>Inet_Checksum\<close> and \<open>Raw_Socket\<close> (\<^verbatim>\<open>checksum/main.c\<close>, \<^verbatim>\<open>raw_socket/main.c\<close>): \<^verbatim>\<open>csum\<close>
    is the Internet checksum and verifies itself; the bytes of the first packet sent, which carries a
    wrong identification and checksum; the overrun by a long message.
  \<^item> \<open>Rocks_Store\<close> and \<open>Rocks_Shell\<close> (\<^verbatim>\<open>rocksdb_playground/\<close>): all handlers over
    \<^verbatim>\<open>struct rocksdb_params\<close>, the parsing of command lines, completion, and the read loop. A
    written value is read back, batches are atomic and ordered, closed databases are refused,
    lines are parsed as intended, \<^verbatim>\<open>quit\<close> ends the loop; a pending batch is lost or reaches a
    null handle.
  \<^item> \<open>Packet_Sniffer\<close> (\<^verbatim>\<open>libpcap/sniffex.c\<close>): hex dump, dissector and \<^verbatim>\<open>main\<close>. The dump is
    the rows of 16 bytes with aligned columns; the dissector stays inside the capture exactly
    when the IP length field does.
  \<^item> \<open>Count_Threads\<close> (\<^verbatim>\<open>pthread_wait/main.c\<close>): the threads as atomic steps of an interleaving
    relation with spurious wake-ups. One invariant by rule induction gives mutual exclusion, no
    lost wake-up, freedom from deadlock, and the possible results 20 and 145; a rank bounds every
    execution by 140 steps.
  \<^item> \<open>Udp_Echo\<close> (\<^verbatim>\<open>client_server/udp\<close>, \<^verbatim>\<open>client_server/msg_hdr\<close>): clients and servers with
    their \<^verbatim>\<open>main\<close>s. Counters account for every datagram, a round trip is measured exactly,
    SIGINT is not handled, and the batch server sends stale bytes.
  \<^item> \<open>Tcp_Echo\<close> (\<^verbatim>\<open>client_server/tcp\<close>, \<^verbatim>\<open>client_server/uthash\<close>): the servers over connections with two buffers each, and their client. What libevent does
    to the buffers is a parameter (\<open>libevent\<close>): the proxy with its request table refines the echo server whatever that is, and where it is what libevent documents
    (\<open>buffers_documented\<close>) every byte is echoed in order.
  \<^item> \<open>Asio_Timers\<close> (\<^verbatim>\<open>client_server/asio\<close>): the boost::asio echo server and its client. A round trip logs the elapsed time, the client ends after
    100001 replies; replies carry stale and unwritten bytes, and the first throughput is arbitrary.
  \<^item> \<open>Struct_Message\<close> (\<^verbatim>\<open>struct_serialization/\<close>): the layout and round trip of a message, with
    the bytes that are never initialised; client and server.
  \<^item> \<open>Net_Addr\<close> and \<open>Leveldb_Receiver\<close> (\<^verbatim>\<open>fast_leveldb/\<close>,
    \<^verbatim>\<open>how-to-receive-a-million-packets/\<close>): address parsing and printing, sockets, request
    delivery, the receive and send loops. GET returns what PUT stored; stale requests are
    carried out; a second thread cannot start. \<open>Receiver_Report\<close>: the time macros, the wait for a second over the calls of
    \<^verbatim>\<open>select\<close>, which ends once the time-out has passed, and the differences of a report, rounded as the conversion to \<^verbatim>\<open>double\<close> does.
  \<^item> \<open>Dpdk_Responder\<close> (\<^verbatim>\<open>client_server/dpdk/src/basicfwd.c\<close>): the ARP and ICMP handlers on the
    bytes of a frame, the burst loop and the set-up, with DPDK's \<^verbatim>\<open>IPv4\<close> and \<^verbatim>\<open>ether_addr_copy\<close> as parameters (\<open>ipv4_law\<close>, \<open>copy_law\<close>). The exact answer to an ARP packet, for the
    address in the wrong byte order; the answer to an echo request never has a right checksum;
    every buffer is sent or freed.

  \<^item> \<open>Dpdk_Generator\<close> (\<^verbatim>\<open>dpdk/gen_packet/main.c\<close>): the crafted packet byte for byte, its checksum included, the timer, and the buffers it hands to the driver; what
    \<^verbatim>\<open>rte_eth_tx_burst\<close> accepts is a parameter.
  \<^item> \<open>Khash_Bits\<close>, \<open>Khash_Table\<close>, \<open>Khash_Search\<close>, \<open>Khash_Update\<close>, \<open>Khash_Rehash\<close>, \<open>Khash_Map\<close>, \<open>Khash_Example\<close>, \<open>Khash_Iterate\<close>, \<open>Khash_Sets\<close>
    (\<^verbatim>\<open>hash_table/khash.h\<close> and its example): the flag words, the macros' operations with the rehashing in place,
    the invariant, and the map they implement. Probing always ends; resizing keeps the map unless the unchecked reallocation to a smaller size fails, which
    loses it; insertion reports the documented codes; while allocations succeed the locale \<open>checked_map\<close> is met, so that any sequence of operations acts as on a map; iteration visits its entries. The tables that are generated without
    values run as maps whose values are forgotten, and meet the same locale as sets.
  \<^item> \<open>Uthash_Table\<close>, \<open>Uthash_Chains\<close>, \<open>Uthash_Expand\<close>, \<open>Uthash_Ops\<close>, \<open>Uthash_Map\<close>, \<open>Uthash_Hash\<close>, \<open>Uthash_Sort\<close>, \<open>Uthash_Select\<close>, \<open>Uthash_Selected\<close>, \<open>Uthash_Keys\<close>,
    \<open>Uthash_Murmur\<close>, \<open>Uthash_Bloom\<close>, \<open>Uthash_Filtered\<close> (\<^verbatim>\<open>client_server/uthash/src/uthash.h\<close>): handles, buckets and tables in memory. The invariant ties the chains of the
    buckets, the list in the order of insertion and the counters together; the locale \<open>keyed_table\<close> is
    met for every hash function, sorting sorts, the Bloom filter is exact and a table with a filter meets the same locale, \<^verbatim>\<open>HASH_SELECT\<close> selects, but
    leaves a wrong tail and an empty filter. The locale \<open>key_kind\<close> is what
    the macros for strings, integers and pointers need of their keys; with it they give maps. The Murmur hash as it is compiled without unaligned reads
    (any byte order) is, on a little-endian machine, the hash of the key exactly for keys that are aligned or shorter than four bytes. \<open>Uthash_Proxy\<close> is the proxy server with this table:
    it refines the echo server and leaves nothing in memory.
  \<^item> \<open>Cpp_Sorts\<close>, \<open>Cpp_Search\<close>, \<open>Cpp_Stack\<close>, \<open>Cpp_Graph\<close>, \<open>Cpp_Trees\<close> (\<^verbatim>\<open>c++/src\<close>): sorting and searching, the stack and the towers of
    Hanoi, graph searches over a locale of containers, and the search tree in memory. The graph searches are characterised with the matrix entries that were never set: of the graphs the class can
    build, only those with an edge for every pair of vertices are searched without reading one. The merge sort of \<^verbatim>\<open>sorting.cpp\<close> overruns its buffer from four elements on.
  \<^item> \<open>Binary_Trees\<close> (\<^verbatim>\<open>binaryTree/\<close>): traversals, levels, zigzag and path sums of trees in memory.
  \<^item> \<open>Paxos_Tests\<close> (\<^verbatim>\<open>static_library/\<close>): the packed messages byte for byte and the three test programs.
  \<^item> \<open>Small_Programs\<close> (\<^verbatim>\<open>cmake-tutorial\<close>, \<^verbatim>\<open>profiling\<close>, \<^verbatim>\<open>multithread\<close>, \<^verbatim>\<open>hashmap\<close> and the small C++ examples).
  \<^item> This theory: the two hash tables agree, whatever a client does with them.

  \<^bold>\<open>Not modelled.\<close> Floating-point output (averages are kept as integers, and the division of the reported differences into rates and their formatting are left out), the bodies of libpaxos, of which there are only headers and a
  binary archive, programs in other languages (Python, R, gnuplot), build files
  and scripts. \<^verbatim>\<open>raw_socket/main.c\<close>, \<^verbatim>\<open>static_library/include/khash.h\<close> and \<^verbatim>\<open>how-to-receive-a-million-packets/net.c\<close> repeat functions that are modelled from
  their other copies. Counters of messages per second are
  unbounded integers, except where overflow is discussed. Outside the hash tables, \<^verbatim>\<open>malloc\<close> is taken to succeed. The component list of the project manifest
  gives the reason for each part.

  Besides these, what has no definition are functions that only hand names to a library or are never called (\<^verbatim>\<open>initialize_readline\<close>, \<^verbatim>\<open>print_addr\<close>), and the
  debugging output of \<^verbatim>\<open>HASH_EMIT_KEY\<close>.
\<close>

section \<open>The two hash tables\<close>

text \<open>
  \<^verbatim>\<open>khash.h\<close> and \<^verbatim>\<open>uthash.h\<close> solve the same problem in different ways: open addressing in flat arrays, and chains of elements linked by pointers. Operations of a
  client of uthash as operations on a khash map from keys to elements; the answers of the searches among the results of uthash.
\<close>

fun as_map_ops :: "table_op list \<Rightarrow> (bytes, nat) map_op list" where
  "as_map_ops [] = []"
| "as_map_ops (Add k a # ops) = Insert k a # as_map_ops ops"
| "as_map_ops (Find k # ops) = Lookup k # as_map_ops ops"
| "as_map_ops (Del k # ops) = Lookup k # Remove k # as_map_ops ops"

fun answers :: "table_op list \<Rightarrow> ptr list \<Rightarrow> ptr list" where
  "answers (Add k a # ops) (r # rs) = answers ops rs"
| "answers (x # ops) (r # rs) = r # answers ops rs"
| "answers ops rs = []"

lemma map_of_without: "map_of (filter (\<lambda>e. fst e \<noteq> k) es) = (map_of es)(k := None)"
  by (induction es) (auto simp: fun_eq_iff)

lemma specs_agree:
  assumes "ops_allowed M ops es"
  shows "Khash_Example.spec_ops (as_map_ops ops) (map_of es) = (map_of (snd (Uthash_Map.spec_ops ops es)), answers ops (fst (Uthash_Map.spec_ops ops es)))"
  using assms
proof (induction ops arbitrary: es)
  case (Cons x ops)
  show ?case
  proof (cases x)
    case (Add k a)
    then have "(map_of es)(k \<mapsto> a) = map_of (es @ [(k, a)])" using Cons.prems by (auto simp: fun_eq_iff map_add_def split: option.split dest: map_of_SomeD intro: rev_image_eqI)
    then show ?thesis using Cons.IH [of "es @ [(k, a)]"] Cons.prems Add by (simp add: Let_def split: prod.split)
  next
    case (Find k)
    then show ?thesis using Cons.IH [of es] Cons.prems by (simp add: Let_def split: prod.split)
  next
    case (Del k)
    then show ?thesis using Cons.IH [of "filter (\<lambda>e. fst e \<noteq> k) es", unfolded map_of_without] Cons.prems by (simp add: Let_def fun_upd_def split: prod.split)
  qed
qed simp

text \<open>
  C3. The two hash tables agree: whatever allowed operations a client performs on a uthash table, the same insertions, searches and deletions on a khash table, under any
  two hash functions and with allocations that succeed, end without a fault, give the same answers, and leave tables in which every key is found or missing alike.
\<close>

theorem hash_tables_agree:
  assumes "ops_allowed M ops []" "M \<subseteq> alive m" "tables m = Map.empty" "\<And>sz. malloc_ok sz \<Longrightarrow> sz < 2 ^ 36" "inserts (as_map_ops ops) \<le> kh_limit"
    and "run_ops (table_add fcn malloc_ok) (table_find fcn) table_del ops (None, m) = Inr (rs, s)"
  shows "\<exists>h. run_map_ops (kh_insert all_allocated hash_func) (kh_remove hash_func) (kh_lookup hash_func) (as_map_ops ops) (kh_init ()) = Inr (h, answers ops rs) \<and>
    (\<forall>k. length k < 2 ^ 32 \<longrightarrow> kh_lookup hash_func k h = table_find fcn s k)"
proof -
  have lim: "limited malloc_ok = malloc_ok" using assms(4) by (auto simp: limited_def fun_eq_iff)
  have "table_holds fcn M (None, m) []" using assms(2,3) by (simp add: table_holds_def uthash_ok_def)
  from ut.run_refines [OF this assms(1), of malloc_ok, unfolded lim]
  have ut: "rs = fst (Uthash_Map.spec_ops ops [])" "table_holds fcn M s (snd (Uthash_Map.spec_ops ops []))" using assms(6) by auto
  obtain h rs' where kh: "run_map_ops (kh_insert all_allocated hash_func) (kh_remove hash_func) (kh_lookup hash_func) (as_map_ops ops) (kh_init ()) = Inr (h, rs')"
      "kh_ok hash_func (inserts (as_map_ops ops)) h" "(kh_view h, rs') = Khash_Example.spec_ops (as_map_ops ops) Map.empty"
    using kh.run_refines [OF kh_ok_init(1), of "as_map_ops ops" hash_func] assms(5) unfolding kh_ok_init(2) by auto
  have v: "kh_view h = map_of (snd (Uthash_Map.spec_ops ops []))" "rs' = answers ops rs"
    using specs_agree [OF assms(1)] kh(3) ut(1) by simp_all
  have "kh_lookup hash_func k h = table_find fcn s k" if "length k < 2 ^ 32" for k
    using kh_lookup_law [OF kh(2)] table_find_law [OF ut(2) that] v(1) by simp
  then show ?thesis using kh(1) v(2) by blast
qed

theorem hash_tables_agree_witness:
  "\<exists>h. run_map_ops (kh_insert all_allocated (\<lambda>k. 3)) (kh_remove (\<lambda>k. 3)) (kh_lookup (\<lambda>k. 3)) (as_map_ops sample_ops) (kh_init ()) = Inr (h, [Some 0, Some 0, None])"
proof -
  have pre: "ops_allowed {0} sample_ops []" "{0} \<subseteq> alive four_elements" "tables four_elements = Map.empty" "inserts (as_map_ops sample_ops) \<le> kh_limit"
    by (auto simp: sample_ops_def four_elements_def alive_iff kh_limit_def)
  have lim: "\<And>sz :: nat. sz < 1000 \<Longrightarrow> sz < 2 ^ 36" by simp
  obtain s where "run_ops (table_add (\<lambda>k. 7) (\<lambda>sz. sz < 1000)) (table_find (\<lambda>k. 7)) table_del sample_ops (None, four_elements) = Inr ([None, Some 0, Some 0, None], s)"
    using sample_runs [of "\<lambda>k. 7"] by blast
  from hash_tables_agree [OF pre(1-3) lim pre(4) this, of "\<lambda>k. 3"] show ?thesis by (auto simp: sample_ops_def)
qed

end
